(* ===== verification/Prelude.thy ===== *)
theory Prelude
  imports Main "HOL-Library.Word" "HOL-Library.Char_ord" "HOL-Library.AList"
begin

section \<open>Shared vocabulary of the development\<close>

text \<open>
  What every component uses: the names of the machine types, the C++ exceptions the library
  raises as values, the bind of results that may be errors, byte classes of JSON text, and the
  facts on association lists, strings and words the component proofs share.

  A \<open>std::string\<close> is a \<^typ>\<open>string\<close>: HOL characters are bytes, so embedded NUL bytes and
  invalid UTF-8 are ordinary values here, as they are for the code. A \<open>size_t\<close> is a natural
  number where the code keeps it in range by construction or by an explicit check (the check is
  then part of the definition) and a \<open>64 word\<close> where wrap-around is the point.
\<close>

type_synonym u32 = "32 word"
type_synonym u64 = "64 word"
type_synonym i64 = "64 word"  \<comment> \<open>read with \<^const>\<open>sint\<close>\<close>

abbreviation size_max :: nat where
  "size_max \<equiv> 18446744073709551615"

text \<open>The exceptions that library code throws, with their \<open>what()\<close> texts.\<close>

datatype cpp_exception =
    invalid_argument string
  | out_of_range string
  | length_error string
  | logic_error string
  | bad_alloc
  | other_exception

named_theorems json_simps "computation rules of the value operations"
named_theorems path_simps "computation rules of locations and sub-values"
named_theorems budget_simps "computation rules of resource budgets"

subsection \<open>Results that may be errors\<close>

fun try_bind :: "'e + 'a \<Rightarrow> ('a \<Rightarrow> 'e + 'b) \<Rightarrow> 'e + 'b" where
  "try_bind (Inl e) f = Inl e"
| "try_bind (Inr a) f = f a"

lemma try_bind_Inr_iff [simp]:
  "try_bind m f = Inr b \<longleftrightarrow> (\<exists>a. m = Inr a \<and> f a = Inr b)"
  by (cases m) auto

lemma try_bind_Inl_iff:
  "try_bind m f = Inl e \<longleftrightarrow> m = Inl e \<or> (\<exists>a. m = Inr a \<and> f a = Inl e)"
  by (cases m) auto

lemma try_bind_cong [fundef_cong]:
  "m = m' \<Longrightarrow> (\<And>a. m' = Inr a \<Longrightarrow> f a = g a) \<Longrightarrow> try_bind m f = try_bind m' g"
  by (cases m') auto

subsection \<open>Bytes of JSON text\<close>

definition is_digit :: "char \<Rightarrow> bool" where
  "is_digit ch \<longleftrightarrow> CHR ''0'' \<le> ch \<and> ch \<le> CHR ''9''"

definition digit_value :: "char \<Rightarrow> nat" where
  "digit_value ch = of_char ch - 48"

text \<open>Bytes that have no readable literal: backslash, double quote and the control bytes.\<close>

abbreviation backslash :: char where "backslash \<equiv> CHR 0x5C"
abbreviation dquote :: char where "dquote \<equiv> CHR 0x22"
abbreviation char_tab :: char where "char_tab \<equiv> CHR 0x09"
abbreviation char_lf :: char where "char_lf \<equiv> CHR 0x0A"
abbreviation char_cr :: char where "char_cr \<equiv> CHR 0x0D"
abbreviation char_bs :: char where "char_bs \<equiv> CHR 0x08"
abbreviation char_ff :: char where "char_ff \<equiv> CHR 0x0C"

text \<open>\<open>text.find(pat) != npos\<close>.\<close>

fun has_prefix :: "string \<Rightarrow> string \<Rightarrow> bool" where
  "has_prefix [] s = True"
| "has_prefix (p # ps) [] = False"
| "has_prefix (p # ps) (c # cs) = (p = c \<and> has_prefix ps cs)"

fun text_contains :: "string \<Rightarrow> string \<Rightarrow> bool" where
  "text_contains [] pat = has_prefix pat []"
| "text_contains (c # cs) pat = (has_prefix pat (c # cs) \<or> text_contains cs pat)"

lemma has_prefix_iff: "has_prefix p s \<longleftrightarrow> (\<exists>t. s = p @ t)"
  by (induction p s rule: has_prefix.induct) auto

lemma text_contains_iff: "text_contains s pat \<longleftrightarrow> (\<exists>a b. s = a @ pat @ b)"
proof (induction s)
  case Nil
  show ?case by (auto simp: has_prefix_iff)
next
  case (Cons c cs)
  show ?case
  proof
    assume "text_contains (c # cs) pat"
    then show "\<exists>a b. c # cs = a @ pat @ b"
      using Cons.IH by (auto simp: has_prefix_iff intro: exI [of _ "[]"])
        (metis append_Cons)+
  next
    assume "\<exists>a b. c # cs = a @ pat @ b"
    then obtain a b where ab: "c # cs = a @ pat @ b" by blast
    then show "text_contains (c # cs) pat"
    proof (cases a)
      case Nil
      with ab have "has_prefix pat (c # cs)" by (auto simp: has_prefix_iff)
      then show ?thesis by simp
    next
      case (Cons x xs)
      with ab have "cs = xs @ pat @ b" by simp
      with Cons.IH show ?thesis by auto
    qed
  qed
qed

lemma digit_value_less: "is_digit ch \<Longrightarrow> digit_value ch < 10"
  by (auto simp: is_digit_def digit_value_def less_eq_char_def)

subsection \<open>Association lists with distinct keys\<close>

abbreviation distinct_keys :: "('k \<times> 'v) list \<Rightarrow> bool" where
  "distinct_keys ms \<equiv> distinct (map fst ms)"

lemma map_of_update [simp]: "map_of (AList.update k v ms) = (map_of ms)(k \<mapsto> v)"
  by (rule update_conv')

lemma map_of_delete [simp]: "map_of (AList.delete k ms) = (map_of ms)(k := None)"
  by (rule delete_conv')

lemma distinct_keys_update [simp]:
  "distinct_keys ms \<Longrightarrow> distinct_keys (AList.update k v ms)"
  by (rule distinct_update)

lemma distinct_keys_delete [simp]:
  "distinct_keys ms \<Longrightarrow> distinct_keys (AList.delete k ms)"
  by (rule distinct_delete)

lemma map_of_mem: "map_of ms k = Some v \<Longrightarrow> (k, v) \<in> set ms"
  by (rule map_of_SomeD)

lemma set_update_subset: "set (AList.update k v ms) \<subseteq> insert (k, v) (set ms)"
  by (induction ms) auto

lemma set_delete_subset: "set (AList.delete k ms) \<subseteq> set ms"
  by (auto simp: AList.delete_eq)

lemma update_new_key: "map_of ms k = None \<Longrightarrow> AList.update k v ms = ms @ [(k, v)]"
  by (induction ms) (auto split: if_splits)

subsection \<open>Words\<close>

lemma unat_less_2p64: "unat (w :: u64) < 2 ^ 64"
  using unsigned_less [of w] by simp

lemma unat_minus_one_u64: "unat (- 1 :: u64) = size_max"
  by (simp add: unsigned_minus_1_eq_mask mask_eq_exp_minus_1)

subsection \<open>Lists\<close>

lemma sum_list_map_ge: "x \<in> set xs \<Longrightarrow> f x \<le> (sum_list (map f xs) :: nat)"
  by (induction xs) auto

lemma drop_nth_Cons: "i < length xs \<Longrightarrow> drop i xs = xs ! i # drop (Suc i) xs"
  by (rule Cons_nth_drop_Suc [symmetric])

end
