(* ===== verification/Binary64.thy ===== *)
theory Binary64
  imports Prelude
begin

section \<open>The C++ \<open>double\<close>: IEEE 754 binary64\<close>

text \<open>
  A double is its 64-bit interchange encoding. Every finite double is a whole multiple of
  \<open>2 ^ -1074\<close>, so the exact value is carried as the integer \<open>scaled d = value * 2 ^ 1074\<close> and
  comparisons, truncation and conversions are exact integer computations. The same formula gives
  the infinities the scaled values \<open>\<plusminus> 2 ^ 2098\<close>, beyond every finite value. Conversions into a
  double round to nearest, ties to even.
\<close>

datatype double = Binary64 (bits: u64)

definition double_code :: "double \<Rightarrow> nat" where
  "double_code d = unat (bits d) mod 2 ^ 63"

definition sign_bit :: "double \<Rightarrow> bool" where
  "sign_bit d \<longleftrightarrow> 2 ^ 63 \<le> unat (bits d)"

definition exponent_field :: "double \<Rightarrow> nat" where
  "exponent_field d = double_code d div 2 ^ 52"

definition fraction_field :: "double \<Rightarrow> nat" where
  "fraction_field d = double_code d mod 2 ^ 52"

definition isnan :: "double \<Rightarrow> bool" where
  "isnan d \<longleftrightarrow> exponent_field d = 2047 \<and> fraction_field d \<noteq> 0"

definition isfinite :: "double \<Rightarrow> bool" where
  "isfinite d \<longleftrightarrow> exponent_field d \<noteq> 2047"

text \<open>The magnitude of the encoding \<open>c\<close> without its sign bit, in units of \<open>2 ^ -1074\<close>.\<close>

definition code_magnitude :: "nat \<Rightarrow> nat" where
  "code_magnitude c =
     (if c < 2 ^ 52 then c else (2 ^ 52 + c mod 2 ^ 52) * 2 ^ (c div 2 ^ 52 - 1))"

definition scaled :: "double \<Rightarrow> int" where
  "scaled d = (if sign_bit d then - int (code_magnitude (double_code d))
               else int (code_magnitude (double_code d)))"

text \<open>Units per one: kept folded in proofs, its numeral has 324 digits.\<close>

definition units :: nat where "units = 2 ^ 1074"

definition double_less :: "double \<Rightarrow> double \<Rightarrow> bool" where
  "double_less a b \<longleftrightarrow> \<not> isnan a \<and> \<not> isnan b \<and> scaled a < scaled b"

definition double_le :: "double \<Rightarrow> double \<Rightarrow> bool" where
  "double_le a b \<longleftrightarrow> \<not> isnan a \<and> \<not> isnan b \<and> scaled a \<le> scaled b"

definition double_eq :: "double \<Rightarrow> double \<Rightarrow> bool" where
  "double_eq a b \<longleftrightarrow> \<not> isnan a \<and> \<not> isnan b \<and> scaled a = scaled b"

text \<open>\<open>static_cast\<close> of a finite double to an integer: truncation towards zero.\<close>

definition double_trunc :: "double \<Rightarrow> int" where
  "double_trunc d =
     (if sign_bit d then - int (code_magnitude (double_code d) div units)
      else int (code_magnitude (double_code d) div units))"

subsection \<open>Rounding to nearest\<close>

fun bit_length :: "nat \<Rightarrow> nat" where
  "bit_length n = (if n = 0 then 0 else Suc (bit_length (n div 2)))"

declare bit_length.simps [simp del]

lemma bit_length_0 [simp]: "bit_length 0 = 0"
  by (subst bit_length.simps) simp

text \<open>Rounds \<open>q + r / d\<close> to an integer, ties to even.\<close>

definition round_even :: "nat \<Rightarrow> nat \<Rightarrow> nat \<Rightarrow> nat" where
  "round_even q r d =
     (if 2 * r < d then q else if d < 2 * r then Suc q else if even q then q else Suc q)"

text \<open>The encoding nearest to \<open>n / d\<close>, not yet limited to the finite range.\<close>

definition nearest_code :: "nat \<Rightarrow> nat \<Rightarrow> nat" where
  "nearest_code n d =
     (let k = n * units div d; r = n * units mod d; sh = bit_length k - 53
      in sh * 2 ^ 52 + round_even (k div 2 ^ sh) (k mod 2 ^ sh * d + r) (2 ^ sh * d))"

abbreviation infinity_code :: nat where
  "infinity_code \<equiv> 9218868437227405312"  \<comment> \<open>\<open>2047 * 2 ^ 52\<close>\<close>

definition make_double :: "bool \<Rightarrow> nat \<Rightarrow> double" where
  "make_double s c =
     Binary64 (word_of_nat ((if s then 2 ^ 63 else 0) + min c infinity_code))"

definition nearest_double :: "bool \<Rightarrow> nat \<Rightarrow> nat \<Rightarrow> double" where
  "nearest_double s n d = make_double s (nearest_code n d)"

text \<open>\<open>static_cast<double>\<close> of an integer.\<close>

definition double_of_int :: "int \<Rightarrow> double" where
  "double_of_int i = nearest_double (i < 0) (nat \<bar>i\<bar>) 1"

definition double_zero :: double where "double_zero = Binary64 0"
definition double_two63 :: double where "double_two63 = Binary64 0x43E0000000000000"
definition double_minus_two63 :: double where
  "double_minus_two63 = Binary64 0xC3E0000000000000"
definition double_two64 :: double where "double_two64 = Binary64 0x43F0000000000000"
definition double_infinity :: "bool \<Rightarrow> double" where
  "double_infinity s = make_double s infinity_code"
text \<open>The largest finite double of a sign.\<close>
definition double_max :: "bool \<Rightarrow> double" where
  "double_max s = make_double s (infinity_code - 1)"

subsection \<open>Facts on encodings\<close>

lemma double_code_less: "double_code d < 2 ^ 63"
  by (simp add: double_code_def)

lemma unat_make_double:
  "unat (bits (make_double s c)) = (if s then 2 ^ 63 else 0) + min c infinity_code"
proof -
  have "(if s then 2 ^ 63 else 0) + min c infinity_code < 2 ^ LENGTH(64)" by auto
  then show ?thesis unfolding make_double_def double.sel by (simp only: unat_of_nat mod_less)
qed

lemma double_code_make [simp]: "double_code (make_double s c) = min c infinity_code"
  by (auto simp: double_code_def unat_make_double min_def)

lemma sign_bit_make [simp]: "sign_bit (make_double s c) = s"
  by (auto simp: sign_bit_def unat_make_double min_def)

lemma double_eqI:
  assumes "sign_bit a = sign_bit b" and "double_code a = double_code b"
  shows "a = b"
proof -
  have "unat (bits d) = (if sign_bit d then 2 ^ 63 else 0) + double_code d" for d
    using unat_less_2p64 [of "bits d"]
    by (auto simp: sign_bit_def double_code_def mod_if)
  with assms have "unat (bits a) = unat (bits b)" by simp
  then show ?thesis by (cases a; cases b) (simp add: word_unat_eq_iff)
qed

lemma isfinite_iff: "isfinite d \<longleftrightarrow> exponent_field d < 2047"
proof -
  have "exponent_field d < 2048"
    using double_code_less [of d] by (simp add: exponent_field_def div_less_dividend less_mult_imp_div_less)
  then show ?thesis by (auto simp: isfinite_def)
qed

lemma isfinite_code: "isfinite d \<longleftrightarrow> double_code d < infinity_code"
  by (simp add: isfinite_iff exponent_field_def div_less_iff_less_mult)

lemma isnan_not_finite: "isnan d \<Longrightarrow> \<not> isfinite d"
  by (simp add: isnan_def isfinite_def)

subsection \<open>The magnitude of a normalised significand\<close>

lemma code_magnitude_shift:
  assumes "m \<le> 2 ^ 53" and "sh = 0 \<or> 2 ^ 52 \<le> m"
  shows "code_magnitude (sh * 2 ^ 52 + m) = m * 2 ^ sh"
proof -
  consider "m < 2 ^ 52" | "2 ^ 52 \<le> m" "m < 2 ^ 53" | "m = 2 ^ 53"
    using assms(1) by force
  then show ?thesis
  proof cases
    case 1
    with assms(2) show ?thesis by (simp add: code_magnitude_def)
  next
    case 2
    then obtain f where f: "m = 2 ^ 52 + f" "f < 2 ^ 52"
      by (metis le_Suc_ex add.commute less_diff_conv2 power_Suc add_diff_cancel_left'
          numeral_eq_Suc pred_numeral_simps mult_2 nat_add_left_cancel_less)
    have "(sh * 2 ^ 52 + m) div 2 ^ 52 = Suc sh" "(sh * 2 ^ 52 + m) mod 2 ^ 52 = f"
      using f by (simp_all add: div_nat_eqI)
    moreover have "\<not> sh * 2 ^ 52 + m < 2 ^ 52" using 2 by simp
    ultimately show ?thesis using f by (simp add: code_magnitude_def)
  next
    case 3
    then have "sh * 2 ^ 52 + m = Suc (Suc sh) * 2 ^ 52" by simp
    then show ?thesis using 3 by (simp add: code_magnitude_def)
  qed
qed

lemma bit_length_bounds: "0 < k \<Longrightarrow> 2 ^ (bit_length k - 1) \<le> k \<and> k < 2 ^ bit_length k"
proof (induction k rule: bit_length.induct)
  case (1 n)
  show ?case
  proof (cases "n = 1")
    case True
    then show ?thesis by (simp add: bit_length.simps)
  next
    case False
    with 1 have half: "2 ^ (bit_length (n div 2) - 1) \<le> n div 2" "n div 2 < 2 ^ bit_length (n div 2)"
      by auto
    have pos: "0 < bit_length (n div 2)"
      using False "1.prems" by (subst bit_length.simps) auto
    have unf: "bit_length n = Suc (bit_length (n div 2))"
      using "1.prems" by (subst bit_length.simps) simp
    from half pos have "2 ^ bit_length (n div 2) \<le> n"
      by (cases "bit_length (n div 2)") auto
    moreover from half have "n < 2 ^ Suc (bit_length (n div 2))" by simp
    ultimately show ?thesis by (simp add: unf)
  qed
qed


lemma round_even_bounds: "q \<le> round_even q r d \<and> round_even q r d \<le> Suc q"
  by (simp add: round_even_def)

lemma round_even_exact [simp]: "0 < d \<Longrightarrow> round_even q 0 d = q"
  by (simp add: round_even_def)

text \<open>The significand chosen for \<open>k\<close> units fits the format.\<close>

lemma significand_bounds:
  assumes "sh = bit_length k - 53"
  shows "k div 2 ^ sh < 2 ^ 53" and "sh = 0 \<or> 2 ^ 52 \<le> k div 2 ^ sh"
proof -
  show "k div 2 ^ sh < 2 ^ 53"
  proof (cases "k = 0")
    case False
    then have "k < 2 ^ bit_length k" using bit_length_bounds by simp
    also have "\<dots> \<le> 2 ^ (53 + sh)" using assms by (intro power_increasing) auto
    finally show ?thesis by (simp add: div_less_iff_less_mult power_add mult.commute)
  qed simp
  show "sh = 0 \<or> 2 ^ 52 \<le> k div 2 ^ sh"
  proof (cases "sh = 0")
    case False
    then have k: "0 < k" and len: "bit_length k - 1 = 52 + sh"
      using assms by (cases "k = 0"; simp)+
    then have "2 ^ (52 + sh) \<le> k" using bit_length_bounds [of k] by metis
    then have "2 ^ 52 * 2 ^ sh \<le> k" by (simp add: power_add)
    then have "2 ^ 52 \<le> k div 2 ^ sh" by (simp add: less_eq_div_iff_mult_less_eq)
    then show ?thesis ..
  qed simp
qed

lemma code_magnitude_nearest:
  fixes n d :: nat
  defines "k \<equiv> n * units div d" and "r \<equiv> n * units mod d"
  defines "sh \<equiv> bit_length k - 53"
  shows "code_magnitude (nearest_code n d) =
    round_even (k div 2 ^ sh) (k mod 2 ^ sh * d + r) (2 ^ sh * d) * 2 ^ sh"
proof -
  let ?m = "round_even (k div 2 ^ sh) (k mod 2 ^ sh * d + r) (2 ^ sh * d)"
  have sh: "sh = bit_length k - 53" by (simp add: sh_def)
  have "?m \<le> 2 ^ 53" and "sh = 0 \<or> 2 ^ 52 \<le> ?m"
    using significand_bounds [OF sh] round_even_bounds [of "k div 2 ^ sh"]
    by (metis Suc_leI le_trans, metis le_trans)
  then show ?thesis
    unfolding nearest_code_def Let_def k_def [symmetric] r_def [symmetric] sh_def [symmetric]
    by (rule code_magnitude_shift)
qed

text \<open>A value with a significand of at most 53 bits converts without rounding.\<close>

lemma nearest_code_exact:
  assumes d: "0 < d" and nd: "n * units = m * 2 ^ j * d" and m: "m < 2 ^ 53"
  shows "code_magnitude (nearest_code n d) = m * 2 ^ j"
proof -
  define k where "k = n * units div d"
  define sh where "sh = bit_length k - 53"
  have k: "k = m * 2 ^ j" using d by (simp add: k_def nd)
  have r: "n * units mod d = 0" by (simp add: nd)
  have "sh \<le> j"
  proof (cases "k = 0")
    case True
    then show ?thesis by (simp add: sh_def)
  next
    case False
    have "2 ^ (bit_length k - 1) \<le> k" using bit_length_bounds False by simp
    also have "k < 2 ^ (53 + j)" using m by (simp add: k power_add)
    finally have "bit_length k - 1 < 53 + j" by (simp only: power_strict_increasing_iff)
    then show ?thesis by (simp add: sh_def)
  qed
  then have "2 ^ sh dvd k" by (simp add: k le_imp_power_dvd)
  then have "k mod 2 ^ sh = 0" and "k div 2 ^ sh * 2 ^ sh = k" by auto
  then show ?thesis
    using d r unfolding code_magnitude_nearest k_def [symmetric] sh_def [symmetric]
    by (simp add: k)
qed

lemma nearest_code_finite:
  assumes "n \<le> 2 ^ 64"
  shows "nearest_code n 1 < infinity_code"
proof -
  define k where "k = n * units"
  define sh where "sh = bit_length k - 53"
  have "sh \<le> 1086"
  proof (cases "k = 0")
    case True
    then show ?thesis by (simp add: sh_def)
  next
    case False
    have "2 ^ (bit_length k - 1) \<le> k" using bit_length_bounds False by simp
    also have "k \<le> 2 ^ 64 * 2 ^ 1074" unfolding k_def units_def using assms by (rule mult_le_mono1)
    also have "\<dots> = 2 ^ 1138" by (simp only: power_add [symmetric]) simp
    finally have "bit_length k - 1 \<le> 1138" by (simp only: power_increasing_iff)
    then show ?thesis by (simp add: sh_def)
  qed
  moreover have "round_even (k div 2 ^ sh) (k mod 2 ^ sh * 1 + k mod 1) (2 ^ sh * 1) \<le> 2 ^ 53"
    using significand_bounds(1) [OF sh_def] round_even_bounds [of "k div 2 ^ sh"]
    by (metis Suc_leI le_trans)
  ultimately have "sh * 2 ^ 52
      + round_even (k div 2 ^ sh) (k mod 2 ^ sh * 1 + k mod 1) (2 ^ sh * 1)
      \<le> 1086 * 2 ^ 52 + 2 ^ 53"
    by (intro add_mono mult_le_mono1)
  then show ?thesis
    unfolding nearest_code_def Let_def k_def [symmetric] sh_def by simp
qed

subsection \<open>Truncation and conversion back\<close>

lemma units_pos [simp]: "0 < units"
  by (simp add: units_def)

lemma code_magnitude_form: "\<exists>m j. m < 2 ^ 53 \<and> code_magnitude c = m * 2 ^ j"
proof (cases "c < 2 ^ 52")
  case True
  then have "c < 2 ^ 53 \<and> code_magnitude c = c * 2 ^ 0" by (simp add: code_magnitude_def)
  then show ?thesis by blast
next
  case False
  have "c mod 2 ^ 52 < 2 ^ 52" by simp
  then have "2 ^ 52 + c mod 2 ^ 52 < (2 ^ 53 :: nat)" by simp
  moreover have "code_magnitude c = (2 ^ 52 + c mod 2 ^ 52) * 2 ^ (c div 2 ^ 52 - 1)"
    using False by (simp only: code_magnitude_def if_False)
  ultimately show ?thesis by blast
qed

lemma trunc_form: "\<exists>m j. m < 2 ^ 53 \<and> code_magnitude c div units = m * 2 ^ j"
proof -
  obtain m j where m: "m < 2 ^ 53" and c: "code_magnitude c = m * 2 ^ j"
    using code_magnitude_form by blast
  show ?thesis
  proof (cases "1074 \<le> j")
    case True
    then have "(2 :: nat) ^ j = 2 ^ (j - 1074) * units"
      unfolding units_def by (simp only: power_add [symmetric]) simp
    with c have "code_magnitude c div units = m * 2 ^ (j - 1074)"
      by (simp add: mult.assoc [symmetric])
    with m show ?thesis by blast
  next
    case False
    then have units: "units = 2 ^ (1074 - j) * 2 ^ j"
      unfolding units_def by (simp only: power_add [symmetric]) simp
    have "m * 2 ^ j div (2 ^ (1074 - j) * 2 ^ j) = m div 2 ^ (1074 - j)"
      by (rule div_mult_mult2) simp
    with c units have "code_magnitude c div units = m div 2 ^ (1074 - j)" by simp
    moreover have "m div 2 ^ (1074 - j) < 2 ^ 53"
      using m by (meson div_le_dividend le_less_trans)
    ultimately show ?thesis by (metis mult_1_right power_0)
  qed
qed

lemma double_of_int_exact:
  assumes "nat \<bar>i\<bar> = m * 2 ^ j" and "m < 2 ^ 53" and "\<bar>i\<bar> \<le> 2 ^ 64"
  shows "scaled (double_of_int i) = i * int units" and "isfinite (double_of_int i)"
proof -
  have le: "nat \<bar>i\<bar> \<le> 2 ^ 64" using assms(3) by simp
  have fin: "nearest_code (nat \<bar>i\<bar>) 1 < infinity_code" by (rule nearest_code_finite [OF le])
  have "nat \<bar>i\<bar> * units = m * 2 ^ (j + 1074) * 1"
    by (simp only: assms(1) units_def power_add mult.assoc mult_1_right)
  then have "code_magnitude (nearest_code (nat \<bar>i\<bar>) 1) = m * 2 ^ (j + 1074)"
    by (intro nearest_code_exact) (use assms(2) in simp_all)
  also have "\<dots> = nat \<bar>i\<bar> * units"
    by (simp only: assms(1) units_def power_add mult.assoc)
  finally have mag: "code_magnitude (nearest_code (nat \<bar>i\<bar>) 1) = nat \<bar>i\<bar> * units" .
  show "scaled (double_of_int i) = i * int units"
    unfolding scaled_def double_of_int_def nearest_double_def sign_bit_make double_code_make
      min_absorb1 [OF less_imp_le [OF fin]] mag
    by (cases "i < 0") simp_all
  show "isfinite (double_of_int i)"
    unfolding isfinite_code double_of_int_def nearest_double_def double_code_make
    using fin by (simp only: min_absorb1 [OF less_imp_le [OF fin]])
qed

lemma double_of_trunc_exact:
  assumes "\<bar>double_trunc d\<bar> \<le> 2 ^ 64"
  shows "scaled (double_of_int (double_trunc d)) = double_trunc d * int units"
    and "isfinite (double_of_int (double_trunc d))"
proof -
  obtain m j where m: "m < 2 ^ 53" "code_magnitude (double_code d) div units = m * 2 ^ j"
    using trunc_form by blast
  then have "nat \<bar>double_trunc d\<bar> = m * 2 ^ j" by (simp add: double_trunc_def nat_power_eq nat_mult_distrib)
  from double_of_int_exact [OF this m(1) assms]
  show "scaled (double_of_int (double_trunc d)) = double_trunc d * int units"
    and "isfinite (double_of_int (double_trunc d))" .
qed

text \<open>Truncation splits the integers below and above the exact value.\<close>

lemma less_trunc: "i < double_trunc d \<Longrightarrow> i * int units < scaled d"
proof -
  assume lt: "i < double_trunc d"
  define M where "M = code_magnitude (double_code d)"
  have M: "M = M div units * units + M mod units" "M mod units < units" by simp_all
  have Mi: "int M = int (M div units) * int units + int (M mod units)"
    using M(1) by (metis of_nat_add of_nat_mult)
  show ?thesis
  proof (cases "sign_bit d")
    case True
    with lt have "i + 1 \<le> - int (M div units)" by (simp add: double_trunc_def M_def)
    then have "(i + 1) * int units \<le> - int (M div units) * int units"
      by (rule mult_right_mono) simp
    then have "i * int units + int units \<le> - (int (M div units) * int units)"
      by (simp add: algebra_simps)
    moreover have "int (M mod units) < int units" using M(2) by simp
    ultimately have "i * int units < - int M" using Mi by linarith
    with True show ?thesis by (simp add: scaled_def M_def)
  next
    case False
    with lt have "i < int (M div units)" by (simp add: double_trunc_def M_def)
    then have "i * int units < int (M div units) * int units"
      by (rule mult_strict_right_mono) simp
    with Mi have "i * int units < int M" by linarith
    with False show ?thesis by (simp add: scaled_def M_def)
  qed
qed

lemma greater_trunc: "double_trunc d < i \<Longrightarrow> scaled d < i * int units"
proof -
  assume lt: "double_trunc d < i"
  define M where "M = code_magnitude (double_code d)"
  have M: "M = M div units * units + M mod units" "M mod units < units" by simp_all
  have Mi: "int M = int (M div units) * int units + int (M mod units)"
    using M(1) by (metis of_nat_add of_nat_mult)
  show ?thesis
  proof (cases "sign_bit d")
    case True
    with lt have "- int (M div units) < i" by (simp add: double_trunc_def M_def)
    then have "- int (M div units) * int units < i * int units"
      by (rule mult_strict_right_mono) simp
    with Mi True show ?thesis by (simp add: scaled_def M_def [symmetric])
  next
    case False
    with lt have "int (M div units) + 1 \<le> i" by (simp add: double_trunc_def M_def)
    then have "(int (M div units) + 1) * int units \<le> i * int units"
      by (rule mult_right_mono) simp
    then have "int (M div units) * int units + int units \<le> i * int units"
      by (simp add: algebra_simps)
    moreover have "int (M mod units) < int units" using M(2) by simp
    ultimately have "int M < i * int units" using Mi by linarith
    with False show ?thesis by (simp add: scaled_def M_def)
  qed
qed

lemma trunc_le_scaled: "0 \<le> scaled d \<Longrightarrow> double_trunc d * int units \<le> scaled d"
proof (cases "sign_bit d")
  case True
  moreover assume "0 \<le> scaled d"
  ultimately have "code_magnitude (double_code d) = 0" by (simp add: scaled_def)
  then show ?thesis by (simp add: scaled_def double_trunc_def)
next
  case False
  have "code_magnitude (double_code d) div units * units \<le> code_magnitude (double_code d)"
    by simp
  then have "int (code_magnitude (double_code d) div units * units)
      \<le> int (code_magnitude (double_code d))" by (simp only: of_nat_le_iff)
  with False show ?thesis by (simp add: scaled_def double_trunc_def)
qed

lemma trunc_range:
  assumes "a * int units \<le> scaled d" and "scaled d < b * int units" and "0 < b"
  shows "a \<le> double_trunc d" and "double_trunc d < b"
proof -
  show "a \<le> double_trunc d"
    using greater_trunc [of d a] assms(1) by (meson not_le)
  show "double_trunc d < b"
  proof (cases "0 \<le> scaled d")
    case True
    then have "double_trunc d * int units < b * int units"
      using trunc_le_scaled assms(2) by (meson le_less_trans)
    then show ?thesis by (simp add: mult_less_cancel_right)
  next
    case False
    then have "\<not> 0 * int units < scaled d" by simp
    then have "\<not> 0 < double_trunc d" using less_trunc by blast
    with assms(3) show ?thesis by simp
  qed
qed

lemma isnan_double_of_trunc:
  "\<bar>double_trunc d\<bar> \<le> 2 ^ 64 \<Longrightarrow> \<not> isnan (double_of_int (double_trunc d))"
  using double_of_trunc_exact(2) isnan_not_finite by blast

text \<open>The scaled values of the constants that appear in the code.\<close>

lemma scaled_zero [simp]: "scaled double_zero = 0"
  by (simp add: scaled_def double_zero_def sign_bit_def double_code_def code_magnitude_def)

lemma scaled_two63: "scaled double_two63 = 2 ^ 63 * int units"
  by (simp add: scaled_def double_two63_def sign_bit_def double_code_def code_magnitude_def
      units_def)

lemma scaled_minus_two63: "scaled double_minus_two63 = - (2 ^ 63) * int units"
  by (simp add: scaled_def double_minus_two63_def sign_bit_def double_code_def
      code_magnitude_def units_def)

lemma scaled_two64: "scaled double_two64 = 2 ^ 64 * int units"
  by (simp add: scaled_def double_two64_def sign_bit_def double_code_def code_magnitude_def
      units_def)

lemma constants_not_nan [simp]:
  "\<not> isnan double_zero" "\<not> isnan double_two63" "\<not> isnan double_minus_two63"
  "\<not> isnan double_two64"
  by (simp_all add: isnan_def exponent_field_def fraction_field_def double_code_def
      double_zero_def double_two63_def double_minus_two63_def double_two64_def)

end
