(* ===== verification/Json_Value.thy ===== *)
theory Json_Value
  imports Binary64
begin

section \<open>The DOM value \<open>pjson\<close>\<close>

text \<open>
  The data of \<open>pjson.h\<close>/\<open>pjson_internal.h\<close> and the operations of \<open>pjson.cpp\<close> that look at one
  node: the storage tag, the type predicates, the exact extraction overloads \<open>tryGet\<close>, the
  resets, and the queries on containers.

  A \<open>pjson\<close> owns its subtree exclusively, so its value is a tree: the tagged union \<open>pjsonImpl\<close>
  becomes the datatype \<open>json\<close>. The object storage is an \<open>unordered_map\<close>; a value carries its
  members in the container's iteration order, which the library leaves unspecified. Insertion of
  a new name appends here; \<open>Json_Compare\<close> shows that equality does not see the order.
  Allocation failure is not modelled in the tree-level operations.
\<close>

datatype jsonType =
    jsonNull | jsonString | jsonNumberInt | jsonNumberDouble | jsonBoolean
  | jsonArray | jsonObject | jsonNumberUInt

text \<open>The enumerators' values, in the order of the header.\<close>

definition jsonType_of_code :: "int \<Rightarrow> jsonType option" where
  "jsonType_of_code t =
     (if t = 0 then Some jsonNull else if t = 1 then Some jsonString
      else if t = 2 then Some jsonNumberInt else if t = 3 then Some jsonNumberDouble
      else if t = 4 then Some jsonBoolean else if t = 5 then Some jsonArray
      else if t = 6 then Some jsonObject else if t = 7 then Some jsonNumberUInt
      else None)"

datatype json =
    JNull
  | JString string
  | JInt i64
  | JDouble double
  | JBool bool
  | JArray "json list"
  | JObject "(string \<times> json) list"
  | JUInt u64

type_synonym members = "(string \<times> json) list"

fun getType :: "json \<Rightarrow> jsonType" where
  "getType JNull = jsonNull"
| "getType (JString _) = jsonString"
| "getType (JInt _) = jsonNumberInt"
| "getType (JDouble _) = jsonNumberDouble"
| "getType (JBool _) = jsonBoolean"
| "getType (JArray _) = jsonArray"
| "getType (JObject _) = jsonObject"
| "getType (JUInt _) = jsonNumberUInt"

definition isNull :: "json \<Rightarrow> bool" where "isNull v \<longleftrightarrow> getType v = jsonNull"
definition isString :: "json \<Rightarrow> bool" where "isString v \<longleftrightarrow> getType v = jsonString"
definition isNumber :: "json \<Rightarrow> bool" where
  "isNumber v \<longleftrightarrow> getType v = jsonNumberInt \<or> getType v = jsonNumberUInt
     \<or> getType v = jsonNumberDouble"
definition isInt :: "json \<Rightarrow> bool" where "isInt v \<longleftrightarrow> getType v = jsonNumberInt"
definition isUInt :: "json \<Rightarrow> bool" where "isUInt v \<longleftrightarrow> getType v = jsonNumberUInt"
definition isInteger :: "json \<Rightarrow> bool" where
  "isInteger v \<longleftrightarrow> getType v = jsonNumberInt \<or> getType v = jsonNumberUInt"
definition isDouble :: "json \<Rightarrow> bool" where "isDouble v \<longleftrightarrow> getType v = jsonNumberDouble"
definition isBool :: "json \<Rightarrow> bool" where "isBool v \<longleftrightarrow> getType v = jsonBoolean"
definition isArray :: "json \<Rightarrow> bool" where "isArray v \<longleftrightarrow> getType v = jsonArray"
definition isObject :: "json \<Rightarrow> bool" where "isObject v \<longleftrightarrow> getType v = jsonObject"

lemmas type_predicates [json_simps] =
  isNull_def isString_def isNumber_def isInt_def isUInt_def isInteger_def isDouble_def
  isBool_def isArray_def isObject_def

lemma isArray_iff: "isArray v \<longleftrightarrow> (\<exists>xs. v = JArray xs)"
  by (cases v) (auto simp: isArray_def)

lemma isObject_iff: "isObject v \<longleftrightarrow> (\<exists>ms. v = JObject ms)"
  by (cases v) (auto simp: isObject_def)

lemma isNumber_cases:
  "isNumber v \<longleftrightarrow> (\<exists>w. v = JInt w) \<or> (\<exists>w. v = JUInt w) \<or> (\<exists>d. v = JDouble d)"
  by (cases v) (auto simp: isNumber_def)

subsection \<open>Sizes, nesting and the invariant of a tree\<close>

fun nodes :: "json \<Rightarrow> nat" where
  "nodes (JArray xs) = Suc (sum_list (map nodes xs))"
| "nodes (JObject ms) = Suc (sum_list (map (\<lambda>m. nodes (snd m)) ms))"
| "nodes _ = 1"

text \<open>Container nesting: a scalar has depth 0, a container one more than its deepest child.\<close>

fun nesting :: "json \<Rightarrow> nat" where
  "nesting (JArray xs) = Suc (fold max (map nesting xs) 0)"
| "nesting (JObject ms) = Suc (fold max (map (\<lambda>m. nesting (snd m)) ms) 0)"
| "nesting _ = 0"

text \<open>What \<open>unordered_map\<close> guarantees of every object of a tree.\<close>

fun wf_json :: "json \<Rightarrow> bool" where
  "wf_json (JArray xs) = list_all wf_json xs"
| "wf_json (JObject ms) = (distinct_keys ms \<and> list_all (\<lambda>m. wf_json (snd m)) ms)"
| "wf_json _ = True"

lemma nodes_pos [simp]: "0 < nodes v"
  by (cases v) auto

lemma nodes_array_elem: "x \<in> set xs \<Longrightarrow> nodes x < nodes (JArray xs)"
  using sum_list_map_ge [of x xs nodes] by simp

lemma nodes_object_member: "(k, x) \<in> set ms \<Longrightarrow> nodes x < nodes (JObject ms)"
  using sum_list_map_ge [of "(k, x)" ms "\<lambda>m. nodes (snd m)"] by simp

lemma wf_json_member: "wf_json (JObject ms) \<Longrightarrow> map_of ms k = Some v \<Longrightarrow> wf_json v"
  by (auto simp: list_all_iff dest!: map_of_mem)

lemma wf_json_elem: "wf_json (JArray xs) \<Longrightarrow> i < length xs \<Longrightarrow> wf_json (xs ! i)"
  by (simp add: list_all_iff)

subsection \<open>Exact extraction\<close>

text \<open>
  The \<open>tryGet\<close> overloads: \<^const>\<open>None\<close> is the result \<open>false\<close>, which leaves the destination
  unwritten; \<^const>\<open>Some\<close> carries what is written with the result \<open>true\<close>.
\<close>

fun tryGet_int64 :: "json \<Rightarrow> i64 option" where
  "tryGet_int64 (JInt w) = Some w"
| "tryGet_int64 (JUInt w) = (if w \<le> 0x7FFFFFFFFFFFFFFF then Some w else None)"
| "tryGet_int64 _ = None"

fun tryGet_uint64 :: "json \<Rightarrow> u64 option" where
  "tryGet_uint64 (JUInt w) = Some w"
| "tryGet_uint64 (JInt w) = (if 0 \<le> sint w then Some w else None)"
| "tryGet_uint64 _ = None"

fun tryGet_double :: "json \<Rightarrow> double option" where
  "tryGet_double (JInt w) = Some (double_of_int (sint w))"
| "tryGet_double (JUInt w) = Some (double_of_int (uint w))"
| "tryGet_double (JDouble d) = Some d"
| "tryGet_double _ = None"

fun tryGet_bool :: "json \<Rightarrow> bool option" where
  "tryGet_bool (JBool b) = Some b"
| "tryGet_bool _ = None"

fun tryGet_string :: "json \<Rightarrow> string option" where
  "tryGet_string (JString s) = Some s"
| "tryGet_string _ = None"

text \<open>The exact mathematical value of a stored integer.\<close>

fun integer_value :: "json \<Rightarrow> int option" where
  "integer_value (JInt w) = Some (sint w)"
| "integer_value (JUInt w) = Some (uint w)"
| "integer_value _ = None"

lemma sint_uint_small:
  fixes w :: u64
  shows "w \<le> 0x7FFFFFFFFFFFFFFF \<Longrightarrow> sint w = uint w"
  by (simp add: sint_uint word_le_def signed_take_bit_eq_if_positive bit_iff_odd
      take_bit_int_eq_self)

lemma sint_nonneg:
  fixes w :: u64
  assumes "0 \<le> sint w"
  shows "sint w = uint w"
proof -
  have "\<not> bit (uint w) 63"
    using assms by (simp add: sint_uint not_less [symmetric])
  moreover have "take_bit (Suc 63) (uint w) = uint w"
    using uint_lt2p [of w] by (simp add: take_bit_int_eq_self)
  ultimately have "take_bit 63 (uint w) = uint w"
    by (simp only: take_bit_Suc_from_most) simp
  with \<open>\<not> bit (uint w) 63\<close> show ?thesis
    by (simp add: sint_uint signed_take_bit_eq_if_positive)
qed

subsection \<open>Resets and scalar assignment\<close>

fun emptyValue :: "jsonType \<Rightarrow> json" where
  "emptyValue jsonNull = JNull"
| "emptyValue jsonString = JString []"
| "emptyValue jsonArray = JArray []"
| "emptyValue jsonObject = JObject []"
| "emptyValue jsonNumberInt = JInt 0"
| "emptyValue jsonNumberUInt = JUInt 0"
| "emptyValue jsonNumberDouble = JDouble double_zero"
| "emptyValue jsonBoolean = JBool False"

definition reset :: "json \<Rightarrow> json" where
  "reset v = JNull"

definition resetTo :: "int \<Rightarrow> json \<Rightarrow> cpp_exception + json" where
  "resetTo tag v =
     (case jsonType_of_code tag of
        None \<Rightarrow> Inl (invalid_argument ''invalid pjson::jsonType'')
      | Some t \<Rightarrow> if t = jsonNull then Inr (reset v) else Inr (emptyValue t))"

definition resetIfNeeded :: "jsonType \<Rightarrow> json \<Rightarrow> json" where
  "resetIfNeeded t v = (if getType v \<noteq> t then emptyValue t else v)"

text \<open>Assignment keeps a node of the right type and overwrites its payload.\<close>

fun set_payload_string :: "string \<Rightarrow> json \<Rightarrow> json" where
  "set_payload_string s (JString _) = JString s"
| "set_payload_string s v = v"

fun set_payload_bool :: "bool \<Rightarrow> json \<Rightarrow> json" where
  "set_payload_bool b (JBool _) = JBool b"
| "set_payload_bool b v = v"

fun set_payload_int :: "i64 \<Rightarrow> json \<Rightarrow> json" where
  "set_payload_int w (JInt _) = JInt w"
| "set_payload_int w v = v"

fun set_payload_uint :: "u64 \<Rightarrow> json \<Rightarrow> json" where
  "set_payload_uint w (JUInt _) = JUInt w"
| "set_payload_uint w v = v"

fun set_payload_double :: "double \<Rightarrow> json \<Rightarrow> json" where
  "set_payload_double d (JDouble _) = JDouble d"
| "set_payload_double d v = v"

definition assign_string :: "json \<Rightarrow> string \<Rightarrow> json" where
  "assign_string v s = set_payload_string s (resetIfNeeded jsonString v)"

definition assign_cstring :: "json \<Rightarrow> string option \<Rightarrow> cpp_exception + json" where
  "assign_cstring v p =
     (case p of
        None \<Rightarrow> Inl (invalid_argument ''pjson string assignment requires non-null input'')
      | Some s \<Rightarrow> Inr (set_payload_string (takeWhile (\<lambda>c. c \<noteq> CHR 0x00) s)
                         (resetIfNeeded jsonString v)))"

definition assign_bool :: "json \<Rightarrow> bool \<Rightarrow> json" where
  "assign_bool v b = set_payload_bool b (resetIfNeeded jsonBoolean v)"

definition assign_int64 :: "json \<Rightarrow> i64 \<Rightarrow> json" where
  "assign_int64 v w = set_payload_int w (resetIfNeeded jsonNumberInt v)"

definition assign_uint64 :: "json \<Rightarrow> u64 \<Rightarrow> json" where
  "assign_uint64 v w = set_payload_uint w (resetIfNeeded jsonNumberUInt v)"

definition assign_double :: "json \<Rightarrow> double \<Rightarrow> json" where
  "assign_double v d = set_payload_double d (resetIfNeeded jsonNumberDouble v)"

text \<open>The narrower integer overloads convert to the 64-bit one: sign or zero extension.\<close>

definition assign_int :: "json \<Rightarrow> 32 word \<Rightarrow> json" where
  "assign_int v w = assign_int64 v (word_of_int (sint w))"

definition assign_unsigned_int :: "json \<Rightarrow> 32 word \<Rightarrow> json" where
  "assign_unsigned_int v w = assign_uint64 v (word_of_int (uint w))"

definition assign_short :: "json \<Rightarrow> 16 word \<Rightarrow> json" where
  "assign_short v w = assign_int64 v (word_of_int (sint w))"

definition assign_unsigned_short :: "json \<Rightarrow> 16 word \<Rightarrow> json" where
  "assign_unsigned_short v w = assign_uint64 v (word_of_int (uint w))"

lemma assign_results [json_simps]:
  "assign_string v s = JString s" "assign_bool v b = JBool b" "assign_int64 v i = JInt i"
  "assign_uint64 v u = JUInt u" "assign_double v d = JDouble d"
  by (cases v; simp add: assign_string_def assign_bool_def assign_int64_def assign_uint64_def
      assign_double_def resetIfNeeded_def)+

text \<open>The typed factories.\<close>

definition pjson_null :: json where "pjson_null = JNull"
definition pjson_object :: json where "pjson_object = emptyValue jsonObject"
definition pjson_array :: json where "pjson_array = emptyValue jsonArray"

subsection \<open>Lookup and container queries\<close>

text \<open>\<open>find(key)\<close>, \<open>find(int)\<close>, \<open>findIndex\<close>: a missing child is the null pointer.\<close>

fun find_key :: "json \<Rightarrow> string \<Rightarrow> json option" where
  "find_key (JObject ms) k = map_of ms k"
| "find_key _ k = None"

definition find_index :: "json \<Rightarrow> nat \<Rightarrow> json option" where
  "find_index v i =
     (case v of JArray xs \<Rightarrow> if i < length xs then Some (xs ! i) else None | _ \<Rightarrow> None)"

text \<open>
  The \<open>int\<close> overload: a negative index counts from the end. \<open>-(i + 1)\<close> is formed first, so
  the most negative \<open>int\<close> does not overflow.
\<close>

definition from_end :: "32 word \<Rightarrow> nat" where
  "from_end i = nat (sint (- (i + 1))) + 1"

definition find_int :: "json \<Rightarrow> 32 word \<Rightarrow> json option" where
  "find_int v i =
     (case v of
        JArray xs \<Rightarrow>
          if 0 \<le> sint i then
            (let position = nat (sint i)
             in if position \<ge> length xs then None else Some (xs ! position))
          else if from_end i > length xs then None
          else Some (xs ! (length xs - from_end i))
      | _ \<Rightarrow> None)"

definition hasKey :: "json \<Rightarrow> string \<Rightarrow> bool" where
  "hasKey v k = (case v of JObject ms \<Rightarrow> map_of ms k \<noteq> None | _ \<Rightarrow> False)"

definition hasIndex :: "json \<Rightarrow> 32 word \<Rightarrow> bool" where
  "hasIndex v i \<longleftrightarrow> find_int v i \<noteq> None"

definition at_key :: "json \<Rightarrow> string \<Rightarrow> cpp_exception + json" where
  "at_key v k =
     (case find_key v k of
        None \<Rightarrow> Inl (out_of_range ''pjson::at: object key not found'')
      | Some child \<Rightarrow> Inr child)"

definition at_index :: "json \<Rightarrow> nat \<Rightarrow> cpp_exception + json" where
  "at_index v i =
     (case v of
        JArray xs \<Rightarrow> if i \<ge> length xs
                     then Inl (out_of_range ''pjson::at: array index out of range'')
                     else Inr (xs ! i)
      | _ \<Rightarrow> Inl (out_of_range ''pjson::at: array index out of range''))"

fun pjson_size :: "json \<Rightarrow> nat" where
  "pjson_size (JArray xs) = length xs"
| "pjson_size (JObject ms) = length ms"
| "pjson_size _ = 0"

definition pjson_empty :: "json \<Rightarrow> bool" where
  "pjson_empty v \<longleftrightarrow> pjson_size v = 0"

definition pjson_keys :: "json \<Rightarrow> string list" where
  "pjson_keys v = (case v of JObject ms \<Rightarrow> map fst ms | _ \<Rightarrow> [])"

text \<open>The key and index forms of \<open>tryGet\<close> combine a lookup with the exact extraction.\<close>

definition tryGet_at_key :: "(json \<Rightarrow> 'a option) \<Rightarrow> json \<Rightarrow> string \<Rightarrow> 'a option" where
  "tryGet_at_key get v k = (case find_key v k of None \<Rightarrow> None | Some c \<Rightarrow> get c)"

definition tryGet_at_index :: "(json \<Rightarrow> 'a option) \<Rightarrow> json \<Rightarrow> 32 word \<Rightarrow> 'a option" where
  "tryGet_at_index get v i = (case find_int v i of None \<Rightarrow> None | Some c \<Rightarrow> get c)"

text \<open>
  Traversal with a callback that reads and changes a context; a null visitor and a wrong
  container type visit nothing, and a \<open>false\<close> from the callback stops.
\<close>

fun visit_all :: "('a \<Rightarrow> 'c \<Rightarrow> bool \<times> 'c) \<Rightarrow> 'a list \<Rightarrow> 'c \<Rightarrow> bool \<times> 'c" where
  "visit_all f [] ctx = (True, ctx)"
| "visit_all f (x # xs) ctx =
     (case f x ctx of (go, ctx') \<Rightarrow> if \<not> go then (False, ctx') else visit_all f xs ctx')"

definition forEachMember ::
    "json \<Rightarrow> (string \<times> json \<Rightarrow> 'c \<Rightarrow> bool \<times> 'c) option \<Rightarrow> 'c \<Rightarrow> bool \<times> 'c" where
  "forEachMember v visitor ctx =
     (case (v, visitor) of (JObject ms, Some f) \<Rightarrow> visit_all f ms ctx | _ \<Rightarrow> (True, ctx))"

definition forEachElement ::
    "json \<Rightarrow> (json \<Rightarrow> 'c \<Rightarrow> bool \<times> 'c) option \<Rightarrow> 'c \<Rightarrow> bool \<times> 'c" where
  "forEachElement v visitor ctx =
     (case (v, visitor) of (JArray xs, Some f) \<Rightarrow> visit_all f xs ctx | _ \<Rightarrow> (True, ctx))"

end
