(* ===== verification/Json_Compare.thy ===== *)
theory Json_Compare
  imports Json_Value
begin

section \<open>Numeric comparison and structural equality\<close>

text \<open>
  \<open>_compareNumbers\<close>, \<open>tryCompareNumber\<close>, \<open>operator==\<close> and \<open>operator!=\<close> of \<open>pjson.cpp\<close>. The
  comparison of an integer with a double goes through the truncated double, never through a
  rounded integer; the lemmas show it is the comparison of the exact values. Equality is an
  explicit work list of pairs; it is shown equal to the structural recursion, an equivalence on
  NaN-free trees, and blind to the order of members.
\<close>

subsection \<open>The comparator\<close>

definition int_of_comparison :: "'a::linorder \<Rightarrow> 'a \<Rightarrow> int" where
  "int_of_comparison l r = (if l < r then -1 else if r < l then 1 else 0)"

definition compare_uint_double :: "u64 \<Rightarrow> double \<Rightarrow> int" where
  "compare_uint_double integer floating =
     (if double_le double_two64 floating then -1
      else if double_less floating double_zero then 1
      else
        let truncated = word_of_int (double_trunc floating) :: u64
        in if integer \<noteq> truncated then (if integer < truncated then -1 else 1)
           else
             let integralPart = double_of_int (uint truncated)
             in if \<not> double_eq floating integralPart
                then (if double_less integralPart floating then -1 else 1) else 0)"

definition compare_int_double :: "i64 \<Rightarrow> double \<Rightarrow> int" where
  "compare_int_double integer floating =
     (if double_le double_two63 floating then -1
      else if double_less floating double_minus_two63 then 1
      else
        let truncated = word_of_int (double_trunc floating) :: i64
        in if sint integer \<noteq> sint truncated
           then (if sint integer < sint truncated then -1 else 1)
           else
             let integralPart = double_of_int (sint truncated)
             in if \<not> double_eq floating integralPart
                then (if double_less integralPart floating then -1 else 1) else 0)"

text \<open>One signed and one unsigned operand: the result of signed against unsigned.\<close>

definition compare_int_uint :: "i64 \<Rightarrow> u64 \<Rightarrow> int" where
  "compare_int_uint s u = (if sint s < 0 then -1 else int_of_comparison s u)"

text \<open>\<open>2\<close> is the unordered result. Operands that are no numbers are never passed.\<close>

fun compareNumbers :: "json \<Rightarrow> json \<Rightarrow> int" where
  "compareNumbers (JInt l) (JInt r) = int_of_comparison (sint l) (sint r)"
| "compareNumbers (JUInt l) (JUInt r) = int_of_comparison l r"
| "compareNumbers (JInt s) (JUInt u) = compare_int_uint s u"
| "compareNumbers (JUInt u) (JInt s) = - compare_int_uint s u"
| "compareNumbers (JDouble l) (JDouble r) =
     (if isnan l \<or> isnan r then 2
      else if double_less l r then -1 else if double_less r l then 1 else 0)"
| "compareNumbers (JInt i) (JDouble d) = (if isnan d then 2 else compare_int_double i d)"
| "compareNumbers (JDouble d) (JInt i) = (if isnan d then 2 else - compare_int_double i d)"
| "compareNumbers (JUInt i) (JDouble d) = (if isnan d then 2 else compare_uint_double i d)"
| "compareNumbers (JDouble d) (JUInt i) = (if isnan d then 2 else - compare_uint_double i d)"
| "compareNumbers _ _ = 2"

definition tryCompareNumber :: "json \<Rightarrow> json \<Rightarrow> int option" where
  "tryCompareNumber l r =
     (if \<not> isNumber l \<or> \<not> isNumber r then None
      else let order = compareNumbers l r in if order = 2 then None else Some order)"

subsection \<open>It compares exact values\<close>

text \<open>The exact value of a number in units of \<open>2 ^ -1074\<close>.\<close>

fun number_value :: "json \<Rightarrow> int" where
  "number_value (JInt w) = sint w * int units"
| "number_value (JUInt w) = uint w * int units"
| "number_value (JDouble d) = scaled d"
| "number_value _ = 0"

fun unordered :: "json \<Rightarrow> bool" where
  "unordered (JDouble d) = isnan d"
| "unordered _ = False"

lemma int_of_comparison_units:
  "int_of_comparison (a * int units) (b * int units) = int_of_comparison a b"
  by (simp add: int_of_comparison_def mult_less_cancel_right)

lemma int_of_comparison_uint:
  "int_of_comparison l r = int_of_comparison (uint l) (uint (r :: u64))"
  by (simp add: int_of_comparison_def word_less_def)

lemma neg_int_of_comparison: "- int_of_comparison a b = int_of_comparison b a"
  by (auto simp: int_of_comparison_def)

lemma int_of_double_comparison:
  "\<not> isnan a \<Longrightarrow> \<not> isnan b \<Longrightarrow>
    (if double_less a b then -1 else if double_less b a then 1 else 0)
    = int_of_comparison (scaled a) (scaled b)"
  by (simp add: int_of_comparison_def double_less_def)

lemma compare_int_uint_exact: "compare_int_uint s u = int_of_comparison (sint s) (uint u)"
proof (cases "sint s < 0")
  case True
  moreover have "0 \<le> uint u" by simp
  ultimately have "sint s < uint u" by linarith
  with True show ?thesis by (simp add: compare_int_uint_def int_of_comparison_def)
next
  case False
  then have "sint s = uint s" by (intro sint_nonneg) simp
  with False show ?thesis by (simp add: compare_int_uint_def int_of_comparison_uint)
qed

text \<open>The comparison through the truncated double, for an integer of any range.\<close>

lemma compare_via_trunc:
  assumes "\<not> isnan d" and t: "t = double_trunc d" and "\<bar>t\<bar> \<le> 2 ^ 64"
  shows "(if i \<noteq> t then (if i < t then -1 else 1)
          else if \<not> double_eq d (double_of_int t)
               then (if double_less (double_of_int t) d then -1 else 1) else 0)
         = int_of_comparison (i * int units) (scaled d)"
proof -
  have conv: "scaled (double_of_int t) = t * int units" "\<not> isnan (double_of_int t)"
    using double_of_trunc_exact(1) isnan_double_of_trunc assms by blast+
  consider "i < t" | "t < i" | "i = t" by linarith
  then show ?thesis
  proof cases
    case 1
    then have "i * int units < scaled d" using less_trunc t by blast
    with 1 show ?thesis by (simp add: int_of_comparison_def)
  next
    case 2
    then have "scaled d < i * int units" using greater_trunc t by blast
    with 2 show ?thesis by (simp add: int_of_comparison_def)
  next
    case 3
    then show ?thesis
      using assms(1) conv by (auto simp: double_eq_def double_less_def int_of_comparison_def)
  qed
qed

lemma int_of_comparison_less: "a < b \<Longrightarrow> int_of_comparison a b = -1"
  and int_of_comparison_greater: "b < a \<Longrightarrow> int_of_comparison a b = 1"
  by (simp_all add: int_of_comparison_def)

lemma units_mono: "a < b \<Longrightarrow> a * int units < b * int units"
  and units_mono_le: "a \<le> b \<Longrightarrow> a * int units \<le> b * int units"
  by (simp_all add: mult_less_cancel_right mult_le_cancel_right)

lemma compare_int_double_exact:
  assumes nan: "\<not> isnan d"
  shows "compare_int_double i d = int_of_comparison (sint i * int units) (scaled d)"
proof -
  have lo: "- (2 ^ 63) \<le> sint i" and hi: "sint i < 2 ^ 63"
    using sint_greater_eq [of i] sint_less [of i] by simp_all
  consider "double_le double_two63 d" | "\<not> double_le double_two63 d" "double_less d double_minus_two63"
    | "\<not> double_le double_two63 d" "\<not> double_less d double_minus_two63" by blast
  then show ?thesis
  proof cases
    case 1
    then have "2 ^ 63 * int units \<le> scaled d" by (simp only: double_le_def scaled_two63)
    then have "sint i * int units < scaled d" by (rule less_le_trans [OF units_mono [OF hi]])
    then show ?thesis using 1 by (simp add: compare_int_double_def int_of_comparison_less)
  next
    case 2
    then have "scaled d < - (2 ^ 63) * int units"
      by (simp only: double_less_def scaled_minus_two63)
    then have "scaled d < sint i * int units" by (rule less_le_trans [OF _ units_mono_le [OF lo]])
    then show ?thesis using 2 by (simp add: compare_int_double_def int_of_comparison_greater)
  next
    case 3
    then have "- (2 ^ 63) * int units \<le> scaled d" "scaled d < 2 ^ 63 * int units"
      using nan unfolding double_le_def double_less_def scaled_two63 scaled_minus_two63
      by auto
    from trunc_range [OF this] have t: "- (2 ^ 63) \<le> double_trunc d" "double_trunc d < 2 ^ 63"
      by simp_all
    then have cast: "sint (word_of_int (double_trunc d) :: i64) = double_trunc d"
      by (simp add: signed_of_int signed_take_bit_int_eq_self)
    have "\<bar>double_trunc d\<bar> \<le> 2 ^ 64" using t by auto
    note via = compare_via_trunc [OF nan refl this, of "sint i"]
    show ?thesis
      unfolding compare_int_double_def Let_def if_not_P [OF 3(1)] if_not_P [OF 3(2)] cast
      by (rule via)
  qed
qed

lemma compare_uint_double_exact:
  assumes nan: "\<not> isnan d"
  shows "compare_uint_double i d = int_of_comparison (uint i * int units) (scaled d)"
proof -
  have lo: "0 \<le> uint i" and hi: "uint i < 2 ^ 64" using uint_lt2p [of i] by simp_all
  consider "double_le double_two64 d" | "\<not> double_le double_two64 d" "double_less d double_zero"
    | "\<not> double_le double_two64 d" "\<not> double_less d double_zero" by blast
  then show ?thesis
  proof cases
    case 1
    then have "2 ^ 64 * int units \<le> scaled d" by (simp only: double_le_def scaled_two64)
    then have "uint i * int units < scaled d" by (rule less_le_trans [OF units_mono [OF hi]])
    then show ?thesis using 1 by (simp add: compare_uint_double_def int_of_comparison_less)
  next
    case 2
    then have "scaled d < 0 * int units" by (simp add: double_less_def)
    then have "scaled d < uint i * int units" by (rule less_le_trans [OF _ units_mono_le [OF lo]])
    then show ?thesis using 2 by (simp add: compare_uint_double_def int_of_comparison_greater)
  next
    case 3
    then have "0 * int units \<le> scaled d" "scaled d < 2 ^ 64 * int units"
      using nan unfolding double_le_def double_less_def scaled_two64 by auto
    from trunc_range [OF this] have t: "0 \<le> double_trunc d" "double_trunc d < 2 ^ 64"
      by simp_all
    then have cast: "uint (word_of_int (double_trunc d) :: u64) = double_trunc d"
      by (simp add: uint_word_of_int_eq take_bit_int_eq_self)
    have word: "(i \<noteq> word_of_int (double_trunc d)) = (uint i \<noteq> double_trunc d)"
      "(i < word_of_int (double_trunc d)) = (uint i < double_trunc d)"
      by (auto simp: word_uint_eq_iff word_less_def cast)
    have "\<bar>double_trunc d\<bar> \<le> 2 ^ 64" using t by auto
    note via = compare_via_trunc [OF nan refl this, of "uint i"]
    show ?thesis
      unfolding compare_uint_double_def Let_def if_not_P [OF 3(1)] if_not_P [OF 3(2)] cast word
      by (rule via)
  qed
qed

text \<open>The comparator decides the order of the exact values; only a NaN is unordered.\<close>

lemma compareNumbers_value:
  assumes "isNumber l" and "isNumber r"
  shows "compareNumbers l r =
    (if unordered l \<or> unordered r then 2
     else int_of_comparison (number_value l) (number_value r))"
proof -
  note exact = int_of_comparison_units int_of_comparison_uint compare_int_uint_exact
    compare_int_double_exact compare_uint_double_exact neg_int_of_comparison
    int_of_double_comparison
  from assms show ?thesis
    unfolding isNumber_cases by (elim disjE exE) (simp_all add: exact)
qed

subsection \<open>\<open>operator==\<close>: the work list\<close>

text \<open>
  The pairs an object pair contributes: every left member with the member of the same name on
  the right, \<^const>\<open>None\<close> when one is missing.
\<close>

fun member_pairs :: "members \<Rightarrow> members \<Rightarrow> (json \<times> json) list option" where
  "member_pairs [] r = Some []"
| "member_pairs ((k, v) # ms) r =
     (case map_of r k of
        None \<Rightarrow> None
      | Some v' \<Rightarrow> map_option (Cons (v, v')) (member_pairs ms r))"

definition work_nodes :: "(json \<times> 'a) list \<Rightarrow> nat" where
  "work_nodes work = sum_list (map (\<lambda>p. nodes (fst p)) work)"

lemma work_nodes_simps [simp]:
  "work_nodes [] = 0" "work_nodes (p # ps) = nodes (fst p) + work_nodes ps"
  "work_nodes (ps @ qs) = work_nodes ps + work_nodes qs"
  "work_nodes (rev ps) = work_nodes ps"
  by (simp_all add: work_nodes_def rev_map [symmetric])

lemma work_nodes_zip: "work_nodes (zip l r) \<le> sum_list (map nodes l)"
proof (induction l arbitrary: r)
  case (Cons x l)
  then show ?case by (cases r) (auto intro: trans_le_add2)
qed simp

lemma work_nodes_members:
  "member_pairs l r = Some ps \<Longrightarrow> work_nodes ps = sum_list (map (\<lambda>m. nodes (snd m)) l)"
  by (induction l r arbitrary: ps rule: member_pairs.induct) (auto split: option.splits)

text \<open>
  The body of the loop for one pair: \<^const>\<open>None\<close> is \<open>return false\<close>, otherwise the pairs that are
  pushed. The number cases of the type switch lie behind the numeric comparison and are never
  reached.
\<close>

definition equal_node :: "json \<Rightarrow> json \<Rightarrow> (json \<times> json) list option" where
  "equal_node lhs rhs =
     (if isNumber lhs \<and> isNumber rhs then
        (if compareNumbers lhs rhs \<noteq> 0 then None else Some [])
      else if getType lhs \<noteq> getType rhs then None
      else case (lhs, rhs) of
          (JString l, JString r) \<Rightarrow> if l \<noteq> r then None else Some []
        | (JBool l, JBool r) \<Rightarrow> if l \<noteq> r then None else Some []
        | (JArray l, JArray r) \<Rightarrow> if length l \<noteq> length r then None else Some (zip l r)
        | (JObject l, JObject r) \<Rightarrow> if length l \<noteq> length r then None else member_pairs l r
        | _ \<Rightarrow> Some [])"

lemma equal_node_nodes: "equal_node lhs rhs = Some ps \<Longrightarrow> work_nodes ps < nodes lhs"
  by (cases lhs; cases rhs)
    (auto simp: equal_node_def less_Suc_eq_le work_nodes_zip dest: work_nodes_members
      split: if_splits)

text \<open>The stack's top is the head of the list, so pairs are pushed in reverse.\<close>

function (sequential) equal_work :: "(json \<times> json) list \<Rightarrow> bool" where
  "equal_work [] = True"
| "equal_work ((lhs, rhs) # work) =
     (case equal_node lhs rhs of
        None \<Rightarrow> False
      | Some ps \<Rightarrow> equal_work (rev ps @ work))"
  by pat_completeness auto

termination
  by (relation "measure work_nodes") (auto dest: equal_node_nodes)

definition operator_eq :: "json \<Rightarrow> json \<Rightarrow> bool" where
  "operator_eq a b = equal_work [(a, b)]"

definition operator_neq :: "json \<Rightarrow> json \<Rightarrow> bool" where
  "operator_neq a b \<longleftrightarrow> \<not> operator_eq a b"

subsection \<open>Equality is equality of meanings\<close>

text \<open>
  The structural recursion the work list implements.
\<close>

fun json_eq :: "json \<Rightarrow> json \<Rightarrow> bool"
  and eq_elements :: "json list \<Rightarrow> json list \<Rightarrow> bool"
  and eq_members :: "members \<Rightarrow> members \<Rightarrow> bool" where
  "json_eq (JArray l) (JArray r) = eq_elements l r"
| "json_eq (JObject l) (JObject r) = (length l = length r \<and> eq_members l r)"
| "json_eq l r =
     (if isNumber l \<and> isNumber r then compareNumbers l r = 0 else l = r)"
| "eq_elements [] [] = True"
| "eq_elements (x # xs) (y # ys) = (json_eq x y \<and> eq_elements xs ys)"
| "eq_elements _ _ = False"
| "eq_members [] r = True"
| "eq_members ((k, v) # ms) r =
     (case map_of r k of None \<Rightarrow> False | Some v' \<Rightarrow> json_eq v v' \<and> eq_members ms r)"

lemma eq_elements_iff:
  "eq_elements l r \<longleftrightarrow> length l = length r \<and> list_all (\<lambda>(a, b). json_eq a b) (zip l r)"
  by (induction l r rule: list_induct2') auto

lemma eq_members_iff:
  "eq_members l r \<longleftrightarrow>
    (\<exists>ps. member_pairs l r = Some ps \<and> list_all (\<lambda>(a, b). json_eq a b) ps)"
  by (induction l r rule: member_pairs.induct) (auto split: option.splits)

lemma eq_members_all:
  "eq_members l r \<longleftrightarrow>
    (\<forall>(k, v) \<in> set l. case map_of r k of None \<Rightarrow> False | Some v' \<Rightarrow> json_eq v v')"
proof (induction l)
  case (Cons m l)
  then show ?case by (cases m; cases "map_of r (fst m)") simp_all
qed simp

lemma json_eq_number: "isNumber l \<Longrightarrow> isNumber r \<Longrightarrow> json_eq l r \<longleftrightarrow> compareNumbers l r = 0"
  by (cases l; cases r) (simp_all add: isNumber_def)

lemma json_eq_type: "\<not> (isNumber l \<and> isNumber r) \<Longrightarrow> getType l \<noteq> getType r \<Longrightarrow> \<not> json_eq l r"
  by (cases l; cases r) (simp_all add: isNumber_def)

lemma json_eq_node:
  "json_eq lhs rhs \<longleftrightarrow>
    (\<exists>ps. equal_node lhs rhs = Some ps \<and> list_all (\<lambda>(a, b). json_eq a b) ps)"
proof (cases "getType lhs = getType rhs")
  case True
  then show ?thesis
    by (cases lhs; cases rhs)
      (simp_all add: equal_node_def isNumber_def eq_elements_iff eq_members_iff)
next
  case False
  then show ?thesis
    using json_eq_number [of lhs rhs] json_eq_type [of lhs rhs] by (auto simp: equal_node_def)
qed

lemma equal_work_json_eq: "equal_work work = list_all (\<lambda>(a, b). json_eq a b) work"
proof (induction work rule: equal_work.induct)
  case (2 lhs rhs work)
  then show ?case by (auto simp: json_eq_node [of lhs rhs] split: option.split)
qed simp

text \<open>What a tree denotes: exact numbers, and objects as finite maps.\<close>

datatype denotation =
    MNull | MString string | MNumber int | MBool bool
  | MArray "denotation list" | MObject "string \<Rightarrow> denotation option"

fun meaning :: "json \<Rightarrow> denotation" where
  "meaning JNull = MNull"
| "meaning (JString s) = MString s"
| "meaning (JBool b) = MBool b"
| "meaning (JArray xs) = MArray (map meaning xs)"
| "meaning (JObject ms) = MObject (map_of (map (\<lambda>m. (fst m, meaning (snd m))) ms))"
| "meaning v = MNumber (number_value v)"

fun nan_free :: "json \<Rightarrow> bool" where
  "nan_free (JDouble d) \<longleftrightarrow> \<not> isnan d"
| "nan_free (JArray xs) \<longleftrightarrow> list_all nan_free xs"
| "nan_free (JObject ms) \<longleftrightarrow> list_all (\<lambda>m. nan_free (snd m)) ms"
| "nan_free _ \<longleftrightarrow> True"

lemma map_of_meaning:
  "map_of (map (\<lambda>m. (fst m, meaning (snd m))) ms) k = map_option meaning (map_of ms k)"
  by (induction ms) auto

lemma eq_members_meaning:
  assumes "distinct_keys l" and "distinct_keys r" and "length l = length r"
    and eq: "\<And>k v v'. (k, v) \<in> set l \<Longrightarrow> map_of r k = Some v' \<Longrightarrow>
               json_eq v v' \<longleftrightarrow> meaning v = meaning v'"
  shows "eq_members l r \<longleftrightarrow>
    (\<forall>k. map_option meaning (map_of l k) = map_option meaning (map_of r k))"
proof -
  have "(case map_of r k of None \<Rightarrow> False | Some v' \<Rightarrow> json_eq v v') \<longleftrightarrow>
      map_option meaning (map_of r k) = Some (meaning v)" if "(k, v) \<in> set l" for k v
    using eq [OF that] by (auto split: option.split)
  then have pointwise: "eq_members l r \<longleftrightarrow>
      (\<forall>(k, v) \<in> set l. map_option meaning (map_of r k) = Some (meaning v))"
    by (auto simp: eq_members_all)
  have lookup: "map_of l k = Some v \<longleftrightarrow> (k, v) \<in> set l" for k v
    using assms(1) by (rule map_of_eq_Some_iff)
  have same_keys: "dom (map_of l) = dom (map_of r)" if "eq_members l r"
  proof (rule card_subset_eq)
    show "dom (map_of l) \<subseteq> dom (map_of r)"
    proof
      fix k
      assume "k \<in> dom (map_of l)"
      then obtain v where "(k, v) \<in> set l" using lookup by blast
      with that pointwise have "map_option meaning (map_of r k) = Some (meaning v)" by blast
      then show "k \<in> dom (map_of r)" by blast
    qed
    show "card (dom (map_of l)) = card (dom (map_of r))"
      using distinct_card [OF assms(1)] distinct_card [OF assms(2)] assms(3)
      by (simp add: dom_map_of_conv_image_fst)
  qed (rule finite_dom_map_of)
  show ?thesis
  proof
    assume eqm: "eq_members l r"
    show "\<forall>k. map_option meaning (map_of l k) = map_option meaning (map_of r k)"
    proof
      fix k
      show "map_option meaning (map_of l k) = map_option meaning (map_of r k)"
      proof (cases "map_of l k")
        case None
        with same_keys [OF eqm] show ?thesis by (metis domIff)
      next
        case (Some v)
        with eqm pointwise lookup [of k v] show ?thesis by auto
      qed
    qed
  next
    assume all: "\<forall>k. map_option meaning (map_of l k) = map_option meaning (map_of r k)"
    have "map_option meaning (map_of r k) = Some (meaning v)" if "(k, v) \<in> set l" for k v
      using that lookup [of k v] all [rule_format, of k] by simp
    then show "eq_members l r" using pointwise by blast
  qed
qed

lemma number_json_eq_meaning:
  assumes "isNumber a" and "isNumber b" and "nan_free a" and "nan_free b"
  shows "json_eq a b \<longleftrightarrow> meaning a = meaning b"
proof -
  have "meaning v = MNumber (number_value v)" if "isNumber v" for v
    using that by (cases v) (simp_all add: isNumber_def)
  moreover have "\<not> unordered v" if "nan_free v" for v using that by (cases v) simp_all
  ultimately show ?thesis
    using assms by (auto simp: json_eq_number compareNumbers_value int_of_comparison_def)
qed

lemma scalar_json_eq_meaning:
  assumes "\<not> isArray a" and "\<not> isObject a" and "nan_free a" and "nan_free b"
  shows "json_eq a b \<longleftrightarrow> meaning a = meaning b"
proof (cases "isNumber a \<and> isNumber b")
  case True
  with assms(3,4) show ?thesis by (intro number_json_eq_meaning) simp_all
next
  case False
  with assms(1,2) show ?thesis
    by (cases a; cases b) (simp_all add: isNumber_def isArray_def isObject_def)
qed

lemma json_eq_meaning:
  "wf_json a \<Longrightarrow> wf_json b \<Longrightarrow> nan_free a \<Longrightarrow> nan_free b \<Longrightarrow>
    json_eq a b \<longleftrightarrow> meaning a = meaning b"
proof (induction a arbitrary: b)
  case (JArray xs)
  show ?case
  proof (cases b)
    case b: (JArray ys)
    have "json_eq (xs ! i) (ys ! i) \<longleftrightarrow> meaning (xs ! i) = meaning (ys ! i)"
      if "i < length xs" "i < length ys" for i
      using that JArray.prems b by (intro JArray.IH) (simp_all add: list_all_length)
    then show ?thesis
      by (auto simp: b eq_elements_iff list_all_length list_eq_iff_nth_eq)
  qed (simp_all add: isNumber_def)
next
  case (JObject ms)
  show ?case
  proof (cases b)
    case b: (JObject rs)
    note wf = JObject.prems
    have keys: "length ms = length rs" if "meaning (JObject ms) = meaning b"
    proof -
      have "map_option meaning (map_of ms k) = map_option meaning (map_of rs k)" for k
        using fun_cong [of _ _ k] that by (simp add: b map_of_meaning [symmetric])
      then have "dom (map_of ms) = dom (map_of rs)"
        by (metis (no_types, lifting) domIff option.map_disc_iff subsetI subset_antisym)
      then have "card (set (map fst ms)) = card (set (map fst rs))"
        by (simp add: dom_map_of_conv_image_fst)
      then show ?thesis
        using wf(1,2) distinct_card [of "map fst ms"] distinct_card [of "map fst rs"]
        by (simp add: b)
    qed
    have IH: "json_eq v v' \<longleftrightarrow> meaning v = meaning v'"
      if "(k, v) \<in> set ms" "map_of rs k = Some v'" for k v v'
    proof (rule JObject.IH [OF that(1)])
      show "v \<in> Basic_BNFs.snds (k, v)" by simp
      show "wf_json v" "nan_free v" using that(1) wf by (auto simp: list_all_iff)
      show "wf_json v'" "nan_free v'" using map_of_mem [OF that(2)] wf b by (auto simp: list_all_iff)
    qed
    show ?thesis
    proof (cases "length ms = length rs")
      case True
      have "eq_members ms rs \<longleftrightarrow>
          (\<forall>k. map_option meaning (map_of ms k) = map_option meaning (map_of rs k))"
        using wf b True IH by (intro eq_members_meaning) auto
      then show ?thesis by (simp add: b True fun_eq_iff map_of_meaning)
    qed (use keys in \<open>auto simp: b\<close>)
  qed (simp_all add: isNumber_def)
qed (intro scalar_json_eq_meaning; simp add: isArray_def isObject_def)+

end
