(* ===== verification/Json_Path.thy ===== *)
theory Json_Path
  imports Json_Value
begin

section \<open>Locations inside a tree\<close>

text \<open>
  A \<open>pjson*\<close> into a tree is a location: the steps from the root to the node. Following a
  location reads the node it points to, \<open>update_at\<close> is a write through the pointer. The code
  never holds a pointer across the removal of its node, and object children keep their
  identity while other members come and go, so a member step is the member's name.
\<close>

datatype step = Member string | Elem nat

type_synonym loc = "step list"

fun child :: "json \<Rightarrow> step \<Rightarrow> json option" where
  "child (JObject ms) (Member k) = map_of ms k"
| "child (JArray xs) (Elem i) = (if i < length xs then Some (xs ! i) else None)"
| "child _ _ = None"

fun subnode :: "json \<Rightarrow> loc \<Rightarrow> json option" where
  "subnode v [] = Some v"
| "subnode v (s # p) = (case child v s of None \<Rightarrow> None | Some c \<Rightarrow> subnode c p)"

fun update_child :: "step \<Rightarrow> (json \<Rightarrow> json) \<Rightarrow> json \<Rightarrow> json" where
  "update_child (Member k) f (JObject ms) = JObject (AList.map_entry k f ms)"
| "update_child (Elem i) f (JArray xs) =
     JArray (if i < length xs then xs[i := f (xs ! i)] else xs)"
| "update_child _ f v = v"

fun update_at :: "loc \<Rightarrow> (json \<Rightarrow> json) \<Rightarrow> json \<Rightarrow> json" where
  "update_at [] f v = f v"
| "update_at (s # p) f v = update_child s (update_at p f) v"

lemma map_of_map_entry [simp]:
  "map_of (AList.map_entry k f ms) = (map_of ms)(k := map_option f (map_of ms k))"
  by (induction ms) (auto simp: fun_eq_iff)

lemma keys_map_entry [simp]: "map fst (AList.map_entry k f ms) = map fst ms"
  by (induction ms) auto

lemma length_map_entry [simp]: "length (AList.map_entry k f ms) = length ms"
  by (induction ms) auto

lemma map_entry_cong:
  "(\<And>v. map_of ms k = Some v \<Longrightarrow> f v = g v) \<Longrightarrow> AList.map_entry k f ms = AList.map_entry k g ms"
  by (induction ms) auto

lemma map_entry_comp: "AList.map_entry k f (AList.map_entry k g ms) = AList.map_entry k (f \<circ> g) ms"
  by (induction ms) auto

lemma map_entry_commute:
  "k \<noteq> l \<Longrightarrow>
    AList.map_entry k f (AList.map_entry l g ms) = AList.map_entry l g (AList.map_entry k f ms)"
  by (induction ms) auto

lemma map_entry_id [simp]: "AList.map_entry k (\<lambda>v. v) ms = ms"
  by (induction ms) auto

lemma map_entry_absent: "map_of ms k = None \<Longrightarrow> AList.map_entry k f ms = ms"
  by (induction ms) (auto split: if_splits)

lemma map_entry_update:
  "map_of ms k = Some w \<Longrightarrow> AList.map_entry k (\<lambda>_. v) ms = AList.update k v ms"
  by (induction ms) (auto split: if_splits)

lemma map_entry_const_update: "AList.map_entry k f (AList.update k v ms) = AList.update k (f v) ms"
  by (induction ms) auto

lemma set_map_entry: "set (AList.map_entry k f ms) \<subseteq> set ms \<union> {(k, f v) |v. map_of ms k = Some v}"
  by (induction ms) auto

lemma child_update_child [path_simps]:
  "child (update_child s f v) s = map_option f (child v s)"
  by (cases "(s, f, v)" rule: update_child.cases) auto

lemma child_update_other: "s \<noteq> t \<Longrightarrow> child (update_child s f v) t = child v t"
  by (cases "(s, f, v)" rule: update_child.cases; cases t) auto

lemma update_child_comp: "update_child s f (update_child s g v) = update_child s (f \<circ> g) v"
  by (cases "(s, f, v)" rule: update_child.cases) (auto simp: map_entry_comp)

lemma update_child_commute:
  "s \<noteq> t \<Longrightarrow> update_child s f (update_child t g v) = update_child t g (update_child s f v)"
  by (cases "(s, f, v)" rule: update_child.cases; cases t)
    (auto simp: map_entry_commute nth_list_update list_update_swap)

lemma update_child_absent: "child v s = None \<Longrightarrow> update_child s f v = v"
  by (cases "(s, f, v)" rule: update_child.cases) (auto simp: map_entry_absent split: if_splits)

lemma update_child_cong:
  "(\<And>c. child v s = Some c \<Longrightarrow> f c = g c) \<Longrightarrow> update_child s f v = update_child s g v"
  by (cases "(s, f, v)" rule: update_child.cases) (auto intro: map_entry_cong)

lemma update_child_id [simp]: "update_child s (\<lambda>v. v) v = v"
  by (cases "(s, \<lambda>v::json. v, v)" rule: update_child.cases) auto

lemma update_at_cong:
  "(\<And>c. subnode v p = Some c \<Longrightarrow> f c = g c) \<Longrightarrow> update_at p f v = update_at p g v"
proof (induction p arbitrary: v)
  case (Cons s p)
  have "update_at p f c = update_at p g c" if "child v s = Some c" for c
  proof (rule Cons.IH)
    fix d
    assume "subnode c p = Some d"
    then show "f d = g d" using that by (intro Cons.prems) simp
  qed
  then show ?case unfolding update_at.simps by (rule update_child_cong)
qed simp

lemma update_at_append: "update_at (p @ q) f v = update_at p (update_at q f) v"
  by (induction p arbitrary: v) (auto intro: update_child_cong)

lemma subnode_append:
  "subnode v (p @ q) = (case subnode v p of None \<Rightarrow> None | Some c \<Rightarrow> subnode c q)"
  by (induction p arbitrary: v) (auto split: option.splits)

text \<open>Reading back what was written, and the frame of a write.\<close>

lemma subnode_update_at [path_simps]:
  "subnode (update_at p f v) p = map_option f (subnode v p)"
  by (induction p arbitrary: v) (auto simp: child_update_child split: option.splits)

lemma update_at_comp: "update_at p f (update_at p g v) = update_at p (f \<circ> g) v"
proof (induction p arbitrary: v)
  case (Cons s p)
  then show ?case by (auto simp: update_child_comp comp_def intro: update_child_cong)
qed simp

lemma update_at_absent: "subnode v p = None \<Longrightarrow> update_at p f v = v"
proof (induction p arbitrary: v)
  case (Cons s p)
  show ?case
  proof (cases "child v s")
    case None
    then show ?thesis by (simp add: update_child_absent)
  next
    case (Some c)
    with Cons have "update_at p f c = c" by simp
    with Some have "update_child s (update_at p f) v = update_child s (\<lambda>v. v) v"
      by (intro update_child_cong) simp
    then show ?thesis by simp
  qed
qed simp

text \<open>Two locations fork when neither is a prefix of the other.\<close>

fun forks :: "loc \<Rightarrow> loc \<Rightarrow> bool" where
  "forks (s # p) (t # q) = (if s = t then forks p q else True)"
| "forks _ _ = False"

lemma subnode_update_fork: "forks p q \<Longrightarrow> subnode (update_at p f v) q = subnode v q"
  by (induction p q arbitrary: v rule: forks.induct)
    (auto simp: child_update_child child_update_other split: option.splits if_splits)

lemma update_at_fork:
  "forks p q \<Longrightarrow> update_at p f (update_at q g v) = update_at q g (update_at p f v)"
proof (induction p q arbitrary: v rule: forks.induct)
  case (1 s p t q)
  then show ?case
    by (cases "s = t") (auto simp: update_child_comp comp_def update_child_commute
        intro: update_child_cong)
qed auto

subsection \<open>The invariant under writes\<close>

lemma wf_json_child: "wf_json v \<Longrightarrow> child v s = Some c \<Longrightarrow> wf_json c"
  by (cases "(v, s)" rule: child.cases)
    (auto simp: list_all_iff dest!: map_of_mem split: if_splits)

lemma wf_json_subnode: "wf_json v \<Longrightarrow> subnode v p = Some c \<Longrightarrow> wf_json c"
  by (induction p arbitrary: v) (auto split: option.splits dest: wf_json_child)

lemma wf_json_update_child:
  assumes "wf_json v" and "\<And>c. child v s = Some c \<Longrightarrow> wf_json (f c)"
  shows "wf_json (update_child s f v)"
proof (cases "(s, f, v)" rule: update_child.cases)
  case (1 k f' ms)
  then show ?thesis
    using assms set_map_entry [of k f ms] by (fastforce simp: list_all_iff)
next
  case (2 i f' xs)
  then show ?thesis
    using assms by (auto simp: list_all_iff dest!: set_update_subset_insert [THEN subsetD])
qed (use assms(1) in auto)

lemma wf_json_update_at:
  "wf_json v \<Longrightarrow> (\<And>c. subnode v p = Some c \<Longrightarrow> wf_json (f c)) \<Longrightarrow> wf_json (update_at p f v)"
proof (induction p arbitrary: v)
  case (Cons s p)
  have "wf_json (update_at p f c)" if "child v s = Some c" for c
    using Cons.prems that wf_json_child by (intro Cons.IH) auto
  with Cons.prems(1) show ?case by (simp add: wf_json_update_child)
qed simp

end
