(* ===== verification/Decimal.thy ===== *)
theory Decimal
  imports Prelude
begin

section \<open>Decimal numerals\<close>

text \<open>
  \<open>std::to_string\<close> on integers and the value of a run of digits, shared by the JSON Pointer
  index parser, the number tokens of the parser and the serializer.
\<close>

definition digit_char :: "nat \<Rightarrow> char" where
  "digit_char d = char_of (48 + d)"

fun decimal :: "nat \<Rightarrow> string" where
  "decimal n = (if n < 10 then [digit_char n] else decimal (n div 10) @ [digit_char (n mod 10)])"

declare decimal.simps [simp del]

definition decimal_int :: "int \<Rightarrow> string" where
  "decimal_int i = (if i < 0 then CHR ''-'' # decimal (nat (- i)) else decimal (nat i))"

text \<open>Horner's scheme from a starting value, as the loops that read digits compute it.\<close>

fun digits_value :: "nat \<Rightarrow> string \<Rightarrow> nat" where
  "digits_value a [] = a"
| "digits_value a (c # cs) = digits_value (a * 10 + digit_value c) cs"

text \<open>A numeral without a superfluous leading zero.\<close>

definition canonical_decimal :: "string \<Rightarrow> bool" where
  "canonical_decimal s \<longleftrightarrow> s \<noteq> [] \<and> list_all is_digit s \<and> (hd s = CHR ''0'' \<longrightarrow> s = ''0'')"

lemma of_char_digit: "d < 10 \<Longrightarrow> of_char (digit_char d) = (48 + d :: nat)"
  by (simp add: digit_char_def)

lemma is_digit_char [simp]: "d < 10 \<Longrightarrow> is_digit (digit_char d)"
  by (simp add: is_digit_def less_eq_char_def of_char_digit)

lemma digit_value_char [simp]: "d < 10 \<Longrightarrow> digit_value (digit_char d) = d"
  by (simp add: digit_value_def of_char_digit)

lemma digit_char_value [simp]: "is_digit c \<Longrightarrow> digit_char (digit_value c) = c"
  by (simp add: is_digit_def less_eq_char_def digit_char_def digit_value_def)

lemma digit_char_zero [simp]: "d < 10 \<Longrightarrow> digit_char d = CHR ''0'' \<longleftrightarrow> d = 0"
proof
  assume "d < 10" and "digit_char d = CHR ''0''"
  then have "48 + d = (of_char (CHR ''0'') :: nat)" using of_char_digit [of d] by metis
  then show "d = 0" by simp
qed (simp add: digit_char_def char_of_def bit_0)

lemma decimal_digits: "list_all is_digit (decimal n)"
proof (induction n rule: decimal.induct)
  case (1 n)
  then show ?case by (subst decimal.simps) simp
qed

lemma decimal_nonempty [simp]: "decimal n \<noteq> []"
  by (subst decimal.simps) simp

lemma digits_value_append: "digits_value a (s @ t) = digits_value (digits_value a s) t"
  by (induction s arbitrary: a) auto

lemma digits_value_mono: "a \<le> digits_value a s"
proof (induction s arbitrary: a)
  case (Cons c s)
  have "a \<le> a * 10 + digit_value c" by simp
  also have "\<dots> \<le> digits_value (a * 10 + digit_value c) s" by (rule Cons.IH)
  finally show ?case by simp
qed simp

lemma digits_value_decimal [simp]: "digits_value 0 (decimal n) = n"
proof (induction n rule: decimal.induct)
  case (1 n)
  then show ?case by (subst decimal.simps) (simp add: digits_value_append)
qed

lemma decimal_hd_zero: "hd (decimal n) = CHR ''0'' \<Longrightarrow> n = 0"
proof (induction n rule: decimal.induct)
  case (1 n)
  show ?case
  proof (cases "n < 10")
    case True
    with "1.prems" show ?thesis by (simp add: decimal.simps [of n])
  next
    case False
    with "1.prems" have "hd (decimal (n div 10)) = CHR ''0''"
      by (simp add: decimal.simps [of n])
    with "1.IH" False have "n div 10 = 0" by simp
    with False show ?thesis by simp
  qed
qed

lemma canonical_decimal_decimal [simp]: "canonical_decimal (decimal n)"
  unfolding canonical_decimal_def
  using decimal_digits [of n] decimal_hd_zero [of n]
  by (auto simp: decimal.simps [of 0] digit_char_def char_of_def bit_0)

lemma decimal_snoc: "0 < n \<Longrightarrow> d < 10 \<Longrightarrow> decimal (n * 10 + d) = decimal n @ [digit_char d]"
  by (subst decimal.simps) simp

lemma decimal_zero [simp]: "decimal 0 = ''0''"
  by (subst decimal.simps) (simp add: digit_char_def char_of_def bit_0)

text \<open>Canonical numerals are exactly the printed ones.\<close>

lemma decimal_digits_value:
  "0 < a \<Longrightarrow> list_all is_digit s \<Longrightarrow> decimal (digits_value a s) = decimal a @ s"
proof (induction s arbitrary: a)
  case (Cons c s)
  then have "decimal (digits_value (a * 10 + digit_value c) s)
      = decimal (a * 10 + digit_value c) @ s" by simp
  also have "\<dots> = decimal a @ c # s"
    using Cons.prems by (simp add: decimal_snoc digit_value_less)
  finally show ?case by simp
qed simp

lemma canonical_decimal_iff: "canonical_decimal s \<longleftrightarrow> s = decimal (digits_value 0 s)"
proof
  assume s: "canonical_decimal s"
  then obtain c cs where cs: "s = c # cs" and c: "is_digit c" "list_all is_digit cs"
    by (cases s) (auto simp: canonical_decimal_def)
  show "s = decimal (digits_value 0 s)"
  proof (cases "digit_value c = 0")
    case True
    then have "c = CHR ''0''" using c(1) digit_char_value digit_char_zero by (metis zero_less_numeral)
    with s cs have "s = ''0''" by (simp add: canonical_decimal_def)
    then show ?thesis by (simp add: digit_value_def)
  next
    case False
    then have "decimal (digits_value (digit_value c) cs) = decimal (digit_value c) @ cs"
      using c(2) by (intro decimal_digits_value) auto
    moreover have "decimal (digit_value c) = [c]"
      using c(1) digit_value_less by (subst decimal.simps) simp
    ultimately show ?thesis using cs by simp
  qed
qed (metis canonical_decimal_decimal)

lemma decimal_inject [simp]: "decimal m = decimal n \<longleftrightarrow> m = n"
  by (metis digits_value_decimal)

end
