(* ===== verification/Json_Pointer.thy ===== *)
theory Json_Pointer
  imports Json_Path Decimal
begin

section \<open>JSON Pointer\<close>

text \<open>
  \<open>pjson_pointer.cpp\<close>: token escaping and decoding, the overflow-checked array index, and the
  traversal, with the structured error each failure leaves. A found node is its location
  together with its value. The \<open>catch\<close> clauses, which report allocation failure, are not
  modelled.
\<close>

datatype PointerError_Code =
    Pointer_Ok | InvalidSyntax | InvalidEscape | MissingTarget | ExpectedContainer
  | InvalidArrayIndex | ArrayIndexOutOfRange | AppendTokenNotAllowed
  | Pointer_AllocationFailure | Pointer_InternalError

record PointerError =
  ptr_ok :: bool
  ptr_code :: PointerError_Code
  ptr_pointer :: string
  ptr_tokenIndex :: nat
  ptr_token :: string
  ptr_message :: string

definition resetPointerError :: PointerError where
  "resetPointerError =
     \<lparr>ptr_ok = True, ptr_code = Pointer_Ok, ptr_pointer = [], ptr_tokenIndex = 0,
      ptr_token = [], ptr_message = []\<rparr>"

definition failPointer ::
    "PointerError_Code \<Rightarrow> string \<Rightarrow> nat \<Rightarrow> string \<Rightarrow> string \<Rightarrow> PointerError" where
  "failPointer code pointer tokenIndex token message =
     \<lparr>ptr_ok = False, ptr_code = code, ptr_pointer = pointer, ptr_tokenIndex = tokenIndex,
      ptr_token = token, ptr_message = message\<rparr>"

text \<open>The diagnostic texts.\<close>

definition msg_tilde_escape :: string where
  "msg_tilde_escape = ''JSON Pointer token contains an invalid '~' escape''"
definition msg_pointer_start :: string where
  "msg_pointer_start = (''JSON Pointer must be empty or begin with '/'' @ [CHR 0x27])"
definition msg_member_missing :: string where
  "msg_member_missing = ''JSON Pointer object member does not exist''"
definition msg_append_token :: string where
  "msg_append_token = ''the '-' token is only valid for JSON Patch add''"
definition msg_index_canonical :: string where
  "msg_index_canonical = ''JSON Pointer array index is not canonical decimal''"
definition msg_index_range :: string where
  "msg_index_range = ''JSON Pointer array index is out of range''"
definition msg_non_container :: string where
  "msg_non_container = ''JSON Pointer traversal reached a non-container value''"
definition msg_pointer_null :: string where
  "msg_pointer_null = ''JSON Pointer input is null''"

subsection \<open>Array indices\<close>

text \<open>The enumeration, with the index the code writes on success; 64-bit arithmetic.\<close>

datatype PointerIndexResult = PointerIndexOk u64 | PointerIndexInvalid | PointerIndexOverflow

fun parse_index_digits :: "string \<Rightarrow> u64 \<Rightarrow> PointerIndexResult" where
  "parse_index_digits [] value = PointerIndexOk value"
| "parse_index_digits (ch # token) value =
     (if \<not> is_digit ch then PointerIndexInvalid
      else
        let digit = word_of_nat (digit_value ch) :: u64
        in if value > (- 1 - digit) div 10 then PointerIndexOverflow
           else parse_index_digits token (value * 10 + digit))"

definition parsePointerIndex :: "string \<Rightarrow> PointerIndexResult" where
  "parsePointerIndex token =
     (if token = [] \<or> (length token > 1 \<and> token ! 0 = CHR ''0'') then PointerIndexInvalid
      else parse_index_digits token 0)"

subsection \<open>Tokens\<close>

text \<open>The inner loop over one token: \<^const>\<open>None\<close> is an invalid escape.\<close>

fun decode_token :: "string \<Rightarrow> string option" where
  "decode_token [] = Some []"
| "decode_token (ch # rest) =
     (if ch \<noteq> CHR ''~'' then map_option (Cons ch) (decode_token rest)
      else case rest of
          [] \<Rightarrow> None
        | e # rest' \<Rightarrow>
            if e \<noteq> CHR ''0'' \<and> e \<noteq> CHR ''1'' then None
            else map_option (Cons (if e = CHR ''0'' then CHR ''~'' else CHR ''/''))
                   (decode_token rest'))"

text \<open>The loop over tokens; \<open>rest\<close> is the pointer text from \<open>tokenStart\<close> on.\<close>

function decode_tokens ::
    "string \<Rightarrow> nat \<Rightarrow> string \<Rightarrow> string list \<Rightarrow> PointerError + string list" where
  "decode_tokens pointer tokenIndex rest tokens =
     (let raw = takeWhile (\<lambda>c. c \<noteq> CHR ''/'') rest
      in case decode_token raw of
           None \<Rightarrow> Inl (failPointer InvalidEscape pointer tokenIndex raw
                     msg_tilde_escape)
         | Some decoded \<Rightarrow>
             (case dropWhile (\<lambda>c. c \<noteq> CHR ''/'') rest of
                [] \<Rightarrow> Inr (tokens @ [decoded])
              | slash # rest' \<Rightarrow>
                  decode_tokens pointer (Suc tokenIndex) rest' (tokens @ [decoded])))"
  by pat_completeness auto

termination
proof (relation "measure (\<lambda>(pointer, tokenIndex, rest, tokens). length rest)", goal_cases)
  case (2 pointer tokenIndex rest tokens raw decoded slash rest')
  then show ?case
    using length_dropWhile_le [of "\<lambda>c. c \<noteq> CHR ''/''" rest] by simp
qed simp

declare decode_tokens.simps [simp del]

definition decodePointer :: "string \<Rightarrow> PointerError + string list" where
  "decodePointer pointer =
     (case pointer of
        [] \<Rightarrow> Inr []
      | c # rest \<Rightarrow>
          if c \<noteq> CHR ''/'' then
            Inl (failPointer InvalidSyntax pointer 0 []
                   msg_pointer_start)
          else decode_tokens pointer 0 rest [])"

fun escapePointerToken :: "string \<Rightarrow> string" where
  "escapePointerToken [] = []"
| "escapePointerToken (c # token) =
     (if c = CHR ''~'' then ''~0'' else if c = CHR ''/'' then ''~1'' else [c])
       @ escapePointerToken token"

subsection \<open>Traversal\<close>

fun resolve_tokens ::
    "string \<Rightarrow> nat \<Rightarrow> json \<Rightarrow> loc \<Rightarrow> string list \<Rightarrow> PointerError + (loc \<times> json)" where
  "resolve_tokens pointer i current at [] = Inr (at, current)"
| "resolve_tokens pointer i current at (token # tokens) =
     (case current of
        JObject ms \<Rightarrow>
          (case find_key current token of
             None \<Rightarrow> Inl (failPointer MissingTarget pointer i token
                       msg_member_missing)
           | Some c \<Rightarrow> resolve_tokens pointer (Suc i) c (at @ [Member token]) tokens)
      | JArray xs \<Rightarrow>
          if token = ''-'' then
            Inl (failPointer AppendTokenNotAllowed pointer i token
                   msg_append_token)
          else
            (case parsePointerIndex token of
               PointerIndexInvalid \<Rightarrow>
                 Inl (failPointer InvalidArrayIndex pointer i token
                        msg_index_canonical)
             | PointerIndexOverflow \<Rightarrow>
                 Inl (failPointer ArrayIndexOutOfRange pointer i token
                        msg_index_range)
             | PointerIndexOk index \<Rightarrow>
                 if unat index \<ge> length xs then
                   Inl (failPointer ArrayIndexOutOfRange pointer i token
                          msg_index_range)
                 else resolve_tokens pointer (Suc i) (xs ! unat index)
                        (at @ [Elem (unat index)]) tokens)
      | _ \<Rightarrow> Inl (failPointer ExpectedContainer pointer i token
               msg_non_container))"

definition resolvePointerTokens ::
    "json \<Rightarrow> string list \<Rightarrow> nat \<Rightarrow> string \<Rightarrow> PointerError + (loc \<times> json)" where
  "resolvePointerTokens root tokens count pointer =
     resolve_tokens pointer 0 root [] (take count tokens)"

definition findPointer :: "json \<Rightarrow> string \<Rightarrow> PointerError + (loc \<times> json)" where
  "findPointer root pointer =
     (case decodePointer pointer of
        Inl e \<Rightarrow> Inl e
      | Inr tokens \<Rightarrow> resolvePointerTokens root tokens (length tokens) pointer)"

text \<open>The C-string overload: a null pointer is a syntax error, a NUL byte ends the text.\<close>

definition findPointer_cstring :: "json \<Rightarrow> string option \<Rightarrow> PointerError + (loc \<times> json)" where
  "findPointer_cstring root p =
     (case p of
        Some pointer \<Rightarrow> findPointer root (takeWhile (\<lambda>c. c \<noteq> CHR 0x00) pointer)
      | None \<Rightarrow> Inl (failPointer InvalidSyntax [] 0 [] msg_pointer_null))"

subsection \<open>Escaping and decoding are inverse\<close>

text \<open>The text of a list of reference tokens.\<close>

definition pointer_text :: "string list \<Rightarrow> string" where
  "pointer_text tokens = concat (map (\<lambda>t. CHR ''/'' # escapePointerToken t) tokens)"

lemma pointer_text_simps [simp]:
  "pointer_text [] = []"
  "pointer_text (t # ts) = CHR ''/'' # escapePointerToken t @ pointer_text ts"
  by (simp_all add: pointer_text_def)

lemma decode_escape [simp]: "decode_token (escapePointerToken t) = Some t"
  by (induction t) auto

lemma escape_no_slash [simp]: "CHR ''/'' \<notin> set (escapePointerToken t)"
  by (induction t) auto

lemma escape_decode: "decode_token s = Some t \<Longrightarrow> CHR ''/'' \<notin> set s \<Longrightarrow> s = escapePointerToken t"
proof (induction s arbitrary: t rule: decode_token.induct)
  case (2 ch rest)
  show ?case
  proof (cases "ch = CHR ''~''")
    case tilde: True
    show ?thesis
    proof (cases rest)
      case Nil
      with "2.prems" tilde show ?thesis by simp
    next
      case (Cons e rest')
      with "2.prems" tilde have e: "e = CHR ''0'' \<or> e = CHR ''1''" by (auto split: if_splits)
      with "2.prems" tilde Cons obtain t' where t': "decode_token rest' = Some t'"
        "t = (if e = CHR ''0'' then CHR ''~'' else CHR ''/'') # t'" by auto
      have "rest' = escapePointerToken t'"
        using "2.IH"(2) tilde Cons e t'(1) "2.prems"(2) by auto
      with t'(2) e tilde Cons show ?thesis by auto
    qed
  next
    case False
    with "2.prems"(1) obtain t' where t': "decode_token rest = Some t'" "t = ch # t'" by auto
    with False "2.IH"(1) "2.prems"(2) show ?thesis by auto
  qed
qed simp

lemma pointer_text_slash: "pointer_text ts = [] \<or> (\<exists>r. pointer_text ts = CHR ''/'' # r)"
  by (cases ts) auto

lemma takeWhile_token:
  assumes "CHR ''/'' \<notin> set t" and "r = [] \<or> (\<exists>r'. r = CHR ''/'' # r')"
  shows "takeWhile (\<lambda>c. c \<noteq> CHR ''/'') (t @ r) = t"
    and "dropWhile (\<lambda>c. c \<noteq> CHR ''/'') (t @ r) = r"
proof -
  have all: "\<And>x. x \<in> set t \<Longrightarrow> x \<noteq> CHR ''/''" using assms(1) by auto
  show "takeWhile (\<lambda>c. c \<noteq> CHR ''/'') (t @ r) = t"
    using assms(2) takeWhile_append2 [of t, OF all] by auto
  show "dropWhile (\<lambda>c. c \<noteq> CHR ''/'') (t @ r) = r"
    using assms(2) dropWhile_append2 [of t, OF all] by auto
qed

lemma decode_tokens_text:
  "decode_tokens pointer i (escapePointerToken t @ pointer_text ts) acc = Inr (acc @ t # ts)"
proof (induction ts arbitrary: i t acc)
  case Nil
  note split = takeWhile_token [OF escape_no_slash pointer_text_slash [of "[]"]]
  show ?case unfolding decode_tokens.simps [of _ _ "_ @ _"] split Let_def by simp
next
  case (Cons u ts)
  note split = takeWhile_token [OF escape_no_slash pointer_text_slash [of "u # ts"]]
  show ?case
    unfolding decode_tokens.simps [of _ _ "escapePointerToken t @ _"] split Let_def
    using Cons.IH by simp
qed

lemma decode_tokens_inverse:
  "decode_tokens pointer i rest acc = Inr ts \<Longrightarrow>
    \<exists>t us. ts = acc @ t # us \<and> rest = escapePointerToken t @ pointer_text us"
proof (induction pointer i rest acc arbitrary: ts rule: decode_tokens.induct)
  case (1 pointer i rest acc)
  let ?raw = "takeWhile (\<lambda>c. c \<noteq> CHR ''/'') rest"
  have rest: "?raw @ dropWhile (\<lambda>c. c \<noteq> CHR ''/'') rest = rest" by simp
  note step = "1.prems" [unfolded decode_tokens.simps [of pointer i rest acc] Let_def]
  from step obtain d where d: "decode_token ?raw = Some d"
    by (cases "decode_token ?raw") simp_all
  then have raw: "?raw = escapePointerToken d"
    by (rule escape_decode) (auto dest: set_takeWhileD)
  have parts: "rest = escapePointerToken d @ dropWhile (\<lambda>c. c \<noteq> CHR ''/'') rest"
    unfolding raw [symmetric] by (rule rest [symmetric])
  show ?case
  proof (cases "dropWhile (\<lambda>c. c \<noteq> CHR ''/'') rest")
    case Nil
    with step d have "ts = acc @ [d]" by simp
    moreover have "rest = escapePointerToken d @ pointer_text []"
      using parts unfolding Nil by simp
    ultimately show ?thesis by blast
  next
    case (Cons slash rest')
    then have slash: "slash = CHR ''/''" using hd_dropWhile [of "\<lambda>c. c \<noteq> CHR ''/''" rest] by auto
    from step d Cons have "decode_tokens pointer (Suc i) rest' (acc @ [d]) = Inr ts" by simp
    from "1.IH" [OF refl d Cons this] obtain t us
      where "ts = (acc @ [d]) @ t # us" "rest' = escapePointerToken t @ pointer_text us" by blast
    moreover from this have "rest = escapePointerToken d @ pointer_text (t # us)"
      using parts unfolding Cons slash by simp
    ultimately have "ts = acc @ d # t # us \<and> rest = escapePointerToken d @ pointer_text (t # us)"
      by simp
    then show ?thesis by blast
  qed
qed

lemma decodePointer_iff: "decodePointer p = Inr ts \<longleftrightarrow> p = pointer_text ts"
proof
  assume "decodePointer p = Inr ts"
  then show "p = pointer_text ts"
    by (auto simp: decodePointer_def split: list.splits if_splits dest: decode_tokens_inverse)
next
  assume p: "p = pointer_text ts"
  show "decodePointer p = Inr ts"
  proof (cases ts)
    case (Cons t us)
    with p show ?thesis using decode_tokens_text [of p 0 t us "[]"] by (simp add: decodePointer_def)
  qed (use p in \<open>simp add: decodePointer_def\<close>)
qed

subsection \<open>The index is the decimal number, within 64 bits\<close>

lemma index_overflow_check:
  fixes v :: u64
  assumes "d < 10"
  shows "v > (- 1 - word_of_nat d) div 10 \<longleftrightarrow> 2 ^ 64 \<le> unat v * 10 + d"
proof -
  have "(word_of_nat d :: u64) \<le> - 1" by simp
  then have "unat (- 1 - word_of_nat d :: u64) = size_max - d"
    using assms by (simp add: unat_sub unat_of_nat unat_minus_one_u64)
  then have "unat ((- 1 - word_of_nat d) div 10 :: u64) = (size_max - d) div 10"
    by (simp add: unat_div)
  then show ?thesis using assms by (simp add: word_less_nat_alt) arith
qed

lemma unat_index_step:
  fixes v :: u64
  assumes "d < 10" and "unat v * 10 + d < 2 ^ 64"
  shows "unat (v * 10 + word_of_nat d) = unat v * 10 + d"
  using assms by (simp add: unat_word_ariths unat_of_nat)

lemma parse_index_digits_value:
  "list_all is_digit s \<Longrightarrow>
    parse_index_digits s v =
      (if digits_value (unat v) s < 2 ^ 64
       then PointerIndexOk (word_of_nat (digits_value (unat v) s)) else PointerIndexOverflow)"
proof (induction s arbitrary: v)
  case Nil
  then show ?case using unat_less_2p64 [of v] by simp
next
  case (Cons c s)
  then have d: "digit_value c < 10" by (simp add: digit_value_less)
  show ?case
  proof (cases "2 ^ 64 \<le> unat v * 10 + digit_value c")
    case True
    then have "\<not> digits_value (unat v * 10 + digit_value c) s < 2 ^ 64"
      using digits_value_mono [of "unat v * 10 + digit_value c" s] by simp
    with True Cons.prems d show ?thesis by (simp add: index_overflow_check [OF d] Let_def)
  next
    case False
    with Cons d show ?thesis
      by (simp add: index_overflow_check [OF d] unat_index_step Let_def)
  qed
qed

lemma parse_index_digits_ok: "parse_index_digits s v = PointerIndexOk w \<Longrightarrow> list_all is_digit s"
  by (induction s v rule: parse_index_digits.induct) (auto simp: Let_def split: if_splits)

lemma parsePointerIndex_ok_iff: "parsePointerIndex t = PointerIndexOk w \<longleftrightarrow> t = decimal (unat w)"
proof
  assume ok: "parsePointerIndex t = PointerIndexOk w"
  then have digits: "list_all is_digit t"
    by (auto simp: parsePointerIndex_def dest: parse_index_digits_ok split: if_splits)
  with ok have "canonical_decimal t"
    by (cases t) (auto simp: parsePointerIndex_def canonical_decimal_def split: if_splits)
  moreover have "unat w = digits_value 0 t"
    using ok digits by (auto simp: parsePointerIndex_def parse_index_digits_value unat_of_nat
        split: if_splits)
  ultimately show "t = decimal (unat w)" by (simp flip: canonical_decimal_iff)
next
  assume t: "t = decimal (unat w)"
  have "canonical_decimal t" by (simp add: t)
  then have "\<not> (t = [] \<or> (length t > 1 \<and> t ! 0 = CHR ''0''))"
    by (cases t) (auto simp: canonical_decimal_def)
  moreover have "list_all is_digit t" by (simp add: t decimal_digits)
  moreover have "digits_value 0 t = unat w" by (simp add: t)
  ultimately show "parsePointerIndex t = PointerIndexOk w"
    using unat_less_2p64 [of w] by (simp add: parsePointerIndex_def parse_index_digits_value)
qed

lemma parsePointerIndex_value:
  "parsePointerIndex t = PointerIndexOk w \<longleftrightarrow>
    canonical_decimal t \<and> digits_value 0 t < 2 ^ 64 \<and> w = word_of_nat (digits_value 0 t)"
  using unat_less_2p64 [of w]
  by (auto simp: parsePointerIndex_ok_iff unat_of_nat simp flip: canonical_decimal_iff)

subsection \<open>Traversal is evaluation of the reference tokens\<close>

text \<open>
  RFC 6901 evaluation: a member name, or the canonical decimal index of an existing element.
\<close>

definition element_index :: "'a list \<Rightarrow> string \<Rightarrow> nat option" where
  "element_index xs t =
     (if canonical_decimal t \<and> digits_value 0 t < 2 ^ 64 \<and> digits_value 0 t < length xs
      then Some (digits_value 0 t) else None)"

definition token_step :: "json \<Rightarrow> string \<Rightarrow> step option" where
  "token_step v t =
     (case v of
        JObject ms \<Rightarrow> if map_of ms t \<noteq> None then Some (Member t) else None
      | JArray xs \<Rightarrow> map_option Elem (element_index xs t)
      | _ \<Rightarrow> None)"

fun eval_pointer :: "json \<Rightarrow> string list \<Rightarrow> loc option" where
  "eval_pointer v [] = Some []"
| "eval_pointer v (t # ts) =
     (case token_step v t of
        None \<Rightarrow> None
      | Some s \<Rightarrow>
          (case child v s of
             None \<Rightarrow> None
           | Some c \<Rightarrow> map_option (Cons s) (eval_pointer c ts)))"

lemma token_step_child: "token_step v t = Some s \<Longrightarrow> \<exists>c. child v s = Some c"
  by (cases v) (auto simp: token_step_def element_index_def split: if_splits)

text \<open>One round of the traversal loop in terms of the step it takes.\<close>

lemma index_token_not_append: "canonical_decimal t \<Longrightarrow> t \<noteq> ''-''"
  by (auto simp: canonical_decimal_def is_digit_def)

lemma element_index_iff:
  "element_index xs t = Some n \<longleftrightarrow>
    (\<exists>w. parsePointerIndex t = PointerIndexOk w \<and> unat w < length xs \<and> n = unat w)"
  by (auto simp: element_index_def parsePointerIndex_value unat_of_nat split: if_splits)

lemma resolve_tokens_step:
  assumes "token_step v t = Some s" and "child v s = Some c"
  shows "resolve_tokens p i v at (t # ts) = resolve_tokens p (Suc i) c (at @ [s]) ts"
proof (cases v)
  case (JArray xs)
  with assms(1) obtain n where n: "element_index xs t = Some n" "s = Elem n"
    by (auto simp: token_step_def)
  then obtain w where "parsePointerIndex t = PointerIndexOk w" "unat w < length xs" "n = unat w"
    by (auto simp: element_index_iff)
  moreover have "t \<noteq> ''-''"
    using n(1) index_token_not_append by (auto simp: element_index_def split: if_splits)
  ultimately show ?thesis using assms(2) n(2) JArray by simp
qed (use assms in \<open>auto simp: token_step_def split: if_splits\<close>)

lemma resolve_tokens_stop:
  assumes "token_step v t = None"
  shows "\<exists>code msg. resolve_tokens p i v at (t # ts) = Inl (failPointer code p i t msg)"
proof (cases v)
  case (JArray xs)
  then have "element_index xs t = None" using assms by (simp add: token_step_def)
  then have "\<not> (\<exists>w. parsePointerIndex t = PointerIndexOk w \<and> unat w < length xs)"
    using element_index_iff by (metis option.distinct(1))
  then show ?thesis
    using JArray by (auto split: PointerIndexResult.split)
qed (use assms in \<open>auto simp: token_step_def split: if_splits\<close>)

lemma resolve_tokens_eval:
  "resolve_tokens p i v at ts = Inr (l, w) \<longleftrightarrow>
    (\<exists>l'. l = at @ l' \<and> eval_pointer v ts = Some l' \<and> subnode v l' = Some w)"
proof (induction ts arbitrary: i v at)
  case (Cons t ts)
  show ?case
  proof (cases "token_step v t")
    case None
    then show ?thesis using resolve_tokens_stop [of v t p i at ts] by auto
  next
    case (Some s)
    then obtain c where c: "child v s = Some c" using token_step_child by blast
    have "resolve_tokens p i v at (t # ts) = Inr (l, w) \<longleftrightarrow>
        (\<exists>l'. l = (at @ [s]) @ l' \<and> eval_pointer c ts = Some l' \<and> subnode c l' = Some w)"
      unfolding resolve_tokens_step [OF Some c] by (rule Cons.IH)
    then show ?thesis using Some c by auto
  qed
qed auto

lemma resolve_tokens_error:
  "resolve_tokens p i v at ts = Inl e \<Longrightarrow>
    \<exists>k < length ts. \<exists>code msg. e = failPointer code p (i + k) (ts ! k) msg
      \<and> eval_pointer v (take k ts) \<noteq> None \<and> eval_pointer v (take (Suc k) ts) = None"
proof (induction ts arbitrary: i v at)
  case (Cons t ts)
  show ?case
  proof (cases "token_step v t")
    case None
    then show ?thesis
      using resolve_tokens_stop [of v t p i at ts] Cons.prems by (intro exI [of _ 0]) auto
  next
    case (Some s)
    then obtain c where c: "child v s = Some c" using token_step_child by blast
    from Cons.prems have "resolve_tokens p (Suc i) c (at @ [s]) ts = Inl e"
      unfolding resolve_tokens_step [OF Some c] .
    from Cons.IH [OF this] obtain k code msg where "k < length ts"
      "e = failPointer code p (Suc i + k) (ts ! k) msg"
      "eval_pointer c (take k ts) \<noteq> None" "eval_pointer c (take (Suc k) ts) = None" by blast
    then show ?thesis using Some c by (intro exI [of _ "Suc k"]) auto
  qed
qed simp

lemma eval_pointer_subnode: "eval_pointer v ts = Some l \<Longrightarrow> \<exists>w. subnode v l = Some w"
  by (induction ts arbitrary: v l) (auto split: option.splits)

end
