(* ===== verification/Json_Edit.thy ===== *)
theory Json_Edit
  imports Json_Path
begin

section \<open>Assignment, append and container mutation\<close>

text \<open>
  The mutating operations of \<open>pjson.cpp\<close> whose argument does not alias the receiver: the
  assignment and append overloads for native values and vectors, auto-vivifying \<open>operator[]\<close>,
  \<open>reserve\<close>, \<open>clear\<close> and \<open>erase\<close>. An operation takes the receiver's value and returns its new
  value; an exception returns no new value, which is the code's strong guarantee (every failing
  path throws before it publishes). A returned reference is the \<open>step\<close> to the child.
\<close>

subsection \<open>Native arguments\<close>

text \<open>
  A binary32 argument is its 32 bits; widening to binary64 is exact, and a NaN keeps its payload
  and becomes quiet. A \<open>long double\<close> argument is given as its conversion to \<open>double\<close>, which the
  platform defines.
\<close>

definition widen_float :: "32 word \<Rightarrow> double" where
  "widen_float w =
     (let s = bit w 31;
          e = (unat w div 2 ^ 23) mod 2 ^ 8;
          f = unat w mod 2 ^ 23
      in if e = 255 then
           (if f = 0 then double_infinity s
            else Binary64 (word_of_nat ((if s then 2 ^ 63 else 0) + 2047 * 2 ^ 52
                   + (2 ^ 51 + (f mod 2 ^ 22) * 2 ^ 29))))
         else nearest_double s ((if e = 0 then f else 2 ^ 23 + f) * 2 ^ (max e 1 - 1)) (2 ^ 149))"

datatype native =
    NString string
  | NCString "string option"
  | NBool bool
  | NInt "32 word" | NUInt "32 word" | NShort "16 word" | NUShort "16 word"
  | NLong i64 | NULong u64 | NLongLong i64 | NULongLong u64
  | NFloat "32 word" | NDouble double | NLongDouble double

text \<open>The \<open>operator=\<close> overloads.\<close>

fun assign_native :: "json \<Rightarrow> native \<Rightarrow> cpp_exception + json" where
  "assign_native v (NString s) = Inr (assign_string v s)"
| "assign_native v (NCString p) = assign_cstring v p"
| "assign_native v (NBool b) = Inr (assign_bool v b)"
| "assign_native v (NInt w) = Inr (assign_int v w)"
| "assign_native v (NUInt w) = Inr (assign_unsigned_int v w)"
| "assign_native v (NShort w) = Inr (assign_short v w)"
| "assign_native v (NUShort w) = Inr (assign_unsigned_short v w)"
| "assign_native v (NLong w) = Inr (assign_int64 v w)"
| "assign_native v (NULong w) = Inr (assign_uint64 v w)"
| "assign_native v (NLongLong w) = Inr (assign_int64 v w)"
| "assign_native v (NULongLong w) = Inr (assign_uint64 v w)"
| "assign_native v (NFloat w) = Inr (assign_double v (widen_float w))"
| "assign_native v (NDouble d) = Inr (assign_double v d)"
| "assign_native v (NLongDouble d) = Inr (assign_double v d)"

subsection \<open>Append and whole-array assignment\<close>

text \<open>\<open>OwnedNode child = _makeNode(..); *child = aValue;\<close> then \<open>push_back\<close>.\<close>

definition appendDomValue :: "(json \<Rightarrow> 'a \<Rightarrow> json) \<Rightarrow> json \<Rightarrow> 'a \<Rightarrow> json" where
  "appendDomValue assign target x =
     (case target of
        JArray xs \<Rightarrow> JArray (xs @ [assign JNull x])
      | _ \<Rightarrow> JArray [assign JNull x])"

fun append_each :: "(json \<Rightarrow> 'a \<Rightarrow> json) \<Rightarrow> json \<Rightarrow> 'a list \<Rightarrow> json" where
  "append_each assign target [] = target"
| "append_each assign target (x # xs) =
     append_each assign (appendDomValue assign target x) xs"

definition assignDomArray :: "(json \<Rightarrow> 'a \<Rightarrow> json) \<Rightarrow> json \<Rightarrow> 'a list \<Rightarrow> json" where
  "assignDomArray assign target xs =
     (let replacement = emptyValue jsonArray in append_each assign replacement xs)"

definition appendDomArray :: "(json \<Rightarrow> 'a \<Rightarrow> json) \<Rightarrow> json \<Rightarrow> 'a list \<Rightarrow> json" where
  "appendDomArray assign target xs =
     (if \<not> isArray target
      then (let replacement = emptyValue jsonArray in append_each assign replacement xs)
      else append_each assign target xs)"

text \<open>The vectors the overloads take, element by element.\<close>

datatype native_vector =
    VBool "bool list" | VInt "32 word list" | VUInt "32 word list" | VShort "16 word list"
  | VUShort "16 word list" | VString "string list" | VLong "i64 list" | VULong "u64 list"
  | VLongLong "i64 list" | VULongLong "u64 list" | VFloat "32 word list"
  | VDouble "double list" | VLongDouble "double list"

fun assign_vector :: "json \<Rightarrow> native_vector \<Rightarrow> json" where
  "assign_vector v (VBool xs) = assignDomArray assign_bool v xs"
| "assign_vector v (VInt xs) = assignDomArray assign_int v xs"
| "assign_vector v (VUInt xs) = assignDomArray assign_unsigned_int v xs"
| "assign_vector v (VShort xs) = assignDomArray assign_short v xs"
| "assign_vector v (VUShort xs) = assignDomArray assign_unsigned_short v xs"
| "assign_vector v (VString xs) = assignDomArray assign_string v xs"
| "assign_vector v (VLong xs) = assignDomArray assign_int64 v xs"
| "assign_vector v (VULong xs) = assignDomArray assign_uint64 v xs"
| "assign_vector v (VLongLong xs) = assignDomArray assign_int64 v xs"
| "assign_vector v (VULongLong xs) = assignDomArray assign_uint64 v xs"
| "assign_vector v (VFloat xs) = assignDomArray (\<lambda>c w. assign_double c (widen_float w)) v xs"
| "assign_vector v (VDouble xs) = assignDomArray assign_double v xs"
| "assign_vector v (VLongDouble xs) = assignDomArray assign_double v xs"

fun append_vector :: "json \<Rightarrow> native_vector \<Rightarrow> json" where
  "append_vector v (VBool xs) = appendDomArray assign_bool v xs"
| "append_vector v (VInt xs) = appendDomArray assign_int v xs"
| "append_vector v (VUInt xs) = appendDomArray assign_unsigned_int v xs"
| "append_vector v (VShort xs) = appendDomArray assign_short v xs"
| "append_vector v (VUShort xs) = appendDomArray assign_unsigned_short v xs"
| "append_vector v (VString xs) = appendDomArray assign_string v xs"
| "append_vector v (VLong xs) = appendDomArray assign_int64 v xs"
| "append_vector v (VULong xs) = appendDomArray assign_uint64 v xs"
| "append_vector v (VLongLong xs) = appendDomArray assign_int64 v xs"
| "append_vector v (VULongLong xs) = appendDomArray assign_uint64 v xs"
| "append_vector v (VFloat xs) = appendDomArray (\<lambda>c w. assign_double c (widen_float w)) v xs"
| "append_vector v (VDouble xs) = appendDomArray assign_double v xs"
| "append_vector v (VLongDouble xs) = appendDomArray assign_double v xs"

text \<open>The scalar \<open>operator+=\<close> overloads, with their casts.\<close>

definition msg_append_null :: string where
  "msg_append_null = ''pjson string append requires non-null input''"

fun append_native :: "json \<Rightarrow> native \<Rightarrow> cpp_exception + json" where
  "append_native v (NString s) = Inr (appendDomValue assign_string v s)"
| "append_native v (NCString p) =
     (case p of
        None \<Rightarrow> Inl (invalid_argument msg_append_null)
      | Some s \<Rightarrow> Inr (appendDomValue assign_string v (takeWhile (\<lambda>c. c \<noteq> CHR 0x00) s)))"
| "append_native v (NBool b) = Inr (appendDomValue assign_bool v b)"
| "append_native v (NInt w) = Inr (appendDomValue assign_int64 v (word_of_int (sint w)))"
| "append_native v (NUInt w) = Inr (appendDomValue assign_uint64 v (word_of_int (uint w)))"
| "append_native v (NShort w) = Inr (appendDomValue assign_int64 v (word_of_int (sint w)))"
| "append_native v (NUShort w) = Inr (appendDomValue assign_uint64 v (word_of_int (uint w)))"
| "append_native v (NLong w) = Inr (appendDomValue assign_int64 v w)"
| "append_native v (NULong w) = Inr (appendDomValue assign_uint64 v w)"
| "append_native v (NLongLong w) = Inr (appendDomValue assign_int64 v w)"
| "append_native v (NULongLong w) = Inr (appendDomValue assign_uint64 v w)"
| "append_native v (NFloat w) = Inr (appendDomValue assign_double v (widen_float w))"
| "append_native v (NDouble d) = Inr (appendDomValue assign_double v d)"
| "append_native v (NLongDouble d) = Inr (appendDomValue assign_double v d)"

subsection \<open>Auto-vivifying access\<close>

definition vivify_key :: "json \<Rightarrow> string \<Rightarrow> json \<times> step" where
  "vivify_key v k =
     (case v of
        JObject ms \<Rightarrow>
          (case map_of ms k of
             Some _ \<Rightarrow> (v, Member k)
           | None \<Rightarrow> (JObject (ms @ [(k, JNull)]), Member k))
      | _ \<Rightarrow> (JObject [(k, JNull)], Member k))"

definition msg_null_key :: string where
  "msg_null_key = ''pjson object key requires non-null input''"

definition vivify_ckey :: "json \<Rightarrow> string option \<Rightarrow> cpp_exception + (json \<times> step)" where
  "vivify_ckey v p =
     (case p of
        None \<Rightarrow> Inl (invalid_argument msg_null_key)
      | Some s \<Rightarrow> Inr (vivify_key v (takeWhile (\<lambda>c. c \<noteq> CHR 0x00) s)))"

text \<open>\<open>std::vector<pjson*>::max_size()\<close>: \<open>PTRDIFF_MAX / sizeof(pjson*)\<close>.\<close>

definition array_max_size :: nat where
  "array_max_size = 1152921504606846975"

definition msg_growth :: string where
  "msg_growth = ''pjson array auto-growth exceeds safety limit''"
definition msg_index_max :: string where
  "msg_index_max = ''pjson array index exceeds maximum size''"
definition msg_negative_array :: string where
  "msg_negative_array = ''pjson array negative index requires an existing array''"
definition msg_negative_range :: string where
  "msg_negative_range = ''pjson array negative index out of range''"

text \<open>The growth loop; the size, the position and their difference are 64-bit values.\<close>

function grow_nulls :: "nat \<Rightarrow> json list \<Rightarrow> json list" where
  "grow_nulls requiredSize xs =
     (if length xs < requiredSize then grow_nulls requiredSize (xs @ [JNull]) else xs)"
  by pat_completeness auto

termination by (relation "measure (\<lambda>(n, xs). n - length xs)") auto

declare grow_nulls.simps [simp del]

definition vivify_elements :: "json list \<Rightarrow> u64 \<Rightarrow> cpp_exception + (json \<times> step)" where
  "vivify_elements xs position =
     (let sz = word_of_nat (length xs) :: u64
      in if position \<ge> sz then
           (let growth = position - sz + 1
            in if growth > 1000000 then Inl (length_error msg_growth)
               else if position = - 1 \<or> unat (position + 1) > array_max_size then
                 Inl (length_error msg_index_max)
               else Inr (JArray (grow_nulls (unat (position + 1)) xs), Elem (unat position)))
         else Inr (JArray xs, Elem (unat position)))"

definition vivify_index :: "json \<Rightarrow> u64 \<Rightarrow> cpp_exception + (json \<times> step)" where
  "vivify_index v position =
     (case v of JArray xs \<Rightarrow> vivify_elements xs position | _ \<Rightarrow> vivify_elements [] position)"

text \<open>\<open>operator[](int)\<close>: a negative index counts from the end and never grows.\<close>

definition vivify_int :: "json \<Rightarrow> 32 word \<Rightarrow> cpp_exception + (json \<times> step)" where
  "vivify_int v i =
     (if sint i < 0 then
        (case v of
           JArray xs \<Rightarrow>
             if from_end i > length xs then Inl (out_of_range msg_negative_range)
             else Inr (v, Elem (length xs - from_end i))
         | _ \<Rightarrow> Inl (out_of_range msg_negative_array))
      else vivify_index v (word_of_int (sint i)))"

subsection \<open>\<open>reserve\<close>, \<open>clear\<close> and \<open>erase\<close>\<close>

definition reserve :: "json \<Rightarrow> nat \<Rightarrow> cpp_exception + json" where
  "reserve v n =
     (if n > array_max_size then Inl (length_error ''vector::reserve'')
      else Inr (if \<not> isArray v then emptyValue jsonArray else v))"

definition clear :: "json \<Rightarrow> json" where
  "clear v = (case v of JArray _ \<Rightarrow> JArray [] | JObject _ \<Rightarrow> JObject [] | _ \<Rightarrow> reset v)"

definition erase_key :: "json \<Rightarrow> string \<Rightarrow> bool \<times> json" where
  "erase_key v k =
     (case v of
        JObject ms \<Rightarrow>
          (case map_of ms k of
             Some _ \<Rightarrow> (True, JObject (AList.delete k ms))
           | None \<Rightarrow> (False, v))
      | _ \<Rightarrow> (False, v))"

definition erase_ckey :: "json \<Rightarrow> string option \<Rightarrow> bool \<times> json" where
  "erase_ckey v p =
     (case p of
        None \<Rightarrow> (False, v)
      | Some s \<Rightarrow> erase_key v (takeWhile (\<lambda>c. c \<noteq> CHR 0x00) s))"

definition erase_index :: "json \<Rightarrow> nat \<Rightarrow> bool \<times> json" where
  "erase_index v i =
     (case v of
        JArray xs \<Rightarrow> if i < length xs then (True, JArray (take i xs @ drop (Suc i) xs))
                     else (False, v)
      | _ \<Rightarrow> (False, v))"

subsection \<open>Facts\<close>

lemma append_each_array:
  "append_each assign (JArray xs) ys = JArray (xs @ map (assign JNull) ys)"
  by (induction ys arbitrary: xs) (auto simp: appendDomValue_def)

lemma assignDomArray_map [json_simps]:
  "assignDomArray assign v ys = JArray (map (assign JNull) ys)"
  by (simp add: assignDomArray_def append_each_array)

definition array_elements :: "json \<Rightarrow> json list" where
  "array_elements v = (case v of JArray xs \<Rightarrow> xs | _ \<Rightarrow> [])"

lemma appendDomArray_map [json_simps]:
  "appendDomArray assign v ys = JArray (array_elements v @ map (assign JNull) ys)"
  by (cases v)
    (simp_all add: appendDomArray_def append_each_array array_elements_def isArray_def)

lemma grow_nulls_replicate:
  "grow_nulls n xs = xs @ replicate (n - length xs) JNull"
proof (induction n xs rule: grow_nulls.induct)
  case (1 n xs)
  show ?case
  proof (cases "length xs < n")
    case True
    then have "n - length xs = Suc (n - length (xs @ [JNull]))" by simp
    with True 1 show ?thesis by (subst grow_nulls.simps) simp
  qed (simp add: grow_nulls.simps)
qed

lemma unat_plus_one_u64:
  fixes i :: u64
  assumes "i \<noteq> - 1"
  shows "unat (i + 1) = Suc (unat i)"
proof -
  have "1 + i \<noteq> 0" using assms by (metis add_eq_0_iff)
  then show ?thesis using unatSuc [of i] by (simp add: add.commute)
qed

lemma minus_one_u64_iff: "i = - 1 \<longleftrightarrow> unat i = size_max" for i :: u64
proof -
  have "i = - 1 \<longleftrightarrow> unat i = unat (- 1 :: u64)" by (rule word_unat_eq_iff)
  then show ?thesis by (simp only: unat_minus_one_u64)
qed

lemma size_word:
  "n \<le> array_max_size \<Longrightarrow> unat (word_of_nat n :: u64) = n"
  by (simp add: unat_of_nat array_max_size_def take_bit_nat_eq_self_iff)

text \<open>
  With the size read as an unbounded number, the growth check is exactly \<open>position - size <
  1000000\<close>: where \<open>position - size + 1\<close> wraps to zero, the next check rejects.
\<close>

lemma growth_check:
  fixes i :: u64
  assumes n: "n \<le> array_max_size" and le: "n \<le> unat i"
    and no_wrap: "\<not> (n = 0 \<and> unat i = size_max)"
  shows "(1000000 :: u64) < i - word_of_nat n + 1 \<longleftrightarrow> 1000000 \<le> unat i - n"
proof -
  have diff: "unat (i - word_of_nat n) = unat i - n"
    using le size_word [OF n] by (simp add: unat_sub word_le_nat_alt)
  have "unat i - n \<noteq> size_max"
    using unat_less_2p64 [of i] no_wrap le by auto
  then have "i - word_of_nat n \<noteq> - 1"
    unfolding minus_one_u64_iff diff .
  from unat_plus_one_u64 [OF this] have "unat (i - word_of_nat n + 1) = Suc (unat i - n)"
    unfolding diff .
  then show ?thesis by (simp add: word_less_nat_alt less_Suc_eq_le)
qed

lemma vivify_elements_below:
  assumes "length xs \<le> array_max_size" and "unat i < length xs"
  shows "vivify_elements xs i = Inr (JArray xs, Elem (unat i))"
  using assms by (simp add: vivify_elements_def Let_def word_le_nat_alt size_word)

lemma vivify_elements_grow:
  assumes "length xs \<le> array_max_size" and "length xs \<le> unat i"
    and "unat i - length xs < 1000000" and "unat i < array_max_size"
  shows "vivify_elements xs i =
    Inr (JArray (xs @ replicate (Suc (unat i) - length xs) JNull), Elem (unat i))"
proof -
  have i: "unat i \<noteq> size_max" using assms(4) by (simp add: array_max_size_def)
  then have "i \<noteq> - 1" by (simp only: minus_one_u64_iff not_False_eq_True)
  moreover from this have "unat (i + 1) = Suc (unat i)" by (rule unat_plus_one_u64)
  moreover have "\<not> (1000000 :: u64) < i - word_of_nat (length xs) + 1"
    using growth_check [OF assms(1,2)] i assms(3) by simp
  moreover have "word_of_nat (length xs) \<le> i"
    using assms(1,2) by (simp add: word_le_nat_alt size_word)
  ultimately show ?thesis
    using assms(4) by (simp add: vivify_elements_def grow_nulls_replicate)
qed

lemma vivify_elements_reject:
  assumes "length xs \<le> array_max_size" and "length xs \<le> unat i"
    and "1000000 \<le> unat i - length xs \<or> array_max_size \<le> unat i"
  shows "\<exists>msg. vivify_elements xs i = Inl (length_error msg)"
proof (cases "i = - 1")
  case True
  then show ?thesis by (auto simp: vivify_elements_def Let_def)
next
  case False
  then have i: "unat i \<noteq> size_max" by (simp only: minus_one_u64_iff not_False_eq_True)
  from False have suc: "unat (i + 1) = Suc (unat i)" by (rule unat_plus_one_u64)
  have growth: "(1000000 :: u64) < i - word_of_nat (length xs) + 1 \<longleftrightarrow>
      1000000 \<le> unat i - length xs"
    using growth_check [OF assms(1,2)] i by simp
  have "word_of_nat (length xs) \<le> i"
    using assms(1,2) by (simp add: word_le_nat_alt size_word)
  then show ?thesis
    using assms(3) growth suc by (auto simp: vivify_elements_def Let_def)
qed

end
