(* ===== verification/Deep_Copy.thy ===== *)
theory Deep_Copy
  imports Json_Edit "HOL-Library.Multiset"
begin

section \<open>Iterative deep copy and teardown\<close>

text \<open>
  \<open>_copyContentsInto\<close> copies without recursion: a work list pairs a source container with the
  location of its empty copy in the destination. \<open>_disposeChildren\<close> frees a subtree through an
  intrusive pending list that costs no allocation. Both are modelled loop by loop; the theorems
  say that the first is the identity on values and that the second frees every descendant once.
\<close>

definition is_container :: "json \<Rightarrow> bool" where
  "is_container v \<longleftrightarrow> getType v = jsonArray \<or> getType v = jsonObject"

fun container_children :: "json \<Rightarrow> (step \<times> json) list" where
  "container_children (JArray xs) = zip (map Elem [0..<length xs]) xs"
| "container_children (JObject ms) = map (\<lambda>(k, c). (Member k, c)) ms"
| "container_children _ = []"

lemma nodes_children: "sum_list (map (\<lambda>(s, c). nodes c) (container_children v)) < nodes v"
proof (cases v)
  case (JArray xs)
  have "sum_list (map (\<lambda>(s, c). nodes c) (zip ys xs)) \<le> sum_list (map nodes xs)"
    for ys :: "step list"
  proof (induction xs arbitrary: ys)
    case (Cons x xs)
    show ?case using Cons.IH [of "tl ys"] by (cases ys) auto
  qed simp
  with JArray show ?thesis by (simp add: less_Suc_eq_le)
qed (auto simp: comp_def case_prod_beta)

lemma child_container_children:
  "wf_json v \<Longrightarrow> child v s = Some c \<longleftrightarrow> (s, c) \<in> set (container_children v)"
proof (cases v)
  case (JArray xs)
  have "(s, c) \<in> set (container_children v) \<longleftrightarrow> (\<exists>i < length xs. s = Elem i \<and> c = xs ! i)"
  proof
    assume "\<exists>i < length xs. s = Elem i \<and> c = xs ! i"
    then obtain i where "i < length xs" "s = Elem i" "c = xs ! i" by blast
    then show "(s, c) \<in> set (container_children v)"
      using JArray by (auto simp: set_zip intro: exI [of _ i])
  qed (use JArray in \<open>auto simp: set_zip\<close>)
  then show ?thesis using JArray by (cases s) auto
next
  case (JObject ms)
  assume "wf_json v"
  with JObject have "map_of ms k = Some c \<longleftrightarrow> (k, c) \<in> set ms" for k
    by (auto intro: map_of_is_SomeI dest: map_of_SomeD)
  then show ?thesis using JObject by (cases s) force+
qed auto

subsection \<open>Copy\<close>

text \<open>The payload copy of a leaf, after \<open>resetTo\<close> of its type.\<close>

fun copy_payload :: "json \<Rightarrow> json \<Rightarrow> json" where
  "copy_payload dst (JString s) = set_payload_string s dst"
| "copy_payload dst (JInt w) = set_payload_int w dst"
| "copy_payload dst (JUInt w) = set_payload_uint w dst"
| "copy_payload dst (JDouble d) = set_payload_double d dst"
| "copy_payload dst (JBool b) = set_payload_bool b dst"
| "copy_payload dst _ = dst"

definition copy_child :: "json \<Rightarrow> json" where
  "copy_child elem =
     (let attached = emptyValue (getType elem)
      in if is_container elem then attached else copy_payload attached elem)"

text \<open>
  One round of the work list: the filled destination node and the containers it queues. Object
  insertion of a name that is already there is the \<open>logic_error\<close>.
\<close>

fun copy_elements :: "loc \<Rightarrow> nat \<Rightarrow> json list \<Rightarrow> json list \<times> (json \<times> loc) list" where
  "copy_elements at i [] = ([], [])"
| "copy_elements at i (e # es) =
     (case copy_elements at (Suc i) es of
        (copies, queued) \<Rightarrow>
          (copy_child e # copies,
           (if is_container e then [(e, at @ [Elem i])] else []) @ queued))"

definition msg_duplicate_copy :: string where
  "msg_duplicate_copy = ''duplicate key while copying pjson object''"

fun copy_members ::
    "loc \<Rightarrow> members \<Rightarrow> members \<Rightarrow> cpp_exception + (members \<times> (json \<times> loc) list)" where
  "copy_members at acc [] = Inr (acc, [])"
| "copy_members at acc ((k, e) # ms) =
     (if map_of acc k \<noteq> None then Inl (logic_error msg_duplicate_copy)
      else try_bind (copy_members at (acc @ [(k, copy_child e)]) ms) (\<lambda>(acc', queued).
        Inr (acc', (if is_container e then [(e, at @ [Member k])] else []) @ queued)))"

definition copy_node :: "loc \<Rightarrow> json \<Rightarrow> cpp_exception + (json \<times> (json \<times> loc) list)" where
  "copy_node at src =
     (case src of
        JArray es \<Rightarrow> (case copy_elements at 0 es of (copies, queued) \<Rightarrow> Inr (JArray copies, queued))
      | JObject ms \<Rightarrow>
          try_bind (copy_members at [] ms) (\<lambda>(acc, queued). Inr (JObject acc, queued))
      | _ \<Rightarrow> Inr (copy_payload (emptyValue (getType src)) src, []))"

lemma copy_elements_nodes:
  "sum_list (map (\<lambda>(s, l). nodes s) (snd (copy_elements at i es))) \<le> sum_list (map nodes es)"
  by (induction at i es rule: copy_elements.induct) (auto split: prod.splits)

lemma copy_members_nodes:
  "copy_members at acc ms = Inr (acc', queued) \<Longrightarrow>
    sum_list (map (\<lambda>(s, l). nodes s) queued) \<le> sum_list (map (\<lambda>m. nodes (snd m)) ms)"
  by (induction at acc ms arbitrary: acc' queued rule: copy_members.induct)
    (fastforce split: if_splits)+

lemma copy_node_nodes:
  assumes "copy_node at src = Inr (filled, queued)"
  shows "sum_list (map (\<lambda>(s, l). nodes s) queued) < nodes src"
proof (cases src)
  case (JArray es)
  then show ?thesis
    using assms copy_elements_nodes [of at 0 es]
    by (simp add: copy_node_def less_Suc_eq_le split: prod.splits)
next
  case (JObject ms)
  then show ?thesis
    using assms copy_members_nodes [of at "[]" ms]
    by (auto simp: copy_node_def less_Suc_eq_le)
qed (use assms in \<open>auto simp: copy_node_def\<close>)

text \<open>The loop, with the top of the work vector at the head of the list.\<close>

function copy_work :: "(json \<times> loc) list \<Rightarrow> json \<Rightarrow> cpp_exception + json" where
  "copy_work [] dst = Inr dst"
| "copy_work ((src, at) # work) dst =
     (case copy_node at src of
        Inl e \<Rightarrow> Inl e
      | Inr (filled, queued) \<Rightarrow>
          copy_work (rev queued @ work) (update_at at (\<lambda>_. filled) dst))"
  by pat_completeness auto

termination
proof (relation "measure (\<lambda>(work, dst). sum_list (map (\<lambda>(s, l). nodes s) work))", goal_cases)
  case (2 src at work dst r filled queued)
  then show ?case
    using copy_node_nodes [of at src filled queued] by (simp flip: rev_map)
qed simp

definition copyContentsInto :: "json \<Rightarrow> cpp_exception + json" where
  "copyContentsInto from =
     (let dst = emptyValue (getType from)
      in if \<not> is_container from then Inr (copy_payload dst from)
         else copy_work [(from, [])] dst)"

text \<open>\<open>_cloneNode\<close> copies into a fresh null node.\<close>

definition cloneNode :: "json \<Rightarrow> cpp_exception + json" where
  "cloneNode v = copyContentsInto v"

subsection \<open>The copy is the value\<close>

lemma copy_payload_leaf: "\<not> is_container v \<Longrightarrow> copy_payload (emptyValue (getType v)) v = v"
  by (cases v) (auto simp: is_container_def)

lemma copy_child_leaf: "\<not> is_container v \<Longrightarrow> copy_child v = v"
  by (simp add: copy_child_def copy_payload_leaf)

lemma copy_elements_result:
  "copy_elements at i es =
    (map copy_child es,
     [(e, at @ [Elem j]). (j, e) \<leftarrow> zip [i..<i + length es] es, is_container e])"
proof (induction at i es rule: copy_elements.induct)
  case (2 at i e es)
  have "[i..<i + length (e # es)] = i # [Suc i..<Suc i + length es]"
    by (subst upt_conv_Cons) (simp_all del: upt_Suc)
  with 2 show ?case by simp
qed simp

lemma copy_members_result:
  "distinct_keys (acc @ ms) \<Longrightarrow>
    copy_members at acc ms =
      Inr (acc @ map (\<lambda>(k, e). (k, copy_child e)) ms,
        [(e, at @ [Member k]). (k, e) \<leftarrow> ms, is_container e])"
proof (induction ms arbitrary: acc)
  case (Cons m ms)
  obtain k e where m: "m = (k, e)" by (cases m)
  have "map_of acc k = None"
    using Cons.prems m by (auto simp: map_of_eq_None_iff)
  then show ?case
    using Cons.IH [of "acc @ [(k, copy_child e)]"] Cons.prems m by auto
qed simp

text \<open>Writing the queued containers into the filled node restores the source.\<close>

definition write_child :: "step \<times> json \<Rightarrow> json \<Rightarrow> json" where
  "write_child = (\<lambda>(s, c). update_child s (\<lambda>_. c))"

lemma fold_write_elements:
  assumes "length ys = length xs"
    and "\<And>s c. (s, c) \<in> set q \<Longrightarrow> \<exists>i. s = Elem i \<and> i < length xs \<and> c = xs ! i"
    and "\<And>i. i < length xs \<Longrightarrow> ys ! i \<noteq> xs ! i \<Longrightarrow> (Elem i, xs ! i) \<in> set q"
  shows "fold write_child q (JArray ys) = JArray xs"
  using assms
proof (induction q arbitrary: ys)
  case Nil
  then have "ys = xs" by (intro nth_equalityI) auto
  then show ?case by simp
next
  case (Cons sc q)
  from Cons.prems(2) obtain i where i: "sc = (Elem i, xs ! i)" "i < length xs"
    by (cases sc) fastforce
  have "fold write_child q (JArray (ys[i := xs ! i])) = JArray xs"
  proof (rule Cons.IH)
    fix j assume "j < length xs" "ys[i := xs ! i] ! j \<noteq> xs ! j"
    then have "j \<noteq> i" "ys ! j \<noteq> xs ! j"
      using Cons.prems(1) i(2) by (cases "j = i"; simp)+
    with Cons.prems(3) [of j] \<open>j < length xs\<close> i show "(Elem j, xs ! j) \<in> set q" by auto
  qed (use Cons.prems in auto)
  with i Cons.prems(1) show ?case by (simp add: write_child_def)
qed

lemma same_members:
  "map fst ys = map fst ms \<Longrightarrow> distinct_keys ms \<Longrightarrow> map_of ys = map_of ms \<Longrightarrow> ys = ms"
proof (induction ys arbitrary: ms)
  case (Cons y ys)
  then obtain m ms' where ms: "ms = m # ms'" "fst y = fst m" "map fst ys = map fst ms'"
    by (cases ms) auto
  have "map_of ys k = map_of ms' k" for k
  proof (cases "k = fst m")
    case True
    have "map_of zs (fst m) = None" if "map fst zs = map fst ms'" for zs :: "('a \<times> 'b) list"
      using that Cons.prems(2) ms(1) by (metis distinct.simps(2) list.simps(9) map_of_eq_None_iff set_map)
    with True ms(3) show ?thesis by simp
  next
    case False
    with Cons.prems(3) ms(1,2) show ?thesis by (cases y; cases m) (auto dest: fun_cong [of _ _ k])
  qed
  then have "ys = ms'" using Cons.IH [of ms'] Cons.prems(2) ms by (auto intro: ext)
  moreover have "snd y = snd m"
    using Cons.prems(3) ms(1,2) by (cases y; cases m) (auto dest: fun_cong [of _ _ "fst m"])
  ultimately show ?case using ms by (simp add: prod_eq_iff)
qed simp

lemma fold_write_members:
  assumes "map fst ys = map fst ms" and "distinct_keys ms"
    and "\<And>s c. (s, c) \<in> set q \<Longrightarrow> \<exists>k. s = Member k \<and> map_of ms k = Some c"
    and "\<And>k. map_of ys k \<noteq> map_of ms k \<Longrightarrow> \<exists>c. map_of ms k = Some c \<and> (Member k, c) \<in> set q"
  shows "fold write_child q (JObject ys) = JObject ms"
  using assms
proof (induction q arbitrary: ys)
  case Nil
  then have "map_of ys = map_of ms" by (auto intro: ext)
  with Nil show ?case by (simp add: same_members)
next
  case (Cons sc q)
  from Cons.prems(3) obtain k c where k: "sc = (Member k, c)" "map_of ms k = Some c"
    by (cases sc) fastforce
  let ?ys = "AList.map_entry k (\<lambda>_. c) ys"
  have in_ys: "map_of ys k \<noteq> None"
    using k(2) Cons.prems(1) by (metis map_of_eq_None_iff option.distinct(1) set_map)
  have "fold write_child q (JObject ?ys) = JObject ms"
  proof (rule Cons.IH)
    fix l assume l: "map_of ?ys l \<noteq> map_of ms l"
    then have "l \<noteq> k" using k(2) in_ys by auto
    with l have "map_of ys l \<noteq> map_of ms l" by simp
    with Cons.prems(4) [of l] \<open>l \<noteq> k\<close> k(1)
    show "\<exists>c. map_of ms l = Some c \<and> (Member l, c) \<in> set q" by auto
  qed (use Cons.prems in auto)
  with k show ?case by (simp add: write_child_def)
qed


definition queued_children :: "json \<Rightarrow> (step \<times> json) list" where
  "queued_children v = filter (\<lambda>(s, c). is_container c) (container_children v)"

definition at_location :: "loc \<Rightarrow> step \<times> json \<Rightarrow> json \<times> loc" where
  "at_location at = (\<lambda>(s, c). (c, at @ [s]))"

lemma comprehension_filter:
  "[f k e. (k, e) \<leftarrow> xs, P e] = map (\<lambda>(k, e). f k e) (filter (\<lambda>(k, e). P e) xs)"
  by (induction xs) auto

lemma copy_child_changed: "copy_child c \<noteq> c \<Longrightarrow> is_container c"
  using copy_child_leaf by auto

lemma copy_node_array:
  "\<exists>filled. copy_node at (JArray es) =
      Inr (filled, map (at_location at) (queued_children (JArray es)))
    \<and> fold write_child (rev (queued_children (JArray es))) filled = JArray es"
proof -
  have queued: "snd (copy_elements at 0 es) = map (at_location at) (queued_children (JArray es))"
    unfolding copy_elements_result comprehension_filter queued_children_def
      container_children.simps zip_map1 filter_map map_map snd_conv
    by (simp add: at_location_def comp_def split_def)
  have "fold write_child (rev (queued_children (JArray es))) (JArray (map copy_child es)) = JArray es"
  proof (rule fold_write_elements)
    fix i assume "i < length es" "map copy_child es ! i \<noteq> es ! i"
    then have "is_container (es ! i)" using copy_child_changed [of "es ! i"] by simp
    then show "(Elem i, es ! i) \<in> set (rev (queued_children (JArray es)))"
      using \<open>i < length es\<close> by (auto simp: queued_children_def set_zip intro: exI [of _ i])
  qed (auto simp: queued_children_def set_zip)
  with queued show ?thesis
    by (simp add: copy_node_def copy_elements_result)
qed

lemma copy_node_object:
  assumes "distinct_keys ms"
  shows "\<exists>filled. copy_node at (JObject ms) =
      Inr (filled, map (at_location at) (queued_children (JObject ms)))
    \<and> fold write_child (rev (queued_children (JObject ms))) filled = JObject ms"
proof -
  let ?q = "queued_children (JObject ms)"
  let ?ys = "map (\<lambda>(k, e). (k, copy_child e)) ms"
  have queued: "[(e, at @ [Member k]). (k, e) \<leftarrow> ms, is_container e] = map (at_location at) ?q"
    unfolding comprehension_filter queued_children_def container_children.simps
    by (simp add: at_location_def filter_map comp_def split_def)
  have member: "(s, c) \<in> set ?q \<longleftrightarrow>
      is_container c \<and> (\<exists>k. s = Member k \<and> map_of ms k = Some c)" for s c
    using assms by (auto simp: queued_children_def map_of_eq_Some_iff)
  have "fold write_child (rev ?q) (JObject ?ys) = JObject ms"
  proof (rule fold_write_members [OF _ assms])
    fix k assume changed: "map_of ?ys k \<noteq> map_of ms k"
    have "map_of ?ys k = map_option copy_child (map_of ms k)"
      by (induction ms) auto
    with changed obtain c where "map_of ms k = Some c" "copy_child c \<noteq> c"
      by (cases "map_of ms k") auto
    then show "\<exists>c. map_of ms k = Some c \<and> (Member k, c) \<in> set (rev ?q)"
      using copy_child_changed by (auto simp: member)
  qed (auto simp: member)
  then show ?thesis
    using copy_members_result [of "[]" ms at] assms queued by (simp add: copy_node_def)
qed

lemma copy_node_restores:
  assumes "is_container src" and "wf_json src"
  obtains filled where "copy_node at src = Inr (filled, map (at_location at) (queued_children src))"
    and "fold write_child (rev (queued_children src)) filled = src"
  using assms copy_node_array copy_node_object
  by (cases src) (auto simp: is_container_def, blast+)

definition write_work :: "json \<times> loc \<Rightarrow> json \<Rightarrow> json" where
  "write_work = (\<lambda>(c, l). update_at l (\<lambda>_. c))"

lemma update_at_Nil: "update_at [] f = f"
  by (rule ext) simp

lemma fold_write_at:
  "fold write_work (map (at_location at) q) (update_at at (\<lambda>_. x) dst) =
    update_at at (\<lambda>_. fold write_child q x) dst"
proof (induction q arbitrary: x)
  case (Cons sc q)
  then show ?case
    by (cases sc)
      (simp add: write_work_def at_location_def write_child_def update_at_append
        update_at_Nil update_at_comp comp_def)
qed simp

lemma copy_work_writes:
  "list_all (\<lambda>(c, l). is_container c \<and> wf_json c) work \<Longrightarrow>
    copy_work work dst = Inr (fold write_work work dst)"
proof (induction work dst rule: copy_work.induct)
  case (2 src at work dst)
  from "2.prems" obtain filled where
    filled: "copy_node at src = Inr (filled, map (at_location at) (queued_children src))"
      "fold write_child (rev (queued_children src)) filled = src"
    by (auto intro: copy_node_restores [of src at])
  have "list_all (\<lambda>(c, l). is_container c \<and> wf_json c) (map (at_location at) (queued_children src))"
    using "2.prems" child_container_children [of src]
    by (auto simp: list_all_iff at_location_def queued_children_def dest: wf_json_child)
  with "2.prems" have all: "list_all (\<lambda>(c, l). is_container c \<and> wf_json c)
      (rev (map (at_location at) (queued_children src)) @ work)"
    by simp
  have "copy_work ((src, at) # work) dst =
      Inr (fold write_work (rev (map (at_location at) (queued_children src)) @ work)
        (update_at at (\<lambda>_. filled) dst))"
    using "2.IH" [OF filled(1) refl all] filled(1) by simp
  also have "fold write_work (rev (map (at_location at) (queued_children src)) @ work)
        (update_at at (\<lambda>_. filled) dst) = fold write_work work (update_at at (\<lambda>_. src) dst)"
    using fold_write_at [of at "rev (queued_children src)" filled dst] filled(2)
    by (simp add: rev_map)
  finally show ?case by (simp add: write_work_def)
qed simp

text \<open>The deep copy of a well-formed value is that value, and never fails.\<close>

lemma copyContentsInto_id [json_simps]: "wf_json v \<Longrightarrow> copyContentsInto v = Inr v"
  using copy_work_writes [of "[(v, [])]" "emptyValue (getType v)"]
  by (simp add: copyContentsInto_def Let_def copy_payload_leaf write_work_def del: copy_work.simps)

lemma copyContentsInto_duplicate:
  "\<not> distinct_keys ms \<Longrightarrow> copyContentsInto (JObject ms) = Inl (logic_error msg_duplicate_copy)"
proof -
  assume dup: "\<not> distinct_keys ms"
  have "\<not> distinct_keys (acc @ ms) \<Longrightarrow> distinct_keys acc \<Longrightarrow>
      copy_members at acc ms = Inl (logic_error msg_duplicate_copy)" for acc at
  proof (induction ms arbitrary: acc)
    case (Cons m ms)
    obtain k e where m: "m = (k, e)" by (cases m)
    show ?case
    proof (cases "map_of acc k = None")
      case True
      then have "distinct_keys (acc @ [(k, copy_child e)])"
        using Cons.prems(2) by (auto simp: map_of_eq_None_iff)
      moreover have "\<not> distinct_keys ((acc @ [(k, copy_child e)]) @ ms)"
        using Cons.prems(1) m by auto
      ultimately show ?thesis using Cons.IH True m by simp
    qed (use m in simp)
  qed simp
  from this [of "[]"] dup have "copy_members at [] ms = Inl (logic_error msg_duplicate_copy)" for at
    by simp
  then show ?thesis
    by (simp add: copyContentsInto_def copy_node_def is_container_def)
qed

subsection \<open>Teardown\<close>

text \<open>
  The pending list is threaded through the nodes themselves (\<open>_disposeNext\<close>), so it is a stack.
  Null nodes share one static implementation and cannot be linked; they are destroyed at once.
  The model records the location of every destroyed node, in order.
\<close>

type_synonym located = "loc \<times> json"

fun link_children :: "located list \<Rightarrow> located list \<Rightarrow> loc list \<Rightarrow> located list \<times> loc list" where
  "link_children [] pending freed = (pending, freed)"
| "link_children ((at, c) # cs) pending freed =
     (if isNull c then link_children cs pending (freed @ [at])
      else link_children cs ((at, c) # pending) freed)"

definition located_children :: "loc \<Rightarrow> json \<Rightarrow> located list" where
  "located_children at v = map (\<lambda>(s, c). (at @ [s], c)) (container_children v)"

lemma link_children_nodes:
  "link_children cs pending freed = (pending', freed') \<Longrightarrow>
    sum_list (map (\<lambda>(l, c). nodes c) pending') \<le>
      sum_list (map (\<lambda>(l, c). nodes c) cs) + sum_list (map (\<lambda>(l, c). nodes c) pending)"
  by (induction cs pending freed rule: link_children.induct) (fastforce split: if_splits)+

lemma located_children_nodes:
  "sum_list (map (\<lambda>(l, c). nodes c) (located_children at v)) < nodes v"
  using nodes_children [of v] by (simp add: located_children_def comp_def split_def)

function dispose_pending :: "located list \<Rightarrow> loc list \<Rightarrow> loc list" where
  "dispose_pending [] freed = freed"
| "dispose_pending ((at, p) # pending) freed =
     (case link_children (located_children at p) pending freed of
        (pending', freed') \<Rightarrow> dispose_pending pending' (freed' @ [at]))"
  by pat_completeness auto

termination
proof (relation "measure (\<lambda>(pending, freed). sum_list (map (\<lambda>(l, c). nodes c) pending))", goal_cases)
  case (2 at p pending freed pending' freed')
  then show ?case
    using link_children_nodes [of "located_children at p" pending freed pending' freed']
      located_children_nodes [of at p] by simp
qed simp

text \<open>The node keeps its own container, emptied; the freed locations are listed in order.\<close>

definition disposeChildren :: "json \<Rightarrow> json \<times> loc list" where
  "disposeChildren node =
     (if \<not> is_container node then (node, [])
      else case link_children (located_children [] node) [] [] of
          (pending, freed) \<Rightarrow> (emptyValue (getType node), dispose_pending pending freed))"

subsection \<open>Every descendant is freed exactly once\<close>

lemma child_nodes: "(s, c) \<in> set (container_children v) \<Longrightarrow> nodes c < nodes v"
  using nodes_children [of v] sum_list_map_ge [of "(s, c)" "container_children v" "\<lambda>(s, c). nodes c"]
  by auto

function all_locations :: "loc \<Rightarrow> json \<Rightarrow> loc list" where
  "all_locations at v =
     at # concat (map (\<lambda>(s, c). all_locations (at @ [s]) c) (container_children v))"
  by pat_completeness auto

termination by (relation "measure (\<lambda>(at, v). nodes v)") (auto simp: child_nodes)

declare all_locations.simps [simp del]

lemma subnode_children:
  assumes "wf_json v"
  shows "subnode v p \<noteq> None \<longleftrightarrow>
    p = [] \<or> (\<exists>s c q. p = s # q \<and> (s, c) \<in> set (container_children v) \<and> subnode c q \<noteq> None)"
proof (cases p)
  case (Cons s q)
  show ?thesis
  proof (cases "child v s")
    case None
    then have "(s, c) \<notin> set (container_children v)" for c
      using child_container_children [OF assms, of s c] by simp
    with None Cons show ?thesis by auto
  next
    case (Some c)
    then have "(s, d) \<in> set (container_children v) \<longleftrightarrow> d = c" for d
      using child_container_children [OF assms, of s d] by auto
    with Some Cons show ?thesis by auto
  qed
qed simp

lemma wf_container_child: "wf_json v \<Longrightarrow> (s, c) \<in> set (container_children v) \<Longrightarrow> wf_json c"
  using child_container_children wf_json_child by blast

lemma set_all_locations:
  "wf_json v \<Longrightarrow> set (all_locations at v) = {at @ p |p. subnode v p \<noteq> None}"
proof (induction at v rule: all_locations.induct)
  case (1 at v)
  have IH: "set (all_locations (at @ [s]) c) = {(at @ [s]) @ p |p. subnode c p \<noteq> None}"
    if "(s, c) \<in> set (container_children v)" for s c
    using "1.IH" [OF that refl] wf_container_child [OF "1.prems" that] by blast
  show ?case
    unfolding all_locations.simps [of at v] subnode_children [OF "1.prems"]
  proof (intro equalityI subsetI)
    fix l
    assume "l \<in> set (at # concat (map (\<lambda>(s, c). all_locations (at @ [s]) c) (container_children v)))"
    then consider "l = at"
      | s c where "(s, c) \<in> set (container_children v)" "l \<in> set (all_locations (at @ [s]) c)"
      by auto
    then show "l \<in> {at @ p |p. p = [] \<or> (\<exists>s c q. p = s # q \<and>
        (s, c) \<in> set (container_children v) \<and> subnode c q \<noteq> None)}"
    proof cases
      case (2 s c)
      with IH [of s c] show ?thesis by auto
    qed simp
  next
    fix l
    assume "l \<in> {at @ p |p. p = [] \<or> (\<exists>s c q. p = s # q \<and>
        (s, c) \<in> set (container_children v) \<and> subnode c q \<noteq> None)}"
    then consider "l = at"
      | s c q where "(s, c) \<in> set (container_children v)" "subnode c q \<noteq> None" "l = at @ s # q"
      by auto
    then show "l \<in> set (at # concat (map (\<lambda>(s, c). all_locations (at @ [s]) c) (container_children v)))"
    proof cases
      case (2 s c q)
      with IH [of s c] have "l \<in> set (all_locations (at @ [s]) c)" by auto
      with 2(1) show ?thesis by force
    qed simp
  qed
qed

lemma distinct_steps: "wf_json v \<Longrightarrow> distinct (map fst (container_children v))"
proof (cases v)
  case (JObject ms)
  assume "wf_json v"
  then have "distinct (map Member (map fst ms))"
    using JObject by (simp add: distinct_map [of Member] inj_on_def del: map_map)
  moreover have "map fst (container_children v) = map Member (map fst ms)"
    using JObject by (simp add: comp_def split_def)
  ultimately show ?thesis by (simp only:)
qed (auto simp: distinct_map inj_on_def)

lemma distinct_all_locations: "wf_json v \<Longrightarrow> distinct (all_locations at v)"
proof (induction at v rule: all_locations.induct)
  case (1 at v)
  have wf: "wf_json c" if "(s, c) \<in> set (container_children v)" for s c
    using wf_container_child [OF "1.prems" that] .
  have parts: "set (all_locations (at @ [s]) c) = {(at @ [s]) @ p |p. subnode c p \<noteq> None}"
    if "(s, c) \<in> set (container_children v)" for s c
    using set_all_locations wf that by blast
  have each: "distinct (all_locations (at @ [s]) c)" if "(s, c) \<in> set (container_children v)" for s c
    using "1.IH" [OF that refl] wf [OF that] .
  have "distinct (concat (map (\<lambda>(s, c). all_locations (at @ [s]) c) cs))"
    if "set cs \<subseteq> set (container_children v)" "distinct (map fst cs)" for cs
    using that
  proof (induction cs)
    case (Cons sc cs)
    obtain s c where sc: "sc = (s, c)" by (cases sc)
    have "set (all_locations (at @ [s]) c) \<inter> set (all_locations (at @ [t]) d) = {}"
      if "(t, d) \<in> set cs" for t d
    proof -
      have "t \<noteq> s" using that Cons.prems(2) sc by force
      then show ?thesis using parts [of s c] parts [of t d] that Cons.prems(1) sc by auto
    qed
    then show ?case using Cons each [of s c] sc by fastforce
  qed simp
  moreover have "at \<notin> set (concat (map (\<lambda>(s, c). all_locations (at @ [s]) c) (container_children v)))"
    using parts by fastforce
  ultimately show ?case
    using distinct_steps [OF "1.prems"] by (simp only: all_locations.simps [of at v]) simp
qed

definition located_mset :: "located list \<Rightarrow> loc multiset" where
  "located_mset ps = (\<Sum>(at, v)\<leftarrow>ps. mset (all_locations at v))"

lemma located_mset_simps [simp]:
  "located_mset [] = {#}"
  "located_mset ((at, v) # ps) = mset (all_locations at v) + located_mset ps"
  by (simp_all add: located_mset_def)

lemma all_locations_mset:
  "mset (all_locations at v) = add_mset at (located_mset (located_children at v))"
  unfolding all_locations.simps [of at v] located_children_def located_mset_def
  by (simp add: mset_concat comp_def split_def)

lemma link_children_mset:
  "link_children cs pending freed = (pending', freed') \<Longrightarrow>
    located_mset pending' + mset freed' = located_mset cs + located_mset pending + mset freed"
proof (induction cs pending freed rule: link_children.induct)
  case (2 at c cs pending freed)
  have "isNull c \<Longrightarrow> all_locations at c = [at]"
    by (cases c) (auto simp: isNull_def all_locations.simps)
  with 2 show ?case by (auto split: if_splits)
qed simp

lemma dispose_pending_mset:
  "mset (dispose_pending pending freed) = located_mset pending + mset freed"
proof (induction pending freed rule: dispose_pending.induct)
  case (2 at p pending freed)
  obtain pending' freed' where
    link: "link_children (located_children at p) pending freed = (pending', freed')" by fastforce
  show ?case
    using 2 [OF link [symmetric]] link_children_mset [OF link] link
    by (simp add: all_locations_mset add.assoc)
qed simp

lemma disposeChildren_frees:
  assumes "wf_json v" and "disposeChildren v = (v', freed)"
  shows "distinct freed" and "set freed = {p. p \<noteq> [] \<and> subnode v p \<noteq> None}"
proof -
  have "mset freed = mset (all_locations [] v) - {#[]#}"
  proof (cases "is_container v")
    case True
    obtain pending freed' where
      link: "link_children (located_children [] v) [] [] = (pending, freed')" by fastforce
    have "freed = dispose_pending pending freed'"
      using assms(2) True link by (simp add: disposeChildren_def)
    then show ?thesis
      using dispose_pending_mset [of pending freed'] link_children_mset [OF link]
        all_locations_mset [of "[]" v] by simp
  next
    case False
    then have "container_children v = []" by (cases v) (auto simp: is_container_def)
    with False assms(2) show ?thesis
      by (auto simp: disposeChildren_def all_locations.simps)
  qed
  then have same: "mset ([] # freed) = mset (all_locations [] v)"
    by (simp add: all_locations.simps)
  have "distinct ([] # freed)"
    using distinct_all_locations [OF assms(1), of "[]"] same by (metis mset_eq_imp_distinct_iff)
  moreover have "set ([] # freed) = {p. subnode v p \<noteq> None}"
    using set_all_locations [OF assms(1), of "[]"] mset_eq_setD [OF same] by simp
  ultimately show "distinct freed" "set freed = {p. p \<noteq> [] \<and> subnode v p \<noteq> None}"
    by auto
qed

end
