(* ===== verification/Json_Alias.thy ===== *)
theory Json_Alias
  imports Deep_Copy
begin

section \<open>Moves, swaps and insertion between aliasing values\<close>

text \<open>
  Move, copy, swap and insertion take two \<open>pjson\<close> references that may point into the same tree.
  The store holds the root values, each with the identity of its allocator; a reference is a
  root and a location in it, so the node a reference denotes is its address, and one node lies
  in the subtree of another when its location extends the other's. Every descendant uses its
  root's allocator, as the library guarantees. A local temporary of the code is a value of the
  model, since nothing refers to it. Exceptions return no store: they are thrown before a
  visible write.
\<close>

type_synonym ref = "nat \<times> loc"

record dom_store =
  root_value :: "nat \<Rightarrow> json"
  root_allocator :: "nat \<Rightarrow> nat"

definition read_ref :: "dom_store \<Rightarrow> ref \<Rightarrow> json option" where
  "read_ref s a = subnode (root_value s (fst a)) (snd a)"

text \<open>The value of a reference that is valid, as every C++ reference here is.\<close>

definition deref :: "dom_store \<Rightarrow> ref \<Rightarrow> json" where
  "deref s a = (case read_ref s a of Some v \<Rightarrow> v | None \<Rightarrow> JNull)"

definition write_ref :: "dom_store \<Rightarrow> ref \<Rightarrow> json \<Rightarrow> dom_store" where
  "write_ref s a v =
     s\<lparr>root_value := (root_value s)(fst a := update_at (snd a) (\<lambda>_. v) (root_value s (fst a)))\<rparr>"

definition child_ref :: "ref \<Rightarrow> step \<Rightarrow> ref" where
  "child_ref a st = (fst a, snd a @ [st])"

definition same_allocator :: "dom_store \<Rightarrow> ref \<Rightarrow> ref \<Rightarrow> bool" where
  "same_allocator s a b \<longleftrightarrow> root_allocator s (fst a) = root_allocator s (fst b)"

subsection \<open>\<open>_containsNode\<close>\<close>

function contains_work :: "ref \<Rightarrow> (ref \<times> json) list \<Rightarrow> bool" where
  "contains_work node [] = False"
| "contains_work node ((cur, v) # work) =
     (if cur = node then True
      else contains_work node
             (rev (map (\<lambda>(st, c). (child_ref cur st, c)) (container_children v)) @ work))"
  by pat_completeness auto

termination
proof (relation "measure (\<lambda>(node, work). sum_list (map (\<lambda>(l, c). nodes c) work))", goal_cases)
  case (2 node cur v work)
  then show ?case
    using nodes_children [of v] by (simp add: comp_def split_def flip: rev_map)
qed simp

definition containsNode :: "dom_store \<Rightarrow> ref \<Rightarrow> ref option \<Rightarrow> bool" where
  "containsNode s root node =
     (case node of None \<Rightarrow> False | Some n \<Rightarrow> contains_work n [(root, deref s root)])"

definition canSwap :: "dom_store \<Rightarrow> ref \<Rightarrow> ref \<Rightarrow> bool" where
  "canSwap s a b \<longleftrightarrow>
     same_allocator s a b \<and>
     (a = b \<or> (\<not> containsNode s a (Some b) \<and> \<not> containsNode s b (Some a)))"

subsection \<open>Copies, moves and swaps\<close>

definition copyFrom :: "dom_store \<Rightarrow> ref \<Rightarrow> ref \<Rightarrow> cpp_exception + dom_store" where
  "copyFrom s this from =
     (if this = from then Inr s
      else try_bind (copyContentsInto (deref s from)) (\<lambda>replacement.
        Inr (write_ref s this replacement)))"

definition copy_assign :: "dom_store \<Rightarrow> ref \<Rightarrow> ref \<Rightarrow> cpp_exception + dom_store" where
  "copy_assign s this from =
     (if from = this then Inr s
      else try_bind (copyContentsInto (deref s from)) (\<lambda>tmp. Inr (write_ref s this tmp)))"

definition swapStorage :: "dom_store \<Rightarrow> ref \<Rightarrow> ref \<Rightarrow> dom_store" where
  "swapStorage s a b =
     (let va = deref s a; vb = deref s b in write_ref (write_ref s a vb) b va)"

text \<open>An exchange with a local value: the new local value and the store.\<close>

definition swap_local :: "json \<Rightarrow> dom_store \<Rightarrow> ref \<Rightarrow> json \<times> dom_store" where
  "swap_local v s a = (deref s a, write_ref s a v)"

definition swap_values :: "dom_store \<Rightarrow> ref \<Rightarrow> ref \<Rightarrow> dom_store" where
  "swap_values s this other =
     (if this = other \<or> \<not> canSwap s this other then s else swapStorage s this other)"

text \<open>\<open>pjson(pjson&&, Allocator&)\<close>: the new value and the store without the source's.\<close>

definition move_construct :: "dom_store \<Rightarrow> ref \<Rightarrow> nat \<Rightarrow> cpp_exception + (json \<times> dom_store)" where
  "move_construct s from allocator =
     (if allocator = root_allocator s (fst from) then Inr (swap_local JNull s from)
      else try_bind (copyContentsInto (deref s from)) (\<lambda>copy.
        Inr (copy, write_ref s from JNull)))"

definition move_assign :: "dom_store \<Rightarrow> ref \<Rightarrow> ref \<Rightarrow> cpp_exception + dom_store" where
  "move_assign s this from =
     (if from = this then Inr s
      else if containsNode s from (Some this) then copyFrom s this from
      else if same_allocator s this from then
        (case swap_local JNull s from of
           (snapshot, s1) \<Rightarrow> Inr (snd (swap_local snapshot s1 this)))
      else
        try_bind (move_construct s from (root_allocator s (fst this))) (\<lambda>(tmp, s1).
          Inr (snd (swap_local tmp s1 this))))"

subsection \<open>Appending and inserting\<close>

definition pushBack_copy :: "dom_store \<Rightarrow> ref \<Rightarrow> ref \<Rightarrow> cpp_exception + dom_store" where
  "pushBack_copy s this val =
     (case deref s this of
        JArray xs \<Rightarrow>
          try_bind (copyContentsInto (deref s val)) (\<lambda>c. Inr (write_ref s this (JArray (xs @ [c]))))
      | _ \<Rightarrow>
          try_bind (copyContentsInto (deref s val)) (\<lambda>c. Inr (write_ref s this (JArray [c]))))"

definition msg_array_max :: string where
  "msg_array_max = ''pjson array exceeds maximum size''"

text \<open>\<open>child\<close> takes the source's storage, or a copy of it from another allocator's source.\<close>

definition take_into_child :: "dom_store \<Rightarrow> ref \<Rightarrow> ref \<Rightarrow> cpp_exception + (json \<times> dom_store)" where
  "take_into_child s this val =
     (if same_allocator s this val then Inr (swap_local JNull s val)
      else try_bind (copyContentsInto (deref s val)) (\<lambda>c. Inr (c, write_ref s val JNull)))"

definition pushBack_move :: "dom_store \<Rightarrow> ref \<Rightarrow> ref \<Rightarrow> cpp_exception + dom_store" where
  "pushBack_move s this val =
     (if containsNode s val (Some this) then pushBack_copy s this val
      else if \<not> isArray (deref s this) then
        try_bind (take_into_child s this val) (\<lambda>(c, s1). Inr (write_ref s1 this (JArray [c])))
      else if length (array_elements (deref s this)) = array_max_size then
        Inl (length_error msg_array_max)
      else
        try_bind (take_into_child s this val) (\<lambda>(c, s1).
          Inr (write_ref s1 this (JArray (array_elements (deref s1 this) @ [c])))))"

definition object_members :: "json \<Rightarrow> members" where
  "object_members v = (case v of JObject ms \<Rightarrow> ms | _ \<Rightarrow> [])"

text \<open>The move overload on a local temporary, which no reference reaches.\<close>

definition insert_local :: "dom_store \<Rightarrow> ref \<Rightarrow> string \<Rightarrow> json \<Rightarrow> dom_store" where
  "insert_local s this k v =
     (if \<not> isObject (deref s this) then write_ref s this (JObject [(k, v)])
      else if find_key (deref s this) k \<noteq> None then write_ref s (child_ref this (Member k)) v
      else write_ref s this (JObject (object_members (deref s this) @ [(k, v)])))"

definition insertOrAssign_copy ::
    "dom_store \<Rightarrow> ref \<Rightarrow> string \<Rightarrow> ref \<Rightarrow> cpp_exception + dom_store" where
  "insertOrAssign_copy s this k val =
     (if containsNode s val (Some this) then
        try_bind (copyContentsInto (deref s val)) (\<lambda>sourceCopy.
          Inr (insert_local s this k sourceCopy))
      else if \<not> isObject (deref s this) then
        try_bind (cloneNode (deref s val)) (\<lambda>c. Inr (write_ref s this (JObject [(k, c)])))
      else if find_key (deref s this) k \<noteq> None then copyFrom s (child_ref this (Member k)) val
      else
        try_bind (cloneNode (deref s val)) (\<lambda>c.
          Inr (write_ref s this (JObject (object_members (deref s this) @ [(k, c)])))))"

definition insertOrAssign_move ::
    "dom_store \<Rightarrow> ref \<Rightarrow> string \<Rightarrow> ref \<Rightarrow> cpp_exception + dom_store" where
  "insertOrAssign_move s this k val =
     (if containsNode s val (Some this) then
        try_bind (copyContentsInto (deref s val)) (\<lambda>sourceCopy.
          Inr (insert_local s this k sourceCopy))
      else if \<not> isObject (deref s this) then
        try_bind (take_into_child s this val) (\<lambda>(c, s1).
          Inr (write_ref s1 this (JObject [(k, c)])))
      else if find_key (deref s this) k \<noteq> None then
        move_assign s (child_ref this (Member k)) val
      else
        try_bind (take_into_child s this val) (\<lambda>(c, s1).
          Inr (write_ref s1 this (JObject (object_members (deref s1 this) @ [(k, c)])))))"

subsection \<open>References: overlap and frames\<close>

definition wf_store :: "dom_store \<Rightarrow> bool" where
  "wf_store s \<longleftrightarrow> (\<forall>r. wf_json (root_value s r))"

definition valid_ref :: "dom_store \<Rightarrow> ref \<Rightarrow> bool" where
  "valid_ref s a \<longleftrightarrow> read_ref s a \<noteq> None"

text \<open>\<open>b\<close> is \<open>a\<close> or lies in its subtree.\<close>

definition within :: "ref \<Rightarrow> ref \<Rightarrow> bool" where
  "within b a \<longleftrightarrow> fst b = fst a \<and> take (length (snd a)) (snd b) = snd a"

definition apart :: "ref \<Rightarrow> ref \<Rightarrow> bool" where
  "apart a b \<longleftrightarrow> \<not> within a b \<and> \<not> within b a"

lemma within_iff: "within b a \<longleftrightarrow> (\<exists>p. b = (fst a, snd a @ p))"
proof
  assume w: "within b a"
  then have "snd b = snd a @ drop (length (snd a)) (snd b)"
    unfolding within_def by (metis append_take_drop_id)
  with w show "\<exists>p. b = (fst a, snd a @ p)" by (metis prod.collapse within_def)
qed (auto simp: within_def)

lemma within_refl [simp]: "within a a"
  by (simp add: within_def)

lemma apart_sym: "apart a b \<Longrightarrow> apart b a"
  by (simp add: apart_def)

lemma within_child [simp]: "within (child_ref a st) a"
  by (simp add: within_def child_ref_def)

lemma within_trans: "within c b \<Longrightarrow> within b a \<Longrightarrow> within c a"
  by (auto simp: within_iff)

lemma apart_within: "apart a b \<Longrightarrow> within c a \<Longrightarrow> apart c b"
proof -
  assume ab: "apart a b" and c: "within c a"
  have "within c b \<Longrightarrow> within a b \<or> within b a"
    using c by (cases a; cases b) (auto simp: within_iff append_eq_append_conv2)
  moreover have "within b c \<Longrightarrow> within b a"
    using c within_trans by blast
  ultimately show "apart c b" using ab by (auto simp: apart_def)
qed

lemma forks_iff: "forks p q \<longleftrightarrow> \<not> (\<exists>r. q = p @ r) \<and> \<not> (\<exists>r. p = q @ r)"
  by (induction p q rule: forks.induct) auto

lemma apart_iff: "apart a b \<longleftrightarrow> fst a \<noteq> fst b \<or> forks (snd a) (snd b)"
  by (cases a; cases b) (auto simp: apart_def within_iff forks_iff)

lemma apart_irrefl [simp]: "\<not> apart a a"
  by (simp add: apart_def)

lemma read_write_within:
  "valid_ref s a \<Longrightarrow> read_ref (write_ref s a v) (fst a, snd a @ p) = subnode v p"
  by (auto simp: read_ref_def write_ref_def valid_ref_def subnode_append subnode_update_at)

lemma read_write_same [simp]: "valid_ref s a \<Longrightarrow> read_ref (write_ref s a v) a = Some v"
  using read_write_within [of s a v "[]"] by simp

lemma read_write_apart [simp]: "apart a b \<Longrightarrow> read_ref (write_ref s a v) b = read_ref s b"
  by (auto simp: read_ref_def write_ref_def apart_iff subnode_update_fork)

lemma wf_write: "wf_store s \<Longrightarrow> wf_json v \<Longrightarrow> wf_store (write_ref s a v)"
  by (auto simp: wf_store_def write_ref_def intro: wf_json_update_at)

lemma wf_read: "wf_store s \<Longrightarrow> read_ref s a = Some v \<Longrightarrow> wf_json v"
  by (auto simp: wf_store_def read_ref_def intro: wf_json_subnode)

lemma wf_deref: "wf_store s \<Longrightarrow> wf_json (deref s a)"
  using wf_read by (auto simp: deref_def split: option.splits)

lemma deref_valid: "valid_ref s a \<Longrightarrow> read_ref s a = Some (deref s a)"
  by (auto simp: valid_ref_def deref_def)

lemma valid_above:
  "valid_ref s b \<Longrightarrow> within b a \<Longrightarrow> valid_ref s a"
  by (auto simp: valid_ref_def within_iff read_ref_def subnode_append split: option.splits)

text \<open>Writing a node that does not contain \<open>a\<close> keeps \<open>a\<close> valid.\<close>

lemma valid_write:
  assumes "valid_ref s a" and "valid_ref s b" and "\<not> within a b \<or> a = b"
  shows "valid_ref (write_ref s b v) a"
proof (cases "within b a")
  case True
  then have "valid_ref (write_ref s b v) b" using assms(2) by (simp add: valid_ref_def)
  with True show ?thesis by (rule valid_above [rotated])
next
  case False
  with assms(3) have "apart b a \<or> a = b" by (auto simp: apart_def)
  with assms(1,2) show ?thesis by (auto simp: valid_ref_def)
qed

definition reaches :: "ref \<Rightarrow> ref \<times> json \<Rightarrow> bool" where
  "reaches n = (\<lambda>(l, v). \<exists>p. n = (fst l, snd l @ p) \<and> subnode v p \<noteq> None)"

lemma reaches_children:
  assumes "wf_json v" and "cur \<noteq> n"
  shows "reaches n (cur, v) \<longleftrightarrow>
    list_ex (reaches n) (map (\<lambda>(st, c). (child_ref cur st, c)) (container_children v))"
proof -
  have "reaches n (cur, v) \<longleftrightarrow>
      (\<exists>st c p. (st, c) \<in> set (container_children v) \<and> n = (fst cur, snd cur @ st # p)
        \<and> subnode c p \<noteq> None)"
    using assms(2) unfolding reaches_def prod.case subnode_children [OF assms(1)]
    by (cases cur) auto
  also have "\<dots> \<longleftrightarrow> (\<exists>(st, c) \<in> set (container_children v). reaches n (child_ref cur st, c))"
    by (fastforce simp: reaches_def child_ref_def)
  finally show ?thesis by (simp add: list_ex_iff split_def)
qed

lemma contains_work_iff:
  "list_all (\<lambda>(l, v). wf_json v) work \<Longrightarrow> contains_work n work \<longleftrightarrow> list_ex (reaches n) work"
proof (induction n work rule: contains_work.induct)
  case (2 n cur v work)
  let ?cs = "map (\<lambda>(st, c). (child_ref cur st, c)) (container_children v)"
  have wf: "wf_json v" using "2.prems" by simp
  show ?case
  proof (cases "cur = n")
    case True
    then have "reaches n (cur, v)" by (auto simp: reaches_def intro!: exI [of _ "[]"])
    with True show ?thesis by simp
  next
    case False
    have "list_all (\<lambda>(l, v). wf_json v) (rev ?cs @ work)"
      using "2.prems" wf_container_child [OF wf] by (auto simp: list_all_iff)
    from "2.IH" [OF False this] have "contains_work n ((cur, v) # work) \<longleftrightarrow>
        list_ex (reaches n) (rev ?cs @ work)"
      using False by simp
    then show ?thesis
      unfolding list_ex_append list_ex_rev reaches_children [OF wf False, symmetric]
      by (simp del: contains_work.simps)
  qed
qed simp

lemma containsNode_iff:
  assumes "wf_store s" and "valid_ref s a" and "valid_ref s b"
  shows "containsNode s a (Some b) \<longleftrightarrow> within b a"
proof -
  have "containsNode s a (Some b) \<longleftrightarrow>
      (\<exists>p. b = (fst a, snd a @ p) \<and> subnode (deref s a) p \<noteq> None)"
    using wf_deref [OF assms(1), of a]
    by (simp add: containsNode_def contains_work_iff reaches_def del: contains_work.simps)
  also have "\<dots> \<longleftrightarrow> within b a"
    using assms(2,3) deref_valid [OF assms(2)]
    by (auto simp: within_iff valid_ref_def read_ref_def subnode_append)
  finally show ?thesis .
qed


subsection \<open>What the operations do, whatever aliases what\<close>

text \<open>
  The frame of an operation: every reference apart from the ones it writes reads the same.
\<close>

definition frames :: "dom_store \<Rightarrow> dom_store \<Rightarrow> ref \<Rightarrow> ref \<Rightarrow> bool" where
  "frames s s' a b \<longleftrightarrow> (\<forall>c. apart a c \<longrightarrow> apart b c \<longrightarrow> read_ref s' c = read_ref s c)"

lemma framesD: "frames s s' a b \<Longrightarrow> apart a c \<Longrightarrow> apart b c \<Longrightarrow> read_ref s' c = read_ref s c"
  unfolding frames_def by blast

lemma framesI:
  "(\<And>c. apart a c \<Longrightarrow> apart b c \<Longrightarrow> read_ref s' c = read_ref s c) \<Longrightarrow> frames s s' a b"
  unfolding frames_def by blast

lemma within_cases:
  obtains (same) "a = b" | (below) "within a b" "\<not> within b a" | (above) "within b a" "\<not> within a b"
  | (apart) "apart a b" "apart b a"
proof -
  have "within a b \<Longrightarrow> within b a \<Longrightarrow> a = b" by (cases a; cases b) (auto simp: within_iff)
  then show thesis using that by (auto simp: apart_def)
qed

lemma copyFrom_spec:
  assumes "wf_store s" "valid_ref s this" "valid_ref s from"
  shows "\<exists>s'. copyFrom s this from = Inr s' \<and> read_ref s' this = read_ref s from
    \<and> frames s s' this this \<and> wf_store s'"
proof (cases "this = from")
  case False
  then have "copyFrom s this from = Inr (write_ref s this (deref s from))"
    using wf_deref [OF assms(1), of "from"] by (simp add: copyFrom_def copyContentsInto_id)
  then show ?thesis
    using assms by (auto simp: frames_def deref_valid wf_write wf_deref)
qed (use assms in \<open>auto simp: copyFrom_def frames_def\<close>)

text \<open>Both allocator cases of taking a source's value.\<close>

lemma take_into_child_eq:
  "wf_store s \<Longrightarrow> take_into_child s this val = Inr (deref s val, write_ref s val JNull)"
  by (simp add: take_into_child_def swap_local_def copyContentsInto_id wf_deref)

lemma move_assign_eq:
  assumes "wf_store s" "valid_ref s this" "valid_ref s from"
  shows "move_assign s this from =
    (if from = this then Inr s
     else if within this from then copyFrom s this from
     else Inr (write_ref (write_ref s from JNull) this (deref s from)))"
  using containsNode_iff [OF assms(1,3,2)]
  by (auto simp: move_assign_def swap_local_def move_construct_def copyContentsInto_id
      wf_deref assms(1))

lemma write_twice_frames:
  "frames s (write_ref (write_ref s b v) a w) a b"
  by (simp add: frames_def)

lemma move_assign_spec:
  assumes "wf_store s" "valid_ref s this" "valid_ref s from"
  shows "\<exists>s'. move_assign s this from = Inr s' \<and> read_ref s' this = read_ref s from
    \<and> (apart this from \<longrightarrow> read_ref s' from = Some JNull) \<and> frames s s' this from
    \<and> wf_store s'"
proof (cases "from \<noteq> this \<and> \<not> within this from")
  case True
  then have "valid_ref (write_ref s from JNull) this"
    using assms by (intro valid_write) auto
  moreover have "move_assign s this from =
      Inr (write_ref (write_ref s from JNull) this (deref s from))"
    using True move_assign_eq [OF assms] by simp
  ultimately show ?thesis
    using assms by (auto simp: deref_valid wf_write wf_deref write_twice_frames)
next
  case False
  then show ?thesis
    using copyFrom_spec [OF assms] assms(1)
    by (auto simp: move_assign_eq [OF assms] apart_def frames_def)
qed

lemma copy_assign_eq: "copy_assign s this from = copyFrom s this from"
  by (auto simp: copy_assign_def copyFrom_def)

lemma canSwap_iff:
  assumes "wf_store s" "valid_ref s a" "valid_ref s b"
  shows "canSwap s a b \<longleftrightarrow> same_allocator s a b \<and> (a = b \<or> apart a b)"
  using containsNode_iff [OF assms(1,2,3)] containsNode_iff [OF assms(1,3,2)]
  by (auto simp: canSwap_def apart_def)

lemma swap_values_spec:
  assumes "wf_store s" "valid_ref s a" "valid_ref s b"
  shows "let s' = swap_values s a b in
    (if same_allocator s a b \<and> apart a b
     then read_ref s' a = read_ref s b \<and> read_ref s' b = read_ref s a \<and> frames s s' a b
     else s' = s) \<and> wf_store s'"
proof (cases "same_allocator s a b \<and> apart a b")
  case True
  then have "swap_values s a b = swapStorage s a b"
    using canSwap_iff [OF assms] by (auto simp: swap_values_def)
  moreover have "valid_ref (write_ref s a (deref s b)) b"
    using True assms(3) by (simp add: valid_ref_def)
  moreover have "apart b a" using True by (simp add: apart_def)
  ultimately show ?thesis
    using True assms by (simp add: swapStorage_def Let_def deref_valid frames_def wf_write wf_deref)
next
  case False
  then have "swap_values s a b = s"
    using canSwap_iff [OF assms] by (auto simp: swap_values_def)
  with False assms(1) show ?thesis by auto
qed

subsection \<open>Append and insert\<close>

lemma find_key_child: "find_key v k = child v (Member k)"
  by (cases v) auto

lemma read_child:
  "valid_ref s a \<Longrightarrow> read_ref s (child_ref a st) = child (deref s a) st"
  by (auto simp: valid_ref_def read_ref_def deref_def child_ref_def subnode_append split: option.splits)

lemma child_new_member:
  "child (JObject ms) (Member k) = None \<Longrightarrow>
    child (JObject (ms @ [(k, v)])) (Member l) =
      (if l = k then Some v else child (JObject ms) (Member l))"
  by (auto simp: map_add_def split: option.splits)

lemma isObject_members: "isObject v \<Longrightarrow> v = JObject (object_members v)"
  by (auto simp: isObject_iff object_members_def)

lemma isArray_elements: "isArray v \<Longrightarrow> v = JArray (array_elements v)"
  by (auto simp: isArray_iff array_elements_def)

lemma not_object_child: "\<not> isObject v \<Longrightarrow> child v (Member l) = None"
  by (cases v) (auto simp: isObject_def)

lemma child_ref_apart: "st \<noteq> st' \<Longrightarrow> apart (child_ref a st) (child_ref a st')"
  by (auto simp: apart_def within_iff child_ref_def)

lemma frames_within: "frames s s' (child_ref a st) (child_ref a st) \<Longrightarrow> frames s s' a a"
  using apart_within [of a _ "child_ref a st"] by (auto simp: frames_def)

lemma wf_new_member:
  "wf_json (JObject ms) \<Longrightarrow> map_of ms k = None \<Longrightarrow> wf_json v \<Longrightarrow> wf_json (JObject (ms @ [(k, v)]))"
  by (auto simp: map_of_eq_None_iff)

lemma insert_local_spec:
  assumes "wf_store s" "valid_ref s this" "wf_json v"
  shows "let s' = insert_local s this k v in
    read_ref s' (child_ref this (Member k)) = Some v \<and>
    (\<forall>l. l \<noteq> k \<longrightarrow>
      read_ref s' (child_ref this (Member l)) = read_ref s (child_ref this (Member l))) \<and>
    frames s s' this this \<and> wf_store s'"
proof (cases "isObject (deref s this) \<and> find_key (deref s this) k \<noteq> None")
  case True
  let ?c = "child_ref this (Member k)"
  from True have s': "insert_local s this k v = write_ref s ?c v"
    by (simp add: insert_local_def)
  have valid: "valid_ref s ?c"
    using True assms(2) by (simp add: valid_ref_def read_child find_key_child)
  have "frames s (write_ref s ?c v) ?c ?c" by (simp add: frames_def)
  then show ?thesis
    unfolding s' Let_def
    using valid assms child_ref_apart [of "Member k" _ this] by (auto simp: wf_write frames_within)
next
  case False
  define ms where "ms = (if isObject (deref s this) then object_members (deref s this) else [])"
  from False have s': "insert_local s this k v = write_ref s this (JObject (ms @ [(k, v)]))"
    by (auto simp: insert_local_def ms_def)
  have old: "child (deref s this) (Member l) = child (JObject ms) (Member l)" for l
    by (cases "deref s this") (simp_all add: ms_def object_members_def isObject_def)
  with False have new: "child (JObject ms) (Member k) = None"
    using not_object_child [of "deref s this"] by (auto simp: find_key_child)
  have wf: "wf_json (JObject ms)"
    using wf_deref [OF assms(1), of this]
    by (cases "deref s this") (simp_all add: ms_def object_members_def isObject_def)
  have valid: "valid_ref (write_ref s this (JObject (ms @ [(k, v)]))) this"
    using assms(2) by (simp add: valid_ref_def)
  have "deref (write_ref s this (JObject (ms @ [(k, v)]))) this = JObject (ms @ [(k, v)])"
    using assms(2) by (simp add: deref_def)
  moreover have "wf_json (JObject (ms @ [(k, v)]))"
    using wf new assms(3) wf_new_member by simp
  ultimately show ?thesis
    unfolding s' Let_def using valid new old assms
    by (auto simp: read_child child_new_member frames_def wf_write
        simp del: child.simps wf_json.simps)
qed

lemma wf_array_elements: "wf_json v \<Longrightarrow> list_all wf_json (array_elements v)"
  by (cases v) (auto simp: array_elements_def)

lemma pushBack_copy_spec:
  assumes "wf_store s" "valid_ref s this" "valid_ref s val"
  shows "\<exists>s'. pushBack_copy s this val = Inr s'
    \<and> read_ref s' this = Some (JArray (array_elements (deref s this) @ [deref s val]))
    \<and> frames s s' this this \<and> wf_store s'"
proof -
  have "pushBack_copy s this val =
      Inr (write_ref s this (JArray (array_elements (deref s this) @ [deref s val])))"
    using wf_deref [OF assms(1), of val]
    by (cases "deref s this")
      (simp_all add: pushBack_copy_def copyContentsInto_id array_elements_def)
  moreover have "wf_json (JArray (array_elements (deref s this) @ [deref s val]))"
    using wf_deref [OF assms(1)] by (simp add: wf_array_elements)
  ultimately show ?thesis using assms by (simp add: frames_def wf_write)
qed

text \<open>
  Nulling a node outside \<open>a\<close> or strictly inside it keeps \<open>a\<close>'s type, its length and every child
  that does not contain the nulled node.
\<close>

lemma read_write_child:
  assumes "\<not> within (child_ref a st) b"
    and "\<not> within b (child_ref a st)"
  shows "read_ref (write_ref s b v) (child_ref a st) = read_ref s (child_ref a st)"
  using assms by (simp add: apart_def)

lemma update_at_shape:
  assumes "p \<noteq> []"
  shows "isArray (update_at p f v) = isArray v"
    and "isObject (update_at p f v) = isObject v"
    and "length (array_elements (update_at p f v)) = length (array_elements v)"
proof -
  obtain st q where "p = st # q" using assms by (cases p) auto
  then show "isArray (update_at p f v) = isArray v" "isObject (update_at p f v) = isObject v"
    "length (array_elements (update_at p f v)) = length (array_elements v)"
    by (cases "(st, update_at q f, v)" rule: update_child.cases;
        simp add: isArray_def isObject_def array_elements_def)+
qed

lemma deref_write_shape:
  assumes "valid_ref s a" and "\<not> within a b"
  shows "isArray (deref (write_ref s b v) a) = isArray (deref s a)"
    and "isObject (deref (write_ref s b v) a) = isObject (deref s a)"
    and "length (array_elements (deref (write_ref s b v) a)) = length (array_elements (deref s a))"
proof -
  have shape: "deref (write_ref s b v) a = deref s a \<or>
      (\<exists>p. p \<noteq> [] \<and> deref (write_ref s b v) a = update_at p (\<lambda>_. v) (deref s a))"
  proof (cases "apart b a")
    case True
    then show ?thesis by (simp add: deref_def)
  next
    case False
    with assms(2) obtain p where p: "b = (fst a, snd a @ p)" "p \<noteq> []"
      unfolding apart_def within_iff by (metis append_Nil2 prod.collapse)
    then have "deref (write_ref s b v) a = update_at p (\<lambda>_. v) (deref s a)"
      using assms(1)
      by (auto simp: deref_def read_ref_def write_ref_def valid_ref_def update_at_append
          subnode_update_at split: option.splits)
    with p(2) show ?thesis by blast
  qed
  then show "isArray (deref (write_ref s b v) a) = isArray (deref s a)"
    "isObject (deref (write_ref s b v) a) = isObject (deref s a)"
    "length (array_elements (deref (write_ref s b v) a)) = length (array_elements (deref s a))"
    using update_at_shape by metis+
qed

lemma within_child_child: "within (child_ref a st) b \<Longrightarrow> \<not> within a b \<Longrightarrow> b = child_ref a st"
  by (cases a; cases b) (auto simp: within_iff child_ref_def append_eq_append_conv2 Cons_eq_append_conv)

lemma insertOrAssign_copy_spec:
  assumes "wf_store s" "valid_ref s this" "valid_ref s val"
  shows "\<exists>s'. insertOrAssign_copy s this k val = Inr s'
    \<and> read_ref s' (child_ref this (Member k)) = read_ref s val
    \<and> (\<forall>l. l \<noteq> k \<longrightarrow>
        read_ref s' (child_ref this (Member l)) = read_ref s (child_ref this (Member l)))
    \<and> frames s s' this this \<and> wf_store s'"
proof (cases "containsNode s val (Some this) \<or> \<not> isObject (deref s this)
    \<or> find_key (deref s this) k = None")
  case True
  have copy: "copyContentsInto (deref s val) = Inr (deref s val)"
    using wf_deref [OF assms(1), of val] by (rule copyContentsInto_id)
  from True have "insertOrAssign_copy s this k val = Inr (insert_local s this k (deref s val))"
    unfolding insertOrAssign_copy_def cloneNode_def copy try_bind.simps
    by (auto simp: insert_local_def)
  then show ?thesis
    using insert_local_spec [OF assms(1,2) wf_deref [OF assms(1)], of k val]
    unfolding Let_def deref_valid [OF assms(3)] by blast
next
  case False
  let ?c = "child_ref this (Member k)"
  from False have eq: "insertOrAssign_copy s this k val = copyFrom s ?c val"
    by (simp add: insertOrAssign_copy_def)
  have "valid_ref s ?c"
    using False assms(2) by (simp add: valid_ref_def read_child find_key_child)
  then obtain s' where s': "copyFrom s ?c val = Inr s'" "read_ref s' ?c = read_ref s val"
    "frames s s' ?c ?c" "wf_store s'"
    using copyFrom_spec [OF assms(1) _ assms(3)] by blast
  have "apart ?c (child_ref this (Member l))" if "l \<noteq> k" for l
    using that by (intro child_ref_apart) simp
  then show ?thesis
    unfolding eq using s' frames_within [OF s'(3)]
    by (intro exI [of _ s'] conjI allI impI) (auto intro: framesD [OF s'(3)])
qed

lemma insertOrAssign_move_spec:
  assumes "wf_store s" "valid_ref s this" "valid_ref s val"
  shows "\<exists>s'. insertOrAssign_move s this k val = Inr s'
    \<and> read_ref s' (child_ref this (Member k)) = read_ref s val
    \<and> (\<forall>l. l \<noteq> k \<longrightarrow> \<not> within val (child_ref this (Member l)) \<longrightarrow>
        read_ref s' (child_ref this (Member l)) = read_ref s (child_ref this (Member l)))
    \<and> (apart this val \<longrightarrow> read_ref s' val = Some JNull)
    \<and> frames s s' this val \<and> wf_store s'"
proof -
  let ?c = "child_ref this (Member k)"
  have con: "containsNode s val (Some this) \<longleftrightarrow> within this val"
    by (rule containsNode_iff [OF assms(1,3,2)])
  consider (inside) "within this val"
    | (assign) "\<not> within this val" "isObject (deref s this)" "find_key (deref s this) k \<noteq> None"
    | (fresh) "\<not> within this val" "\<not> isObject (deref s this) \<or> find_key (deref s this) k = None"
    by blast
  then show ?thesis
  proof cases
    case inside
    then have "insertOrAssign_move s this k val = Inr (insert_local s this k (deref s val))"
      using wf_deref [OF assms(1), of val] con
      by (simp add: insertOrAssign_move_def copyContentsInto_id)
    then show ?thesis
      using insert_local_spec [OF assms(1,2) wf_deref [OF assms(1)], of k val] assms(3) inside
      by (auto simp: Let_def deref_valid apart_def frames_def)
  next
    case assign
    then have "insertOrAssign_move s this k val = move_assign s ?c val"
      by (simp add: insertOrAssign_move_def con)
    moreover have "valid_ref s ?c"
      using assign assms(2) by (simp add: valid_ref_def read_child find_key_child)
    then obtain s' where s': "move_assign s ?c val = Inr s'" "read_ref s' ?c = read_ref s val"
      "apart ?c val \<longrightarrow> read_ref s' val = Some JNull" "frames s s' ?c val" "wf_store s'"
      using move_assign_spec [OF assms(1) _ assms(3)] by blast
    have "apart val (child_ref this (Member l))"
      if "\<not> within val (child_ref this (Member l))" for l
      using that within_child_child [OF _ assign(1), of "Member l"] by (auto simp: apart_def)
    moreover have "apart this val \<Longrightarrow> apart ?c val"
      using apart_within within_child by blast
    moreover have "apart this c \<Longrightarrow> apart ?c c" for c
      using apart_within within_child by blast
    moreover have "apart ?c (child_ref this (Member l))" if "l \<noteq> k" for l
      using that by (intro child_ref_apart) simp
    ultimately show ?thesis
      using s' by (intro exI [of _ s'] conjI allI impI framesI) (auto intro: framesD [OF s'(4)])
  next
    case fresh
    let ?s1 = "write_ref s val JNull"
    have valid1: "valid_ref ?s1 this" using fresh assms by (intro valid_write) auto
    have wf1: "wf_store ?s1" using assms(1) by (simp add: wf_write)
    have shape: "isObject (deref ?s1 this) = isObject (deref s this)"
      using deref_write_shape [OF assms(2) fresh(1)] by blast
    have same: "read_ref ?s1 (child_ref this (Member l)) = read_ref s (child_ref this (Member l))"
      if "\<not> within val (child_ref this (Member l))" for l
      using that within_child_child [OF _ fresh(1), of "Member l"]
      by (intro read_write_child) auto
    have none: "find_key (deref ?s1 this) k = None" if "isObject (deref s this)"
    proof -
      have "read_ref s ?c = None"
        using fresh(2) that assms(2) by (simp add: read_child find_key_child)
      then have "\<not> within val ?c"
        using valid_above [OF assms(3), of ?c] by (auto simp: valid_ref_def)
      then show ?thesis
        using same [of k] \<open>read_ref s ?c = None\<close> valid1 by (simp add: read_child find_key_child)
    qed
    have "insertOrAssign_move s this k val = Inr (insert_local ?s1 this k (deref s val))"
      using fresh con none shape take_into_child_eq [OF assms(1)]
      by (auto simp: insertOrAssign_move_def insert_local_def)
    moreover from insert_local_spec [OF wf1 valid1 wf_deref [OF assms(1)], of k val]
    have spec: "read_ref (insert_local ?s1 this k (deref s val)) ?c = Some (deref s val)"
      "\<And>l. l \<noteq> k \<Longrightarrow> read_ref (insert_local ?s1 this k (deref s val)) (child_ref this (Member l)) =
        read_ref ?s1 (child_ref this (Member l))"
      "frames ?s1 (insert_local ?s1 this k (deref s val)) this this"
      "wf_store (insert_local ?s1 this k (deref s val))"
      unfolding Let_def by blast+
    ultimately show ?thesis
      using same assms(3) deref_valid [OF assms(3)] framesD [OF spec(3)]
      by (intro exI [of _ "insert_local ?s1 this k (deref s val)"] conjI allI impI framesI) auto
  qed
qed

lemma pushBack_move_spec:
  assumes "wf_store s" "valid_ref s this" "valid_ref s val"
    and "length (array_elements (deref s this)) < array_max_size"
  shows "\<exists>s' xs. pushBack_move s this val = Inr s'
    \<and> read_ref s' this = Some (JArray (xs @ [deref s val]))
    \<and> length xs = length (array_elements (deref s this))
    \<and> (\<forall>i < length xs. \<not> within val (child_ref this (Elem i)) \<longrightarrow>
        xs ! i = array_elements (deref s this) ! i)
    \<and> (apart this val \<longrightarrow> read_ref s' val = Some JNull)
    \<and> frames s s' this val \<and> wf_store s'"
proof (cases "within this val")
  case True
  then have "pushBack_move s this val = pushBack_copy s this val"
    using containsNode_iff [OF assms(1,3,2)] by (simp add: pushBack_move_def)
  moreover obtain s' where "pushBack_copy s this val = Inr s'"
    "read_ref s' this = Some (JArray (array_elements (deref s this) @ [deref s val]))"
    "frames s s' this this" "wf_store s'"
    using pushBack_copy_spec [OF assms(1-3)] by blast
  ultimately show ?thesis
    using True by (intro exI [of _ s'] exI [of _ "array_elements (deref s this)"])
      (auto simp: apart_def frames_def)
next
  case False
  let ?s1 = "write_ref s val JNull"
  define xs where "xs = (if isArray (deref s this) then array_elements (deref ?s1 this) else [])"
  have valid1: "valid_ref ?s1 this" using False assms by (intro valid_write) auto
  have shape: "isArray (deref ?s1 this) = isArray (deref s this)"
    "length (array_elements (deref ?s1 this)) = length (array_elements (deref s this))"
    using deref_write_shape [OF assms(2) False] by blast+
  have none: "\<not> isArray v \<Longrightarrow> array_elements v = []" for v
    by (cases v) (auto simp: isArray_def array_elements_def)
  have eq: "pushBack_move s this val = Inr (write_ref ?s1 this (JArray (xs @ [deref s val])))"
    using False containsNode_iff [OF assms(1,3,2)] assms(4) take_into_child_eq [OF assms(1)]
    by (auto simp: pushBack_move_def xs_def)
  have len: "length xs = length (array_elements (deref s this))"
    using none [of "deref s this"] shape(2) by (simp add: xs_def)
  have elems: "xs ! i = array_elements (deref s this) ! i"
    if "i < length xs" "\<not> within val (child_ref this (Elem i))" for i
  proof -
    have arr: "isArray (deref s this)" using that(1) by (auto simp: xs_def split: if_splits)
    have "read_ref ?s1 (child_ref this (Elem i)) = read_ref s (child_ref this (Elem i))"
      using that(2) within_child_child [OF _ False, of "Elem i"] by (intro read_write_child) auto
    then have "child (deref ?s1 this) (Elem i) = child (deref s this) (Elem i)"
      using valid1 assms(2) by (simp add: read_child)
    moreover have "isArray v \<Longrightarrow> child v (Elem i) =
        (if i < length (array_elements v) then Some (array_elements v ! i) else None)" for v
      by (auto simp: isArray_iff array_elements_def)
    ultimately show ?thesis
      using that(1) arr shape len by (simp add: xs_def)
  qed
  have wf: "wf_json (JArray (xs @ [deref s val]))"
    using wf_deref [OF assms(1)] wf_deref [OF wf_write [OF assms(1)], of JNull val this]
    by (auto simp: xs_def wf_array_elements)
  show ?thesis
    unfolding eq
    by (intro exI [of _ "write_ref ?s1 this (JArray (xs @ [deref s val]))"] exI [of _ xs]
        conjI allI impI framesI)
      (use valid1 len elems wf assms(1,3) in \<open>auto simp: wf_write valid_ref_def\<close>)
qed

end
