(* ===== verification/Dom_Properties.thy ===== *)
theory Dom_Properties
  imports Json_Compare Json_Pointer Json_Alias
begin

section \<open>The properties of the value layer\<close>

text \<open>
  What the DOM operations promise: comparison by exact value, the pointer syntax and its
  evaluation, bounded array growth, and the copy, move and insertion semantics under aliasing.
  Each property is followed by an instance at concrete values.
\<close>

definition sample :: json where
  "sample = JObject [(''a'', JArray [JInt 1, JUInt 2, JNull]), (''b/c'', JObject [(''k'', JBool True)])]"

definition sample_store :: dom_store where
  "sample_store = \<lparr>root_value = (\<lambda>r. if r = 0 then sample else JNull),
     root_allocator = (\<lambda>r. if r = 7 then 1 else 0)\<rparr>"

lemma sample_simps:
  "wf_json sample" "nan_free sample"
  "wf_store sample_store" "root_value sample_store 0 = sample"
  by (simp_all add: sample_def sample_store_def wf_store_def)

subsection \<open>Comparison\<close>

text \<open>C1: \<open>operator==\<close>, an explicit work list, decides equality of what two trees denote: numbers
  are equal when their exact values are, across the three storage types, arrays element by
  element, and objects as finite maps, whatever the order of the members.\<close>

theorem operator_eq_denotation:
  assumes "wf_json a" "wf_json b" "nan_free a" "nan_free b"
  shows "operator_eq a b \<longleftrightarrow> meaning a = meaning b"
  using json_eq_meaning [OF assms] by (simp add: operator_eq_def equal_work_json_eq del: equal_work.simps)

theorem operator_eq_denotation_witness:
  "operator_eq (JObject [(''x'', JInt 1), (''y'', JArray [])])
      (JObject [(''y'', JArray []), (''x'', JUInt 1)]) =
    (meaning (JObject [(''x'', JInt 1), (''y'', JArray [])]) =
      meaning (JObject [(''y'', JArray []), (''x'', JUInt 1)]))"
  by (rule operator_eq_denotation) simp_all

text \<open>C2: the numeric comparator orders the exact mathematical values of any two stored numbers,
  signed, unsigned or double, without rounding an integer; it reports no order exactly when an
  operand is a NaN or no number.\<close>

theorem tryCompareNumber_exact:
  "tryCompareNumber a b =
    (if isNumber a \<and> isNumber b \<and> \<not> unordered a \<and> \<not> unordered b
     then Some (int_of_comparison (number_value a) (number_value b)) else None)"
proof (cases "isNumber a \<and> isNumber b")
  case True
  then show ?thesis
    by (auto simp: tryCompareNumber_def compareNumbers_value int_of_comparison_def)
qed (auto simp: tryCompareNumber_def)

subsection \<open>JSON Pointer\<close>

lemma pointer_text_inject: "pointer_text ts = pointer_text us \<longleftrightarrow> ts = us"
  using decodePointer_iff [of "pointer_text ts" ts] decodePointer_iff [of "pointer_text ts" us] by auto

text \<open>C3: a pointer string decodes to a list of reference tokens exactly when it is the text of
  that list: every \<open>'/'\<close> starts a token and \<open>escapePointerToken\<close> writes it. So decoding is a
  bijection onto token lists, and every other string is rejected.\<close>

theorem decodePointer_syntax: "decodePointer p = Inr ts \<longleftrightarrow> p = pointer_text ts"
  by (rule decodePointer_iff)

text \<open>C4: an array index token is accepted exactly when it is the canonical decimal text of a
  64-bit value: no sign, no leading zero, no overflow.\<close>

theorem parsePointerIndex_canonical:
  "parsePointerIndex t = PointerIndexOk w \<longleftrightarrow> t = decimal (unat w)"
  by (rule parsePointerIndex_ok_iff)

text \<open>C5: \<open>findPointer\<close> returns a node exactly when the string is a pointer whose tokens evaluate
  in the tree, and then it is the node at the location they evaluate to.\<close>

theorem findPointer_evaluates:
  "findPointer root p = Inr (l, w) \<longleftrightarrow>
    (\<exists>ts. p = pointer_text ts \<and> eval_pointer root ts = Some l \<and> subnode root l = Some w)"
proof (cases "decodePointer p")
  case (Inr ts)
  then have p: "p = pointer_text ts" by (simp add: decodePointer_iff)
  have "findPointer root p = Inr (l, w) \<longleftrightarrow> eval_pointer root ts = Some l \<and> subnode root l = Some w"
    unfolding findPointer_def Inr sum.case resolvePointerTokens_def resolve_tokens_eval by simp
  then show ?thesis unfolding p pointer_text_inject by blast
next
  case (Inl e)
  then have "p \<noteq> pointer_text ts" for ts using decodePointer_iff [of p ts] by simp
  with Inl show ?thesis by (simp add: findPointer_def)
qed

text \<open>C6: a failed traversal names the first token that cannot be followed: the tokens before it
  evaluate, the tokens up to it do not, and the error carries its index, its text and the
  pointer.\<close>

theorem findPointer_error_token:
  assumes "findPointer root (pointer_text ts) = Inl e"
  shows "\<exists>k < length ts. \<not> ptr_ok e \<and> ptr_tokenIndex e = k \<and> ptr_token e = ts ! k
    \<and> ptr_pointer e = pointer_text ts
    \<and> eval_pointer root (take k ts) \<noteq> None \<and> eval_pointer root (take (Suc k) ts) = None"
proof -
  have "decodePointer (pointer_text ts) = Inr ts" by (simp add: decodePointer_iff)
  with assms have "resolve_tokens (pointer_text ts) 0 root [] ts = Inl e"
    by (simp add: findPointer_def resolvePointerTokens_def)
  from resolve_tokens_error [OF this] show ?thesis
    by (auto simp: failPointer_def)
qed

theorem findPointer_error_token_witness:
  "\<exists>e. findPointer (JArray [JNull]) (pointer_text [''0'', ''k'']) = Inl e \<and>
    ptr_tokenIndex e = 1 \<and> ptr_token e = ''k''"
proof -
  let ?ts = "[''0'', ''k'']"
  have "decodePointer (pointer_text ?ts) = Inr ?ts" unfolding decodePointer_iff ..
  moreover have "parsePointerIndex ''0'' = PointerIndexOk 0"
    by (simp add: parsePointerIndex_ok_iff)
  ultimately have run: "findPointer (JArray [JNull]) (pointer_text ?ts) =
      Inl (failPointer ExpectedContainer (pointer_text ?ts) 1 ''k'' msg_non_container)"
    by (simp add: findPointer_def resolvePointerTokens_def del: pointer_text_simps)
  have "eval_pointer (JArray [JNull]) (take 1 ?ts) \<noteq> None"
    by (simp add: token_step_def element_index_def canonical_decimal_def is_digit_def digit_value_def)
  with findPointer_error_token [OF run] run show ?thesis
    by (auto simp: failPointer_def)
qed

subsection \<open>Container growth\<close>

text \<open>C7: \<open>operator[](size_t)\<close> returns an existing element, or grows the array with nulls up to the
  requested index when that adds at most 1,000,000 elements, and otherwise throws
  \<open>length_error\<close>; the 64-bit size arithmetic never lets a wrapped difference pass.\<close>

theorem vivify_index_growth:
  assumes "length (array_elements v) \<le> array_max_size"
  defines "xs \<equiv> array_elements v"
  shows "(unat i < length xs \<longrightarrow> vivify_index v i = Inr (JArray xs, Elem (unat i)))
    \<and> (length xs \<le> unat i \<and> unat i - length xs < 1000000 \<and> unat i < array_max_size \<longrightarrow>
        vivify_index v i =
          Inr (JArray (xs @ replicate (Suc (unat i) - length xs) JNull), Elem (unat i)))
    \<and> (length xs \<le> unat i \<and> (1000000 \<le> unat i - length xs \<or> array_max_size \<le> unat i) \<longrightarrow>
        (\<exists>msg. vivify_index v i = Inl (length_error msg)))"
proof -
  have "vivify_index v i = vivify_elements xs i"
    by (cases v) (simp_all add: vivify_index_def xs_def array_elements_def)
  moreover have "length xs \<le> array_max_size" using assms by simp
  ultimately show ?thesis
    using vivify_elements_below vivify_elements_grow vivify_elements_reject
    by (metis (no_types))
qed

theorem vivify_index_growth_witness:
  "vivify_index (JArray [JNull]) 3 = Inr (JArray [JNull, JNull, JNull, JNull], Elem 3)"
proof -
  have "replicate 3 JNull = [JNull, JNull, JNull]" by (simp add: numeral_3_eq_3)
  then show ?thesis
    using vivify_index_growth [of "JArray [JNull]" 3]
    by (simp add: array_elements_def array_max_size_def)
qed

subsection \<open>Copy and teardown\<close>

text \<open>C8: the iterative deep copy of a well-formed tree is that tree, and never fails.\<close>

theorem deep_copy_identity:
  assumes "wf_json v"
  shows "copyContentsInto v = Inr v"
  using assms by (rule copyContentsInto_id)

theorem deep_copy_identity_witness: "copyContentsInto sample = Inr sample"
  by (rule deep_copy_identity) (rule sample_simps)

text \<open>C9: tearing a container down destroys every descendant node, each exactly once, and leaves
  the node itself an empty container of its type.\<close>

theorem teardown_frees_once:
  assumes "wf_json v" and "disposeChildren v = (v', freed)"
  shows "distinct freed \<and> set freed = {p. p \<noteq> [] \<and> subnode v p \<noteq> None}
    \<and> (is_container v \<longrightarrow> v' = emptyValue (getType v))"
proof -
  have "is_container v \<longrightarrow> v' = emptyValue (getType v)"
    using assms(2) by (auto simp: disposeChildren_def split: prod.splits)
  then show ?thesis using disposeChildren_frees [OF assms] by blast
qed

theorem teardown_frees_once_witness:
  "disposeChildren (JArray [JArray [JInt 1], JNull]) =
      (JArray [], [[Elem 1], [Elem 0], [Elem 0, Elem 0]]) \<and>
    set [[Elem 1], [Elem 0], [Elem 0, Elem 0]] =
      {p. p \<noteq> [] \<and> subnode (JArray [JArray [JInt 1], JNull]) p \<noteq> None}"
proof -
  have run: "disposeChildren (JArray [JArray [JInt 1], JNull]) =
      (JArray [], [[Elem 1], [Elem 0], [Elem 0, Elem 0]])"
    by (simp add: disposeChildren_def is_container_def located_children_def isNull_def)
  then show ?thesis
    using teardown_frees_once [OF _ run] by simp
qed

subsection \<open>Aliasing\<close>

text \<open>C10: move assignment is safe between any two nodes, including an ancestor and its
  descendant: afterwards the destination reads what the source read, the source is null when
  neither contained the other, every node apart from both is unchanged, and the trees stay
  well formed, whatever the allocators.\<close>

theorem move_assign_aliasing:
  assumes "wf_store s" "valid_ref s this" "valid_ref s from"
  shows "\<exists>s'. move_assign s this from = Inr s' \<and> read_ref s' this = read_ref s from
    \<and> (apart this from \<longrightarrow> read_ref s' from = Some JNull) \<and> frames s s' this from
    \<and> wf_store s'"
  by (rule move_assign_spec) (fact assms)+

theorem move_assign_aliasing_witness:
  "\<exists>s'. move_assign sample_store (0, [Member ''a'']) (0, []) = Inr s' \<and>
    read_ref s' (0, [Member ''a'']) = Some sample"
proof -
  have "valid_ref sample_store (0, [Member ''a''])" "read_ref sample_store (0, []) = Some sample"
    by (simp_all add: valid_ref_def read_ref_def sample_simps) (simp add: sample_def)
  moreover from this(2) have "valid_ref sample_store (0, [])" by (simp add: valid_ref_def)
  ultimately show ?thesis
    using move_assign_aliasing [OF sample_simps(3)] by metis
qed

text \<open>C11: \<open>swap\<close> exchanges two nodes exactly when they share an allocator and neither contains
  the other; in every other case it changes nothing.\<close>

theorem swap_aliasing:
  assumes "wf_store s" "valid_ref s a" "valid_ref s b"
  shows "(same_allocator s a b \<and> apart a b \<longrightarrow>
        read_ref (swap_values s a b) a = read_ref s b \<and> read_ref (swap_values s a b) b = read_ref s a
        \<and> frames s (swap_values s a b) a b)
    \<and> (\<not> (same_allocator s a b \<and> apart a b) \<longrightarrow> swap_values s a b = s)
    \<and> wf_store (swap_values s a b)"
  using swap_values_spec [OF assms] by (auto simp: Let_def split: if_splits)

theorem swap_aliasing_witness:
  "read_ref (swap_values sample_store (0, [Member ''a'']) (0, [Member ''b/c''])) (0, [Member ''a'']) =
      Some (JObject [(''k'', JBool True)]) \<and>
    swap_values sample_store (0, [Member ''a'']) (0, []) = sample_store"
  using swap_aliasing [of sample_store "(0, [Member ''a''])" "(0, [Member ''b/c''])"]
    swap_aliasing [of sample_store "(0, [Member ''a''])" "(0, [])"]
  by (auto simp: sample_simps valid_ref_def read_ref_def apart_def within_def same_allocator_def)
    (simp_all add: sample_def)

text \<open>C12: \<open>insertOrAssign\<close> by move makes the member read what the source read, for every
  aliasing of receiver, member and source; the other members keep their values unless the moved
  source lies in them, and nothing apart from receiver and source changes.\<close>

theorem insertOrAssign_aliasing:
  assumes "wf_store s" "valid_ref s this" "valid_ref s val"
  shows "\<exists>s'. insertOrAssign_move s this k val = Inr s'
    \<and> read_ref s' (child_ref this (Member k)) = read_ref s val
    \<and> (\<forall>l. l \<noteq> k \<longrightarrow> \<not> within val (child_ref this (Member l)) \<longrightarrow>
        read_ref s' (child_ref this (Member l)) = read_ref s (child_ref this (Member l)))
    \<and> (apart this val \<longrightarrow> read_ref s' val = Some JNull)
    \<and> frames s s' this val \<and> wf_store s'"
  by (rule insertOrAssign_move_spec) (fact assms)+

theorem insertOrAssign_aliasing_witness:
  "\<exists>s'. insertOrAssign_move sample_store (0, []) ''self'' (0, []) = Inr s' \<and>
    read_ref s' (0, [Member ''self'']) = Some sample"
  using insertOrAssign_aliasing [of sample_store "(0, [])" "(0, [])" "''self''"]
  by (auto simp: sample_simps valid_ref_def read_ref_def child_ref_def)

text \<open>C13: \<open>pushBack\<close> by move appends what the source read, for every aliasing of receiver and
  source, keeps the existing elements that do not contain the source, and promotes a receiver
  that is no array.\<close>

theorem pushBack_aliasing:
  assumes "wf_store s" "valid_ref s this" "valid_ref s val"
    and "length (array_elements (deref s this)) < array_max_size"
  shows "\<exists>s' xs. pushBack_move s this val = Inr s'
    \<and> read_ref s' this = Some (JArray (xs @ [deref s val]))
    \<and> length xs = length (array_elements (deref s this))
    \<and> (\<forall>i < length xs. \<not> within val (child_ref this (Elem i)) \<longrightarrow>
        xs ! i = array_elements (deref s this) ! i)
    \<and> (apart this val \<longrightarrow> read_ref s' val = Some JNull)
    \<and> frames s s' this val \<and> wf_store s'"
  by (rule pushBack_move_spec) (fact assms)+

theorem pushBack_aliasing_witness:
  "\<exists>s' xs. pushBack_move sample_store (0, [Member ''a'']) (0, [Member ''a'', Elem 0]) = Inr s' \<and>
    read_ref s' (0, [Member ''a'']) = Some (JArray (xs @ [JInt 1])) \<and> length xs = 3"
proof -
  have elems: "deref sample_store (0, [Member ''a'']) = JArray [JInt 1, JUInt 2, JNull]"
    "deref sample_store (0, [Member ''a'', Elem 0]) = JInt 1"
    by (simp_all add: deref_def read_ref_def sample_simps) (simp_all add: sample_def)
  have "valid_ref sample_store (0, [Member ''a''])" "valid_ref sample_store (0, [Member ''a'', Elem 0])"
    by (simp_all add: valid_ref_def read_ref_def sample_simps) (simp_all add: sample_def)
  from pushBack_aliasing [OF sample_simps(3) this] show ?thesis
    unfolding elems by (auto simp: array_elements_def array_max_size_def)
qed

end
