(* ===== verification/Patch_Budget.thy ===== *)
theory Patch_Budget
  imports Json_Pointer Json_Compare Deep_Copy
begin

section \<open>Patch errors and resource budgets\<close>

text \<open>
  The first half of \<open>pjson_patch.cpp\<close>: the structured patch error, the four budgets that bound
  a patch, the measured clone and the measured equality. A step that may charge a budget is a
  function of the budget; failing drops the budget, as the code's early return does. The error
  a step may return extends the one it is given, which carries the operation's metadata.
\<close>

datatype PatchError_Code =
    Patch_Ok | InvalidPatchDocument | OperationNotObject | MissingOp | MissingPath | MissingFrom
  | MissingValue | InvalidOp | InvalidPath | InvalidFrom | TargetMissing
  | Patch_InvalidArrayIndex | Patch_ArrayIndexOutOfRange | MoveRootNotAllowed
  | MoveIntoDescendant | TestFailed | ResourceLimit | Patch_AllocationFailure
  | Patch_InternalError

record PatchError =
  pe_ok :: bool
  pe_code :: PatchError_Code
  pe_opIndex :: nat
  pe_op :: string
  pe_path :: string
  pe_from :: string
  pe_tokenIndex :: nat
  pe_token :: string
  pe_message :: string

record PatchOptions =
  maxOperations :: nat
  maxClonedNodes :: nat
  maxClonedBytes :: nat
  maxWork :: nat

definition default_patch_options :: PatchOptions where
  "default_patch_options =
     \<lparr>maxOperations = 10000, maxClonedNodes = 1000000, maxClonedBytes = 64 * 1024 * 1024,
      maxWork = 1000000\<rparr>"

record PatchBudget =
  pb_operations :: nat
  pb_nodes :: nat
  pb_bytes :: nat
  pb_work :: nat
  operationLimit :: nat
  nodeLimit :: nat
  byteLimit :: nat
  workLimit :: nat

definition make_budget :: "PatchOptions \<Rightarrow> PatchBudget" where
  "make_budget opts =
     \<lparr>pb_operations = 0, pb_nodes = 0, pb_bytes = 0, pb_work = 0,
      operationLimit = (if maxOperations opts = 0 then 10000 else maxOperations opts),
      nodeLimit = (if maxClonedNodes opts = 0 then 1000000 else maxClonedNodes opts),
      byteLimit = (if maxClonedBytes opts = 0 then 64 * 1024 * 1024 else maxClonedBytes opts),
      workLimit = (if maxWork opts = 0 then 1000000 else maxWork opts)\<rparr>"

definition resetPatchError :: PatchError where
  "resetPatchError =
     \<lparr>pe_ok = True, pe_code = Patch_Ok, pe_opIndex = 0, pe_op = [], pe_path = [], pe_from = [],
      pe_tokenIndex = 0, pe_token = [], pe_message = []\<rparr>"

definition failPatch :: "PatchError \<Rightarrow> PatchError_Code \<Rightarrow> string \<Rightarrow> PatchError" where
  "failPatch err code message =
     err\<lparr>pe_ok := False, pe_code := code, pe_message := message\<rparr>"

definition failPatchAtToken ::
    "PatchError \<Rightarrow> PatchError_Code \<Rightarrow> nat \<Rightarrow> string \<Rightarrow> string \<Rightarrow> PatchError" where
  "failPatchAtToken err code tokenIndex token message =
     failPatch (err\<lparr>pe_tokenIndex := tokenIndex, pe_token := token\<rparr>) code message"

fun pointerCodeForPatch :: "PointerError_Code \<Rightarrow> PatchError_Code" where
  "pointerCodeForPatch InvalidArrayIndex = Patch_InvalidArrayIndex"
| "pointerCodeForPatch AppendTokenNotAllowed = Patch_InvalidArrayIndex"
| "pointerCodeForPatch ArrayIndexOutOfRange = Patch_ArrayIndexOutOfRange"
| "pointerCodeForPatch MissingTarget = TargetMissing"
| "pointerCodeForPatch ExpectedContainer = TargetMissing"
| "pointerCodeForPatch Pointer_AllocationFailure = Patch_AllocationFailure"
| "pointerCodeForPatch Pointer_InternalError = Patch_InternalError"
| "pointerCodeForPatch _ = TargetMissing"

definition failPatchFromPointer :: "PatchError \<Rightarrow> PointerError \<Rightarrow> PatchError" where
  "failPatchFromPointer err pointerError =
     failPatch (err\<lparr>pe_tokenIndex := ptr_tokenIndex pointerError, pe_token := ptr_token pointerError\<rparr>)
       (pointerCodeForPatch (ptr_code pointerError)) (ptr_message pointerError)"

subsection \<open>Charging\<close>

definition chargePatch ::
    "nat \<Rightarrow> nat \<Rightarrow> nat \<Rightarrow> PatchError \<Rightarrow> string \<Rightarrow> PatchError + nat" where
  "chargePatch used limit amount err message =
     (if amount > limit - min used limit then Inl (failPatch err ResourceLimit message)
      else Inr (used + amount))"

type_synonym 'a budgeted = "PatchBudget \<Rightarrow> PatchError + ('a \<times> PatchBudget)"

definition bdone :: "'a \<Rightarrow> 'a budgeted" where
  "bdone x b = Inr (x, b)"

definition bfail :: "PatchError \<Rightarrow> 'a budgeted" where
  "bfail e b = Inl e"

definition bthen :: "'a budgeted \<Rightarrow> ('a \<Rightarrow> 'b budgeted) \<Rightarrow> 'b budgeted" where
  "bthen m f b = try_bind (m b) (\<lambda>(x, b'). f x b')"

definition charge_operations :: "nat \<Rightarrow> PatchError \<Rightarrow> string \<Rightarrow> unit budgeted" where
  "charge_operations n err msg b =
     try_bind (chargePatch (pb_operations b) (operationLimit b) n err msg)
       (\<lambda>u. Inr ((), b\<lparr>pb_operations := u\<rparr>))"

definition charge_nodes :: "nat \<Rightarrow> PatchError \<Rightarrow> string \<Rightarrow> unit budgeted" where
  "charge_nodes n err msg b =
     try_bind (chargePatch (pb_nodes b) (nodeLimit b) n err msg)
       (\<lambda>u. Inr ((), b\<lparr>pb_nodes := u\<rparr>))"

definition charge_bytes :: "nat \<Rightarrow> PatchError \<Rightarrow> string \<Rightarrow> unit budgeted" where
  "charge_bytes n err msg b =
     try_bind (chargePatch (pb_bytes b) (byteLimit b) n err msg)
       (\<lambda>u. Inr ((), b\<lparr>pb_bytes := u\<rparr>))"

definition charge_work :: "nat \<Rightarrow> PatchError \<Rightarrow> string \<Rightarrow> unit budgeted" where
  "charge_work n err msg b =
     try_bind (chargePatch (pb_work b) (workLimit b) n err msg)
       (\<lambda>u. Inr ((), b\<lparr>pb_work := u\<rparr>))"

definition msg_work :: string where "msg_work = ''JSON patch work budget exceeded''"
definition msg_nodes :: string where "msg_nodes = ''JSON patch cloned-node budget exceeded''"
definition msg_bytes :: string where "msg_bytes = ''JSON patch cloned-byte budget exceeded''"
definition msg_Work :: string where "msg_Work = ''JSON Patch work budget exceeded''"
definition msg_Nodes :: string where "msg_Nodes = ''JSON Patch cloned-node budget exceeded''"
definition msg_Bytes :: string where "msg_Bytes = ''JSON Patch cloned-byte budget exceeded''"

text \<open>\<open>sizeof(pjson)\<close>: the allocator and implementation pointers.\<close>

definition sizeof_pjson :: nat where "sizeof_pjson = 16"

subsection \<open>The measured clone\<close>

fun charge_keys :: "members \<Rightarrow> PatchError \<Rightarrow> unit budgeted" where
  "charge_keys [] err = bdone ()"
| "charge_keys ((k, _) # ms) err =
     bthen (charge_bytes (length k) err msg_bytes) (\<lambda>_. charge_keys ms err)"

definition remaining_work :: "PatchBudget \<Rightarrow> nat" where
  "remaining_work b = workLimit b - min (pb_work b) (workLimit b)"

text \<open>Fails when a container has more children than work is left.\<close>

definition check_children :: "nat \<Rightarrow> PatchError \<Rightarrow> unit budgeted" where
  "check_children n err b =
     (if n > remaining_work b then Inl (failPatch err ResourceLimit msg_work) else Inr ((), b))"

text \<open>One node: its charges and the children it pushes, the last one first.\<close>

definition measure_node :: "json \<Rightarrow> PatchError \<Rightarrow> json list budgeted" where
  "measure_node current err =
     bthen (charge_work 1 err msg_work) (\<lambda>_.
     bthen (charge_nodes 1 err msg_nodes) (\<lambda>_.
     bthen (charge_bytes sizeof_pjson err msg_bytes) (\<lambda>_.
       case current of
         JString s \<Rightarrow> bthen (charge_bytes (length s) err msg_bytes) (\<lambda>_. bdone [])
       | JArray xs \<Rightarrow> bthen (check_children (length xs) err) (\<lambda>_. bdone (rev xs))
       | JObject ms \<Rightarrow>
           bthen (check_children (length ms) err) (\<lambda>_.
           bthen (charge_keys ms err) (\<lambda>_. bdone (rev (map snd ms))))
       | _ \<Rightarrow> bdone [])))"

lemma sum_list_map_rev [simp]: "sum_list (map f (rev xs)) = (sum_list (map f xs) :: nat)"
  by (simp flip: rev_map)

definition total_nodes :: "json list \<Rightarrow> nat" where
  "total_nodes vs = sum_list (map nodes vs)"

lemma total_nodes_simps [simp]:
  "total_nodes [] = 0" "total_nodes (v # vs) = nodes v + total_nodes vs"
  "total_nodes (us @ vs) = total_nodes us + total_nodes vs" "total_nodes (rev vs) = total_nodes vs"
  by (simp_all add: total_nodes_def flip: rev_map)

lemma measure_node_children:
  "measure_node v err b = Inr (vs, b') \<Longrightarrow> total_nodes vs < nodes v"
  by (cases v)
    (auto simp: measure_node_def bthen_def bdone_def total_nodes_def comp_def less_Suc_eq_le
      simp flip: rev_map)

function measure_work :: "json list \<Rightarrow> PatchError \<Rightarrow> unit budgeted" where
  "measure_work [] err b = Inr ((), b)"
| "measure_work (current # work) err b =
     (case measure_node current err b of
        Inl e \<Rightarrow> Inl e
      | Inr (children, b') \<Rightarrow> measure_work (children @ work) err b')"
  by pat_completeness auto

termination
  by (relation "measure (\<lambda>(work, err, b). total_nodes work)") (auto dest: measure_node_children)

definition measureClone :: "json \<Rightarrow> PatchError \<Rightarrow> unit budgeted" where
  "measureClone v err = measure_work [v] err"

subsection \<open>The measured equality\<close>

text \<open>
  One pair: \<^const>\<open>None\<close> is the early return with \<open>equal = false\<close>, otherwise the pairs pushed.
\<close>

fun patch_member_pairs ::
    "members \<Rightarrow> members \<Rightarrow> PatchError \<Rightarrow> (json \<times> json) list option budgeted" where
  "patch_member_pairs [] r err = bdone (Some [])"
| "patch_member_pairs ((k, v) # ms) r err =
     bthen (charge_work (length k + 1) err msg_Work) (\<lambda>_.
       case map_of r k of
         None \<Rightarrow> bdone None
       | Some v' \<Rightarrow>
           bthen (patch_member_pairs ms r err) (\<lambda>ps. bdone (map_option (Cons (v, v')) ps)))"

definition patch_equal_node ::
    "json \<Rightarrow> json \<Rightarrow> PatchError \<Rightarrow> (json \<times> json) list option budgeted" where
  "patch_equal_node lhs rhs err =
     bthen (charge_work 1 err msg_Work) (\<lambda>_.
       if isNumber lhs \<and> isNumber rhs then
         bdone (if compareNumbers lhs rhs \<noteq> 0 then None else Some [])
       else if getType lhs \<noteq> getType rhs then bdone None
       else case (lhs, rhs) of
           (JString l, JString r) \<Rightarrow>
             bthen (charge_work (max (length l) (length r)) err msg_Work) (\<lambda>_.
               bdone (if l \<noteq> r then None else Some []))
         | (JBool l, JBool r) \<Rightarrow> bdone (if l \<noteq> r then None else Some [])
         | (JArray l, JArray r) \<Rightarrow> bdone (if length l \<noteq> length r then None else Some (zip l r))
         | (JObject l, JObject r) \<Rightarrow>
             if length l \<noteq> length r then bdone None else patch_member_pairs l r err
         | _ \<Rightarrow> bdone (Some []))"

lemma patch_member_pairs_value:
  "patch_member_pairs ms r err b = Inr (ps, b') \<Longrightarrow> ps = member_pairs ms r"
  by (induction ms r err arbitrary: ps b b' rule: patch_member_pairs.induct)
    (auto simp: bthen_def bdone_def split: option.splits)

lemma patch_equal_node_value:
  "patch_equal_node lhs rhs err b = Inr (ps, b') \<Longrightarrow> ps = equal_node lhs rhs"
  by (cases lhs; cases rhs)
    (auto simp: patch_equal_node_def equal_node_def bthen_def bdone_def isNumber_def
      dest: patch_member_pairs_value split: if_splits)

function patch_equal_work :: "(json \<times> json) list \<Rightarrow> PatchError \<Rightarrow> bool budgeted" where
  "patch_equal_work [] err b = Inr (True, b)"
| "patch_equal_work ((lhs, rhs) # pending) err b =
     (case patch_equal_node lhs rhs err b of
        Inl e \<Rightarrow> Inl e
      | Inr (None, b') \<Rightarrow> Inr (False, b')
      | Inr (Some ps, b') \<Rightarrow> patch_equal_work (rev ps @ pending) err b')"
  by pat_completeness auto

termination
  by (relation "measure (\<lambda>(pending, err, b). work_nodes pending)")
    (auto dest!: patch_equal_node_value equal_node_nodes [OF sym])

definition patchEqual :: "json \<Rightarrow> json \<Rightarrow> PatchError \<Rightarrow> bool budgeted" where
  "patchEqual left right err = patch_equal_work [(left, right)] err"

subsection \<open>What a budgeted step computes and spends\<close>

text \<open>
  \<open>spends i m r c\<close>: whatever the budget, \<open>m\<close> either returns the result \<open>r\<close> and spends at most
  \<open>c\<close> of every counter, or fails with a resource error, which needs that some counter has less
  than \<open>c\<close> left, or fails for another reason, which needs that \<open>r\<close> is no result. Failures carry
  the operation index \<open>i\<close>.
\<close>

definition budget_ok :: "PatchBudget \<Rightarrow> bool" where
  "budget_ok b \<longleftrightarrow> pb_operations b \<le> operationLimit b \<and> pb_nodes b \<le> nodeLimit b
     \<and> pb_bytes b \<le> byteLimit b \<and> pb_work b \<le> workLimit b"

definition spare :: "PatchBudget \<Rightarrow> nat \<Rightarrow> bool" where
  "spare b c \<longleftrightarrow> pb_operations b + c \<le> operationLimit b \<and> pb_nodes b + c \<le> nodeLimit b
     \<and> pb_bytes b + c \<le> byteLimit b \<and> pb_work b + c \<le> workLimit b"

definition same_limits :: "PatchBudget \<Rightarrow> PatchBudget \<Rightarrow> bool" where
  "same_limits b b' \<longleftrightarrow> operationLimit b' = operationLimit b \<and> nodeLimit b' = nodeLimit b
     \<and> byteLimit b' = byteLimit b \<and> workLimit b' = workLimit b"

definition advances :: "PatchBudget \<Rightarrow> PatchBudget \<Rightarrow> nat \<Rightarrow> bool" where
  "advances b b' c \<longleftrightarrow> budget_ok b' \<and> same_limits b b'
     \<and> pb_operations b' \<le> pb_operations b + c \<and> pb_nodes b' \<le> pb_nodes b + c
     \<and> pb_bytes b' \<le> pb_bytes b + c \<and> pb_work b' \<le> pb_work b + c"

lemmas budget_defs [budget_simps] = budget_ok_def spare_def same_limits_def advances_def

definition spends :: "nat \<Rightarrow> 'a budgeted \<Rightarrow> 'a option \<Rightarrow> nat \<Rightarrow> bool" where
  "spends i m r c \<longleftrightarrow>
     (\<forall>b. budget_ok b \<longrightarrow>
       (case m b of
          Inl e \<Rightarrow> \<not> pe_ok e \<and> pe_opIndex e = i \<and>
            (if pe_code e = ResourceLimit then \<not> spare b c else r = None)
        | Inr (x, b') \<Rightarrow> r = Some x \<and> advances b b' c))"

lemma spendsI:
  assumes "\<And>b e. budget_ok b \<Longrightarrow> m b = Inl e \<Longrightarrow> \<not> pe_ok e \<and> pe_opIndex e = i \<and>
      (if pe_code e = ResourceLimit then \<not> spare b c else r = None)"
    and "\<And>b x b'. budget_ok b \<Longrightarrow> m b = Inr (x, b') \<Longrightarrow> r = Some x \<and> advances b b' c"
  shows "spends i m r c"
  unfolding spends_def using assms by (auto split: sum.split)

lemma spends_fail:
  assumes "spends i m r c" "budget_ok b" "m b = Inl e"
  shows "\<not> pe_ok e \<and> pe_opIndex e = i \<and> (if pe_code e = ResourceLimit then \<not> spare b c else r = None)"
  using assms unfolding spends_def by fastforce

lemma spends_return:
  assumes "spends i m r c" "budget_ok b" "m b = Inr (x, b')"
  shows "r = Some x \<and> advances b b' c"
  using assms unfolding spends_def by fastforce

lemma spends_bdone [intro]: "spends i (bdone x) (Some x) 0"
  by (auto simp: spends_def bdone_def budget_simps)

lemma spends_bfail [intro]:
  "\<not> pe_ok e \<Longrightarrow> pe_opIndex e = i \<Longrightarrow> pe_code e \<noteq> ResourceLimit \<Longrightarrow> spends i (bfail e) None c"
  by (auto simp: spends_def bfail_def)

lemma spends_bthen:
  assumes m: "spends i m r c"
    and f: "\<And>x. r = Some x \<Longrightarrow> spends i (f x) (r' x) c'"
  shows "spends i (bthen m f) (Option.bind r r') (c + c')"
proof (rule spendsI)
  fix b e
  assume ok: "budget_ok b" and e: "bthen m f b = Inl e"
  show "\<not> pe_ok e \<and> pe_opIndex e = i \<and>
    (if pe_code e = ResourceLimit then \<not> spare b (c + c') else Option.bind r r' = None)"
  proof (cases "m b")
    case (Inl e')
    with e have "e' = e" by (simp add: bthen_def)
    with spends_fail [OF m ok Inl] show ?thesis by (auto simp: spare_def)
  next
    case (Inr xb)
    then obtain x b' where x: "m b = Inr (x, b')" by (cases xb) auto
    have adv: "r = Some x" "advances b b' c" using spends_return [OF m ok x] by auto
    from e x have "f x b' = Inl e" by (simp add: bthen_def)
    with spends_fail [OF f [OF adv(1)], of b' e] adv show ?thesis
      by (auto simp: budget_simps)
  qed
next
  fix b y b''
  assume ok: "budget_ok b" and y: "bthen m f b = Inr (y, b'')"
  then obtain x b' where x: "m b = Inr (x, b')" "f x b' = Inr (y, b'')"
    by (auto simp: bthen_def)
  have adv: "r = Some x" "advances b b' c" using spends_return [OF m ok x(1)] by auto
  with spends_return [OF f [OF adv(1)] _ x(2)]
  show "Option.bind r r' = Some y \<and> advances b b'' (c + c')"
    by (auto simp: budget_simps)
qed

lemma spends_weaken: "spends i m r c \<Longrightarrow> c \<le> c' \<Longrightarrow> spends i m r c'"
proof (rule spendsI)
  fix b e
  assume "spends i m r c" "c \<le> c'" "budget_ok b" "m b = Inl e"
  with spends_fail [OF this(1,3,4)] show "\<not> pe_ok e \<and> pe_opIndex e = i \<and>
      (if pe_code e = ResourceLimit then \<not> spare b c' else r = None)"
    by (auto simp: spare_def split: if_splits)
next
  fix b x b'
  assume "spends i m r c" "c \<le> c'" "budget_ok b" "m b = Inr (x, b')"
  with spends_return [OF this(1,3,4)] show "r = Some x \<and> advances b b' c'"
    by (auto simp: advances_def)
qed

text \<open>A step that must succeed, given what is spent before it.\<close>

lemma spends_then_unit:
  "spends i m (Some ()) c \<Longrightarrow> spends i (f ()) r c' \<Longrightarrow> spends i (bthen m f) r (c + c')"
  using spends_bthen [of i m "Some ()" c f "\<lambda>_. r" c'] by (cases r) auto

lemma failPatch_fields [simp]:
  "\<not> pe_ok (failPatch err code msg)" "pe_code (failPatch err code msg) = code"
  "pe_opIndex (failPatch err code msg) = pe_opIndex err"
  "\<not> pe_ok (failPatchAtToken err code k t msg)" "pe_code (failPatchAtToken err code k t msg) = code"
  "pe_opIndex (failPatchAtToken err code k t msg) = pe_opIndex err"
  by (simp_all add: failPatch_def failPatchAtToken_def)

lemmas charge_defs = charge_operations_def charge_nodes_def charge_bytes_def charge_work_def

lemma spends_charge:
  assumes "n \<le> c"
  shows "spends (pe_opIndex err) (charge_operations n err msg) (Some ()) c"
    "spends (pe_opIndex err) (charge_nodes n err msg) (Some ()) c"
    "spends (pe_opIndex err) (charge_bytes n err msg) (Some ()) c"
    "spends (pe_opIndex err) (charge_work n err msg) (Some ()) c"
  unfolding charge_defs using assms
  by (auto intro!: spendsI simp: chargePatch_def budget_simps min_def split: if_splits)

subsection \<open>Measuring: results, costs and exact charges\<close>

text \<open>What the clone of a tree costs in bytes: nodes, string payloads and object names.\<close>

fun clone_bytes :: "json \<Rightarrow> nat" where
  "clone_bytes (JString s) = sizeof_pjson + length s"
| "clone_bytes (JArray xs) = sizeof_pjson + sum_list (map clone_bytes xs)"
| "clone_bytes (JObject ms) =
     sizeof_pjson + sum_list (map (\<lambda>m. length (fst m) + clone_bytes (snd m)) ms)"
| "clone_bytes _ = sizeof_pjson"

definition total_bytes :: "json list \<Rightarrow> nat" where
  "total_bytes vs = sum_list (map clone_bytes vs)"

lemma total_bytes_simps [simp]:
  "total_bytes [] = 0" "total_bytes (v # vs) = clone_bytes v + total_bytes vs"
  "total_bytes (us @ vs) = total_bytes us + total_bytes vs" "total_bytes (rev vs) = total_bytes vs"
  by (simp_all add: total_bytes_def flip: rev_map)

definition key_bytes :: "members \<Rightarrow> nat" where
  "key_bytes ms = sum_list (map (\<lambda>m. length (fst m)) ms)"

lemma clone_bytes_object:
  "clone_bytes (JObject ms) = sizeof_pjson + key_bytes ms + total_bytes (map snd ms)"
  by (simp add: key_bytes_def total_bytes_def sum_list_addf comp_def)

lemma nodes_object: "nodes (JObject ms) = Suc (total_nodes (map snd ms))"
  by (simp add: total_nodes_def comp_def)

lemma spends_charge_keys: "spends (pe_opIndex err) (charge_keys ms err) (Some ()) (key_bytes ms)"
proof (induction ms)
  case (Cons m ms)
  obtain k v where m: "m = (k, v)" by (cases m)
  have "spends (pe_opIndex err) (bthen (charge_bytes (length k) err msg_bytes) (\<lambda>_. charge_keys ms err))
      (Some ()) (length k + key_bytes ms)"
    by (rule spends_then_unit [OF spends_charge(3) [OF order_refl] Cons.IH])
  then show ?case by (simp add: m key_bytes_def)
qed (auto simp: key_bytes_def)

text \<open>A check whose failure later charges would have caused anyway: it needs \<open>n\<close> work.\<close>

lemma spends_check_children: "n \<le> c \<Longrightarrow> spends (pe_opIndex err) (check_children n err) (Some ()) c"
  by (rule spendsI)
    (auto simp: check_children_def remaining_work_def budget_simps min_def split: if_splits)

definition node_children :: "json \<Rightarrow> json list" where
  "node_children v = (case v of JArray xs \<Rightarrow> rev xs | JObject ms \<Rightarrow> rev (map snd ms) | _ \<Rightarrow> [])"

definition measure_cost :: "json list \<Rightarrow> nat" where
  "measure_cost vs = 3 * (total_nodes vs + total_bytes vs)"

lemma length_le_nodes: "length vs \<le> total_nodes vs"
proof (induction vs)
  case (Cons v vs)
  then show ?case using nodes_pos [of v] by (simp del: nodes_pos)
qed simp

lemma spends_measure_node:
  "spends (pe_opIndex err) (measure_node v err) (Some (node_children v)) (3 * (nodes v + clone_bytes v))"
proof -
  let ?i = "pe_opIndex err"
  have leaf: "spends ?i (bdone [] :: json list budgeted) (Some []) 0" by auto
  have str: "spends ?i (bthen (charge_bytes (length s) err msg_bytes) (\<lambda>_. bdone []))
      (Some ([] :: json list)) (length s)" for s
    using spends_then_unit [OF spends_charge(3) [OF order_refl] leaf] by simp
  have arr: "spends ?i (bthen (check_children n err) (\<lambda>_. bdone vs)) (Some vs) n" for n and vs :: "json list"
    using spends_then_unit [OF spends_check_children [OF order_refl] spends_bdone] by simp
  have obj: "spends ?i (bthen (check_children n err) (\<lambda>_. bthen (charge_keys ms err) (\<lambda>_. bdone vs)))
      (Some vs) (n + key_bytes ms)" for n ms and vs :: "json list"
    using spends_then_unit [OF spends_check_children [OF order_refl]
        spends_then_unit [OF spends_charge_keys spends_bdone]] by simp
  let ?body = "case v of
         JString s \<Rightarrow> bthen (charge_bytes (length s) err msg_bytes) (\<lambda>_. bdone [])
       | JArray xs \<Rightarrow> bthen (check_children (length xs) err) (\<lambda>_. bdone (rev xs))
       | JObject ms \<Rightarrow>
           bthen (check_children (length ms) err) (\<lambda>_.
           bthen (charge_keys ms err) (\<lambda>_. bdone (rev (map snd ms))))
       | _ \<Rightarrow> bdone []"
  have body: "spends ?i ?body (Some (node_children v)) (nodes v + clone_bytes v)"
  proof (cases v)
    case (JString s)
    then show ?thesis by (auto intro: spends_weaken [OF str] simp: node_children_def)
  next
    case (JArray xs)
    have "length xs \<le> nodes v + clone_bytes v"
      using length_le_nodes [of xs] JArray by (simp add: total_nodes_def)
    with JArray show ?thesis by (auto intro: spends_weaken [OF arr] simp: node_children_def)
  next
    case (JObject ms)
    have "length ms + key_bytes ms \<le> nodes v + clone_bytes v"
      using length_le_nodes [of "map snd ms"] JObject clone_bytes_object [of ms] nodes_object [of ms]
      by simp
    with JObject show ?thesis by (auto intro: spends_weaken [OF obj] simp: node_children_def)
  qed (auto intro: spends_weaken [OF leaf] simp: node_children_def)
  have "1 + (1 + (sizeof_pjson + (nodes v + clone_bytes v))) \<le> 3 * (nodes v + clone_bytes v)"
    by (cases v) (auto simp: sizeof_pjson_def)
  then show ?thesis
    unfolding measure_node_def
    by (intro spends_weaken [OF spends_then_unit [OF spends_charge(4) spends_then_unit
          [OF spends_charge(2) spends_then_unit [OF spends_charge(3) body]]]])
      auto
qed


lemma node_children_total:
  "nodes v = Suc (total_nodes (node_children v))"
  "total_bytes (node_children v) \<le> clone_bytes v"
  by (cases v; simp add: node_children_def total_nodes_def total_bytes_def comp_def rev_map
      sum_list_addf)+

text \<open>Total cost of a work list: every node pays for itself once.\<close>

fun tree_cost :: "json \<Rightarrow> nat" where
  "tree_cost (JArray xs) = 3 * (nodes (JArray xs) + clone_bytes (JArray xs)) + sum_list (map tree_cost xs)"
| "tree_cost (JObject ms) = 3 * (nodes (JObject ms) + clone_bytes (JObject ms))
     + sum_list (map (\<lambda>m. tree_cost (snd m)) ms)"
| "tree_cost v = 3 * (nodes v + clone_bytes v)"

definition total_cost :: "json list \<Rightarrow> nat" where
  "total_cost vs = sum_list (map tree_cost vs)"

lemma total_cost_simps [simp]:
  "total_cost [] = 0" "total_cost (v # vs) = tree_cost v + total_cost vs"
  "total_cost (us @ vs) = total_cost us + total_cost vs" "total_cost (rev vs) = total_cost vs"
  by (simp_all add: total_cost_def flip: rev_map)

lemma tree_cost_children:
  "tree_cost v = 3 * (nodes v + clone_bytes v) + total_cost (node_children v)"
  by (cases v) (auto simp: node_children_def total_cost_def comp_def)

lemma measure_work_bthen:
  "measure_work (v # work) err =
    bthen (measure_node v err) (\<lambda>children. measure_work (children @ work) err)"
  by (rule ext) (auto simp: bthen_def split: sum.split)

lemma measure_work_Nil: "measure_work [] err = bdone ()"
  by (rule ext) (simp add: bdone_def)

lemma spends_measure_work:
  "spends (pe_opIndex err) (measure_work work err) (Some ()) (total_cost work)"
proof (induction "total_nodes work" arbitrary: work rule: less_induct)
  case less
  show ?case
  proof (cases work)
    case (Cons v vs)
    have "spends (pe_opIndex err) (measure_work (node_children v @ vs) err) (Some ())
        (total_cost (node_children v @ vs))"
      using node_children_total(1) [of v] Cons by (intro less) simp
    then have "spends (pe_opIndex err) (measure_work work err)
        (Option.bind (Some (node_children v)) (\<lambda>_. Some ()))
        (3 * (nodes v + clone_bytes v) + total_cost (node_children v @ vs))"
      unfolding Cons measure_work_bthen
      by (intro spends_bthen [OF spends_measure_node]) auto
    then show ?thesis using Cons by (simp add: tree_cost_children add.assoc)
  qed (auto simp: measure_work_Nil)
qed

lemma spends_measureClone:
  "spends (pe_opIndex err) (measureClone v err) (Some ()) (tree_cost v)"
  using spends_measure_work [of err "[v]"] by (simp add: measureClone_def)

text \<open>A successful measurement charges exactly the nodes and bytes of the clone.\<close>

lemma charge_result [simp]:
  "charge_operations n err msg b = Inr (u, b') \<longleftrightarrow>
    n \<le> operationLimit b - min (pb_operations b) (operationLimit b) \<and>
    b' = b\<lparr>pb_operations := pb_operations b + n\<rparr>"
  "charge_nodes n err msg b = Inr (u, b') \<longleftrightarrow>
    n \<le> nodeLimit b - min (pb_nodes b) (nodeLimit b) \<and> b' = b\<lparr>pb_nodes := pb_nodes b + n\<rparr>"
  "charge_bytes n err msg b = Inr (u, b') \<longleftrightarrow>
    n \<le> byteLimit b - min (pb_bytes b) (byteLimit b) \<and> b' = b\<lparr>pb_bytes := pb_bytes b + n\<rparr>"
  "charge_work n err msg b = Inr (u, b') \<longleftrightarrow>
    n \<le> workLimit b - min (pb_work b) (workLimit b) \<and> b' = b\<lparr>pb_work := pb_work b + n\<rparr>"
  by (auto simp: charge_defs chargePatch_def split: if_splits)

lemma bthen_result [simp]:
  "bthen m f b = Inr (y, b'') \<longleftrightarrow> (\<exists>x b'. m b = Inr (x, b') \<and> f x b' = Inr (y, b''))"
  by (auto simp: bthen_def)

lemma bdone_result [simp]: "bdone x b = Inr (y, b') \<longleftrightarrow> y = x \<and> b' = b"
  by (auto simp: bdone_def)

lemma charge_keys_result:
  "charge_keys ms err b = Inr (u, b') \<Longrightarrow> b' = b\<lparr>pb_bytes := pb_bytes b + key_bytes ms\<rparr>"
proof (induction ms err arbitrary: b rule: charge_keys.induct)
  case (2 k v ms err)
  let ?b1 = "b\<lparr>pb_bytes := pb_bytes b + length k\<rparr>"
  from "2.prems" have "charge_keys ms err ?b1 = Inr (u, b')" by auto
  from "2.IH" [OF this] show ?case by (simp add: key_bytes_def add.assoc)
qed (simp add: key_bytes_def)

lemma measure_node_result:
  assumes "measure_node v err b = Inr (vs, b')"
  shows "pb_nodes b' + total_nodes vs = pb_nodes b + nodes v
    \<and> pb_bytes b' + total_bytes vs = pb_bytes b + clone_bytes v
    \<and> pb_operations b' = pb_operations b"
  using assms
  by (cases v)
    (auto simp: measure_node_def check_children_def total_nodes_def total_bytes_def comp_def
      key_bytes_def sum_list_addf dest!: charge_keys_result split: if_splits)

lemma measure_work_result:
  "measure_work work err b = Inr (u, b') \<Longrightarrow>
    pb_nodes b' = pb_nodes b + total_nodes work \<and> pb_bytes b' = pb_bytes b + total_bytes work
    \<and> pb_operations b' = pb_operations b"
proof (induction work err b arbitrary: b' rule: measure_work.induct)
  case (2 v work err b)
  from "2.prems" obtain vs b1 where node: "measure_node v err b = Inr (vs, b1)"
    and rest: "measure_work (vs @ work) err b1 = Inr (u, b')"
    by (auto split: sum.splits)
  from "2.IH" [OF node refl rest] measure_node_result [OF node] show ?case by simp
qed simp

lemma measureClone_result:
  "measureClone v err b = Inr (u, b') \<Longrightarrow>
    pb_nodes b' = pb_nodes b + nodes v \<and> pb_bytes b' = pb_bytes b + clone_bytes v
    \<and> pb_operations b' = pb_operations b"
  unfolding measureClone_def by (drule measure_work_result) simp

subsection \<open>The measured equality decides \<open>operator==\<close>\<close>

text \<open>\<open>computes i m r\<close>: the step computes \<open>r\<close> at some bounded cost.\<close>

definition computes :: "nat \<Rightarrow> 'a budgeted \<Rightarrow> 'a option \<Rightarrow> bool" where
  "computes i m r \<longleftrightarrow> (\<exists>c. spends i m r c)"

lemma computes_bdone [intro]: "r = Some x \<Longrightarrow> computes i (bdone x) r"
  using spends_bdone by (auto simp: computes_def)

lemma computes_bfail [intro]:
  "\<not> pe_ok e \<Longrightarrow> pe_opIndex e = i \<Longrightarrow> pe_code e \<noteq> ResourceLimit \<Longrightarrow> r = None \<Longrightarrow>
    computes i (bfail e) r"
  using spends_bfail by (auto simp: computes_def)

lemma computes_bthen:
  assumes "computes i m r" and "\<And>x. r = Some x \<Longrightarrow> computes i (f x) (r' x)"
    and "r'' = Option.bind r r'"
  shows "computes i (bthen m f) r''"
proof (cases r)
  case None
  with assms show ?thesis
    using spends_bthen [of i m None _ f r' 0] by (auto simp: computes_def)
next
  case (Some x)
  with assms obtain c c' where "spends i m (Some x) c" "spends i (f x) (r' x) c'"
    by (auto simp: computes_def)
  then have "spends i (bthen m f) (Option.bind (Some x) r') (c + c')"
    by (intro spends_bthen) auto
  with assms(3) Some show ?thesis by (auto simp: computes_def)
qed

lemma computes_unit:
  "spends i m (Some ()) c \<Longrightarrow> computes i (f ()) r \<Longrightarrow> computes i (bthen m f) r"
  unfolding computes_def by (blast intro: spends_then_unit)

lemma computes_charge:
  "computes i (f ()) r \<Longrightarrow> pe_opIndex err = i \<Longrightarrow> computes i (bthen (charge_operations n err msg) f) r"
  "computes i (f ()) r \<Longrightarrow> pe_opIndex err = i \<Longrightarrow> computes i (bthen (charge_nodes n err msg) f) r"
  "computes i (f ()) r \<Longrightarrow> pe_opIndex err = i \<Longrightarrow> computes i (bthen (charge_bytes n err msg) f) r"
  "computes i (f ()) r \<Longrightarrow> pe_opIndex err = i \<Longrightarrow> computes i (bthen (charge_work n err msg) f) r"
  using computes_unit [OF spends_charge(1) [OF order_refl, of err n msg]]
    computes_unit [OF spends_charge(2) [OF order_refl, of err n msg]]
    computes_unit [OF spends_charge(3) [OF order_refl, of err n msg]]
    computes_unit [OF spends_charge(4) [OF order_refl, of err n msg]]
  by simp_all

lemma computes_measureClone:
  "computes i (f ()) r \<Longrightarrow> pe_opIndex err = i \<Longrightarrow> computes i (bthen (measureClone v err) f) r"
  using computes_unit [OF spends_measureClone [of err v]] by simp

lemma computes_patch_member_pairs:
  "computes (pe_opIndex err) (patch_member_pairs ms r err) (Some (member_pairs ms r))"
proof (induction ms)
  case (Cons m ms)
  obtain k v where m: "m = (k, v)" by (cases m)
  show ?case
    by (auto simp: m intro!: computes_charge(4) computes_bdone split: option.split)
      (rule computes_bthen [OF Cons.IH], auto)
qed auto

lemma computes_patch_equal_node:
  "computes (pe_opIndex err) (patch_equal_node l r err) (Some (equal_node l r))"
  unfolding patch_equal_node_def
proof (rule computes_charge(4) [OF _ refl], cases "isNumber l \<and> isNumber r \<or> getType l \<noteq> getType r")
  case False
  then show "computes (pe_opIndex err) (if isNumber l \<and> isNumber r then bdone (if compareNumbers l r \<noteq> 0 then None else Some [])
       else if getType l \<noteq> getType r then bdone None
       else case (l, r) of
           (JString x, JString y) \<Rightarrow>
             bthen (charge_work (max (length x) (length y)) err msg_Work) (\<lambda>_.
               bdone (if x \<noteq> y then None else Some []))
         | (JBool x, JBool y) \<Rightarrow> bdone (if x \<noteq> y then None else Some [])
         | (JArray x, JArray y) \<Rightarrow> bdone (if length x \<noteq> length y then None else Some (zip x y))
         | (JObject x, JObject y) \<Rightarrow>
             if length x \<noteq> length y then bdone None else patch_member_pairs x y err
         | _ \<Rightarrow> bdone (Some [])) (Some (equal_node l r))"
    by (cases l; cases r)
      (auto intro!: computes_bdone computes_charge(4) computes_patch_member_pairs
        simp: equal_node_def isNumber_def)
qed (auto intro!: computes_bdone simp: equal_node_def)

lemma patch_equal_work_bthen:
  "patch_equal_work ((l, r) # pending) err =
    bthen (patch_equal_node l r err) (\<lambda>ps. case ps of
      None \<Rightarrow> bdone False | Some ps \<Rightarrow> patch_equal_work (rev ps @ pending) err)"
  by (rule ext) (auto simp: bthen_def bdone_def split: sum.split option.split)

lemma computes_patch_equal_work:
  "computes (pe_opIndex err) (patch_equal_work pending err) (Some (equal_work pending))"
proof (induction "work_nodes pending" arbitrary: pending rule: less_induct)
  case less
  show ?case
  proof (cases pending)
    case Nil
    have "patch_equal_work [] err = bdone True" by (rule ext) (simp add: bdone_def)
    with Nil show ?thesis by auto
  next
    case (Cons lr ps)
    obtain l r where lr: "lr = (l, r)" by (cases lr)
    have "computes (pe_opIndex err) (patch_equal_work (rev qs @ ps) err) (Some (equal_work pending))"
      if "equal_node l r = Some qs" for qs
      using less [of "rev qs @ ps"] equal_node_nodes [OF that] Cons lr that by simp
    then show ?thesis
      unfolding Cons lr patch_equal_work_bthen
      by (intro computes_bthen [OF computes_patch_equal_node,
            where r' = "\<lambda>_. Some (equal_work ((l, r) # ps))"])
        (auto simp: Cons lr split: option.split)
  qed
qed

lemma computes_patchEqual:
  "computes (pe_opIndex err) (patchEqual l r err) (Some (operator_eq l r))"
  using computes_patch_equal_work [of err "[(l, r)]"] by (simp add: patchEqual_def operator_eq_def)

text \<open>Comparing charges work only.\<close>

lemma patch_member_pairs_result:
  "patch_member_pairs ms r err b = Inr (ps, b') \<Longrightarrow>
    pb_nodes b' = pb_nodes b \<and> pb_bytes b' = pb_bytes b \<and> pb_operations b' = pb_operations b"
  by (induction ms r err arbitrary: ps b b' rule: patch_member_pairs.induct)
    (fastforce split: option.splits)+

lemma patch_equal_node_result:
  "patch_equal_node l r err b = Inr (ps, b') \<Longrightarrow>
    pb_nodes b' = pb_nodes b \<and> pb_bytes b' = pb_bytes b \<and> pb_operations b' = pb_operations b"
  by (cases l; cases r)
    (auto simp: patch_equal_node_def isNumber_def dest!: patch_member_pairs_result split: if_splits)

lemma patchEqual_result:
  "patchEqual l r err b = Inr (eq, b') \<Longrightarrow>
    pb_nodes b' = pb_nodes b \<and> pb_bytes b' = pb_bytes b \<and> pb_operations b' = pb_operations b"
proof -
  have "patch_equal_work work err b = Inr (eq, b') \<Longrightarrow>
    pb_nodes b' = pb_nodes b \<and> pb_bytes b' = pb_bytes b \<and> pb_operations b' = pb_operations b" for work
  proof (induction work err b rule: patch_equal_work.induct)
    case (2 l r pending err b)
    then show ?case
      by (auto split: sum.splits option.splits dest!: patch_equal_node_result)
  qed simp
  then show "patchEqual l r err b = Inr (eq, b') \<Longrightarrow>
      pb_nodes b' = pb_nodes b \<and> pb_bytes b' = pb_bytes b \<and> pb_operations b' = pb_operations b"
    by (simp add: patchEqual_def del: patch_equal_work.simps)
qed

end
