(* ===== verification/Json_Patch.thy ===== *)
theory Json_Patch
  imports Patch_Budget
begin

section \<open>JSON Patch (RFC 6902)\<close>

text \<open>
  \<open>applyPatch\<close> of \<open>pjson_patch.cpp\<close>: every operation runs on a scratch copy, which replaces the
  target only after the last one succeeded. The specification is the RFC's semantics as a
  recursive function of the decoded pointer tokens, without budgets; the refinement says that a
  budgeted run computes it, or stops with a resource error when a budget is too small.
\<close>

subsection \<open>Pointer helpers\<close>

definition decodePatchPointer :: "string \<Rightarrow> bool \<Rightarrow> PatchError \<Rightarrow> string list budgeted" where
  "decodePatchPointer pointer bFrom err =
     bthen (charge_work (length pointer + 1) err msg_work) (\<lambda>_.
       case decodePointer pointer of
         Inr tokens \<Rightarrow> bdone tokens
       | Inl pointerError \<Rightarrow>
           bfail (failPatch (err\<lparr>pe_tokenIndex := ptr_tokenIndex pointerError,
                    pe_token := ptr_token pointerError\<rparr>)
                  (if bFrom then InvalidFrom else InvalidPath) (ptr_message pointerError)))"

definition resolvePatchTokens ::
    "json \<Rightarrow> string list \<Rightarrow> nat \<Rightarrow> string \<Rightarrow> PatchError \<Rightarrow> (loc \<times> json) budgeted" where
  "resolvePatchTokens root tokens n pointer err =
     bthen (charge_work (n + 1) err msg_work) (\<lambda>_.
       case resolvePointerTokens root tokens n pointer of
         Inl pointerError \<Rightarrow> bfail (failPatchFromPointer err pointerError)
       | Inr result \<Rightarrow> bdone result)"

definition msg_append_only :: string where
  "msg_append_only = ''the '-' token is valid only for add destinations''"
definition msg_patch_canonical :: string where
  "msg_patch_canonical = ''array index is not canonical decimal''"
definition msg_patch_range :: string where
  "msg_patch_range = ''array index is out of range''"

text \<open>The index and the append flag.\<close>

definition patchArrayIndex ::
    "json \<Rightarrow> string \<Rightarrow> bool \<Rightarrow> nat \<Rightarrow> PatchError \<Rightarrow> PatchError + (nat \<times> bool)" where
  "patchArrayIndex parent token bAllowAppend tokenIndex err =
     (if token = ''-'' then
        (if bAllowAppend then Inr (pjson_size parent, True)
         else Inl (failPatchAtToken err Patch_InvalidArrayIndex tokenIndex token msg_append_only))
      else
        case parsePointerIndex token of
          PointerIndexInvalid \<Rightarrow>
            Inl (failPatchAtToken err Patch_InvalidArrayIndex tokenIndex token msg_patch_canonical)
        | PointerIndexOverflow \<Rightarrow>
            Inl (failPatchAtToken err Patch_ArrayIndexOutOfRange tokenIndex token msg_patch_range)
        | PointerIndexOk w \<Rightarrow>
            if (if bAllowAppend then unat w > pjson_size parent else unat w \<ge> pjson_size parent)
            then Inl (failPatchAtToken err Patch_ArrayIndexOutOfRange tokenIndex token msg_patch_range)
            else Inr (unat w, False))"

definition lift_error :: "PatchError + 'a \<Rightarrow> 'a budgeted" where
  "lift_error m b = (case m of Inl e \<Rightarrow> Inl e | Inr x \<Rightarrow> Inr (x, b))"

subsection \<open>Add, replace and detach\<close>

definition msg_add_parent :: string where
  "msg_add_parent = ''add destination parent is not a container''"
definition msg_replace_missing :: string where
  "msg_replace_missing = ''replace target does not exist''"
definition msg_replace_parent :: string where
  "msg_replace_parent = ''replace target parent is not a container''"
definition msg_remove_missing :: string where
  "msg_remove_missing = ''remove source does not exist''"
definition msg_remove_parent :: string where
  "msg_remove_parent = ''remove source parent is not a container''"

text \<open>
  Each works on the parent of its target, found by resolving all tokens but the last; the new
  root is the old one with the parent rewritten.
\<close>

definition insert_at :: "nat \<Rightarrow> 'a \<Rightarrow> 'a list \<Rightarrow> 'a list" where
  "insert_at i x xs = take i xs @ x # drop i xs"

definition remove_at :: "nat \<Rightarrow> 'a list \<Rightarrow> 'a list" where
  "remove_at i xs = take i xs @ drop (Suc i) xs"

definition addOwnedAtPointer ::
    "json \<Rightarrow> string list \<Rightarrow> string \<Rightarrow> json \<Rightarrow> PatchError \<Rightarrow> json budgeted" where
  "addOwnedAtPointer root tokens pointer val err =
     (if tokens = [] then bdone val
      else
        let finalIndex = length tokens - 1; token = last tokens
        in bthen (resolvePatchTokens root tokens finalIndex pointer err) (\<lambda>(at, parent).
             case parent of
               JObject ms \<Rightarrow>
                 (case map_of ms token of
                    Some _ \<Rightarrow> bdone (update_at (at @ [Member token]) (\<lambda>_. val) root)
                  | None \<Rightarrow>
                      bthen (charge_bytes (length token) err msg_Bytes) (\<lambda>_.
                        bdone (update_at at (\<lambda>_. JObject (ms @ [(token, val)])) root)))
             | JArray xs \<Rightarrow>
                 bthen (lift_error (patchArrayIndex parent token True finalIndex err)) (\<lambda>(index, append).
                 bthen (charge_work (length xs - index) err msg_Work) (\<lambda>_.
                   bdone (update_at at (\<lambda>_. JArray (insert_at index val xs)) root)))
             | _ \<Rightarrow> bfail (failPatchAtToken err TargetMissing finalIndex token msg_add_parent)))"

definition replaceAtPointer ::
    "json \<Rightarrow> string list \<Rightarrow> string \<Rightarrow> json \<Rightarrow> PatchError \<Rightarrow> json budgeted" where
  "replaceAtPointer root tokens pointer val err =
     (if tokens = [] then bdone val
      else
        let finalIndex = length tokens - 1; token = last tokens
        in bthen (resolvePatchTokens root tokens finalIndex pointer err) (\<lambda>(at, parent).
             case parent of
               JObject ms \<Rightarrow>
                 (case map_of ms token of
                    Some _ \<Rightarrow> bdone (update_at (at @ [Member token]) (\<lambda>_. val) root)
                  | None \<Rightarrow>
                      bfail (failPatchAtToken err TargetMissing finalIndex token msg_replace_missing))
             | JArray xs \<Rightarrow>
                 bthen (lift_error (patchArrayIndex parent token False finalIndex err)) (\<lambda>(index, append).
                   bdone (update_at (at @ [Elem index]) (\<lambda>_. val) root))
             | _ \<Rightarrow> bfail (failPatchAtToken err TargetMissing finalIndex token msg_replace_parent)))"

text \<open>The detached value and the new root.\<close>

definition detachAtPointer ::
    "json \<Rightarrow> string list \<Rightarrow> string \<Rightarrow> PatchError \<Rightarrow> (json \<times> json) budgeted" where
  "detachAtPointer root tokens pointer err =
     (if tokens = [] then
        bthen (charge_nodes 1 err msg_Nodes) (\<lambda>_.
        bthen (charge_bytes sizeof_pjson err msg_Bytes) (\<lambda>_. bdone (root, JNull)))
      else
        let finalIndex = length tokens - 1; token = last tokens
        in bthen (resolvePatchTokens root tokens finalIndex pointer err) (\<lambda>(at, parent).
             case parent of
               JObject ms \<Rightarrow>
                 (case map_of ms token of
                    None \<Rightarrow>
                      bfail (failPatchAtToken err TargetMissing finalIndex token msg_remove_missing)
                  | Some existing \<Rightarrow>
                      bdone (existing, update_at at (\<lambda>_. JObject (AList.delete token ms)) root))
             | JArray xs \<Rightarrow>
                 bthen (lift_error (patchArrayIndex parent token False finalIndex err)) (\<lambda>(index, append).
                 bthen (charge_work (length xs - index - 1) err msg_Work) (\<lambda>_.
                   bdone (xs ! index, update_at at (\<lambda>_. JArray (remove_at index xs)) root)))
             | _ \<Rightarrow> bfail (failPatchAtToken err TargetMissing finalIndex token msg_remove_parent)))"

definition samePointerTokens :: "string list \<Rightarrow> string list \<Rightarrow> bool" where
  "samePointerTokens l r \<longleftrightarrow> l = r"

definition isProperPointerAncestor :: "string list \<Rightarrow> string list \<Rightarrow> bool" where
  "isProperPointerAncestor ancestor descendant \<longleftrightarrow>
     length ancestor < length descendant \<and> take (length ancestor) descendant = ancestor"

subsection \<open>One operation\<close>

definition msg_op_object :: string where
  "msg_op_object = ''JSON Patch operation must be an object''"
definition msg_op_member :: string where
  "msg_op_member = (''JSON Patch operation requires string member 'op'' @ [CHR 0x27])"
definition msg_op_name :: string where
  "msg_op_name = ''JSON Patch operation name is not supported''"
definition msg_op_path :: string where
  "msg_op_path = (''JSON Patch operation requires string member 'path'' @ [CHR 0x27])"
definition msg_op_from :: string where
  "msg_op_from = (''move and copy require string member 'from'' @ [CHR 0x27])"
definition msg_op_value :: string where
  "msg_op_value = (''add, replace, and test require member 'value'' @ [CHR 0x27])"
definition msg_test_failed :: string where
  "msg_test_failed = ''JSON Patch test value does not match target''"
definition msg_move_root :: string where
  "msg_move_root = ''cannot move the document root below itself''"
definition msg_move_descendant :: string where
  "msg_move_descendant = ''cannot move a value into one of its descendants''"
definition msg_patch_exception :: string where
  "msg_patch_exception = ''JSON Patch failed with an internal exception''"

text \<open>\<open>_cloneNode\<close> inside the \<open>try\<close>: an exception becomes the internal error.\<close>

definition clone_value :: "json \<Rightarrow> PatchError \<Rightarrow> json budgeted" where
  "clone_value v err =
     (case cloneNode v of
        Inr c \<Rightarrow> bdone c
      | Inl _ \<Rightarrow> bfail (failPatch err Patch_InternalError msg_patch_exception))"

definition run_operation ::
    "string \<Rightarrow> string list \<Rightarrow> string list \<Rightarrow> json option \<Rightarrow> json \<Rightarrow> PatchError \<Rightarrow> json budgeted" where
  "run_operation op pathTokens fromTokens valueNode scratch err =
     (let val = (case valueNode of Some v \<Rightarrow> v | None \<Rightarrow> JNull)
      in if op = ''add'' then
           bthen (measureClone val err) (\<lambda>_.
           bthen (clone_value val err) (\<lambda>v.
             addOwnedAtPointer scratch pathTokens (pe_path err) v err))
         else if op = ''remove'' then
           bthen (detachAtPointer scratch pathTokens (pe_path err) err) (\<lambda>(removed, scratch').
             bdone scratch')
         else if op = ''replace'' then
           bthen (measureClone val err) (\<lambda>_.
           bthen (clone_value val err) (\<lambda>v.
             replaceAtPointer scratch pathTokens (pe_path err) v err))
         else if op = ''test'' then
           bthen (resolvePatchTokens scratch pathTokens (length pathTokens) (pe_path err) err)
             (\<lambda>(at, target).
           bthen (patchEqual target val err) (\<lambda>equal.
             if \<not> equal then bfail (failPatch err TestFailed msg_test_failed) else bdone scratch))
         else
           bthen (resolvePatchTokens scratch fromTokens (length fromTokens) (pe_from err) err)
             (\<lambda>(at, source).
             if op = ''copy'' then
               bthen (measureClone source err) (\<lambda>_.
               bthen (clone_value source err) (\<lambda>v.
                 addOwnedAtPointer scratch pathTokens (pe_path err) v err))
             else if samePointerTokens fromTokens pathTokens then bdone scratch
             else if fromTokens = [] then
               bfail (failPatch err MoveRootNotAllowed msg_move_root)
             else if isProperPointerAncestor fromTokens pathTokens then
               bfail (failPatch err MoveIntoDescendant msg_move_descendant)
             else
               bthen (detachAtPointer scratch fromTokens (pe_from err) err) (\<lambda>(moved, scratch').
                 addOwnedAtPointer scratch' pathTokens (pe_path err) moved err)))"

definition member_string :: "json \<Rightarrow> string \<Rightarrow> string option" where
  "member_string v k = (case find_key v k of Some (JString s) \<Rightarrow> Some s | _ \<Rightarrow> None)"

definition known_operation :: "string \<Rightarrow> bool" where
  "known_operation op \<longleftrightarrow> op = ''add'' \<or> op = ''remove'' \<or> op = ''replace'' \<or> op = ''move''
     \<or> op = ''copy'' \<or> op = ''test''"

text \<open>The \<open>from\<close> member of a move or copy, decoded, with the error it extends.\<close>

definition decode_from :: "json \<Rightarrow> PatchError \<Rightarrow> (string list \<times> PatchError) budgeted" where
  "decode_from operation err =
     (case member_string operation ''from'' of
        None \<Rightarrow> bfail (failPatch err MissingFrom msg_op_from)
      | Some from \<Rightarrow>
          let err3 = err\<lparr>pe_from := from\<rparr>
          in bthen (decodePatchPointer from True err3) (\<lambda>fromTokens. bdone (fromTokens, err3)))"

definition finish_operation ::
    "json \<Rightarrow> string \<Rightarrow> string list \<Rightarrow> json \<Rightarrow> string list \<times> PatchError \<Rightarrow> json budgeted" where
  "finish_operation operation op pathTokens scratch = (\<lambda>(fromTokens, err).
     if (op = ''add'' \<or> op = ''replace'' \<or> op = ''test'') \<and> find_key operation ''value'' = None
     then bfail (failPatch err MissingValue msg_op_value)
     else run_operation op pathTokens fromTokens (find_key operation ''value'') scratch err)"

definition decode_operation ::
    "json \<Rightarrow> string \<Rightarrow> string \<Rightarrow> json \<Rightarrow> PatchError \<Rightarrow> json budgeted" where
  "decode_operation operation op path scratch err =
     bthen (decodePatchPointer path False err) (\<lambda>pathTokens.
     bthen (if op = ''move'' \<or> op = ''copy'' then decode_from operation err else bdone ([], err))
       (finish_operation operation op pathTokens scratch))"

text \<open>The body of the loop: metadata is validated and decoded before the scratch changes.\<close>

definition apply_operation :: "nat \<Rightarrow> json \<Rightarrow> json \<Rightarrow> json budgeted" where
  "apply_operation operationIndex operation scratch =
     (let err0 = resetPatchError\<lparr>pe_opIndex := operationIndex\<rparr>
      in if \<not> isObject operation then bfail (failPatch err0 OperationNotObject msg_op_object)
         else case member_string operation ''op'' of
           None \<Rightarrow> bfail (failPatch err0 MissingOp msg_op_member)
         | Some op \<Rightarrow>
             let err1 = err0\<lparr>pe_op := op\<rparr>
             in if \<not> known_operation op then bfail (failPatch err1 InvalidOp msg_op_name)
                else case member_string operation ''path'' of
                  None \<Rightarrow> bfail (failPatch err1 MissingPath msg_op_path)
                | Some path \<Rightarrow>
                    decode_operation operation op path scratch (err1\<lparr>pe_path := path\<rparr>))"

fun apply_operations :: "nat \<Rightarrow> json list \<Rightarrow> json \<Rightarrow> json budgeted" where
  "apply_operations i [] scratch = bdone scratch"
| "apply_operations i (operation # operations) scratch =
     bthen (apply_operation i operation scratch) (\<lambda>scratch'.
       apply_operations (Suc i) operations scratch')"

definition msg_patch_array :: string where
  "msg_patch_array = ''JSON Patch document must be an array''"
definition msg_operations :: string where
  "msg_operations = ''JSON Patch operation budget exceeded''"

definition patch_scratch :: "json \<Rightarrow> json \<Rightarrow> json budgeted" where
  "patch_scratch target patch =
     (case patch of
        JArray operations \<Rightarrow>
          bthen (charge_operations (length operations) resetPatchError msg_operations) (\<lambda>_.
          bthen (measureClone target resetPatchError) (\<lambda>_.
          bthen (clone_value target resetPatchError) (\<lambda>scratch.
            apply_operations 0 operations scratch)))
      | _ \<Rightarrow> bfail (failPatch resetPatchError InvalidPatchDocument msg_patch_array))"

text \<open>The result, the target afterwards, and the error record.\<close>

definition applyPatch :: "json \<Rightarrow> json \<Rightarrow> PatchOptions \<Rightarrow> bool \<times> json \<times> PatchError" where
  "applyPatch target patch opts =
     (case patch_scratch target patch (make_budget opts) of
        Inl err \<Rightarrow> (False, target, err)
      | Inr (scratch, _) \<Rightarrow> (True, scratch, resetPatchError))"

subsection \<open>The semantics of RFC 6902\<close>

datatype patch_operation =
    OpAdd "string list" json
  | OpRemove "string list"
  | OpReplace "string list" json
  | OpMove "string list" "string list"  \<comment> \<open>from, path\<close>
  | OpCopy "string list" "string list"  \<comment> \<open>from, path\<close>
  | OpTest "string list" json

definition pointer_tokens :: "string \<Rightarrow> string list option" where
  "pointer_tokens p = (case decodePointer p of Inr ts \<Rightarrow> Some ts | Inl _ \<Rightarrow> None)"

text \<open>The operation an element of the patch document denotes.\<close>

definition operation_of :: "json \<Rightarrow> patch_operation option" where
  "operation_of v =
     (case Option.bind (member_string v ''path'') pointer_tokens of
        None \<Rightarrow> None
      | Some path \<Rightarrow>
          (let from = Option.bind (member_string v ''from'') pointer_tokens;
               val = find_key v ''value''
           in case member_string v ''op'' of
                None \<Rightarrow> None
              | Some op \<Rightarrow>
                  if op = ''add'' then map_option (OpAdd path) val
                  else if op = ''remove'' then Some (OpRemove path)
                  else if op = ''replace'' then map_option (OpReplace path) val
                  else if op = ''test'' then map_option (OpTest path) val
                  else if op = ''move'' then map_option (\<lambda>f. OpMove f path) from
                  else if op = ''copy'' then map_option (\<lambda>f. OpCopy f path) from
                  else None))"

text \<open>An edit of the parent, carried to the parent along the tokens.\<close>

fun rfc_edit :: "(json \<Rightarrow> string \<Rightarrow> json option) \<Rightarrow> json \<Rightarrow> string list \<Rightarrow> json option" where
  "rfc_edit edit v [] = None"
| "rfc_edit edit v (t # ts) =
     (if ts = [] then edit v t
      else case token_step v t of
          None \<Rightarrow> None
        | Some s \<Rightarrow>
            (case child v s of
               None \<Rightarrow> None
             | Some c \<Rightarrow> map_option (\<lambda>c'. update_child s (\<lambda>_. c') v) (rfc_edit edit c ts)))"

definition insertion_index :: "json list \<Rightarrow> string \<Rightarrow> nat option" where
  "insertion_index xs t =
     (if t = ''-'' then Some (length xs)
      else if canonical_decimal t \<and> digits_value 0 t < 2 ^ 64 \<and> digits_value 0 t \<le> length xs
      then Some (digits_value 0 t) else None)"

definition add_child :: "json \<Rightarrow> json \<Rightarrow> string \<Rightarrow> json option" where
  "add_child x v t =
     (case v of
        JObject ms \<Rightarrow> Some (JObject (AList.update t x ms))
      | JArray xs \<Rightarrow> map_option (\<lambda>i. JArray (insert_at i x xs)) (insertion_index xs t)
      | _ \<Rightarrow> None)"

definition remove_child :: "json \<Rightarrow> string \<Rightarrow> json option" where
  "remove_child v t =
     (case v of
        JObject ms \<Rightarrow> if map_of ms t = None then None else Some (JObject (AList.delete t ms))
      | JArray xs \<Rightarrow> map_option (\<lambda>i. JArray (remove_at i xs)) (element_index xs t)
      | _ \<Rightarrow> None)"

definition replace_child :: "json \<Rightarrow> json \<Rightarrow> string \<Rightarrow> json option" where
  "replace_child x v t = map_option (\<lambda>s. update_child s (\<lambda>_. x) v) (token_step v t)"

definition rfc_add :: "json \<Rightarrow> json \<Rightarrow> string list \<Rightarrow> json option" where
  "rfc_add x v ts = (if ts = [] then Some x else rfc_edit (add_child x) v ts)"

text \<open>Removing the document itself leaves null, the library's choice.\<close>

definition rfc_remove :: "json \<Rightarrow> string list \<Rightarrow> json option" where
  "rfc_remove v ts = (if ts = [] then Some JNull else rfc_edit remove_child v ts)"

definition rfc_replace :: "json \<Rightarrow> json \<Rightarrow> string list \<Rightarrow> json option" where
  "rfc_replace x v ts = (if ts = [] then Some x else rfc_edit (replace_child x) v ts)"

definition value_at :: "json \<Rightarrow> string list \<Rightarrow> json option" where
  "value_at v ts = Option.bind (eval_pointer v ts) (subnode v)"

fun rfc6902_operation :: "json \<Rightarrow> patch_operation \<Rightarrow> json option" where
  "rfc6902_operation v (OpAdd ts x) = rfc_add x v ts"
| "rfc6902_operation v (OpRemove ts) = rfc_remove v ts"
| "rfc6902_operation v (OpReplace ts x) = rfc_replace x v ts"
| "rfc6902_operation v (OpTest ts x) =
     Option.bind (value_at v ts) (\<lambda>y. if operator_eq y x then Some v else None)"
| "rfc6902_operation v (OpCopy from ts) = Option.bind (value_at v from) (\<lambda>x. rfc_add x v ts)"
| "rfc6902_operation v (OpMove from ts) =
     Option.bind (value_at v from) (\<lambda>x.
       if from = ts then Some v
       else if take (length from) ts = from then None
       else Option.bind (rfc_remove v from) (\<lambda>v'. rfc_add x v' ts))"

text \<open>One element of the document: it must denote an operation, and the operation must apply.\<close>

definition rfc6902_step :: "json \<Rightarrow> json \<Rightarrow> json option" where
  "rfc6902_step v p = Option.bind (operation_of p) (rfc6902_operation v)"

fun rfc6902 :: "json \<Rightarrow> json list \<Rightarrow> json option" where
  "rfc6902 v [] = Some v"
| "rfc6902 v (p # ps) = Option.bind (rfc6902_step v p) (\<lambda>v'. rfc6902 v' ps)"

subsection \<open>The edits, through the resolved parent\<close>

lemma rfc_edit_snoc:
  "rfc_edit edit v (ts @ [t]) =
    Option.bind (eval_pointer v ts) (\<lambda>l. Option.bind (subnode v l) (\<lambda>parent.
      map_option (\<lambda>p. update_at l (\<lambda>_. p) v) (edit parent t)))"
proof (induction ts arbitrary: v)
  case (Cons u ts)
  show ?case
  proof (cases "token_step v u")
    case (Some s)
    then obtain c where c: "child v s = Some c" using token_step_child by blast
    have "rfc_edit edit v ((u # ts) @ [t]) =
        map_option (\<lambda>c'. update_child s (\<lambda>_. c') v) (rfc_edit edit c (ts @ [t]))"
      using Some c by simp
    also have "\<dots> = Option.bind (eval_pointer c ts) (\<lambda>l. Option.bind (subnode c l) (\<lambda>parent.
        map_option (\<lambda>p. update_child s (\<lambda>_. update_at l (\<lambda>_. p) c) v) (edit parent t)))"
      unfolding Cons.IH by (auto simp: option.map_comp comp_def split: bind_splits)
    also have "\<dots> = Option.bind (eval_pointer c ts) (\<lambda>l. Option.bind (subnode c l) (\<lambda>parent.
        map_option (\<lambda>p. update_child s (update_at l (\<lambda>_. p)) v) (edit parent t)))"
    proof -
      have "update_child s (\<lambda>_. update_at l (\<lambda>_. p) c) v = update_child s (update_at l (\<lambda>_. p)) v"
        for l p using c by (intro update_child_cong) simp
      then show ?thesis by simp
    qed
    finally show ?thesis using Some c by (auto simp: map_option_case split: bind_splits option.splits)
  qed simp
qed (auto simp: map_option_case split: option.splits)

lemma resolve_value:
  "computes (pe_opIndex err) (resolvePatchTokens root ts n p err)
    (Option.bind (eval_pointer root (take n ts)) (\<lambda>l. map_option (Pair l) (subnode root l)))"
  unfolding resolvePatchTokens_def
proof (rule computes_charge(4) [OF _ refl])
  show "computes (pe_opIndex err)
      (case resolvePointerTokens root ts n p of
         Inl pointerError \<Rightarrow> bfail (failPatchFromPointer err pointerError)
       | Inr result \<Rightarrow> bdone result)
      (Option.bind (eval_pointer root (take n ts)) (\<lambda>l. map_option (Pair l) (subnode root l)))"
  proof (cases "resolvePointerTokens root ts n p")
    case (Inr lw)
    then obtain l w where "lw = (l, w)" "eval_pointer root (take n ts) = Some l"
        "subnode root l = Some w"
      unfolding resolvePointerTokens_def
      using resolve_tokens_eval [of p 0 root "[]" "take n ts" "fst lw" "snd lw"] by (cases lw) auto
    with Inr show ?thesis by auto
  next
    case (Inl e)
    then have "eval_pointer root (take n ts) = None"
      unfolding resolvePointerTokens_def
      using resolve_tokens_eval [of p 0 root "[]" "take n ts"] eval_pointer_subnode
      by (metis append_Nil option.exhaust sum.distinct(1))
    moreover have "pe_code (failPatchFromPointer err e) \<noteq> ResourceLimit"
      by (cases "ptr_code e") (simp_all add: failPatchFromPointer_def)
    ultimately show ?thesis
      using Inl by (auto simp: failPatchFromPointer_def)
  qed
qed

lemma index_token_ok:
  assumes "parsePointerIndex t = PointerIndexOk w"
  shows "canonical_decimal t" "digits_value 0 t = unat w" "unat w < 2 ^ 64"
  using assms unat_less_2p64 [of w] by (auto simp: parsePointerIndex_value unat_of_nat take_bit_nat_eq_self)

lemma index_token_bad:
  assumes "parsePointerIndex t = PointerIndexInvalid \<or> parsePointerIndex t = PointerIndexOverflow"
  shows "\<not> (canonical_decimal t \<and> digits_value 0 t < 2 ^ 64)"
  using assms parsePointerIndex_value [of t "word_of_nat (digits_value 0 t)"] by auto

lemma patchArrayIndex_add:
  "patchArrayIndex (JArray xs) t True k err = Inr ib \<Longrightarrow> insertion_index xs t = Some (fst ib)"
  "patchArrayIndex (JArray xs) t True k err = Inl e \<Longrightarrow> insertion_index xs t = None \<and>
    \<not> pe_ok e \<and> pe_opIndex e = pe_opIndex err \<and> pe_code e \<noteq> ResourceLimit"
  using index_token_ok [of t] index_token_bad [of t]
  by (cases "parsePointerIndex t"; force simp: patchArrayIndex_def insertion_index_def split: if_splits)+

lemma patchArrayIndex_target:
  "patchArrayIndex (JArray xs) t False k err = Inr ib \<Longrightarrow> element_index xs t = Some (fst ib)"
  "patchArrayIndex (JArray xs) t False k err = Inl e \<Longrightarrow> element_index xs t = None \<and>
    \<not> pe_ok e \<and> pe_opIndex e = pe_opIndex err \<and> pe_code e \<noteq> ResourceLimit"
  using index_token_ok [of t] index_token_bad [of t] index_token_not_append [of t]
  by (cases "parsePointerIndex t"; force simp: patchArrayIndex_def element_index_def split: if_splits)+

subsection \<open>The code computes the edits\<close>

definition at_parent :: "json \<Rightarrow> string list \<Rightarrow> (loc \<Rightarrow> json \<Rightarrow> 'a option) \<Rightarrow> 'a option" where
  "at_parent root ts g =
     Option.bind (eval_pointer root (butlast ts)) (\<lambda>l. Option.bind (subnode root l) (g l))"

lemma rfc_edit_parent:
  "ts \<noteq> [] \<Longrightarrow> rfc_edit edit root ts =
    at_parent root ts (\<lambda>l p. map_option (\<lambda>p'. update_at l (\<lambda>_. p') root) (edit p (last ts)))"
  using rfc_edit_snoc [of edit root "butlast ts" "last ts"] by (simp add: at_parent_def)

lemma eval_pointer_snoc:
  "eval_pointer v (ts @ [t]) =
    Option.bind (eval_pointer v ts) (\<lambda>l. Option.bind (subnode v l) (\<lambda>p.
      map_option (\<lambda>s. l @ [s]) (token_step p t)))"
proof (induction ts arbitrary: v)
  case Nil
  then show ?case using token_step_child by (cases "token_step v t") fastforce+
qed (auto simp: map_option_case split: option.splits bind_splits)

lemma value_at_parent:
  assumes "ts \<noteq> []"
  shows "value_at root ts =
    at_parent root ts (\<lambda>l p. Option.bind (token_step p (last ts)) (child p))"
proof -
  have "eval_pointer root ts = eval_pointer root (butlast ts @ [last ts])" using assms by simp
  then show ?thesis
    unfolding value_at_def at_parent_def eval_pointer_snoc
    by (cases "eval_pointer root (butlast ts)"; cases "subnode root (the (eval_pointer root (butlast ts)))";
        cases "token_step (the (subnode root (the (eval_pointer root (butlast ts))))) (last ts)")
      (auto simp: subnode_append split: option.splits)
qed

lemma computes_parent:
  assumes "ts \<noteq> []"
    and "\<And>at p. subnode root at = Some p \<Longrightarrow> computes (pe_opIndex err) (f (at, p)) (g at p)"
  shows "computes (pe_opIndex err)
    (bthen (resolvePatchTokens root ts (length ts - 1) pointer err) f) (at_parent root ts g)"
proof (rule computes_bthen [OF resolve_value, where r' = "\<lambda>(at, p). g at p"])
  fix x
  assume "Option.bind (eval_pointer root (take (length ts - 1) ts))
      (\<lambda>l. map_option (Pair l) (subnode root l)) = Some x"
  then show "computes (pe_opIndex err) (f x) (case x of (at, p) \<Rightarrow> g at p)"
    using assms(2) by (auto split: bind_splits)
qed (auto simp: at_parent_def butlast_conv_take split: bind_splits option.splits)

lemma computes_index:
  assumes "\<And>ib. m = Inr ib \<Longrightarrow> r = Some (fst ib)"
    and "\<And>e. m = Inl e \<Longrightarrow> r = None \<and> \<not> pe_ok e \<and> pe_opIndex e = i \<and> pe_code e \<noteq> ResourceLimit"
    and "\<And>n append. r = Some n \<Longrightarrow> computes i (f (n, append)) (g n)"
  shows "computes i (bthen (lift_error m) f) (Option.bind r g)"
proof (cases m)
  case (Inl e)
  then have "bthen (lift_error m) f = bfail e"
    by (simp add: fun_eq_iff bthen_def lift_error_def bfail_def)
  with assms(2) [OF Inl] show ?thesis by auto
next
  case (Inr ib)
  then have "bthen (lift_error m) f = f ib"
    by (simp add: fun_eq_iff bthen_def lift_error_def)
  with assms(1) [OF Inr] assms(3) [of "fst ib" "snd ib"] show ?thesis by simp
qed

lemma write_member:
  assumes "subnode root at = Some (JObject ms)" and "map_of ms t = Some w"
  shows "update_at (at @ [Member t]) (\<lambda>_. v) root = update_at at (\<lambda>_. JObject (AList.update t v ms)) root"
  unfolding update_at_append using assms
  by (intro update_at_cong) (simp add: map_entry_update update_at_Nil)

lemma write_element:
  assumes "subnode root at = Some (JArray xs)" and "i < length xs"
  shows "update_at (at @ [Elem i]) (\<lambda>_. v) root = update_at at (\<lambda>_. update_child (Elem i) (\<lambda>_. v) (JArray xs)) root"
  unfolding update_at_append using assms by (intro update_at_cong) (simp add: update_at_Nil)

lemma computes_add:
  assumes "pe_opIndex err = i"
  shows "computes i (addOwnedAtPointer root ts pointer x err) (rfc_add x root ts)"
proof (cases "ts = []")
  case False
  let ?g = "\<lambda>l p. map_option (\<lambda>p'. update_at l (\<lambda>_. p') root) (add_child x p (last ts))"
  have "computes (pe_opIndex err) (addOwnedAtPointer root ts pointer x err) (at_parent root ts ?g)"
    unfolding addOwnedAtPointer_def Let_def if_not_P [OF False]
  proof (rule computes_parent [OF False], unfold prod.case)
    fix at p
    assume at: "subnode root at = Some p"
    show "computes (pe_opIndex err)
       (case p of
          JArray xs \<Rightarrow>
            bthen (lift_error (patchArrayIndex p (last ts) True (length ts - 1) err)) (\<lambda>(index, append).
            bthen (charge_work (length xs - index) err msg_Work) (\<lambda>_.
              bdone (update_at at (\<lambda>_. JArray (insert_at index x xs)) root)))
        | JObject ms \<Rightarrow>
            (case map_of ms (last ts) of
               None \<Rightarrow>
                 bthen (charge_bytes (length (last ts)) err msg_Bytes) (\<lambda>_.
                   bdone (update_at at (\<lambda>_. JObject (ms @ [(last ts, x)])) root))
             | Some _ \<Rightarrow> bdone (update_at (at @ [Member (last ts)]) (\<lambda>_. x) root))
        | _ \<Rightarrow> bfail (failPatchAtToken err TargetMissing (length ts - 1) (last ts) msg_add_parent))
       (?g at p)"
    proof (cases p)
      case (JArray xs)
      have g: "?g at p = Option.bind (insertion_index xs (last ts))
          (\<lambda>i. Some (update_at at (\<lambda>_. JArray (insert_at i x xs)) root))"
        by (cases "insertion_index xs (last ts)") (simp_all add: JArray add_child_def)
      show ?thesis
        unfolding g unfolding JArray json.case
        by (rule computes_index)
          (auto dest: patchArrayIndex_add intro!: computes_charge(4) computes_bdone)
    next
      case (JObject ms)
      with at show ?thesis
        by (auto simp: add_child_def write_member update_new_key split: option.split
            intro!: computes_charge(3) computes_bdone)
    qed (auto simp: add_child_def)
  qed
  then show ?thesis using False assms by (simp add: rfc_add_def rfc_edit_parent)
qed (auto simp: addOwnedAtPointer_def rfc_add_def)

lemma computes_replace:
  assumes "pe_opIndex err = i"
  shows "computes i (replaceAtPointer root ts pointer x err) (rfc_replace x root ts)"
proof (cases "ts = []")
  case False
  let ?g = "\<lambda>l p. map_option (\<lambda>p'. update_at l (\<lambda>_. p') root) (replace_child x p (last ts))"
  have "computes (pe_opIndex err) (replaceAtPointer root ts pointer x err) (at_parent root ts ?g)"
    unfolding replaceAtPointer_def Let_def if_not_P [OF False]
  proof (rule computes_parent [OF False], unfold prod.case)
    fix at p
    assume at: "subnode root at = Some p"
    show "computes (pe_opIndex err)
       (case p of
          JArray xs \<Rightarrow>
            bthen (lift_error (patchArrayIndex p (last ts) False (length ts - 1) err)) (\<lambda>(index, append).
              bdone (update_at (at @ [Elem index]) (\<lambda>_. x) root))
        | JObject ms \<Rightarrow>
            (case map_of ms (last ts) of
               None \<Rightarrow> bfail (failPatchAtToken err TargetMissing (length ts - 1) (last ts) msg_replace_missing)
             | Some _ \<Rightarrow> bdone (update_at (at @ [Member (last ts)]) (\<lambda>_. x) root))
        | _ \<Rightarrow> bfail (failPatchAtToken err TargetMissing (length ts - 1) (last ts) msg_replace_parent))
       (?g at p)"
    proof (cases p)
      case (JArray xs)
      have g: "?g at p = Option.bind (element_index xs (last ts))
          (\<lambda>i. Some (update_at at (\<lambda>_. update_child (Elem i) (\<lambda>_. x) (JArray xs)) root))"
        by (cases "element_index xs (last ts)")
          (simp_all add: JArray replace_child_def token_step_def)
      show ?thesis
        unfolding g unfolding JArray json.case
        by (rule computes_index)
          (use at JArray in \<open>auto dest: patchArrayIndex_target intro!: computes_bdone
            simp: write_element element_index_def split: if_splits\<close>)
    next
      case (JObject ms)
      with at show ?thesis
        by (auto simp: replace_child_def token_step_def write_member map_entry_update
            split: option.split intro!: computes_bdone)
    qed (auto simp: replace_child_def token_step_def)
  qed
  then show ?thesis using False assms by (simp add: rfc_replace_def rfc_edit_parent)
qed (auto simp: replaceAtPointer_def rfc_replace_def)

text \<open>Detaching yields the value the tokens evaluate to, and the document without it.\<close>

lemma computes_detach:
  assumes "pe_opIndex err = i"
  shows "computes i (detachAtPointer root ts pointer err)
    (Option.bind (value_at root ts) (\<lambda>x. map_option (Pair x) (rfc_remove root ts)))"
proof (cases "ts = []")
  case True
  then show ?thesis
    using assms by (auto simp: detachAtPointer_def rfc_remove_def value_at_def
        intro!: computes_charge(2,3) computes_bdone)
next
  case False
  let ?g = "\<lambda>l p. Option.bind (Option.bind (token_step p (last ts)) (child p)) (\<lambda>x.
      map_option (\<lambda>p'. (x, update_at l (\<lambda>_. p') root)) (remove_child p (last ts)))"
  have "computes (pe_opIndex err) (detachAtPointer root ts pointer err) (at_parent root ts ?g)"
    unfolding detachAtPointer_def Let_def if_not_P [OF False]
  proof (rule computes_parent [OF False], unfold prod.case)
    fix at p
    show "computes (pe_opIndex err)
       (case p of
          JArray xs \<Rightarrow>
            bthen (lift_error (patchArrayIndex p (last ts) False (length ts - 1) err)) (\<lambda>(index, append).
            bthen (charge_work (length xs - index - 1) err msg_Work) (\<lambda>_.
              bdone (xs ! index, update_at at (\<lambda>_. JArray (remove_at index xs)) root)))
        | JObject ms \<Rightarrow>
            (case map_of ms (last ts) of
               None \<Rightarrow> bfail (failPatchAtToken err TargetMissing (length ts - 1) (last ts) msg_remove_missing)
             | Some existing \<Rightarrow>
                 bdone (existing, update_at at (\<lambda>_. JObject (AList.delete (last ts) ms)) root))
        | _ \<Rightarrow> bfail (failPatchAtToken err TargetMissing (length ts - 1) (last ts) msg_remove_parent))
       (?g at p)"
    proof (cases p)
      case (JArray xs)
      have g: "?g at p = Option.bind (element_index xs (last ts))
          (\<lambda>i. Some (xs ! i, update_at at (\<lambda>_. JArray (remove_at i xs)) root))"
        by (cases "element_index xs (last ts)")
          (auto simp: JArray remove_child_def token_step_def element_index_def split: if_splits)
      show ?thesis
        unfolding g unfolding JArray json.case
        by (rule computes_index)
          (auto dest: patchArrayIndex_target intro!: computes_charge(4) computes_bdone)
    next
      case (JObject ms)
      then show ?thesis
        by (auto simp: remove_child_def token_step_def split: option.split intro!: computes_bdone)
    qed (auto simp: remove_child_def token_step_def)
  qed
  moreover have "at_parent root ts ?g =
      Option.bind (value_at root ts) (\<lambda>x. map_option (Pair x) (rfc_remove root ts))"
    using False
    by (auto simp: rfc_remove_def rfc_edit_parent value_at_parent at_parent_def option.map_comp comp_def
        split: bind_splits)
  ultimately show ?thesis using assms by simp
qed

lemma computes_clone:
  "wf_json v \<Longrightarrow> pe_opIndex err = i \<Longrightarrow> computes i (clone_value v err) (Some v)"
  by (auto simp: clone_value_def cloneNode_def copyContentsInto_id)

lemma clone_then: "wf_json v \<Longrightarrow> bthen (clone_value v err) f = f v"
  by (rule ext) (simp add: clone_value_def cloneNode_def copyContentsInto_id bthen_def bdone_def)

lemma value_removable:
  "value_at root ts = Some x \<Longrightarrow> rfc_remove root ts \<noteq> None"
proof (cases "ts = []")
  case False
  assume "value_at root ts = Some x"
  then show ?thesis
    using False
    by (auto simp: value_at_parent rfc_remove_def rfc_edit_parent at_parent_def token_step_def
        remove_child_def split: bind_splits json.splits if_splits)
qed (simp add: rfc_remove_def)

subsection \<open>A run of operations\<close>

lemma computes_decode:
  "pe_opIndex err = i \<Longrightarrow> computes i (decodePatchPointer p bFrom err) (pointer_tokens p)"
  by (auto simp: decodePatchPointer_def pointer_tokens_def failPatch_def split: sum.split
      intro!: computes_charge(4) computes_bdone computes_bfail)

lemma computes_resolve_all:
  "pe_opIndex err = i \<Longrightarrow>
    computes i (resolvePatchTokens root ts (length ts) p err)
      (Option.bind (eval_pointer root ts) (\<lambda>l. map_option (Pair l) (subnode root l)))"
  using resolve_value [of err root ts "length ts" p] by simp

lemma wf_value_at: "wf_json v \<Longrightarrow> value_at v ts = Some x \<Longrightarrow> wf_json x"
  by (auto simp: value_at_def intro: wf_json_subnode split: bind_splits)

lemma run_add:
  "wf_json x \<Longrightarrow> pe_opIndex err = i \<Longrightarrow>
    computes i (run_operation ''add'' path from (Some x) v err) (rfc6902_operation v (OpAdd path x))"
  by (auto simp: run_operation_def clone_then intro!: computes_measureClone computes_add)

lemma run_replace:
  "wf_json x \<Longrightarrow> pe_opIndex err = i \<Longrightarrow>
    computes i (run_operation ''replace'' path from (Some x) v err)
      (rfc6902_operation v (OpReplace path x))"
  by (auto simp: run_operation_def clone_then intro!: computes_measureClone computes_replace)

lemma rfc_remove_missing: "value_at v path = None \<Longrightarrow> rfc_remove v path = None"
proof -
  assume none: "value_at v path = None"
  then have "path \<noteq> []" by (auto simp: value_at_def)
  with none show ?thesis
    using token_step_child
    by (fastforce simp: value_at_parent rfc_remove_def rfc_edit_parent at_parent_def token_step_def
        remove_child_def element_index_def split: bind_splits json.splits if_splits)
qed

lemma run_remove:
  assumes "pe_opIndex err = i"
  shows "computes i (run_operation ''remove'' path from val v err)
    (rfc6902_operation v (OpRemove path))"
proof -
  have run: "run_operation ''remove'' path from val v err =
      bthen (detachAtPointer v path (pe_path err) err) (\<lambda>(removed, v'). bdone v')"
    by (simp add: run_operation_def)
  show ?thesis
    unfolding run
    by (rule computes_bthen [OF computes_detach [OF assms], where r' = "\<lambda>(x, v'). Some v'"])
      (use rfc_remove_missing [of v path] value_removable [of v path] in \<open>auto split: bind_splits\<close>)
qed

lemma run_test:
  assumes "pe_opIndex err = i"
  shows "computes i (run_operation ''test'' path from (Some x) v err)
    (rfc6902_operation v (OpTest path x))"
proof -
  let ?r = "\<lambda>t. if operator_eq t x then Some v else None"
  have eq: "computes i (bthen (patchEqual t x err) (\<lambda>equal.
      if \<not> equal then bfail (failPatch err TestFailed msg_test_failed) else bdone v)) (?r t)" for t
    by (rule computes_bthen [where r' = "\<lambda>b. if b then Some v else None" and r = "Some (operator_eq t x)"])
      (use assms computes_patchEqual [of err t x] in \<open>auto intro!: computes_bfail\<close>)
  have run: "run_operation ''test'' path from (Some x) v err =
      bthen (resolvePatchTokens v path (length path) (pe_path err) err) (\<lambda>(at, target).
      bthen (patchEqual target x err) (\<lambda>equal.
        if \<not> equal then bfail (failPatch err TestFailed msg_test_failed) else bdone v))"
    by (simp add: run_operation_def)
  show ?thesis
    unfolding run
    by (rule computes_bthen [OF computes_resolve_all [OF assms], where r' = "\<lambda>(l, t). ?r t"])
      (use eq in \<open>auto simp: value_at_def split: bind_splits option.splits\<close>)
qed

lemma run_copy:
  assumes "wf_json v" and "pe_opIndex err = i"
  shows "computes i (run_operation ''copy'' path from val v err) (rfc6902_operation v (OpCopy from path))"
proof -
  have step: "computes i (bthen (measureClone x err) (\<lambda>_. bthen (clone_value x err) (\<lambda>x.
      addOwnedAtPointer v path (pe_path err) x err))) (rfc_add x v path)"
    if "subnode v l = Some x" for l x
    using assms(2) wf_json_subnode [OF assms(1) that]
    by (auto simp: clone_then intro!: computes_measureClone computes_add)
  have run: "run_operation ''copy'' path from val v err =
      bthen (resolvePatchTokens v from (length from) (pe_from err) err) (\<lambda>(at, source).
      bthen (measureClone source err) (\<lambda>_. bthen (clone_value source err) (\<lambda>x.
        addOwnedAtPointer v path (pe_path err) x err)))"
    by (simp add: run_operation_def)
  show ?thesis
    unfolding run
    by (rule computes_bthen [OF computes_resolve_all [OF assms(2)], where r' = "\<lambda>(l, x). rfc_add x v path"])
      (auto simp: step value_at_def split: bind_splits option.splits)
qed

lemma proper_ancestor: "take (length f) p = f \<Longrightarrow> f \<noteq> p \<Longrightarrow> isProperPointerAncestor f p"
  by (metis isProperPointerAncestor_def le_neq_implies_less length_take min.cobounded1 take_all_iff
      linorder_le_less_linear)

lemma run_move:
  assumes "pe_opIndex err = i"
  shows "computes i (run_operation ''move'' path from val v err) (rfc6902_operation v (OpMove from path))"
proof -
  let ?m = "if samePointerTokens from path then bdone v
       else if from = [] then bfail (failPatch err MoveRootNotAllowed msg_move_root)
       else if isProperPointerAncestor from path
         then bfail (failPatch err MoveIntoDescendant msg_move_descendant)
       else bthen (detachAtPointer v from (pe_from err) err) (\<lambda>(moved, v').
              addOwnedAtPointer v' path (pe_path err) moved err)"
  let ?r = "\<lambda>x. if from = path then Some v
       else if take (length from) path = from then None
       else Option.bind (rfc_remove v from) (\<lambda>v'. rfc_add x v' path)"
  have step: "computes i ?m (?r x)" if "value_at v from = Some x" for x
  proof (cases "from = path \<or> take (length from) path = from")
    case True
    then show ?thesis
      using proper_ancestor [of "from" path] assms
      by (cases "from = path") (auto simp: samePointerTokens_def)
  next
    case False
    then have "from \<noteq> []" by auto
    with False have code: "\<not> samePointerTokens from path" "\<not> isProperPointerAncestor from path"
      by (auto simp: samePointerTokens_def isProperPointerAncestor_def)
    have "computes i (bthen (detachAtPointer v from (pe_from err) err) (\<lambda>(moved, v').
        addOwnedAtPointer v' path (pe_path err) moved err))
        (Option.bind (rfc_remove v from) (\<lambda>v'. rfc_add x v' path))"
      by (rule computes_bthen [OF computes_detach [OF assms],
            where r' = "\<lambda>(m, v'). rfc_add m v' path"])
        (auto simp: that computes_add [OF assms] split: bind_splits)
    with False code \<open>from \<noteq> []\<close> show ?thesis by simp
  qed
  have run: "run_operation ''move'' path from val v err =
      bthen (resolvePatchTokens v from (length from) (pe_from err) err) (\<lambda>(at, source). ?m)"
    by (simp add: run_operation_def)
  show ?thesis
    unfolding run
  proof (rule computes_bthen [OF computes_resolve_all [OF assms], where r' = "\<lambda>(l, x). ?r x"])
    fix lx
    assume "Option.bind (eval_pointer v from) (\<lambda>l. map_option (Pair l) (subnode v l)) = Some lx"
    then obtain l x where "lx = (l, x)" "value_at v from = Some x"
      by (auto simp: value_at_def split: bind_splits)
    with step [of x] show "computes i (case lx of (at, source) \<Rightarrow> ?m) (case lx of (l, x) \<Rightarrow> ?r x)"
      by simp
  qed (auto simp: value_at_def split: bind_splits option.splits)
qed

lemma member_value_wf: "wf_json v \<Longrightarrow> find_key v k = Some x \<Longrightarrow> wf_json x"
  by (cases v) (auto simp: list_all_iff dest!: map_of_mem)

lemma decode_from_then:
  assumes "pe_opIndex err = i"
    and "\<And>ft err'. Option.bind (member_string v ''from'') pointer_tokens = Some ft \<Longrightarrow>
      pe_opIndex err' = i \<Longrightarrow> computes i (f (ft, err')) (r ft)"
  shows "computes i (bthen (decode_from v err) f)
    (Option.bind (Option.bind (member_string v ''from'') pointer_tokens) r)"
proof (cases "member_string v ''from''")
  case None
  then have "bthen (decode_from v err) f = bfail (failPatch err MissingFrom msg_op_from)"
    by (simp add: fun_eq_iff decode_from_def bthen_def bfail_def)
  with None assms(1) show ?thesis by auto
next
  case (Some p)
  let ?err = "err\<lparr>pe_from := p\<rparr>"
  have "bthen (decode_from v err) f = bthen (decodePatchPointer p True ?err) (\<lambda>ft. f (ft, ?err))"
  proof
    fix b
    show "bthen (decode_from v err) f b = bthen (decodePatchPointer p True ?err) (\<lambda>ft. f (ft, ?err)) b"
      by (cases "decodePatchPointer p True ?err b")
        (auto simp: Some decode_from_def Let_def bthen_def bdone_def)
  qed
  moreover have "computes i (bthen (decodePatchPointer p True ?err) (\<lambda>ft. f (ft, ?err)))
      (Option.bind (pointer_tokens p) r)"
    by (rule computes_bthen [OF computes_decode]) (use assms Some in auto)
  ultimately show ?thesis using Some by simp
qed

lemma bdone_then: "bthen (bdone x) f = f x"
  by (simp add: fun_eq_iff bthen_def bdone_def)

text \<open>The operation denoted, for each operation name.\<close>

lemma operation_of_name:
  assumes "member_string v ''op'' = Some op" and "member_string v ''path'' = Some path"
    and "pointer_tokens path = Some pt"
  shows "op = ''add'' \<Longrightarrow> operation_of v = map_option (OpAdd pt) (find_key v ''value'')"
    "op = ''remove'' \<Longrightarrow> operation_of v = Some (OpRemove pt)"
    "op = ''replace'' \<Longrightarrow> operation_of v = map_option (OpReplace pt) (find_key v ''value'')"
    "op = ''test'' \<Longrightarrow> operation_of v = map_option (OpTest pt) (find_key v ''value'')"
    "op = ''move'' \<Longrightarrow> operation_of v =
      map_option (\<lambda>f. OpMove f pt) (Option.bind (member_string v ''from'') pointer_tokens)"
    "op = ''copy'' \<Longrightarrow> operation_of v =
      map_option (\<lambda>f. OpCopy f pt) (Option.bind (member_string v ''from'') pointer_tokens)"
  using assms by (simp_all add: operation_of_def)

lemma computes_finish:
  assumes "wf_json v" and "wf_json scratch" and err: "pe_opIndex err = i"
  shows "computes i (finish_operation v ''add'' pt scratch (ft, err))
      (Option.bind (map_option (OpAdd pt) (find_key v ''value'')) (rfc6902_operation scratch))"
    "computes i (finish_operation v ''remove'' pt scratch (ft, err))
      (rfc6902_operation scratch (OpRemove pt))"
    "computes i (finish_operation v ''replace'' pt scratch (ft, err))
      (Option.bind (map_option (OpReplace pt) (find_key v ''value'')) (rfc6902_operation scratch))"
    "computes i (finish_operation v ''test'' pt scratch (ft, err))
      (Option.bind (map_option (OpTest pt) (find_key v ''value'')) (rfc6902_operation scratch))"
    "computes i (finish_operation v ''move'' pt scratch (ft, err))
      (rfc6902_operation scratch (OpMove ft pt))"
    "computes i (finish_operation v ''copy'' pt scratch (ft, err))
      (rfc6902_operation scratch (OpCopy ft pt))"
proof -
  have missing: "computes i (bfail (failPatch err MissingValue msg_op_value)) None"
    using err by auto
  show "computes i (finish_operation v ''add'' pt scratch (ft, err))
      (Option.bind (map_option (OpAdd pt) (find_key v ''value'')) (rfc6902_operation scratch))"
    using missing run_add [OF member_value_wf [OF assms(1)] err]
    by (cases "find_key v ''value''") (simp_all add: finish_operation_def)
  show "computes i (finish_operation v ''replace'' pt scratch (ft, err))
      (Option.bind (map_option (OpReplace pt) (find_key v ''value'')) (rfc6902_operation scratch))"
    using missing run_replace [OF member_value_wf [OF assms(1)] err]
    by (cases "find_key v ''value''") (simp_all add: finish_operation_def)
  show "computes i (finish_operation v ''test'' pt scratch (ft, err))
      (Option.bind (map_option (OpTest pt) (find_key v ''value'')) (rfc6902_operation scratch))"
    using missing run_test [OF err]
    by (cases "find_key v ''value''") (simp_all add: finish_operation_def del: rfc6902_operation.simps)
  show "computes i (finish_operation v ''remove'' pt scratch (ft, err))
      (rfc6902_operation scratch (OpRemove pt))"
    using run_remove [OF err] by (simp add: finish_operation_def del: rfc6902_operation.simps)
  show "computes i (finish_operation v ''move'' pt scratch (ft, err))
      (rfc6902_operation scratch (OpMove ft pt))"
    using run_move [OF err] by (simp add: finish_operation_def del: rfc6902_operation.simps)
  show "computes i (finish_operation v ''copy'' pt scratch (ft, err))
      (rfc6902_operation scratch (OpCopy ft pt))"
    using run_copy [OF assms(2) err] by (simp add: finish_operation_def del: rfc6902_operation.simps)
qed

lemma computes_decode_operation:
  assumes "wf_json v" and "wf_json scratch" and err: "pe_opIndex err = i"
    and op: "member_string v ''op'' = Some op" "known_operation op"
    and path: "member_string v ''path'' = Some path"
  shows "computes i (decode_operation v op path scratch err)
    (Option.bind (operation_of v) (rfc6902_operation scratch))"
proof -
  let ?m = "if op = ''move'' \<or> op = ''copy'' then decode_from v err else bdone ([], err)"
  note finish = computes_finish [OF assms(1,2)]
  have "computes i (bthen ?m (finish_operation v op pt scratch))
      (Option.bind (operation_of v) (rfc6902_operation scratch))"
    if pt: "pointer_tokens path = Some pt" for pt
  proof -
    note names = operation_of_name [OF op(1) path pt]
    have moved: "computes i (bthen (decode_from v err) (finish_operation v name pt scratch))
        (Option.bind (map_option (\<lambda>f. F f pt) (Option.bind (member_string v ''from'') pointer_tokens))
          (rfc6902_operation scratch))"
      if "\<And>ft err'. pe_opIndex err' = i \<Longrightarrow> computes i (finish_operation v name pt scratch (ft, err'))
          (rfc6902_operation scratch (F ft pt))" for F name
      unfolding bind_map_option comp_def by (rule decode_from_then [OF err]) (rule that)
    consider "op = ''add''" | "op = ''remove''" | "op = ''replace''" | "op = ''move''"
      | "op = ''copy''" | "op = ''test''"
      using op(2) unfolding known_operation_def by iprover
    then show ?thesis
    proof cases
      case 1 show ?thesis unfolding names(1) [OF 1] using finish(1) [OF err] by (simp add: 1 bdone_then)
    next
      case 2 show ?thesis unfolding names(2) [OF 2] using finish(2) [OF err] by (simp add: 2 bdone_then)
    next
      case 3 show ?thesis unfolding names(3) [OF 3] using finish(3) [OF err] by (simp add: 3 bdone_then)
    next
      case 4 show ?thesis unfolding names(5) [OF 4] using moved [where F = OpMove and name = "''move''", OF finish(5)] by (simp add: 4)
    next
      case 5 show ?thesis unfolding names(6) [OF 5] using moved [where F = OpCopy and name = "''copy''", OF finish(6)] by (simp add: 5)
    next
      case 6 show ?thesis unfolding names(4) [OF 6] using finish(4) [OF err] by (simp add: 6 bdone_then)
    qed
  qed
  moreover have "pointer_tokens path = None \<Longrightarrow> operation_of v = None"
    using path by (simp add: operation_of_def)
  ultimately show ?thesis
    unfolding decode_operation_def
    by (intro computes_bthen [OF computes_decode [OF err],
          where r' = "\<lambda>_. Option.bind (operation_of v) (rfc6902_operation scratch)"])
      (auto split: bind_splits)
qed

lemma computes_operation:
  assumes "wf_json v" and "wf_json scratch"
  shows "computes i (apply_operation i v scratch)
    (Option.bind (operation_of v) (rfc6902_operation scratch))"
proof -
  let ?err0 = "resetPatchError\<lparr>pe_opIndex := i\<rparr>"
  have not_object: "\<not> isObject v \<Longrightarrow> member_string v ''op'' = None"
    by (cases v) (auto simp: member_string_def isObject_def)
  show ?thesis
  proof (cases "member_string v ''op''")
    case None
    then have "operation_of v = None"
      by (simp add: operation_of_def Let_def split: option.split)
    with None show ?thesis
      by (auto simp: apply_operation_def Let_def intro: computes_bfail)
  next
    case op: (Some op)
    with not_object have obj: "isObject v" by auto
    show ?thesis
    proof (cases "known_operation op")
      case False
      then have "operation_of v = None"
        using op by (simp add: operation_of_def Let_def known_operation_def split: option.split)
      with False op obj show ?thesis
        by (auto simp: apply_operation_def Let_def intro: computes_bfail)
    next
      case known: True
      show ?thesis
      proof (cases "member_string v ''path''")
        case None
        then have "operation_of v = None" by (simp add: operation_of_def)
        with None op obj known show ?thesis
          by (auto simp: apply_operation_def Let_def intro: computes_bfail)
      next
        case (Some path)
        have "apply_operation i v scratch = decode_operation v op path scratch
            (?err0\<lparr>pe_op := op, pe_path := path\<rparr>)"
          using Some op obj known by (simp add: apply_operation_def Let_def)
        then show ?thesis
          using computes_decode_operation [OF assms _ op known Some,
              of "?err0\<lparr>pe_op := op, pe_path := path\<rparr>" i] by simp
      qed
    qed
  qed
qed

subsection \<open>Whole patches\<close>

lemma wf_rfc_edit:
  assumes edit: "\<And>p t p'. wf_json p \<Longrightarrow> edit p t = Some p' \<Longrightarrow> wf_json p'"
  shows "wf_json v \<Longrightarrow> rfc_edit edit v ts = Some v' \<Longrightarrow> wf_json v'"
proof (induction ts arbitrary: v v')
  case (Cons t ts)
  show ?case
  proof (cases "ts = []")
    case False
    with Cons.prems(2) obtain s c c' where c: "token_step v t = Some s" "child v s = Some c"
      "rfc_edit edit c ts = Some c'" "v' = update_child s (\<lambda>_. c') v"
      by (auto split: option.splits)
    have "wf_json c'"
      using Cons.IH [OF wf_json_child [OF Cons.prems(1) c(2)] c(3)] .
    with c(4) Cons.prems(1) show ?thesis by (simp add: wf_json_update_child)
  next
    case True
    with Cons.prems edit [of v t v'] show ?thesis by simp
  qed
qed simp

lemma wf_insert_at: "wf_json (JArray xs) \<Longrightarrow> wf_json x \<Longrightarrow> wf_json (JArray (insert_at i x xs))"
  by (auto simp: insert_at_def list_all_iff dest: in_set_takeD in_set_dropD)

lemma wf_remove_at: "wf_json (JArray xs) \<Longrightarrow> wf_json (JArray (remove_at i xs))"
  by (auto simp: remove_at_def list_all_iff dest: in_set_takeD in_set_dropD)

lemma wf_update_member:
  "wf_json (JObject ms) \<Longrightarrow> wf_json x \<Longrightarrow> wf_json (JObject (AList.update k x ms))"
  using set_update_subset [of k x ms] by (fastforce simp: list_all_iff)

lemma wf_delete_member: "wf_json (JObject ms) \<Longrightarrow> wf_json (JObject (AList.delete k ms))"
  using set_delete_subset [of k ms] by (auto simp: list_all_iff)

lemma wf_add_child: "wf_json x \<Longrightarrow> wf_json p \<Longrightarrow> add_child x p t = Some p' \<Longrightarrow> wf_json p'"
  by (cases p)
    (auto simp: add_child_def wf_update_member wf_insert_at simp del: wf_json.simps)

lemma wf_remove_child: "wf_json p \<Longrightarrow> remove_child p t = Some p' \<Longrightarrow> wf_json p'"
  by (cases p)
    (auto simp: remove_child_def wf_delete_member wf_remove_at simp del: wf_json.simps split: if_splits)

lemma wf_replace_child: "wf_json x \<Longrightarrow> wf_json p \<Longrightarrow> replace_child x p t = Some p' \<Longrightarrow> wf_json p'"
  by (auto simp: replace_child_def wf_json_update_child)

lemma wf_rfc_add: "wf_json x \<Longrightarrow> wf_json v \<Longrightarrow> rfc_add x v ts = Some v' \<Longrightarrow> wf_json v'"
  unfolding rfc_add_def
  by (cases "ts = []") (simp, metis wf_rfc_edit wf_add_child)

lemma wf_rfc_remove: "wf_json v \<Longrightarrow> rfc_remove v ts = Some v' \<Longrightarrow> wf_json v'"
  unfolding rfc_remove_def
  by (cases "ts = []") (auto, metis wf_rfc_edit wf_remove_child)

lemma wf_rfc_replace: "wf_json x \<Longrightarrow> wf_json v \<Longrightarrow> rfc_replace x v ts = Some v' \<Longrightarrow> wf_json v'"
  unfolding rfc_replace_def
  by (cases "ts = []") (simp, metis wf_rfc_edit wf_replace_child)

fun operation_wf :: "patch_operation \<Rightarrow> bool" where
  "operation_wf (OpAdd ts x) = wf_json x"
| "operation_wf (OpReplace ts x) = wf_json x"
| "operation_wf _ = True"

lemma wf_operation:
  assumes "operation_of v = Some op" and "wf_json v"
  shows "operation_wf op"
proof -
  have "wf_json x" if "op = OpAdd ts x \<or> op = OpReplace ts x" for ts x
  proof -
    have "find_key v ''value'' = Some x"
      using that assms(1) unfolding operation_of_def Let_def
      by (simp split: option.splits if_splits) (elim disjE exE; simp)+
    with assms(2) show ?thesis using member_value_wf by blast
  qed
  then show ?thesis by (cases op) auto
qed

lemma wf_rfc6902_operation:
  assumes "wf_json v" and "operation_wf op" and "rfc6902_operation v op = Some v'"
  shows "wf_json v'"
proof (cases op)
  case (OpAdd ts x)
  with assms show ?thesis using wf_rfc_add [of x v ts v'] by simp
next
  case (OpRemove ts)
  with assms show ?thesis using wf_rfc_remove [of v ts v'] by simp
next
  case (OpReplace ts x)
  with assms show ?thesis using wf_rfc_replace [of x v ts v'] by simp
next
  case (OpTest ts x)
  with assms show ?thesis by (simp split: bind_splits if_splits)
next
  case (OpCopy f ts)
  with assms(3) obtain x where "value_at v f = Some x" "rfc_add x v ts = Some v'"
    by (auto split: bind_splits)
  with assms(1) show ?thesis using wf_rfc_add [of x v ts v'] wf_value_at [of v f x] by simp
next
  case (OpMove f ts)
  show ?thesis
  proof (cases "f = ts")
    case False
    with OpMove assms(3) obtain x w where "value_at v f = Some x" "rfc_remove v f = Some w"
      "rfc_add x w ts = Some v'"
      by (auto split: bind_splits if_splits)
    with assms(1) show ?thesis
      using wf_value_at [of v f x] wf_rfc_remove [of v f w] wf_rfc_add [of x w ts v'] by simp
  next
    case True
    with OpMove assms show ?thesis by (simp split: bind_splits)
  qed
qed

text \<open>
  What a run of operations returns, in any budget: the patched document, or a failure at the
  first operation that cannot be applied, or a resource failure that some allowance \<open>c\<close> avoids.
\<close>

definition run_outcome ::
    "nat \<Rightarrow> json \<Rightarrow> json list \<Rightarrow> PatchBudget \<Rightarrow> nat \<Rightarrow> PatchError + (json \<times> PatchBudget) \<Rightarrow> bool" where
  "run_outcome i v ops b c out =
     (case out of
        Inl e \<Rightarrow> \<exists>k < length ops. \<not> pe_ok e \<and> pe_opIndex e = i + k \<and>
          rfc6902 v (take k ops) \<noteq> None \<and>
          (if pe_code e = ResourceLimit then \<not> spare b c else rfc6902 v (take (Suc k) ops) = None)
      | Inr (v', b') \<Rightarrow> rfc6902 v ops = Some v' \<and> advances b b' c)"

lemma computes_step:
  "wf_json p \<Longrightarrow> wf_json v \<Longrightarrow> computes i (apply_operation i p v) (rfc6902_step v p)"
  unfolding rfc6902_step_def by (rule computes_operation)

lemma wf_rfc6902_step: "wf_json p \<Longrightarrow> wf_json v \<Longrightarrow> rfc6902_step v p = Some v' \<Longrightarrow> wf_json v'"
  unfolding rfc6902_step_def
  by (cases "operation_of p") (auto dest: wf_operation wf_rfc6902_operation)

lemma run_outcome_first:
  assumes "spends i (apply_operation i p v) (rfc6902_step v p) c1"
    and "budget_ok b" and "apply_operation i p v b = Inl e"
  shows "run_outcome i v (p # ops) b (c1 + c2) (apply_operations i (p # ops) v b)"
proof -
  have run: "apply_operations i (p # ops) v b = Inl e" using assms(3) by (simp add: bthen_def)
  have "pe_code e = ResourceLimit \<Longrightarrow> \<not> spare b (c1 + c2)"
    using spends_fail [OF assms] by (auto simp: spare_def)
  then show ?thesis
    unfolding run run_outcome_def sum.case
    by (intro exI [of _ 0]) (use spends_fail [OF assms] in auto)
qed

lemma run_outcome_later:
  assumes r: "rfc6902_step v p = Some v'" and adv: "advances b b' c1"
    and step: "apply_operation i p v b = Inr (v', b')"
    and rest: "run_outcome (Suc i) v' ops b' c2 (apply_operations (Suc i) ops v' b')"
  shows "run_outcome i v (p # ops) b (c1 + c2) (apply_operations i (p # ops) v b)"
proof -
  have run: "apply_operations i (p # ops) v b = apply_operations (Suc i) ops v' b'"
    using step by (simp add: bthen_def)
  show ?thesis
  proof (cases "apply_operations (Suc i) ops v' b'")
    case (Inl e)
    with rest obtain k where k: "k < length ops" "\<not> pe_ok e" "pe_opIndex e = Suc i + k"
      "rfc6902 v' (take k ops) \<noteq> None"
      "if pe_code e = ResourceLimit then \<not> spare b' c2 else rfc6902 v' (take (Suc k) ops) = None"
      unfolding run_outcome_def by auto
    have "spare b (c1 + c2) \<Longrightarrow> spare b' c2"
      using adv by (auto simp: budget_simps)
    with k r show ?thesis
      unfolding run Inl run_outcome_def sum.case
      by (intro exI [of _ "Suc k"]) (auto split: if_splits)
  next
    case (Inr vb)
    then obtain v2 b2 where out: "apply_operations (Suc i) ops v' b' = Inr (v2, b2)"
      by (cases vb) auto
    with rest have "rfc6902 v' ops = Some v2" "advances b' b2 c2"
      unfolding run_outcome_def by auto
    then show ?thesis
      unfolding run out run_outcome_def using r adv by (simp add: budget_simps)
  qed
qed

lemma apply_operations_outcome:
  "list_all wf_json ops \<Longrightarrow> wf_json v \<Longrightarrow>
    \<exists>c. \<forall>b. budget_ok b \<longrightarrow> run_outcome i v ops b c (apply_operations i ops v b)"
proof (induction ops arbitrary: i v)
  case Nil
  then show ?case by (auto simp: run_outcome_def bdone_def budget_simps)
next
  case (Cons p ops)
  then have "wf_json p" by simp
  with computes_step [OF this Cons.prems(2)] obtain c1
    where c1: "spends i (apply_operation i p v) (rfc6902_step v p) c1"
    unfolding computes_def by blast
  have "\<exists>c2. \<forall>v' b. rfc6902_step v p = Some v' \<longrightarrow> budget_ok b \<longrightarrow>
      run_outcome (Suc i) v' ops b c2 (apply_operations (Suc i) ops v' b)"
  proof (cases "rfc6902_step v p")
    case (Some v')
    then have "wf_json v'" using wf_rfc6902_step [OF \<open>wf_json p\<close> Cons.prems(2)] by blast
    with Cons.IH [of v' "Suc i"] Cons.prems(1) Some show ?thesis by auto
  qed simp
  then obtain c2 where c2: "\<And>v' b. rfc6902_step v p = Some v' \<Longrightarrow> budget_ok b \<Longrightarrow>
      run_outcome (Suc i) v' ops b c2 (apply_operations (Suc i) ops v' b)" by blast
  have "run_outcome i v (p # ops) b (c1 + c2) (apply_operations i (p # ops) v b)"
    if b: "budget_ok b" for b
  proof (cases "apply_operation i p v b")
    case (Inl e)
    then show ?thesis by (rule run_outcome_first [OF c1 b])
  next
    case (Inr vb)
    then obtain v' b' where step: "apply_operation i p v b = Inr (v', b')" by (cases vb) auto
    from spends_return [OF c1 b step] have r: "rfc6902_step v p = Some v'" "advances b b' c1" by auto
    then have "budget_ok b'" by (simp add: advances_def)
    from run_outcome_later [OF r step c2 [OF r(1) this]] show ?thesis .
  qed
  then show ?case by blast
qed

end
