(* ===== verification/Merge_Patch.thy ===== *)
theory Merge_Patch
  imports Json_Patch Json_Edit
begin

section \<open>JSON Merge Patch (RFC 7396)\<close>

text \<open>
  \<open>applyMergePatch\<close> of \<open>pjson_patch.cpp\<close>: an explicit work list of target object and patch object
  pairs. Merging one object writes its own members and postpones the nested object patches; the
  target of a postponed merge is a location in the scratch document. The specification is the
  RFC's recursive function.
\<close>

subsection \<open>The code\<close>

definition insertObjectChild :: "json \<Rightarrow> string \<Rightarrow> json \<Rightarrow> json option" where
  "insertObjectChild obj key c =
     (case obj of
        JObject ms \<Rightarrow>
          Some (JObject (case map_of ms key of
            Some _ \<Rightarrow> AList.map_entry key (\<lambda>_. c) ms
          | None \<Rightarrow> ms @ [(key, c)]))
      | _ \<Rightarrow> None)"

definition msg_merge_operation :: string where
  "msg_merge_operation = ''JSON Merge Patch operation budget exceeded''"
definition msg_merge_work :: string where
  "msg_merge_work = ''JSON Merge Patch work budget exceeded''"
definition msg_merge_bytes :: string where
  "msg_merge_bytes = ''JSON Merge Patch cloned-byte budget exceeded''"
definition msg_merge_nodes :: string where
  "msg_merge_nodes = ''JSON Merge Patch cloned-node budget exceeded''"
definition msg_merge_exception :: string where
  "msg_merge_exception = ''JSON Merge Patch failed with an internal exception''"
definition msg_merge_member :: string where
  "msg_merge_member = ''JSON Merge Patch could not update an object member''"

definition clone_merged :: "json \<Rightarrow> PatchError \<Rightarrow> json budgeted" where
  "clone_merged v err =
     (case cloneNode v of
        Inr c \<Rightarrow> bdone c
      | Inl _ \<Rightarrow> bfail (failPatch err Patch_InternalError msg_merge_exception))"

definition insert_merged :: "json \<Rightarrow> string \<Rightarrow> json \<Rightarrow> PatchError \<Rightarrow> json budgeted" where
  "insert_merged target key c err =
     (case insertObjectChild target key c of
        Some target' \<Rightarrow> bdone target'
      | None \<Rightarrow> bfail (failPatch err Patch_InternalError msg_merge_member))"

text \<open>
  One member of a patch object: the target object afterwards, and the nested object patch it
  postpones, if any.
\<close>

definition merge_member ::
    "json \<Rightarrow> string \<Rightarrow> json \<Rightarrow> PatchError \<Rightarrow> (json \<times> (string \<times> members) option) budgeted" where
  "merge_member target key patchValue err =
     bthen (charge_operations 1 err msg_merge_operation) (\<lambda>_.
     bthen (charge_work 1 err msg_merge_work) (\<lambda>_.
     bthen (charge_bytes (length key) err msg_merge_bytes) (\<lambda>_.
       case patchValue of
         JNull \<Rightarrow> bdone (snd (erase_key target key), None)
       | JObject pms \<Rightarrow>
           bthen
             (case find_key target key of
                None \<Rightarrow>
                  bthen (charge_nodes 1 err msg_merge_nodes) (\<lambda>_.
                  bthen (charge_bytes sizeof_pjson err msg_merge_bytes) (\<lambda>_.
                    insert_merged target key (emptyValue jsonObject) err))
              | Some targetValue \<Rightarrow>
                  bdone (if \<not> isObject targetValue
                    then update_child (Member key) (\<lambda>_. emptyValue jsonObject) target
                    else target))
             (\<lambda>target'. bdone (target', Some (key, pms)))
       | _ \<Rightarrow>
           bthen (measureClone patchValue err) (\<lambda>_.
           bthen (clone_merged patchValue err) (\<lambda>replacement.
           bthen (insert_merged target key replacement err) (\<lambda>target'.
             bdone (target', None)))))))"

fun merge_object ::
    "json \<Rightarrow> members \<Rightarrow> PatchError \<Rightarrow> (json \<times> (string \<times> members) list) budgeted" where
  "merge_object target [] err = bdone (target, [])"
| "merge_object target ((key, patchValue) # ms) err =
     bthen (merge_member target key patchValue err) (\<lambda>(target1, item).
     bthen (merge_object target1 ms err) (\<lambda>(target2, items).
       bdone (target2, (case item of None \<Rightarrow> items | Some i \<Rightarrow> i # items))))"

type_synonym merge_items = "(loc \<times> members) list"

definition merge_item_nodes :: "merge_items \<Rightarrow> nat" where
  "merge_item_nodes work = sum_list (map (\<lambda>(at, ms). nodes (JObject ms)) work)"

definition pushed_items :: "loc \<Rightarrow> (string \<times> members) list \<Rightarrow> merge_items" where
  "pushed_items at items = map (\<lambda>(key, ms). (at @ [Member key], ms)) items"

text \<open>The nested patches an object postpones.\<close>

definition nested_patches :: "members \<Rightarrow> (string \<times> members) list" where
  "nested_patches ms = [(k, pms). (k, JObject pms) \<leftarrow> ms]"

lemma nested_patches_Nil [simp]: "nested_patches [] = []"
  by (simp add: nested_patches_def)

lemma nested_patches_Cons [simp]:
  "nested_patches ((k, v) # ms) =
    (case v of JObject pms \<Rightarrow> [(k, pms)] | _ \<Rightarrow> []) @ nested_patches ms"
  by (cases v) (simp_all add: nested_patches_def)

lemma merge_member_item:
  "merge_member target key v err b = Inr ((t, item), b') \<Longrightarrow>
    item = (case v of JObject pms \<Rightarrow> Some (key, pms) | _ \<Rightarrow> None)"
  by (cases v) (auto simp: merge_member_def)

lemma merge_object_items:
  "merge_object target ms err b = Inr ((t, items), b') \<Longrightarrow> items = nested_patches ms"
proof (induction target ms err arbitrary: t items b b' rule: merge_object.induct)
  case (2 target key v ms err)
  from "2.prems" obtain t1 item b1 t2 items2 where
    m: "merge_member target key v err b = Inr ((t1, item), b1)"
    and r: "merge_object t1 ms err b1 = Inr ((t2, items2), b')"
    and i: "items = (case item of None \<Rightarrow> items2 | Some i \<Rightarrow> i # items2)"
    by auto
  from "2.IH" [OF r] merge_member_item [OF m] i show ?case
    by (cases v) auto
qed simp

lemma nested_nodes: "merge_item_nodes (pushed_items at (nested_patches ms)) \<le> sum_list (map (\<lambda>m. nodes (snd m)) ms)"
proof (induction ms)
  case (Cons m ms)
  then show ?case
    by (cases m; cases "snd m")
      (auto simp: merge_item_nodes_def pushed_items_def)
qed (simp add: merge_item_nodes_def pushed_items_def)

lemma merge_item_nodes_simps [simp]:
  "merge_item_nodes [] = 0"
  "merge_item_nodes (i # w) = nodes (JObject (snd i)) + merge_item_nodes w"
  "merge_item_nodes (v @ w) = merge_item_nodes v + merge_item_nodes w"
  "merge_item_nodes (rev w) = merge_item_nodes w"
  by (auto simp: merge_item_nodes_def split_beta simp flip: rev_map)

text \<open>
  The work list. A target location that no longer exists would be a dangling pointer; no run
  reaches that branch, since the result below is the specification's.
\<close>

function merge_work :: "merge_items \<Rightarrow> json \<Rightarrow> PatchError \<Rightarrow> json budgeted" where
  "merge_work [] root err b = Inr (root, b)"
| "merge_work ((at, pms) # work) root err b =
     (case subnode root at of
        None \<Rightarrow> Inl (failPatch err Patch_InternalError msg_merge_exception)
      | Some target \<Rightarrow>
          (case merge_object (if isObject target then target else emptyValue jsonObject) pms err b of
             Inl e \<Rightarrow> Inl e
           | Inr ((target', items), b') \<Rightarrow>
               merge_work (rev (pushed_items at items) @ work) (update_at at (\<lambda>_. target') root) err b'))"
  by pat_completeness auto

termination
proof (relation "measure (\<lambda>(work, root, err, b). merge_item_nodes work)")
  fix at pms work root err b target x b' y target' items
  assume "merge_object (if isObject target then target else emptyValue jsonObject) pms err b = Inr x"
    "(y, b') = x" "(target', items) = y"
  then have "items = nested_patches pms" by (auto dest!: merge_object_items)
  then show "((rev (pushed_items at items) @ work, update_at at (\<lambda>_. target') root, err, b'),
      ((at, pms) # work, root, err, b)) \<in> measure (\<lambda>(work, root, err, b). merge_item_nodes work)"
    using nested_nodes [of at pms] by simp
qed simp

definition applyMergePatchTo :: "json \<Rightarrow> json \<Rightarrow> PatchError \<Rightarrow> json budgeted" where
  "applyMergePatchTo target patch err =
     (case patch of
        JObject pms \<Rightarrow> merge_work [([], pms)] target err
      | _ \<Rightarrow>
          bthen (charge_operations 1 err msg_merge_operation) (\<lambda>_.
          bthen (measureClone patch err) (\<lambda>_.
            clone_merged patch err)))"

definition merge_scratch :: "json \<Rightarrow> json \<Rightarrow> json budgeted" where
  "merge_scratch target patch =
     bthen (measureClone target resetPatchError) (\<lambda>_.
     bthen (clone_merged target resetPatchError) (\<lambda>scratch.
       applyMergePatchTo scratch patch resetPatchError))"

definition applyMergePatch :: "json \<Rightarrow> json \<Rightarrow> PatchOptions \<Rightarrow> bool \<times> json \<times> PatchError" where
  "applyMergePatch target patch opts =
     (case merge_scratch target patch (make_budget opts) of
        Inl err \<Rightarrow> (False, target, err)
      | Inr (scratch, _) \<Rightarrow> (True, scratch, resetPatchError))"

subsection \<open>The semantics of RFC 7396\<close>

fun merge_patch :: "json \<Rightarrow> json \<Rightarrow> json"
  and merge_members :: "members \<Rightarrow> members \<Rightarrow> members" where
  "merge_patch target (JObject pms) =
     JObject (merge_members (case target of JObject ms \<Rightarrow> ms | _ \<Rightarrow> []) pms)"
| "merge_patch target patch = patch"
| "merge_members ms [] = ms"
| "merge_members ms ((k, v) # pms) =
     merge_members
       (if v = JNull then AList.delete k ms
        else AList.update k
          (merge_patch (case map_of ms k of Some t \<Rightarrow> t | None \<Rightarrow> JNull) v) ms) pms"

text \<open>The same with the nested object patches postponed, as the code has them.\<close>

definition shallow_value :: "json \<Rightarrow> json \<Rightarrow> json" where
  "shallow_value target v =
     (case v of JObject _ \<Rightarrow> if isObject target then target else JObject [] | _ \<Rightarrow> v)"

fun shallow_members :: "members \<Rightarrow> members \<Rightarrow> members" where
  "shallow_members ms [] = ms"
| "shallow_members ms ((k, v) # pms) =
     shallow_members
       (if v = JNull then AList.delete k ms
        else AList.update k (shallow_value (case map_of ms k of Some t \<Rightarrow> t | None \<Rightarrow> JNull) v) ms)
       pms"

definition finish_item :: "string \<times> members \<Rightarrow> json \<Rightarrow> json" where
  "finish_item = (\<lambda>(k, pms). update_child (Member k) (\<lambda>t. merge_patch t (JObject pms)))"

definition finish_work :: "loc \<times> members \<Rightarrow> json \<Rightarrow> json" where
  "finish_work = (\<lambda>(at, pms). update_at at (\<lambda>t. merge_patch t (JObject pms)))"

lemma finish_item_object:
  "finish_item (k, pms) (JObject ms) =
    JObject (AList.map_entry k (\<lambda>t. merge_patch t (JObject pms)) ms)"
  by (simp add: finish_item_def)

lemma map_entry_update_other:
  "k \<noteq> l \<Longrightarrow> map_of ms k \<noteq> None \<Longrightarrow>
    AList.map_entry k f (AList.update l v ms) = AList.update l v (AList.map_entry k f ms)"
  by (induction ms) (auto split: if_splits)

lemma map_entry_delete_other:
  "k \<noteq> l \<Longrightarrow> AList.map_entry k f (AList.delete l ms) = AList.delete l (AList.map_entry k f ms)"
  by (induction ms) (auto split: if_splits)

text \<open>A write to a present member commutes with the rest of the patch when the patch does not name it.\<close>

lemma shallow_members_entry:
  "k \<notin> fst ` set pms \<Longrightarrow> map_of ms k \<noteq> None \<Longrightarrow>
    AList.map_entry k f (shallow_members ms pms) = shallow_members (AList.map_entry k f ms) pms"
proof (induction ms pms rule: shallow_members.induct)
  case (2 ms l v pms)
  then show ?case
    by (auto simp: map_entry_delete_other map_entry_update_other)
qed simp

lemma merge_patch_shallow:
  "merge_patch (shallow_value t (JObject pms)) (JObject pms) = merge_patch t (JObject pms)"
  by (cases t) (auto simp: shallow_value_def isObject_def)

lemma finish_items:
  "distinct_keys pms \<Longrightarrow>
    fold finish_item (nested_patches pms) (JObject (shallow_members ms pms)) =
      JObject (merge_members ms pms)"
proof (induction pms arbitrary: ms)
  case (Cons m pms)
  obtain k v where m: "m = (k, v)" by (cases m)
  note IH = Cons.IH
  have keys: "k \<notin> fst ` set pms" "distinct_keys pms" using Cons.prems m by auto
  show ?case
  proof (cases "\<exists>qms. v = JObject qms")
    case True
    then obtain qms where v: "v = JObject qms" by blast
    let ?t = "case map_of ms k of Some t \<Rightarrow> t | None \<Rightarrow> JNull"
    let ?ms = "AList.update k (shallow_value ?t v) ms"
    have "AList.map_entry k (\<lambda>t. merge_patch t v) (shallow_members ?ms pms) =
        shallow_members (AList.map_entry k (\<lambda>t. merge_patch t v) ?ms) pms"
      using keys by (intro shallow_members_entry) auto
    also have "AList.map_entry k (\<lambda>t. merge_patch t v) ?ms = AList.update k (merge_patch ?t v) ms"
      unfolding map_entry_const_update v merge_patch_shallow ..
    finally have "fold finish_item (nested_patches (m # pms)) (JObject (shallow_members ms (m # pms))) =
        fold finish_item (nested_patches pms)
          (JObject (shallow_members (AList.update k (merge_patch ?t v) ms) pms))"
      by (simp add: m v finish_item_object)
    then show ?thesis
      unfolding IH [OF keys(2)] by (simp add: m v)
  next
    case False
    then have "shallow_value t v = merge_patch t v" for t by (cases v) (auto simp: shallow_value_def)
    with IH [OF keys(2)] m False show ?thesis by (cases v) auto
  qed
qed simp

subsection \<open>The code computes it\<close>

lemma computes_clone_merged:
  "wf_json v \<Longrightarrow> bthen (clone_merged v err) f = f v"
  by (rule ext) (simp add: clone_merged_def cloneNode_def copyContentsInto_id bthen_def bdone_def)

lemma insert_merged_object:
  "insert_merged (JObject ms) k c err = bdone (JObject (AList.update k c ms))"
  by (auto simp: insert_merged_def insertObjectChild_def map_entry_update update_new_key
      split: option.split)

definition shallow_member :: "members \<Rightarrow> string \<Rightarrow> json \<Rightarrow> members" where
  "shallow_member ms k v =
     (if v = JNull then AList.delete k ms
      else AList.update k (shallow_value (case map_of ms k of Some t \<Rightarrow> t | None \<Rightarrow> JNull) v) ms)"

definition item_of :: "string \<Rightarrow> json \<Rightarrow> (string \<times> members) option" where
  "item_of k v = (case v of JObject pms \<Rightarrow> Some (k, pms) | _ \<Rightarrow> None)"

lemma erase_key_object: "snd (erase_key (JObject ms) k) = JObject (AList.delete k ms)"
  by (auto simp: erase_key_def map_of_eq_None_iff delete_id split: option.split)

lemma update_same: "map_of ms k = Some v \<Longrightarrow> AList.update k v ms = ms"
  by (induction ms) (auto split: if_splits)

lemma computes_merge_member:
  assumes "wf_json v" and "pe_opIndex err = i"
  shows "computes i (merge_member (JObject ms) k v err)
    (Some (JObject (shallow_member ms k v), item_of k v))"
  unfolding merge_member_def
proof (intro computes_charge [OF _ assms(2)])
  let ?leaf = "bthen (measureClone v err) (\<lambda>_.
     bthen (clone_merged v err) (\<lambda>replacement.
     bthen (insert_merged (JObject ms) k replacement err) (\<lambda>target'. bdone (target', None))))"
  let ?r = "Some (JObject (shallow_member ms k v), item_of k v)"
  have leaf: "computes i ?leaf ?r" if "v \<noteq> JNull" "\<not> isObject v"
    using that assms
    by (cases v) (auto intro!: computes_measureClone computes_bdone
        simp: computes_clone_merged insert_merged_object bdone_then shallow_member_def
          shallow_value_def item_of_def isObject_def)
  have missing: "computes i
      (bthen (bthen (charge_nodes 1 err msg_merge_nodes) (\<lambda>_.
              bthen (charge_bytes sizeof_pjson err msg_merge_bytes) (\<lambda>_.
                insert_merged (JObject ms) k (emptyValue jsonObject) err)))
        (\<lambda>target'. bdone (target', Some (k, pms))))
      (Some (JObject (AList.update k (JObject []) ms), Some (k, pms)))" for pms
    by (rule computes_bthen [where r' = "\<lambda>t. Some (t, Some (k, pms))"
          and r = "Some (JObject (AList.update k (JObject []) ms))"])
      (auto intro!: computes_charge [OF _ assms(2)] simp: insert_merged_object)
  show "computes i
     (case v of
         JNull \<Rightarrow> bdone (snd (erase_key (JObject ms) k), None)
       | JObject pms \<Rightarrow>
           bthen
             (case find_key (JObject ms) k of
                None \<Rightarrow>
                  bthen (charge_nodes 1 err msg_merge_nodes) (\<lambda>_.
                  bthen (charge_bytes sizeof_pjson err msg_merge_bytes) (\<lambda>_.
                    insert_merged (JObject ms) k (emptyValue jsonObject) err))
              | Some targetValue \<Rightarrow>
                  bdone (if \<not> isObject targetValue
                    then update_child (Member k) (\<lambda>_. emptyValue jsonObject) (JObject ms)
                    else JObject ms))
             (\<lambda>target'. bdone (target', Some (k, pms)))
       | _ \<Rightarrow> ?leaf) ?r"
  proof (cases v)
    case JNull
    then show ?thesis
      by (auto simp: erase_key_object shallow_member_def item_of_def)
  next
    case (JObject pms)
    then show ?thesis
      using missing
      by (cases "map_of ms k")
        (auto simp: bdone_then shallow_member_def shallow_value_def item_of_def isObject_def
          map_entry_update update_same)
  qed (use leaf in \<open>simp_all add: isObject_def\<close>)
qed

lemma shallow_members_step: "shallow_members ms ((k, v) # pms) = shallow_members (shallow_member ms k v) pms"
  by (simp add: shallow_member_def)

lemma computes_merge_object:
  "list_all (\<lambda>m. wf_json (snd m)) pms \<Longrightarrow> pe_opIndex err = i \<Longrightarrow>
    computes i (merge_object (JObject ms) pms err)
      (Some (JObject (shallow_members ms pms), nested_patches pms))"
proof (induction pms arbitrary: ms)
  case (Cons m pms)
  obtain k v where m: "m = (k, v)" by (cases m)
  let ?ms = "shallow_member ms k v"
  have rest: "computes i (bthen (merge_object (JObject ?ms) pms err) (\<lambda>(target2, items).
       bdone (target2, (case item_of k v of None \<Rightarrow> items | Some i \<Rightarrow> i # items))))
      (Some (JObject (shallow_members ms (m # pms)), nested_patches (m # pms)))"
    by (rule computes_bthen [OF Cons.IH, where r' = "\<lambda>(t, items).
          Some (t, (case item_of k v of None \<Rightarrow> items | Some i \<Rightarrow> i # items))"])
      (use Cons.prems in \<open>auto simp: m shallow_members_step item_of_def
        simp del: shallow_members.simps split: json.split\<close>)
  show ?case
    unfolding m merge_object.simps
    by (rule computes_bthen [OF computes_merge_member, where r' = "\<lambda>_.
          Some (JObject (shallow_members ms (m # pms)), nested_patches (m # pms))"])
      (use Cons.prems rest in \<open>auto simp: m\<close>)
qed auto

subsection \<open>The work list\<close>

text \<open>Pending targets exist and lie apart; finishing them in any order gives the same document.\<close>

definition merge_pending :: "merge_items \<Rightarrow> json \<Rightarrow> bool" where
  "merge_pending work root \<longleftrightarrow>
     (\<forall>(at, pms) \<in> set work. subnode root at \<noteq> None \<and> wf_json (JObject pms)) \<and>
     pairwise forks (fst ` set work) \<and> distinct (map fst work)"

lemma forks_sym: "forks p q \<Longrightarrow> forks q p"
  by (induction p q rule: forks.induct) (auto split: if_splits)

lemma forks_snoc: "forks p q \<Longrightarrow> forks (p @ r) q"
  by (induction p q rule: forks.induct) (auto split: if_splits)

lemma forks_siblings: "k \<noteq> l \<Longrightarrow> forks (p @ [Member k]) (p @ [Member l])"
  by (induction p) auto

lemma forks_irrefl: "\<not> forks p p"
  by (induction p) auto

lemma pairwise_union:
  "pairwise R A \<Longrightarrow> pairwise R B \<Longrightarrow> (\<And>x y. x \<in> A \<Longrightarrow> y \<in> B \<Longrightarrow> R x y \<and> R y x) \<Longrightarrow>
    pairwise R (A \<union> B)"
  unfolding pairwise_def by blast

lemma nested_patches_set: "(k, qms) \<in> set (nested_patches pms) \<longleftrightarrow> (k, JObject qms) \<in> set pms"
  by (auto simp: nested_patches_def split: json.splits)

lemma distinct_nested: "distinct_keys pms \<Longrightarrow> distinct_keys (nested_patches pms)"
proof (induction pms)
  case (Cons m pms)
  then show ?case
    by (cases m) (force simp: nested_patches_set image_iff split: json.split)
qed simp

lemma nested_targets:
  "distinct_keys pms \<Longrightarrow> (k, qms) \<in> set (nested_patches pms) \<Longrightarrow>
    map_of (shallow_members ms pms) k \<noteq> None"
proof (induction pms arbitrary: ms)
  case (Cons m pms)
  obtain l v where m: "m = (l, v)" by (cases m)
  have keep: "map_of ms' l \<noteq> None \<Longrightarrow> map_of (shallow_members ms' pms) l \<noteq> None" for ms'
  proof -
    have "l \<notin> fst ` set pms" using Cons.prems m by auto
    then show "map_of ms' l \<noteq> None \<Longrightarrow> map_of (shallow_members ms' pms) l \<noteq> None"
      by (induction ms' pms rule: shallow_members.induct) (auto split: if_splits)
  qed
  from Cons.prems(2) show ?case
  proof (cases "k = l \<and> v = JObject qms")
    case True
    then show ?thesis using keep by (simp add: m)
  next
    case False
    with Cons.prems m have "(k, qms) \<in> set (nested_patches pms)"
      by (auto simp: nested_patches_set)
    with Cons show ?thesis by (simp add: m)
  qed
qed simp

lemma finish_item_commute:
  "fst a \<noteq> fst b \<Longrightarrow> finish_item a \<circ> finish_item b = finish_item b \<circ> finish_item a"
  by (cases a; cases b) (simp add: finish_item_def fun_eq_iff update_child_commute)

lemma fold_finish_rev:
  assumes "distinct_keys items"
  shows "fold finish_item (rev items) = fold finish_item items"
proof (rule fold_rev)
  fix a b
  assume "a \<in> set items" "b \<in> set items"
  then show "finish_item b \<circ> finish_item a = finish_item a \<circ> finish_item b"
    using assms finish_item_commute [of b a]
    by (cases "a = b") (auto simp: distinct_map inj_on_def)
qed

lemma fold_finish_at:
  "fold finish_work (pushed_items at items) (update_at at (\<lambda>_. t) root) =
    update_at at (\<lambda>_. fold finish_item items t) root"
proof (induction items arbitrary: t)
  case (Cons i items)
  then show ?case
    by (cases i)
      (simp add: pushed_items_def finish_work_def finish_item_def update_at_append update_at_Nil
        update_at_comp comp_def)
qed (simp add: pushed_items_def)

lemma pushed_items_rev: "rev (pushed_items at items) = pushed_items at (rev items)"
  by (simp add: pushed_items_def rev_map)

lemma finish_pushed:
  assumes "distinct_keys pms"
  shows "fold finish_work (rev (pushed_items at (nested_patches pms)))
      (update_at at (\<lambda>_. JObject (shallow_members ms pms)) root) =
    update_at at (\<lambda>_. JObject (merge_members ms pms)) root"
  unfolding pushed_items_rev fold_finish_at
  using assms by (simp add: fold_finish_rev distinct_nested finish_items)

lemma merge_pending_step:
  assumes pending: "merge_pending ((at, pms) # work) root"
  shows "merge_pending (rev (pushed_items at (nested_patches pms)) @ work)
    (update_at at (\<lambda>_. JObject (shallow_members ms pms)) root)"
proof -
  let ?root = "update_at at (\<lambda>_. JObject (shallow_members ms pms)) root"
  let ?new = "pushed_items at (nested_patches pms)"
  have keys: "distinct_keys pms" and wf: "\<And>k v. (k, v) \<in> set pms \<Longrightarrow> wf_json v"
    using pending by (fastforce simp: merge_pending_def list_all_iff)+
  have at: "subnode ?root at = Some (JObject (shallow_members ms pms))"
    using pending by (auto simp: merge_pending_def subnode_update_at)
  have new: "subnode ?root l \<noteq> None \<and> wf_json (JObject qms) \<and> (\<exists>k. l = at @ [Member k])"
    if "(l, qms) \<in> set ?new" for l qms
  proof -
    from that obtain k where k: "l = at @ [Member k]" "(k, qms) \<in> set (nested_patches pms)"
      by (auto simp: pushed_items_def)
    then have "wf_json (JObject qms)" using wf [of k "JObject qms"] by (simp add: nested_patches_set)
    with k at nested_targets [OF keys k(2), of ms] show ?thesis
      by (auto simp: subnode_append)
  qed
  have apart: "forks at l" if "l \<in> fst ` set work" for l
    using pending that by (auto simp: merge_pending_def pairwise_def)
  have old: "subnode ?root l \<noteq> None \<and> wf_json (JObject qms)" if "(l, qms) \<in> set work" for l qms
  proof -
    from that have "forks at l" using apart by force
    with pending that show ?thesis by (auto simp: merge_pending_def subnode_update_fork)
  qed
  have siblings: "pairwise forks (fst ` set ?new)"
    by (auto simp: pairwise_def pushed_items_def forks_siblings)
  have cross: "forks l m \<and> forks m l" if l: "l \<in> fst ` set ?new" and m: "m \<in> fst ` set work" for l m
  proof -
    from l obtain q where "(l, q) \<in> set ?new" by auto
    then have "\<exists>k. l = at @ [Member k]" using new by blast
    then obtain k where "l = at @ [Member k]" by blast
    then have "forks l m" using apart [OF m] forks_snoc by simp
    then show ?thesis using forks_sym by blast
  qed
  have "distinct (map fst ?new)"
    using distinct_nested [OF keys]
    by (auto simp: pushed_items_def comp_def split_beta distinct_map inj_on_def)
  moreover have "fst ` set ?new \<inter> fst ` set work = {}"
    using cross forks_irrefl by blast
  moreover have pw: "pairwise forks (fst ` set work)" and "distinct (map fst work)"
    using pending by (auto simp: merge_pending_def pairwise_def)
  ultimately have "distinct (map fst (rev ?new @ work))"
    by (simp add: rev_map [symmetric])
  moreover have "pairwise forks (fst ` set (rev ?new @ work))"
    unfolding set_append set_rev image_Un by (rule pairwise_union [OF siblings pw cross])
  moreover have "\<forall>(l, qms) \<in> set (rev ?new @ work). subnode ?root l \<noteq> None \<and> wf_json (JObject qms)"
    unfolding set_append set_rev using new old by blast
  ultimately show ?thesis unfolding merge_pending_def by blast
qed

lemma merge_work_bthen:
  assumes "subnode root at = Some target"
  shows "merge_work ((at, pms) # work) root err =
    bthen (merge_object (if isObject target then target else JObject []) pms err) (\<lambda>(target', items).
      merge_work (rev (pushed_items at items) @ work) (update_at at (\<lambda>_. target') root) err)"
  using assms by (intro ext) (auto simp: bthen_def split: sum.split)

lemma computes_merge_work:
  "merge_pending work root \<Longrightarrow> pe_opIndex err = i \<Longrightarrow>
    computes i (merge_work work root err) (Some (fold finish_work work root))"
proof (induction "merge_item_nodes work" arbitrary: work root rule: less_induct)
  case less
  show ?case
  proof (cases work)
    case Nil
    have "merge_work [] root err = bdone root" by (rule ext) (simp add: bdone_def)
    with Nil show ?thesis by auto
  next
    case (Cons item rest)
    obtain at pms where item: "item = (at, pms)" by (cases item)
    note work = Cons [unfolded item]
    obtain target where target: "subnode root at = Some target"
      using less.prems(1) work by (auto simp: merge_pending_def)
    define ms where "ms = (case target of JObject ms \<Rightarrow> ms | _ \<Rightarrow> [])"
    have base: "(if isObject target then target else JObject []) = JObject ms"
      by (cases target) (simp_all add: ms_def isObject_def)
    have wf: "distinct_keys pms" "list_all (\<lambda>m. wf_json (snd m)) pms"
      using less.prems(1) work by (auto simp: merge_pending_def)
    let ?root = "update_at at (\<lambda>_. JObject (shallow_members ms pms)) root"
    let ?work = "rev (pushed_items at (nested_patches pms)) @ rest"
    have "merge_item_nodes ?work < merge_item_nodes work"
      using nested_nodes [of at pms] by (simp add: work)
    moreover have "merge_pending ?work ?root"
      using less.prems(1) unfolding work by (rule merge_pending_step)
    ultimately have IH: "computes i (merge_work ?work ?root err) (Some (fold finish_work ?work ?root))"
      using less.prems(2) by (rule less.hyps)
    have "update_at at (\<lambda>_. JObject (merge_members ms pms)) root = finish_work (at, pms) root"
      unfolding finish_work_def prod.case
      by (rule update_at_cong) (use target in \<open>simp add: ms_def\<close>)
    then have "fold finish_work ?work ?root = fold finish_work work root"
      using finish_pushed [OF wf(1), of at ms root] by (simp add: work)
    with IH show ?thesis
      unfolding work merge_work_bthen [OF target] base
      by (intro computes_bthen [OF computes_merge_object [OF wf(2) less.prems(2)],
            where r' = "\<lambda>_. Some (fold finish_work work root)"])
        (auto simp: work)
  qed
qed

lemma computes_applyMergePatchTo:
  assumes "wf_json patch" and "pe_opIndex err = i"
  shows "computes i (applyMergePatchTo target patch err) (Some (merge_patch target patch))"
proof (cases "\<exists>pms. patch = JObject pms")
  case True
  then obtain pms where "patch = JObject pms" by blast
  moreover have "merge_pending [([], pms)] target" if "patch = JObject pms" for pms
    using that assms by (auto simp: merge_pending_def)
  ultimately show ?thesis
    using computes_merge_work [of "[([], pms)]" target err i] assms(2)
    by (simp add: applyMergePatchTo_def finish_work_def del: merge_work.simps)
next
  case False
  have "computes i (clone_merged patch err) (Some patch)"
    using assms by (auto simp: clone_merged_def cloneNode_def copyContentsInto_id)
  then have "computes i (bthen (charge_operations 1 err msg_merge_operation) (\<lambda>_.
      bthen (measureClone patch err) (\<lambda>_. clone_merged patch err))) (Some patch)"
    by (intro computes_charge(1) [OF computes_measureClone] assms(2))
  with False show ?thesis
    by (cases patch) (simp_all add: applyMergePatchTo_def)
qed

lemma computes_merge_scratch:
  "wf_json target \<Longrightarrow> wf_json patch \<Longrightarrow>
    computes 0 (merge_scratch target patch) (Some (merge_patch target patch))"
  unfolding merge_scratch_def
  by (rule computes_measureClone)
    (simp_all add: computes_clone_merged computes_applyMergePatchTo resetPatchError_def)

end
