(* ===== verification/Patch_Properties.thy ===== *)
theory Patch_Properties
  imports Merge_Patch
begin

section \<open>The properties of the patches\<close>

text \<open>
  A measure of the scratch document that the budget pays for: everything a patch adds to the
  document has been charged before. The locale states what such a measure needs of the tree and
  of the charges; the node count and the byte count both are one, so both bounds follow from the
  same lemmas.
\<close>

subsection \<open>Measures paid by the budget\<close>

locale cloned_measure =
  fixes mu :: "json \<Rightarrow> nat" and used :: "PatchBudget \<Rightarrow> nat"
    and key_cost :: "string \<Rightarrow> nat" and base :: nat
  assumes mu_array: "mu (JArray xs) = base + sum_list (map mu xs)"
    and mu_object: "mu (JObject ms) = base + sum_list (map (\<lambda>m. key_cost (fst m) + mu (snd m)) ms)"
    and mu_null: "mu JNull = base"
    and mu_base: "base \<le> mu v"
    and measured: "measureClone v err b = Inr (u, b') \<Longrightarrow> used b' = used b + mu v"
    and compared: "patchEqual v w err b = Inr (eq, b') \<Longrightarrow> used b' = used b"
    and charged_work: "used (b\<lparr>pb_work := n\<rparr>) = used b"
    and charged_operations: "used (b\<lparr>pb_operations := n\<rparr>) = used b"
    and charged_key: "used (b\<lparr>pb_bytes := pb_bytes b + length k\<rparr>) = used b + key_cost k"
    and charged_node: "used (b\<lparr>pb_nodes := Suc (pb_nodes b), pb_bytes := pb_bytes b + sizeof_pjson\<rparr>)
      = used b + base"
begin

text \<open>\<open>paid b b' x y\<close>: going from \<open>x\<close> to \<open>y\<close> was paid between the two budgets.\<close>

definition paid :: "PatchBudget \<Rightarrow> PatchBudget \<Rightarrow> nat \<Rightarrow> nat \<Rightarrow> bool" where
  "paid b b' x y \<longleftrightarrow> y + used b \<le> x + used b'"

definition members_mu :: "members \<Rightarrow> nat" where
  "members_mu ms = sum_list (map (\<lambda>m. key_cost (fst m) + mu (snd m)) ms)"

lemma mu_members: "mu (JObject ms) = base + members_mu ms"
  by (simp add: mu_object members_mu_def)

lemma members_mu_simps [simp]:
  "members_mu [] = 0" "members_mu ((k, v) # ms) = key_cost k + mu v + members_mu ms"
  "members_mu (ms @ ns) = members_mu ms + members_mu ns"
  by (simp_all add: members_mu_def)

lemma members_mu_entry:
  "map_of ms k = Some c \<Longrightarrow> members_mu (AList.map_entry k f ms) + mu c = members_mu ms + mu (f c)"
proof (induction ms)
  case (Cons m ms)
  then show ?case by (cases m) (auto split: if_splits)
qed simp

lemma members_mu_delete:
  "members_mu (AList.delete k ms) \<le> members_mu ms"
  "map_of ms k = Some c \<Longrightarrow> members_mu (AList.delete k ms) + mu c \<le> members_mu ms"
proof -
  show le: "members_mu (AList.delete k ms) \<le> members_mu ms" for ms
  proof (induction ms)
    case (Cons m ms)
    then show ?case by (cases m) auto
  qed simp
  show "map_of ms k = Some c \<Longrightarrow> members_mu (AList.delete k ms) + mu c \<le> members_mu ms"
  proof (induction ms)
    case (Cons m ms)
    then show ?case
    proof (cases m)
      case (Pair l v)
      with Cons le [of ms] show ?thesis by (cases "l = k") auto
    qed
  qed simp
qed

lemma members_mu_update:
  "members_mu (AList.update k x ms) \<le> members_mu ms + (if map_of ms k = None then key_cost k else 0) + mu x"
proof (cases "map_of ms k")
  case (Some c)
  then show ?thesis
    using members_mu_entry [of ms k c "\<lambda>_. x"] by (simp add: map_entry_update)
qed (simp add: update_new_key)

lemma mu_list_update: "i < length xs \<Longrightarrow> sum_list (map mu (xs[i := y])) + mu (xs ! i) = sum_list (map mu xs) + mu y"
proof (induction xs arbitrary: i)
  case (Cons x xs)
  then show ?case by (cases i) auto
qed simp

lemma mu_update_child:
  "child v s = Some c \<Longrightarrow> mu (update_child s f v) + mu c = mu v + mu (f c)"
  by (cases "(s, f, v)" rule: update_child.cases)
    (auto simp: mu_members mu_array members_mu_entry mu_list_update split: if_splits)

lemma mu_update_at:
  "subnode v p = Some c \<Longrightarrow> mu (update_at p f v) + mu c = mu v + mu (f c)"
proof (induction p arbitrary: v)
  case (Cons s p)
  then obtain d where d: "child v s = Some d" "subnode d p = Some c"
    by (auto split: option.splits)
  show ?case
    using Cons.IH [OF d(2)] mu_update_child [OF d(1), of "update_at p f"] by simp
qed simp

lemma mu_insert_at: "mu (JArray (insert_at i x xs)) = mu (JArray xs) + mu x"
proof -
  have "sum_list (map mu xs) = sum_list (map mu (take i xs)) + sum_list (map mu (drop i xs))"
    by (metis append_take_drop_id map_append sum_list_append)
  then show ?thesis by (simp add: mu_array insert_at_def)
qed

lemma mu_remove_at:
  assumes "i < length xs"
  shows "mu (JArray (remove_at i xs)) + mu (xs ! i) = mu (JArray xs)"
proof -
  have "xs = take i xs @ xs ! i # drop (Suc i) xs" using assms by (rule id_take_nth_drop)
  then have "sum_list (map mu xs) = sum_list (map mu (take i xs @ xs ! i # drop (Suc i) xs))"
    by (rule arg_cong)
  then show ?thesis by (simp add: mu_array remove_at_def)
qed

text \<open>The charges, as rewrite rules on the budget left behind.\<close>

lemmas charged = charged_work charged_operations charged_key charged_node

lemma resolve_paid:
  "resolvePatchTokens root ts n p err b = Inr ((at, v), b') \<Longrightarrow>
    used b' = used b \<and> subnode root at = Some v"
  unfolding resolvePatchTokens_def
  by (auto simp: charged bfail_def resolvePointerTokens_def resolve_tokens_eval split: sum.splits)

lemma index_in_range:
  "patchArrayIndex (JArray xs) t False k err = Inr (i, a) \<Longrightarrow> i < length xs"
  by (auto dest!: patchArrayIndex_target simp: element_index_def split: if_splits)

lemma lift_error_result [simp]: "lift_error m b = Inr (x, b') \<longleftrightarrow> m = Inr x \<and> b' = b"
  by (auto simp: lift_error_def split: sum.splits)

lemma mu_write: "subnode v p = Some c \<Longrightarrow> mu (update_at p (\<lambda>_. d) v) + mu c = mu v + mu d"
  by (rule mu_update_at)

lemma add_paid:
  assumes "addOwnedAtPointer root ts p x err b = Inr (v, b')"
  shows "paid b b' (mu root + mu x) (mu v)"
proof (cases "ts = []")
  case True
  with assms show ?thesis by (simp add: addOwnedAtPointer_def paid_def)
next
  case False
  with assms obtain at parent b1 where
    r: "resolvePatchTokens root ts (length ts - 1) p err b = Inr ((at, parent), b1)"
    and run: "(case parent of
               JObject ms \<Rightarrow>
                 (case map_of ms (last ts) of
                    Some _ \<Rightarrow> bdone (update_at (at @ [Member (last ts)]) (\<lambda>_. x) root)
                  | None \<Rightarrow>
                      bthen (charge_bytes (length (last ts)) err msg_Bytes) (\<lambda>_.
                        bdone (update_at at (\<lambda>_. JObject (ms @ [(last ts, x)])) root)))
             | JArray xs \<Rightarrow>
                 bthen (lift_error (patchArrayIndex parent (last ts) True (length ts - 1) err)) (\<lambda>(index, append).
                 bthen (charge_work (length xs - index) err msg_Work) (\<lambda>_.
                   bdone (update_at at (\<lambda>_. JArray (insert_at index x xs)) root)))
             | _ \<Rightarrow> bfail (failPatchAtToken err TargetMissing (length ts - 1) (last ts) msg_add_parent)) b1
        = Inr (v, b')"
    by (auto simp: addOwnedAtPointer_def Let_def simp del: One_nat_def)
  from resolve_paid [OF r] have u: "used b1 = used b" and at: "subnode root at = Some parent" by auto
  show ?thesis
  proof (cases parent)
    case (JArray xs)
    with run obtain i where "v = update_at at (\<lambda>_. JArray (insert_at i x xs)) root" "used b' = used b1"
      by (auto simp: charged)
    with u JArray mu_write [OF at, of "JArray (insert_at i x xs)"] show ?thesis
      by (simp add: paid_def mu_insert_at)
  next
    case (JObject ms)
    show ?thesis
    proof (cases "map_of ms (last ts)")
      case None
      with run u JObject mu_write [OF at, of "JObject (ms @ [(last ts, x)])"] show ?thesis
        by (auto simp: paid_def charged mu_members)
    next
      case (Some c)
      then have "subnode root (at @ [Member (last ts)]) = Some c"
        using at JObject by (simp add: subnode_append)
      from run u JObject Some mu_write [OF this, of x] show ?thesis
        by (auto simp: paid_def)
    qed
  qed (use run in \<open>auto simp: bfail_def\<close>)
qed

lemma replace_paid:
  assumes "replaceAtPointer root ts p x err b = Inr (v, b')"
  shows "paid b b' (mu root + mu x) (mu v)"
proof (cases "ts = []")
  case True
  with assms show ?thesis by (simp add: replaceAtPointer_def paid_def)
next
  case False
  with assms obtain at parent b1 where
    r: "resolvePatchTokens root ts (length ts - 1) p err b = Inr ((at, parent), b1)"
    and run: "(case parent of
               JObject ms \<Rightarrow>
                 (case map_of ms (last ts) of
                    Some _ \<Rightarrow> bdone (update_at (at @ [Member (last ts)]) (\<lambda>_. x) root)
                  | None \<Rightarrow>
                      bfail (failPatchAtToken err TargetMissing (length ts - 1) (last ts) msg_replace_missing))
             | JArray xs \<Rightarrow>
                 bthen (lift_error (patchArrayIndex parent (last ts) False (length ts - 1) err)) (\<lambda>(index, append).
                   bdone (update_at (at @ [Elem index]) (\<lambda>_. x) root))
             | _ \<Rightarrow> bfail (failPatchAtToken err TargetMissing (length ts - 1) (last ts) msg_replace_parent)) b1
        = Inr (v, b')"
    by (auto simp: replaceAtPointer_def Let_def simp del: One_nat_def)
  from resolve_paid [OF r] have u: "used b1 = used b" and at: "subnode root at = Some parent" by auto
  have "\<exists>s c. subnode root (at @ [s]) = Some c \<and> v = update_at (at @ [s]) (\<lambda>_. x) root \<and> b' = b1"
  proof (cases parent)
    case (JArray xs)
    with run obtain i a where "patchArrayIndex (JArray xs) (last ts) False (length ts - 1) err = Inr (i, a)"
      "v = update_at (at @ [Elem i]) (\<lambda>_. x) root" "b' = b1" by auto
    with index_in_range at JArray show ?thesis
      by (intro exI [of _ "Elem i"]) (fastforce simp: subnode_append)
  next
    case (JObject ms)
    with run at show ?thesis
      by (cases "map_of ms (last ts)")
        (auto simp: bfail_def subnode_append intro!: exI [of _ "Member (last ts)"])
  qed (use run in \<open>auto simp: bfail_def\<close>)
  then obtain l c where "subnode root l = Some c" "v = update_at l (\<lambda>_. x) root" "b' = b1" by blast
  with mu_write [of root l c x] u show ?thesis by (simp add: paid_def)
qed

lemma detach_paid:
  assumes "detachAtPointer root ts p err b = Inr ((x, v), b')"
  shows "paid b b' (mu root) (mu x + mu v)"
proof (cases "ts = []")
  case True
  with assms show ?thesis
    by (auto simp: detachAtPointer_def paid_def charged mu_null)
next
  case False
  with assms obtain at parent b1 where
    r: "resolvePatchTokens root ts (length ts - 1) p err b = Inr ((at, parent), b1)"
    and run: "(case parent of
               JObject ms \<Rightarrow>
                 (case map_of ms (last ts) of
                    None \<Rightarrow>
                      bfail (failPatchAtToken err TargetMissing (length ts - 1) (last ts) msg_remove_missing)
                  | Some existing \<Rightarrow>
                      bdone (existing, update_at at (\<lambda>_. JObject (AList.delete (last ts) ms)) root))
             | JArray xs \<Rightarrow>
                 bthen (lift_error (patchArrayIndex parent (last ts) False (length ts - 1) err)) (\<lambda>(index, append).
                 bthen (charge_work (length xs - index - 1) err msg_Work) (\<lambda>_.
                   bdone (xs ! index, update_at at (\<lambda>_. JArray (remove_at index xs)) root)))
             | _ \<Rightarrow> bfail (failPatchAtToken err TargetMissing (length ts - 1) (last ts) msg_remove_parent)) b1
        = Inr ((x, v), b')"
    by (auto simp: detachAtPointer_def Let_def simp del: One_nat_def)
  from resolve_paid [OF r] have u: "used b1 = used b" and at: "subnode root at = Some parent" by auto
  show ?thesis
  proof (cases parent)
    case (JArray xs)
    with run obtain i a where i: "patchArrayIndex (JArray xs) (last ts) False (length ts - 1) err = Inr (i, a)"
      and out: "x = xs ! i" "v = update_at at (\<lambda>_. JArray (remove_at i xs)) root" "used b' = used b1"
      by (auto simp: charged)
    from mu_remove_at [OF index_in_range [OF i]] mu_write [OF at, of "JArray (remove_at i xs)"]
    show ?thesis by (simp add: out u paid_def JArray)
  next
    case (JObject ms)
    with run obtain c where c: "map_of ms (last ts) = Some c"
      and out: "x = c" "v = update_at at (\<lambda>_. JObject (AList.delete (last ts) ms)) root" "b' = b1"
      by (cases "map_of ms (last ts)") (auto simp: bfail_def)
    from members_mu_delete(2) [OF c] mu_write [OF at, of "JObject (AList.delete (last ts) ms)"]
    show ?thesis by (simp add: out u paid_def JObject mu_members)
  qed (use run in \<open>auto simp: bfail_def\<close>)
qed

lemma clone_result: "clone_value v err b = Inr (w, b') \<Longrightarrow> wf_json v \<Longrightarrow> w = v \<and> b' = b"
  by (auto simp: clone_value_def cloneNode_def copyContentsInto_id)

lemma run_paid:
  assumes "run_operation op pt ft valueNode v err b = Inr (w, b')"
    and wf: "wf_json v" "\<And>x. valueNode = Some x \<Longrightarrow> wf_json x"
  shows "paid b b' (mu v) (mu w)"
proof -
  let ?val = "case valueNode of Some v \<Rightarrow> v | None \<Rightarrow> JNull"
  have val: "wf_json ?val" using wf(2) by (cases valueNode) auto
  have cloned: "paid b b' (mu v) (mu w)"
    if "measureClone x err b0 = Inr (u, b1)" "wf_json x" "clone_value x err b1 = Inr (y, b2)"
      "paid b2 b' (mu v + mu y) (mu w)" "used b0 = used b" for x u b0 b1 y b2
    using measured [OF that(1)] clone_result [OF that(3,2)] that(4,5) by (simp add: paid_def)
  show ?thesis
  proof (cases "op = ''add'' \<or> op = ''replace''")
    case True
    then obtain u b1 y b2 where m: "measureClone ?val err b = Inr (u, b1)"
        "clone_value ?val err b1 = Inr (y, b2)"
      and "addOwnedAtPointer v pt (pe_path err) y err b2 = Inr (w, b') \<or>
        replaceAtPointer v pt (pe_path err) y err b2 = Inr (w, b')"
      using assms(1) unfolding run_operation_def Let_def by (elim disjE) auto
    then have "paid b2 b' (mu v + mu y) (mu w)" using add_paid replace_paid by blast
    then show ?thesis using cloned [OF m(1) val m(2)] by simp
  next
    case False
    note not_add = this
    show ?thesis
    proof (cases "op = ''remove'' \<or> op = ''test''")
      case True
      then show ?thesis
      proof
        assume "op = ''remove''"
        with assms(1) have "bthen (detachAtPointer v pt (pe_path err) err) (\<lambda>(removed, v'). bdone v') b
            = Inr (w, b')"
          by (simp add: run_operation_def)
        then show ?thesis by (auto simp: paid_def dest!: detach_paid)
      next
        assume "op = ''test''"
        with assms(1) have "bthen (resolvePatchTokens v pt (length pt) (pe_path err) err) (\<lambda>(at, target).
            bthen (patchEqual target ?val err) (\<lambda>equal.
              if \<not> equal then bfail (failPatch err TestFailed msg_test_failed) else bdone v)) b = Inr (w, b')"
          by (simp add: run_operation_def)
        then show ?thesis
          by (auto simp: paid_def bfail_def dest!: resolve_paid compared split: if_splits)
      qed
    next
      case False
      note rest = False not_add
      show ?thesis
      proof (cases "op = ''copy''")
        case True
        with assms(1) obtain at x b0 b1 y b2 u where
          r: "resolvePatchTokens v ft (length ft) (pe_from err) err b = Inr ((at, x), b0)" and
          m: "measureClone x err b0 = Inr (u, b1)" "clone_value x err b1 = Inr (y, b2)" and
          a: "addOwnedAtPointer v pt (pe_path err) y err b2 = Inr (w, b')"
          by (auto simp: run_operation_def)
        from resolve_paid [OF r] show ?thesis
          using cloned [OF m(1) wf_json_subnode [OF wf(1)] m(2) add_paid [OF a]] by blast
      next
        case False
        with rest have "run_operation op pt ft valueNode v err =
            bthen (resolvePatchTokens v ft (length ft) (pe_from err) err) (\<lambda>(at, source).
             if samePointerTokens ft pt then bdone v
             else if ft = [] then bfail (failPatch err MoveRootNotAllowed msg_move_root)
             else if isProperPointerAncestor ft pt then
               bfail (failPatch err MoveIntoDescendant msg_move_descendant)
             else
               bthen (detachAtPointer v ft (pe_from err) err) (\<lambda>(moved, v').
                 addOwnedAtPointer v' pt (pe_path err) moved err))"
          unfolding run_operation_def Let_def by simp
        with assms(1) show ?thesis
          by (auto simp: bfail_def paid_def dest!: resolve_paid detach_paid add_paid split: if_splits)
      qed
    qed
  qed
qed

lemma decode_paid:
  "decodePatchPointer p f err b = Inr (ts, b') \<Longrightarrow> used b' = used b"
  by (auto simp: decodePatchPointer_def charged bfail_def split: sum.splits)

lemma decode_from_paid: "decode_from v err b = Inr (x, b') \<Longrightarrow> used b' = used b"
  by (auto simp: decode_from_def Let_def bfail_def dest!: decode_paid split: option.splits)

lemma finish_paid:
  assumes "finish_operation p op pt v x b = Inr (w, b')" and "wf_json v" "wf_json p"
  shows "paid b b' (mu v) (mu w)"
proof (cases x)
  case (Pair ft err)
  with assms(1) have "run_operation op pt ft (find_key p ''value'') v err b = Inr (w, b')"
    by (auto simp: finish_operation_def bfail_def split: if_splits)
  then show ?thesis
    by (rule run_paid) (use assms member_value_wf in auto)
qed

lemma paid_same: "paid b b' x y \<Longrightarrow> used a = used b \<Longrightarrow> paid a b' x y"
  by (simp add: paid_def)

lemma decode_operation_paid:
  assumes "decode_operation p op path v err b = Inr (w, b')" and "wf_json v" "wf_json p"
  shows "paid b b' (mu v) (mu w)"
proof -
  from assms(1) obtain pt b1 x b2 where
    "decodePatchPointer path False err b = Inr (pt, b1)"
    "(if op = ''move'' \<or> op = ''copy'' then decode_from p err else bdone ([], err)) b1 = Inr (x, b2)"
    and run: "finish_operation p op pt v x b2 = Inr (w, b')"
    unfolding decode_operation_def bthen_result by blast
  then have "used b2 = used b"
    by (auto dest!: decode_paid decode_from_paid split: if_splits)
  with finish_paid [OF run assms(2,3)] show ?thesis by (simp add: paid_def)
qed

lemma operation_paid:
  assumes "apply_operation i p v b = Inr (w, b')" and "wf_json v" "wf_json p"
  shows "paid b b' (mu v) (mu w)"
proof -
  obtain op path err where "decode_operation p op path v err b = Inr (w, b')"
    using assms(1) by (auto simp: apply_operation_def Let_def bfail_def split: option.splits if_splits)
  then show ?thesis using assms(2,3) by (rule decode_operation_paid)
qed

lemma operations_paid:
  "apply_operations i ops v b = Inr (w, b') \<Longrightarrow> wf_json v \<Longrightarrow> list_all wf_json ops \<Longrightarrow>
    budget_ok b \<Longrightarrow> paid b b' (mu v) (mu w)"
proof (induction ops arbitrary: i v b)
  case (Cons p ops)
  then have wf: "wf_json p" "list_all wf_json ops" by auto
  from Cons.prems(1) obtain v1 b1 where
    first: "apply_operation i p v b = Inr (v1, b1)"
    and rest: "apply_operations (Suc i) ops v1 b1 = Inr (w, b')"
    by auto
  obtain c where c: "spends i (apply_operation i p v) (rfc6902_step v p) c"
    using computes_step [OF wf(1) Cons.prems(2)] unfolding computes_def by blast
  from spends_return [OF c Cons.prems(4) first]
  have "wf_json v1" "budget_ok b1"
    using wf_rfc6902_step [OF wf(1) Cons.prems(2)] by (auto simp: advances_def)
  with Cons.IH [OF rest _ wf(2)] operation_paid [OF first Cons.prems(2) wf(1)] show ?case
    by (simp add: paid_def)
qed (simp add: paid_def)

lemma patch_paid:
  assumes run: "patch_scratch target patch b = Inr (v, b')"
    and wf: "wf_json target" "wf_json patch" and b: "budget_ok b"
  shows "mu v + used b \<le> used b'"
proof -
  from run obtain ops where patch: "patch = JArray ops"
    by (cases patch) (auto simp: patch_scratch_def bfail_def)
  from run obtain b1 b2 u where
    c: "charge_operations (length ops) resetPatchError msg_operations b = Inr ((), b1)"
    and m: "measureClone target resetPatchError b1 = Inr (u, b2)"
    and rest: "apply_operations 0 ops target b2 = Inr (v, b')"
    by (auto simp: patch_scratch_def patch dest!: clone_result [OF _ wf(1)])
  have "budget_ok b1"
    using spends_return [OF spends_charge(1) [OF order_refl] b c] by (simp add: advances_def)
  then have "budget_ok b2"
    using spends_return [OF spends_measureClone _ m] by (simp add: advances_def)
  from operations_paid [OF rest wf(1) _ this] wf(2) patch measured [OF m] c
  show ?thesis by (auto simp: paid_def charged)
qed

subsection \<open>The merge\<close>

lemma merge_member_paid:
  assumes "merge_member (JObject ms) k v err b = Inr ((t, item), b')" and "wf_json v"
  shows "paid b b' (mu (JObject ms)) (mu t)"
proof -
  define b0 where "b0 = b\<lparr>pb_operations := Suc (pb_operations b), pb_work := Suc (pb_work b)\<rparr>"
  define b1 where "b1 = b0\<lparr>pb_bytes := pb_bytes b0 + length k\<rparr>"
  have b1: "used b1 = used b + key_cost k" by (simp add: b1_def charged) (simp add: b0_def charged)
  consider "v = JNull" | pms where "v = JObject pms" | "v \<noteq> JNull" "\<not> isObject v"
    by (cases v) (auto simp: isObject_def)
  then show ?thesis
  proof cases
    case 1
    with assms have "t = JObject (AList.delete k ms)" "b' = b1"
      by (auto simp: merge_member_def erase_key_object b1_def b0_def)
    with b1 members_mu_delete(1) [of k ms] show ?thesis by (simp add: paid_def mu_members)
  next
    case 2
    show ?thesis
    proof (cases "map_of ms k")
      case None
      with 2 assms have "t = JObject (AList.update k (JObject []) ms)"
        "b' = b1\<lparr>pb_nodes := Suc (pb_nodes b1), pb_bytes := pb_bytes b1 + sizeof_pjson\<rparr>"
        by (auto simp: merge_member_def insert_merged_object b1_def b0_def)
      with b1 None members_mu_update [of k "JObject []" ms] show ?thesis
        by (simp add: paid_def charged mu_members)
    next
      case (Some c)
      with 2 assms have "t = update_child (Member k) (\<lambda>_. JObject []) (JObject ms) \<or> t = JObject ms"
        "b' = b1"
        by (auto simp: merge_member_def b1_def b0_def split: if_splits)
      moreover have "mu (update_child (Member k) (\<lambda>_. JObject []) (JObject ms)) \<le> mu (JObject ms)"
        using mu_update_child [of "JObject ms" "Member k" c "\<lambda>_. JObject []"] Some mu_base [of c]
        by (simp add: mu_members)
      ultimately show ?thesis using b1 by (auto simp: paid_def)
    qed
  next
    case 3
    with assms(1) obtain u b2 y b3 where m: "measureClone v err b1 = Inr (u, b2)"
      "clone_merged v err b2 = Inr (y, b3)" "insert_merged (JObject ms) k y err b3 = Inr (t, b')"
      by (cases v) (auto simp: merge_member_def isObject_def b1_def b0_def)
    then have "y = v" "b3 = b2" "t = JObject (AList.update k v ms)" "b' = b2"
      using assms(2) by (auto simp: clone_merged_def cloneNode_def copyContentsInto_id insert_merged_object)
    with measured [OF m(1)] b1 members_mu_update [of k v ms] show ?thesis
      by (auto simp: paid_def mu_members split: if_splits)
  qed
qed

lemma merge_member_object:
  "merge_member (JObject ms) k v err b = Inr ((t, item), b') \<Longrightarrow> \<exists>ms'. t = JObject ms'"
  by (cases v)
    (auto simp: merge_member_def erase_key_object insert_merged_object split: option.splits if_splits)

lemma merge_object_paid:
  "merge_object (JObject ms) pms err b = Inr ((t, items), b') \<Longrightarrow>
    list_all (\<lambda>m. wf_json (snd m)) pms \<Longrightarrow> paid b b' (mu (JObject ms)) (mu t)"
proof (induction pms arbitrary: ms t items b b')
  case (Cons m pms)
  obtain k v where m: "m = (k, v)" by (cases m)
  from Cons.prems(1) obtain t1 item b1 items2 where
    first: "merge_member (JObject ms) k v err b = Inr ((t1, item), b1)"
    and rest: "merge_object t1 pms err b1 = Inr ((t, items2), b')"
    by (auto simp: m)
  from merge_member_object [OF first] obtain ms1 where t1: "t1 = JObject ms1" by blast
  from Cons.IH [OF rest [unfolded t1]] merge_member_paid [OF first] Cons.prems(2) show ?case
    by (simp add: m t1 paid_def)
qed (simp add: paid_def)

lemma mu_object_of:
  "mu (if isObject v then v else JObject []) \<le> mu v"
  using mu_base [of v] by (simp add: mu_members)

lemma nested_wf: "list_all (\<lambda>m. wf_json (snd m)) pms \<Longrightarrow> (k, qms) \<in> set (nested_patches pms) \<Longrightarrow>
    list_all (\<lambda>m. wf_json (snd m)) qms"
  by (force simp: nested_patches_set list_all_iff)

lemma merge_work_paid:
  "merge_work work root err b = Inr (w, b') \<Longrightarrow>
    \<forall>(at, pms) \<in> set work. list_all (\<lambda>m. wf_json (snd m)) pms \<Longrightarrow> paid b b' (mu root) (mu w)"
proof (induction work root err b rule: merge_work.induct)
  case (2 at pms work root err b)
  from "2.prems"(1) obtain target t items b1 where at: "subnode root at = Some target"
    and obj: "merge_object (if isObject target then target else emptyValue jsonObject) pms err b
      = Inr ((t, items), b1)"
    and rest: "merge_work (rev (pushed_items at items) @ work) (update_at at (\<lambda>_. t) root) err b1
      = Inr (w, b')"
    by (auto split: option.splits sum.splits)
  have wf: "list_all (\<lambda>m. wf_json (snd m)) pms" using "2.prems"(2) by simp
  have items: "items = nested_patches pms" using obj by (rule merge_object_items)
  have "\<forall>(at, pms) \<in> set (rev (pushed_items at items) @ work). list_all (\<lambda>m. wf_json (snd m)) pms"
    using "2.prems"(2) nested_wf [OF wf] by (auto simp: items pushed_items_def)
  with "2.IH" at obj rest have tail: "paid b1 b' (mu (update_at at (\<lambda>_. t) root)) (mu w)" by blast
  obtain ms where base: "(if isObject target then target else emptyValue jsonObject) = JObject ms"
    by (cases target) (auto simp: isObject_def)
  have "mu (JObject ms) \<le> mu target" using mu_object_of [of target] unfolding base [symmetric] emptyValue.simps .
  with tail merge_object_paid [OF obj [unfolded base] wf] mu_write [OF at, of t] show ?case
    by (simp add: paid_def)
qed (simp add: paid_def)

lemma merge_paid:
  assumes run: "merge_scratch target patch b = Inr (v, b')"
    and wf: "wf_json target" "wf_json patch"
  shows "mu v + used b \<le> used b'"
proof -
  have same: "w = x \<and> c' = c" if "clone_merged x e c = Inr (w, c')" "wf_json x" for w x e c c'
    using that by (auto simp: clone_merged_def cloneNode_def copyContentsInto_id)
  from run obtain b1 u where
    m: "measureClone target resetPatchError b = Inr (u, b1)"
    and rest: "applyMergePatchTo target patch resetPatchError b1 = Inr (v, b')"
    by (auto simp: merge_scratch_def dest!: same [OF _ wf(1)])
  have "mu v + used b1 \<le> mu target + used b'"
  proof (cases "\<exists>pms. patch = JObject pms")
    case True
    then obtain pms where "patch = JObject pms" by blast
    with rest wf merge_work_paid [of "[([], pms)]" target resetPatchError b1 v b'] show ?thesis
      by (simp add: applyMergePatchTo_def paid_def del: merge_work.simps)
  next
    case False
    with rest have "bthen (charge_operations 1 resetPatchError msg_merge_operation) (\<lambda>_.
          bthen (measureClone patch resetPatchError) (\<lambda>_. clone_merged patch resetPatchError)) b1
        = Inr (v, b')"
      by (cases patch) (auto simp: applyMergePatchTo_def)
    then show ?thesis
      by (auto simp: charged dest!: measured same [OF _ wf(2)])
  qed
  with measured [OF m] show ?thesis by simp
qed

end

lemma measureClone_nodes:
  "measureClone v err b = Inr (u, b') \<Longrightarrow> pb_nodes b' = pb_nodes b + nodes v"
  using measureClone_result by blast

lemma measureClone_bytes:
  "measureClone v err b = Inr (u, b') \<Longrightarrow> pb_bytes b' = pb_bytes b + clone_bytes v"
  using measureClone_result by blast

interpretation node_measure: cloned_measure nodes pb_nodes "\<lambda>_. 0" 1
  by unfold_locales
    (auto simp: measureClone_nodes Suc_le_eq dest: patchEqual_result)

interpretation byte_measure: cloned_measure clone_bytes pb_bytes length sizeof_pjson
proof
  show "sizeof_pjson \<le> clone_bytes v" for v by (cases v) auto
qed (auto simp: measureClone_bytes dest: patchEqual_result)

subsection \<open>JSON Patch\<close>

lemma bthen_assoc: "bthen (bthen m f) g = bthen m (\<lambda>x. bthen (f x) g)"
proof
  show "bthen (bthen m f) g b = bthen m (\<lambda>x. bthen (f x) g) b" for b
    by (cases "m b") (auto simp: bthen_def)
qed

lemma bthen_run:
  "m b = Inr (x, b1) \<Longrightarrow> bthen m f b = f x b1" "m b = Inl e \<Longrightarrow> bthen m f b = Inl e"
  by (simp_all only: bthen_def try_bind.simps prod.case)

lemma spends_result:
  assumes "spends i m r c" "budget_ok b"
  shows "(\<exists>e. m b = Inl e \<and> \<not> pe_ok e \<and> pe_opIndex e = i \<and>
        (if pe_code e = ResourceLimit then \<not> spare b c else r = None)) \<or>
    (\<exists>x b'. m b = Inr (x, b') \<and> r = Some x \<and> advances b b' c)"
proof (cases "m b")
  case (Inl e)
  then show ?thesis using spends_fail [OF assms Inl] by blast
next
  case (Inr xb)
  then obtain x b' where "m b = Inr (x, b')" by (cases xb) auto
  then show ?thesis using spends_return [OF assms] by blast
qed

text \<open>
  The whole patch: the patched document; or no room for the first copy of the target; or what
  the run of the operations returns.
\<close>

definition patch_outcome ::
    "json \<Rightarrow> json list \<Rightarrow> PatchBudget \<Rightarrow> nat \<Rightarrow> PatchError + (json \<times> PatchBudget) \<Rightarrow> bool" where
  "patch_outcome target ops b c out =
     (case out of
        Inl e \<Rightarrow> \<not> pe_ok e \<and>
          (pe_code e = ResourceLimit \<longrightarrow> \<not> spare b c) \<and>
          (pe_code e \<noteq> ResourceLimit \<longrightarrow>
            pe_opIndex e < length ops \<and> rfc6902 target (take (pe_opIndex e) ops) \<noteq> None \<and>
            rfc6902 target (take (Suc (pe_opIndex e)) ops) = None)
      | Inr (v, b') \<Rightarrow> rfc6902 target ops = Some v \<and> advances b b' c)"

lemma scratch_outcome:
  assumes "wf_json target" and "list_all wf_json ops"
  shows "\<exists>c. \<forall>b. budget_ok b \<longrightarrow> patch_outcome target ops b c (patch_scratch target (JArray ops) b)"
proof -
  obtain c where c: "\<And>b. budget_ok b \<Longrightarrow>
      run_outcome 0 target ops b c (apply_operations 0 ops target b)"
    using apply_operations_outcome [OF assms(2,1)] by blast
  let ?pre = "bthen (charge_operations (length ops) resetPatchError msg_operations) (\<lambda>_.
      measureClone target resetPatchError)"
  let ?d = "length ops + tree_cost target"
  have pre: "spends (pe_opIndex resetPatchError) ?pre (Some ()) ?d"
    by (rule spends_then_unit [OF spends_charge(1) [OF order_refl] spends_measureClone])
  have whole: "patch_scratch target (JArray ops) = bthen ?pre (\<lambda>_. apply_operations 0 ops target)"
    by (simp add: patch_scratch_def clone_then [OF assms(1)] bthen_assoc)
  have "patch_outcome target ops b (?d + c) (patch_scratch target (JArray ops) b)" if b: "budget_ok b" for b
  proof -
    from spends_result [OF pre b] show ?thesis
    proof (elim disjE exE conjE)
      fix e
      assume "?pre b = Inl e" "\<not> pe_ok e" "if pe_code e = ResourceLimit then \<not> spare b ?d else Some () = None"
      then show ?thesis
        unfolding whole by (auto simp: bthen_def patch_outcome_def spare_def split: if_splits)
    next
      fix x b1
      assume p: "?pre b = Inr (x, b1)" "advances b b1 ?d"
      then have run: "patch_scratch target (JArray ops) b = apply_operations 0 ops target b1"
        unfolding whole by (intro bthen_run)
      from p(2) have "budget_ok b1" by (simp add: advances_def)
      note out = c [OF this]
      show ?thesis
      proof (cases "apply_operations 0 ops target b1")
        case (Inl e)
        with out p(2) show ?thesis
          unfolding run by (auto simp: run_outcome_def patch_outcome_def budget_simps split: if_splits)
      next
        case (Inr vb)
        with out p(2) show ?thesis
          unfolding run by (cases vb) (auto simp: run_outcome_def patch_outcome_def budget_simps)
      qed
    qed
  qed
  then show ?thesis by blast
qed

lemma make_budget_ok [simp]: "budget_ok (make_budget opts)"
  by (simp add: budget_ok_def make_budget_def)

lemma make_budget_zero [simp]: "pb_nodes (make_budget opts) = 0" "pb_bytes (make_budget opts) = 0"
  by (simp_all add: make_budget_def)

lemma patch_not_array:
  "(\<nexists>ops. patch = JArray ops) \<Longrightarrow>
    applyPatch target patch opts = (False, target, failPatch resetPatchError InvalidPatchDocument msg_patch_array)"
  by (cases patch) (simp_all add: applyPatch_def patch_scratch_def bfail_def)

text \<open>A concrete patch for the instances: replace the member \<open>a\<close> by \<open>true\<close>.\<close>

definition sample_operation :: json where
  "sample_operation =
     JObject [(''op'', JString ''replace''), (''path'', JString ''/a''), (''value'', JBool True)]"

lemma sample_operation_simps:
  "member_string sample_operation ''op'' = Some ''replace''"
  "member_string sample_operation ''path'' = Some ''/a''"
  "find_key sample_operation ''value'' = Some (JBool True)" "isObject sample_operation"
  "wf_json sample_operation"
  by (simp_all add: sample_operation_def member_string_def isObject_def)

lemma sample_path: "decodePointer ''/a'' = Inr [''a'']"
  by (simp add: decodePointer_iff)

lemma clone_value_wf: "wf_json v \<Longrightarrow> clone_value v err b = Inr (v, b)"
  by (simp add: clone_value_def cloneNode_def copyContentsInto_id bdone_def)

lemmas budget_eval = make_budget_def default_patch_options_def bthen_def charge_defs chargePatch_def
  measureClone_def measure_node_def bdone_def bfail_def check_children_def remaining_work_def
  clone_value_wf sizeof_pjson_def

lemmas patch_eval = budget_eval applyPatch_def patch_scratch_def apply_operation_def
  sample_operation_simps sample_path Let_def known_operation_def decode_operation_def
  decodePatchPointer_def finish_operation_def run_operation_def replaceAtPointer_def
  resolvePatchTokens_def resolvePointerTokens_def

lemma sample_run:
  "applyPatch (JObject [(''a'', JInt 1)]) (JArray [sample_operation]) default_patch_options =
    (True, JObject [(''a'', JBool True)], resetPatchError)"
  by (simp add: patch_eval)

lemma sample_failure:
  "applyPatch (JObject []) (JArray [sample_operation]) default_patch_options =
    (False, JObject [], failPatchAtToken
      (resetPatchError\<lparr>pe_opIndex := 0, pe_op := ''replace'', pe_path := ''/a''\<rparr>)
      TargetMissing 0 ''a'' msg_replace_missing)"
  by (simp add: patch_eval)

text \<open>C14: \<open>applyPatch\<close> refines RFC 6902 and is atomic. On success the patch is an array and the
  target becomes what the recursive semantics of its operations gives; on failure the target is
  untouched, and unless a resource budget was exceeded the semantics has no result either.\<close>

theorem applyPatch_refines_rfc6902:
  assumes "wf_json target" and "wf_json patch" and "applyPatch target patch opts = (ok, target', e)"
  shows "if ok then e = resetPatchError \<and> (\<exists>ops. patch = JArray ops \<and> rfc6902 target ops = Some target')
    else target' = target \<and> \<not> pe_ok e \<and>
      (pe_code e \<noteq> ResourceLimit \<longrightarrow> (\<forall>ops. patch = JArray ops \<longrightarrow> rfc6902 target ops = None))"
proof (cases "\<exists>ops. patch = JArray ops")
  case True
  then obtain ops where ops: "patch = JArray ops" by blast
  with assms(2) have "list_all wf_json ops" by simp
  then obtain c where out: "patch_outcome target ops (make_budget opts) c
      (patch_scratch target (JArray ops) (make_budget opts))"
    using scratch_outcome [OF assms(1)] make_budget_ok by blast
  have prefix: "rfc6902 v ps = None" if "rfc6902 v (take k ps) = None" for v k ps
    using that
  proof (induction ps arbitrary: v k)
    case (Cons p ps)
    then show ?case by (cases k) (auto split: bind_splits)
  qed simp
  show ?thesis
    using out assms(3) unfolding ops applyPatch_def
    by (auto simp: patch_outcome_def split: sum.splits prod.splits intro: prefix)
next
  case False
  then show ?thesis using assms(3) by (auto simp: patch_not_array)
qed

theorem applyPatch_refines_rfc6902_witness:
  "rfc6902 (JObject [(''a'', JInt 1)]) [sample_operation] = Some (JObject [(''a'', JBool True)])"
  using applyPatch_refines_rfc6902 [OF _ _ sample_run] by (simp add: sample_operation_simps)

text \<open>C15: budgets are the only obstacle: for every target and array of operations some allowance
  exists such that, whenever all four limits are at least that, \<open>applyPatch\<close> succeeds exactly
  when the semantics has a result, and then produces that result.\<close>

theorem applyPatch_complete:
  assumes "wf_json target" and "list_all wf_json ops"
  shows "\<exists>c. \<forall>opts. spare (make_budget opts) c \<longrightarrow>
    (case rfc6902 target ops of
       Some v \<Rightarrow> applyPatch target (JArray ops) opts = (True, v, resetPatchError)
     | None \<Rightarrow> \<exists>e. applyPatch target (JArray ops) opts = (False, target, e))"
proof -
  obtain c where c: "\<And>b. budget_ok b \<Longrightarrow>
      patch_outcome target ops b c (patch_scratch target (JArray ops) b)"
    using scratch_outcome [OF assms] by blast
  have prefix: "rfc6902 v (take k ps) = None \<Longrightarrow> rfc6902 v ps = None" for v k ps
  proof (induction ps arbitrary: v k)
    case (Cons p ps)
    then show ?case by (cases k) (auto split: bind_splits)
  qed simp
  have "case rfc6902 target ops of
       Some v \<Rightarrow> applyPatch target (JArray ops) opts = (True, v, resetPatchError)
     | None \<Rightarrow> \<exists>e. applyPatch target (JArray ops) opts = (False, target, e)"
    if "spare (make_budget opts) c" for opts
  proof (cases "patch_scratch target (JArray ops) (make_budget opts)")
    case (Inl e)
    with c [OF make_budget_ok, of opts] that have "rfc6902 target ops = None"
      by (auto simp: patch_outcome_def intro: prefix)
    with Inl show ?thesis by (simp add: applyPatch_def)
  next
    case (Inr vb)
    with c [OF make_budget_ok, of opts] show ?thesis
      by (cases vb) (auto simp: patch_outcome_def applyPatch_def)
  qed
  then show ?thesis by blast
qed

theorem applyPatch_complete_witness:
  "\<exists>c. \<forall>opts. spare (make_budget opts) c \<longrightarrow>
    applyPatch (JArray []) (JArray []) opts = (True, JArray [], resetPatchError)"
  using applyPatch_complete [of "JArray []" "[]"] by simp

text \<open>C16: a failure of an operation names it: the error's operation index is the first operation
  that cannot be applied, and the operations before it can.\<close>

theorem applyPatch_failing_operation:
  assumes "wf_json target" and "list_all wf_json ops"
    and "applyPatch target (JArray ops) opts = (False, target', e)"
    and "pe_code e \<noteq> ResourceLimit"
  shows "pe_opIndex e < length ops \<and> rfc6902 target (take (pe_opIndex e) ops) \<noteq> None
    \<and> rfc6902 target (take (Suc (pe_opIndex e)) ops) = None"
proof -
  obtain c where "patch_outcome target ops (make_budget opts) c
      (patch_scratch target (JArray ops) (make_budget opts))"
    using scratch_outcome [OF assms(1,2)] make_budget_ok by blast
  with assms(3,4) show ?thesis
    by (auto simp: patch_outcome_def applyPatch_def split: sum.splits prod.splits)
qed

theorem applyPatch_failing_operation_witness:
  "rfc6902 (JObject []) [] \<noteq> None \<and> rfc6902 (JObject []) [sample_operation] = None"
  using applyPatch_failing_operation [OF _ _ sample_failure]
  by (simp add: sample_operation_simps failPatchAtToken_def failPatch_def)

text \<open>C17: a patch cannot amplify: however it copies, the patched document has at most as many
  nodes as the cloned-node limit and its nodes, strings and names fill at most as many bytes as
  the cloned-byte limit.\<close>

theorem applyPatch_bounded:
  assumes "wf_json target" and "wf_json patch" and "applyPatch target patch opts = (True, target', e)"
  shows "nodes target' \<le> nodeLimit (make_budget opts) \<and> clone_bytes target' \<le> byteLimit (make_budget opts)"
proof -
  from assms(3) obtain ops where ops: "patch = JArray ops"
    by (cases patch) (auto simp: applyPatch_def patch_scratch_def bfail_def)
  with assms(2) have "list_all wf_json ops" by simp
  then obtain c where out: "patch_outcome target ops (make_budget opts) c
      (patch_scratch target patch (make_budget opts))"
    using scratch_outcome [OF assms(1)] make_budget_ok unfolding ops by blast
  from assms(3) obtain b' where run: "patch_scratch target patch (make_budget opts) = Inr (target', b')"
    by (auto simp: applyPatch_def split: sum.splits)
  with out have "pb_nodes b' \<le> nodeLimit (make_budget opts)" "pb_bytes b' \<le> byteLimit (make_budget opts)"
    by (auto simp: patch_outcome_def budget_simps)
  with node_measure.patch_paid [OF run assms(1,2)] byte_measure.patch_paid [OF run assms(1,2)]
  show ?thesis by simp
qed

theorem applyPatch_bounded_witness:
  "nodes (JObject [(''a'', JBool True)]) \<le> nodeLimit (make_budget default_patch_options)"
  using applyPatch_bounded [OF _ _ sample_run] by (simp add: sample_operation_simps)

subsection \<open>JSON Merge Patch\<close>

lemma merge_scratch_result:
  assumes "wf_json target" and "wf_json patch"
  shows "\<exists>c. spends 0 (merge_scratch target patch) (Some (merge_patch target patch)) c"
  using computes_merge_scratch [OF assms] by (simp add: computes_def)

text \<open>C18: \<open>applyMergePatch\<close>, an explicit work list, computes the recursive merge of RFC 7396: when
  it succeeds the target is the merge, when it fails the target is untouched and a resource budget
  was exceeded, and with large enough budgets it succeeds.\<close>

theorem applyMergePatch_refines_rfc7396:
  assumes "wf_json target" and "wf_json patch"
  shows "\<exists>c. \<forall>opts.
    applyMergePatch target patch opts = (True, merge_patch target patch, resetPatchError)
    \<or> (\<exists>e. applyMergePatch target patch opts = (False, target, e) \<and> \<not> pe_ok e
        \<and> pe_code e = ResourceLimit \<and> \<not> spare (make_budget opts) c)"
proof -
  obtain c where c: "spends 0 (merge_scratch target patch) (Some (merge_patch target patch)) c"
    using merge_scratch_result [OF assms] by blast
  have "applyMergePatch target patch opts = (True, merge_patch target patch, resetPatchError)
    \<or> (\<exists>e. applyMergePatch target patch opts = (False, target, e) \<and> \<not> pe_ok e
        \<and> pe_code e = ResourceLimit \<and> \<not> spare (make_budget opts) c)" for opts
    using spends_result [OF c make_budget_ok, of opts]
    by (auto simp: applyMergePatch_def split: if_splits)
  then show ?thesis by blast
qed

theorem applyMergePatch_refines_rfc7396_witness:
  "\<exists>c. \<forall>opts. spare (make_budget opts) c \<longrightarrow>
    applyMergePatch (JObject [(''a'', JInt 1), (''b'', JNull)]) (JObject [(''a'', JNull), (''c'', JObject [])]) opts
      = (True, JObject [(''b'', JNull), (''c'', JObject [])], resetPatchError)"
  using applyMergePatch_refines_rfc7396
    [of "JObject [(''a'', JInt 1), (''b'', JNull)]" "JObject [(''a'', JNull), (''c'', JObject [])]"]
  by auto

text \<open>C19: a merge patch cannot amplify either: the merged document stays within the cloned-node
  and cloned-byte limits.\<close>

theorem applyMergePatch_bounded:
  assumes "wf_json target" and "wf_json patch"
    and "applyMergePatch target patch opts = (True, target', e)"
  shows "nodes target' \<le> nodeLimit (make_budget opts) \<and> clone_bytes target' \<le> byteLimit (make_budget opts)"
proof -
  obtain c where c: "spends 0 (merge_scratch target patch) (Some (merge_patch target patch)) c"
    using merge_scratch_result [OF assms(1,2)] by blast
  from assms(3) obtain b' where run: "merge_scratch target patch (make_budget opts) = Inr (target', b')"
    by (auto simp: applyMergePatch_def split: sum.splits)
  from spends_return [OF c make_budget_ok run]
  have "pb_nodes b' \<le> nodeLimit (make_budget opts)" "pb_bytes b' \<le> byteLimit (make_budget opts)"
    by (auto simp: budget_simps)
  with node_measure.merge_paid [OF run assms(1,2)] byte_measure.merge_paid [OF run assms(1,2)]
  show ?thesis by simp
qed

theorem applyMergePatch_bounded_witness:
  "applyMergePatch JNull (JBool True) default_patch_options = (True, JBool True, resetPatchError) \<and>
    nodes (JBool True) \<le> nodeLimit (make_budget default_patch_options)"
proof -
  have run: "applyMergePatch JNull (JBool True) default_patch_options = (True, JBool True, resetPatchError)"
    by (simp add: applyMergePatch_def merge_scratch_def budget_eval applyMergePatchTo_def
        clone_merged_def cloneNode_def copyContentsInto_id)
  show ?thesis using run applyMergePatch_bounded [OF _ _ run] by simp
qed

end
