(* ===== verification/Utf8.thy ===== *)
theory Utf8
  imports Prelude
begin

section \<open>UTF-8 and escaped code units\<close>

text \<open>
  \<open>appendUtf8\<close> and \<open>hex4\<close> of \<open>pjson_parser.cpp\<close> and \<open>_utf8Len\<close> of \<open>pjson.cpp\<close>. Code points and
  bytes are naturals: a byte is at most 255 and every \<open>uint32_t\<close> the code forms here is below
  2^24, so no operation wraps. The specification is the set of Unicode scalar values and their
  encodings.
\<close>

unbundle bit_operations_syntax

abbreviation byte :: "char \<Rightarrow> nat" where "byte ch \<equiv> of_char ch"

subsection \<open>The code\<close>

definition appendUtf8 :: "nat \<Rightarrow> string \<Rightarrow> string" where
  "appendUtf8 cp out =
     out @ map char_of
       (if cp \<le> 0x7F then [cp]
        else if cp \<le> 0x7FF then [0xC0 OR drop_bit 6 cp, 0x80 OR (cp AND 0x3F)]
        else if cp \<le> 0xFFFF then
          [0xE0 OR drop_bit 12 cp, 0x80 OR (drop_bit 6 cp AND 0x3F), 0x80 OR (cp AND 0x3F)]
        else
          [0xF0 OR drop_bit 18 cp, 0x80 OR (drop_bit 12 cp AND 0x3F),
           0x80 OR (drop_bit 6 cp AND 0x3F), 0x80 OR (cp AND 0x3F)])"

text \<open>One hexadecimal digit, as the three range checks of the code.\<close>

definition hex_digit :: "char \<Rightarrow> nat option" where
  "hex_digit h =
     (if CHR ''0'' \<le> h \<and> h \<le> CHR ''9'' then Some (byte h - 48)
      else if CHR ''a'' \<le> h \<and> h \<le> CHR ''f'' then Some (byte h - 97 + 10)
      else if CHR ''A'' \<le> h \<and> h \<le> CHR ''F'' then Some (byte h - 65 + 10)
      else None)"

fun hex_loop :: "string \<Rightarrow> nat \<Rightarrow> nat option" where
  "hex_loop [] out = Some out"
| "hex_loop (h # hs) out =
     (case hex_digit h of None \<Rightarrow> None | Some d \<Rightarrow> hex_loop hs (push_bit 4 out OR d))"

text \<open>The four bytes at \<open>start\<close>; the callers check that they lie inside the input.\<close>

definition hex4 :: "string \<Rightarrow> nat \<Rightarrow> nat option" where
  "hex4 src start = hex_loop (take 4 (drop start src)) 0"

text \<open>The continuation bytes: the code point, or \<^const>\<open>None\<close> at a byte that is not one.\<close>

fun utf8_tail :: "string \<Rightarrow> nat \<Rightarrow> nat option" where
  "utf8_tail [] cp = Some cp"
| "utf8_tail (ck # cs) cp =
     (if (byte ck AND 0xC0) \<noteq> 0x80 then None
      else utf8_tail cs (push_bit 6 cp OR (byte ck AND 0x3F)))"

text \<open>The lead byte: sequence length, its payload bits and the least code point of that length.\<close>

definition utf8_lead :: "nat \<Rightarrow> (nat \<times> nat \<times> nat) option" where
  "utf8_lead c0 =
     (if c0 AND 0xE0 = 0xC0 then Some (2, c0 AND 0x1F, 0x80)
      else if c0 AND 0xF0 = 0xE0 then Some (3, c0 AND 0x0F, 0x800)
      else if c0 AND 0xF8 = 0xF0 then Some (4, c0 AND 0x07, 0x10000)
      else None)"

definition utf8Len :: "string \<Rightarrow> nat \<Rightarrow> nat \<Rightarrow> nat" where
  "utf8Len src pos stop =
     (let c0 = byte (src ! pos)
      in if c0 < 0x80 then 1
         else
           case utf8_lead c0 of
                None \<Rightarrow> 0
              | Some (n, cp, lo) \<Rightarrow>
                  if pos + n > stop then 0
                  else
                    (case utf8_tail (take (n - 1) (drop (Suc pos) src)) cp of
                       None \<Rightarrow> 0
                     | Some cp \<Rightarrow>
                         if cp < lo then 0
                         else if cp > 0x10FFFF then 0
                         else if 0xD800 \<le> cp \<and> cp \<le> 0xDFFF then 0
                         else n))"

subsection \<open>Scalar values and their encodings\<close>

definition scalar_value :: "nat \<Rightarrow> bool" where
  "scalar_value cp \<longleftrightarrow> cp \<le> 0x10FFFF \<and> \<not> (0xD800 \<le> cp \<and> cp \<le> 0xDFFF)"

definition continuation :: "nat \<Rightarrow> char" where
  "continuation d = char_of (0x80 + d mod 64)"

definition utf8 :: "nat \<Rightarrow> string" where
  "utf8 cp =
     (if cp < 0x80 then [char_of cp]
      else if cp < 0x800 then [char_of (0xC0 + cp div 64), continuation cp]
      else if cp < 0x10000 then
        [char_of (0xE0 + cp div 4096), continuation (cp div 64), continuation cp]
      else
        [char_of (0xF0 + cp div 262144), continuation (cp div 4096), continuation (cp div 64),
         continuation cp])"

subsection \<open>Bits\<close>

lemma or_disjoint: "a < 2 ^ n \<Longrightarrow> push_bit n b OR a = 2 ^ n * b + (a :: nat)"
proof -
  assume "a < 2 ^ n"
  then have "push_bit n b AND a = 0"
    by (auto intro!: bit_eqI simp: bit_simps)
      (metis bit_take_bit_iff not_le take_bit_nat_eq_self)
  then show ?thesis
    by (simp add: disjunctive_add_eq_or [symmetric] push_bit_eq_mult mult.commute)
qed

lemma and_63: "(a :: nat) AND 0x3F = a mod 64"
  using take_bit_eq_mask [of 6 a] by (simp add: take_bit_eq_mod mask_eq_exp_minus_1)

lemma or_80: "a < 64 \<Longrightarrow> 0x80 OR (a :: nat) = 0x80 + a"
  using or_disjoint [of a 6 2] by (simp add: push_bit_eq_mult)

lemma or_C0: "a < 32 \<Longrightarrow> 0xC0 OR (a :: nat) = 0xC0 + a"
  using or_disjoint [of a 5 6] by (simp add: push_bit_eq_mult)

lemma or_E0: "a < 16 \<Longrightarrow> 0xE0 OR (a :: nat) = 0xE0 + a"
  using or_disjoint [of a 4 14] by (simp add: push_bit_eq_mult)

lemma or_F0: "a < 8 \<Longrightarrow> 0xF0 OR (a :: nat) = 0xF0 + a"
  using or_disjoint [of a 3 30] by (simp add: push_bit_eq_mult)

lemma byte_less: "byte ch < 256"
  using of_char_mod_256 [of ch, where 'a = nat] by (metis mod_less_divisor zero_less_numeral)

lemma and_low: "(c :: nat) AND (2 ^ n - 1) = c mod 2 ^ n"
  using take_bit_eq_mask [of n c] by (simp add: take_bit_eq_mod mask_eq_exp_minus_1)

lemma and_high: "(c :: nat) < 2 ^ (n + k) \<Longrightarrow> c AND push_bit n (mask k) = 2 ^ n * (c div 2 ^ n)"
proof -
  assume c: "c < 2 ^ (n + k)"
  have "c AND push_bit n (mask k) = push_bit n (drop_bit n c AND mask k)"
    by (auto intro!: bit_eqI simp: bit_simps)
  moreover have "drop_bit n c < 2 ^ k"
    using c by (simp add: drop_bit_eq_div less_mult_imp_div_less power_add mult.commute)
  ultimately show ?thesis
    by (simp add: take_bit_eq_mask [symmetric] take_bit_nat_eq_self push_bit_eq_mult drop_bit_eq_div mult.commute)
qed

lemma lead_bytes:
  assumes "c < 256"
  shows "(c AND 0xC0 = 0x80) \<longleftrightarrow> c div 64 = (2 :: nat)" "(c AND 0xE0 = 0xC0) \<longleftrightarrow> c div 32 = (6 :: nat)"
    "(c AND 0xF0 = 0xE0) \<longleftrightarrow> c div 16 = (14 :: nat)" "(c AND 0xF8 = 0xF0) \<longleftrightarrow> c div 8 = (30 :: nat)"
  using assms and_high [of c 6 2] and_high [of c 5 3] and_high [of c 4 4] and_high [of c 3 5]
  by (auto simp: push_bit_eq_mult mask_eq_exp_minus_1)

lemma low_bits:
  "c AND 0x1F = (c :: nat) mod 32" "c AND 0x0F = (c :: nat) mod 16" "c AND 0x07 = (c :: nat) mod 8"
  using and_low [of c 5] and_low [of c 4] and_low [of c 3] by simp_all

text \<open>The code's encoder is the specification's.\<close>

lemma appendUtf8_utf8: "cp \<le> 0x10FFFF \<Longrightarrow> appendUtf8 cp out = out @ utf8 cp"
  by (simp add: appendUtf8_def utf8_def continuation_def and_63 or_80 or_C0 or_E0 or_F0 drop_bit_eq_div)

subsection \<open>Sequences the code accepts\<close>

text \<open>A complete sequence, decoded and range-checked as the code does.\<close>

definition utf8_sequence :: "string \<Rightarrow> nat option" where
  "utf8_sequence cs =
     (case cs of
        [] \<Rightarrow> None
      | c0 # tail \<Rightarrow>
          (case utf8_lead (byte c0) of
             None \<Rightarrow> None
           | Some (n, cp0, lo) \<Rightarrow>
               if length cs \<noteq> n then None
               else
                 (case utf8_tail tail cp0 of
                    None \<Rightarrow> None
                  | Some cp \<Rightarrow>
                      if lo \<le> cp \<and> scalar_value cp then Some cp else None)))"

lemma continuation_bits:
  "byte ck AND 0xC0 = 0x80 \<longleftrightarrow> (\<exists>d < 64. byte ck = 0x80 + d)"
proof -
  have "byte ck div 64 = 2 \<longleftrightarrow> (\<exists>d < 64. byte ck = 0x80 + d)"
  proof
    assume "byte ck div 64 = 2"
    then have "byte ck = 0x80 + byte ck mod 64"
      using div_mult_mod_eq [of "byte ck" 64] by simp
    then show "\<exists>d < 64. byte ck = 0x80 + d" by (intro exI [of _ "byte ck mod 64"]) simp
  qed auto
  then show ?thesis using lead_bytes(1) [OF byte_less] by simp
qed

lemma digit64: "d < 64 \<Longrightarrow> (64 * x + d) div 64 = (x :: nat)" "d < 64 \<Longrightarrow> (64 * x + d) mod 64 = (d :: nat)"
  by simp_all

lemma join64: "64 * (v div 64) + v mod 64 = (v :: nat)"
  by simp

lemma div64: "(v :: nat) div 4096 = v div 64 div 64" "(v :: nat) div 262144 = v div 64 div 64 div 64"
  by (simp_all add: div_mult2_eq [symmetric])

lemma utf8_tail_continuation:
  assumes "d < 64"
  shows "utf8_tail (char_of (0x80 + d) # cs) cp = utf8_tail cs (64 * cp + d)"
proof -
  have b: "byte (char_of (0x80 + d)) = 0x80 + d" using assms by (simp add: of_char_of)
  have "(0x80 + d) mod 64 = d" using digit64(2) [OF assms, of 2] by simp
  then have "push_bit 6 cp OR (byte (char_of (0x80 + d)) AND 0x3F) = 64 * cp + d"
    using or_disjoint [of d 6 cp] assms unfolding b by (simp add: and_63)
  moreover have "byte (char_of (0x80 + d)) AND 0xC0 = 0x80"
    using assms b continuation_bits by blast
  ultimately show ?thesis by simp
qed

lemma utf8_tail_Cons:
  "utf8_tail (ck # cs) cp = Some v \<longleftrightarrow>
    (\<exists>d < 64. ck = char_of (0x80 + d) \<and> utf8_tail cs (64 * cp + d) = Some v)"
proof
  assume run: "utf8_tail (ck # cs) cp = Some v"
  then have "byte ck AND 0xC0 = 0x80" by (simp split: if_splits)
  then obtain d where d: "d < 64" "byte ck = 0x80 + d" using continuation_bits by blast
  then have "ck = char_of (0x80 + d)" by (metis char_of_char)
  with d run show "\<exists>d < 64. ck = char_of (0x80 + d) \<and> utf8_tail cs (64 * cp + d) = Some v"
    using utf8_tail_continuation by metis
qed (auto simp: utf8_tail_continuation simp del: utf8_tail.simps(2))

declare utf8_tail.simps(2) [simp del]

lemma short_lists:
  "length xs = 1 \<longleftrightarrow> (\<exists>a. xs = [a])" "length xs = 2 \<longleftrightarrow> (\<exists>a b. xs = [a, b])"
  "length xs = 3 \<longleftrightarrow> (\<exists>a b c. xs = [a, b, c])"
  by (auto simp: length_Suc_conv numeral_2_eq_2 numeral_3_eq_3)

lemma utf8_lead_cases:
  assumes "c < 256"
  shows "utf8_lead c =
    (if c div 32 = 6 then Some (2, c mod 32, 0x80)
     else if c div 16 = 14 then Some (3, c mod 16, 0x800)
     else if c div 8 = 30 then Some (4, c mod 8, 0x10000)
     else None)"
  by (simp add: utf8_lead_def lead_bytes [OF assms] low_bits)

lemma utf8_lengths:
  "0x80 \<le> cp \<Longrightarrow> cp < 0x800 \<Longrightarrow> utf8 cp = [char_of (0xC0 + cp div 64), continuation cp]"
  "0x800 \<le> cp \<Longrightarrow> cp < 0x10000 \<Longrightarrow>
    utf8 cp = [char_of (0xE0 + cp div 4096), continuation (cp div 64), continuation cp]"
  "0x10000 \<le> cp \<Longrightarrow> utf8 cp = [char_of (0xF0 + cp div 262144), continuation (cp div 4096),
    continuation (cp div 64), continuation cp]"
  by (simp_all add: utf8_def)

lemma continuation_digit: "x mod 64 = d \<Longrightarrow> char_of (0x80 + d) = continuation x"
  by (simp add: continuation_def)

lemma utf8_sequence_sound:
  assumes "utf8_sequence cs = Some cp"
  shows "cs = utf8 cp \<and> scalar_value cp \<and> 0x80 \<le> cp"
proof -
  from assms obtain c0 tail n cp0 lo where cs: "cs = c0 # tail" "utf8_lead (byte c0) = Some (n, cp0, lo)"
    "length cs = n" "utf8_tail tail cp0 = Some cp" "lo \<le> cp" "scalar_value cp"
    by (auto simp: utf8_sequence_def split: list.splits option.splits if_splits)
  let ?c = "byte c0"
  have c0: "c0 = char_of ?c" by simp
  consider (two) "?c div 32 = 6" "n = 2" "cp0 = ?c mod 32" "lo = 0x80"
    | (three) "?c div 16 = 14" "n = 3" "cp0 = ?c mod 16" "lo = 0x800"
    | (four) "?c div 8 = 30" "n = 4" "cp0 = ?c mod 8" "lo = 0x10000"
    using cs(2) by (auto simp: utf8_lead_cases [OF byte_less] split: if_splits)
  then show ?thesis
  proof cases
    case two
    then have "length tail = 1" using cs(1,3) by simp
    then obtain a where "tail = [a]" unfolding short_lists by blast
    with cs(4) obtain d where d: "d < 64" "tail = [char_of (0x80 + d)]" "cp = 64 * cp0 + d"
      by (auto simp: utf8_tail_Cons)
    have "?c = 0xC0 + cp0" using two div_mult_mod_eq [of ?c 32] by simp
    moreover have "cp0 < 32" using two by simp
    moreover have "cp div 64 = cp0" "cp mod 64 = d" using d digit64 by simp_all
    ultimately show ?thesis
      using cs(1,5,6) d two c0 by (simp add: utf8_lengths(1) continuation_digit)
  next
    case three
    then have "length tail = 2" using cs(1,3) by simp
    then obtain a b where "tail = [a, b]" unfolding short_lists by blast
    with cs(4) obtain d e where d: "d < 64" "e < 64" "tail = [char_of (0x80 + d), char_of (0x80 + e)]"
      "cp = 64 * (64 * cp0 + d) + e"
      by (auto simp: utf8_tail_Cons)
    have "?c = 0xE0 + cp0" using three div_mult_mod_eq [of ?c 16] by simp
    moreover have "cp < 0x10000"
    proof -
      have "cp0 \<le> 15" "d \<le> 63" "e \<le> 63" using three d by simp_all
      with d(4) show ?thesis by simp
    qed
    moreover have "cp div 4096 = cp0" "cp div 64 mod 64 = d" "cp mod 64 = e"
      using d by (simp_all only: digit64 div64)
    ultimately show ?thesis
      using cs(1,5,6) d(3) three c0
      by (simp add: utf8_lengths(2) continuation_digit)
  next
    case four
    then have "length tail = 3" using cs(1,3) by simp
    then obtain a b c where "tail = [a, b, c]" unfolding short_lists by blast
    with cs(4) obtain d e f where d: "d < 64" "e < 64" "f < 64"
      "tail = [char_of (0x80 + d), char_of (0x80 + e), char_of (0x80 + f)]"
      "cp = 64 * (64 * (64 * cp0 + d) + e) + f"
      by (auto simp: utf8_tail_Cons)
    have "?c = 0xF0 + cp0" using four div_mult_mod_eq [of ?c 8] by simp
    moreover have "cp div 262144 = cp0" "cp div 4096 mod 64 = d" "cp div 64 mod 64 = e" "cp mod 64 = f"
      using d by (simp_all only: digit64 div64)
    ultimately show ?thesis
      using cs(1,5,6) d(4) four c0
      by (simp add: utf8_lengths(3) continuation_digit)
  qed
qed

lemma lead_digit: "d < k \<Longrightarrow> (k * q + d) div k = (q :: nat)" "d < k \<Longrightarrow> (k * q + d) mod k = (d :: nat)"
  by simp_all

lemma utf8_lead_exact:
  "d < 32 \<Longrightarrow> utf8_lead (0xC0 + d) = Some (2, d, 0x80)"
  "d < 16 \<Longrightarrow> utf8_lead (0xE0 + d) = Some (3, d, 0x800)"
  "d < 8 \<Longrightarrow> utf8_lead (0xF0 + d) = Some (4, d, 0x10000)"
  using lead_digit [of d 32 6] lead_digit [of d 16 14] lead_digit [of d 8 30]
    lead_digit(1) [of d 32 7] lead_digit(1) [of "16 + d" 32 7] lead_digit(1) [of d 16 15]
  by (simp_all add: utf8_lead_cases)

lemma utf8_sequence_utf8:
  assumes "scalar_value cp" and "0x80 \<le> cp"
  shows "utf8_sequence (utf8 cp) = Some cp"
proof -
  have tail: "utf8_tail (continuation x # cs) v = utf8_tail cs (64 * v + x mod 64)" for x cs v
    by (simp add: continuation_def utf8_tail_continuation)
  have max: "cp \<le> 0x10FFFF" using assms by (simp add: scalar_value_def)
  consider "cp < 0x800" | "0x800 \<le> cp" "cp < 0x10000" | "0x10000 \<le> cp" by linarith
  then show ?thesis
  proof cases
    case 1
    then have d: "cp div 64 < 32" by (simp add: less_mult_imp_div_less)
    then have "byte (char_of (0xC0 + cp div 64)) = 0xC0 + cp div 64" by (simp add: of_char_of)
    moreover have "64 * (cp div 64) + cp mod 64 = cp" by (rule join64)
    ultimately show ?thesis
      using assms unfolding utf8_lengths(1) [OF assms(2) 1]
      by (simp add: utf8_sequence_def utf8_lead_exact(1) [OF d] tail del: mult_div_mod_eq)
  next
    case 2
    then have d: "cp div 4096 < 16" by (simp add: less_mult_imp_div_less)
    then have "byte (char_of (0xE0 + cp div 4096)) = 0xE0 + cp div 4096" by (simp add: of_char_of)
    moreover have "64 * (64 * (cp div 4096) + cp div 64 mod 64) + cp mod 64 = cp"
      by (simp only: div64 join64)
    ultimately show ?thesis
      using 2 assms unfolding utf8_lengths(2) [OF 2]
      by (simp only: utf8_sequence_def list.case utf8_lead_exact(2) [OF d] option.case prod.case tail
          utf8_tail.simps(1)) simp
  next
    case 3
    then have d: "cp div 262144 < 8" using max by (simp add: less_mult_imp_div_less)
    then have "byte (char_of (0xF0 + cp div 262144)) = 0xF0 + cp div 262144" by (simp add: of_char_of)
    moreover have "64 * (64 * (64 * (cp div 262144) + cp div 4096 mod 64) + cp div 64 mod 64) + cp mod 64 = cp"
      by (simp only: div64 join64)
    ultimately show ?thesis
      using 3 assms unfolding utf8_lengths(3) [OF 3]
      by (simp only: utf8_sequence_def list.case utf8_lead_exact(3) [OF d] option.case prod.case tail
          utf8_tail.simps(1)) simp
  qed
qed

lemma utf8_sequence_iff:
  "utf8_sequence cs = Some cp \<longleftrightarrow> cs = utf8 cp \<and> scalar_value cp \<and> 0x80 \<le> cp"
  using utf8_sequence_sound utf8_sequence_utf8 by blast

text \<open>The length check of the DOM parser, in terms of the encodings.\<close>

lemma utf8_lead_length: "utf8_lead c = Some (n, cp, lo) \<Longrightarrow> n = 2 \<or> n = 3 \<or> n = 4"
  by (auto simp: utf8_lead_def split: if_splits)

lemma utf8Len_sequence:
  assumes "pos < stop" and "stop \<le> length src" and "0x80 \<le> byte (src ! pos)"
  shows "utf8Len src pos stop = n \<and> n \<noteq> 0 \<longleftrightarrow>
    pos + n \<le> stop \<and> utf8_sequence (take n (drop pos src)) \<noteq> None"
proof -
  have split: "take (Suc k) (drop pos src) = src ! pos # take k (drop (Suc pos) src)" for k
    using assms by (simp add: drop_nth_Cons)
  show ?thesis
  proof (cases "utf8_lead (byte (src ! pos))")
    case None
    then show ?thesis
      using assms(3) by (cases n) (auto simp: utf8Len_def split utf8_sequence_def)
  next
    case (Some l)
    then obtain m cp0 lo where lead: "utf8_lead (byte (src ! pos)) = Some (m, cp0, lo)" by (cases l) auto
    then obtain k where m: "m = Suc k" using utf8_lead_length [OF lead] by (cases m) auto
    have "utf8_sequence (take n (drop pos src)) \<noteq> None \<longleftrightarrow>
        n = m \<and> (\<exists>cp. utf8_tail (take k (drop (Suc pos) src)) cp0 = Some cp \<and> lo \<le> cp \<and> scalar_value cp)"
      if "pos + n \<le> stop"
    proof (cases n)
      case (Suc j)
      have "length (take j (drop (Suc pos) src)) = j" using that Suc assms(2) by simp
      then show ?thesis
        unfolding Suc split
        by (auto simp: utf8_sequence_def lead m split: option.splits)
    qed (use m in \<open>simp add: utf8_sequence_def\<close>)
    moreover have "utf8Len src pos stop = n \<and> n \<noteq> 0 \<longleftrightarrow> pos + m \<le> stop \<and> n = m \<and>
        (\<exists>cp. utf8_tail (take k (drop (Suc pos) src)) cp0 = Some cp \<and> lo \<le> cp \<and> scalar_value cp)"
      using assms(3)
      by (auto simp: utf8Len_def lead m scalar_value_def split: option.splits)
    ultimately show ?thesis by auto
  qed
qed

lemma utf8Len_iff:
  assumes "pos < stop" and "stop \<le> length src" and "0x80 \<le> byte (src ! pos)"
  shows "utf8Len src pos stop = n \<and> n \<noteq> 0 \<longleftrightarrow>
    pos + n \<le> stop \<and> (\<exists>cp. scalar_value cp \<and> 0x80 \<le> cp \<and> take n (drop pos src) = utf8 cp)"
  unfolding utf8Len_sequence [OF assms] not_None_eq utf8_sequence_iff by blast

subsection \<open>Escaped code units\<close>

fun hex_number :: "string \<Rightarrow> nat \<Rightarrow> nat option" where
  "hex_number [] n = Some n"
| "hex_number (h # hs) n =
     (case hex_digit h of None \<Rightarrow> None | Some d \<Rightarrow> hex_number hs (16 * n + d))"

lemma hex_digit_less: "hex_digit h = Some d \<Longrightarrow> d < 16"
  by (auto simp: hex_digit_def less_eq_char_def split: if_splits)

lemma hex_loop_number: "hex_loop hs n = hex_number hs n"
proof (induction hs arbitrary: n)
  case (Cons h hs)
  have "push_bit 4 n OR d = 16 * n + d" if "hex_digit h = Some d" for d
    using or_disjoint [of d 4 n] hex_digit_less [OF that] by simp
  with Cons show ?case by (auto split: option.split)
qed simp

lemma hex_number_bound: "hex_number hs n = Some u \<Longrightarrow> u < 16 ^ length hs * Suc n"
proof (induction hs arbitrary: n)
  case (Cons h hs)
  then obtain d where d: "hex_digit h = Some d" "hex_number hs (16 * n + d) = Some u"
    by (auto split: option.splits)
  then have "u < 16 ^ length hs * Suc (16 * n + d)" using Cons.IH by blast
  also have "\<dots> \<le> 16 ^ length hs * (16 * Suc n)"
    using hex_digit_less [OF d(1)] by (intro mult_le_mono2) simp
  finally show ?case by (simp add: algebra_simps)
qed simp

lemma hex4_less: "hex4 src start = Some u \<Longrightarrow> u < 65536"
proof -
  assume "hex4 src start = Some u"
  then have "u < 16 ^ length (take 4 (drop start src)) * Suc 0"
    unfolding hex4_def hex_loop_number by (rule hex_number_bound)
  also have "\<dots> \<le> 16 ^ 4" using power_increasing [of "length (take 4 (drop start src))" 4 "16 :: nat"] by simp
  finally show ?thesis by simp
qed

end
