(* ===== verification/Number_Token.thy ===== *)
theory Number_Token
  imports Decimal Binary64
begin

section \<open>Number tokens\<close>

text \<open>
  \<open>scanJsonNumber\<close>, \<open>parseDouble\<close> and \<open>convertNumberToken\<close> of \<open>pjson_parser.cpp\<close>. The scanner is
  a template over a cursor with \<open>peek\<close> and \<open>take\<close>; here the two operations are the fields of a
  record and the cursor is a state they may change, since a stream fills its buffer when it is
  looked at. A result is \<^const>\<open>None\<close> when the scan does not return, which only a cursor without an
  end allows.
\<close>

subsection \<open>Scanning with a cursor\<close>

record 's scanner =
  sc_peek :: "'s \<Rightarrow> char option \<times> 's"
  sc_take :: "'s \<Rightarrow> char option \<times> 's"

text \<open>A failure carries the message, or none when \<open>take\<close> failed and has already reported.\<close>

type_synonym ('a, 's) scanned = "((string option \<times> 's) + ('a \<times> 's)) option"

fun sthen :: "('a, 's) scanned \<Rightarrow> ('a \<Rightarrow> 's \<Rightarrow> ('b, 's) scanned) \<Rightarrow> ('b, 's) scanned" where
  "sthen None f = None"
| "sthen (Some (Inl e)) f = Some (Inl e)"
| "sthen (Some (Inr (a, s))) f = f a s"

definition msg_end_of_input :: string where
  "msg_end_of_input = ''unexpected end of input; expected a value''"
definition msg_number_digit :: string where
  "msg_number_digit = ''invalid number: expected digit''"
definition msg_number_fraction :: string where
  "msg_number_fraction = ''invalid number: '.' must be followed by a digit''"
definition msg_number_exponent :: string where
  "msg_number_exponent = ''invalid number: exponent must have a digit''"

text \<open>The text with the byte taken from the cursor.\<close>

definition scan_take :: "'s scanner \<Rightarrow> string \<Rightarrow> 's \<Rightarrow> (string, 's) scanned" where
  "scan_take sc txt s =
     (case sc_take sc s of
        (None, s1) \<Rightarrow> Some (Inl (None, s1))
      | (Some ch, s1) \<Rightarrow> Some (Inr (txt @ [ch], s1)))"

text \<open>\<open>do \<dots> while\<close> the next byte is a digit.\<close>

partial_function (option) scan_digits :: "'s scanner \<Rightarrow> string \<Rightarrow> 's \<Rightarrow> (string, 's) scanned" where
  "scan_digits sc txt s =
     (case sc_take sc s of
        (None, s1) \<Rightarrow> Some (Inl (None, s1))
      | (Some ch, s1) \<Rightarrow>
          (case sc_peek sc s1 of
             (None, s2) \<Rightarrow> Some (Inr (txt @ [ch], s2))
           | (Some d, s2) \<Rightarrow>
               if is_digit d then scan_digits sc (txt @ [ch]) s2
               else Some (Inr (txt @ [ch], s2))))"

text \<open>The optional minus sign: the text so far and the next byte.\<close>

definition scan_sign :: "'s scanner \<Rightarrow> 's \<Rightarrow> (string \<times> char, 's) scanned" where
  "scan_sign sc s =
     (case sc_peek sc s of
        (None, s1) \<Rightarrow> Some (Inl (Some msg_end_of_input, s1))
      | (Some ch, s1) \<Rightarrow>
          if ch = CHR ''-'' then
            sthen (scan_take sc [] s1) (\<lambda>txt s2.
              case sc_peek sc s2 of
                (None, s3) \<Rightarrow> Some (Inl (Some msg_number_digit, s3))
              | (Some ch, s3) \<Rightarrow> Some (Inr ((txt, ch), s3)))
          else Some (Inr (([], ch), s1)))"

definition scan_integer :: "'s scanner \<Rightarrow> string \<times> char \<Rightarrow> 's \<Rightarrow> (string, 's) scanned" where
  "scan_integer sc = (\<lambda>(txt, ch) s.
     if ch = CHR ''0'' then scan_take sc txt s
     else if CHR ''1'' \<le> ch \<and> ch \<le> CHR ''9'' then scan_digits sc txt s
     else Some (Inl (Some msg_number_digit, s)))"

text \<open>A digit must follow, then as many as there are.\<close>

definition scan_some_digits ::
    "'s scanner \<Rightarrow> string \<Rightarrow> string \<Rightarrow> 's \<Rightarrow> (string, 's) scanned" where
  "scan_some_digits sc msg txt s =
     (case sc_peek sc s of
        (None, s1) \<Rightarrow> Some (Inl (Some msg, s1))
      | (Some ch, s1) \<Rightarrow>
          if \<not> is_digit ch then Some (Inl (Some msg, s1)) else scan_digits sc txt s1)"

definition scan_fraction :: "'s scanner \<Rightarrow> string \<Rightarrow> 's \<Rightarrow> (string \<times> bool, 's) scanned" where
  "scan_fraction sc txt s =
     (case sc_peek sc s of
        (None, s1) \<Rightarrow> Some (Inr ((txt, False), s1))
      | (Some ch, s1) \<Rightarrow>
          if ch = CHR ''.'' then
            sthen (scan_take sc txt s1) (\<lambda>txt s2.
            sthen (scan_some_digits sc msg_number_fraction txt s2) (\<lambda>txt s3.
              Some (Inr ((txt, True), s3))))
          else Some (Inr ((txt, False), s1)))"

definition scan_exponent_sign :: "'s scanner \<Rightarrow> string \<Rightarrow> 's \<Rightarrow> (string, 's) scanned" where
  "scan_exponent_sign sc txt s =
     (case sc_peek sc s of
        (None, s1) \<Rightarrow> Some (Inr (txt, s1))
      | (Some ch, s1) \<Rightarrow>
          if ch = CHR ''+'' \<or> ch = CHR ''-'' then scan_take sc txt s1 else Some (Inr (txt, s1)))"

definition scan_exponent :: "'s scanner \<Rightarrow> string \<times> bool \<Rightarrow> 's \<Rightarrow> (string \<times> bool, 's) scanned" where
  "scan_exponent sc = (\<lambda>(txt, isFloat) s.
     case sc_peek sc s of
       (None, s1) \<Rightarrow> Some (Inr ((txt, isFloat), s1))
     | (Some ch, s1) \<Rightarrow>
         if ch = CHR ''e'' \<or> ch = CHR ''E'' then
           sthen (scan_take sc txt s1) (\<lambda>txt s2.
           sthen (scan_exponent_sign sc txt s2) (\<lambda>txt s3.
           sthen (scan_some_digits sc msg_number_exponent txt s3) (\<lambda>txt s4.
             Some (Inr ((txt, True), s4)))))
         else Some (Inr ((txt, isFloat), s1)))"

definition scanJsonNumber :: "'s scanner \<Rightarrow> 's \<Rightarrow> (string \<times> bool, 's) scanned" where
  "scanJsonNumber sc s =
     sthen (scan_sign sc s) (\<lambda>tc s.
     sthen (scan_integer sc tc s) (\<lambda>txt s.
     sthen (scan_fraction sc txt s) (\<lambda>tf s.
       scan_exponent sc tf s)))"

subsection \<open>Converting a token\<close>

datatype NumberPolicy = RejectUnrepresentableNumbers | AllowLossyNumbers

datatype ParsedNumber = SignedInteger i64 | UnsignedInteger u64 | FloatingPoint double

text \<open>The decimal a number token denotes: sign, digits without the point, power of ten.\<close>

definition is_exponent_mark :: "char \<Rightarrow> bool" where
  "is_exponent_mark c \<longleftrightarrow> c = CHR ''e'' \<or> c = CHR ''E''"

definition token_negative :: "string \<Rightarrow> bool" where
  "token_negative t \<longleftrightarrow> t \<noteq> [] \<and> hd t = CHR ''-''"

definition token_unsigned :: "string \<Rightarrow> string" where
  "token_unsigned t = (if token_negative t then tl t else t)"

definition token_significand :: "string \<Rightarrow> string" where
  "token_significand t = takeWhile (\<lambda>c. \<not> is_exponent_mark c) (token_unsigned t)"

definition token_exponent :: "string \<Rightarrow> string" where
  "token_exponent t = tl (dropWhile (\<lambda>c. \<not> is_exponent_mark c) (token_unsigned t))"

definition signed_digits :: "string \<Rightarrow> int" where
  "signed_digits s =
     (case s of
        [] \<Rightarrow> 0
      | c # cs \<Rightarrow>
          if c = CHR ''-'' then - int (digits_value 0 cs)
          else if c = CHR ''+'' then int (digits_value 0 cs)
          else int (digits_value 0 s))"

definition significand_digits :: "string \<Rightarrow> string" where
  "significand_digits t = filter (\<lambda>c. c \<noteq> CHR ''.'') (token_significand t)"

definition fraction_length :: "string \<Rightarrow> nat" where
  "fraction_length t = length (tl (dropWhile (\<lambda>c. c \<noteq> CHR ''.'') (token_significand t)))"

definition token_power :: "string \<Rightarrow> int" where
  "token_power t = signed_digits (token_exponent t) - int (fraction_length t)"

text \<open>
  Extraction of a \<open>double\<close> from a stream in the classic locale: the correctly rounded value, or
  the largest finite double of the sign and \<open>failbit\<close> when the value is beyond the range.
  Standard libraries differ on values that underflow; \<open>uf\<close> says whether this one sets
  \<open>failbit\<close> for them. The whole token is read, so the stream is at its end.
\<close>

definition token_double :: "string \<Rightarrow> double" where
  "token_double t =
     (let n = digits_value 0 (significand_digits t); e = token_power t
      in if 0 \<le> e then nearest_double (token_negative t) (n * 10 ^ nat e) 1
         else nearest_double (token_negative t) n (10 ^ nat (- e)))"

text \<open>Nonzero and below the least normal double.\<close>

definition token_underflows :: "string \<Rightarrow> bool" where
  "token_underflows t \<longleftrightarrow>
     digits_value 0 (significand_digits t) \<noteq> 0 \<and> double_code (token_double t) < 2 ^ 52"

definition stream_double :: "bool \<Rightarrow> string \<Rightarrow> bool \<times> double" where
  "stream_double uf t =
     (if \<not> isfinite (token_double t) then (True, double_max (token_negative t))
      else (uf \<and> token_underflows t, token_double t))"

definition exponent_cap :: int where "exponent_cap = 1000000000"

text \<open>The explicit exponent, saturated at the cap.\<close>

fun explicit_digits :: "string \<Rightarrow> int \<Rightarrow> int" where
  "explicit_digits [] e = e"
| "explicit_digits (c # cs) e =
     (let digit = int (of_char c) - 48
      in if e > (exponent_cap - digit) div 10 then exponent_cap
         else explicit_digits cs (e * 10 + digit))"

definition explicit_exponent :: "string \<Rightarrow> int" where
  "explicit_exponent s =
     (case s of
        [] \<Rightarrow> 0
      | c # cs \<Rightarrow>
          if c = CHR ''-'' then - explicit_digits cs 0
          else if c = CHR ''+'' then explicit_digits cs 0
          else explicit_digits s 0)"

text \<open>Digits before the point and the ordinal of the first nonzero digit.\<close>

definition digits_before_point :: "string \<Rightarrow> nat" where
  "digits_before_point t = length (takeWhile (\<lambda>c. c \<noteq> CHR ''.'') (token_significand t))"

definition first_nonzero :: "string \<Rightarrow> nat option" where
  "first_nonzero t =
     (let zeros = length (takeWhile (\<lambda>c. c = CHR ''0'') (significand_digits t))
      in if zeros = length (significand_digits t) then None else Some zeros)"

definition effective_exponent :: "string \<Rightarrow> nat \<Rightarrow> int" where
  "effective_exponent t firstNonzero =
     (let explicitExponent = explicit_exponent (token_exponent t);
          baseExponent = int (digits_before_point t) - int firstNonzero - 1
      in if explicitExponent > exponent_cap - baseExponent then exponent_cap
         else if explicitExponent < - exponent_cap - baseExponent then - exponent_cap
         else explicitExponent + baseExponent)"

text \<open>The value and whether a nonzero token became zero; \<^const>\<open>None\<close> is \<open>false\<close>.\<close>

definition parseDouble :: "bool \<Rightarrow> string \<Rightarrow> (double \<times> bool) option" where
  "parseDouble uf t =
     (let (failbit, val) = stream_double uf t; zero = (double_eq val double_zero)
      in if failbit \<and> \<not> isfinite val then None
         else case first_nonzero t of
           None \<Rightarrow> Some (val, False)
         | Some firstNonzero \<Rightarrow>
             if \<not> failbit then Some (val, zero)
             else if effective_exponent t firstNonzero \<ge> 0 then None
             else Some (val, zero))"

definition msg_integer_range :: string where
  "msg_integer_range = ''integer out of range; enable AllowLossyNumbers to store as double''"
definition msg_number_range :: string where
  "msg_number_range = ''number out of range''"
definition msg_number_underflow :: string where
  "msg_number_underflow =
     ''number underflows to zero; enable AllowLossyNumbers to permit rounding''"

text \<open>The value \<open>strtoll\<close> and \<open>strtoull\<close> read; \<open>ERANGE\<close> is a value outside the type.\<close>

definition integer_text :: "string \<Rightarrow> int" where
  "integer_text t = signed_digits (token_unsigned t) * (if token_negative t then - 1 else 1)"

definition convert_floating ::
    "bool \<Rightarrow> string \<Rightarrow> NumberPolicy \<Rightarrow> string + ParsedNumber" where
  "convert_floating uf t policy =
     (case parseDouble uf t of
        None \<Rightarrow> Inl msg_number_range
      | Some (d, underflowToZero) \<Rightarrow>
          if \<not> isfinite d then Inl msg_number_range
          else if underflowToZero \<and> policy \<noteq> AllowLossyNumbers then Inl msg_number_underflow
          else Inr (FloatingPoint d))"

definition convertNumberToken ::
    "bool \<Rightarrow> string \<Rightarrow> bool \<Rightarrow> NumberPolicy \<Rightarrow> string + ParsedNumber" where
  "convertNumberToken uf t isFloat policy =
     (let v = integer_text t
      in if isFloat then convert_floating uf t policy
         else if - (2 ^ 63) \<le> v \<and> v < 2 ^ 63 then Inr (SignedInteger (word_of_int v))
         else if (t = [] \<or> hd t \<noteq> CHR ''-'') \<and> v < 2 ^ 64 then
           Inr (UnsignedInteger (word_of_int v))
         else if policy \<noteq> AllowLossyNumbers then Inl msg_integer_range
         else convert_floating uf t policy)"

subsection \<open>The number grammar\<close>

definition digit_run :: "string \<Rightarrow> bool" where
  "digit_run ds \<longleftrightarrow> ds \<noteq> [] \<and> list_all is_digit ds"

definition number_sign :: "string \<Rightarrow> bool" where
  "number_sign s \<longleftrightarrow> s = [] \<or> s = ''-''"

definition number_fraction :: "string \<Rightarrow> bool" where
  "number_fraction s \<longleftrightarrow> s = [] \<or> (\<exists>ds. s = CHR ''.'' # ds \<and> digit_run ds)"

definition exponent_sign :: "string \<Rightarrow> bool" where
  "exponent_sign s \<longleftrightarrow> s = [] \<or> s = ''+'' \<or> s = ''-''"

definition number_exponent :: "string \<Rightarrow> bool" where
  "number_exponent s \<longleftrightarrow> s = [] \<or>
     (\<exists>e sg ds. s = e # sg @ ds \<and> is_exponent_mark e \<and> exponent_sign sg \<and> digit_run ds)"

text \<open>RFC 8259: sign, integer without leading zeros, fraction, exponent; the flag says whether a
  fraction or an exponent is present.\<close>

definition jnumber :: "string \<Rightarrow> bool \<Rightarrow> bool" where
  "jnumber t isFloat \<longleftrightarrow>
     (\<exists>sg i fr ex. t = sg @ i @ fr @ ex \<and> number_sign sg \<and> canonical_decimal i
       \<and> number_fraction fr \<and> number_exponent ex \<and> isFloat = (fr \<noteq> [] \<or> ex \<noteq> []))"

text \<open>What cannot follow a number without belonging to it.\<close>

definition number_end :: "string \<Rightarrow> bool" where
  "number_end r \<longleftrightarrow>
     r = [] \<or> \<not> is_digit (hd r) \<and> hd r \<noteq> CHR ''.'' \<and> \<not> is_exponent_mark (hd r)"

subsection \<open>The scanner on a text\<close>

text \<open>Each phase returns what it read and the rest.\<close>

definition text_sign :: "string \<Rightarrow> string + (string \<times> string)" where
  "text_sign x =
     (case x of
        [] \<Rightarrow> Inl msg_end_of_input
      | c # r \<Rightarrow>
          if c = CHR ''-'' then if r = [] then Inl msg_number_digit else Inr ([c], r)
          else Inr ([], x))"

definition text_integer :: "string \<Rightarrow> string + (string \<times> string)" where
  "text_integer x =
     (case x of
        [] \<Rightarrow> Inl msg_number_digit
      | c # r \<Rightarrow>
          if c = CHR ''0'' then Inr ([c], r)
          else if is_digit c then Inr (c # takeWhile is_digit r, dropWhile is_digit r)
          else Inl msg_number_digit)"

definition text_digits :: "string \<Rightarrow> string \<Rightarrow> string + (string \<times> string)" where
  "text_digits msg x =
     (case x of
        [] \<Rightarrow> Inl msg
      | c # r \<Rightarrow>
          if is_digit c then Inr (c # takeWhile is_digit r, dropWhile is_digit r) else Inl msg)"

definition text_fraction :: "string \<Rightarrow> string + (string \<times> string)" where
  "text_fraction x =
     (case x of
        [] \<Rightarrow> Inr ([], [])
      | c # r \<Rightarrow>
          if c = CHR ''.'' then
            try_bind (text_digits msg_number_fraction r) (\<lambda>(ds, r'). Inr (c # ds, r'))
          else Inr ([], x))"

definition text_exponent_sign :: "string \<Rightarrow> string \<times> string" where
  "text_exponent_sign x =
     (case x of
        [] \<Rightarrow> ([], [])
      | c # r \<Rightarrow> if c = CHR ''+'' \<or> c = CHR ''-'' then ([c], r) else ([], x))"

definition text_exponent :: "string \<Rightarrow> string + (string \<times> string)" where
  "text_exponent x =
     (case x of
        [] \<Rightarrow> Inr ([], [])
      | c # r \<Rightarrow>
          if is_exponent_mark c then
            (let (sg, r1) = text_exponent_sign r
             in try_bind (text_digits msg_number_exponent r1) (\<lambda>(ds, r'). Inr (c # sg @ ds, r')))
          else Inr ([], x))"

definition text_number :: "string \<Rightarrow> string + ((string \<times> bool) \<times> string)" where
  "text_number x =
     try_bind (text_sign x) (\<lambda>(sg, r1).
     try_bind (text_integer r1) (\<lambda>(i, r2).
     try_bind (text_fraction r2) (\<lambda>(fr, r3).
     try_bind (text_exponent r3) (\<lambda>(ex, r4).
       Inr ((sg @ i @ fr @ ex, fr \<noteq> [] \<or> ex \<noteq> []), r4)))))"

lemma is_digit_cases: "is_digit c \<longleftrightarrow> c = CHR ''0'' \<or> CHR ''1'' \<le> c \<and> c \<le> CHR ''9''"
proof -
  have "c = CHR ''0'' \<longleftrightarrow> of_char c = (48 :: nat)"
    using of_char_eq_iff [of c "CHR ''0''", where 'a = nat] by simp
  then show ?thesis by (auto simp: is_digit_def less_eq_char_def)
qed

lemma not_digit [simp]:
  "is_digit (CHR ''0'')" "\<not> is_digit (CHR ''-'')" "\<not> is_digit (CHR ''+'')" "\<not> is_digit (CHR ''.'')"
  "is_exponent_mark c \<Longrightarrow> \<not> is_digit c"
  by (auto simp: is_digit_def is_exponent_mark_def less_eq_char_def)

lemma takeWhile_run:
  "list_all P ds \<Longrightarrow> r = [] \<or> \<not> P (hd r) \<Longrightarrow> takeWhile P (ds @ r) = ds \<and> dropWhile P (ds @ r) = r"
  by (induction ds) (cases r; auto)+

lemma text_digits_run:
  "digit_run ds \<Longrightarrow> r = [] \<or> \<not> is_digit (hd r) \<Longrightarrow> text_digits msg (ds @ r) = Inr (ds, r)"
  using takeWhile_run [of is_digit "tl ds" r]
  by (cases ds) (auto simp: digit_run_def text_digits_def)

lemma text_digits_result:
  "text_digits msg x = Inr (ds, r) \<Longrightarrow>
    x = ds @ r \<and> digit_run ds \<and> (r = [] \<or> \<not> is_digit (hd r))"
  by (cases x)
    (auto simp: text_digits_def digit_run_def list_all_iff hd_dropWhile dest: set_takeWhileD split: if_splits)

lemma text_integer_canonical:
  "canonical_decimal i \<Longrightarrow> r = [] \<or> \<not> is_digit (hd r) \<Longrightarrow> text_integer (i @ r) = Inr (i, r)"
  using takeWhile_run [of is_digit "tl i" r]
  by (cases i) (auto simp: canonical_decimal_def text_integer_def)

lemma text_integer_result:
  "text_integer x = Inr (i, r) \<Longrightarrow> x = i @ r \<and> canonical_decimal i"
  by (cases x)
    (auto simp: text_integer_def canonical_decimal_def list_all_iff
      dest: set_takeWhileD split: if_splits)

lemma text_number_result:
  assumes "text_number x = Inr ((t, f), r)"
  shows "x = t @ r \<and> jnumber t f"
proof -
  from assms obtain sg r1 i r2 fr r3 ex where
    p: "text_sign x = Inr (sg, r1)" "text_integer r1 = Inr (i, r2)" "text_fraction r2 = Inr (fr, r3)"
      "text_exponent r3 = Inr (ex, r)"
    and t: "t = sg @ i @ fr @ ex" "f = (fr \<noteq> [] \<or> ex \<noteq> [])"
    by (fastforce simp: text_number_def)
  have "x = sg @ r1 \<and> number_sign sg"
    using p(1) by (auto simp: text_sign_def number_sign_def split: list.splits if_splits)
  moreover have "r1 = i @ r2 \<and> canonical_decimal i" using p(2) by (rule text_integer_result)
  moreover have "r2 = fr @ r3 \<and> number_fraction fr"
    using p(3)
    by (auto simp: text_fraction_def number_fraction_def dest!: text_digits_result split: list.splits if_splits)
  moreover have "r3 = ex @ r \<and> number_exponent ex"
  proof (cases r3)
    case (Cons c r')
    show ?thesis
    proof (cases "is_exponent_mark c")
      case True
      obtain sg2 r4 where sg2: "text_exponent_sign r' = (sg2, r4)" by (cases "text_exponent_sign r'")
      with Cons True p(4) obtain ds where "text_digits msg_number_exponent r4 = Inr (ds, r)"
        and ex: "ex = c # sg2 @ ds"
        by (auto simp: text_exponent_def)
      then have "r4 = ds @ r" "digit_run ds" by (auto dest: text_digits_result)
      moreover have "r' = sg2 @ r4 \<and> exponent_sign sg2"
        using sg2 by (auto simp: text_exponent_sign_def exponent_sign_def split: list.splits if_splits)
      ultimately show ?thesis using True Cons ex by (auto simp: number_exponent_def)
    next
      case False
      with Cons p(4) show ?thesis by (auto simp: text_exponent_def number_exponent_def)
    qed
  qed (use p(4) in \<open>auto simp: text_exponent_def number_exponent_def\<close>)
  ultimately show ?thesis unfolding jnumber_def using t by auto
qed

lemma number_part_end:
  "number_fraction fr \<Longrightarrow> number_exponent ex \<Longrightarrow> number_end r \<Longrightarrow>
    fr @ ex @ r = [] \<or> \<not> is_digit (hd (fr @ ex @ r))"
  "number_exponent ex \<Longrightarrow> number_end r \<Longrightarrow>
    ex @ r = [] \<or> \<not> is_digit (hd (ex @ r)) \<and> hd (ex @ r) \<noteq> CHR ''.''"
  by (auto simp: number_fraction_def number_exponent_def number_end_def is_exponent_mark_def)

lemma text_number_complete:
  assumes "jnumber t f" and r: "number_end r"
  shows "text_number (t @ r) = Inr ((t, f), r)"
proof -
  from assms(1) obtain sg i fr ex where t: "t = sg @ i @ fr @ ex" and f: "f = (fr \<noteq> [] \<or> ex \<noteq> [])"
    and p: "number_sign sg" "canonical_decimal i" "number_fraction fr" "number_exponent ex"
    by (auto simp: jnumber_def)
  from p(2) obtain c cs where i: "i = c # cs" "is_digit c"
    by (cases i) (auto simp: canonical_decimal_def)
  then have "c \<noteq> CHR ''-''" by auto
  with p(1) i have "text_sign (t @ r) = Inr (sg, i @ fr @ ex @ r)"
    by (auto simp: t number_sign_def text_sign_def)
  moreover have "text_integer (i @ fr @ ex @ r) = Inr (i, fr @ ex @ r)"
    using text_integer_canonical [OF p(2) number_part_end(1) [OF p(3,4) r]] .
  moreover have "text_fraction (fr @ ex @ r) = Inr (fr, ex @ r)"
  proof (cases fr)
    case Nil
    then show ?thesis
      using number_part_end(2) [OF p(4) r] by (auto simp: text_fraction_def split: list.split)
  next
    case (Cons d ds)
    then have "d = CHR ''.''" "digit_run ds" using p(3) by (auto simp: number_fraction_def)
    then show ?thesis
      using number_part_end(2) [OF p(4) r] text_digits_run [of ds "ex @ r" msg_number_fraction]
      by (auto simp: Cons text_fraction_def)
  qed
  moreover have "text_exponent (ex @ r) = Inr (ex, r)"
  proof (cases ex)
    case Nil
    then show ?thesis
      using r by (auto simp: text_exponent_def number_end_def split: list.split)
  next
    case (Cons e ys)
    then obtain sg2 ds where e: "is_exponent_mark e" "exponent_sign sg2" "digit_run ds" "ys = sg2 @ ds"
      using p(4) by (auto simp: number_exponent_def)
    from e(3) obtain d ds' where d: "ds = d # ds'" "is_digit d" by (cases ds) (auto simp: digit_run_def)
    then have "d \<noteq> CHR ''+''" "d \<noteq> CHR ''-''" by auto
    with e d have "text_exponent_sign (ys @ r) = (sg2, ds @ r)"
      by (auto simp: exponent_sign_def text_exponent_sign_def)
    then show ?thesis
      using e text_digits_run [of ds r msg_number_exponent] r
      by (auto simp: Cons text_exponent_def number_end_def)
  qed
  ultimately show ?thesis by (simp add: text_number_def f t)
qed

subsection \<open>Any cursor scans what its text is\<close>

text \<open>
  What the scanner relies on: looking shows the first remaining byte and taking removes it.
  \<open>ok\<close> is whatever else the client keeps true of its cursor.
\<close>

locale number_cursor =
  fixes sc :: "'s scanner" and rest :: "'s \<Rightarrow> string" and ok :: "'s \<Rightarrow> bool"
  assumes peek: "ok s \<Longrightarrow> \<exists>s'. sc_peek sc s = (case rest s of [] \<Rightarrow> None | c # r \<Rightarrow> Some c, s')
      \<and> ok s' \<and> rest s' = rest s"
    and take: "ok s \<Longrightarrow> rest s = c # r \<Longrightarrow> \<exists>s'. sc_take sc s = (Some c, s') \<and> ok s' \<and> rest s' = r"
begin

definition scans :: "('b, 's) scanned \<Rightarrow> 'b \<Rightarrow> string \<Rightarrow> bool" where
  "scans m b r \<longleftrightarrow> (\<exists>s'. m = Some (Inr (b, s')) \<and> ok s' \<and> rest s' = r)"

definition rejects :: "('b, 's) scanned \<Rightarrow> string \<Rightarrow> bool" where
  "rejects m msg \<longleftrightarrow> (\<exists>s'. m = Some (Inl (Some msg, s')) \<and> ok s')"

lemma scans_return [simp]: "ok s \<Longrightarrow> scans (Some (Inr (b, s))) b (rest s)"
  by (auto simp: scans_def)

lemma rejects_return [simp]: "ok s \<Longrightarrow> rejects (Some (Inl (Some msg, s))) msg"
  by (auto simp: rejects_def)

lemma scans_then:
  assumes "scans m b r" and "\<And>s. ok s \<Longrightarrow> rest s = r \<Longrightarrow> P (f b s)"
  shows "P (sthen m f)"
  using assms by (auto simp: scans_def)

lemma rejects_then: "rejects m msg \<Longrightarrow> rejects (sthen m f) msg"
  by (auto simp: rejects_def)

lemma peek_empty: "ok s \<Longrightarrow> rest s = [] \<Longrightarrow> \<exists>s'. sc_peek sc s = (None, s') \<and> ok s' \<and> rest s' = []"
  using peek [of s] by auto

lemma peek_byte:
  "ok s \<Longrightarrow> rest s = c # r \<Longrightarrow> \<exists>s'. sc_peek sc s = (Some c, s') \<and> ok s' \<and> rest s' = c # r"
  using peek [of s] by auto

lemma take_scans: "ok s \<Longrightarrow> rest s = c # r \<Longrightarrow> scans (scan_take sc txt s) (txt @ [c]) r"
  using take [of s c r] by (auto simp: scan_take_def scans_def)

lemma digits_scan:
  "ok s \<Longrightarrow> rest s = c # r \<Longrightarrow>
    scans (scan_digits sc txt s) (txt @ c # takeWhile is_digit r) (dropWhile is_digit r)"
proof (induction r arbitrary: s c "txt")
  case Nil
  then obtain s1 where s1: "sc_take sc s = (Some c, s1)" "ok s1" "rest s1 = []" using take by blast
  then obtain s2 where "sc_peek sc s1 = (None, s2)" "ok s2" "rest s2 = []" using peek_empty by blast
  with s1 show ?case by (subst scan_digits.simps) (auto simp: scans_def)
next
  case (Cons d r)
  then obtain s1 where s1: "sc_take sc s = (Some c, s1)" "ok s1" "rest s1 = d # r" using take by blast
  then obtain s2 where s2: "sc_peek sc s1 = (Some d, s2)" "ok s2" "rest s2 = d # r"
    using peek_byte by blast
  show ?case
  proof (cases "is_digit d")
    case True
    with s1 s2 Cons.IH [OF s2(2,3), of "txt @ [c]"] show ?thesis
      by (subst scan_digits.simps) simp
  next
    case False
    with s1 s2 show ?thesis by (subst scan_digits.simps) (auto simp: scans_def)
  qed
qed

lemma some_digits_scan:
  assumes "ok s"
  shows "case text_digits msg (rest s) of
      Inl m \<Rightarrow> rejects (scan_some_digits sc msg txt s) m
    | Inr (ds, r) \<Rightarrow> scans (scan_some_digits sc msg txt s) (txt @ ds) r"
proof (cases "rest s")
  case Nil
  with peek_empty [OF assms] show ?thesis
    by (auto simp: text_digits_def scan_some_digits_def)
next
  case (Cons c r)
  with peek_byte [OF assms] obtain s' where s': "sc_peek sc s = (Some c, s')" "ok s'" "rest s' = c # r"
    by blast
  with Cons digits_scan [OF s'(2,3), of "txt"] show ?thesis
    by (auto simp: text_digits_def scan_some_digits_def)
qed

lemma sign_scan:
  assumes "ok s"
  shows "case text_sign (rest s) of
      Inl msg \<Rightarrow> rejects (scan_sign sc s) msg
    | Inr (sg, r) \<Rightarrow> r \<noteq> [] \<and> scans (scan_sign sc s) (sg, hd r) r"
proof (cases "rest s")
  case Nil
  with peek_empty [OF assms] show ?thesis by (auto simp: text_sign_def scan_sign_def)
next
  case (Cons c r)
  with peek_byte [OF assms] obtain s1 where s1: "sc_peek sc s = (Some c, s1)" "ok s1" "rest s1 = c # r"
    by blast
  show ?thesis
  proof (cases "c = CHR ''-''")
    case True
    from take [OF s1(2,3)] obtain s2 where s2: "sc_take sc s1 = (Some c, s2)" "ok s2" "rest s2 = r" by blast
    show ?thesis
    proof (cases r)
      case Nil
      with s1 s2 Cons True peek_empty [OF s2(2)] show ?thesis
        by (auto simp: text_sign_def scan_sign_def scan_take_def)
    next
      case (Cons d r')
      with s2 peek_byte [OF s2(2), of d r'] obtain s3
        where "sc_peek sc s2 = (Some d, s3)" "ok s3" "rest s3 = r"
        by auto
      with s1 s2 \<open>rest s = c # r\<close> True Cons show ?thesis
        by (auto simp: text_sign_def scan_sign_def scan_take_def scans_def)
    qed
  next
    case False
    with s1 Cons show ?thesis by (auto simp: text_sign_def scan_sign_def scans_def)
  qed
qed

lemma integer_scan:
  assumes "ok s" and "rest s \<noteq> []"
  shows "case text_integer (rest s) of
      Inl msg \<Rightarrow> rejects (scan_integer sc (txt, hd (rest s)) s) msg
    | Inr (i, r) \<Rightarrow> scans (scan_integer sc (txt, hd (rest s)) s) (txt @ i) r"
proof -
  from assms(2) obtain c r where "rest s = c # r" by (cases "rest s") auto
  with take_scans [OF assms(1) this, of "txt"] digits_scan [OF assms(1) this, of "txt"] assms(1)
  show ?thesis
    by (auto simp: text_integer_def scan_integer_def is_digit_cases)
qed

lemma fraction_scan:
  assumes "ok s"
  shows "case text_fraction (rest s) of
      Inl msg \<Rightarrow> rejects (scan_fraction sc txt s) msg
    | Inr (fr, r) \<Rightarrow> scans (scan_fraction sc txt s) (txt @ fr, fr \<noteq> []) r"
proof (cases "rest s")
  case Nil
  with peek_empty [OF assms] show ?thesis
    by (auto simp: text_fraction_def scan_fraction_def scans_def)
next
  case (Cons c r)
  with peek_byte [OF assms] obtain s1 where s1: "sc_peek sc s = (Some c, s1)" "ok s1" "rest s1 = c # r"
    by blast
  show ?thesis
  proof (cases "c = CHR ''.''")
    case True
    from take_scans [OF s1(2,3), of "txt"] obtain s2 where
      s2: "scan_take sc txt s1 = Some (Inr (txt @ [c], s2))" "ok s2" "rest s2 = r"
      by (auto simp: scans_def)
    from some_digits_scan [OF s2(2), of msg_number_fraction "txt @ [c]"] s1 s2 Cons True show ?thesis
      by (auto simp: text_fraction_def scan_fraction_def scans_def rejects_def split: sum.splits prod.splits)
  next
    case False
    with s1 Cons show ?thesis by (auto simp: text_fraction_def scan_fraction_def scans_def)
  qed
qed

lemma exponent_sign_scan:
  assumes "ok s"
  shows "case text_exponent_sign (rest s) of (sg, r) \<Rightarrow> scans (scan_exponent_sign sc txt s) (txt @ sg) r"
proof (cases "rest s")
  case Nil
  with peek_empty [OF assms] show ?thesis
    by (auto simp: text_exponent_sign_def scan_exponent_sign_def scans_def)
next
  case (Cons c r)
  with peek_byte [OF assms] obtain s1 where s1: "sc_peek sc s = (Some c, s1)" "ok s1" "rest s1 = c # r"
    by blast
  with Cons take_scans [OF s1(2,3), of "txt"] show ?thesis
    by (auto simp: text_exponent_sign_def scan_exponent_sign_def scans_def)
qed

lemma exponent_scan:
  assumes "ok s"
  shows "case text_exponent (rest s) of
      Inl msg \<Rightarrow> rejects (scan_exponent sc (txt, f) s) msg
    | Inr (ex, r) \<Rightarrow> scans (scan_exponent sc (txt, f) s) (txt @ ex, f \<or> ex \<noteq> []) r"
proof (cases "rest s")
  case Nil
  with peek_empty [OF assms] show ?thesis
    by (auto simp: text_exponent_def scan_exponent_def scans_def)
next
  case (Cons c r)
  with peek_byte [OF assms] obtain s1 where s1: "sc_peek sc s = (Some c, s1)" "ok s1" "rest s1 = c # r"
    by blast
  show ?thesis
  proof (cases "is_exponent_mark c")
    case True
    from take_scans [OF s1(2,3), of "txt"] obtain s2 where
      s2: "scan_take sc txt s1 = Some (Inr (txt @ [c], s2))" "ok s2" "rest s2 = r"
      by (auto simp: scans_def)
    obtain sg r1 where sg: "text_exponent_sign r = (sg, r1)" by (cases "text_exponent_sign r")
    from exponent_sign_scan [OF s2(2), of "txt @ [c]"] obtain s3 where
      s3: "scan_exponent_sign sc (txt @ [c]) s2 = Some (Inr (txt @ c # sg, s3))" "ok s3" "rest s3 = r1"
      by (auto simp: scans_def s2 sg)
    from some_digits_scan [OF s3(2), of msg_number_exponent "txt @ c # sg"] s1 s2 s3 sg Cons True
    show ?thesis
      by (auto simp: text_exponent_def scan_exponent_def scans_def rejects_def is_exponent_mark_def
          split: sum.splits prod.splits)
  next
    case False
    with s1 Cons show ?thesis
      by (auto simp: text_exponent_def scan_exponent_def scans_def is_exponent_mark_def)
  qed
qed

lemma number_scan:
  assumes "ok s"
  shows "case text_number (rest s) of
      Inl msg \<Rightarrow> rejects (scanJsonNumber sc s) msg
    | Inr (tf, r) \<Rightarrow> scans (scanJsonNumber sc s) tf r"
proof (cases "text_sign (rest s)")
  case (Inl msg)
  with sign_scan [OF assms] show ?thesis
    by (auto simp: text_number_def scanJsonNumber_def intro: rejects_then)
next
  case (Inr sr)
  obtain sg r1 where sr: "text_sign (rest s) = Inr (sg, r1)" using Inr by (cases sr) auto
  with sign_scan [OF assms] obtain s1 where
    s1: "scan_sign sc s = Some (Inr ((sg, hd r1), s1))" "ok s1" "rest s1 = r1" "r1 \<noteq> []"
    by (auto simp: scans_def)
  note int = integer_scan [OF s1(2), of sg, unfolded s1(3), OF s1(4)]
  show ?thesis
  proof (cases "text_integer r1")
    case (Inl msg)
    with int s1 sr show ?thesis
      by (auto simp: text_number_def scanJsonNumber_def intro: rejects_then)
  next
    case (Inr ir)
    then obtain i r2 where i: "text_integer r1 = Inr (i, r2)" by (cases ir) auto
    with int obtain s2 where
      s2: "scan_integer sc (sg, hd r1) s1 = Some (Inr (sg @ i, s2))" "ok s2" "rest s2 = r2"
      by (auto simp: scans_def)
    note frac = fraction_scan [OF s2(2), of "sg @ i", unfolded s2(3)]
    show ?thesis
    proof (cases "text_fraction r2")
      case (Inl msg)
      with frac s1 s2 sr i show ?thesis
        by (auto simp: text_number_def scanJsonNumber_def intro: rejects_then)
    next
      case (Inr fr)
      then obtain f r3 where f: "text_fraction r2 = Inr (f, r3)" by (cases fr) auto
      with frac obtain s3 where
        s3: "scan_fraction sc (sg @ i) s2 = Some (Inr ((sg @ i @ f, f \<noteq> []), s3))" "ok s3" "rest s3 = r3"
        by (auto simp: scans_def)
      from exponent_scan [OF s3(2), of "sg @ i @ f" "f \<noteq> []"] s1 s2 s3 sr i f show ?thesis
        by (auto simp: text_number_def scanJsonNumber_def split: sum.splits prod.splits)
    qed
  qed
qed

lemma number_scan_returns: "ok s \<Longrightarrow> scanJsonNumber sc s \<noteq> None"
  using number_scan [of s] by (auto simp: scans_def rejects_def split: sum.splits prod.splits)

end

end
