(* ===== verification/Parse_Error.thy ===== *)
theory Parse_Error
  imports Number_Token
begin

section \<open>Parser options, diagnostics and source coordinates\<close>

text \<open>
  The options and the error record of \<open>pjson_parser.h\<close>, the classification of messages into
  stable codes, and the two computations of line and column: from an offset, and byte by byte as
  the SAX cursors keep them.
\<close>

datatype DuplicateKeyPolicy = RejectDuplicateKeys | KeepFirstDuplicate | KeepLastDuplicate

record ParserOptions =
  po_maxDepth :: int
  po_maxNodes :: nat
  po_maxInputBytes :: nat
  po_duplicateKeys :: DuplicateKeyPolicy
  po_numberPolicy :: NumberPolicy

definition default_parser_options :: ParserOptions where
  "default_parser_options =
     \<lparr>po_maxDepth = 512, po_maxNodes = 1000000, po_maxInputBytes = 64 * 1024 * 1024,
      po_duplicateKeys = RejectDuplicateKeys, po_numberPolicy = RejectUnrepresentableNumbers\<rparr>"

definition DepthHardLimit :: nat where "DepthHardLimit = 1024"

definition clampParseDepth :: "int \<Rightarrow> nat" where
  "clampParseDepth configured =
     (if configured \<le> 0 then 1
      else if configured < int DepthHardLimit then nat configured else DepthHardLimit)"

datatype ParseError_Code =
    Parse_None | Syntax | InvalidEncoding | DuplicateKey | NumberRange | DepthLimit | InputLimit
  | NodeLimit | Parse_AllocationFailure | StreamError | CallbackError | Parse_InvalidArgument

record ParseError =
  er_ok :: bool
  er_code :: ParseError_Code
  er_offset :: nat
  er_line :: nat
  er_column :: nat
  er_message :: string

definition resetParseError :: ParseError where
  "resetParseError =
     \<lparr>er_ok = True, er_code = Parse_None, er_offset = 0, er_line = 1, er_column = 1, er_message = []\<rparr>"

subsection \<open>Line and column\<close>

text \<open>The loop over the bytes before the offset; a CRLF counts as one line ending.\<close>

fun coordinates :: "string \<Rightarrow> nat \<Rightarrow> nat \<Rightarrow> nat \<times> nat" where
  "coordinates [] line column = (line, column)"
| "coordinates (c # cs) line column =
     (if c = char_cr then
        (case cs of
           d # ds \<Rightarrow> if d = char_lf then coordinates ds (Suc line) 1 else coordinates cs (Suc line) 1
         | [] \<Rightarrow> coordinates cs (Suc line) 1)
      else if c = char_lf then coordinates cs (Suc line) 1
      else coordinates cs line (Suc column))"

definition lineAndColumn :: "string \<Rightarrow> nat \<Rightarrow> nat \<times> nat" where
  "lineAndColumn src offset =
     coordinates (take (if offset < length src then offset else length src) src) 1 1"

text \<open>The cursors advance line, column and whether the last byte was a CR.\<close>

type_synonym source_position = "nat \<times> nat \<times> bool"

fun advance_position :: "char \<Rightarrow> source_position \<Rightarrow> source_position" where
  "advance_position ch (line, column, prevWasCR) =
     (if ch = char_cr then (Suc line, 1, True)
      else if ch = char_lf then
        (if prevWasCR then (line, column, False) else (Suc line, 1, False))
      else (line, Suc column, False))"

text \<open>The incremental coordinates are the ones computed from the offset.\<close>

lemma after_cr:
  "c \<noteq> char_lf \<Longrightarrow> advance_position c (line, 1, True) = advance_position c (line, 1, False)"
  "advance_position char_lf (line, 1, True) = (line, 1, False)"
  by simp_all

lemma coordinates_incremental:
  "fold advance_position s (line, column, False) =
    (fst (coordinates s line column), snd (coordinates s line column),
     s \<noteq> [] \<and> last s = char_cr)"
proof (induction s line column rule: coordinates.induct)
  case (2 c cs line column)
  consider "c = char_cr" "cs = []" | ds where "c = char_cr" "cs = char_lf # ds"
    | d ds where "c = char_cr" "cs = d # ds" "d \<noteq> char_lf" | "c = char_lf" | "c \<noteq> char_cr" "c \<noteq> char_lf"
    by (cases cs) auto
  then show ?case
  proof cases
    case 1
    then show ?thesis by simp
  next
    case (2 ds)
    with "2.IH"(2) [of char_lf ds] show ?thesis by simp
  next
    case (3 d ds)
    then have "fold advance_position cs (Suc line, 1, False) =
        (fst (coordinates cs (Suc line) 1), snd (coordinates cs (Suc line) 1),
         cs \<noteq> [] \<and> last cs = char_cr)"
      using "2.IH"(3) [of d ds] by simp
    moreover have "fold advance_position (c # cs) (line, column, False) =
        fold advance_position cs (Suc line, 1, False)"
      using 3 after_cr(1) [of d "Suc line"] by simp
    ultimately show ?thesis using 3 by simp
  next
    case 4
    with "2.IH"(4) show ?thesis by simp
  next
    case 5
    with "2.IH"(5) show ?thesis by simp
  qed
qed simp

subsection \<open>Messages\<close>

text \<open>The phrases are searched in this order.\<close>

definition classifyParseMessage :: "string \<Rightarrow> ParseError_Code" where
  "classifyParseMessage message =
     (if text_contains message ''UTF-8'' \<or> text_contains message ''surrogate''
         \<or> text_contains message ''escape'' \<or> text_contains message (backslash # ''u'')
      then InvalidEncoding
      else if text_contains message ''duplicate object key'' then DuplicateKey
      else if text_contains message ''out of range'' \<or> text_contains message ''number''
      then NumberRange
      else if text_contains message ''nesting depth'' then DepthLimit
      else if text_contains message ''maxInputBytes'' then InputLimit
      else if text_contains message ''maxNodes'' \<or> text_contains message ''node budget''
      then NodeLimit
      else if text_contains message ''out of memory'' then Parse_AllocationFailure
      else if text_contains message ''stream read'' then StreamError
      else Syntax)"

text \<open>The source coordinates come from the offset; \<open>Parse_None\<close> asks for the classification.\<close>

definition setParseError :: "string \<Rightarrow> nat \<Rightarrow> string \<Rightarrow> ParseError_Code \<Rightarrow> ParseError" where
  "setParseError src offset message code =
     (let (line, column) = lineAndColumn src offset
      in \<lparr>er_ok = False,
          er_code = (if code = Parse_None then classifyParseMessage message else code),
          er_offset = offset, er_line = line, er_column = column, er_message = message\<rparr>)"

end
