(* ===== verification/Json_Grammar.thy ===== *)
theory Json_Grammar
  imports Json_Value Utf8 Parse_Error
begin

section \<open>The JSON grammar\<close>

text \<open>
  RFC 8259 as inductive derivations of a text from a syntax tree, independent of any parser, and
  what a tree stands for: its DOM value under the number and duplicate-key policies, its number
  of values and its nesting. Both parsers and the serializer are related to this theory.
\<close>

subsection \<open>Strings\<close>

definition is_ws :: "char \<Rightarrow> bool" where
  "is_ws c \<longleftrightarrow> c = CHR '' '' \<or> c = char_tab \<or> c = char_lf \<or> c = char_cr"

definition simple_escape :: "char \<Rightarrow> char option" where
  "simple_escape e =
     (if e = dquote then Some dquote
      else if e = backslash then Some backslash
      else if e = CHR ''/'' then Some (CHR ''/'')
      else if e = CHR ''b'' then Some char_bs
      else if e = CHR ''f'' then Some char_ff
      else if e = CHR ''n'' then Some char_lf
      else if e = CHR ''r'' then Some char_cr
      else if e = CHR ''t'' then Some char_tab
      else None)"

definition high_surrogate :: "nat \<Rightarrow> bool" where
  "high_surrogate u \<longleftrightarrow> 0xD800 \<le> u \<and> u \<le> 0xDBFF"

definition low_surrogate :: "nat \<Rightarrow> bool" where
  "low_surrogate u \<longleftrightarrow> 0xDC00 \<le> u \<and> u \<le> 0xDFFF"

definition surrogate_pair :: "nat \<Rightarrow> nat \<Rightarrow> nat" where
  "surrogate_pair hi lo = 0x10000 + (hi - 0xD800) * 1024 + (lo - 0xDC00)"

definition plain_char :: "char \<Rightarrow> bool" where
  "plain_char c \<longleftrightarrow> 0x20 \<le> byte c \<and> byte c < 0x80 \<and> c \<noteq> dquote \<and> c \<noteq> backslash"

text \<open>One character of a string: its text and the bytes it decodes to.\<close>

inductive jchar :: "string \<Rightarrow> string \<Rightarrow> bool" where
  char_plain: "plain_char c \<Longrightarrow> jchar [c] [c]"
| char_utf8: "scalar_value cp \<Longrightarrow> 0x80 \<le> cp \<Longrightarrow> jchar (utf8 cp) (utf8 cp)"
| char_escape: "simple_escape e = Some d \<Longrightarrow> jchar [backslash, e] [d]"
| char_unicode: "length h = 4 \<Longrightarrow> hex4 h 0 = Some u \<Longrightarrow> scalar_value u \<Longrightarrow>
    jchar (backslash # CHR ''u'' # h) (utf8 u)"
| char_pair: "length h = 4 \<Longrightarrow> hex4 h 0 = Some hi \<Longrightarrow> high_surrogate hi \<Longrightarrow>
    length l = 4 \<Longrightarrow> hex4 l 0 = Some lo \<Longrightarrow> low_surrogate lo \<Longrightarrow>
    jchar (backslash # CHR ''u'' # h @ backslash # CHR ''u'' # l) (utf8 (surrogate_pair hi lo))"

text \<open>The text between the quotes.\<close>

inductive jchars :: "string \<Rightarrow> string \<Rightarrow> bool" where
  chars_end: "jchars [] []"
| chars_more: "jchar p b \<Longrightarrow> jchars r out \<Longrightarrow> jchars (p @ r) (b @ out)"

inductive_cases jchars_Nil_cases: "jchars [] out"

subsection \<open>Values\<close>

datatype jtree =
    TNull
  | TBool bool
  | TNumber string bool  \<comment> \<open>the token, and whether it has a fraction or an exponent\<close>
  | TString string
  | TArray "jtree list"
  | TObject "(string \<times> jtree) list"  \<comment> \<open>in text order, duplicates included\<close>

definition quoted :: "string \<Rightarrow> string" where
  "quoted s = dquote # s @ [dquote]"

definition spaces :: "string \<Rightarrow> bool" where
  "spaces s \<longleftrightarrow> list_all is_ws s"

inductive jvalue :: "string \<Rightarrow> jtree \<Rightarrow> bool"
  and jelements :: "string \<Rightarrow> jtree list \<Rightarrow> bool"
  and jmembers :: "string \<Rightarrow> (string \<times> jtree) list \<Rightarrow> bool" where
  value_null: "jvalue ''null'' TNull"
| value_true: "jvalue ''true'' (TBool True)"
| value_false: "jvalue ''false'' (TBool False)"
| value_number: "jnumber t f \<Longrightarrow> jvalue t (TNumber t f)"
| value_string: "jchars raw out \<Longrightarrow> jvalue (quoted raw) (TString out)"
| value_empty_array: "spaces w \<Longrightarrow> jvalue (CHR ''['' # w @ '']'') (TArray [])"
| value_array: "jelements s ts \<Longrightarrow> jvalue (CHR ''['' # s @ '']'') (TArray ts)"
| value_empty_object: "spaces w \<Longrightarrow> jvalue (CHR ''{'' # w @ ''}'') (TObject [])"
| value_object: "jmembers s ms \<Longrightarrow> jvalue (CHR ''{'' # s @ ''}'') (TObject ms)"
| element_last: "spaces a \<Longrightarrow> jvalue s t \<Longrightarrow> spaces b \<Longrightarrow> jelements (a @ s @ b) [t]"
| element_more: "spaces a \<Longrightarrow> jvalue s t \<Longrightarrow> spaces b \<Longrightarrow> jelements es ts \<Longrightarrow>
    jelements (a @ s @ b @ '','' @ es) (t # ts)"
| member_last: "spaces a \<Longrightarrow> jchars raw k \<Longrightarrow> spaces b \<Longrightarrow> spaces c \<Longrightarrow> jvalue s t \<Longrightarrow> spaces d \<Longrightarrow>
    jmembers (a @ quoted raw @ b @ '':'' @ c @ s @ d) [(k, t)]"
| member_more: "spaces a \<Longrightarrow> jchars raw k \<Longrightarrow> spaces b \<Longrightarrow> spaces c \<Longrightarrow> jvalue s t \<Longrightarrow> spaces d \<Longrightarrow>
    jmembers es ms \<Longrightarrow>
    jmembers (a @ quoted raw @ b @ '':'' @ c @ s @ d @ '','' @ es) ((k, t) # ms)"

text \<open>A document is one value between white space.\<close>

definition jdocument :: "string \<Rightarrow> jtree \<Rightarrow> bool" where
  "jdocument x t \<longleftrightarrow> (\<exists>a s b. x = a @ s @ b \<and> spaces a \<and> jvalue s t \<and> spaces b)"

subsection \<open>What a tree stands for\<close>

fun tree_nodes :: "jtree \<Rightarrow> nat" where
  "tree_nodes (TArray ts) = Suc (sum_list (map tree_nodes ts))"
| "tree_nodes (TObject ms) = Suc (sum_list (map (\<lambda>m. tree_nodes (snd m)) ms))"
| "tree_nodes _ = 1"

fun tree_depth :: "jtree \<Rightarrow> nat" where
  "tree_depth (TArray ts) = Suc (fold max (map tree_depth ts) 0)"
| "tree_depth (TObject ms) = Suc (fold max (map (\<lambda>m. tree_depth (snd m)) ms) 0)"
| "tree_depth _ = 0"

fun number_value_of :: "ParsedNumber \<Rightarrow> json" where
  "number_value_of (SignedInteger w) = JInt w"
| "number_value_of (UnsignedInteger w) = JUInt w"
| "number_value_of (FloatingPoint d) = JDouble d"

text \<open>A repeated name rejects the document, keeps the first value or keeps the last.\<close>

definition store_member :: "DuplicateKeyPolicy \<Rightarrow> string \<Rightarrow> json \<Rightarrow> members \<Rightarrow> members" where
  "store_member policy k v ms =
     (if map_of ms k \<noteq> None \<and> policy = KeepFirstDuplicate then ms else AList.update k v ms)"

fun tree_value :: "bool \<Rightarrow> ParserOptions \<Rightarrow> jtree \<Rightarrow> json option"
  and tree_elements :: "bool \<Rightarrow> ParserOptions \<Rightarrow> jtree list \<Rightarrow> json list option"
  and tree_members :: "bool \<Rightarrow> ParserOptions \<Rightarrow> (string \<times> jtree) list \<Rightarrow> members \<Rightarrow> members option" where
  "tree_value uf opts TNull = Some JNull"
| "tree_value uf opts (TBool b) = Some (JBool b)"
| "tree_value uf opts (TNumber t f) =
     (case convertNumberToken uf t f (po_numberPolicy opts) of
        Inl msg \<Rightarrow> None
      | Inr n \<Rightarrow> Some (number_value_of n))"
| "tree_value uf opts (TString s) = Some (JString s)"
| "tree_value uf opts (TArray ts) = map_option JArray (tree_elements uf opts ts)"
| "tree_value uf opts (TObject ms) = map_option JObject (tree_members uf opts ms [])"
| "tree_elements uf opts [] = Some []"
| "tree_elements uf opts (t # ts) =
     Option.bind (tree_value uf opts t) (\<lambda>v. map_option (Cons v) (tree_elements uf opts ts))"
| "tree_members uf opts [] ms = Some ms"
| "tree_members uf opts ((k, t) # ts) ms =
     (if map_of ms k \<noteq> None \<and> po_duplicateKeys opts = RejectDuplicateKeys then None
      else Option.bind (tree_value uf opts t) (\<lambda>v.
        tree_members uf opts ts (store_member (po_duplicateKeys opts) k v ms)))"

lemma fold_max_le: "fold max xs (a :: nat) \<le> m \<longleftrightarrow> a \<le> m \<and> (\<forall>x\<in>set xs. x \<le> m)"
  by (induction xs arbitrary: a) auto

lemma fold_max_ge: "x \<in> set xs \<Longrightarrow> x \<le> fold max xs (a :: nat)"
  using fold_max_le [of xs a "fold max xs a"] by auto

subsection \<open>First characters\<close>

lemma jchar_nonempty: "jchar p b \<Longrightarrow> p \<noteq> []"
  by (induction rule: jchar.induct) (auto simp: utf8_def)

lemma utf8_first: "scalar_value cp \<Longrightarrow> 0x80 \<le> cp \<Longrightarrow> \<exists>c cs. utf8 cp = c # cs \<and> 0x80 \<le> byte c"
proof -
  assume "scalar_value cp" "0x80 \<le> cp"
  then have "utf8_sequence (utf8 cp) = Some cp" by (simp add: utf8_sequence_iff)
  then obtain c cs n where c: "utf8 cp = c # cs" "utf8_lead (byte c) = Some n"
    by (auto simp: utf8_sequence_def split: list.splits option.splits)
  have "byte c div 32 = 6 \<or> byte c div 16 = 14 \<or> byte c div 8 = 30"
    using c(2) by (auto simp: utf8_lead_cases [OF byte_less] split: if_splits)
  then have "\<not> byte c < 0x80" by (auto simp: div_less_iff_less_mult dest: sym)
  with c(1) show ?thesis by auto
qed

lemma jnumber_first: "jnumber t f \<Longrightarrow> \<exists>c cs. t = c # cs \<and> (c = CHR ''-'' \<or> is_digit c)"
proof -
  assume "jnumber t f"
  then obtain sg i y where t: "t = sg @ i @ y" "number_sign sg" "canonical_decimal i"
    by (auto simp: jnumber_def)
  then show ?thesis by (cases i) (auto simp: number_sign_def canonical_decimal_def)
qed

lemma is_ws_simps [simp]:
  "is_ws (CHR '' '')" "is_ws char_tab" "is_ws char_lf" "is_ws char_cr"
  "\<not> is_ws dquote" "\<not> is_ws (CHR ''{'')" "\<not> is_ws (CHR ''['')" "\<not> is_ws (CHR ''}'')"
  "\<not> is_ws (CHR '']'')" "\<not> is_ws (CHR '','')" "\<not> is_ws (CHR '':'')" "\<not> is_ws (CHR ''-'')"
  "\<not> is_ws (CHR ''n'')" "\<not> is_ws (CHR ''t'')" "\<not> is_ws (CHR ''f'')"
  by (simp_all add: is_ws_def)

lemma is_digit_not_ws: "is_digit c \<Longrightarrow> \<not> is_ws c"
  by (auto simp: is_ws_def is_digit_def less_eq_char_def)

definition value_start :: "char \<Rightarrow> bool" where
  "value_start c \<longleftrightarrow> c = dquote \<or> c = CHR ''{'' \<or> c = CHR ''['' \<or> c = CHR ''-'' \<or> is_digit c
     \<or> c = CHR ''n'' \<or> c = CHR ''t'' \<or> c = CHR ''f''"

lemma jvalue_first: "jvalue s t \<Longrightarrow> \<exists>c cs. s = c # cs \<and> value_start c"
  by (erule jvalue.cases)
    (auto simp: value_start_def quoted_def dest: jnumber_first)

lemma value_start_not_ws: "value_start c \<Longrightarrow> \<not> is_ws c"
  by (auto simp: value_start_def is_digit_not_ws)

end
