(* ===== verification/Dom_Parser.thy ===== *)
theory Dom_Parser
  imports Json_Grammar
begin

section \<open>The DOM parser\<close>

text \<open>
  The recursive-descent parser of \<open>pjson_parser.cpp\<close> over an explicit context: source, position,
  depth, node budget and the first error. A parse either fails with the context that holds the
  error, or returns a value and the context behind it. \<open>uf\<close> is the standard library's treatment
  of underflowing numbers.
\<close>

record ParseCtx =
  c_src :: string
  c_pos :: nat
  c_end :: nat
  c_duplicateKeys :: DuplicateKeyPolicy
  c_numberPolicy :: NumberPolicy
  c_depth :: nat
  c_maxDepth :: nat
  c_nodeCount :: nat
  c_maxNodes :: nat
  c_failed :: bool
  c_errPos :: nat
  c_errMsg :: string

type_synonym 'a parsed = "ParseCtx + ('a \<times> ParseCtx)"

definition msg_node_budget :: string where
  "msg_node_budget = ''document too large (node budget exceeded)''"
definition msg_dangling_escape :: string where
  "msg_dangling_escape = ''dangling escape at end of input''"
definition msg_unicode_escape :: string where
  "msg_unicode_escape = ''invalid '' @ backslash # ''u escape''"
definition msg_high_surrogate :: string where
  "msg_high_surrogate = ''unpaired high surrogate''"
definition msg_low_surrogate :: string where
  "msg_low_surrogate = ''unpaired low surrogate''"
definition msg_invalid_escape :: string where
  "msg_invalid_escape = ''invalid escape sequence''"
definition msg_control_character :: string where
  "msg_control_character = ''unescaped control character in string''"
definition msg_invalid_utf8 :: string where
  "msg_invalid_utf8 = ''invalid UTF-8 sequence''"
definition msg_unterminated_string :: string where
  "msg_unterminated_string = ''unterminated string''"
definition msg_expected_string :: string where
  "msg_expected_string = ''expected '' @ [CHR 0x27, dquote, CHR 0x27] @ '' to start a string''"
definition msg_expected_key :: string where
  "msg_expected_key = ''expected '' @ [CHR 0x27, dquote, CHR 0x27] @ '' to start an object key''"
definition msg_expected_colon :: string where
  "msg_expected_colon = ''expected ':' after object key''"
definition msg_duplicate_key :: string where
  "msg_duplicate_key = ''duplicate object key''"
definition msg_invalid_value :: string where
  "msg_invalid_value = ''invalid JSON value''"
definition msg_invalid_number :: string where
  "msg_invalid_number = ''invalid number''"
definition msg_max_depth :: string where
  "msg_max_depth = ''maximum nesting depth exceeded''"
definition msg_array_comma :: string where
  "msg_array_comma = ''unexpected ',' in array''"
definition msg_array_trailing :: string where
  "msg_array_trailing = ''trailing comma in array''"
definition msg_array_missing :: string where
  "msg_array_missing = ''missing ',' between array elements''"
definition msg_array_unterminated :: string where
  "msg_array_unterminated = ''unterminated array''"
definition msg_object_comma :: string where
  "msg_object_comma = ''unexpected ',' in object''"
definition msg_object_trailing :: string where
  "msg_object_trailing = ''trailing comma in object''"
definition msg_object_missing :: string where
  "msg_object_missing = ''missing ',' between object members''"
definition msg_object_unterminated :: string where
  "msg_object_unterminated = ''unterminated object''"
definition msg_trailing_characters :: string where
  "msg_trailing_characters = ''trailing characters after JSON value''"
definition msg_input_limit :: string where
  "msg_input_limit = ''input exceeds maxInputBytes''"
definition msg_null_input :: string where
  "msg_null_input = ''null input''"
definition msg_stream_read :: string where
  "msg_stream_read = ''stream read failed''"
definition msg_parse_error :: string where
  "msg_parse_error = ''parse error''"

subsection \<open>Context operations\<close>

definition forward :: "nat \<Rightarrow> ParseCtx \<Rightarrow> ParseCtx" where
  "forward n c = c\<lparr>c_pos := c_pos c + n\<rparr>"

definition leave :: "ParseCtx \<Rightarrow> ParseCtx" where
  "leave c = c\<lparr>c_depth := c_depth c - 1\<rparr>"

text \<open>The first error stays.\<close>

definition ctx_fail :: "ParseCtx \<Rightarrow> nat \<Rightarrow> string \<Rightarrow> 'a parsed" where
  "ctx_fail c p msg =
     Inl (if \<not> c_failed c then c\<lparr>c_failed := True, c_errPos := p, c_errMsg := msg\<rparr> else c)"

definition newNode :: "ParseCtx \<Rightarrow> unit parsed" where
  "newNode c =
     (if c_maxNodes c \<noteq> 0 \<and> c_nodeCount c \<ge> c_maxNodes c
      then ctx_fail c (c_pos c) msg_node_budget
      else Inr ((), c\<lparr>c_nodeCount := Suc (c_nodeCount c)\<rparr>))"

text \<open>\<open>peek\<close> skips white space.\<close>

function skip_peek :: "ParseCtx \<Rightarrow> char option \<times> ParseCtx" where
  "skip_peek c =
     (if c_pos c < c_end c then
        (if is_ws (c_src c ! c_pos c) then skip_peek (forward 1 c)
         else (Some (c_src c ! c_pos c), c))
      else (None, c))"
  by auto
termination by (relation "measure (\<lambda>c. c_end c - c_pos c)") (auto simp: forward_def)

declare skip_peek.simps [simp del]

function skipColon :: "ParseCtx \<Rightarrow> unit parsed" where
  "skipColon c =
     (if c_pos c < c_end c then
        (let ch = c_src c ! c_pos c
         in if ch = CHR '':'' then Inr ((), forward 1 c)
            else if is_ws ch then skipColon (forward 1 c)
            else ctx_fail (forward 1 c) (c_pos c) msg_expected_colon)
      else ctx_fail c (c_pos c) msg_expected_colon)"
  by auto
termination by (relation "measure (\<lambda>c. c_end c - c_pos c)") (auto simp: forward_def)

declare skipColon.simps [simp del]

subsection \<open>Strings\<close>

text \<open>Behind \<open>\u\<close>: the decoded bytes are appended to \<open>out\<close>.\<close>

definition low_at :: "ParseCtx \<Rightarrow> nat option" where
  "low_at c =
     (if c_pos c + 6 \<le> c_end c \<and> c_src c ! c_pos c = backslash
         \<and> c_src c ! Suc (c_pos c) = CHR ''u''
      then
        (case hex4 (c_src c) (c_pos c + 2) of
           None \<Rightarrow> None
         | Some low \<Rightarrow> if 0xDC00 \<le> low \<and> low \<le> 0xDFFF then Some low else None)
      else None)"

definition decode_unicode :: "ParseCtx \<Rightarrow> string \<Rightarrow> string parsed" where
  "decode_unicode c out =
     (case (if c_pos c + 4 > c_end c then None else hex4 (c_src c) (c_pos c)) of
        None \<Rightarrow> ctx_fail c (c_pos c) msg_unicode_escape
      | Some cp \<Rightarrow>
          let c1 = forward 4 c
          in if 0xD800 \<le> cp \<and> cp \<le> 0xDBFF then
               (case low_at c1 of
                  None \<Rightarrow> ctx_fail c1 (c_pos c1) msg_high_surrogate
                | Some low \<Rightarrow>
                    Inr (appendUtf8 (0x10000 + push_bit 10 (cp - 0xD800) + (low - 0xDC00)) out,
                      forward 6 c1))
             else if 0xDC00 \<le> cp \<and> cp \<le> 0xDFFF then
               ctx_fail c1 (c_pos c1) msg_low_surrogate
             else Inr (appendUtf8 cp out, c1))"

text \<open>Behind the backslash.\<close>

definition decode_escape :: "ParseCtx \<Rightarrow> string \<Rightarrow> string parsed" where
  "decode_escape c out =
     (if c_pos c \<ge> c_end c then ctx_fail c (c_pos c) msg_dangling_escape
      else
        let e = c_src c ! c_pos c; c1 = forward 1 c
        in case simple_escape e of
             Some d \<Rightarrow> Inr (out @ [d], c1)
           | None \<Rightarrow>
               if e = CHR ''u'' then decode_unicode c1 out
               else ctx_fail c1 (c_pos c1 - 1) msg_invalid_escape)"

text \<open>One character of the body that is no closing quote.\<close>

definition decode_char :: "ParseCtx \<Rightarrow> string \<Rightarrow> string parsed" where
  "decode_char c out =
     (let ch = c_src c ! c_pos c
      in if ch = backslash then decode_escape (forward 1 c) out
         else if byte ch < 0x20 then ctx_fail c (c_pos c) msg_control_character
         else if 0x80 \<le> byte ch then
           (let n = utf8Len (c_src c) (c_pos c) (c_end c)
            in if n = 0 then ctx_fail c (c_pos c) msg_invalid_utf8
               else Inr (out @ take n (drop (c_pos c) (c_src c)), forward n c))
         else Inr (out @ [ch], forward 1 c))"

lemma ctx_fail_not_Inr [simp]: "ctx_fail c p msg \<noteq> Inr x"
  by (simp add: ctx_fail_def)

lemma forward_fields [simp]:
  "c_src (forward n c) = c_src c" "c_pos (forward n c) = c_pos c + n" "c_end (forward n c) = c_end c"
  by (simp_all add: forward_def)

lemma decode_char_forward:
  "decode_char c out = Inr (out', c') \<Longrightarrow> c_end c' = c_end c \<and> c_pos c < c_pos c'"
  by (auto simp: decode_char_def decode_escape_def decode_unicode_def Let_def split: if_splits option.splits)

function decodeStringBody :: "bool \<Rightarrow> ParseCtx \<Rightarrow> string \<Rightarrow> string parsed" where
  "decodeStringBody stopAtQuote c out =
     (if c_pos c < c_end c then
        (if stopAtQuote \<and> c_src c ! c_pos c = dquote then Inr (out, forward 1 c)
         else
           (case decode_char c out of
              Inl e \<Rightarrow> Inl e
            | Inr (out', c') \<Rightarrow> decodeStringBody stopAtQuote c' out'))
      else if stopAtQuote then ctx_fail c (c_pos c) msg_unterminated_string
      else Inr (out, c))"
  by pat_completeness auto
termination
  by (relation "measure (\<lambda>(stopAtQuote, c, out). c_end c - c_pos c)")
    (auto dest!: decode_char_forward)

declare decodeStringBody.simps [simp del]

definition extractString :: "ParseCtx \<Rightarrow> string parsed" where
  "extractString c =
     (if c_pos c \<ge> c_end c \<or> c_src c ! c_pos c \<noteq> dquote
      then ctx_fail c (c_pos c) msg_expected_string
      else decodeStringBody True (forward 1 c) [])"

definition parseString :: "ParseCtx \<Rightarrow> json parsed" where
  "parseString c =
     try_bind (extractString c) (\<lambda>(s, c1).
     try_bind (newNode c1) (\<lambda>(_, c2).
       Inr (assign_string JNull s, c2)))"

subsection \<open>Keywords and numbers\<close>

definition keyword_at :: "ParseCtx \<Rightarrow> string \<Rightarrow> bool" where
  "keyword_at c word \<longleftrightarrow> c_pos c + length word \<le> c_end c
     \<and> take (length word) (drop (c_pos c) (c_src c)) = word"

definition keyword_value :: "ParseCtx \<Rightarrow> string \<Rightarrow> json \<Rightarrow> json parsed" where
  "keyword_value c word v =
     try_bind (newNode (forward (length word) c)) (\<lambda>(_, c1). Inr (v, c1))"

definition parseKeyword :: "ParseCtx \<Rightarrow> json parsed" where
  "parseKeyword c =
     (if keyword_at c ''null'' then keyword_value c ''null'' JNull
      else if keyword_at c ''true'' then keyword_value c ''true'' (assign_bool JNull True)
      else if keyword_at c ''false'' then keyword_value c ''false'' (assign_bool JNull False)
      else ctx_fail c (c_pos c) msg_invalid_value)"

text \<open>The adapter: the cursor is a position into the context's source.\<close>

definition dom_scanner :: "ParseCtx \<Rightarrow> nat scanner" where
  "dom_scanner c =
     (let look = (\<lambda>p. if p \<ge> c_end c then None else Some (c_src c ! p))
      in \<lparr>sc_peek = (\<lambda>p. (look p, p)),
          sc_take = (\<lambda>p. case look p of None \<Rightarrow> (None, p) | Some ch \<Rightarrow> (Some ch, Suc p))\<rparr>)"

text \<open>The rest of the source, from a position on.\<close>

definition source_from :: "ParseCtx \<Rightarrow> nat \<Rightarrow> string" where
  "source_from c p = map (nth (c_src c)) [p..<c_end c]"

lemma source_from_Nil: "source_from c p = [] \<longleftrightarrow> c_end c \<le> p"
  by (auto simp: source_from_def)

lemma source_from_Cons: "p < c_end c \<Longrightarrow> source_from c p = c_src c ! p # source_from c (Suc p)"
  by (simp add: source_from_def upt_conv_Cons)

interpretation dom_cursor: number_cursor "dom_scanner c" "source_from c" "\<lambda>_. True" for c
proof
  show "\<exists>s'. sc_peek (dom_scanner c) p = (case source_from c p of [] \<Rightarrow> None | ch # r \<Rightarrow> Some ch, s')
      \<and> True \<and> source_from c s' = source_from c p" for p
    using source_from_Nil [of c p]
    by (cases "p < c_end c") (auto simp: dom_scanner_def source_from_Cons Let_def)
  show "\<exists>s'. sc_take (dom_scanner c) p = (Some ch, s') \<and> True \<and> source_from c s' = r"
    if "source_from c p = ch # r" for p ch r
  proof -
    have "p < c_end c" using that source_from_Nil [of c p] by (cases "p < c_end c") auto
    with that have "ch = c_src c ! p" "r = source_from c (Suc p)" by (simp_all add: source_from_Cons)
    with \<open>p < c_end c\<close> show ?thesis by (simp add: dom_scanner_def)
  qed
qed

text \<open>The scan returns, by \<open>dom_cursor.number_scan_returns\<close>.\<close>

definition parseNumber :: "bool \<Rightarrow> ParseCtx \<Rightarrow> json parsed" where
  "parseNumber uf c =
     (case the (scanJsonNumber (dom_scanner c) (c_pos c)) of
        Inl (scanError, p) \<Rightarrow>
          ctx_fail c p (case scanError of None \<Rightarrow> msg_invalid_number | Some msg \<Rightarrow> msg)
      | Inr ((token, isFloat), p) \<Rightarrow>
          (case convertNumberToken uf token isFloat (c_numberPolicy c) of
             Inl msg \<Rightarrow> ctx_fail c (c_pos c) msg
           | Inr n \<Rightarrow>
               try_bind (newNode c) (\<lambda>(_, c1). Inr (number_value_of n, c1\<lparr>c_pos := p\<rparr>))))"

subsection \<open>Containers\<close>

text \<open>The depth charge, the container's node and its opening bracket.\<close>

definition open_container :: "ParseCtx \<Rightarrow> unit parsed" where
  "open_container c =
     (if Suc (c_depth c) > c_maxDepth c then ctx_fail c (c_pos c) msg_max_depth
      else
        case newNode (c\<lparr>c_depth := Suc (c_depth c)\<rparr>) of
          Inl e \<Rightarrow> Inl (leave e)
        | Inr (_, c1) \<Rightarrow> Inr ((), forward 1 c1))"

text \<open>A member's name up to the colon; a rejected duplicate is reported at its quote.\<close>

definition member_name :: "ParseCtx \<Rightarrow> members \<Rightarrow> string parsed" where
  "member_name c ms =
     try_bind (extractString c) (\<lambda>(key, c1).
       if map_of ms key \<noteq> None \<and> c_duplicateKeys c = RejectDuplicateKeys
       then ctx_fail c1 (c_pos c) msg_duplicate_key
       else try_bind (skipColon c1) (\<lambda>(_, c2). Inr (key, c2)))"

function (domintros, sequential) parseValue :: "bool \<Rightarrow> ParseCtx \<Rightarrow> json parsed"
  and parseArray :: "bool \<Rightarrow> ParseCtx \<Rightarrow> json parsed"
  and parse_elements :: "bool \<Rightarrow> ParseCtx \<Rightarrow> bool \<Rightarrow> bool \<Rightarrow> json list \<Rightarrow> json parsed"
  and parseObject :: "bool \<Rightarrow> ParseCtx \<Rightarrow> json parsed"
  and parse_members :: "bool \<Rightarrow> ParseCtx \<Rightarrow> bool \<Rightarrow> bool \<Rightarrow> members \<Rightarrow> json parsed" where
  "parseValue uf c =
     (case skip_peek c of
        (None, c1) \<Rightarrow> ctx_fail c1 (c_pos c1) msg_end_of_input
      | (Some ch, c1) \<Rightarrow>
          if ch = dquote then parseString c1
          else if ch = CHR ''{'' then parseObject uf c1
          else if ch = CHR ''['' then parseArray uf c1
          else if ch = CHR ''-'' \<or> is_digit ch then parseNumber uf c1
          else parseKeyword c1)"
| "parseArray uf c =
     (case open_container c of
        Inl e \<Rightarrow> Inl e
      | Inr (_, c1) \<Rightarrow> parse_elements uf c1 False False [])"
| "parse_elements uf c expectValue anyValue xs =
     (case skip_peek c of
        (None, c1) \<Rightarrow> ctx_fail (leave c1) (c_pos c1) msg_array_unterminated
      | (Some ch, c1) \<Rightarrow>
          if ch = CHR '']'' then
            if expectValue then ctx_fail (leave c1) (c_pos c1) msg_array_trailing
            else Inr (JArray xs, leave (forward 1 c1))
          else if ch = CHR '','' then
            if \<not> anyValue \<or> expectValue then ctx_fail (leave c1) (c_pos c1) msg_array_comma
            else parse_elements uf (forward 1 c1) True anyValue xs
          else if anyValue \<and> \<not> expectValue then ctx_fail (leave c1) (c_pos c1) msg_array_missing
          else
            (case parseValue uf c1 of
               Inl e \<Rightarrow> Inl (leave e)
             | Inr (v, c2) \<Rightarrow> parse_elements uf c2 False True (xs @ [v])))"
| "parseObject uf c =
     (case open_container c of
        Inl e \<Rightarrow> Inl e
      | Inr (_, c1) \<Rightarrow> parse_members uf c1 False False [])"
| "parse_members uf c expectMember anyMember ms =
     (case skip_peek c of
        (None, c1) \<Rightarrow> ctx_fail (leave c1) (c_pos c1) msg_object_unterminated
      | (Some ch, c1) \<Rightarrow>
          if ch = CHR ''}'' then
            if expectMember then ctx_fail (leave c1) (c_pos c1) msg_object_trailing
            else Inr (JObject ms, leave (forward 1 c1))
          else if ch = CHR '','' then
            if \<not> anyMember \<or> expectMember then ctx_fail (leave c1) (c_pos c1) msg_object_comma
            else parse_members uf (forward 1 c1) True anyMember ms
          else if ch = dquote then
            if anyMember \<and> \<not> expectMember then ctx_fail (leave c1) (c_pos c1) msg_object_missing
            else
              (case member_name c1 ms of
                 Inl e \<Rightarrow> Inl (leave e)
               | Inr (key, c2) \<Rightarrow>
                   (case parseValue uf c2 of
                      Inl e \<Rightarrow> Inl (leave e)
                    | Inr (v, c3) \<Rightarrow>
                        parse_members uf c3 False True
                          (store_member (c_duplicateKeys c3) key v ms)))
          else ctx_fail (leave c1) (c_pos c1) msg_expected_key)"
  by pat_completeness auto

subsection \<open>Termination\<close>

text \<open>Every value consumes input, so the loops come closer to the end of the source.\<close>

definition progress :: "ParseCtx \<Rightarrow> ParseCtx \<Rightarrow> bool" where
  "progress c c' \<longleftrightarrow> c_end c' = c_end c \<and> c_pos c < c_pos c'"

definition stays :: "ParseCtx \<Rightarrow> ParseCtx \<Rightarrow> bool" where
  "stays c c' \<longleftrightarrow> c_end c' = c_end c \<and> c_pos c \<le> c_pos c'"

lemma progress_trans:
  "stays a b \<Longrightarrow> progress b c \<Longrightarrow> progress a c" "progress a b \<Longrightarrow> stays b c \<Longrightarrow> progress a c"
  "progress a b \<Longrightarrow> progress b c \<Longrightarrow> progress a c" "stays a b \<Longrightarrow> stays b c \<Longrightarrow> stays a c"
  by (auto simp: progress_def stays_def)

lemma skip_peek_stays: "skip_peek c = (r, c1) \<Longrightarrow> stays c c1 \<and> (r \<noteq> None \<longrightarrow> c_pos c1 < c_end c1)"
proof (induction c rule: skip_peek.induct)
  case (1 c)
  show ?case
  proof (cases "c_pos c < c_end c \<and> is_ws (c_src c ! c_pos c)")
    case True
    with "1.prems" "1.IH" show ?thesis
      by (subst (asm) skip_peek.simps) (auto simp: stays_def)
  next
    case False
    with "1.prems" show ?thesis
      by (subst (asm) skip_peek.simps) (auto simp: stays_def split: if_splits)
  qed
qed

lemma newNode_stays: "newNode c = Inr (u, c1) \<Longrightarrow> stays c c1"
  by (auto simp: newNode_def stays_def split: if_splits)

lemma decodeStringBody_stays:
  "decodeStringBody stop c out = Inr (s, c1) \<Longrightarrow> stays c c1"
proof (induction stop c out rule: decodeStringBody.induct)
  case (1 stop c out)
  show ?case
  proof (cases "c_pos c < c_end c \<and> \<not> (stop \<and> c_src c ! c_pos c = dquote)")
    case True
    with "1.prems" obtain out' c' where d: "decode_char c out = Inr (out', c')"
      and rest: "decodeStringBody stop c' out' = Inr (s, c1)"
      by (subst (asm) decodeStringBody.simps) (auto split: sum.splits)
    have "stays c' c1" using "1.IH" [OF _ _ d refl rest] True by blast
    with decode_char_forward [OF d] show ?thesis by (auto simp: stays_def)
  next
    case False
    with "1.prems" show ?thesis
      by (subst (asm) decodeStringBody.simps) (auto simp: stays_def split: if_splits)
  qed
qed

lemma extractString_progress: "extractString c = Inr (s, c1) \<Longrightarrow> progress c c1"
  by (auto simp: extractString_def progress_def stays_def split: if_splits dest!: decodeStringBody_stays)

lemma skipColon_progress: "skipColon c = Inr (u, c1) \<Longrightarrow> progress c c1"
proof (induction c rule: skipColon.induct)
  case (1 c)
  show ?case
  proof (cases "c_pos c < c_end c \<and> c_src c ! c_pos c \<noteq> CHR '':'' \<and> is_ws (c_src c ! c_pos c)")
    case True
    with "1.prems" have "skipColon (forward 1 c) = Inr (u, c1)"
      by (subst (asm) skipColon.simps) simp
    with "1.IH" True show ?thesis by (auto simp: progress_def)
  next
    case False
    with "1.prems" show ?thesis
      by (subst (asm) skipColon.simps) (auto simp: progress_def Let_def split: if_splits)
  qed
qed

lemma parseString_progress: "parseString c = Inr (v, c1) \<Longrightarrow> progress c c1"
  by (auto simp: parseString_def dest!: extractString_progress newNode_stays intro: progress_trans)

lemma parseKeyword_progress: "parseKeyword c = Inr (v, c1) \<Longrightarrow> progress c c1"
  by (auto simp: parseKeyword_def keyword_value_def progress_def stays_def dest!: newNode_stays
      split: if_splits)

lemma scan_position:
  assumes "the (scanJsonNumber (dom_scanner c) p) = Inr (tf, q)"
  shows "text_number (source_from c p) = Inr (tf, source_from c q) \<and> p < q"
proof -
  from assms obtain "scanJsonNumber (dom_scanner c) p = Some (Inr (tf, q))"
    using dom_cursor.number_scan_returns [OF TrueI, of c p] by (cases "scanJsonNumber (dom_scanner c) p") auto
  with dom_cursor.number_scan [OF TrueI, of c p] have
    n: "text_number (source_from c p) = Inr (tf, source_from c q)"
    by (auto simp: dom_cursor.rejects_def dom_cursor.scans_def split: sum.splits prod.splits)
  obtain t f where tf: "tf = (t, f)" by (cases tf)
  from text_number_result [OF n [unfolded tf]] have t: "source_from c p = t @ source_from c q" "jnumber t f"
    by auto
  then have "t \<noteq> []" by (auto simp: jnumber_def canonical_decimal_def)
  then have "length (source_from c q) < length (source_from c p)" using t(1) by simp
  then have "p < q" by (simp add: source_from_def)
  with n show ?thesis by simp
qed

lemma parseNumber_progress: "parseNumber uf c = Inr (v, c1) \<Longrightarrow> progress c c1"
  by (auto simp: parseNumber_def progress_def stays_def split: sum.splits prod.splits
      dest!: newNode_stays scan_position)

lemma open_container_progress: "open_container c = Inr (u, c1) \<Longrightarrow> progress c c1"
  by (auto simp: open_container_def progress_def stays_def split: if_splits sum.splits dest!: newNode_stays)

lemma member_name_progress: "member_name c ms = Inr (k, c1) \<Longrightarrow> progress c c1"
  by (auto simp: member_name_def split: if_splits
      dest!: extractString_progress skipColon_progress intro: progress_trans)

lemma leave_stays [simp]: "stays c (leave c)" "progress c (leave d) = progress c d"
  by (simp_all add: stays_def progress_def leave_def)

lemma forward_progress [simp]: "progress c (forward 1 c)"
  by (simp add: progress_def)

text \<open>Partial correctness first: where the parser returns, it has made progress.\<close>

lemma parse_progress_partial:
  "parseValue_parseArray_parse_elements_parseObject_parse_members_dom (Inl (Inl (uf, c))) \<Longrightarrow>
    \<forall>v c1. parseValue uf c = Inr (v, c1) \<longrightarrow> progress c c1"
  "parseValue_parseArray_parse_elements_parseObject_parse_members_dom (Inl (Inr (uf, c))) \<Longrightarrow>
    \<forall>v c1. parseArray uf c = Inr (v, c1) \<longrightarrow> progress c c1"
  "parseValue_parseArray_parse_elements_parseObject_parse_members_dom (Inr (Inl (uf, c, e, a, xs))) \<Longrightarrow>
    \<forall>v c1. parse_elements uf c e a xs = Inr (v, c1) \<longrightarrow> progress c c1"
  "parseValue_parseArray_parse_elements_parseObject_parse_members_dom (Inr (Inr (Inl (uf, c)))) \<Longrightarrow>
    \<forall>v c1. parseObject uf c = Inr (v, c1) \<longrightarrow> progress c c1"
  "parseValue_parseArray_parse_elements_parseObject_parse_members_dom (Inr (Inr (Inr (uf, c, e, a, ms)))) \<Longrightarrow>
    \<forall>v c1. parse_members uf c e a ms = Inr (v, c1) \<longrightarrow> progress c c1"
proof (induction rule: parseValue_parseArray_parse_elements_parseObject_parse_members.pinduct)
  case (1 uf c)
  show ?case
  proof (intro allI impI)
    fix v c2
    assume "parseValue uf c = Inr (v, c2)"
    then obtain ch c1 where sk: "skip_peek c = (Some ch, c1)"
      and run: "(if ch = dquote then parseString c1
          else if ch = CHR ''{'' then parseObject uf c1
          else if ch = CHR ''['' then parseArray uf c1
          else if ch = CHR ''-'' \<or> is_digit ch then parseNumber uf c1
          else parseKeyword c1) = Inr (v, c2)"
      unfolding parseValue.psimps [OF "1.hyps"] by (auto split: prod.splits option.splits)
    have "progress c1 c2"
      using run "1.IH" [OF sk [symmetric] refl]
      by (auto split: if_splits dest!: parseString_progress parseNumber_progress parseKeyword_progress)
    with skip_peek_stays [OF sk] show "progress c c2" by (auto intro: progress_trans)
  qed
next
  case (2 uf c)
  show ?case
  proof (intro allI impI)
    fix v c2
    assume "parseArray uf c = Inr (v, c2)"
    then obtain u c1 where "open_container c = Inr (u, c1)" "parse_elements uf c1 False False [] = Inr (v, c2)"
      unfolding parseArray.psimps [OF "2.hyps"] by (auto split: sum.splits)
    with "2.IH" show "progress c c2" by (auto dest!: open_container_progress intro: progress_trans)
  qed
next
  case (3 uf c e a xs)
  show ?case
  proof (intro allI impI)
    fix v c2
    assume run0: "parse_elements uf c e a xs = Inr (v, c2)"
    then obtain ch c1 where sk: "skip_peek c = (Some ch, c1)"
      unfolding parse_elements.psimps [OF "3.hyps"] by (auto split: prod.splits option.splits)
    note IH = "3.IH" [OF sk [symmetric] refl]
    note run = run0 [unfolded parse_elements.psimps [OF "3.hyps"] sk prod.case option.case]
    have "progress c1 c2"
    proof (cases "ch = CHR '']'' \<or> ch = CHR '',''")
      case True
      with run IH(1) show ?thesis
        by (auto split: if_splits intro: progress_trans forward_progress)
    next
      case False
      with run obtain w c3 where "parseValue uf c1 = Inr (w, c3)"
        "parse_elements uf c3 False True (xs @ [w]) = Inr (v, c2)" "\<not> (a \<and> \<not> e)"
        by (auto split: if_splits sum.splits)
      with IH(2,3) False show ?thesis by (auto intro: progress_trans)
    qed
    with skip_peek_stays [OF sk] show "progress c c2" by (auto intro: progress_trans)
  qed
next
  case (4 uf c)
  show ?case
  proof (intro allI impI)
    fix v c2
    assume "parseObject uf c = Inr (v, c2)"
    then obtain u c1 where "open_container c = Inr (u, c1)" "parse_members uf c1 False False [] = Inr (v, c2)"
      unfolding parseObject.psimps [OF "4.hyps"] by (auto split: sum.splits)
    with "4.IH" show "progress c c2" by (auto dest!: open_container_progress intro: progress_trans)
  qed
next
  case (5 uf c e a ms)
  show ?case
  proof (intro allI impI)
    fix v c2
    assume run0: "parse_members uf c e a ms = Inr (v, c2)"
    then obtain ch c1 where sk: "skip_peek c = (Some ch, c1)"
      unfolding parse_members.psimps [OF "5.hyps"] by (auto split: prod.splits option.splits)
    note IH = "5.IH" [OF sk [symmetric] refl]
    note run = run0 [unfolded parse_members.psimps [OF "5.hyps"] sk prod.case option.case]
    have "progress c1 c2"
    proof (cases "ch = CHR ''}'' \<or> ch = CHR '',''")
      case True
      with run IH(1) show ?thesis
        by (auto split: if_splits intro: progress_trans forward_progress)
    next
      case False
      with run obtain k c3 w c4 where ch: "ch = dquote" "\<not> (a \<and> \<not> e)"
        and steps: "member_name c1 ms = Inr (k, c3)" "parseValue uf c3 = Inr (w, c4)"
        "parse_members uf c4 False True (store_member (c_duplicateKeys c4) k w ms) = Inr (v, c2)"
        by (auto split: if_splits sum.splits)
      have "progress c3 c4" using IH(2) False ch steps by blast
      moreover have "progress c4 c2" using IH(3) False ch steps by blast
      ultimately show ?thesis
        using member_name_progress [OF steps(1)] by (auto intro: progress_trans)
    qed
    with skip_peek_stays [OF sk] show "progress c c2" by (auto intro: progress_trans)
  qed
qed

definition remaining :: "ParseCtx \<Rightarrow> nat" where
  "remaining c = c_end c - c_pos c"

lemma remaining_stays: "stays c c1 \<Longrightarrow> remaining c1 \<le> remaining c"
  by (auto simp: stays_def remaining_def)

lemma remaining_progress:
  "progress c c1 \<Longrightarrow> remaining c1 = 0 \<or> remaining c1 < remaining c"
  by (auto simp: progress_def remaining_def)

lemma remaining_peek:
  "(Some ch, c1) = skip_peek c \<Longrightarrow> remaining c1 \<le> remaining c \<and> 0 < remaining c1"
  using skip_peek_stays [of c "Some ch" c1] by (auto simp: stays_def remaining_def)

definition loop_measure :: "ParseCtx \<Rightarrow> nat" where
  "loop_measure c = (if remaining c = 0 then 0 else 3 * remaining c + 3)"

lemma loop_measure_less:
  "(Some ch, c1) = skip_peek c \<Longrightarrow> progress c1 c2 \<Longrightarrow> loop_measure c2 < loop_measure c"
  using remaining_progress [of c1 c2] remaining_peek [of ch c1 c] by (auto simp: loop_measure_def)

lemma value_measure_less:
  "(Some ch, c1) = skip_peek c \<Longrightarrow> stays c1 c2 \<Longrightarrow> 3 * remaining c2 + 2 < loop_measure c"
  using remaining_stays [of c1 c2] remaining_peek [of ch c1 c] by (auto simp: loop_measure_def)

lemma open_measure_less:
  "open_container c = Inr (u, c1) \<Longrightarrow> loop_measure c1 < 3 * remaining c + 1"
  using open_container_progress [of c u c1] remaining_progress [of c c1]
  by (auto simp: loop_measure_def)

lemma progress_stays: "progress c c1 \<Longrightarrow> stays c c1" "stays c c"
  by (auto simp: progress_def stays_def)

termination parseValue
proof (relation "measure (\<lambda>x. case x of
      Inl (Inl (uf, c)) \<Rightarrow> 3 * remaining c + 2
    | Inl (Inr (uf, c)) \<Rightarrow> 3 * remaining c + 1
    | Inr (Inl (uf, c, e, a, xs)) \<Rightarrow> loop_measure c
    | Inr (Inr (Inl (uf, c))) \<Rightarrow> 3 * remaining c + 1
    | Inr (Inr (Inr (uf, c, e, a, ms))) \<Rightarrow> loop_measure c)", goal_cases)
  case (2 uf c ch c1)
  then show ?case using remaining_peek by fastforce
next
  case (3 uf c ch c1)
  then show ?case using remaining_peek by fastforce
next
  case 4
  then show ?case using open_measure_less by auto
next
  case 5
  then show ?case using loop_measure_less forward_progress by auto
next
  case 6
  then show ?case using value_measure_less progress_stays(2) by auto
next
  case (7 uf c e a xs r c1 ch vb v c2)
  then have "progress c1 c2" using parse_progress_partial(1) [OF 7(8)] by auto
  with 7 show ?case using loop_measure_less by auto
next
  case 8
  then show ?case using open_measure_less by auto
next
  case 9
  then show ?case using loop_measure_less forward_progress by auto
next
  case (10 uf c e a ms r c1 ch kb k c2)
  then have "stays c1 c2" using member_name_progress progress_stays(1) by auto
  with 10 show ?case using value_measure_less by auto
next
  case (11 uf c e a ms r c1 ch kb k c2 vb v c3)
  then have "progress c1 c2" "progress c2 c3"
    using member_name_progress parse_progress_partial(1) by auto
  then have "progress c1 c3" by (rule progress_trans)
  with 11 show ?case using loop_measure_less by auto
qed simp

declare parseValue.simps [simp del] parseArray.simps [simp del] parse_elements.simps [simp del]
  parseObject.simps [simp del] parse_members.simps [simp del]

subsection \<open>Documents\<close>

definition initial_context :: "string \<Rightarrow> ParserOptions \<Rightarrow> ParseCtx" where
  "initial_context src opts =
     \<lparr>c_src = src, c_pos = 0, c_end = length src, c_duplicateKeys = po_duplicateKeys opts,
      c_numberPolicy = po_numberPolicy opts, c_depth = 0,
      c_maxDepth = clampParseDepth (po_maxDepth opts), c_nodeCount = 0,
      c_maxNodes = po_maxNodes opts, c_failed = False, c_errPos = 0, c_errMsg = []\<rparr>"

text \<open>The value and the error; \<^const>\<open>None\<close> is a null source pointer.\<close>

definition parseTop :: "bool \<Rightarrow> string option \<Rightarrow> ParserOptions \<Rightarrow> json \<times> ParseError" where
  "parseTop uf source opts =
     (case source of
        None \<Rightarrow> (JNull, setParseError [] 0 msg_null_input Parse_InvalidArgument)
      | Some src \<Rightarrow>
          if po_maxInputBytes opts \<noteq> 0 \<and> length src > po_maxInputBytes opts
          then (JNull, setParseError src (po_maxInputBytes opts) msg_input_limit InputLimit)
          else
            (case parseValue uf (initial_context src opts) of
               Inl c \<Rightarrow>
                 (JNull, setParseError src (c_errPos c)
                    (if c_errMsg c = [] then msg_parse_error else c_errMsg c) Parse_None)
             | Inr (v, c) \<Rightarrow>
                 (case skip_peek c of
                    (Some _, c1) \<Rightarrow>
                      (JNull, setParseError src (c_pos c1) msg_trailing_characters Syntax)
                  | (None, _) \<Rightarrow> (v, resetParseError))))"

definition parser_parse :: "bool \<Rightarrow> ParserOptions \<Rightarrow> string \<Rightarrow> json \<times> ParseError" where
  "parser_parse uf opts input = parseTop uf (Some input) opts"

text \<open>
  An input stream: the bytes it still delivers, whether it is good at first, and whether reading
  past the bytes sets \<open>badbit\<close> instead of \<open>eofbit\<close>.
\<close>

record istream =
  is_bytes :: string
  is_good :: bool
  is_bad :: bool

definition chunk_size :: nat where "chunk_size = 8192"

text \<open>The chunks read so far, or the truncated content when the input limit is exceeded.\<close>

function read_chunks :: "nat \<Rightarrow> string \<Rightarrow> string \<Rightarrow> string + string" where
  "read_chunks maxInputBytes bytes content =
     (if bytes = [] then Inr content
      else
        let chunk = take chunk_size bytes
        in if maxInputBytes \<noteq> 0 \<and> (length content > maxInputBytes
               \<or> length chunk > maxInputBytes - length content)
           then Inl (if length content < maxInputBytes
                     then content @ take (maxInputBytes - length content) chunk else content)
           else read_chunks maxInputBytes (drop chunk_size bytes) (content @ chunk))"
  by pat_completeness auto
termination
  by (relation "measure (\<lambda>(m, bytes, content). length bytes)") (auto simp: chunk_size_def)

declare read_chunks.simps [simp del]

definition parseStream :: "bool \<Rightarrow> istream \<Rightarrow> ParserOptions \<Rightarrow> json \<times> ParseError" where
  "parseStream uf input opts =
     (case (if is_good input then read_chunks (po_maxInputBytes opts) (is_bytes input) [] else Inr []) of
        Inl content \<Rightarrow>
          (JNull, setParseError content (po_maxInputBytes opts) msg_input_limit InputLimit)
      | Inr content \<Rightarrow>
          if is_bad input
          then (JNull, setParseError content (length content) msg_stream_read StreamError)
          else parseTop uf (Some content) opts)"

end
