(* ===== verification/Dom_Parse_Correct.thy ===== *)
theory Dom_Parse_Correct
  imports Dom_Parser
begin

section \<open>The DOM parser against the grammar\<close>

text \<open>
  Every parser function is related to the grammar in both directions: on a text the grammar
  derives it returns what the tree stands for, and where it returns, the text it consumed is
  derived. A successful step only moves the position and charges nodes, so the context behind it
  is an explicit update of the one before it.
\<close>

subsection \<open>Contexts\<close>

definition moved :: "nat \<Rightarrow> nat \<Rightarrow> ParseCtx \<Rightarrow> ParseCtx" where
  "moved n k c = c\<lparr>c_pos := c_pos c + n, c_nodeCount := c_nodeCount c + k\<rparr>"

definition deeper :: "ParseCtx \<Rightarrow> ParseCtx" where
  "deeper c = c\<lparr>c_depth := Suc (c_depth c)\<rparr>"

definition rest :: "ParseCtx \<Rightarrow> string" where
  "rest c = drop (c_pos c) (c_src c)"

text \<open>\<open>k\<close> more nodes are within the budget.\<close>

definition room :: "nat \<Rightarrow> ParseCtx \<Rightarrow> bool" where
  "room k c \<longleftrightarrow> c_maxNodes c = 0 \<or> c_nodeCount c + k \<le> c_maxNodes c"

definition ready :: "ParserOptions \<Rightarrow> ParseCtx \<Rightarrow> bool" where
  "ready opts c \<longleftrightarrow> c_end c = length (c_src c) \<and> c_pos c \<le> length (c_src c) \<and> room 0 c
     \<and> c_depth c \<le> c_maxDepth c \<and> c_duplicateKeys c = po_duplicateKeys opts
     \<and> c_numberPolicy c = po_numberPolicy opts"

lemma moved_fields [simp]:
  "c_src (moved n k c) = c_src c" "c_end (moved n k c) = c_end c"
  "c_depth (moved n k c) = c_depth c" "c_maxDepth (moved n k c) = c_maxDepth c"
  "c_duplicateKeys (moved n k c) = c_duplicateKeys c" "c_numberPolicy (moved n k c) = c_numberPolicy c"
  "c_maxNodes (moved n k c) = c_maxNodes c" "c_pos (moved n k c) = c_pos c + n"
  "c_nodeCount (moved n k c) = c_nodeCount c + k"
  by (simp_all add: moved_def)

lemma deeper_fields [simp]:
  "c_src (deeper c) = c_src c" "c_end (deeper c) = c_end c"
  "c_depth (deeper c) = Suc (c_depth c)" "c_maxDepth (deeper c) = c_maxDepth c"
  "c_duplicateKeys (deeper c) = c_duplicateKeys c" "c_numberPolicy (deeper c) = c_numberPolicy c"
  "c_maxNodes (deeper c) = c_maxNodes c" "c_pos (deeper c) = c_pos c"
  "c_nodeCount (deeper c) = c_nodeCount c"
  by (simp_all add: deeper_def)

lemma moved_moved [simp]: "moved n k (moved m j c) = moved (m + n) (j + k) c"
  by (simp add: moved_def add_ac)

lemma moved_0 [simp]: "moved 0 0 c = c"
  by (simp add: moved_def)

lemma forward_moved: "forward n c = moved n 0 c"
  by (simp add: moved_def forward_def)

lemma leave_deeper [simp]: "leave (moved n k (deeper c)) = moved n k c"
  by (simp add: leave_def moved_def deeper_def)

lemma rest_moved [simp]: "rest (moved n k c) = drop n (rest c)" "rest (deeper c) = rest c"
  by (simp_all add: rest_def add.commute)

lemma room_moved [simp]: "room j (moved n k c) = room (k + j) c" "room j (deeper c) = room j c"
  by (simp_all add: room_def add.assoc)

lemma room_less: "room k c \<Longrightarrow> j \<le> k \<Longrightarrow> room j c"
  by (auto simp: room_def)

lemma ready_moved: "ready opts c \<Longrightarrow> n \<le> length (rest c) \<Longrightarrow> room k c \<Longrightarrow> ready opts (moved n k c)"
  by (auto simp: ready_def rest_def)

lemma ready_deeper: "ready opts c \<Longrightarrow> c_depth c < c_maxDepth c \<Longrightarrow> ready opts (deeper c)"
  by (auto simp: ready_def)

lemma ready_at:
  assumes "ready opts c"
  shows "c_pos c < c_end c \<longleftrightarrow> rest c \<noteq> []"
    and "c_pos c + n \<le> c_end c \<longleftrightarrow> n \<le> length (rest c)"
  using assms by (auto simp: ready_def rest_def)

lemma rest_nth: "rest c = x # r \<Longrightarrow> c_src c ! c_pos c = x"
  by (metis hd_drop_conv_nth list.sel(1) list.distinct(1) drop_all linorder_not_le rest_def)

lemma newNode_room: "room 1 c \<Longrightarrow> newNode c = Inr ((), moved 0 1 c)"
  by (auto simp: newNode_def room_def moved_def)

lemma newNode_result: "newNode c = Inr (u, c1) \<Longrightarrow> c1 = moved 0 1 c \<and> room 1 c"
  by (auto simp: newNode_def room_def moved_def split: if_splits)

lemma source_at:
  assumes "ready opts c"
  shows "i < length (rest c) \<Longrightarrow> c_src c ! (c_pos c + i) = rest c ! i"
    and "drop (c_pos c + i) (c_src c) = drop i (rest c)"
  using assms by (simp_all add: rest_def ready_def add.commute)

subsection \<open>White space\<close>

lemma skip_peek_eq:
  assumes "ready opts c"
  shows "skip_peek c =
    (case dropWhile is_ws (rest c) of [] \<Rightarrow> None | x # _ \<Rightarrow> Some x,
     moved (length (takeWhile is_ws (rest c))) 0 c)"
  using assms
proof (induction c rule: skip_peek.induct)
  case (1 c)
  show ?case
  proof (cases "rest c")
    case Nil
    with ready_at(1) [OF "1.prems"] show ?thesis by (subst skip_peek.simps) simp
  next
    case (Cons x r)
    then have "c_pos c < c_end c" and x: "c_src c ! c_pos c = x"
      using ready_at(1) [OF "1.prems"] rest_nth by auto
    moreover have "ready opts (forward 1 c)"
      using "1.prems" Cons ready_moved [of opts c 1 0] by (simp add: forward_moved ready_def)
    moreover have "rest (forward 1 c) = r" using Cons by (simp add: forward_moved)
    ultimately show ?thesis using "1.IH" Cons
      by (subst skip_peek.simps) (simp add: forward_moved)
  qed
qed

lemma spaces_append [simp]: "spaces (a @ b) \<longleftrightarrow> spaces a \<and> spaces b" "spaces []"
  "spaces (x # a) \<longleftrightarrow> is_ws x \<and> spaces a"
  by (auto simp: spaces_def)

lemma spaces_split:
  assumes "spaces w" "r = [] \<or> \<not> is_ws (hd r)"
  shows "takeWhile is_ws (w @ r) = w" "dropWhile is_ws (w @ r) = r"
  using assms by (induction w) (cases r; auto simp: spaces_def)+

text \<open>Where the next byte is known.\<close>

lemma skip_peek_text:
  assumes "ready opts c" "rest c = w @ x # r" "spaces w" "\<not> is_ws x"
  shows "skip_peek c = (Some x, moved (length w) 0 c)"
  using skip_peek_eq [OF assms(1)] spaces_split [of w "x # r"] assms by simp

lemma skip_peek_end:
  assumes "ready opts c" "spaces (rest c)"
  shows "skip_peek c = (None, moved (length (rest c)) 0 c)"
proof -
  have "takeWhile is_ws (rest c) = rest c" "dropWhile is_ws (rest c) = []"
    using assms(2) by (simp_all add: spaces_def list_all_iff)
  then show ?thesis by (simp only: skip_peek_eq [OF assms(1)] list.case)
qed

lemma skip_peek_some:
  assumes "ready opts c" "skip_peek c = (Some x, c1)"
  obtains w r where "rest c = w @ x # r" "spaces w" "\<not> is_ws x" "c1 = moved (length w) 0 c"
    "ready opts c1" "rest c1 = x # r"
proof
  let ?w = "takeWhile is_ws (rest c)" and ?r = "dropWhile is_ws (rest c)"
  have r: "?r = x # tl ?r" "c1 = moved (length ?w) 0 c"
    using skip_peek_eq [OF assms(1)] assms(2) by (auto split: list.splits)
  then show "rest c = ?w @ x # tl ?r" by (metis takeWhile_dropWhile_id)
  then show "rest c1 = x # tl ?r" using r(2) by (metis append_eq_conv_conj rest_moved(1))
  show "spaces ?w" by (auto simp: spaces_def list_all_iff dest: set_takeWhileD)
  show "\<not> is_ws x" using r(1) by (metis hd_dropWhile list.sel(1) list.distinct(1))
  show "c1 = moved (length ?w) 0 c" by (fact r)
  show "ready opts c1" using ready_moved [OF assms(1), of "length ?w" 0] assms(1) r(2)
    by (simp add: length_takeWhile_le ready_def)
qed

lemma skip_peek_none:
  assumes "ready opts c" "skip_peek c = (None, c1)"
  shows "spaces (rest c)"
proof -
  have "dropWhile is_ws (rest c) = []"
    using skip_peek_eq [OF assms(1)] assms(2) by (auto split: list.splits)
  then show ?thesis by (auto simp: spaces_def list_all_iff)
qed

subsection \<open>Strings\<close>

lemma hex4_at: "hex4 src p = hex4 (take 4 (drop p src)) 0"
  by (simp add: hex4_def)

lemma take_drop_append: "drop p src = a @ b \<Longrightarrow> take (length a) (drop p src) = a"
  by simp

lemma surrogate_pair_bound:
  "high_surrogate hi \<Longrightarrow> low_surrogate lo \<Longrightarrow> surrogate_pair hi lo \<le> 0x10FFFF"
  by (auto simp: high_surrogate_def low_surrogate_def surrogate_pair_def)

lemma low_at_iff:
  assumes "ready opts c"
  shows "low_at c = Some lo \<longleftrightarrow> (\<exists>l r. rest c = backslash # CHR ''u'' # l @ r \<and> length l = 4
    \<and> hex4 l 0 = Some lo \<and> low_surrogate lo)" (is "_ \<longleftrightarrow> ?text")
proof -
  have six: "6 \<le> length (rest c) \<longleftrightarrow> (\<exists>x y l r. rest c = x # y # l @ r \<and> length l = 4)"
  proof
    assume "6 \<le> length (rest c)"
    then obtain x y t where t: "rest c = x # y # t" "4 \<le> length t"
      by (cases "rest c"; cases "tl (rest c)") auto
    moreover have "t = take 4 t @ drop 4 t" "length (take 4 t) = 4" using t(2) by simp_all
    ultimately show "\<exists>x y l r. rest c = x # y # l @ r \<and> length l = 4" by metis
  qed auto
  show ?thesis
  proof (cases "6 \<le> length (rest c)")
    case True
    with six obtain x y l r where t: "rest c = x # y # l @ r" "length l = 4" by auto
    then have d: "c_src c ! c_pos c = x" "c_src c ! Suc (c_pos c) = y" "take 4 (drop (c_pos c + 2) (c_src c)) = l"
      using source_at [OF assms, of 0] source_at [OF assms, of 1] source_at [OF assms, of 2] by simp_all
    have "low_at c = Some lo \<longleftrightarrow> x = backslash \<and> y = CHR ''u'' \<and> hex4 l 0 = Some lo \<and> low_surrogate lo"
      using ready_at(2) [OF assms, of 6] True d
      by (auto simp: low_at_def hex4_at [of "c_src c"] low_surrogate_def split: option.splits)
    also have "\<dots> \<longleftrightarrow> ?text" using t by (auto simp: append_eq_append_conv)
    finally show ?thesis .
  next
    case False
    then have "\<not> ?text" by auto
    with False ready_at(2) [OF assms, of 6] show ?thesis by (simp add: low_at_def)
  qed
qed

text \<open>One character, in both directions.\<close>

lemma decode_unicode_complete:
  assumes "ready opts c" "rest c = h @ r" "length h = 4"
  shows "hex4 h 0 = Some u \<Longrightarrow> scalar_value u \<Longrightarrow>
      decode_unicode c out = Inr (out @ utf8 u, moved 4 0 c)"
    and "hex4 h 0 = Some hi \<Longrightarrow> high_surrogate hi \<Longrightarrow> r = backslash # CHR ''u'' # l @ q \<Longrightarrow>
      length l = 4 \<Longrightarrow> hex4 l 0 = Some lo \<Longrightarrow> low_surrogate lo \<Longrightarrow>
      decode_unicode c out = Inr (out @ utf8 (surrogate_pair hi lo), moved 10 0 c)"
proof -
  have h: "hex4 (c_src c) (c_pos c) = hex4 h 0" "c_pos c + 4 \<le> c_end c"
    using source_at(2) [OF assms(1), of 0] assms ready_at(2) [OF assms(1), of 4]
    by (simp_all add: hex4_at [of "c_src c"])
  show "decode_unicode c out = Inr (out @ utf8 u, moved 4 0 c)"
    if "hex4 h 0 = Some u" "scalar_value u"
    using that h appendUtf8_utf8 [of u out]
    by (auto simp: decode_unicode_def scalar_value_def forward_moved Let_def)
  assume hi: "hex4 h 0 = Some hi" "high_surrogate hi"
    and l: "r = backslash # CHR ''u'' # l @ q" "length l = 4" "hex4 l 0 = Some lo" "low_surrogate lo"
  have "ready opts (moved 4 0 c)" "rest (moved 4 0 c) = r"
    using assms ready_moved [of opts c 4 0] by (simp_all add: ready_def)
  then have "low_at (moved 4 0 c) = Some lo" using l low_at_iff by blast
  moreover have "0x10000 + push_bit 10 (hi - 0xD800) + (lo - 0xDC00) = surrogate_pair hi lo"
    by (simp add: surrogate_pair_def push_bit_eq_mult)
  ultimately show "decode_unicode c out = Inr (out @ utf8 (surrogate_pair hi lo), moved 10 0 c)"
    using hi h appendUtf8_utf8 [OF surrogate_pair_bound [OF hi(2) l(4)], of out]
    by (simp add: decode_unicode_def high_surrogate_def forward_moved Let_def)
qed

lemma decode_unicode_sound:
  assumes c: "ready opts c" and d: "decode_unicode c out = Inr (out', c')"
  shows "\<exists>q r b. rest c = q @ r \<and> c' = moved (length q) 0 c \<and> out' = out @ b
    \<and> jchar (backslash # CHR ''u'' # q) b"
proof -
  let ?h = "take 4 (rest c)"
  from d obtain u where u: "hex4 (c_src c) (c_pos c) = Some u" "c_pos c + 4 \<le> c_end c"
    by (auto simp: decode_unicode_def split: if_splits option.splits)
  then have len: "4 \<le> length (rest c)" and h: "hex4 ?h 0 = Some u"
    using source_at(2) [OF c, of 0] ready_at(2) [OF c, of 4] by (simp_all add: hex4_at [of "c_src c"])
  have h4: "length ?h = 4" using len by simp
  have split: "rest c = ?h @ drop 4 (rest c)" by simp
  show ?thesis
  proof (cases "high_surrogate u")
    case True
    then obtain lo where lo: "low_at (moved 4 0 c) = Some lo"
      using d u by (auto simp: decode_unicode_def high_surrogate_def forward_moved Let_def split: option.splits)
    have "ready opts (moved 4 0 c)" using c len ready_moved [of opts c 4 0] by (simp add: ready_def)
    with lo obtain l r where l: "drop 4 (rest c) = backslash # CHR ''u'' # l @ r" "length l = 4"
      "hex4 l 0 = Some lo" "low_surrogate lo"
      by (auto simp: low_at_iff)
    have "decode_unicode c out = Inr (out @ utf8 (surrogate_pair u lo), moved 10 0 c)"
      by (rule decode_unicode_complete(2) [OF c split h4 h True l])
    moreover have "jchar (backslash # CHR ''u'' # ?h @ backslash # CHR ''u'' # l) (utf8 (surrogate_pair u lo))"
      by (rule char_pair [OF h4 h True l(2-4)])
    moreover have "rest c = (?h @ backslash # CHR ''u'' # l) @ r"
      using split l(1) by simp
    moreover have "length (?h @ backslash # CHR ''u'' # l) = 10" using h4 l(2) by simp
    ultimately show ?thesis using d by (metis old.prod.inject sum.inject(2))
  next
    case False
    have "u < 65536" using hex4_less h by blast
    with False d u have s: "scalar_value u"
      by (auto simp: decode_unicode_def high_surrogate_def scalar_value_def Let_def split: if_splits)
    then have "decode_unicode c out = Inr (out @ utf8 u, moved 4 0 c)"
      using decode_unicode_complete(1) [OF c split h4 h] by simp
    moreover have "jchar (backslash # CHR ''u'' # ?h) (utf8 u)" by (rule char_unicode [OF h4 h s])
    ultimately show ?thesis using d split h4 by (metis old.prod.inject sum.inject(2))
  qed
qed

lemma escape_u: "simple_escape (CHR ''u'') = None"
  by (simp add: simple_escape_def)

lemma decode_escape_complete:
  assumes c: "ready opts c" and p: "jchar (backslash # p) b" "rest c = p @ r"
  shows "decode_escape c out = Inr (out @ b, moved (length p) 0 c)"
proof -
  have at: "c_src c ! c_pos c = x" "c_pos c < c_end c" "ready opts (moved 1 0 c)" "rest (moved 1 0 c) = t"
    if "rest c = x # t" for x t
    using that ready_at(1) [OF c] rest_nth [OF that] ready_moved [OF c, of 1 0] c
    by (auto simp: ready_def)
  from p(1) show ?thesis
  proof (cases rule: jchar.cases)
    case (char_escape e d)
    with at p(2) show ?thesis by (simp add: decode_escape_def forward_moved)
  next
    case (char_unicode h u)
    with p(2) have "rest c = CHR ''u'' # h @ r" by simp
    note at = at [OF this]
    show ?thesis
      using decode_unicode_complete(1) [OF at(3,4)] at char_unicode
      by (simp add: decode_escape_def escape_u forward_moved)
  next
    case (char_pair h hi l lo)
    with p(2) have "rest c = CHR ''u'' # h @ backslash # CHR ''u'' # l @ r" by simp
    note at = at [OF this]
    show ?thesis
      using decode_unicode_complete(2) [OF at(3,4) _ _ _ refl, of hi lo out] at char_pair
      by (simp add: decode_escape_def escape_u forward_moved)
  next
    case char_plain
    then show ?thesis by (simp add: plain_char_def)
  next
    case (char_utf8 cp)
    then show ?thesis using utf8_first [of cp] by auto
  qed
qed

lemma decode_escape_sound:
  assumes c: "ready opts c" and d: "decode_escape c out = Inr (out', c')"
  shows "\<exists>q r b. rest c = q @ r \<and> c' = moved (length q) 0 c \<and> out' = out @ b
    \<and> jchar (backslash # q) b"
proof -
  from d ready_at(1) [OF c] obtain e t where e: "rest c = e # t"
    by (cases "rest c") (auto simp: decode_escape_def)
  note ch = rest_nth [OF e]
  have m: "ready opts (moved 1 0 c)" "rest (moved 1 0 c) = t"
    using e ready_moved [OF c, of 1 0] c by (auto simp: ready_def)
  show ?thesis
  proof (cases "simple_escape e")
    case (Some x)
    then have "out' = out @ [x]" "c' = moved (length [e]) 0 c"
      using d ch by (auto simp: decode_escape_def forward_moved split: if_splits)
    moreover have "jchar (backslash # [e]) [x]" using Some by (rule char_escape)
    ultimately show ?thesis using e by (metis append_Cons append_Nil)
  next
    case None
    with d ch have "decode_unicode (moved 1 0 c) out = Inr (out', c')" "e = CHR ''u''"
      by (auto simp: decode_escape_def forward_moved Let_def split: if_splits)
    with decode_unicode_sound [OF m(1), unfolded m(2)] obtain q r b where
      "t = q @ r" "c' = moved (length q) 0 (moved 1 0 c)" "out' = out @ b"
      "jchar (backslash # CHR ''u'' # q) b" "e = CHR ''u''" by blast
    then have "rest c = (e # q) @ r" "c' = moved (length (e # q)) 0 c" "out' = out @ b"
      "jchar (backslash # e # q) b" using e by simp_all
    then show ?thesis by blast
  qed
qed

lemma utf8_at:
  assumes c: "ready opts c" and at: "rest c = x # t" "0x80 \<le> byte x"
  shows "utf8Len (c_src c) (c_pos c) (c_end c) = n \<and> n \<noteq> 0 \<longleftrightarrow>
    n \<le> length (rest c) \<and> (\<exists>cp. scalar_value cp \<and> 0x80 \<le> cp \<and> take n (rest c) = utf8 cp)"
proof -
  have "c_pos c < c_end c" "c_end c \<le> length (c_src c)" "0x80 \<le> byte (c_src c ! c_pos c)"
    using ready_at(1) [OF c] at rest_nth [OF at(1)] c by (simp_all add: ready_def)
  from utf8Len_iff [OF this, of n] show ?thesis
    unfolding ready_at(2) [OF c] rest_def .
qed

lemma decode_char_complete:
  assumes c: "ready opts c" and p: "jchar p b" "rest c = p @ r"
  shows "decode_char c out = Inr (out @ b, moved (length p) 0 c)"
proof -
  from jchar_nonempty [OF p(1)] obtain x q where x: "p = x # q" by (cases p) auto
  note ch = rest_nth [of c x "q @ r"]
  have m: "ready opts (moved 1 0 c)" "rest (moved 1 0 c) = q @ r"
    using p(2) x ready_moved [OF c, of 1 0] c by (auto simp: ready_def)
  show ?thesis
  proof (cases "x = backslash")
    case True
    then show ?thesis
      using decode_escape_complete [OF m(1) p(1) [unfolded x True], OF m(2)] ch p(2) x
      by (simp add: decode_char_def forward_moved)
  next
    case False
    from p(1) show ?thesis
    proof (cases rule: jchar.cases)
      case (char_plain ch)
      then show ?thesis using rest_nth [of c ch r] p(2)
        by (simp add: decode_char_def plain_char_def forward_moved)
    next
      case (char_utf8 cp)
      then have "0x80 \<le> byte x" using utf8_first [of cp] x by auto
      then have n: "utf8Len (c_src c) (c_pos c) (c_end c) = length p" "length p \<noteq> 0"
        using utf8_at [OF c, of x "q @ r" "length p"] p(2) x char_utf8 by auto
      then show ?thesis using \<open>0x80 \<le> byte x\<close> False ch p(2) x char_utf8 source_at(2) [OF c, of 0]
        by (simp add: decode_char_def forward_moved Let_def)
    qed (use False x in simp_all)
  qed
qed

lemma decode_char_sound:
  assumes c: "ready opts c" and at: "rest c = x # t" "x \<noteq> dquote"
    and d: "decode_char c out = Inr (out', c')"
  shows "\<exists>p r b. rest c = p @ r \<and> c' = moved (length p) 0 c \<and> out' = out @ b \<and> jchar p b"
proof -
  note ch = rest_nth [OF at(1)]
  have m: "ready opts (moved 1 0 c)" "rest (moved 1 0 c) = t"
    using at ready_moved [OF c, of 1 0] c by (auto simp: ready_def)
  consider "x = backslash" | "x \<noteq> backslash" "0x80 \<le> byte x" | "plain_char x"
    using d ch at(2) by (fastforce simp: decode_char_def plain_char_def)
  then show ?thesis
  proof cases
    case 1
    with d ch have "decode_escape (moved 1 0 c) out = Inr (out', c')"
      by (simp add: decode_char_def forward_moved)
    with decode_escape_sound [OF m(1), unfolded m(2)] obtain q r b where
      "t = q @ r" "c' = moved (length q) 0 (moved 1 0 c)" "out' = out @ b" "jchar (backslash # q) b"
      by blast
    then have "rest c = (x # q) @ r" "c' = moved (length (x # q)) 0 c" "out' = out @ b"
      "jchar (x # q) b" using at 1 by simp_all
    then show ?thesis by blast
  next
    case 2
    define n where "n = utf8Len (c_src c) (c_pos c) (c_end c)"
    have out: "n \<noteq> 0" "out' = out @ take n (rest c)" "c' = moved n 0 c"
      using d ch 2 by (auto simp: decode_char_def n_def rest_def forward_moved Let_def split: if_splits)
    then obtain cp where cp: "n \<le> length (rest c)" "scalar_value cp" "0x80 \<le> cp" "take n (rest c) = utf8 cp"
      using utf8_at [OF c at(1) 2(2), of n] n_def by auto
    have "jchar (take n (rest c)) (take n (rest c))" using char_utf8 cp by simp
    moreover have "rest c = take n (rest c) @ drop n (rest c)" "length (take n (rest c)) = n"
      using cp(1) by simp_all
    ultimately show ?thesis using out by metis
  next
    case 3
    then have "out' = out @ [x]" "c' = moved (length [x]) 0 c" "jchar [x] [x]"
      using d ch char_plain by (auto simp: decode_char_def plain_char_def forward_moved)
    then show ?thesis using at by (metis append_Cons append_Nil)
  qed
qed

lemma jchar_first: "jchar p b \<Longrightarrow> \<exists>x q. p = x # q \<and> x \<noteq> dquote"
  by (erule jchar.cases) (auto simp: plain_char_def dest!: utf8_first)

lemma decodeStringBody_complete:
  "jchars raw s \<Longrightarrow> ready opts c \<Longrightarrow> rest c = raw @ dquote # r \<Longrightarrow>
    decodeStringBody True c out = Inr (out @ s, moved (length raw + 1) 0 c)"
proof (induction raw s arbitrary: c out rule: jchars.induct)
  case chars_end
  then show ?case using ready_at(1) [of opts c] rest_nth [of c dquote r]
    by (subst decodeStringBody.simps) (simp add: forward_moved)
next
  case (chars_more p b q s)
  from jchar_first [OF chars_more.hyps(1)] obtain x p' where x: "p = x # p'" "x \<noteq> dquote" by auto
  have here: "rest c = p @ q @ dquote # r" using chars_more.prems(2) by simp
  have "ready opts (moved (length p) 0 c)"
    using chars_more.prems(1) here ready_moved [of opts c "length p" 0] by (simp add: ready_def)
  moreover have "rest (moved (length p) 0 c) = q @ dquote # r" using here by simp
  ultimately have "decodeStringBody True (moved (length p) 0 c) (out @ b)
      = Inr ((out @ b) @ s, moved (length q + 1) 0 (moved (length p) 0 c))"
    by (rule chars_more.IH)
  moreover have "decode_char c out = Inr (out @ b, moved (length p) 0 c)"
    by (rule decode_char_complete [OF chars_more.prems(1) chars_more.hyps(1) here])
  moreover have "c_pos c < c_end c" "c_src c ! c_pos c \<noteq> dquote"
    using ready_at(1) [OF chars_more.prems(1)] here x rest_nth [of c x] by auto
  ultimately show ?case by (subst decodeStringBody.simps) (simp add: add.assoc)
qed

lemma decodeStringBody_sound:
  "ready opts c \<Longrightarrow> decodeStringBody True c out = Inr (out', c') \<Longrightarrow>
    \<exists>raw s r. rest c = raw @ dquote # r \<and> c' = moved (length raw + 1) 0 c \<and> out' = out @ s
      \<and> jchars raw s"
proof (induction True c out rule: decodeStringBody.induct)
  case (1 c out)
  from 1(3) ready_at(1) [OF 1(2)] obtain x t where x: "rest c = x # t"
    by (cases "rest c") (auto simp: decodeStringBody.simps [of True c])
  then have at: "c_pos c < c_end c" "c_src c ! c_pos c = x"
    using ready_at(1) [OF 1(2)] rest_nth by auto
  show ?case
  proof (cases "x = dquote")
    case True
    then have "rest c = [] @ dquote # t" "c' = moved (length [] + 1) 0 c" "out' = out @ []"
      using 1(3) at x by (auto simp: decodeStringBody.simps [of True c] forward_moved)
    then show ?thesis using chars_end by blast
  next
    case False
    with 1(3) at obtain out1 c1 where d: "decode_char c out = Inr (out1, c1)"
      "decodeStringBody True c1 out1 = Inr (out', c')"
      by (auto simp: decodeStringBody.simps [of True c] split: sum.splits)
    from decode_char_sound [OF 1(2) x False d(1)] obtain p q b where
      p: "rest c = p @ q" "c1 = moved (length p) 0 c" "out1 = out @ b" "jchar p b" by blast
    have c1: "ready opts c1" "rest c1 = q"
      using 1(2) p ready_moved [of opts c "length p" 0] by (auto simp: ready_def)
    have "\<not> (True \<and> c_src c ! c_pos c = dquote)" using at False by simp
    from 1(1) [OF at(1) this d(1) refl c1(1) d(2)] obtain raw s r where
      r: "rest c1 = raw @ dquote # r" "c' = moved (length raw + 1) 0 c1" "out' = out1 @ s" "jchars raw s"
      by blast
    have "rest c = (p @ raw) @ dquote # r" "c' = moved (length (p @ raw) + 1) 0 c"
      "out' = out @ b @ s" using p r c1 by (simp_all add: add.assoc)
    then show ?thesis using chars_more [OF p(4) r(4)] by blast
  qed
qed

lemma extractString_complete:
  assumes c: "ready opts c" and s: "jchars raw s" "rest c = quoted raw @ r"
  shows "extractString c = Inr (s, moved (length (quoted raw)) 0 c)"
proof -
  have t: "rest c = dquote # raw @ dquote # r" using s(2) by (simp add: quoted_def)
  have "ready opts (moved 1 0 c)" "rest (moved 1 0 c) = raw @ dquote # r"
    using c t ready_moved [of opts c 1 0] by (simp_all add: ready_def)
  from decodeStringBody_complete [OF s(1) this, of "[]"] show ?thesis
    using t ready_at(1) [OF c] rest_nth [OF t]
    by (simp add: extractString_def forward_moved quoted_def)
qed

lemma extractString_sound:
  assumes c: "ready opts c" and s: "extractString c = Inr (s, c')"
  shows "\<exists>raw r. rest c = quoted raw @ r \<and> c' = moved (length (quoted raw)) 0 c \<and> jchars raw s"
proof -
  from s ready_at(1) [OF c] obtain t where t: "rest c = dquote # t"
    using rest_nth [of c] by (cases "rest c") (auto simp: extractString_def split: if_splits)
  then have d: "decodeStringBody True (moved 1 0 c) [] = Inr (s, c')"
    using s by (auto simp: extractString_def forward_moved split: if_splits)
  have m: "ready opts (moved 1 0 c)" "rest (moved 1 0 c) = t"
    using c t ready_moved [of opts c 1 0] by (simp_all add: ready_def)
  from decodeStringBody_sound [OF m(1) d, unfolded m(2)] obtain raw s' r where
    "t = raw @ dquote # r" "c' = moved (length raw + 1) 0 (moved 1 0 c)" "s = [] @ s'" "jchars raw s'"
    by blast
  then show ?thesis using t by (auto simp: quoted_def)
qed

subsection \<open>Separators, keywords and numbers\<close>

lemma skipColon_complete:
  "spaces w \<Longrightarrow> ready opts c \<Longrightarrow> rest c = w @ CHR '':'' # r \<Longrightarrow>
    skipColon c = Inr ((), moved (length w + 1) 0 c)"
proof (induction w arbitrary: c)
  case Nil
  then show ?case using ready_at(1) [of opts c] rest_nth [of c "CHR '':''" r]
    by (subst skipColon.simps) (simp add: forward_moved)
next
  case (Cons x w)
  have "ready opts (moved 1 0 c)" "rest (moved 1 0 c) = w @ CHR '':'' # r"
    using Cons.prems ready_moved [of opts c 1 0] by (simp_all add: ready_def)
  then have "skipColon (moved 1 0 c) = Inr ((), moved (length w + 1) 0 (moved 1 0 c))"
    using Cons.IH Cons.prems(1) by simp
  then show ?case
    using ready_at(1) [OF Cons.prems(2)] rest_nth [of c x] Cons.prems
    by (subst skipColon.simps) (auto simp: forward_moved)
qed

lemma skipColon_sound:
  "ready opts c \<Longrightarrow> skipColon c = Inr (u, c') \<Longrightarrow>
    \<exists>w r. rest c = w @ CHR '':'' # r \<and> spaces w \<and> c' = moved (length w + 1) 0 c"
proof (induction c rule: skipColon.induct)
  case (1 c)
  from 1(3) ready_at(1) [OF 1(2)] obtain x t where x: "rest c = x # t"
    by (cases "rest c") (auto simp: skipColon.simps [of c])
  then have at: "c_pos c < c_end c" "c_src c ! c_pos c = x"
    using ready_at(1) [OF 1(2)] rest_nth by auto
  show ?case
  proof (cases "x = CHR '':''")
    case True
    then have "rest c = [] @ CHR '':'' # t" "c' = moved (length [] + 1) 0 c"
      using 1(3) at x by (auto simp: skipColon.simps [of c] forward_moved)
    then show ?thesis by (metis spaces_append(2))
  next
    case False
    with 1(3) at have ws: "is_ws x" "skipColon (forward 1 c) = Inr (u, c')"
      by (auto simp: skipColon.simps [of c] Let_def split: if_splits)
    have m: "ready opts (forward 1 c)" "rest (forward 1 c) = t"
      using 1(2) x ready_moved [of opts c 1 0] by (simp_all add: ready_def forward_moved)
    from 1(1) [OF at(1) refl _ _ m(1) ws(2)] ws False at obtain w r where
      "t = w @ CHR '':'' # r" "spaces w" "c' = moved (length w + 1) 0 (forward 1 c)"
      using m(2) by auto
    then have "rest c = (x # w) @ CHR '':'' # r" "spaces (x # w)" "c' = moved (length (x # w) + 1) 0 c"
      using x ws by (simp_all add: forward_moved)
    then show ?thesis by blast
  qed
qed

lemma keyword_at_iff:
  assumes "ready opts c"
  shows "keyword_at c word \<longleftrightarrow> (\<exists>r. rest c = word @ r)"
proof -
  have "keyword_at c word \<longleftrightarrow> take (length word) (rest c) = word"
    using ready_at(2) [OF assms, of "length word"]
    by (auto simp: keyword_at_def rest_def)
  also have "\<dots> \<longleftrightarrow> (\<exists>r. rest c = word @ r)"
    by (metis append_eq_conv_conj append_take_drop_id)
  finally show ?thesis .
qed

lemma keyword_value_eq:
  "room 1 c \<Longrightarrow> keyword_value c word v = Inr (v, moved (length word) 1 c)"
  using newNode_room [of "moved (length word) 0 c"]
  by (simp add: keyword_value_def forward_moved)

lemma keyword_value_sound:
  "keyword_value c word v = Inr (v', c') \<Longrightarrow> v' = v \<and> c' = moved (length word) 1 c \<and> room 1 c"
  by (auto simp: keyword_value_def forward_moved dest!: newNode_result)

lemma source_from_drop: "c_end c = length (c_src c) \<Longrightarrow> source_from c p = drop p (c_src c)"
  by (auto simp: source_from_def intro: nth_equalityI)

text \<open>The cursor also stays inside the source.\<close>

interpretation dom_inside: number_cursor "dom_scanner c" "source_from c" "\<lambda>p. p \<le> c_end c" for c
proof
  show "\<exists>s'. sc_peek (dom_scanner c) p = (case source_from c p of [] \<Rightarrow> None | ch # r \<Rightarrow> Some ch, s')
      \<and> s' \<le> c_end c \<and> source_from c s' = source_from c p" if "p \<le> c_end c" for p
    using that source_from_Nil [of c p]
    by (cases "p < c_end c") (auto simp: dom_scanner_def source_from_Cons Let_def)
  show "\<exists>s'. sc_take (dom_scanner c) p = (Some ch, s') \<and> s' \<le> c_end c \<and> source_from c s' = r"
    if "p \<le> c_end c" "source_from c p = ch # r" for p ch r
  proof -
    have "p < c_end c" using that source_from_Nil [of c p] by (cases "p < c_end c") auto
    with that have "ch = c_src c ! p" "r = source_from c (Suc p)" by (simp_all add: source_from_Cons)
    with \<open>p < c_end c\<close> show ?thesis by (simp add: dom_scanner_def)
  qed
qed

lemma scan_rest:
  assumes c: "ready opts c"
  shows "case text_number (rest c) of
      Inl msg \<Rightarrow> \<exists>p. scanJsonNumber (dom_scanner c) (c_pos c) = Some (Inl (Some msg, p))
    | Inr (tf, r) \<Rightarrow> scanJsonNumber (dom_scanner c) (c_pos c)
        = Some (Inr (tf, c_pos c + (length (rest c) - length r)))"
proof -
  have pos: "c_pos c \<le> c_end c" and src: "c_end c = length (c_src c)" "source_from c (c_pos c) = rest c"
    using c by (auto simp: ready_def rest_def source_from_drop)
  have at: "q = c_pos c + (length (rest c) - length (source_from c q))"
    if "q \<le> c_end c" "length (source_from c q) \<le> length (rest c)" for q
    using that src pos by (auto simp: source_from_drop rest_def)
  show ?thesis
  proof (cases "text_number (rest c)")
    case (Inl msg)
    with dom_inside.number_scan [OF pos] src(2) show ?thesis
      by (auto simp: dom_inside.rejects_def)
  next
    case (Inr tfr)
    obtain t f r where tfr: "tfr = ((t, f), r)" by (metis surj_pair)
    with Inr have n: "text_number (rest c) = Inr ((t, f), r)" by simp
    from dom_inside.number_scan [OF pos] src(2) n obtain q where
      q: "scanJsonNumber (dom_scanner c) (c_pos c) = Some (Inr ((t, f), q))" "q \<le> c_end c"
      "source_from c q = r"
      by (auto simp: dom_inside.scans_def)
    have "length r \<le> length (rest c)" using text_number_result [OF n] by auto
    with at [OF q(2)] q(1,3) n show ?thesis by simp
  qed
qed

lemma moved_at: "moved 0 1 c\<lparr>c_pos := c_pos c + n\<rparr> = moved n 1 c"
  by (simp add: moved_def)

lemma parseNumber_complete:
  assumes c: "ready opts c" "room 1 c" and t: "jnumber t f" "rest c = t @ r" "number_end r"
    and n: "convertNumberToken uf t f (po_numberPolicy opts) = Inr n"
  shows "parseNumber uf c = Inr (number_value_of n, moved (length t) 1 c)"
  using scan_rest [OF c(1)] text_number_complete [OF t(1,3)] t(2) n newNode_room [OF c(2)] c(1)
    moved_at [of c "length t"]
  by (simp add: parseNumber_def ready_def)

lemma parseNumber_sound:
  assumes c: "ready opts c" and p: "parseNumber uf c = Inr (v, c')"
  shows "\<exists>t f r n. rest c = t @ r \<and> jnumber t f \<and> v = number_value_of n \<and> room 1 c
    \<and> convertNumberToken uf t f (po_numberPolicy opts) = Inr n \<and> c' = moved (length t) 1 c"
proof (cases "text_number (rest c)")
  case (Inl msg)
  with scan_rest [OF c] p show ?thesis by (auto simp: parseNumber_def)
next
  case (Inr tfr)
  obtain t f r where "tfr = ((t, f), r)" by (metis surj_pair)
  with Inr have n: "text_number (rest c) = Inr ((t, f), r)" by simp
  have t: "rest c = t @ r" "jnumber t f" using text_number_result [OF n] by auto
  have "the (scanJsonNumber (dom_scanner c) (c_pos c)) = Inr ((t, f), c_pos c + length t)"
    using scan_rest [OF c] n t(1) by simp
  then obtain m where m: "convertNumberToken uf t f (po_numberPolicy opts) = Inr m"
    and nn: "try_bind (newNode c) (\<lambda>(_, c1). Inr (number_value_of m, c1\<lparr>c_pos := c_pos c + length t\<rparr>))
      = (Inr (v, c') :: json parsed)"
    using p c by (auto simp: parseNumber_def ready_def split: sum.splits)
  from nn obtain u c1 where "newNode c = Inr (u, c1)" "v = number_value_of m"
    "c' = c1\<lparr>c_pos := c_pos c + length t\<rparr>"
    by auto
  then have "room 1 c" "c' = moved (length t) 1 c" "v = number_value_of m"
    using newNode_result moved_at by blast+
  with t m show ?thesis by blast
qed

subsection \<open>Scalars\<close>

text \<open>What a parse consumed stands for the value, within the depth and node budgets.\<close>

definition derives :: "bool \<Rightarrow> ParserOptions \<Rightarrow> ParseCtx \<Rightarrow> json \<Rightarrow> ParseCtx \<Rightarrow> bool" where
  "derives uf opts c v c' \<longleftrightarrow> (\<exists>s t r. rest c = s @ r \<and> jvalue s t
     \<and> tree_value uf opts t = Some v \<and> c' = moved (length s) (tree_nodes t) c
     \<and> room (tree_nodes t) c \<and> c_depth c + tree_depth t \<le> c_maxDepth c)"

lemma derivesI:
  "rest c = s @ r \<Longrightarrow> jvalue s t \<Longrightarrow> tree_value uf opts t = Some v \<Longrightarrow>
    c' = moved (length s) (tree_nodes t) c \<Longrightarrow> room (tree_nodes t) c \<Longrightarrow>
    c_depth c + tree_depth t \<le> c_maxDepth c \<Longrightarrow> derives uf opts c v c'"
  unfolding derives_def by blast

text \<open>And a parse that has to succeed.\<close>

definition accepts :: "bool \<Rightarrow> ParserOptions \<Rightarrow> ParseCtx \<Rightarrow> string \<Rightarrow> string \<Rightarrow> jtree \<Rightarrow> json \<Rightarrow> bool" where
  "accepts uf opts c s r t v \<longleftrightarrow> ready opts c \<and> rest c = s @ r \<and> number_end r
     \<and> tree_value uf opts t = Some v \<and> room (tree_nodes t) c
     \<and> c_depth c + tree_depth t \<le> c_maxDepth c"

lemma parseString_complete:
  "accepts uf opts c (quoted raw) r (TString s) v \<Longrightarrow> jchars raw s \<Longrightarrow>
    parseString c = Inr (v, moved (length (quoted raw)) 1 c)"
  using extractString_complete [of opts c raw s r] newNode_room [of "moved (length (quoted raw)) 0 c"]
  by (auto simp: accepts_def parseString_def assign_results)

lemma parseString_sound:
  assumes c: "ready opts c" and p: "parseString c = Inr (v, c')"
  shows "derives uf opts c v c'"
proof -
  from p obtain s c1 u c2 where e: "extractString c = Inr (s, c1)" "newNode c1 = Inr (u, c2)"
    "v = assign_string JNull s" "c' = c2"
    by (auto simp: parseString_def)
  from extractString_sound [OF c e(1)] obtain raw r where
    "rest c = quoted raw @ r" "c1 = moved (length (quoted raw)) 0 c" "jchars raw s" by blast
  moreover note newNode_result [OF e(2)] value_string [of raw s]
  ultimately show ?thesis using e(3,4) c
    by (intro derivesI [of c "quoted raw" r "TString s"]) (auto simp: assign_results ready_def)
qed

lemma parseKeyword_sound:
  assumes c: "ready opts c" and p: "parseKeyword c = Inr (v, c')"
  shows "derives uf opts c v c'"
proof -
  have word: "derives uf opts c v c'"
    if "rest c = s @ r" "jvalue s t" "tree_value uf opts t = Some w" "tree_nodes t = 1" "tree_depth t = 0"
      "keyword_value c s w = Inr (v, c')" for s r t w
    using derivesI [OF that(1-3), of c'] that(4,5) keyword_value_sound [OF that(6)] c
    by (simp add: ready_def)
  from p consider "keyword_at c ''null''" "keyword_value c ''null'' JNull = Inr (v, c')"
    | "keyword_at c ''true''" "keyword_value c ''true'' (JBool True) = Inr (v, c')"
    | "keyword_at c ''false''" "keyword_value c ''false'' (JBool False) = Inr (v, c')"
    by (auto simp: parseKeyword_def assign_results split: if_splits)
  then show ?thesis
  proof cases
    case 1
    then show ?thesis using word [OF _ value_null] keyword_at_iff [OF c] by fastforce
  next
    case 2
    then show ?thesis using word [OF _ value_true] keyword_at_iff [OF c] by fastforce
  next
    case 3
    then show ?thesis using word [OF _ value_false] keyword_at_iff [OF c] by fastforce
  qed
qed

lemma parseKeyword_complete:
  assumes c: "ready opts c" "room 1 c"
  shows "rest c = ''null'' @ r \<Longrightarrow> parseKeyword c = Inr (JNull, moved (length ''null'') 1 c)"
    and "rest c = ''true'' @ r \<Longrightarrow> parseKeyword c = Inr (JBool True, moved (length ''true'') 1 c)"
    and "rest c = ''false'' @ r \<Longrightarrow> parseKeyword c = Inr (JBool False, moved (length ''false'') 1 c)"
  by (simp_all add: parseKeyword_def keyword_at_iff [OF c(1)] keyword_value_eq [OF c(2)] assign_results)

subsection \<open>Containers, from the grammar to the parser\<close>

lemma peek_spaces:
  assumes "ready opts c" "rest c = w @ x # r" "spaces w" "\<not> is_ws x"
  shows "ready opts (moved (length w) 0 c)" "rest (moved (length w) 0 c) = x # r"
    "skip_peek (moved (length w) 0 c) = (Some x, moved (length w) 0 c)"
    "skip_peek c = (Some x, moved (length w) 0 c)"
proof -
  show r: "ready opts (moved (length w) 0 c)" "rest (moved (length w) 0 c) = x # r"
    using assms ready_moved [of opts c "length w" 0] by (simp_all add: ready_def)
  show "skip_peek c = (Some x, moved (length w) 0 c)" by (rule skip_peek_text [OF assms])
  show "skip_peek (moved (length w) 0 c) = (Some x, moved (length w) 0 c)"
    using skip_peek_text [OF r(1), of "[]" x r] r(2) assms(4) by simp
qed

lemma parse_spaces:
  assumes "ready opts c" "rest c = w @ x # r" "spaces w" "\<not> is_ws x"
  shows "parseValue uf c = parseValue uf (moved (length w) 0 c)"
    "parse_elements uf c e a xs = parse_elements uf (moved (length w) 0 c) e a xs"
    "parse_members uf c e a ms = parse_members uf (moved (length w) 0 c) e a ms"
  by (simp_all only: parseValue.simps [of uf c] parseValue.simps [of uf "moved (length w) 0 c"]
      parse_elements.simps [of uf c] parse_elements.simps [of uf "moved (length w) 0 c"]
      parse_members.simps [of uf c] parse_members.simps [of uf "moved (length w) 0 c"]
      peek_spaces [OF assms])

lemma open_container_complete:
  assumes "room 1 c" "c_depth c < c_maxDepth c"
  shows "open_container c = Inr ((), moved 1 1 (deeper c))"
  using assms newNode_room [of "deeper c"]
  by (simp add: open_container_def deeper_def [symmetric] forward_moved)

lemma open_container_sound:
  "open_container c = Inr (u, c') \<Longrightarrow>
    c' = moved 1 1 (deeper c) \<and> room 1 c \<and> c_depth c < c_maxDepth c"
  by (auto simp: open_container_def deeper_def [symmetric] forward_moved
      split: if_splits sum.splits dest!: newNode_result)

lemma value_first:
  assumes "jvalue s t"
  obtains x q where "s = x # q" "\<not> is_ws x" "x \<noteq> CHR '']''" "x \<noteq> CHR '',''" "x \<noteq> CHR ''}''"
proof -
  obtain x q where "s = x # q" "value_start x" using jvalue_first [OF assms] by auto
  moreover from this(2) have "\<not> is_ws x" by (rule value_start_not_ws)
  moreover have "x \<noteq> CHR '']''" "x \<noteq> CHR '',''" "x \<noteq> CHR ''}''"
    using \<open>value_start x\<close> by (auto simp: value_start_def is_digit_def less_eq_char_def)
  ultimately show ?thesis using that by blast
qed

text \<open>One step of a loop that stands before a value, a comma or the closing bracket.\<close>

lemma elements_step:
  assumes "ready opts c" "rest c = x # r"
  shows "x = CHR '']'' \<Longrightarrow> \<not> e \<Longrightarrow>
      parse_elements uf c e a xs = Inr (JArray xs, leave (moved 1 0 c))"
    and "x = CHR '','' \<Longrightarrow> a \<Longrightarrow> \<not> e \<Longrightarrow>
      parse_elements uf c e a xs = parse_elements uf (moved 1 0 c) True a xs"
    and "\<not> is_ws x \<Longrightarrow> x \<noteq> CHR '']'' \<Longrightarrow> x \<noteq> CHR '','' \<Longrightarrow> e = a \<Longrightarrow>
      parseValue uf c = Inr (v, c1) \<Longrightarrow>
      parse_elements uf c e a xs = parse_elements uf c1 False True (xs @ [v])"
  using skip_peek_text [OF assms(1), of "[]"] assms(2)
  by (subst parse_elements.simps; simp add: forward_moved)+

lemma members_step:
  assumes "ready opts c" "rest c = x # r"
  shows "x = CHR ''}'' \<Longrightarrow> \<not> e \<Longrightarrow>
      parse_members uf c e a ms = Inr (JObject ms, leave (moved 1 0 c))"
    and "x = CHR '','' \<Longrightarrow> a \<Longrightarrow> \<not> e \<Longrightarrow>
      parse_members uf c e a ms = parse_members uf (moved 1 0 c) True a ms"
    and "x = dquote \<Longrightarrow> e = a \<Longrightarrow> member_name c ms = Inr (k, c1) \<Longrightarrow>
      parseValue uf c1 = Inr (v, c2) \<Longrightarrow>
      parse_members uf c e a ms
        = parse_members uf c2 False True (store_member (c_duplicateKeys c2) k v ms)"
  using skip_peek_text [OF assms(1), of "[]"] assms(2)
  by (subst parse_members.simps; simp add: forward_moved)+

lemma member_name_complete:
  assumes c: "ready opts c" and k: "jchars raw k" "rest c = quoted raw @ b @ CHR '':'' # r" "spaces b"
    and d: "\<not> (map_of ms k \<noteq> None \<and> po_duplicateKeys opts = RejectDuplicateKeys)"
  shows "member_name c ms = Inr (k, moved (length (quoted raw) + length b + 1) 0 c)"
proof -
  let ?c = "moved (length (quoted raw)) 0 c"
  have "ready opts ?c" "rest ?c = b @ CHR '':'' # r"
    using c k ready_moved [of opts c "length (quoted raw)" 0] by (simp_all add: ready_def)
  from skipColon_complete [OF k(3) this] have "skipColon ?c = Inr ((), moved (length b + 1) 0 ?c)" .
  with extractString_complete [OF c k(1,2)] d c show ?thesis
    by (auto simp: member_name_def ready_def add.assoc)
qed

lemma ws_number_end: "is_ws x \<Longrightarrow> number_end (x # r)"
  by (auto simp: number_end_def is_ws_def is_digit_def is_exponent_mark_def less_eq_char_def)

lemma number_end_spaces:
  assumes "spaces b"
  shows "x = CHR '']'' \<or> x = CHR ''}'' \<or> x = CHR '','' \<Longrightarrow> number_end (b @ x # r)"
    and "number_end b"
  using assms ws_number_end
  by (cases b; auto simp: number_end_def is_digit_def is_exponent_mark_def less_eq_char_def)+

definition parses :: "bool \<Rightarrow> ParserOptions \<Rightarrow> string \<Rightarrow> jtree \<Rightarrow> bool" where
  "parses uf opts s t \<longleftrightarrow> (\<forall>c r v. accepts uf opts c s r t v \<longrightarrow>
     parseValue uf c = Inr (v, moved (length s) (tree_nodes t) c))"

lemma parsesD:
  assumes "parses uf opts s t" "jvalue s t" "ready opts c" "rest c = w @ s @ b @ x # r" "spaces w"
    "spaces b" "x = CHR '']'' \<or> x = CHR ''}'' \<or> x = CHR '',''"
    "tree_value uf opts t = Some v" "room (tree_nodes t) c" "c_depth c + tree_depth t \<le> c_maxDepth c"
  shows "parseValue uf c = Inr (v, moved (length w + length s) (tree_nodes t) c)"
    "ready opts (moved (length w + length s + length b) (tree_nodes t) c)"
    "rest (moved (length w + length s + length b) (tree_nodes t) c) = x # r"
proof -
  obtain y q where y: "s = y # q" "\<not> is_ws y" using value_first [OF assms(2)] .
  then have rest: "rest c = w @ y # q @ b @ x # r" using assms(4) by simp
  note w = peek_spaces(1,2) [OF assms(3) rest assms(5) y(2)]
  then have "accepts uf opts (moved (length w) 0 c) s (b @ x # r) t v"
    using assms y number_end_spaces(1) [OF assms(6,7)] by (simp add: accepts_def)
  with assms(1) have "parseValue uf (moved (length w) 0 c)
      = Inr (v, moved (length s) (tree_nodes t) (moved (length w) 0 c))"
    by (auto simp: parses_def)
  with parse_spaces(1) [OF assms(3) rest assms(5) y(2)]
  show "parseValue uf c = Inr (v, moved (length w + length s) (tree_nodes t) c)" by simp
  show "ready opts (moved (length w + length s + length b) (tree_nodes t) c)"
    using assms(3,4,9) by (intro ready_moved) simp_all
  show "rest (moved (length w + length s + length b) (tree_nodes t) c) = x # r"
    using assms(4) by simp
qed

lemma element_complete:
  assumes p: "parses uf opts s t" "jvalue s t" "ready opts c" "rest c = a @ s @ b @ x # r" "spaces a"
    "spaces b" "x = CHR '']'' \<or> x = CHR '',''"
    "tree_value uf opts t = Some v" "room (tree_nodes t) c" "c_depth c + tree_depth t \<le> c_maxDepth c"
  shows "parse_elements uf c e e xs =
    parse_elements uf (moved (length a + length s + length b) (tree_nodes t) c) False True (xs @ [v])"
proof -
  have x: "x = CHR '']'' \<or> x = CHR ''}'' \<or> x = CHR '',''" "\<not> is_ws x" using p(7) by auto
  obtain y q where y: "s = y # q" "\<not> is_ws y" "y \<noteq> CHR '']''" "y \<noteq> CHR '',''"
    using value_first [OF p(2)] .
  then have rest: "rest c = a @ y # q @ b @ x # r" using p(4) by simp
  let ?c = "moved (length a) 0 c"
  note w = peek_spaces(1,2) [OF p(3) rest p(5) y(2)]
  have rest': "rest ?c = [] @ s @ b @ x # r" using w(2) y by simp
  note val = parsesD [OF p(1,2) w(1) rest' _ p(6) x(1) p(8)]
  have "parse_elements uf ?c e e xs =
      parse_elements uf (moved (length s) (tree_nodes t) ?c) False True (xs @ [v])"
    using elements_step(3) [OF w y(2-4) refl] val(1) p(9,10) by simp
  moreover have "ready opts (moved (length a + length s) (tree_nodes t) c)"
    "rest (moved (length a + length s) (tree_nodes t) c) = b @ x # r"
    using p(3,4,9) by (auto intro!: ready_moved)
  note parse_spaces(2) [OF this p(6) x(2), of uf False True "xs @ [v]"]
  ultimately show ?thesis
    using parse_spaces(2) [OF p(3) rest p(5) y(2)] by (simp add: add.assoc)
qed

lemma member_complete:
  assumes p: "parses uf opts s t" "jvalue s t" "ready opts c"
    "rest c = a @ quoted raw @ b @ CHR '':'' # w @ s @ d @ x # r" "spaces a" "jchars raw k" "spaces b"
    "spaces w" "spaces d" "x = CHR ''}'' \<or> x = CHR '',''"
    "tree_value uf opts t = Some v" "room (tree_nodes t) c" "c_depth c + tree_depth t \<le> c_maxDepth c"
    and dup: "\<not> (map_of ms k \<noteq> None \<and> po_duplicateKeys opts = RejectDuplicateKeys)"
  shows "parse_members uf c e e ms =
    parse_members uf
      (moved (length (a @ quoted raw @ b @ CHR '':'' # w @ s @ d)) (tree_nodes t) c) False True
      (store_member (po_duplicateKeys opts) k v ms)"
proof -
  have x: "x = CHR '']'' \<or> x = CHR ''}'' \<or> x = CHR '',''" "\<not> is_ws x" using p(10) by auto
  have rest: "rest c = a @ dquote # raw @ [dquote] @ b @ CHR '':'' # w @ s @ d @ x # r"
    using p(4) by (simp add: quoted_def)
  let ?c = "moved (length a) 0 c"
  let ?n = "length (quoted raw) + length b + 1"
  note w = peek_spaces(1,2) [OF p(3) rest p(5)]
  have rest': "rest ?c = quoted raw @ b @ CHR '':'' # w @ s @ d @ x # r"
    using p(4) by simp
  have name: "member_name ?c ms = Inr (k, moved ?n 0 ?c)"
    using member_name_complete [OF w(1) p(6) rest' p(7) dup] by simp
  have c2: "ready opts (moved ?n 0 ?c)" "rest (moved ?n 0 ?c) = w @ s @ d @ x # r"
    using ready_moved [OF w(1), of ?n 0] w(1) unfolding rest_moved(1) [of ?n 0] rest' by (simp_all add: ready_def)
  note val = parsesD [OF p(1,2) c2 p(8,9) x(1) p(11)]
  have "parse_members uf ?c e e ms = parse_members uf (moved (length w + length s) (tree_nodes t) (moved ?n 0 ?c))
      False True (store_member (po_duplicateKeys opts) k v ms)"
    using members_step(3) [OF w(1) _ refl refl name, of _ uf v] w(2) val(1) p(3,12,13)
    by (simp add: ready_def)
  moreover have "ready opts (moved (length w + length s) (tree_nodes t) (moved ?n 0 ?c))"
    "rest (moved (length w + length s) (tree_nodes t) (moved ?n 0 ?c)) = d @ x # r"
    using p(3,4,12) by (auto intro!: ready_moved)
  note parse_spaces(3) [OF this p(9) x(2), of uf False True "store_member (po_duplicateKeys opts) k v ms"]
  ultimately show ?thesis
    using parse_spaces(3) [OF p(3) rest p(5)] by (simp add: ac_simps)
qed

lemma Suc_fold_max_le:
  "d + Suc (fold max xs 0) \<le> m \<longleftrightarrow> Suc d \<le> m \<and> (\<forall>x\<in>set xs. Suc d + x \<le> m)"
proof (cases "Suc d \<le> m")
  case True
  then have "d + Suc (fold max xs 0) \<le> m \<longleftrightarrow> fold max xs 0 \<le> m - Suc d" by auto
  also have "\<dots> \<longleftrightarrow> (\<forall>x\<in>set xs. x \<le> m - Suc d)" by (simp add: fold_max_le)
  also have "\<dots> \<longleftrightarrow> (\<forall>x\<in>set xs. Suc d + x \<le> m)" using True by (intro ball_cong refl) auto
  finally show ?thesis using True by simp
qed simp

lemma depth_containers:
  "d + tree_depth (TArray ts) \<le> m \<longleftrightarrow> Suc d \<le> m \<and> (\<forall>t\<in>set ts. Suc d + tree_depth t \<le> m)"
  "d + tree_depth (TObject ms) \<le> m \<longleftrightarrow> Suc d \<le> m \<and> (\<forall>e\<in>set ms. Suc d + tree_depth (snd e) \<le> m)"
  by (simp_all only: tree_depth.simps Suc_fold_max_le) simp_all

lemma open_ready:
  assumes "ready opts c" "rest c = x # r" "room 1 c" "Suc (c_depth c) \<le> c_maxDepth c"
  shows "ready opts (moved 1 1 (deeper c))" "rest (moved 1 1 (deeper c)) = r"
  using assms ready_moved [OF ready_deeper, of opts c 1 1] by simp_all

definition parses_elements :: "bool \<Rightarrow> ParserOptions \<Rightarrow> string \<Rightarrow> jtree list \<Rightarrow> bool" where
  "parses_elements uf opts s ts \<longleftrightarrow> (\<forall>c r vs e xs. ready opts c \<longrightarrow> rest c = s @ CHR '']'' # r \<longrightarrow>
     tree_elements uf opts ts = Some vs \<longrightarrow> room (sum_list (map tree_nodes ts)) c \<longrightarrow>
     (\<forall>t\<in>set ts. c_depth c + tree_depth t \<le> c_maxDepth c) \<longrightarrow>
     parse_elements uf c e e xs = Inr (JArray (xs @ vs),
       leave (moved (length s + 1) (sum_list (map tree_nodes ts)) c)))"

definition parses_members :: "bool \<Rightarrow> ParserOptions \<Rightarrow> string \<Rightarrow> (string \<times> jtree) list \<Rightarrow> bool" where
  "parses_members uf opts s es \<longleftrightarrow> (\<forall>c r ms ms' e. ready opts c \<longrightarrow> rest c = s @ CHR ''}'' # r \<longrightarrow>
     tree_members uf opts es ms = Some ms' \<longrightarrow> room (sum_list (map (\<lambda>m. tree_nodes (snd m)) es)) c \<longrightarrow>
     (\<forall>m\<in>set es. c_depth c + tree_depth (snd m) \<le> c_maxDepth c) \<longrightarrow>
     parse_members uf c e e ms = Inr (JObject ms',
       leave (moved (length s + 1) (sum_list (map (\<lambda>m. tree_nodes (snd m)) es)) c)))"

lemma parse_container:
  assumes "ready opts c" "rest c = x # r" "room 1 c" "Suc (c_depth c) \<le> c_maxDepth c"
  shows "x = CHR ''['' \<Longrightarrow> parseValue uf c = parse_elements uf (moved 1 1 (deeper c)) False False []"
    and "x = CHR ''{'' \<Longrightarrow> parseValue uf c = parse_members uf (moved 1 1 (deeper c)) False False []"
  using skip_peek_text [OF assms(1), of "[]" x r] open_container_complete [of c] assms
  by (simp_all add: parseValue.simps [of uf c] parseArray.simps parseObject.simps)

lemma parse_empty:
  assumes "ready opts c" "rest c = w @ x # r" "spaces w"
  shows "x = CHR '']'' \<Longrightarrow> parse_elements uf c False a xs = Inr (JArray xs, leave (moved (length w + 1) 0 c))"
    and "x = CHR ''}'' \<Longrightarrow> parse_members uf c False a ms = Inr (JObject ms, leave (moved (length w + 1) 0 c))"
  using peek_spaces(1,2) [OF assms] parse_spaces(2,3) [OF assms]
    elements_step(1) [of opts "moved (length w) 0 c" x r False]
    members_step(1) [of opts "moved (length w) 0 c" x r False]
  by simp_all

lemma accepts_scalar:
  assumes "accepts uf opts c (x # s) r t v" "\<not> is_ws x"
  shows "skip_peek c = (Some x, c)" "ready opts c" "rest c = (x # s) @ r"
  using assms skip_peek_text [of opts c "[]" x "s @ r"] by (simp_all add: accepts_def)

lemma parses_array:
  assumes "parses_elements uf opts s ts"
  shows "parses uf opts (CHR ''['' # s @ '']'') (TArray ts)"
  unfolding parses_def
proof (intro allI impI)
  fix c r v
  assume a: "accepts uf opts c (CHR ''['' # s @ '']'') r (TArray ts) v"
  then have c: "ready opts c" "rest c = CHR ''['' # s @ '']'' @ r" "room 1 c"
    and room: "room (Suc (sum_list (map tree_nodes ts))) c"
    and depth: "Suc (c_depth c) \<le> c_maxDepth c" "\<forall>t\<in>set ts. Suc (c_depth c) + tree_depth t \<le> c_maxDepth c"
    by (auto simp: accepts_def depth_containers simp del: tree_depth.simps intro: room_less)
  from a obtain vs where vs: "tree_elements uf opts ts = Some vs" "v = JArray vs"
    by (auto simp: accepts_def)
  let ?c = "moved 1 1 (deeper c)"
  note o = open_ready [OF c depth(1)]
  have "parse_elements uf ?c False False []
      = Inr (JArray vs, leave (moved (length s + 1) (sum_list (map tree_nodes ts)) ?c))"
    using assms o vs(1) room depth(2) unfolding parses_elements_def by simp
  then show "parseValue uf c = Inr (v, moved (length (CHR ''['' # s @ '']'')) (tree_nodes (TArray ts)) c)"
    using parse_container(1) [OF c depth(1)] vs(2) by (simp add: add.commute)
qed

lemma parses_object:
  assumes "parses_members uf opts s es"
  shows "parses uf opts (CHR ''{'' # s @ ''}'') (TObject es)"
  unfolding parses_def
proof (intro allI impI)
  fix c r v
  assume a: "accepts uf opts c (CHR ''{'' # s @ ''}'') r (TObject es) v"
  then have c: "ready opts c" "rest c = CHR ''{'' # s @ ''}'' @ r" "room 1 c"
    and room: "room (Suc (sum_list (map (\<lambda>m. tree_nodes (snd m)) es))) c"
    and depth: "Suc (c_depth c) \<le> c_maxDepth c"
      "\<forall>m\<in>set es. Suc (c_depth c) + tree_depth (snd m) \<le> c_maxDepth c"
    by (auto simp: accepts_def depth_containers simp del: tree_depth.simps intro: room_less)
  from a obtain ms where ms: "tree_members uf opts es [] = Some ms" "v = JObject ms"
    by (auto simp: accepts_def)
  let ?c = "moved 1 1 (deeper c)"
  note o = open_ready [OF c depth(1)]
  have "parse_members uf ?c False False []
      = Inr (JObject ms, leave (moved (length s + 1) (sum_list (map (\<lambda>m. tree_nodes (snd m)) es)) ?c))"
    using assms o ms(1) room depth(2) unfolding parses_members_def by simp
  then show "parseValue uf c = Inr (v, moved (length (CHR ''{'' # s @ ''}'')) (tree_nodes (TObject es)) c)"
    using parse_container(2) [OF c depth(1)] ms(2) by (simp add: add.commute)
qed

lemma parses_empty:
  assumes w: "spaces w"
  shows "parses uf opts (CHR ''['' # w @ '']'') (TArray [])"
    and "parses uf opts (CHR ''{'' # w @ ''}'') (TObject [])"
proof -
  have go: "parseValue uf c = Inr (v, moved (length w + 2) 1 c)"
    if a: "accepts uf opts c (x # w @ [y]) r t v"
      and t: "x = CHR ''['' \<and> y = CHR '']'' \<and> t = TArray [] \<or> x = CHR ''{'' \<and> y = CHR ''}'' \<and> t = TObject []"
    for c r v x y t
  proof -
    have c: "ready opts c" "rest c = x # w @ y # r" "room 1 c" "Suc (c_depth c) \<le> c_maxDepth c"
      using a t by (auto simp: accepts_def)
    show ?thesis
      using parse_container [OF c] parse_empty [OF open_ready [OF c] w] a t
      by (auto simp: accepts_def)
  qed
  show "parses uf opts (CHR ''['' # w @ '']'') (TArray [])"
    "parses uf opts (CHR ''{'' # w @ ''}'') (TObject [])"
    using go by (auto simp: parses_def)
qed

lemma letters_not_digits [simp]:
  "\<not> is_digit (CHR ''n'')" "\<not> is_digit (CHR ''t'')" "\<not> is_digit (CHR ''f'')"
  by (simp_all add: is_digit_def less_eq_char_def)

theorem grammar_parses:
  "jvalue s t \<Longrightarrow> parses uf opts s t"
  "jelements s ts \<Longrightarrow> parses_elements uf opts s ts"
  "jmembers s ms \<Longrightarrow> parses_members uf opts s ms"
proof (induction rule: jvalue_jelements_jmembers.inducts)
  case value_null
  show ?case unfolding parses_def
  proof (intro allI impI)
    fix c r v
    assume a: "accepts uf opts c ''null'' r TNull v"
    from accepts_scalar [OF a] parseKeyword_complete(1) [of opts c r] a
    show "parseValue uf c = Inr (v, moved (length ''null'') (tree_nodes TNull) c)"
      by (simp add: parseValue.simps [of uf c] accepts_def)
  qed
next
  case value_true
  show ?case unfolding parses_def
  proof (intro allI impI)
    fix c r v
    assume a: "accepts uf opts c ''true'' r (TBool True) v"
    from accepts_scalar [OF a] parseKeyword_complete(2) [of opts c r] a
    show "parseValue uf c = Inr (v, moved (length ''true'') (tree_nodes (TBool True)) c)"
      by (simp add: parseValue.simps [of uf c] accepts_def)
  qed
next
  case value_false
  show ?case unfolding parses_def
  proof (intro allI impI)
    fix c r v
    assume a: "accepts uf opts c ''false'' r (TBool False) v"
    from accepts_scalar [OF a] parseKeyword_complete(3) [of opts c r] a
    show "parseValue uf c = Inr (v, moved (length ''false'') (tree_nodes (TBool False)) c)"
      by (simp add: parseValue.simps [of uf c] accepts_def)
  qed
next
  case (value_number s f)
  obtain x q where x: "s = x # q" "x = CHR ''-'' \<or> is_digit x" using jnumber_first [OF value_number] by auto
  then have "\<not> is_ws x" "x \<noteq> dquote" "x \<noteq> CHR ''{''" "x \<noteq> CHR ''[''"
    by (auto simp: is_digit_not_ws) (auto simp: is_digit_def less_eq_char_def)
  note x = x this
  show ?case unfolding parses_def
  proof (intro allI impI)
    fix c r v
    assume a: "accepts uf opts c s r (TNumber s f) v"
    then obtain n where n: "convertNumberToken uf s f (po_numberPolicy opts) = Inr n" "v = number_value_of n"
      by (auto simp: accepts_def split: sum.splits)
    show "parseValue uf c = Inr (v, moved (length s) (tree_nodes (TNumber s f)) c)"
      using parseNumber_complete [OF _ _ value_number _ _ n(1), of c r] accepts_scalar(1) [OF a [unfolded x(1)]]
        a x n(2)
      by (auto simp: parseValue.simps [of uf c] accepts_def)
  qed
next
  case (value_string raw out)
  show ?case unfolding parses_def
  proof (intro allI impI)
    fix c r v
    assume a: "accepts uf opts c (quoted raw) r (TString out) v"
    from accepts_scalar(1) [OF a [unfolded quoted_def]] parseString_complete [OF a value_string]
    show "parseValue uf c = Inr (v, moved (length (quoted raw)) (tree_nodes (TString out)) c)"
      by (simp add: parseValue.simps [of uf c])
  qed
next
  case (element_last a s t b)
  show ?case unfolding parses_elements_def
  proof (intro allI impI)
    fix c r vs e xs
    assume c: "ready opts c" "rest c = (a @ s @ b) @ CHR '']'' # r"
      "tree_elements uf opts [t] = Some vs" "room (sum_list (map tree_nodes [t])) c"
      "\<forall>t\<in>set [t]. c_depth c + tree_depth t \<le> c_maxDepth c"
    from c(3) obtain v where v: "tree_value uf opts t = Some v" "vs = [v]"
      by (auto split: bind_splits)
    let ?c = "moved (length a + length s + length b) (tree_nodes t) c"
    have c': "ready opts ?c" "rest ?c = CHR '']'' # r"
      using c by (auto intro!: ready_moved)
    show "parse_elements uf c e e xs = Inr (JArray (xs @ vs),
        leave (moved (length (a @ s @ b) + 1) (sum_list (map tree_nodes [t])) c))"
      using element_complete [OF element_last.IH element_last.hyps(2) c(1) _ element_last.hyps(1,3) _ v(1),
          of "CHR '']''" r e xs] c(2,4,5) elements_step(1) [OF c' refl, of False uf True "xs @ [v]"] v(2)
      by (simp add: add.assoc)
  qed
next
  case (element_more a s t b es ts)
  show ?case unfolding parses_elements_def
  proof (intro allI impI)
    fix c r vs e xs
    assume c: "ready opts c" "rest c = (a @ s @ b @ '','' @ es) @ CHR '']'' # r"
      "tree_elements uf opts (t # ts) = Some vs" "room (sum_list (map tree_nodes (t # ts))) c"
      "\<forall>t\<in>set (t # ts). c_depth c + tree_depth t \<le> c_maxDepth c"
    from c(3) obtain v vs' where v: "tree_value uf opts t = Some v" "tree_elements uf opts ts = Some vs'"
      "vs = v # vs'"
      by (auto split: bind_splits)
    let ?c = "moved (length a + length s + length b) (tree_nodes t) c"
    have t: "room (tree_nodes t) c" using c(4) by (auto intro: room_less)
    have c': "ready opts ?c" "rest ?c = CHR '','' # es @ CHR '']'' # r"
      using c(1,2) t by (auto intro!: ready_moved)
    have c'': "ready opts (moved 1 0 ?c)" "rest (moved 1 0 ?c) = es @ CHR '']'' # r"
      using ready_moved [OF c'(1), of 1 0] c'(1) unfolding rest_moved(1) [of 1 0 ?c] c'(2)
      by (simp_all add: ready_def)
    have "parse_elements uf (moved 1 0 ?c) True True (xs @ [v]) = Inr (JArray ((xs @ [v]) @ vs'),
        leave (moved (length es + 1) (sum_list (map tree_nodes ts)) (moved 1 0 ?c)))"
      using element_more.IH(2) c'' v(2) c(4,5) unfolding parses_elements_def by (simp add: add.commute)
    then show "parse_elements uf c e e xs = Inr (JArray (xs @ vs),
        leave (moved (length (a @ s @ b @ '','' @ es) + 1) (sum_list (map tree_nodes (t # ts))) c))"
      using element_complete [OF element_more.IH(1) element_more.hyps(2) c(1) _ element_more.hyps(1,3) _ v(1) t,
          of "CHR '',''" "es @ CHR '']'' # r" e xs] c(2,5)
        elements_step(2) [OF c' refl, of True False uf "xs @ [v]"] v(3)
      by (simp add: ac_simps)
  qed
next
  case (member_last a raw k b w s t d)
  let ?s = "a @ quoted raw @ b @ '':'' @ w @ s @ d"
  show ?case unfolding parses_members_def
  proof (intro allI impI)
    fix c r ms ms' e
    assume c: "ready opts c" "rest c = ?s @ CHR ''}'' # r"
      "tree_members uf opts [(k, t)] ms = Some ms'" "room (sum_list (map (\<lambda>m. tree_nodes (snd m)) [(k, t)])) c"
      "\<forall>m\<in>set [(k, t)]. c_depth c + tree_depth (snd m) \<le> c_maxDepth c"
    from c(3) obtain v where v: "tree_value uf opts t = Some v"
      "\<not> (map_of ms k \<noteq> None \<and> po_duplicateKeys opts = RejectDuplicateKeys)"
      "ms' = store_member (po_duplicateKeys opts) k v ms"
      by (auto split: bind_splits if_splits)
    let ?c = "moved (length ?s) (tree_nodes t) c"
    have c': "ready opts ?c" "rest ?c = CHR ''}'' # r"
      using c by (auto intro!: ready_moved)
    show "parse_members uf c e e ms = Inr (JObject ms',
        leave (moved (length ?s + 1) (sum_list (map (\<lambda>m. tree_nodes (snd m)) [(k, t)])) c))"
      using member_complete [OF member_last.IH member_last.hyps(5) c(1) _ member_last.hyps(1-4,6) _ v(1) _ _ v(2),
          of "CHR ''}''" r e] c(2,4,5) members_step(1) [OF c' refl, of False uf True] v(3)
      by simp
  qed
next
  case (member_more a raw k b w s t d es ts)
  let ?s = "a @ quoted raw @ b @ '':'' @ w @ s @ d"
  show ?case unfolding parses_members_def
  proof (intro allI impI)
    fix c r ms ms' e
    let ?all = "a @ quoted raw @ b @ '':'' @ w @ s @ d @ '','' @ es"
    assume c: "ready opts c" "rest c = ?all @ CHR ''}'' # r"
      "tree_members uf opts ((k, t) # ts) ms = Some ms'"
      "room (sum_list (map (\<lambda>m. tree_nodes (snd m)) ((k, t) # ts))) c"
      "\<forall>m\<in>set ((k, t) # ts). c_depth c + tree_depth (snd m) \<le> c_maxDepth c"
    let ?ms = "\<lambda>v. store_member (po_duplicateKeys opts) k v ms"
    from c(3) obtain v where v: "tree_value uf opts t = Some v"
      "\<not> (map_of ms k \<noteq> None \<and> po_duplicateKeys opts = RejectDuplicateKeys)"
      "tree_members uf opts ts (?ms v) = Some ms'"
      by (auto split: bind_splits if_splits)
    let ?c = "moved (length ?s) (tree_nodes t) c"
    have t: "room (tree_nodes t) c" using c(4) by (auto intro: room_less)
    have c': "ready opts ?c" "rest ?c = CHR '','' # es @ CHR ''}'' # r"
      using c(1,2) t by (auto intro!: ready_moved)
    have c'': "ready opts (moved 1 0 ?c)" "rest (moved 1 0 ?c) = es @ CHR ''}'' # r"
      using ready_moved [OF c'(1), of 1 0] c'(1) unfolding rest_moved(1) [of 1 0 ?c] c'(2)
      by (simp_all add: ready_def)
    have "parse_members uf (moved 1 0 ?c) True True (?ms v) = Inr (JObject ms',
        leave (moved (length es + 1) (sum_list (map (\<lambda>m. tree_nodes (snd m)) ts)) (moved 1 0 ?c)))"
      using member_more.IH(2) c'' v(3) c(4,5) unfolding parses_members_def by (simp add: add.commute)
    then show "parse_members uf c e e ms = Inr (JObject ms',
        leave (moved (length ?all + 1) (sum_list (map (\<lambda>m. tree_nodes (snd m)) ((k, t) # ts))) c))"
      using member_complete [OF member_more.IH(1) member_more.hyps(5) c(1) _ member_more.hyps(1-4,6) _ v(1) t _ v(2),
          of "CHR '',''" "es @ CHR ''}'' # r" e] c(2,5)
        members_step(2) [OF c' refl, of True False uf "?ms v"]
      by (simp add: ac_simps)
  qed
qed (simp_all add: parses_array parses_object parses_empty)

subsection \<open>Containers, from the parser to the grammar\<close>

text \<open>The text from inside a container to its closing bracket, where a loop with the given
  flags stands.\<close>

definition rest_text :: "char \<Rightarrow> (string \<Rightarrow> 'a list \<Rightarrow> bool) \<Rightarrow> bool \<Rightarrow> bool \<Rightarrow> string \<Rightarrow> 'a list \<Rightarrow> bool" where
  "rest_text close items e a s ts \<longleftrightarrow>
     (if e = a then
        (\<exists>s'. s = s' @ [close] \<and> items s' ts) \<or> \<not> e \<and> ts = [] \<and> (\<exists>w. spaces w \<and> s = w @ [close])
      else ts = [] \<and> (\<exists>w. spaces w \<and> s = w @ [close])
        \<or> (\<exists>w s'. spaces w \<and> s = w @ CHR '','' # s' @ [close] \<and> items s' ts))"

lemma rest_text_close: "\<not> e \<Longrightarrow> spaces w \<Longrightarrow> rest_text close items e a (w @ [close]) []"
  by (auto simp: rest_text_def)

lemma rest_text_comma:
  "spaces w \<Longrightarrow> rest_text close items True True s ts \<Longrightarrow>
    rest_text close items False True (w @ CHR '','' # s) ts"
  unfolding rest_text_def by fastforce

lemma rest_text_element:
  assumes "spaces w" "jvalue s t" "rest_text (CHR '']'') jelements False True q ts"
  shows "rest_text (CHR '']'') jelements e e (w @ s @ q) (t # ts)"
proof -
  from assms(3) consider b where "ts = []" "spaces b" "q = b @ '']''"
    | b q' where "spaces b" "q = b @ CHR '','' # q' @ '']''" "jelements q' ts"
    by (auto simp: rest_text_def)
  then show ?thesis
  proof cases
    case (1 b)
    then show ?thesis using element_last [OF assms(1,2), of b] by (auto simp: rest_text_def)
  next
    case (2 b q')
    then show ?thesis using element_more [OF assms(1,2), of b q' ts] by (auto simp: rest_text_def)
  qed
qed

lemma rest_text_member:
  assumes "spaces w" "jchars raw k" "spaces b" "spaces a" "jvalue s t"
    "rest_text (CHR ''}'') jmembers False True q ts"
  shows "rest_text (CHR ''}'') jmembers e e (w @ quoted raw @ b @ CHR '':'' # a @ s @ q) ((k, t) # ts)"
proof -
  from assms(6) consider d where "ts = []" "spaces d" "q = d @ ''}''"
    | d q' where "spaces d" "q = d @ CHR '','' # q' @ ''}''" "jmembers q' ts"
    by (auto simp: rest_text_def)
  then show ?thesis
  proof cases
    case (1 d)
    then show ?thesis using member_last [OF assms(1-5), of d] by (auto simp: rest_text_def)
  next
    case (2 d q')
    then show ?thesis using member_more [OF assms(1-5), of d q' ts] by (auto simp: rest_text_def)
  qed
qed

definition derives_elements ::
    "bool \<Rightarrow> ParserOptions \<Rightarrow> ParseCtx \<Rightarrow> bool \<Rightarrow> bool \<Rightarrow> json list \<Rightarrow> json \<Rightarrow> ParseCtx \<Rightarrow> bool" where
  "derives_elements uf opts c e a xs v c' \<longleftrightarrow> (\<exists>s ts vs r. rest c = s @ r
     \<and> rest_text (CHR '']'') jelements e a s ts \<and> tree_elements uf opts ts = Some vs
     \<and> v = JArray (xs @ vs) \<and> c' = leave (moved (length s) (sum_list (map tree_nodes ts)) c)
     \<and> room (sum_list (map tree_nodes ts)) c
     \<and> (\<forall>t\<in>set ts. c_depth c + tree_depth t \<le> c_maxDepth c))"

definition derives_members ::
    "bool \<Rightarrow> ParserOptions \<Rightarrow> ParseCtx \<Rightarrow> bool \<Rightarrow> bool \<Rightarrow> members \<Rightarrow> json \<Rightarrow> ParseCtx \<Rightarrow> bool" where
  "derives_members uf opts c e a ms v c' \<longleftrightarrow> (\<exists>s ts ms' r. rest c = s @ r
     \<and> rest_text (CHR ''}'') jmembers e a s ts \<and> tree_members uf opts ts ms = Some ms'
     \<and> v = JObject ms' \<and> c' = leave (moved (length s) (sum_list (map (\<lambda>m. tree_nodes (snd m)) ts)) c)
     \<and> room (sum_list (map (\<lambda>m. tree_nodes (snd m)) ts)) c
     \<and> (\<forall>m\<in>set ts. c_depth c + tree_depth (snd m) \<le> c_maxDepth c))"

lemma derives_ready:
  assumes "derives uf opts c v c'" "ready opts c"
  shows "ready opts c'"
  using assms by (auto simp: derives_def intro!: ready_moved)

lemma derives_elements_close:
  assumes "ready opts c" "rest c = w @ CHR '']'' # r" "spaces w" "\<not> e"
  shows "derives_elements uf opts c e a xs (JArray xs) (leave (moved (length w + 1) 0 c))"
  unfolding derives_elements_def
  using rest_text_close [OF assms(4,3), of "CHR '']''" jelements a] assms(1,2)
  by (intro exI [of _ "w @ '']''"] exI [of _ "[] :: jtree list"]) (simp add: ready_def)

lemma derives_members_close:
  assumes "ready opts c" "rest c = w @ CHR ''}'' # r" "spaces w" "\<not> e"
  shows "derives_members uf opts c e a ms (JObject ms) (leave (moved (length w + 1) 0 c))"
  unfolding derives_members_def
  using rest_text_close [OF assms(4,3), of "CHR ''}''" jmembers a] assms(1,2)
  by (intro exI [of _ "w @ ''}''"] exI [of _ "[] :: (string \<times> jtree) list"]) (simp add: ready_def)

lemma derives_elements_comma:
  assumes "rest c = w @ CHR '','' # r" "spaces w"
    "derives_elements uf opts (moved (length w + 1) 0 c) True True xs v c'"
  shows "derives_elements uf opts c False True xs v c'"
proof -
  from assms(1,3) obtain s ts vs q where s: "r = s @ q"
    "rest_text (CHR '']'') jelements True True s ts" "tree_elements uf opts ts = Some vs"
    "v = JArray (xs @ vs)" "room (sum_list (map tree_nodes ts)) c"
    "c' = leave (moved (length s) (sum_list (map tree_nodes ts)) (moved (length w + 1) 0 c))"
    "\<forall>t\<in>set ts. c_depth c + tree_depth t \<le> c_maxDepth c"
    by (auto simp: derives_elements_def)
  then show ?thesis unfolding derives_elements_def
    using rest_text_comma [OF assms(2) s(2)] assms(1)
    by (intro exI [of _ "w @ CHR '','' # s"] exI [of _ ts]) simp
qed

lemma derives_members_comma:
  assumes "rest c = w @ CHR '','' # r" "spaces w"
    "derives_members uf opts (moved (length w + 1) 0 c) True True ms v c'"
  shows "derives_members uf opts c False True ms v c'"
proof -
  from assms(1,3) obtain s ts ms' q where s: "r = s @ q"
    "rest_text (CHR ''}'') jmembers True True s ts" "tree_members uf opts ts ms = Some ms'"
    "v = JObject ms'" "room (sum_list (map (\<lambda>m. tree_nodes (snd m)) ts)) c"
    "c' = leave (moved (length s) (sum_list (map (\<lambda>m. tree_nodes (snd m)) ts)) (moved (length w + 1) 0 c))"
    "\<forall>m\<in>set ts. c_depth c + tree_depth (snd m) \<le> c_maxDepth c"
    by (auto simp: derives_members_def)
  then show ?thesis unfolding derives_members_def
    using rest_text_comma [OF assms(2) s(2)] assms(1)
    by (intro exI [of _ "w @ CHR '','' # s"] exI [of _ ts]) simp
qed

text \<open>\<open>parseValue\<close> also skips white space.\<close>

definition derives_value :: "bool \<Rightarrow> ParserOptions \<Rightarrow> ParseCtx \<Rightarrow> json \<Rightarrow> ParseCtx \<Rightarrow> bool" where
  "derives_value uf opts c v c' \<longleftrightarrow> (\<exists>w r. rest c = w @ r \<and> spaces w
     \<and> derives uf opts (moved (length w) 0 c) v c')"

lemma derives_value_spaces:
  assumes "rest c = w @ r" "spaces w" "derives_value uf opts (moved (length w) 0 c) v c'"
  shows "derives_value uf opts c v c'"
proof -
  from assms(1,3) obtain b q where "r = b @ q" "spaces b"
    "derives uf opts (moved (length (w @ b)) 0 c) v c'"
    by (auto simp: derives_value_def)
  then have "rest c = (w @ b) @ q" "spaces (w @ b)" "derives uf opts (moved (length (w @ b)) 0 c) v c'"
    using assms(1,2) by simp_all
  then show ?thesis unfolding derives_value_def by blast
qed

lemma derives_elements_value:
  assumes "derives_value uf opts c v c1" "derives_elements uf opts c1 False True (xs @ [v]) v' c'"
  shows "derives_elements uf opts c e e xs v' c'"
proof -
  from assms(1) obtain w s t q where w: "rest c = w @ s @ q" "spaces w"
    and t: "jvalue s t" "tree_value uf opts t = Some v"
    "c1 = moved (length s) (tree_nodes t) (moved (length w) 0 c)" "c_depth c + tree_depth t \<le> c_maxDepth c"
    by (auto simp: derives_value_def derives_def)
  with assms(2) obtain p ts vs q' where s: "q = p @ q'"
    "rest_text (CHR '']'') jelements False True p ts" "tree_elements uf opts ts = Some vs"
    "v' = JArray ((xs @ [v]) @ vs)" "room (tree_nodes t + sum_list (map tree_nodes ts)) c"
    "c' = leave (moved (length p) (sum_list (map tree_nodes ts)) c1)"
    "\<forall>t\<in>set ts. c_depth c + tree_depth t \<le> c_maxDepth c"
    by (auto simp: derives_elements_def add.commute)
  then show ?thesis unfolding derives_elements_def
    using rest_text_element [OF w(2) t(1) s(2), of e] w t
    by (intro exI [of _ "w @ s @ p"] exI [of _ "t # ts"]) (simp add: ac_simps)
qed

lemma member_name_sound:
  assumes c: "ready opts c" and m: "member_name c ms = Inr (k, c')"
  shows "\<exists>raw b r. rest c = quoted raw @ b @ CHR '':'' # r \<and> jchars raw k \<and> spaces b
    \<and> c' = moved (length (quoted raw) + length b + 1) 0 c
    \<and> \<not> (map_of ms k \<noteq> None \<and> po_duplicateKeys opts = RejectDuplicateKeys)"
proof -
  from m c obtain c1 u where e: "extractString c = Inr (k, c1)"
    and d: "\<not> (map_of ms k \<noteq> None \<and> po_duplicateKeys opts = RejectDuplicateKeys)"
    and s: "skipColon c1 = Inr (u, c')"
    by (auto simp: member_name_def ready_def split: if_splits)
  from extractString_sound [OF c e] obtain raw r where
    raw: "rest c = quoted raw @ r" "c1 = moved (length (quoted raw)) 0 c" "jchars raw k" by blast
  have c1: "ready opts c1" "rest c1 = r"
    using raw ready_moved [OF c, of "length (quoted raw)" 0] c by (simp_all add: ready_def)
  from skipColon_sound [OF c1(1) s, unfolded c1(2)] obtain b q where
    "r = b @ CHR '':'' # q" "spaces b" "c' = moved (length b + 1) 0 c1" by blast
  with raw d show ?thesis by (auto simp: add.assoc)
qed

lemma derives_members_value:
  assumes c: "ready opts c" "rest c = w @ r" "spaces w"
    and m: "member_name (moved (length w) 0 c) ms = Inr (k, c1)"
    and v: "derives_value uf opts c1 v c2"
    and rest: "derives_members uf opts c2 False True (store_member (po_duplicateKeys opts) k v ms) v' c'"
  shows "derives_members uf opts c e e ms v' c'"
proof -
  have "ready opts (moved (length w) 0 c)" using c ready_moved [of opts c "length w" 0]
    by (simp add: ready_def)
  from member_name_sound [OF this m] c(2) obtain raw b q where
    b: "r = quoted raw @ b @ CHR '':'' # q" "jchars raw k" "spaces b"
    "c1 = moved (length (quoted raw) + length b + 1) 0 (moved (length w) 0 c)"
    "\<not> (map_of ms k \<noteq> None \<and> po_duplicateKeys opts = RejectDuplicateKeys)"
    by auto
  have q: "rest c1 = q" using b(1,4) c(2) by simp
  from v q obtain a s t q' where t: "q = a @ s @ q'" "spaces a" "jvalue s t" "tree_value uf opts t = Some v"
    "c2 = moved (length s) (tree_nodes t) (moved (length a) 0 c1)" "c_depth c1 + tree_depth t \<le> c_maxDepth c1"
    by (auto simp: derives_value_def derives_def)
  have q': "rest c2 = q'" using q t(1,5) by simp
  from rest q' t(5) b(4) obtain p ts ms' r' where s: "q' = p @ r'"
    "rest_text (CHR ''}'') jmembers False True p ts"
    "tree_members uf opts ts (store_member (po_duplicateKeys opts) k v ms) = Some ms'"
    "v' = JObject ms'" "room (tree_nodes t + sum_list (map (\<lambda>m. tree_nodes (snd m)) ts)) c"
    "c' = leave (moved (length p) (sum_list (map (\<lambda>m. tree_nodes (snd m)) ts)) c2)"
    "\<forall>m\<in>set ts. c_depth c + tree_depth (snd m) \<le> c_maxDepth c"
    by (auto simp: derives_members_def add.commute)
  have "rest c = (w @ quoted raw @ b @ CHR '':'' # a @ s @ p) @ r'" using c(2) b(1) t(1) s(1) by simp
  moreover have "c' = leave (moved (length (w @ quoted raw @ b @ CHR '':'' # a @ s @ p))
      (sum_list (map (\<lambda>m. tree_nodes (snd m)) ((k, t) # ts))) c)"
    using s(6) t(5) b(4) by (simp add: ac_simps)
  moreover note rest_text_member [OF c(3) b(2,3) t(2,3) s(2), of e]
  moreover have "tree_members uf opts ((k, t) # ts) ms = Some ms'" using b(5) t(4) s(3) by auto
  ultimately show ?thesis unfolding derives_members_def
    using s(4,5,7) t(6) b(4) by (intro exI [of _ "(k, t) # ts"] exI conjI) auto
qed

lemma derives_container:
  assumes c: "rest c = x # r" "room 1 c" "c_depth c < c_maxDepth c"
  shows "x = CHR ''['' \<Longrightarrow> derives_elements uf opts (moved 1 1 (deeper c)) False False [] v c' \<Longrightarrow>
      derives uf opts c v c'"
    and "x = CHR ''{'' \<Longrightarrow> derives_members uf opts (moved 1 1 (deeper c)) False False [] v c' \<Longrightarrow>
      derives uf opts c v c'"
proof -
  show "derives uf opts c v c'"
    if x: "x = CHR ''[''" and d: "derives_elements uf opts (moved 1 1 (deeper c)) False False [] v c'"
  proof -
    from d c obtain s ts vs q where s: "r = s @ q" "rest_text (CHR '']'') jelements False False s ts"
      "tree_elements uf opts ts = Some vs" "v = JArray vs"
      "c' = leave (moved (length s) (sum_list (map tree_nodes ts)) (moved 1 1 (deeper c)))"
      "room (Suc (sum_list (map tree_nodes ts))) c"
      "\<forall>t\<in>set ts. Suc (c_depth c) + tree_depth t \<le> c_maxDepth c"
      by (auto simp: derives_elements_def)
    have "jvalue (CHR ''['' # s) (TArray ts)"
      using s(2) value_array value_empty_array by (auto simp: rest_text_def)
    then show ?thesis
      using derivesI [of c "CHR ''['' # s" q "TArray ts" uf opts v c'] c s x
      by (simp add: depth_containers del: tree_depth.simps)
  qed
  show "derives uf opts c v c'"
    if x: "x = CHR ''{''" and d: "derives_members uf opts (moved 1 1 (deeper c)) False False [] v c'"
  proof -
    from d c obtain s ts ms q where s: "r = s @ q" "rest_text (CHR ''}'') jmembers False False s ts"
      "tree_members uf opts ts [] = Some ms" "v = JObject ms"
      "c' = leave (moved (length s) (sum_list (map (\<lambda>m. tree_nodes (snd m)) ts)) (moved 1 1 (deeper c)))"
      "room (Suc (sum_list (map (\<lambda>m. tree_nodes (snd m)) ts))) c"
      "\<forall>m\<in>set ts. Suc (c_depth c) + tree_depth (snd m) \<le> c_maxDepth c"
      by (auto simp: derives_members_def)
    have "jvalue (CHR ''{'' # s) (TObject ts)"
      using s(2) value_object value_empty_object by (auto simp: rest_text_def)
    then show ?thesis
      using derivesI [of c "CHR ''{'' # s" q "TObject ts" uf opts v c'] c s x
      by (simp add: depth_containers del: tree_depth.simps)
  qed
qed

lemma derives_value_ready:
  "derives_value uf opts c v c' \<Longrightarrow> ready opts c \<Longrightarrow> ready opts c'"
  unfolding derives_value_def derives_def by (auto intro!: ready_moved)

lemma member_name_ready:
  assumes "ready opts c" "member_name c ms = Inr (k, c')"
  shows "ready opts c'"
proof -
  from member_name_sound [OF assms] obtain raw b r where
    "rest c = quoted raw @ b @ CHR '':'' # r" "c' = moved (length (quoted raw) + length b + 1) 0 c" by blast
  with ready_moved [OF assms(1), of "length (quoted raw) + length b + 1" 0] assms(1)
  show ?thesis by (simp add: ready_def)
qed

theorem parser_derives:
  "ready opts c \<Longrightarrow> \<forall>v c'. parseValue uf c = Inr (v, c') \<longrightarrow> derives_value uf opts c v c'"
  "ready opts c \<Longrightarrow> \<forall>r v c'. rest c = CHR ''['' # r \<longrightarrow> parseArray uf c = Inr (v, c') \<longrightarrow>
    derives uf opts c v c'"
  "ready opts c \<Longrightarrow> e \<longrightarrow> a \<Longrightarrow> \<forall>v c'. parse_elements uf c e a xs = Inr (v, c') \<longrightarrow>
    derives_elements uf opts c e a xs v c'"
  "ready opts c \<Longrightarrow> \<forall>r v c'. rest c = CHR ''{'' # r \<longrightarrow> parseObject uf c = Inr (v, c') \<longrightarrow>
    derives uf opts c v c'"
  "ready opts c \<Longrightarrow> e \<longrightarrow> a \<Longrightarrow> \<forall>v c'. parse_members uf c e a ms = Inr (v, c') \<longrightarrow>
    derives_members uf opts c e a ms v c'"
proof (induction uf c and uf c and uf c e a xs and uf c and uf c e a ms
    rule: parseValue_parseArray_parse_elements_parseObject_parse_members.induct)
  case (1 uf c)
  show ?case
  proof (intro allI impI)
    fix v c2
    assume "parseValue uf c = Inr (v, c2)"
    then obtain x c1 where sk: "skip_peek c = (Some x, c1)"
      and run: "(if x = dquote then parseString c1
          else if x = CHR ''{'' then parseObject uf c1
          else if x = CHR ''['' then parseArray uf c1
          else if x = CHR ''-'' \<or> is_digit x then parseNumber uf c1
          else parseKeyword c1) = Inr (v, c2)"
      unfolding parseValue.simps [of uf c] by (auto split: prod.splits option.splits)
    from skip_peek_some [OF "1.prems" sk] obtain w r where
      w: "rest c = w @ x # r" "spaces w" "c1 = moved (length w) 0 c" and
      c1: "ready opts c1" "rest c1 = x # r" by metis
    have num: "derives uf opts c1 v c2" if "parseNumber uf c1 = Inr (v, c2)"
    proof -
      from parseNumber_sound [OF c1(1) that] obtain t f q n where
        "rest c1 = t @ q" "jnumber t f" "v = number_value_of n" "room 1 c1"
        "convertNumberToken uf t f (po_numberPolicy opts) = Inr n" "c2 = moved (length t) 1 c1" by blast
      then show ?thesis using derivesI [OF _ value_number, of c1 t q f uf opts v c2] c1(1)
        by (simp add: ready_def)
    qed
    have "derives uf opts c1 v c2"
      using run "1.IH" [OF sk [symmetric] refl] c1 num parseString_sound [OF c1(1)] parseKeyword_sound [OF c1(1)]
      by (auto split: if_splits)
    with w show "derives_value uf opts c v c2" by (auto simp: derives_value_def)
  qed
next
  case (2 uf c)
  show ?case
  proof (intro allI impI)
    fix r v c2
    assume r: "rest c = CHR ''['' # r" and "parseArray uf c = Inr (v, c2)"
    then obtain u c1 where o: "open_container c = Inr (u, c1)"
      and run: "parse_elements uf c1 False False [] = Inr (v, c2)"
      unfolding parseArray.simps [of uf c] by (auto split: sum.splits)
    note c1 = open_container_sound [OF o]
    with open_ready [OF "2.prems" r] have "ready opts c1" by simp
    with "2.IH" [OF o] run have "derives_elements uf opts c1 False False [] v c2" by auto
    with derives_container(1) [OF r] c1 show "derives uf opts c v c2" by blast
  qed
next
  case (3 uf c e a xs)
  show ?case
  proof (intro allI impI)
    fix v c2
    assume run0: "parse_elements uf c e a xs = Inr (v, c2)"
    then obtain x c1 where sk: "skip_peek c = (Some x, c1)"
      unfolding parse_elements.simps [of uf c] by (auto split: prod.splits option.splits)
    note IH = "3.IH" [OF sk [symmetric] refl]
    note run = run0 [unfolded parse_elements.simps [of uf c] sk prod.case option.case]
    from skip_peek_some [OF "3.prems"(1) sk] obtain w r where
      w: "rest c = w @ x # r" "spaces w" "c1 = moved (length w) 0 c" and
      c1: "ready opts c1" "rest c1 = x # r" by metis
    consider "x = CHR '']''" | "x = CHR '',''" | "x \<noteq> CHR '']''" "x \<noteq> CHR '',''" by blast
    then show "derives_elements uf opts c e a xs v c2"
    proof cases
      case 1
      with run w have "\<not> e" "v = JArray xs" "c2 = leave (moved (length w + 1) 0 c)"
        by (auto simp: forward_moved split: if_splits)
      with derives_elements_close [OF "3.prems"(1), of w r e uf a xs] w 1 show ?thesis by simp
    next
      case 2
      with run have f: "a" "\<not> e" "parse_elements uf (forward 1 c1) True a xs = Inr (v, c2)"
        by (auto split: if_splits)
      have "ready opts (forward 1 c1)" using c1 ready_moved [of opts c1 1 0]
        by (simp add: forward_moved ready_def)
      with IH(1) 2 f have "derives_elements uf opts (forward 1 c1) True a xs v c2" by auto
      with derives_elements_comma [of c w r uf opts xs v c2] w 2 f show ?thesis
        by (simp add: forward_moved)
    next
      case 3
      with run obtain y c3 where y: "parseValue uf c1 = Inr (y, c3)"
        "parse_elements uf c3 False True (xs @ [y]) = Inr (v, c2)" "\<not> (a \<and> \<not> e)"
        by (auto split: if_splits sum.splits)
      have "derives_value uf opts c1 y c3" using IH(2) 3 y c1(1) by auto
      then have "derives_value uf opts c y c3" using derives_value_spaces w by blast
      moreover from this "3.prems"(1) have "ready opts c3" by (rule derives_value_ready)
      with IH(3) 3 y have "derives_elements uf opts c3 False True (xs @ [y]) v c2" by auto
      ultimately have "derives_elements uf opts c e e xs v c2" by (rule derives_elements_value)
      with y(3) "3.prems"(2) show ?thesis by auto
    qed
  qed
next
  case (4 uf c)
  show ?case
  proof (intro allI impI)
    fix r v c2
    assume r: "rest c = CHR ''{'' # r" and "parseObject uf c = Inr (v, c2)"
    then obtain u c1 where o: "open_container c = Inr (u, c1)"
      and run: "parse_members uf c1 False False [] = Inr (v, c2)"
      unfolding parseObject.simps [of uf c] by (auto split: sum.splits)
    note c1 = open_container_sound [OF o]
    with open_ready [OF "4.prems" r] have "ready opts c1" by simp
    with "4.IH" [OF o] run have "derives_members uf opts c1 False False [] v c2" by auto
    with derives_container(2) [OF r] c1 show "derives uf opts c v c2" by blast
  qed
next
  case (5 uf c e a ms)
  show ?case
  proof (intro allI impI)
    fix v c2
    assume run0: "parse_members uf c e a ms = Inr (v, c2)"
    then obtain x c1 where sk: "skip_peek c = (Some x, c1)"
      unfolding parse_members.simps [of uf c] by (auto split: prod.splits option.splits)
    note IH = "5.IH" [OF sk [symmetric] refl]
    note run = run0 [unfolded parse_members.simps [of uf c] sk prod.case option.case]
    from skip_peek_some [OF "5.prems"(1) sk] obtain w r where
      w: "rest c = w @ x # r" "spaces w" "c1 = moved (length w) 0 c" and
      c1: "ready opts c1" "rest c1 = x # r" by metis
    consider "x = CHR ''}''" | "x = CHR '',''" | "x \<noteq> CHR ''}''" "x \<noteq> CHR '',''" by blast
    then show "derives_members uf opts c e a ms v c2"
    proof cases
      case 1
      with run w have "\<not> e" "v = JObject ms" "c2 = leave (moved (length w + 1) 0 c)"
        by (auto simp: forward_moved split: if_splits)
      with derives_members_close [OF "5.prems"(1), of w r e uf a ms] w 1 show ?thesis by simp
    next
      case 2
      with run have f: "a" "\<not> e" "parse_members uf (forward 1 c1) True a ms = Inr (v, c2)"
        by (auto split: if_splits)
      have "ready opts (forward 1 c1)" using c1 ready_moved [of opts c1 1 0]
        by (simp add: forward_moved ready_def)
      with IH(1) 2 f have "derives_members uf opts (forward 1 c1) True a ms v c2" by auto
      with derives_members_comma [of c w r uf opts ms v c2] w 2 f show ?thesis
        by (simp add: forward_moved)
    next
      case 3
      with run obtain k c3 y c4 where ch: "x = dquote" "\<not> (a \<and> \<not> e)"
        and y: "member_name c1 ms = Inr (k, c3)" "parseValue uf c3 = Inr (y, c4)"
        "parse_members uf c4 False True (store_member (c_duplicateKeys c4) k y ms) = Inr (v, c2)"
        by (auto split: if_splits sum.splits)
      have c3: "ready opts c3" by (rule member_name_ready [OF c1(1) y(1)])
      then have d: "derives_value uf opts c3 y c4" using IH(2) 3 ch y by auto
      then have c4: "ready opts c4" using c3 by (rule derives_value_ready)
      then have "derives_members uf opts c4 False True (store_member (po_duplicateKeys opts) k y ms) v c2"
        using IH(3) 3 ch y by (auto simp: ready_def)
      from derives_members_value [OF "5.prems"(1) w(1,2) y(1) [unfolded w(3)] d this, of e]
      show ?thesis using ch(2) "5.prems"(2) by auto
    qed
  qed
qed

end
