(* ===== verification/Dom_Parse_Failure.thy ===== *)
theory Dom_Parse_Failure
  imports Dom_Parse_Correct
begin

section \<open>Failures of the DOM parser\<close>

text \<open>
  Where the parser fails, its context records one error: a message and a byte position inside the
  source. The first failure ends the parse, so no later one can replace it.
\<close>

definition fails_in :: "nat \<Rightarrow> ParseCtx \<Rightarrow> bool" where
  "fails_in n e \<longleftrightarrow> c_failed e \<and> c_errPos e \<le> n \<and> c_errMsg e \<noteq> []"

definition sane :: "ParserOptions \<Rightarrow> ParseCtx \<Rightarrow> bool" where
  "sane opts c \<longleftrightarrow> ready opts c \<and> \<not> c_failed c"

lemma failed_moved [simp]:
  "c_failed (moved n k c) = c_failed c" "c_failed (deeper c) = c_failed c"
  "c_failed (leave c) = c_failed c" "c_failed (forward n c) = c_failed c"
  by (simp_all add: moved_def deeper_def leave_def forward_def)

lemma fails_leave [simp]: "fails_in n (leave e) = fails_in n e"
  by (simp add: fails_in_def leave_def)

lemma leave_sane: "sane opts c \<Longrightarrow> c_failed (leave c) = False" "c_src (leave c) = c_src c"
  by (simp_all add: sane_def leave_def)

lemma ctx_fail_in:
  "ctx_fail c p msg = Inl e \<Longrightarrow> \<not> c_failed c \<Longrightarrow> p \<le> n \<Longrightarrow> msg \<noteq> [] \<Longrightarrow> fails_in n e"
  by (auto simp: ctx_fail_def fails_in_def)

named_theorems messages

lemma messages_nonempty [messages]:
  "msg_node_budget \<noteq> []" "msg_dangling_escape \<noteq> []" "msg_unicode_escape \<noteq> []"
  "msg_high_surrogate \<noteq> []" "msg_low_surrogate \<noteq> []" "msg_invalid_escape \<noteq> []"
  "msg_control_character \<noteq> []" "msg_invalid_utf8 \<noteq> []" "msg_unterminated_string \<noteq> []"
  "msg_expected_string \<noteq> []" "msg_expected_key \<noteq> []" "msg_expected_colon \<noteq> []"
  "msg_duplicate_key \<noteq> []" "msg_invalid_value \<noteq> []" "msg_invalid_number \<noteq> []"
  "msg_max_depth \<noteq> []" "msg_array_comma \<noteq> []" "msg_array_trailing \<noteq> []"
  "msg_array_missing \<noteq> []" "msg_array_unterminated \<noteq> []" "msg_object_comma \<noteq> []"
  "msg_object_trailing \<noteq> []" "msg_object_missing \<noteq> []" "msg_object_unterminated \<noteq> []"
  "msg_end_of_input \<noteq> []" "msg_number_digit \<noteq> []" "msg_number_fraction \<noteq> []"
  "msg_number_exponent \<noteq> []" "msg_integer_range \<noteq> []" "msg_number_range \<noteq> []"
  "msg_number_underflow \<noteq> []"
  by (simp_all add: msg_node_budget_def msg_dangling_escape_def msg_unicode_escape_def
      msg_high_surrogate_def msg_low_surrogate_def msg_invalid_escape_def msg_control_character_def
      msg_invalid_utf8_def msg_unterminated_string_def msg_expected_string_def msg_expected_key_def
      msg_expected_colon_def msg_duplicate_key_def msg_invalid_value_def msg_invalid_number_def
      msg_max_depth_def msg_array_comma_def msg_array_trailing_def msg_array_missing_def
      msg_array_unterminated_def msg_object_comma_def msg_object_trailing_def
      msg_object_missing_def msg_object_unterminated_def msg_end_of_input_def
      msg_number_digit_def msg_number_fraction_def msg_number_exponent_def msg_integer_range_def
      msg_number_range_def msg_number_underflow_def)

text \<open>In the source from a sane context on.\<close>

abbreviation size_of :: "ParseCtx \<Rightarrow> nat" where "size_of c \<equiv> length (c_src c)"

lemma sane_pos: "sane opts c \<Longrightarrow> c_end c = size_of c" "sane opts c \<Longrightarrow> c_pos c \<le> size_of c"
  "sane opts c \<Longrightarrow> \<not> c_failed c"
  by (auto simp: sane_def ready_def)

lemma sane_moved:
  "sane opts c \<Longrightarrow> n \<le> length (rest c) \<Longrightarrow> room k c \<Longrightarrow> sane opts (moved n k c)"
  by (simp add: sane_def ready_moved)

lemma sane_step: "sane opts c \<Longrightarrow> c_pos c + n \<le> c_end c \<Longrightarrow> sane opts (forward n c)"
  using ready_at(2) [of opts c n] sane_moved [of opts c n 0]
  by (auto simp: sane_def ready_def forward_moved)

lemma sane_prefix: "sane opts c \<Longrightarrow> rest c = p @ r \<Longrightarrow> sane opts (moved (length p) 0 c)"
  using sane_moved [of opts c "length p" 0] by (simp add: sane_def ready_def)

lemma newNode_fails: "newNode c = Inl e \<Longrightarrow> sane opts c \<Longrightarrow> fails_in (size_of c) e"
  by (auto simp: newNode_def sane_def ready_def messages split: if_splits elim!: ctx_fail_in)

lemma decode_unicode_fails: "decode_unicode c out = Inl e \<Longrightarrow> sane opts c \<Longrightarrow> fails_in (size_of c) e"
  by (auto simp: decode_unicode_def Let_def messages dest: sane_pos
      split: if_splits option.splits elim!: ctx_fail_in)

lemma decode_escape_fails:
  assumes "decode_escape c out = Inl e" "sane opts c"
  shows "fails_in (size_of c) e"
  using assms decode_unicode_fails [OF _ sane_step [OF assms(2), of 1]]
  by (auto simp: decode_escape_def Let_def messages dest: sane_pos
      split: if_splits option.splits elim!: ctx_fail_in)

lemma decode_char_fails:
  assumes "decode_char c out = Inl e" "sane opts c" "c_pos c < c_end c"
  shows "fails_in (size_of c) e"
  using assms decode_escape_fails [OF _ sane_step [OF assms(2), of 1]]
  by (auto simp: decode_char_def Let_def messages dest: sane_pos
      split: if_splits option.splits elim!: ctx_fail_in)

lemma decodeStringBody_fails:
  "decodeStringBody True c out = Inl e \<Longrightarrow> sane opts c \<Longrightarrow> fails_in (size_of c) e"
proof (induction True c out rule: decodeStringBody.induct)
  case (1 c out)
  note c = sane_pos [OF 1(3)]
  show ?case
  proof (cases "c_pos c < c_end c \<and> c_src c ! c_pos c \<noteq> dquote")
    case True
    then obtain x t where x: "rest c = x # t" "x \<noteq> dquote"
      using 1(3) ready_at(1) [of opts c] rest_nth [of c] by (cases "rest c") (auto simp: sane_def)
    show ?thesis
    proof (cases "decode_char c out")
      case (Inl e')
      with True 1(2) decode_char_fails [OF _ 1(3)] show ?thesis
        by (auto simp: decodeStringBody.simps [of True c])
    next
      case (Inr oc)
      then obtain out1 c1 where d: "decode_char c out = Inr (out1, c1)" by (cases oc) auto
      with True 1(2) have run: "decodeStringBody True c1 out1 = Inl e"
        by (simp add: decodeStringBody.simps [of True c])
      have "ready opts c" using 1(3) by (simp add: sane_def)
      from decode_char_sound [OF this x d] obtain p r where p: "rest c = p @ r" "c1 = moved (length p) 0 c"
        by blast
      with sane_prefix [OF 1(3) p(1)] have "sane opts c1" by simp
      with 1(1) [OF _ _ d refl run] True p(2) show ?thesis by simp
    qed
  next
    case False
    with 1(2) c show ?thesis
      by (auto simp: decodeStringBody.simps [of True c] messages split: if_splits elim!: ctx_fail_in)
  qed
qed

lemma extractString_fails: "extractString c = Inl e \<Longrightarrow> sane opts c \<Longrightarrow> fails_in (size_of c) e"
  using decodeStringBody_fails [of "forward 1 c" "[]" e opts] sane_step [of opts c 1] sane_pos [of opts c]
  by (auto simp: extractString_def messages split: if_splits elim!: ctx_fail_in)

lemma skipColon_fails: "skipColon c = Inl e \<Longrightarrow> sane opts c \<Longrightarrow> fails_in (size_of c) e"
proof (induction c rule: skipColon.induct)
  case (1 c)
  note c = sane_pos [OF 1(3)]
  show ?case
  proof (cases "c_pos c < c_end c \<and> is_ws (c_src c ! c_pos c) \<and> c_src c ! c_pos c \<noteq> CHR '':''")
    case True
    with 1(2) have "skipColon (forward 1 c) = Inl e" by (simp add: skipColon.simps [of c])
    with 1(1) [OF _ refl] True sane_step [OF 1(3), of 1] show ?thesis by auto
  next
    case False
    with 1(2) c show ?thesis
      by (auto simp: skipColon.simps [of c] Let_def messages split: if_splits elim!: ctx_fail_in)
  qed
qed

lemma sane_extract:
  assumes "sane opts c" "extractString c = Inr (s, c')"
  shows "sane opts c'" "c_src c' = c_src c"
proof -
  have c: "ready opts c" using assms(1) by (simp add: sane_def)
  from extractString_sound [OF this assms(2)] obtain raw r where
    raw: "rest c = quoted raw @ r" "c' = moved (length (quoted raw)) 0 c" by blast
  show "sane opts c'" unfolding raw(2) by (rule sane_prefix [OF assms(1) raw(1)])
  show "c_src c' = c_src c" using raw(2) by simp
qed

lemma parseString_fails:
  assumes p: "parseString c = Inl e" and c: "sane opts c"
  shows "fails_in (size_of c) e"
proof (cases "extractString c")
  case (Inl e')
  with p extractString_fails [OF _ c] show ?thesis by (simp add: parseString_def)
next
  case (Inr sc)
  then obtain s c1 where s: "extractString c = Inr (s, c1)" by (cases sc) auto
  with p have "newNode c1 = Inl e"
    by (cases "newNode c1") (auto simp: parseString_def)
  with newNode_fails [of c1 e opts] sane_extract [OF c s] show ?thesis by simp
qed

lemma parseKeyword_fails:
  assumes p: "parseKeyword c = Inl e" and c: "sane opts c"
  shows "fails_in (size_of c) e"
proof -
  have word: "fails_in (size_of c) e" if "keyword_at c w" "keyword_value c w v = Inl e" for w v
  proof -
    have "sane opts (forward (length w) c)" using sane_step [OF c] that(1) by (simp add: keyword_at_def)
    moreover have "newNode (forward (length w) c) = Inl e"
      using that(2) by (cases "newNode (forward (length w) c)") (auto simp: keyword_value_def)
    ultimately show ?thesis using newNode_fails [of "forward (length w) c" e opts] by simp
  qed
  show ?thesis using p word sane_pos [OF c]
    by (auto simp: parseKeyword_def messages split: if_splits elim!: ctx_fail_in)
qed

lemma text_number_message: "text_number x = Inl msg \<Longrightarrow> msg \<noteq> []"
  by (auto simp: text_number_def text_sign_def text_integer_def text_digits_def text_fraction_def
      text_exponent_def messages Let_def split: list.splits if_splits prod.splits dest!: sym [of "Inl _"])

lemma convert_message: "convertNumberToken uf t f policy = Inl msg \<Longrightarrow> msg \<noteq> []"
  by (auto simp: convertNumberToken_def convert_floating_def Let_def messages
      split: if_splits option.splits prod.splits)

lemma parseNumber_fails:
  assumes p: "parseNumber uf c = Inl e" and c: "sane opts c"
  shows "fails_in (size_of c) e"
proof -
  note pos = sane_pos [OF c]
  have p0: "c_pos c \<le> c_end c" using pos by simp
  show ?thesis
  proof (cases "text_number (rest c)")
    case (Inl msg)
    have "source_from c (c_pos c) = rest c" using pos(1) by (simp add: source_from_drop rest_def)
    with Inl dom_inside.number_scan [OF p0] obtain q where
      "scanJsonNumber (dom_scanner c) (c_pos c) = Some (Inl (Some msg, q))" "q \<le> c_end c"
      by (auto simp: dom_inside.rejects_def)
    with p pos text_number_message [OF Inl] show ?thesis
      by (auto simp: parseNumber_def elim!: ctx_fail_in)
  next
    case (Inr tfr)
    obtain t f r where "tfr = ((t, f), r)" by (metis surj_pair)
    with Inr scan_rest [of opts c] c obtain q where
      "scanJsonNumber (dom_scanner c) (c_pos c) = Some (Inr ((t, f), q))"
      by (auto simp: sane_def)
    with p have e: "(case convertNumberToken uf t f (c_numberPolicy c) of
        Inl msg \<Rightarrow> ctx_fail c (c_pos c) msg
      | Inr n \<Rightarrow> try_bind (newNode c) (\<lambda>(_, c1). Inr (number_value_of n, c1\<lparr>c_pos := q\<rparr>))) = Inl e"
      by (simp add: parseNumber_def)
    show ?thesis
    proof (cases "convertNumberToken uf t f (c_numberPolicy c)")
      case (Inl msg)
      with e pos convert_message [OF Inl] show ?thesis by (auto elim!: ctx_fail_in)
    next
      case (Inr n)
      with e have "newNode c = Inl e" by (cases "newNode c") auto
      with newNode_fails [OF _ c] show ?thesis by simp
    qed
  qed
qed

lemma open_container_fails:
  assumes o: "open_container c = Inl e" and c: "sane opts c"
  shows "fails_in (size_of c) e"
proof (cases "c_depth c < c_maxDepth c")
  case True
  with o obtain e' where e: "newNode (deeper c) = Inl e'" "e = leave e'"
    by (auto simp: open_container_def deeper_def [symmetric] split: sum.splits if_splits)
  have "sane opts (deeper c)" using c True ready_deeper by (simp add: sane_def)
  with newNode_fails [OF e(1)] e(2) show ?thesis by simp
next
  case False
  with o sane_pos [OF c] show ?thesis
    by (auto simp: open_container_def messages elim!: ctx_fail_in)
qed

lemma member_name_fails:
  assumes m: "member_name c ms = Inl e" and c: "sane opts c"
  shows "fails_in (size_of c) e"
proof (cases "extractString c")
  case (Inl e')
  with m extractString_fails [OF _ c] show ?thesis by (simp add: member_name_def)
next
  case (Inr kc)
  then obtain k c1 where k: "extractString c = Inr (k, c1)" by (cases kc) auto
  note c1 = sane_extract [OF c k]
  show ?thesis
  proof (cases "map_of ms k \<noteq> None \<and> c_duplicateKeys c = RejectDuplicateKeys")
    case True
    with m k sane_pos [OF c1(1)] sane_pos [OF c] show ?thesis
      by (auto simp: member_name_def messages elim!: ctx_fail_in)
  next
    case False
    with m k have "skipColon c1 = Inl e"
      by (cases "skipColon c1") (auto simp: member_name_def split: if_splits)
    with skipColon_fails [OF _ c1(1)] c1(2) show ?thesis by simp
  qed
qed

text \<open>Where the loops look at the next byte.\<close>

lemma sane_peek:
  assumes "sane opts c" "skip_peek c = (x, c1)"
  shows "sane opts c1" "c_src c1 = c_src c"
proof -
  have c: "ready opts c" using assms(1) by (simp add: sane_def)
  let ?w = "takeWhile is_ws (rest c)"
  have c1: "c1 = moved (length ?w) 0 c" using skip_peek_eq [OF c] assms(2) by simp
  show "sane opts c1" unfolding c1
    by (rule sane_prefix [OF assms(1), of _ "dropWhile is_ws (rest c)"]) simp
  show "c_src c1 = c_src c" using c1 by simp
qed

lemma sane_value:
  assumes "sane opts c" "parseValue uf c = Inr (v, c1)"
  shows "sane opts c1" "c_src c1 = c_src c"
proof -
  have c: "ready opts c" using assms(1) by (simp add: sane_def)
  with assms(2) have d: "derives_value uf opts c v c1" using parser_derives(1) by blast
  with derives_value_ready [OF _ c] show "sane opts c1" "c_src c1 = c_src c"
    using assms(1) by (auto simp: sane_def derives_value_def derives_def)
qed

lemma sane_member_name:
  assumes "sane opts c" "member_name c ms = Inr (k, c1)"
  shows "sane opts c1" "c_src c1 = c_src c"
proof -
  have c: "ready opts c" using assms(1) by (simp add: sane_def)
  from member_name_ready [OF this assms(2)] member_name_sound [OF c assms(2)]
  show "sane opts c1" "c_src c1 = c_src c" using assms(1) by (auto simp: sane_def)
qed

lemma sane_open:
  assumes "sane opts c" "open_container c = Inr (u, c1)" "c_pos c < c_end c"
  shows "sane opts c1" "c_src c1 = c_src c"
proof -
  have c: "ready opts c" using assms(1) by (simp add: sane_def)
  with assms(3) obtain x r where "rest c = x # r" using ready_at(1) by (cases "rest c") auto
  with open_ready [OF c] open_container_sound [OF assms(2)] assms(1)
  show "sane opts c1" "c_src c1 = c_src c" by (auto simp: sane_def)
qed

lemma leave_fails: "ctx_fail (leave c) p msg = Inl e \<Longrightarrow> sane opts c \<Longrightarrow> p \<le> size_of c \<Longrightarrow> msg \<noteq> [] \<Longrightarrow>
    fails_in (size_of c) e"
  by (erule ctx_fail_in) (simp_all add: sane_def)

theorem parser_fails:
  "sane opts c \<Longrightarrow> \<forall>d. parseValue uf c = Inl d \<longrightarrow> fails_in (size_of c) d"
  "sane opts c \<Longrightarrow> c_pos c < c_end c \<longrightarrow> (\<forall>d. parseArray uf c = Inl d \<longrightarrow> fails_in (size_of c) d)"
  "sane opts c \<Longrightarrow> \<forall>d. parse_elements uf c e a xs = Inl d \<longrightarrow> fails_in (size_of c) d"
  "sane opts c \<Longrightarrow> c_pos c < c_end c \<longrightarrow> (\<forall>d. parseObject uf c = Inl d \<longrightarrow> fails_in (size_of c) d)"
  "sane opts c \<Longrightarrow> \<forall>d. parse_members uf c e a ms = Inl d \<longrightarrow> fails_in (size_of c) d"
proof (induction uf c and uf c and uf c e a xs and uf c and uf c e a ms
    rule: parseValue_parseArray_parse_elements_parseObject_parse_members.induct)
  case (1 uf c)
  obtain x c1 where sk: "skip_peek c = (x, c1)" by (cases "skip_peek c") auto
  note c1 = sane_peek [OF "1.prems" sk] and stays = skip_peek_stays [OF sk]
  show ?case
  proof (cases x)
    case None
    with sk c1 sane_pos [OF c1(1)] show ?thesis
      by (auto simp: parseValue.simps [of uf c] messages elim!: ctx_fail_in)
  next
    case (Some ch)
    with "1.IH" [OF sk [symmetric] Some] sk c1 stays parseString_fails [OF _ c1(1)]
      parseNumber_fails [OF _ c1(1)] parseKeyword_fails [OF _ c1(1)]
    show ?thesis by (auto simp: parseValue.simps [of uf c])
  qed
next
  case (2 uf c)
  show ?case
  proof (cases "open_container c")
    case (Inl d)
    with open_container_fails [OF _ "2.prems"] show ?thesis by (simp add: parseArray.simps [of uf c])
  next
    case (Inr uc)
    then obtain u c1 where o: "open_container c = Inr (u, c1)" by (cases uc) auto
    with "2.IH" [OF o] sane_open [OF "2.prems" o] show ?thesis
      by (auto simp: parseArray.simps [of uf c])
  qed
next
  case (3 uf c e a xs)
  obtain x c1 where sk: "skip_peek c = (x, c1)" by (cases "skip_peek c") auto
  note c1 = sane_peek [OF "3.prems" sk] and stays = skip_peek_stays [OF sk]
  note pos = sane_pos [OF c1(1)]
  have leaves: "fails_in (size_of c) d" if "ctx_fail (leave c1) (c_pos c1) msg = Inl d" "msg \<noteq> []" for msg d
    using leave_fails [OF that(1) c1(1) pos(2) that(2)] c1(2) by simp
  show ?case
  proof (intro allI impI)
    fix d
    assume run: "parse_elements uf c e a xs = Inl d"
    show "fails_in (size_of c) d"
    proof (cases x)
      case None
      with run sk show ?thesis by (auto simp: parse_elements.simps [of uf c] messages elim!: leaves)
    next
      case (Some ch)
      note IH = "3.IH" [OF sk [symmetric] Some]
      have fw: "sane opts (forward 1 c1)" using sane_step [OF c1(1), of 1] stays Some by simp
      consider "ch = CHR '']'' \<or> ch = CHR '','' \<or> a \<and> \<not> e" | d' where "parseValue uf c1 = Inl d'"
        "\<not> (ch = CHR '']'' \<or> ch = CHR '','' \<or> a \<and> \<not> e)"
        | v c2 where "parseValue uf c1 = Inr (v, c2)" "\<not> (ch = CHR '']'' \<or> ch = CHR '','' \<or> a \<and> \<not> e)"
        by (cases "parseValue uf c1") auto
      then show ?thesis
      proof cases
        case 1
        then show ?thesis using run sk Some IH(1) fw c1(2)
          by (auto simp: parse_elements.simps [of uf c e] messages split: if_splits elim!: leaves)
      next
        case 2
        then show ?thesis using run sk Some IH(2) c1
          by (auto simp: parse_elements.simps [of uf c e])
      next
        case (3 v c2)
        note c2 = sane_value [OF c1(1) 3(1)]
        from 3 run sk Some have "parse_elements uf c2 False True (xs @ [v]) = Inl d"
          by (auto simp: parse_elements.simps [of uf c e])
        with IH(3) [OF _ _ _ 3(1) refl] 3 c2 c1(2) show ?thesis by auto
      qed
    qed
  qed
next
  case (4 uf c)
  show ?case
  proof (cases "open_container c")
    case (Inl d)
    with open_container_fails [OF _ "4.prems"] show ?thesis by (simp add: parseObject.simps [of uf c])
  next
    case (Inr uc)
    then obtain u c1 where o: "open_container c = Inr (u, c1)" by (cases uc) auto
    with "4.IH" [OF o] sane_open [OF "4.prems" o] show ?thesis
      by (auto simp: parseObject.simps [of uf c])
  qed
next
  case (5 uf c e a ms)
  obtain x c1 where sk: "skip_peek c = (x, c1)" by (cases "skip_peek c") auto
  note c1 = sane_peek [OF "5.prems" sk] and stays = skip_peek_stays [OF sk]
  note pos = sane_pos [OF c1(1)]
  have leaves: "fails_in (size_of c) d" if "ctx_fail (leave c1) (c_pos c1) msg = Inl d" "msg \<noteq> []" for msg d
    using leave_fails [OF that(1) c1(1) pos(2) that(2)] c1(2) by simp
  show ?case
  proof (intro allI impI)
    fix d
    assume run: "parse_members uf c e a ms = Inl d"
    show "fails_in (size_of c) d"
    proof (cases x)
      case None
      with run sk show ?thesis by (auto simp: parse_members.simps [of uf c] messages elim!: leaves)
    next
      case (Some ch)
      note IH = "5.IH" [OF sk [symmetric] Some]
      have fw: "sane opts (forward 1 c1)" using sane_step [OF c1(1), of 1] stays Some by simp
      let ?member = "ch = dquote \<and> \<not> (a \<and> \<not> e)"
      consider "\<not> ?member" | d' where "member_name c1 ms = Inl d'" ?member
        | k c2 d' where "member_name c1 ms = Inr (k, c2)" "parseValue uf c2 = Inl d'" ?member
        | k c2 v c3 where "member_name c1 ms = Inr (k, c2)" "parseValue uf c2 = Inr (v, c3)" ?member
        by (metis surj_pair sum.exhaust)
      then show ?thesis
      proof cases
        case 1
        then show ?thesis using run sk Some IH(1) fw c1(2)
          by (auto simp: parse_members.simps [of uf c e] messages split: if_splits elim!: leaves)
      next
        case 2
        then show ?thesis using run sk Some member_name_fails [OF _ c1(1)] c1(2)
          by (auto simp: parse_members.simps [of uf c e])
      next
        case (3 k c2 d')
        then show ?thesis using run sk Some IH(2) [OF _ _ _ _ 3(1) refl] sane_member_name [OF c1(1) 3(1)] c1(2)
          by (auto simp: parse_members.simps [of uf c e])
      next
        case (4 k c2 v c3)
        note c2 = sane_member_name [OF c1(1) 4(1)]
        note c3 = sane_value [OF c2(1) 4(2)]
        from 4 run sk Some
        have "parse_members uf c3 False True (store_member (c_duplicateKeys c3) k v ms) = Inl d"
          by (auto simp: parse_members.simps [of uf c e])
        with IH(3) [OF _ _ _ _ 4(1) refl 4(2) refl] 4 c3 c2 c1(2) show ?thesis by auto
      qed
    qed
  qed
qed

end
