(* ===== verification/Parsed_Value.thy ===== *)
theory Parsed_Value
  imports Json_Grammar
begin

section \<open>Values that come from a text\<close>

text \<open>
  What every value of a JSON text satisfies: its strings and names are well-formed UTF-8, its
  doubles are finite, its names are distinct, and it has no more nodes and levels than the tree
  it stands for. The parser produces such values and the serializer needs them.
\<close>

definition utf8_text :: "string \<Rightarrow> bool" where
  "utf8_text s \<longleftrightarrow> (\<exists>cps. list_all scalar_value cps \<and> s = concat (map utf8 cps))"

fun textual :: "json \<Rightarrow> bool" where
  "textual (JString s) = utf8_text s"
| "textual (JDouble d) = isfinite d"
| "textual (JArray xs) = list_all textual xs"
| "textual (JObject ms) = list_all (\<lambda>m. utf8_text (fst m) \<and> textual (snd m)) ms"
| "textual _ = True"

fun tree_textual :: "jtree \<Rightarrow> bool" where
  "tree_textual (TString s) = utf8_text s"
| "tree_textual (TArray ts) = list_all tree_textual ts"
| "tree_textual (TObject ms) = list_all (\<lambda>m. utf8_text (fst m) \<and> tree_textual (snd m)) ms"
| "tree_textual _ = True"

subsection \<open>Strings\<close>

lemma utf8_text_append: "utf8_text a \<Longrightarrow> utf8_text b \<Longrightarrow> utf8_text (a @ b)"
proof -
  assume "utf8_text a" "utf8_text b"
  then obtain x y where "list_all scalar_value (x @ y)" "a @ b = concat (map utf8 (x @ y))"
    by (auto simp: utf8_text_def)
  then show ?thesis unfolding utf8_text_def by blast
qed

lemma utf8_text_scalar: "scalar_value cp \<Longrightarrow> utf8_text (utf8 cp)"
  unfolding utf8_text_def by (rule exI [of _ "[cp]"]) simp

lemma utf8_text_Nil [simp]: "utf8_text []"
  unfolding utf8_text_def by (rule exI [of _ "[]"]) simp

lemma utf8_text_ascii: "byte c < 0x80 \<Longrightarrow> utf8_text [c]"
proof -
  assume "byte c < 0x80"
  then have "scalar_value (byte c)" "utf8 (byte c) = [c]" by (simp_all add: scalar_value_def utf8_def)
  then show ?thesis using utf8_text_scalar [of "byte c"] by simp
qed

lemma surrogate_pair_scalar:
  "high_surrogate hi \<Longrightarrow> low_surrogate lo \<Longrightarrow> scalar_value (surrogate_pair hi lo)"
  by (auto simp: high_surrogate_def low_surrogate_def surrogate_pair_def scalar_value_def)

lemma simple_escape_ascii: "simple_escape e = Some d \<Longrightarrow> byte d < 0x80"
  by (auto simp: simple_escape_def split: if_splits)

lemma jchar_text: "jchar p b \<Longrightarrow> utf8_text b"
  by (induction rule: jchar.induct)
    (auto simp: plain_char_def intro!: utf8_text_ascii utf8_text_scalar surrogate_pair_scalar
      dest: simple_escape_ascii)

lemma jchars_text: "jchars raw out \<Longrightarrow> utf8_text out"
  by (induction rule: jchars.induct) (auto intro: utf8_text_append jchar_text)

lemma jvalue_textual:
  "jvalue s t \<Longrightarrow> tree_textual t" "jelements s ts \<Longrightarrow> list_all tree_textual ts"
  "jmembers s ms \<Longrightarrow> list_all (\<lambda>m. utf8_text (fst m) \<and> tree_textual (snd m)) ms"
  by (induction rule: jvalue_jelements_jmembers.inducts) (auto dest: jchars_text)

subsection \<open>The value of a tree\<close>

abbreviation members_nodes :: "members \<Rightarrow> nat" where
  "members_nodes ms \<equiv> sum_list (map (\<lambda>m. nodes (snd m)) ms)"

lemma update_nodes: "members_nodes (AList.update k v ms) \<le> members_nodes ms + nodes v"
  by (induction ms) auto

lemma set_update: "set (AList.update k v ms) \<subseteq> insert (k, v) (set ms)"
  by (induction ms) auto

lemma store_member_facts:
  "members_nodes (store_member policy k v ms) \<le> members_nodes ms + nodes v"
  "set (store_member policy k v ms) \<subseteq> insert (k, v) (set ms)"
  "distinct_keys ms \<Longrightarrow> distinct_keys (store_member policy k v ms)"
  using update_nodes [of k v ms] set_update [of k v ms]
  by (auto simp: store_member_def distinct_keys_update)

lemma convert_finite:
  "convertNumberToken uf t f policy = Inr n \<Longrightarrow> textual (number_value_of n) \<and> wf_json (number_value_of n)
    \<and> nodes (number_value_of n) = 1 \<and> nesting (number_value_of n) = 0"
  by (auto simp: convertNumberToken_def convert_floating_def Let_def
      split: if_splits option.splits prod.splits)

definition within_tree :: "json \<Rightarrow> jtree \<Rightarrow> bool" where
  "within_tree v t \<longleftrightarrow> wf_json v \<and> nodes v \<le> tree_nodes t \<and> nesting v \<le> tree_depth t
     \<and> (tree_textual t \<longrightarrow> textual v)"

lemma tree_value_within:
  "tree_value uf opts t = Some v \<Longrightarrow> within_tree v t"
  "tree_elements uf opts ts = Some vs \<Longrightarrow> list_all2 within_tree vs ts"
  "tree_members uf opts es ms = Some ms' \<Longrightarrow> distinct_keys ms \<Longrightarrow>
    distinct_keys ms' \<and> members_nodes ms' \<le> members_nodes ms + sum_list (map (\<lambda>m. tree_nodes (snd m)) es)
    \<and> (\<forall>(k, v)\<in>set ms'. (k, v) \<in> set ms \<or> (\<exists>t. (k, t) \<in> set es \<and> within_tree v t))"
proof (induction uf opts t and uf opts ts and uf opts es ms arbitrary: v and vs and ms'
    rule: tree_value_tree_elements_tree_members.induct)
  case (3 uf opts t f)
  then show ?case using convert_finite by (fastforce simp: within_tree_def split: sum.splits)
next
  case (5 uf opts ts)
  then obtain vs where "v = JArray vs" and w: "list_all2 within_tree vs ts" by auto
  moreover from w have "sum_list (map nodes vs) \<le> sum_list (map tree_nodes ts)
      \<and> list_all wf_json vs \<and> (list_all tree_textual ts \<longrightarrow> list_all textual vs)"
    by (induction rule: list_all2_induct) (auto simp: within_tree_def)
  moreover have "fold max (map nesting vs) 0 \<le> fold max (map tree_depth ts) 0"
    unfolding fold_max_le
  proof (intro conjI ballI)
    fix x assume "x \<in> set (map nesting vs)"
    then obtain i where "i < length vs" "x = nesting (vs ! i)" by (auto simp: in_set_conv_nth)
    with w have "x \<le> tree_depth (ts ! i)" "tree_depth (ts ! i) \<in> set (map tree_depth ts)"
      by (auto simp: list_all2_conv_all_nth within_tree_def)
    then show "x \<le> fold max (map tree_depth ts) 0" using fold_max_ge order_trans by blast
  qed simp
  ultimately show ?case by (simp add: within_tree_def)
next
  case (6 uf opts es)
  then obtain ms where v: "v = JObject ms" and m: "tree_members uf opts es [] = Some ms" by auto
  from "6.IH" [OF m] have w: "distinct_keys ms" "members_nodes ms \<le> sum_list (map (\<lambda>m. tree_nodes (snd m)) es)"
    "\<And>k v. (k, v) \<in> set ms \<Longrightarrow> \<exists>t. (k, t) \<in> set es \<and> within_tree v t" by auto
  have "fold max (map (\<lambda>m. nesting (snd m)) ms) 0 \<le> fold max (map (\<lambda>m. tree_depth (snd m)) es) 0"
    unfolding fold_max_le
  proof (intro conjI ballI)
    fix x assume "x \<in> set (map (\<lambda>m. nesting (snd m)) ms)"
    then obtain k v where "(k, v) \<in> set ms" "x = nesting v" by auto
    with w(3) obtain t where "(k, t) \<in> set es" "nesting v \<le> tree_depth t" "x = nesting v"
      by (auto simp: within_tree_def)
    moreover from this(1) have "tree_depth t \<in> set (map (\<lambda>m. tree_depth (snd m)) es)" by force
    ultimately show "x \<le> fold max (map (\<lambda>m. tree_depth (snd m)) es) 0"
      using fold_max_ge order_trans by blast
  qed simp
  moreover have "list_all (\<lambda>m. wf_json (snd m)) ms" using w(3) by (fastforce simp: list_all_iff within_tree_def)
  moreover have "list_all (\<lambda>m. utf8_text (fst m) \<and> textual (snd m)) ms"
    if "list_all (\<lambda>m. utf8_text (fst m) \<and> tree_textual (snd m)) es"
    using w(3) that by (fastforce simp: list_all_iff within_tree_def)
  ultimately show ?case using v w(1,2) by (simp add: within_tree_def)
next
  case (8 uf opts t ts)
  then show ?case by (auto split: bind_splits)
next
  case (10 uf opts k t ts ms)
  from 10(3) obtain v where v: "tree_value uf opts t = Some v"
    and rest: "tree_members uf opts ts (store_member (po_duplicateKeys opts) k v ms) = Some ms'"
    and dup: "\<not> (map_of ms k \<noteq> None \<and> po_duplicateKeys opts = RejectDuplicateKeys)"
    by (auto split: bind_splits if_splits)
  let ?ms = "store_member (po_duplicateKeys opts) k v ms"
  have t: "within_tree v t" using 10(1) dup v by blast
  from 10(2) [OF dup v rest store_member_facts(3) [OF 10(4)]]
  have IH: "distinct_keys ms'" "members_nodes ms' \<le> members_nodes ?ms + sum_list (map (\<lambda>m. tree_nodes (snd m)) ts)"
    "\<forall>(k, v)\<in>set ms'. (k, v) \<in> set ?ms \<or> (\<exists>t. (k, t) \<in> set ts \<and> within_tree v t)" by auto
  have "members_nodes ?ms \<le> members_nodes ms + tree_nodes t"
    using store_member_facts(1) [of "po_duplicateKeys opts" k v ms] t by (auto simp: within_tree_def)
  with IH t store_member_facts(2) [of "po_duplicateKeys opts" k v ms] show ?case by fastforce
qed (simp_all add: within_tree_def)

end
