(* ===== verification/Number_Value.thy ===== *)
theory Number_Value
  imports Number_Token
begin

section \<open>The value of a number token\<close>

text \<open>
  \<open>parseDouble\<close> does not trust the saturated result of the stream: where \<open>failbit\<close> is set it
  decides between overflow and underflow by the decimal exponent of the first nonzero digit. Here
  that exponent is related to the decimal the token denotes, so that the verdict is exact whatever
  the standard library does on underflow.
\<close>

subsection \<open>Rounding below and above one\<close>

lemma bit_length_le: "k < 2 ^ n \<Longrightarrow> bit_length k \<le> n"
proof (rule ccontr)
  assume "k < 2 ^ n" "\<not> bit_length k \<le> n"
  then have "k \<noteq> 0" by (metis bit_length_0 le0)
  with \<open>\<not> bit_length k \<le> n\<close> have "2 ^ n \<le> (2 :: nat) ^ (bit_length k - 1)"
    by (intro power_increasing) auto
  also have "\<dots> \<le> k" using bit_length_bounds [of k] \<open>k \<noteq> 0\<close> by simp
  finally show False using \<open>k < 2 ^ n\<close> by simp
qed

lemma bit_length_ge: "2 ^ n \<le> k \<Longrightarrow> n < bit_length k"
proof (rule ccontr)
  assume a: "2 ^ n \<le> k" "\<not> n < bit_length k"
  have "(0 :: nat) < 2 ^ n" by simp
  with a(1) have "0 < k" by linarith
  then have "k < 2 ^ bit_length k" using bit_length_bounds by blast
  also have "\<dots> \<le> (2 :: nat) ^ n" using a(2) by (intro power_increasing) auto
  finally show False using a(1) by simp
qed

lemma nearest_code_normal:
  assumes "0 < d" "d \<le> n"
  shows "2 ^ 52 \<le> nearest_code n d"
proof -
  let ?k = "n * units div d"
  have "d * units div d \<le> ?k" using assms(2) by (intro div_le_mono) simp
  then have "2 ^ 1074 \<le> ?k" using assms(1) by (simp add: units_def)
  then have "1074 < bit_length ?k" by (rule bit_length_ge)
  then have "1 \<le> bit_length ?k - 53" by simp
  then have "1 * 2 ^ 52 \<le> (bit_length ?k - 53) * 2 ^ 52" by (rule mult_le_mono1)
  then show ?thesis by (simp add: nearest_code_def Let_def)
qed

lemma nearest_code_below_one:
  assumes "n < d"
  shows "nearest_code n d < infinity_code"
proof -
  let ?k = "n * units div d" and ?r = "n * units mod d"
  define sh where "sh = bit_length ?k - 53"
  have "?k < units" using assms by (intro div_less_iff_less_mult [THEN iffD2]) simp_all
  then have "bit_length ?k \<le> 1074" unfolding units_def by (rule bit_length_le)
  then have "sh \<le> 1021" by (simp add: sh_def)
  then have "sh * 2 ^ 52 \<le> 1021 * 2 ^ 52" by (rule mult_le_mono1)
  moreover have "round_even (?k div 2 ^ sh) (?k mod 2 ^ sh * d + ?r) (2 ^ sh * d) \<le> 2 ^ 53"
    using round_even_bounds significand_bounds(1) [OF sh_def]
    by (meson Suc_leI le_trans)
  ultimately show ?thesis by (simp add: nearest_code_def Let_def sh_def [symmetric])
qed

lemma nearest_double_finite: "n < d \<Longrightarrow> isfinite (nearest_double s n d)"
  using nearest_code_below_one [of n d] by (simp add: isfinite_code nearest_double_def)

lemma nearest_double_normal: "0 < d \<Longrightarrow> d \<le> n \<Longrightarrow> 2 ^ 52 \<le> double_code (nearest_double s n d)"
  using nearest_code_normal [of d n] by (simp add: nearest_double_def)

subsection \<open>Digits\<close>

lemma digit_value_less_ten: "is_digit c \<Longrightarrow> digit_value c < 10"
  by (auto simp: is_digit_def less_eq_char_def digit_value_def)

lemma digits_value_bound: "list_all is_digit ds \<Longrightarrow> digits_value a ds < (a + 1) * 10 ^ length ds"
proof (induction ds arbitrary: a)
  case (Cons c ds)
  have "digits_value a (c # ds) < (a * 10 + digit_value c + 1) * 10 ^ length ds"
    using Cons by simp
  also have "\<dots> \<le> ((a + 1) * 10) * 10 ^ length ds"
    using Cons.prems digit_value_less_ten [of c] by (intro mult_le_mono1) simp
  finally show ?case by (simp add: algebra_simps)
qed simp

lemma digits_value_ge: "a * 10 ^ length ds \<le> digits_value a ds"
proof (induction ds arbitrary: a)
  case (Cons c ds)
  have "a * 10 ^ length (c # ds) \<le> (a * 10 + digit_value c) * 10 ^ length ds"
    by (simp add: algebra_simps)
  also have "\<dots> \<le> digits_value a (c # ds)" using Cons.IH by simp
  finally show ?case .
qed simp

lemma digit_value_zero: "is_digit c \<Longrightarrow> digit_value c = 0 \<longleftrightarrow> c = CHR ''0''"
  using digit_char_value [of c] by (auto simp: digit_value_def)

text \<open>The number is bounded by the place of its first nonzero digit.\<close>

lemma leading_digit:
  assumes "list_all is_digit ds"
  defines "z \<equiv> length (takeWhile (\<lambda>c. c = CHR ''0'') ds)"
  shows "z = length ds \<Longrightarrow> digits_value 0 ds = 0"
    and "z < length ds \<Longrightarrow> 10 ^ (length ds - z - 1) \<le> digits_value 0 ds
      \<and> digits_value 0 ds < 10 ^ (length ds - z)"
  unfolding z_def using assms(1)
proof (induction ds)
  case (Cons c ds)
  {
    case 1
    with Cons show ?case by (auto simp: digit_value_def split: if_splits)
  next
    case 2
    show ?case
    proof (cases "c = CHR ''0''")
      case True
      with Cons 2 show ?thesis by (simp add: digit_value_def)
    next
      case False
      then have c: "1 \<le> digit_value c" "digit_value c < 10" "list_all is_digit ds"
        using 2 digit_value_zero [of c] digit_value_less_ten [of c] by auto
      have "1 * 10 ^ length ds \<le> digit_value c * 10 ^ length ds" using c(1) by (rule mult_le_mono1)
      also have "\<dots> \<le> digits_value 0 (c # ds)" using digits_value_ge [of "digit_value c" ds] by simp
      finally have lower: "10 ^ length ds \<le> digits_value 0 (c # ds)" by simp
      have "digits_value 0 (c # ds) < (digit_value c + 1) * 10 ^ length ds"
        using digits_value_bound [OF c(3), of "digit_value c"] by simp
      also have "\<dots> \<le> 10 * 10 ^ length ds" using c(2) by (intro mult_le_mono1) simp
      finally have upper: "digits_value 0 (c # ds) < 10 ^ length (c # ds)" by simp
      show ?thesis using False lower upper by simp
    qed
  }
qed simp_all

subsection \<open>The exponent\<close>

lemma digit_value_int: "is_digit c \<Longrightarrow> int (of_char c) - 48 = int (digit_value c)"
  by (auto simp: is_digit_def less_eq_char_def digit_value_def of_nat_diff)

lemma explicit_digits_value:
  "list_all is_digit ds \<Longrightarrow> int a \<le> exponent_cap \<Longrightarrow>
    explicit_digits ds (int a) = min exponent_cap (int (digits_value a ds))"
proof (induction ds arbitrary: a)
  case (Cons c ds)
  let ?a = "a * 10 + digit_value c"
  have step: "int a * 10 + (int (of_char c) - 48) = int ?a"
    using Cons.prems(1) digit_value_int [of c] by simp
  have cap: "int a > (exponent_cap - (int (of_char c) - 48)) div 10 \<longleftrightarrow> exponent_cap < int ?a"
    unfolding step [symmetric] by linarith
  show ?case
  proof (cases "exponent_cap < int ?a")
    case True
    with digits_value_mono [of ?a ds] have "exponent_cap \<le> int (digits_value a (c # ds))"
      by simp
    with True cap show ?thesis by (simp add: Let_def)
  next
    case False
    with Cons.IH [of ?a] Cons.prems(1) cap step show ?thesis by (simp add: Let_def)
  qed
qed simp

definition exponent_text :: "string \<Rightarrow> bool" where
  "exponent_text s \<longleftrightarrow> s = [] \<or> (\<exists>sg ds. s = sg @ ds \<and> exponent_sign sg \<and> digit_run ds)"

lemma explicit_exponent_clamp:
  assumes "exponent_text s"
  shows "explicit_exponent s = max (- exponent_cap) (min exponent_cap (signed_digits s))"
proof -
  have cap: "0 \<le> exponent_cap" by (simp add: exponent_cap_def)
  have run: "explicit_digits ds 0 = min exponent_cap (int (digits_value 0 ds))"
    if "list_all is_digit ds" for ds
    using explicit_digits_value [OF that, of 0] cap by simp
  from assms consider "s = []" | ds where "s = ds" "digit_run ds" | ds where "s = CHR ''+'' # ds" "digit_run ds"
    | ds where "s = CHR ''-'' # ds" "digit_run ds"
    by (auto simp: exponent_text_def exponent_sign_def)
  then show ?thesis
  proof cases
    case 1
    then show ?thesis using cap by (simp add: explicit_exponent_def signed_digits_def)
  next
    case (2 ds)
    then obtain c cs where c: "s = c # cs" "is_digit c" "list_all is_digit s"
      by (cases s) (auto simp: digit_run_def)
    then have "c \<noteq> CHR ''-''" "c \<noteq> CHR ''+''" by auto
    then show ?thesis using c run [of s] cap by (simp add: explicit_exponent_def signed_digits_def)
  next
    case (3 ds)
    then show ?thesis using run [of ds] cap by (simp add: explicit_exponent_def signed_digits_def digit_run_def)
  next
    case (4 ds)
    then show ?thesis using run [of ds] cap
      by (auto simp: explicit_exponent_def signed_digits_def digit_run_def)
  qed
qed

text \<open>Saturation does not change the sign of the effective exponent.\<close>

lemma effective_exponent_sign:
  assumes "exponent_text (token_exponent t)"
    and "\<bar>int (digits_before_point t) - int z - 1\<bar> < exponent_cap"
  shows "0 \<le> effective_exponent t z \<longleftrightarrow>
    0 \<le> signed_digits (token_exponent t) + int (digits_before_point t) - int z - 1"
  using assms(2) unfolding effective_exponent_def Let_def explicit_exponent_clamp [OF assms(1)]
  by (simp add: max_def min_def) linarith

subsection \<open>The parts of a token\<close>

lemma token_parts:
  assumes "jnumber t f"
  obtains i fs where "token_significand t = i @ (if fs = [] then [] else CHR ''.'' # fs)"
    "list_all is_digit i" "list_all is_digit fs" "i \<noteq> []" "exponent_text (token_exponent t)"
    "length i + length fs \<le> length t"
proof -
  from assms obtain sg i fr ex where t: "t = sg @ i @ fr @ ex" "number_sign sg" "canonical_decimal i"
    "number_fraction fr" "number_exponent ex"
    by (auto simp: jnumber_def)
  from t(3) have i: "list_all is_digit i" "i \<noteq> []" by (simp_all add: canonical_decimal_def)
  then obtain c cs where c: "i = c # cs" "is_digit c" by (cases i) auto
  from t(4) obtain fs where fs: "fr = (if fs = [] then [] else CHR ''.'' # fs)" "list_all is_digit fs"
  proof (cases "fr = []")
    case True
    then show ?thesis using that [of "[]"] by simp
  next
    case False
    with t(4) obtain ds where "fr = CHR ''.'' # ds" "digit_run ds" by (auto simp: number_fraction_def)
    then show ?thesis using that [of ds] by (simp add: digit_run_def)
  qed
  have u: "token_unsigned t = i @ fr @ ex"
    using t(1,2) c by (auto simp: token_unsigned_def token_negative_def number_sign_def)
  have plain: "\<forall>x\<in>set (i @ fr). \<not> is_exponent_mark x"
    using i(1) fs by (auto simp: list_all_iff is_exponent_mark_def is_digit_def less_eq_char_def)
  have ex: "ex = [] \<or> is_exponent_mark (hd ex)" using t(5) by (auto simp: number_exponent_def)
  have "token_significand t = i @ fr"
    using plain ex unfolding token_significand_def u append_assoc [symmetric]
    by (cases ex) (simp_all add: takeWhile_append2)
  moreover have "dropWhile (\<lambda>c. \<not> is_exponent_mark c) ((i @ fr) @ ex) = ex"
  proof (cases ex)
    case Nil
    have "dropWhile (\<lambda>c. \<not> is_exponent_mark c) (i @ fr) = []"
      using plain by (simp only: dropWhile_eq_Nil_conv)
    with Nil show ?thesis by (simp only: append_Nil2)
  next
    case (Cons x xs)
    have "dropWhile (\<lambda>c. \<not> is_exponent_mark c) ((i @ fr) @ ex) = dropWhile (\<lambda>c. \<not> is_exponent_mark c) ex"
      by (rule dropWhile_append2) (use plain in blast)
    with Cons ex show ?thesis by simp
  qed
  then have "token_exponent t = tl ex" unfolding token_exponent_def u by simp
  moreover have "exponent_text (tl ex)" using t(5) by (auto simp: number_exponent_def exponent_text_def)
  moreover have "length i + length fs \<le> length t" using t(1) fs(1) by simp
  ultimately show ?thesis using that i fs by simp
qed

text \<open>The fraction the token denotes, as the correctly rounded value reads it.\<close>

definition token_ratio :: "string \<Rightarrow> nat \<times> nat" where
  "token_ratio t =
     (let n = digits_value 0 (significand_digits t); e = token_power t
      in if 0 \<le> e then (n * 10 ^ nat e, 1) else (n, 10 ^ nat (- e)))"

lemma token_double_ratio:
  "token_double t = nearest_double (token_negative t) (fst (token_ratio t)) (snd (token_ratio t))"
  "0 < snd (token_ratio t)"
  by (simp_all add: token_double_def token_ratio_def Let_def)

lemma ratio_sign:
  assumes z: "z < l" "(10 :: nat) ^ (l - z - 1) \<le> n" "n < 10 ^ (l - z)"
    and e: "k = e + int l - int z - 1"
  shows "0 \<le> k \<longleftrightarrow> (if 0 \<le> e then 1 \<le> n * 10 ^ nat e else 10 ^ nat (- e) \<le> n)"
proof (cases "0 \<le> e")
  case True
  have "(0 :: nat) < 10 ^ (l - z - 1)" by simp
  with z(2) have "0 < n" by linarith
  then show ?thesis using True z(1) e by simp
next
  case neg: False
  show ?thesis
  proof (cases "0 \<le> k")
    case True
    with neg e z(1) have "nat (- e) \<le> l - z - 1" by linarith
    then have "(10 :: nat) ^ nat (- e) \<le> 10 ^ (l - z - 1)" by (intro power_increasing) simp_all
    with z(2) have "10 ^ nat (- e) \<le> n" by linarith
    with True neg show ?thesis by simp
  next
    case False
    with neg e z(1) have "l - z \<le> nat (- e)" by linarith
    then have "(10 :: nat) ^ (l - z) \<le> 10 ^ nat (- e)" by (intro power_increasing) simp_all
    with z(3) have "n < 10 ^ nat (- e)" by linarith
    with False neg show ?thesis by simp
  qed
qed

text \<open>The effective exponent is not negative exactly from one on.\<close>

lemma token_facts:
  assumes t: "jnumber t f" and len: "length t < 10 ^ 9"
  shows "first_nonzero t = None \<longleftrightarrow> fst (token_ratio t) = 0"
    and "first_nonzero t = Some z \<Longrightarrow>
      0 \<le> effective_exponent t z \<longleftrightarrow> snd (token_ratio t) \<le> fst (token_ratio t)"
proof -
  obtain i fs where p: "token_significand t = i @ (if fs = [] then [] else CHR ''.'' # fs)"
    "list_all is_digit i" "list_all is_digit fs" "i \<noteq> []" "exponent_text (token_exponent t)"
    "length i + length fs \<le> length t"
    using token_parts [OF t] .
  let ?D = "i @ fs"
  let ?zeros = "length (takeWhile (\<lambda>c. c = CHR ''0'') ?D)"
  have dots: "\<forall>x\<in>set ?D. x \<noteq> CHR ''.''" using p(2,3) by (auto simp: list_all_iff)
  then have D: "significand_digits t = ?D"
    unfolding significand_digits_def p(1) by (auto simp: filter_id_conv)
  have before: "digits_before_point t = length i"
    using dots unfolding digits_before_point_def p(1) by (auto simp: takeWhile_append2)
  have frac: "fraction_length t = length fs"
    using dots unfolding fraction_length_def p(1) by (auto simp: dropWhile_append2)
  have digits: "list_all is_digit ?D" using p(2,3) by simp
  have le: "?zeros \<le> length ?D" by (rule length_takeWhile_le)
  note lead = leading_digit [OF digits]
  have pos: "0 < digits_value 0 ?D" if "?zeros < length ?D"
  proof -
    have "(0 :: nat) < 10 ^ (length ?D - ?zeros - 1)" by simp
    with lead(2) [OF that] show ?thesis by linarith
  qed
  have N: "digits_value 0 ?D = 0 \<longleftrightarrow> ?zeros = length ?D"
    using lead(1) pos le by (metis less_numeral_extra(3) nat_less_le)
  show "first_nonzero t = None \<longleftrightarrow> fst (token_ratio t) = 0"
    using N by (auto simp: first_nonzero_def token_ratio_def D Let_def)
  assume "first_nonzero t = Some z"
  then have z: "z = ?zeros" "z < length ?D"
    using le unfolding first_nonzero_def D Let_def by (auto simp only: option.inject split: if_splits)
  have "\<bar>int (digits_before_point t) - int z - 1\<bar> < exponent_cap"
    using z(2) before p(4,6) len by (auto simp: exponent_cap_def)
  from effective_exponent_sign [OF p(5) this] before
  have sign: "0 \<le> effective_exponent t z \<longleftrightarrow>
      0 \<le> token_power t + int (length ?D) - int z - 1"
    by (simp add: token_power_def frac)
  show "0 \<le> effective_exponent t z \<longleftrightarrow> snd (token_ratio t) \<le> fst (token_ratio t)"
    unfolding sign using ratio_sign [OF z(2) _ _ refl, of "digits_value 0 ?D" "token_power t"] lead(2) z
    by (simp add: token_ratio_def D Let_def)
qed

text \<open>
  The verdict and the value: the correctly rounded double of the decimal, refused only when it is
  beyond the range; the flag says that a nonzero decimal became zero.
\<close>

lemma parseDouble_exact:
  assumes t: "jnumber t f" and len: "length t < 10 ^ 9"
  shows "parseDouble uf t =
    (if isfinite (token_double t)
     then Some (token_double t, fst (token_ratio t) \<noteq> 0 \<and> double_eq (token_double t) double_zero)
     else None)"
proof -
  let ?n = "fst (token_ratio t)" and ?d = "snd (token_ratio t)"
  note facts = token_facts [OF assms] and ratio = token_double_ratio [of t]
  have max: "isfinite (double_max s)" for s by (simp add: isfinite_code double_max_def)
  show ?thesis
  proof (cases "isfinite (token_double t)")
    case fin: True
    show ?thesis
    proof (cases "first_nonzero t")
      case None
      with fin facts(1) show ?thesis by (simp add: parseDouble_def stream_double_def)
    next
      case (Some z)
      have "effective_exponent t z < 0" if "token_underflows t"
      proof -
        from that have "double_code (token_double t) < 2 ^ 52" by (simp add: token_underflows_def)
        then have "?n < ?d" using nearest_double_normal [OF ratio(2), of ?n] ratio(1)
          by (metis linorder_not_le)
        with facts(2) [OF Some] show ?thesis by linarith
      qed
      with fin Some facts(1) show ?thesis by (auto simp: parseDouble_def stream_double_def Let_def)
    qed
  next
    case inf: False
    then have "?d \<le> ?n" using nearest_double_finite [of ?n ?d] ratio(1) by (metis linorder_not_le)
    with ratio(2) facts(1) obtain z where z: "first_nonzero t = Some z" by (cases "first_nonzero t") auto
    with facts(2) \<open>?d \<le> ?n\<close> have "0 \<le> effective_exponent t z" by simp
    with inf z max show ?thesis by (simp add: parseDouble_def stream_double_def)
  qed
qed

end
