(* ===== verification/Parser_Properties.thy ===== *)
theory Parser_Properties
  imports Dom_Parse_Failure Parsed_Value Number_Value
begin

section \<open>Properties of the parser\<close>

text \<open>
  The properties of texts, numbers, diagnostics and the DOM parser, over the grammar and over the
  facts on failing parses.
\<close>

subsection \<open>Documents\<close>

lemma initial_sane: "sane opts (initial_context src opts)" "rest (initial_context src opts) = src"
  "room k (initial_context src opts) \<longleftrightarrow> po_maxNodes opts = 0 \<or> k \<le> po_maxNodes opts"
  "c_src (initial_context src opts) = src" "c_depth (initial_context src opts) = 0"
  "c_maxDepth (initial_context src opts) = clampParseDepth (po_maxDepth opts)"
  by (auto simp: sane_def ready_def room_def rest_def initial_context_def)

lemma initial_ready: "ready opts (initial_context src opts)"
  using initial_sane(1) by (simp add: sane_def)

definition within_limits :: "ParserOptions \<Rightarrow> jtree \<Rightarrow> bool" where
  "within_limits opts t \<longleftrightarrow> tree_depth t \<le> clampParseDepth (po_maxDepth opts)
     \<and> (po_maxNodes opts = 0 \<or> tree_nodes t \<le> po_maxNodes opts)"

lemma value_sound:
  assumes p: "parseValue uf (initial_context src opts) = Inr (v, c)" and b: "spaces (rest c)"
  shows "\<exists>t. jdocument src t \<and> within_limits opts t \<and> tree_value uf opts t = Some v"
proof -
  let ?c = "initial_context src opts"
  have "derives_value uf opts ?c v c" using p parser_derives(1) [OF initial_ready] by blast
  then obtain a q s t r where a: "rest ?c = a @ q" "spaces a" and s: "rest (moved (length a) 0 ?c) = s @ r"
    and t: "jvalue s t" "tree_value uf opts t = Some v"
    "c = moved (length s) (tree_nodes t) (moved (length a) 0 ?c)"
    "room (tree_nodes t) (moved (length a) 0 ?c)"
    "c_depth (moved (length a) 0 ?c) + tree_depth t \<le> c_maxDepth (moved (length a) 0 ?c)"
    unfolding derives_value_def derives_def by blast
  have src: "src = a @ s @ r" using a(1) s by (simp add: initial_sane(2))
  then have "rest c = r" unfolding t(3) by (simp add: initial_sane(2))
  with b src a(2) t(1) have "jdocument src t" unfolding jdocument_def by blast
  moreover have "within_limits opts t" using t(4,5)
    by (simp add: within_limits_def initial_sane(3,5,6))
  ultimately show ?thesis using t(2) by blast
qed

lemma value_complete:
  assumes t: "jdocument src t" "within_limits opts t" "tree_value uf opts t = Some v"
  shows "\<exists>c. parseValue uf (initial_context src opts) = Inr (v, c) \<and> spaces (rest c)"
proof -
  let ?c = "initial_context src opts"
  from t(1) obtain a s b where d: "src = a @ s @ b" "spaces a" "jvalue s t" "spaces b"
    unfolding jdocument_def by blast
  obtain x q where x: "s = x # q" "\<not> is_ws x" using value_first [OF d(3)] .
  have r: "rest ?c = a @ x # q @ b" using d(1) x(1) by (simp add: initial_sane(2))
  note p = peek_spaces(1,2) [OF initial_ready r d(2) x(2)]
  have room: "room (tree_nodes t) ?c" and depth: "tree_depth t \<le> clampParseDepth (po_maxDepth opts)"
    using t(2) by (simp_all add: within_limits_def initial_sane(3))
  have "accepts uf opts (moved (length a) 0 ?c) s b t v"
    using p t(3) x(1) number_end_spaces(2) [OF d(4)] room depth
    by (simp add: accepts_def initial_sane(5,6))
  with grammar_parses(1) [OF d(3)]
  have "parseValue uf (moved (length a) 0 ?c) = Inr (v, moved (length s) (tree_nodes t) (moved (length a) 0 ?c))"
    unfolding parses_def by blast
  then have "parseValue uf ?c = Inr (v, moved (length a + length s) (tree_nodes t) ?c)"
    using parse_spaces(1) [OF initial_ready r d(2) x(2)] by simp
  moreover have "rest (moved (length a + length s) (tree_nodes t) ?c) = b"
    using d(1) by (simp add: initial_sane(2))
  ultimately show ?thesis using d(4) by blast
qed

lemma setParseError_not_ok [simp]: "\<not> er_ok (setParseError src p msg code)"
  by (simp add: setParseError_def split: prod.splits)

lemma reset_ok [simp]: "er_ok resetParseError"
  by (simp add: resetParseError_def)

text \<open>The result of a parse, by what \<open>parseValue\<close> returns.\<close>

lemma value_context_ready:
  "parseValue uf (initial_context src opts) = Inr (v, c) \<Longrightarrow> ready opts c"
  using derives_value_ready parser_derives(1) [OF initial_ready] initial_ready by blast

lemma parse_success:
  "parser_parse uf opts src = (v, er) \<and> er_ok er \<longleftrightarrow>
    er = resetParseError \<and> (po_maxInputBytes opts = 0 \<or> length src \<le> po_maxInputBytes opts)
    \<and> (\<exists>c. parseValue uf (initial_context src opts) = Inr (v, c) \<and> spaces (rest c))"
proof -
  have "fst (skip_peek c) = None \<longleftrightarrow> spaces (rest c)"
    if "parseValue uf (initial_context src opts) = Inr (w, c)" for w c
    using skip_peek_none skip_peek_end value_context_ready [OF that]
    by (metis fst_conv prod.collapse)
  then show ?thesis
    by (auto simp: parser_parse_def parseTop_def linorder_not_le
        split: sum.splits prod.splits option.splits if_splits)
qed

lemma parse_failure_context:
  assumes "parser_parse uf opts src = (v, er)" "\<not> er_ok er"
  shows "v = JNull \<and> (\<exists>p msg code. er = setParseError src p msg code \<and> p \<le> length src \<and> msg \<noteq> [])"
proof -
  let ?c = "initial_context src opts"
  consider "po_maxInputBytes opts \<noteq> 0 \<and> length src > po_maxInputBytes opts"
    | d where "\<not> (po_maxInputBytes opts \<noteq> 0 \<and> length src > po_maxInputBytes opts)" "parseValue uf ?c = Inl d"
    | w c where "\<not> (po_maxInputBytes opts \<noteq> 0 \<and> length src > po_maxInputBytes opts)"
      "parseValue uf ?c = Inr (w, c)"
    by (metis surj_pair sum.exhaust)
  then show ?thesis
  proof cases
    case 1
    with assms(1) have "v = JNull" "er = setParseError src (po_maxInputBytes opts) msg_input_limit InputLimit"
      by (simp_all add: parser_parse_def parseTop_def)
    moreover have "msg_input_limit \<noteq> []" by (simp add: msg_input_limit_def)
    ultimately show ?thesis using 1 by (metis less_imp_le)
  next
    case (2 d)
    with parser_fails(1) [OF initial_sane(1)] have "fails_in (length src) d"
      by (metis initial_sane(4))
    then have "c_errPos d \<le> length src" "c_errMsg d \<noteq> []" by (simp_all add: fails_in_def)
    moreover from this assms(1) 2 have "v = JNull" "er = setParseError src (c_errPos d) (c_errMsg d) Parse_None"
      by (auto simp: parser_parse_def parseTop_def)
    ultimately show ?thesis by blast
  next
    case (3 w c)
    obtain x c1 where sk: "skip_peek c = (x, c1)" by (cases "skip_peek c") auto
    from assms 3 sk have x: "x \<noteq> None" "v = JNull"
      "er = setParseError src (c_pos c1) msg_trailing_characters Syntax"
      by (auto simp: parser_parse_def parseTop_def split: option.splits)
    have "sane opts c" "c_src c = src"
      using sane_value [OF initial_sane(1) 3(2)] initial_sane(4) by simp_all
    from sane_peek [OF this(1) sk] this(2) have "c_pos c1 \<le> length src"
      using sane_pos(2) by fastforce
    with x show ?thesis by (auto simp: msg_trailing_characters_def)
  qed
qed

lemma classify_not_none: "classifyParseMessage msg \<noteq> Parse_None"
  by (simp add: classifyParseMessage_def)

lemma setParseError_fields:
  "p \<le> length src \<Longrightarrow> er_offset (setParseError src p msg code) = p
    \<and> er_message (setParseError src p msg code) = msg \<and> er_code (setParseError src p msg code) \<noteq> Parse_None
    \<and> (er_line (setParseError src p msg code), er_column (setParseError src p msg code))
      = coordinates (take p src) 1 1"
  by (auto simp: setParseError_def lineAndColumn_def classify_not_none split: prod.splits if_splits)

subsection \<open>Streams\<close>

lemma read_chunks_result:
  "length content \<le> m \<or> m = 0 \<Longrightarrow> read_chunks m bytes content =
    (if m \<noteq> 0 \<and> length (content @ bytes) > m then Inl (take m (content @ bytes)) else Inr (content @ bytes))"
proof (induction m bytes content rule: read_chunks.induct)
  case (1 m bytes content)
  let ?chunk = "take chunk_size bytes"
  show ?case
  proof (cases "bytes = []")
    case True
    with 1(2) show ?thesis by (auto simp: read_chunks.simps [of _ "[]"])
  next
    case False
    show ?thesis
    proof (cases "m \<noteq> 0 \<and> (length content > m \<or> length ?chunk > m - length content)")
      case True
      with 1(2) have m: "length content \<le> m" "m < length content + length ?chunk" by auto
      then have "m - length content \<le> chunk_size" by auto
      with m(1) have "take m (content @ bytes) = content @ take (m - length content) ?chunk"
        by (simp add: min_absorb1)
      moreover have "length (content @ bytes) > m" using m by simp
      ultimately show ?thesis using True False m(1)
        by (auto simp: read_chunks.simps [of m bytes content] Let_def)
    next
      case no: False
      then have "length (content @ ?chunk) \<le> m \<or> m = 0" using 1(2) by auto
      from 1(1) [OF False refl no this]
      have "read_chunks m (drop chunk_size bytes) (content @ ?chunk) =
          (if m \<noteq> 0 \<and> length (content @ bytes) > m then Inl (take m (content @ bytes)) else Inr (content @ bytes))"
        by (simp only: append_assoc append_take_drop_id)
      then show ?thesis
        by (subst read_chunks.simps) (simp only: False no Let_def if_False)
    qed
  qed
qed

lemma coordinates_truncated: "setParseError (take m src) m msg code = setParseError src m msg code"
  by (simp add: setParseError_def lineAndColumn_def min_def)

subsection \<open>A text that is no number\<close>

lemma minus_no_document: "\<not> jdocument ''-'' t"
proof
  assume "jdocument ''-'' t"
  then obtain a s b where s: "''-'' = a @ s @ b" "spaces a" "jvalue s t" "spaces b"
    unfolding jdocument_def by blast
  obtain x q where x: "s = x # q" using value_first [OF s(3)] .
  with s(1,2) have "a = []" by (cases a) auto
  with s x have "s = ''-''" by simp
  with s(3) have "\<exists>f. jnumber ''-'' f"
    by (cases rule: jvalue.cases) (auto simp: quoted_def)
  then obtain f where "jnumber ''-'' f" ..
  from text_number_complete [OF this, of "[]"] show False
    by (simp add: number_end_def text_number_def text_sign_def)
qed

lemma scan_minus:
  "scanJsonNumber (dom_scanner (initial_context ''-'' opts)) 0 = Some (Inl (Some msg_number_digit, 1))"
  by (simp add: scanJsonNumber_def scan_sign_def scan_take_def dom_scanner_def initial_context_def)

lemma parse_minus:
  assumes "po_maxInputBytes opts = 0 \<or> 1 \<le> po_maxInputBytes opts"
  shows "parser_parse uf opts ''-'' = (JNull, setParseError ''-'' 1 msg_number_digit Parse_None)"
proof -
  let ?c = "initial_context ''-'' opts"
  have "skip_peek ?c = (Some (CHR ''-''), ?c)"
    by (subst skip_peek.simps) (simp add: initial_context_def)
  moreover have "parseNumber uf ?c = ctx_fail ?c 1 msg_number_digit"
    using scan_minus [of opts] by (simp add: parseNumber_def initial_context_def)
  ultimately have "parseValue uf ?c = ctx_fail ?c 1 msg_number_digit"
    by (simp add: parseValue.simps [of uf ?c])
  moreover have "ctx_fail ?c 1 msg_number_digit
      = (Inl (?c\<lparr>c_failed := True, c_errPos := 1, c_errMsg := msg_number_digit\<rparr>) :: json parsed)"
    by (simp add: ctx_fail_def initial_context_def)
  ultimately show ?thesis using assms messages_nonempty
    by (auto simp: parser_parse_def parseTop_def)
qed

lemma classify_number_digit: "classifyParseMessage msg_number_digit = NumberRange"
  by (simp add: classifyParseMessage_def msg_number_digit_def)

lemma document_value: "jvalue s t \<Longrightarrow> jdocument s t"
  unfolding jdocument_def by (rule exI [of _ "[]"], rule exI [of _ s], rule exI [of _ "[]"]) simp

lemma parse_document:
  "jdocument src t \<Longrightarrow> within_limits opts t \<Longrightarrow> tree_value uf opts t = Some v \<Longrightarrow>
    po_maxInputBytes opts = 0 \<or> length src \<le> po_maxInputBytes opts \<Longrightarrow>
    parser_parse uf opts src = (v, resetParseError)"
  by (drule (2) value_complete, drule parse_success [THEN iffD2, OF conjI [OF refl conjI]])
    (auto dest: conjunct1)

lemma sample_document: "jdocument ''[true]'' (TArray [TBool True])"
proof -
  have "jelements ([] @ ''true'' @ []) [TBool True]" by (rule element_last) (simp_all add: value_true)
  then have "jvalue (CHR ''['' # ''true'' @ '']'') (TArray [TBool True])"
    using value_array by (simp only: append_Nil append_Nil2)
  then show ?thesis by (intro document_value) simp
qed

lemma parse_sample: "parser_parse uf default_parser_options ''[true]'' = (JArray [JBool True], resetParseError)"
  by (rule parse_document [OF sample_document])
    (simp_all add: within_limits_def default_parser_options_def clampParseDepth_def DepthHardLimit_def)

subsection \<open>The properties\<close>

text \<open>C20: The DOM parser accepts exactly the documents of the JSON grammar that stay within the
  input, depth and node limits and whose numbers and repeated names the policies allow, and
  returns the value the document stands for, together with the cleared error record.\<close>

theorem parse_refines_grammar:
  "parser_parse uf opts src = (v, er) \<and> er_ok er \<longleftrightarrow>
    er = resetParseError \<and> (po_maxInputBytes opts = 0 \<or> length src \<le> po_maxInputBytes opts)
    \<and> (\<exists>t. jdocument src t \<and> within_limits opts t \<and> tree_value uf opts t = Some v)"
  unfolding parse_success using value_sound value_complete by meson

text \<open>C21: A failed parse returns null and an error whose code is one of the failure codes, whose
  message is not empty, and whose offset lies in the input; line and column are those of the
  offset.\<close>

theorem parse_failure_located:
  assumes "parser_parse uf opts src = (v, er)" "\<not> er_ok er"
  shows "v = JNull \<and> er_code er \<noteq> Parse_None \<and> er_message er \<noteq> [] \<and> er_offset er \<le> length src
    \<and> (er_line er, er_column er) = coordinates (take (er_offset er) src) 1 1"
proof -
  from parse_failure_context [OF assms] obtain p msg code where
    "er = setParseError src p msg code" "p \<le> length src" "msg \<noteq> []" "v = JNull" by blast
  with setParseError_fields [of p src msg code] show ?thesis by simp
qed

theorem parse_failure_located_witness:
  "er_message (snd (parser_parse True default_parser_options ''-'')) \<noteq> []"
  using parse_failure_located [of True default_parser_options "''-''" JNull
      "setParseError ''-'' 1 msg_number_digit Parse_None"]
  by (simp add: parse_minus default_parser_options_def)

text \<open>C22: Whatever the input, the returned value has distinct names, well-formed UTF-8 strings and
  finite doubles, no more nodes than the node limit, and no more levels than the depth limit,
  which is at most 1024.\<close>

theorem parse_result_bounded:
  assumes "parser_parse uf opts src = (v, er)"
  shows "wf_json v \<and> textual v \<and> (po_maxNodes opts = 0 \<or> nodes v \<le> po_maxNodes opts)
    \<and> nesting v \<le> clampParseDepth (po_maxDepth opts) \<and> nesting v \<le> 1024"
proof (cases "er_ok er")
  case True
  with assms parse_refines_grammar [of uf opts src v er] obtain t where
    t: "jdocument src t" "within_limits opts t" "tree_value uf opts t = Some v" by blast
  from t(1) have "tree_textual t" unfolding jdocument_def using jvalue_textual(1) by blast
  with tree_value_within(1) [OF t(3)] t(2) show ?thesis
    by (auto simp: within_tree_def within_limits_def clampParseDepth_def DepthHardLimit_def
        split: if_splits)
next
  case False
  with assms parse_failure_context have "v = JNull" by blast
  then show ?thesis by auto
qed

theorem parse_result_bounded_witness:
  "wf_json (JArray [JBool True]) \<and> nesting (JArray [JBool True]) \<le> 1024"
  using parse_result_bounded [OF parse_sample] by simp

text \<open>C23: Parsing a stream gives the same value and the same error as parsing the bytes it
  delivers, the 8192-byte chunks and the early stop at the input limit included.\<close>

theorem parseStream_buffered:
  assumes "is_good input" "\<not> is_bad input"
  shows "parseStream uf input opts = parser_parse uf opts (is_bytes input)"
proof (cases "po_maxInputBytes opts \<noteq> 0 \<and> length (is_bytes input) > po_maxInputBytes opts")
  case True
  with assms show ?thesis
    by (simp add: parseStream_def read_chunks_result parser_parse_def parseTop_def coordinates_truncated)
next
  case False
  with assms show ?thesis
    by (auto simp: parseStream_def read_chunks_result parser_parse_def)
qed

theorem parseStream_buffered_witness:
  "parseStream True \<lparr>is_bytes = ''[true]'', is_good = True, is_bad = False\<rparr> default_parser_options
    = (JArray [JBool True], resetParseError)"
  using parseStream_buffered [of "\<lparr>is_bytes = ''[true]'', is_good = True, is_bad = False\<rparr>" True
      default_parser_options]
  by (simp add: parse_sample)

text \<open>A number that violates the grammar is reported with the code of numbers that are outside
  the representation policy: the text \<open>-\<close> is no JSON document, and its error is
  \<open>NumberRange\<close>, not \<open>Syntax\<close>.\<close>

lemma number_syntax_code:
  "\<not> jdocument ''-'' t \<and> parser_parse uf default_parser_options ''-''
    = (JNull, \<lparr>er_ok = False, er_code = NumberRange, er_offset = 1, er_line = 1, er_column = 2,
        er_message = msg_number_digit\<rparr>)"
proof
  have parse: "parser_parse uf default_parser_options ''-''
      = (JNull, setParseError ''-'' 1 msg_number_digit Parse_None)"
    by (simp add: parse_minus default_parser_options_def)
  then show "parser_parse uf default_parser_options ''-''
    = (JNull, \<lparr>er_ok = False, er_code = NumberRange, er_offset = 1, er_line = 1, er_column = 2,
        er_message = msg_number_digit\<rparr>)"
    by (simp add: setParseError_def classify_number_digit lineAndColumn_def)
  show "\<not> jdocument ''-'' t" by (rule minus_no_document)
qed

text \<open>C24: A code point that is a Unicode scalar value is written as a UTF-8 sequence that the
  validator accepts, at its full length, wherever it stands in a text.\<close>

theorem appendUtf8_validates:
  assumes "scalar_value cp"
  shows "utf8Len (appendUtf8 cp out @ r) (length out) (length (appendUtf8 cp out @ r))
    = length (appendUtf8 cp out) - length out"
proof -
  have "cp \<le> 0x10FFFF" using assms by (simp add: scalar_value_def)
  then have app: "appendUtf8 cp out = out @ utf8 cp" by (rule appendUtf8_utf8)
  let ?src = "out @ utf8 cp @ r"
  show ?thesis
  proof (cases "cp < 0x80")
    case True
    then have "utf8 cp = [char_of cp]" "byte (char_of cp) < 0x80" by (simp_all add: utf8_def)
    then show ?thesis using app by (simp add: utf8Len_def nth_append Let_def)
  next
    case False
    then obtain c cs where c: "utf8 cp = c # cs" "0x80 \<le> byte c"
      using utf8_first [OF assms] by auto
    have at: "length out < length ?src" "length ?src \<le> length ?src" "0x80 \<le> byte (?src ! length out)"
      using c by (simp_all add: nth_append)
    have "take (length (utf8 cp)) (drop (length out) ?src) = utf8 cp" by simp
    moreover have "length out + length (utf8 cp) \<le> length ?src" by simp
    moreover have "0x80 \<le> cp" using False by simp
    ultimately have "utf8Len ?src (length out) (length ?src) = length (utf8 cp)"
      using utf8Len_iff [OF at, of "length (utf8 cp)"] assms by blast
    then show ?thesis using app by simp
  qed
qed

theorem appendUtf8_validates_witness:
  "utf8Len (appendUtf8 0x20AC ''price '') (length ''price '') (length (appendUtf8 0x20AC ''price ''))
    = length (utf8 0x20AC)"
  using appendUtf8_validates [of "0x20AC" "''price ''" "[]"]
  by (simp add: scalar_value_def appendUtf8_utf8)

text \<open>C25: On a number token of less than a billion bytes \<open>parseDouble\<close> returns the correctly rounded
  double of the decimal it denotes, refuses it exactly when that is beyond the finite range, and
  flags exactly the nonzero decimals that became zero; so its verdict does not depend on whether
  the standard library sets \<open>failbit\<close> on underflow.\<close>

theorem parseDouble_correct:
  assumes "jnumber t f" "length t < 10 ^ 9"
  shows "parseDouble uf t =
    (if isfinite (token_double t)
     then Some (token_double t,
       digits_value 0 (significand_digits t) \<noteq> 0 \<and> double_eq (token_double t) double_zero)
     else None)"
proof -
  have "fst (token_ratio t) \<noteq> 0 \<longleftrightarrow> digits_value 0 (significand_digits t) \<noteq> 0"
    by (simp add: token_ratio_def Let_def)
  with parseDouble_exact [OF assms, of uf] show ?thesis by simp
qed

theorem parseDouble_correct_witness: "parseDouble True ''1e-400'' = parseDouble False ''1e-400''"
proof -
  have "number_exponent (CHR ''e'' # ''-'' @ ''400'')" unfolding number_exponent_def
    by (intro disjI2 exI conjI, rule refl)
      (simp_all add: is_exponent_mark_def exponent_sign_def digit_run_def is_digit_def less_eq_char_def)
  then have "jnumber ''1e-400'' True" unfolding jnumber_def
    by (intro exI [of _ "[]"] exI [of _ "''1''"] exI [of _ "''e-400''"])
      (simp add: number_sign_def canonical_decimal_def number_fraction_def is_digit_def less_eq_char_def)
  from parseDouble_correct [OF this, of True] parseDouble_correct [OF this, of False]
  show ?thesis by simp
qed

end
