(* ===== verification/Serialize_Sink.thy ===== *)
theory Serialize_Sink
  imports Json_Value Utf8
begin

section \<open>Serializer options, errors and sinks\<close>

text \<open>
  The serializer of \<open>pjson_serialize.cpp\<close> is a template over a sink: a string that throws when a
  limit is exceeded, a counter that only remembers that it failed, or an output stream. A sink is
  a record of its operations on a state; an exception is a value of the sum, a returned \<open>bool\<close> a
  component of the result.
\<close>

subsection \<open>Options and errors\<close>

datatype NonFinitePolicy = RejectNonFinite | NonFiniteToNull | NonFiniteToString

record SerializeOptions =
  so_pretty :: bool
  so_indentWidth :: nat
  so_indentCharacter :: char
  so_escapeNonAscii :: bool
  so_nonFinite :: NonFinitePolicy
  so_maxOutputBytes :: nat

definition default_serialize_options :: SerializeOptions where
  "default_serialize_options =
     \<lparr>so_pretty = False, so_indentWidth = 2, so_indentCharacter = CHR '' '',
      so_escapeNonAscii = False, so_nonFinite = RejectNonFinite,
      so_maxOutputBytes = 64 * 1024 * 1024\<rparr>"

definition prettyPrinted :: SerializeOptions where
  "prettyPrinted = default_serialize_options\<lparr>so_pretty := True\<rparr>"

datatype SerializeError_Code =
    Serialize_None | InvalidUtf8 | NonFiniteNumber | OutputLimit | Serialize_AllocationFailure
  | StreamFailure | InternalError

record SerializeError =
  se_code :: SerializeError_Code
  se_message :: string

definition resetSerializeError :: SerializeError where
  "resetSerializeError = \<lparr>se_code = Serialize_None, se_message = []\<rparr>"

definition setSerializeError :: "SerializeError_Code \<Rightarrow> string \<Rightarrow> SerializeError" where
  "setSerializeError code message = \<lparr>se_code = code, se_message = message\<rparr>"

subsection \<open>The protocol\<close>

type_synonym 's sunk = "cpp_exception + 's"
type_synonym 's answer = "cpp_exception + (bool \<times> 's)"

record 's sink =
  sk_put :: "char \<Rightarrow> 's \<Rightarrow> 's sunk"
  sk_write :: "string \<Rightarrow> 's \<Rightarrow> 's sunk"
  sk_repeat :: "char \<Rightarrow> nat \<Rightarrow> 's \<Rightarrow> 's answer"
  sk_fail :: "'s \<Rightarrow> 's answer"
  sk_invalidUtf8 :: "'s \<Rightarrow> 's answer"
  sk_invalidNumber :: "'s \<Rightarrow> 's answer"
  sk_ok :: "'s \<Rightarrow> bool"

text \<open>Go on while the answer is \<open>true\<close>.\<close>

fun proceed :: "'s answer \<Rightarrow> ('s \<Rightarrow> 's answer) \<Rightarrow> 's answer" where
  "proceed (Inl e) f = Inl e"
| "proceed (Inr (b, s)) f = (if b then f s else Inr (False, s))"

lemma proceed_cong [fundef_cong]:
  "m = m' \<Longrightarrow> (\<And>s. m' = Inr (True, s) \<Longrightarrow> f s = g s) \<Longrightarrow> proceed m f = proceed m' g"
  by (cases "(m', f)" rule: proceed.cases) auto

text \<open>The state of the sink as the answer.\<close>

definition checked :: "'s sink \<Rightarrow> 's sunk \<Rightarrow> 's answer" where
  "checked sk m = try_bind m (\<lambda>s. Inr (sk_ok sk s, s))"

subsection \<open>A string\<close>

record StringSink =
  ss_out :: string
  ss_limit :: nat
  ss_written :: nat

definition msg_output_limit :: string where
  "msg_output_limit = ''JSON output exceeds maxOutputBytes''"
definition msg_indentation :: string where
  "msg_indentation = ''JSON indentation exceeds string limits''"
definition msg_utf8 :: string where
  "msg_utf8 = ''JSON string contains invalid UTF-8''"
definition msg_not_finite :: string where
  "msg_not_finite = ''JSON number is not finite''"

definition string_account :: "nat \<Rightarrow> StringSink \<Rightarrow> StringSink sunk" where
  "string_account amount s =
     (if ss_limit s \<noteq> 0 \<and> amount > ss_limit s - min (ss_written s) (ss_limit s)
      then Inl (length_error msg_output_limit)
      else Inr (s\<lparr>ss_written := ss_written s + amount\<rparr>))"

definition string_append :: "string \<Rightarrow> StringSink \<Rightarrow> StringSink" where
  "string_append x s = s\<lparr>ss_out := ss_out s @ x\<rparr>"

definition string_sink :: "StringSink sink" where
  "string_sink =
     \<lparr>sk_put = (\<lambda>ch s. try_bind (string_account 1 s) (\<lambda>s. Inr (string_append [ch] s))),
      sk_write = (\<lambda>x s. try_bind (string_account (length x) s) (\<lambda>s. Inr (string_append x s))),
      sk_repeat = (\<lambda>ch n s.
        try_bind (string_account n s) (\<lambda>s. Inr (True, string_append (replicate n ch) s))),
      sk_fail = (\<lambda>s. Inl (length_error msg_indentation)),
      sk_invalidUtf8 = (\<lambda>s. Inl (invalid_argument msg_utf8)),
      sk_invalidNumber = (\<lambda>s. Inl (invalid_argument msg_not_finite)),
      sk_ok = (\<lambda>s. True)\<rparr>"

subsection \<open>A counter\<close>

record CountingSink =
  cs_limit :: nat
  cs_written :: nat
  cs_valid :: bool
  cs_invalidUtf8 :: bool
  cs_invalidNumber :: bool

definition counting_account :: "nat \<Rightarrow> CountingSink \<Rightarrow> bool \<times> CountingSink" where
  "counting_account amount s =
     (if \<not> cs_valid s then (False, s)
      else if amount > size_max - cs_written s
        \<or> cs_limit s \<noteq> 0 \<and> amount > cs_limit s - min (cs_written s) (cs_limit s)
      then (False, s\<lparr>cs_valid := False\<rparr>)
      else (True, s\<lparr>cs_written := cs_written s + amount\<rparr>))"

definition counting_fail :: "CountingSink \<Rightarrow> bool \<times> CountingSink" where
  "counting_fail s = (False, s\<lparr>cs_valid := False\<rparr>)"

definition counting_sink :: "CountingSink sink" where
  "counting_sink =
     \<lparr>sk_put = (\<lambda>ch s. Inr (snd (counting_account 1 s))),
      sk_write = (\<lambda>x s. Inr (snd (counting_account (length x) s))),
      sk_repeat = (\<lambda>ch n s. Inr (counting_account n s)),
      sk_fail = (\<lambda>s. Inr (counting_fail s)),
      sk_invalidUtf8 = (\<lambda>s. Inr (counting_fail (s\<lparr>cs_invalidUtf8 := True\<rparr>))),
      sk_invalidNumber = (\<lambda>s. Inr (counting_fail (s\<lparr>cs_invalidNumber := True\<rparr>))),
      sk_ok = cs_valid\<rparr>"

definition new_counting_sink :: "nat \<Rightarrow> CountingSink" where
  "new_counting_sink limit =
     \<lparr>cs_limit = limit, cs_written = 0, cs_valid = True, cs_invalidUtf8 = False,
      cs_invalidNumber = False\<rparr>"

subsection \<open>An output stream\<close>

text \<open>
  A stream that does not throw: the bytes delivered, how many more its destination takes
  (\<^const>\<open>None\<close> is no limit), and whether \<open>failbit\<close> or \<open>badbit\<close> is set. A failed stream ignores
  output; a write that does not fit delivers what fits and fails.
\<close>

record ostream =
  os_bytes :: string
  os_room :: "nat option"
  os_failed :: bool

definition ostream_write :: "string \<Rightarrow> ostream \<Rightarrow> ostream" where
  "ostream_write x out =
     (if os_failed out then out
      else
        case os_room out of
          None \<Rightarrow> out\<lparr>os_bytes := os_bytes out @ x\<rparr>
        | Some n \<Rightarrow>
            out\<lparr>os_bytes := os_bytes out @ take n x, os_room := Some (n - length x),
              os_failed := n < length x\<rparr>)"

definition setstate_fail :: "ostream \<Rightarrow> ostream" where
  "setstate_fail out = out\<lparr>os_failed := True\<rparr>"

record StreamSink =
  st_out :: ostream
  st_limit :: nat
  st_written :: nat

definition streamsize_max :: nat where "streamsize_max = 9223372036854775807"

definition stream_fail :: "StreamSink \<Rightarrow> bool \<times> StreamSink" where
  "stream_fail s = (False, s\<lparr>st_out := setstate_fail (st_out s)\<rparr>)"

definition stream_account :: "nat \<Rightarrow> StreamSink \<Rightarrow> bool \<times> StreamSink" where
  "stream_account amount s =
     (if st_limit s \<noteq> 0 \<and> amount > st_limit s - min (st_written s) (st_limit s)
      then stream_fail s
      else (True, s\<lparr>st_written := st_written s + amount\<rparr>))"

definition stream_emit :: "string \<Rightarrow> StreamSink \<Rightarrow> StreamSink" where
  "stream_emit x s = s\<lparr>st_out := ostream_write x (st_out s)\<rparr>"

definition stream_put :: "char \<Rightarrow> StreamSink \<Rightarrow> StreamSink" where
  "stream_put ch s =
     (case stream_account 1 s of (b, s) \<Rightarrow> if b then stream_emit [ch] s else s)"

definition stream_write :: "string \<Rightarrow> StreamSink \<Rightarrow> StreamSink" where
  "stream_write x s =
     (if length x > streamsize_max then snd (stream_fail s)
      else case stream_account (length x) s of (b, s) \<Rightarrow> if b then stream_emit x s else s)"

text \<open>Indentation in blocks of 256 bytes.\<close>

function stream_blocks :: "char \<Rightarrow> nat \<Rightarrow> StreamSink \<Rightarrow> StreamSink" where
  "stream_blocks ch n s =
     (if n \<noteq> 0 \<and> \<not> os_failed (st_out s)
      then stream_blocks ch (n - min n 256) (stream_emit (replicate (min n 256) ch) s)
      else s)"
  by pat_completeness auto
termination by (relation "measure (\<lambda>(ch, n, s). n)") auto

declare stream_blocks.simps [simp del]

definition stream_repeat :: "char \<Rightarrow> nat \<Rightarrow> StreamSink \<Rightarrow> bool \<times> StreamSink" where
  "stream_repeat ch n s =
     (if n > streamsize_max then stream_fail s
      else case stream_account n s of
        (False, s1) \<Rightarrow> stream_fail s1
      | (True, s1) \<Rightarrow>
          let s2 = stream_blocks ch n s1 in (\<not> os_failed (st_out s2), s2))"

definition stream_sink :: "StreamSink sink" where
  "stream_sink =
     \<lparr>sk_put = (\<lambda>ch s. Inr (stream_put ch s)),
      sk_write = (\<lambda>x s. Inr (stream_write x s)),
      sk_repeat = (\<lambda>ch n s. Inr (stream_repeat ch n s)),
      sk_fail = (\<lambda>s. Inr (stream_fail s)),
      sk_invalidUtf8 = (\<lambda>s. Inr (stream_fail s)),
      sk_invalidNumber = (\<lambda>s. Inr (stream_fail s)),
      sk_ok = (\<lambda>s. \<not> os_failed (st_out s))\<rparr>"

end
