(* ===== verification/Serializer.thy ===== *)
theory Serializer
  imports Serialize_Sink Decimal
begin

section \<open>The serializer\<close>

text \<open>
  \<open>pjson_serialize.cpp\<close> over any sink: the formatting of doubles, escaped strings, scalars and
  the iterative traversal with a stack of frames, then the public functions. The shortest decimal
  of a double is the vendored Ryu library's \<open>d2s_buffered_n\<close>; its text is the parameter \<open>d2s\<close>.
\<close>

subsection \<open>Doubles\<close>

definition is_float_mark :: "char \<Rightarrow> bool" where
  "is_float_mark c \<longleftrightarrow> c = CHR ''.'' \<or> c = CHR ''e'' \<or> c = CHR ''E''"

definition exponent_value :: "string \<Rightarrow> int" where
  "exponent_value x =
     (let negative = (x \<noteq> [] \<and> hd x = CHR ''-'');
          digits = (if x \<noteq> [] \<and> (hd x = CHR ''+'' \<or> hd x = CHR ''-'') then tl x else x);
          v = fold (\<lambda>c v. v * 10 + (int (of_char c) - 48)) digits 0
      in if negative then - v else v)"

text \<open>The digits with the point moved to its place.\<close>

definition place_point :: "string \<Rightarrow> int \<Rightarrow> string" where
  "place_point digits decimalPosition =
     (if decimalPosition \<le> 0 then
        ''0.'' @ replicate (nat (- decimalPosition)) (CHR ''0'') @ digits
      else if nat decimalPosition \<ge> length digits then
        digits @ replicate (nat decimalPosition - length digits) (CHR ''0'')
      else take (nat decimalPosition) digits @ CHR ''.'' # drop (nat decimalPosition) digits)"

definition plain_notation :: "string \<Rightarrow> string" where
  "plain_notation text =
     (let mantissa = takeWhile (\<lambda>c. c \<noteq> CHR ''e'') text;
          exponentValue = exponent_value (tl (dropWhile (\<lambda>c. c \<noteq> CHR ''e'') text))
      in if CHR ''e'' \<in> set text \<and> - 4 \<le> exponentValue \<and> exponentValue < 15 then
           (let negative = (text \<noteq> [] \<and> hd text = CHR ''-'');
                digits = remove1 (CHR ''.'') (if negative then tl mantissa else mantissa);
                plain = place_point digits (1 + exponentValue)
            in if negative then CHR ''-'' # plain else plain)
         else text)"

definition formatDouble :: "(double \<Rightarrow> string) \<Rightarrow> double \<Rightarrow> string" where
  "formatDouble d2s d =
     (if \<not> isfinite d then ''null''
      else
        let result = plain_notation (map (\<lambda>c. if c = CHR ''E'' then CHR ''e'' else c) (d2s d))
        in if list_ex is_float_mark result then result else result @ ''.0'')"

subsection \<open>Strings\<close>

definition writeIndent :: "'s sink \<Rightarrow> SerializeOptions \<Rightarrow> nat \<Rightarrow> 's \<Rightarrow> 's answer" where
  "writeIndent sk opts depth s =
     (let indent = (if so_indentCharacter opts = char_tab then char_tab else CHR '' '')
      in if so_indentWidth opts \<noteq> 0 \<and> depth > size_max div so_indentWidth opts then sk_fail sk s
         else sk_repeat sk indent (depth * so_indentWidth opts) s)"

definition hex_char :: "nat \<Rightarrow> char" where
  "hex_char n = ''0123456789abcdef'' ! n"

definition unicode_escape :: "nat \<Rightarrow> string" where
  "unicode_escape u =
     [backslash, CHR ''u'', hex_char (drop_bit 12 u AND 0x0F), hex_char (drop_bit 8 u AND 0x0F),
      hex_char (drop_bit 4 u AND 0x0F), hex_char (u AND 0x0F)]"

definition writeUnicodeEscape :: "'s sink \<Rightarrow> nat \<Rightarrow> 's \<Rightarrow> 's answer" where
  "writeUnicodeEscape sk u s = checked sk (sk_write sk (unicode_escape u) s)"

definition output_escape :: "char \<Rightarrow> char option" where
  "output_escape ch =
     (if ch = dquote then Some dquote
      else if ch = backslash then Some backslash
      else if ch = char_bs then Some (CHR ''b'')
      else if ch = char_ff then Some (CHR ''f'')
      else if ch = char_lf then Some (CHR ''n'')
      else if ch = char_cr then Some (CHR ''r'')
      else if ch = char_tab then Some (CHR ''t'')
      else None)"

text \<open>The code point of a validated sequence of \<open>n\<close> bytes.\<close>

definition code_point :: "string \<Rightarrow> nat" where
  "code_point bytes =
     fold (\<lambda>ck cp. push_bit 6 cp OR (byte ck AND 0x3F)) (tl bytes)
       (byte (hd bytes) AND
         (if length bytes = 2 then 0x1F else if length bytes = 3 then 0x0F else 0x07))"

definition write_code_point :: "'s sink \<Rightarrow> nat \<Rightarrow> 's \<Rightarrow> 's answer" where
  "write_code_point sk cp s =
     (if cp \<le> 0xFFFF then writeUnicodeEscape sk cp s
      else
        let c = cp - 0x10000
        in proceed (writeUnicodeEscape sk (0xD800 + drop_bit 10 c) s) (\<lambda>s.
             writeUnicodeEscape sk (0xDC00 + (c AND 0x3FF)) s))"

text \<open>One character of a string: the bytes it takes and what it writes.\<close>

definition write_char :: "'s sink \<Rightarrow> bool \<Rightarrow> string \<Rightarrow> nat \<Rightarrow> 's \<Rightarrow> nat \<times> 's answer" where
  "write_char sk escapeNonAscii src i s =
     (let ch = src ! i
      in case output_escape ch of
           Some e \<Rightarrow> (1, checked sk (sk_write sk [backslash, e] s))
         | None \<Rightarrow>
             if byte ch < 0x20 then (1, writeUnicodeEscape sk (byte ch) s)
             else if byte ch < 0x80 then (1, checked sk (sk_put sk ch s))
             else
               let n = utf8Len src i (length src)
               in if n = 0 then (0, sk_invalidUtf8 sk s)
                  else if \<not> escapeNonAscii then
                    (n, checked sk (sk_write sk (take n (drop i src)) s))
                  else (n, write_code_point sk (code_point (take n (drop i src))) s))"

text \<open>\<open>invalidUtf8\<close> ends the loop whatever it answers.\<close>

function writeEscapedTo :: "'s sink \<Rightarrow> bool \<Rightarrow> string \<Rightarrow> nat \<Rightarrow> 's \<Rightarrow> 's answer" where
  "writeEscapedTo sk escapeNonAscii src i s =
     (if i < length src then
        (case write_char sk escapeNonAscii src i s of
           (n, r) \<Rightarrow>
             if n = 0 then r
             else proceed r (\<lambda>s. writeEscapedTo sk escapeNonAscii src (i + n) s))
      else Inr (sk_ok sk s, s))"
  by pat_completeness auto
termination by (relation "measure (\<lambda>(sk, e, src, i, s). length src - i)") auto

declare writeEscapedTo.simps [simp del]

subsection \<open>Values\<close>

record SerializeFrame =
  fr_isObject :: bool
  fr_depth :: nat
  fr_first :: bool
  fr_array :: "json list"
  fr_arrayIndex :: nat
  fr_object :: members
  fr_objectIt :: nat

text \<open>What is emitted at once; \<^const>\<open>None\<close> is a non-empty container.\<close>

definition emit_double :: "(double \<Rightarrow> string) \<Rightarrow> 's sink \<Rightarrow> SerializeOptions \<Rightarrow> double \<Rightarrow> 's \<Rightarrow> 's answer" where
  "emit_double d2s sk opts d s =
     (if \<not> isfinite d then
        (case so_nonFinite opts of
           RejectNonFinite \<Rightarrow> sk_invalidNumber sk s
         | NonFiniteToNull \<Rightarrow> checked sk (sk_write sk ''null'' s)
         | NonFiniteToString \<Rightarrow>
             checked sk (sk_write sk
               (if isnan d then dquote # ''NaN'' @ [dquote]
                else if double_less d double_zero then dquote # ''-Infinity'' @ [dquote]
                else dquote # ''Infinity'' @ [dquote]) s))
      else checked sk (sk_write sk (formatDouble d2s d) s))"

definition emit_string :: "'s sink \<Rightarrow> SerializeOptions \<Rightarrow> string \<Rightarrow> 's \<Rightarrow> 's answer" where
  "emit_string sk opts x s =
     proceed (checked sk (sk_put sk dquote s)) (\<lambda>s.
     proceed (writeEscapedTo sk (so_escapeNonAscii opts) x 0 s) (\<lambda>s.
       checked sk (sk_put sk dquote s)))"

fun emit_scalar :: "(double \<Rightarrow> string) \<Rightarrow> 's sink \<Rightarrow> SerializeOptions \<Rightarrow> json \<Rightarrow> 's \<Rightarrow> 's answer option" where
  "emit_scalar d2s sk opts JNull s = Some (checked sk (sk_write sk ''null'' s))"
| "emit_scalar d2s sk opts (JString x) s = Some (emit_string sk opts x s)"
| "emit_scalar d2s sk opts (JInt i) s = Some (checked sk (sk_write sk (decimal_int (sint i)) s))"
| "emit_scalar d2s sk opts (JUInt u) s = Some (checked sk (sk_write sk (decimal (unat u)) s))"
| "emit_scalar d2s sk opts (JDouble d) s = Some (emit_double d2s sk opts d s)"
| "emit_scalar d2s sk opts (JBool b) s =
     Some (checked sk (sk_write sk (if b then ''true'' else ''false'') s))"
| "emit_scalar d2s sk opts (JArray xs) s =
     (if xs = [] then Some (checked sk (sk_write sk ''[]'' s)) else None)"
| "emit_scalar d2s sk opts (JObject ms) s =
     (if ms = [] then Some (checked sk (sk_write sk ''{}'' s)) else None)"

definition new_frame :: "json \<Rightarrow> nat \<Rightarrow> SerializeFrame" where
  "new_frame v depth =
     \<lparr>fr_isObject = isObject v, fr_depth = depth, fr_first = True,
      fr_array = (case v of JArray xs \<Rightarrow> xs | _ \<Rightarrow> []), fr_arrayIndex = 0,
      fr_object = (case v of JObject ms \<Rightarrow> ms | _ \<Rightarrow> []), fr_objectIt = 0\<rparr>"

text \<open>The answer and the stack of frames; the last frame of the code's vector is the head.\<close>

type_synonym 's opened = "cpp_exception + (bool \<times> SerializeFrame list \<times> 's)"

definition with_frames :: "SerializeFrame list \<Rightarrow> 's answer \<Rightarrow> 's opened" where
  "with_frames frames m = try_bind m (\<lambda>(b, s). Inr (b, frames, s))"

definition openOrEmit ::
    "(double \<Rightarrow> string) \<Rightarrow> 's sink \<Rightarrow> SerializeOptions \<Rightarrow> json \<Rightarrow> nat \<Rightarrow> SerializeFrame list \<Rightarrow> 's \<Rightarrow> 's opened" where
  "openOrEmit d2s sk opts v depth frames s =
     (case emit_scalar d2s sk opts v s of
        Some r \<Rightarrow> with_frames frames r
      | None \<Rightarrow>
          try_bind (sk_put sk (if isObject v then CHR ''{'' else CHR ''['') s) (\<lambda>s.
            Inr (if \<not> sk_ok sk s then (False, frames, s)
                 else (True, new_frame v depth # frames, s))))"

text \<open>The next child of a frame, with its name in an object.\<close>

definition next_child :: "SerializeFrame \<Rightarrow> (string option \<times> json) option" where
  "next_child f =
     (if fr_isObject f then
        (if fr_objectIt f < length (fr_object f)
         then (case fr_object f ! fr_objectIt f of (k, v) \<Rightarrow> Some (Some k, v)) else None)
      else
        (if fr_arrayIndex f < length (fr_array f)
         then Some (None, fr_array f ! fr_arrayIndex f) else None))"

definition advance_frame :: "SerializeFrame \<Rightarrow> SerializeFrame" where
  "advance_frame f =
     (if fr_isObject f then f\<lparr>fr_first := False, fr_objectIt := Suc (fr_objectIt f)\<rparr>
      else f\<lparr>fr_first := False, fr_arrayIndex := Suc (fr_arrayIndex f)\<rparr>)"

text \<open>The line break and the indentation of pretty output; otherwise nothing is checked here.\<close>

definition write_newline :: "'s sink \<Rightarrow> SerializeOptions \<Rightarrow> nat \<Rightarrow> 's \<Rightarrow> 's answer" where
  "write_newline sk opts depth s =
     (if so_pretty opts then
        try_bind (sk_put sk char_lf s) (\<lambda>s. writeIndent sk opts depth s)
      else Inr (True, s))"

definition write_key :: "'s sink \<Rightarrow> SerializeOptions \<Rightarrow> string option \<Rightarrow> 's \<Rightarrow> 's answer" where
  "write_key sk opts key s =
     (case key of
        None \<Rightarrow> Inr (True, s)
      | Some k \<Rightarrow>
          proceed (checked sk (sk_put sk dquote s)) (\<lambda>s.
          proceed (writeEscapedTo sk (so_escapeNonAscii opts) k 0 s) (\<lambda>s.
            try_bind (sk_write sk (if so_pretty opts then dquote # '': '' else dquote # '':'') s) (\<lambda>s.
              Inr (True, s)))))"

text \<open>Everything in front of a child, up to the check of the sink.\<close>

definition before_child :: "'s sink \<Rightarrow> SerializeOptions \<Rightarrow> SerializeFrame \<Rightarrow> string option \<Rightarrow> 's \<Rightarrow> 's answer" where
  "before_child sk opts f key s =
     try_bind (if fr_first f then Inr s else sk_put sk (CHR '','') s) (\<lambda>s.
     proceed (write_newline sk opts (Suc (fr_depth f)) s) (\<lambda>s.
     proceed (write_key sk opts key s) (\<lambda>s. Inr (sk_ok sk s, s))))"

definition close_frame :: "'s sink \<Rightarrow> SerializeOptions \<Rightarrow> SerializeFrame \<Rightarrow> 's \<Rightarrow> 's answer" where
  "close_frame sk opts f s =
     proceed (write_newline sk opts (fr_depth f) s) (\<lambda>s.
       checked sk (sk_put sk (if fr_isObject f then CHR ''}'' else CHR '']'') s))"

subsection \<open>The traversal\<close>

text \<open>What a frame still has to emit, in nodes; every step of the loop consumes some of it.\<close>

definition frame_rest :: "SerializeFrame \<Rightarrow> json list" where
  "frame_rest f =
     (if fr_isObject f then map snd (drop (fr_objectIt f) (fr_object f))
      else drop (fr_arrayIndex f) (fr_array f))"

definition frame_weight :: "SerializeFrame \<Rightarrow> nat" where
  "frame_weight f = Suc (2 * sum_list (map nodes (frame_rest f)))"

definition stack_weight :: "SerializeFrame list \<Rightarrow> nat" where
  "stack_weight fs = sum_list (map frame_weight fs)"

lemma next_child_rest:
  "next_child f = Some (k, v) \<Longrightarrow> frame_rest f = v # frame_rest (advance_frame f)"
  by (auto simp: next_child_def frame_rest_def advance_frame_def Cons_nth_drop_Suc [symmetric]
      split: if_splits prod.splits)

lemma next_child_none: "next_child f = None \<longleftrightarrow> frame_rest f = []"
  by (auto simp: next_child_def frame_rest_def split: prod.splits)

lemma new_frame_weight: "emit_scalar d2s sk opts v s = None \<Longrightarrow> frame_weight (new_frame v depth) < 2 * nodes v"
  by (cases v) (auto simp: frame_weight_def frame_rest_def new_frame_def isObject_def comp_def split: if_splits)

lemma openOrEmit_weight:
  "openOrEmit d2s sk opts v depth frames s = Inr (b, frames', s') \<Longrightarrow>
    stack_weight frames' < stack_weight frames + 2 * nodes v"
  using new_frame_weight [of d2s sk opts v s depth]
  by (auto simp: openOrEmit_def with_frames_def stack_weight_def split: option.splits if_splits)

function write_frames ::
    "(double \<Rightarrow> string) \<Rightarrow> 's sink \<Rightarrow> SerializeOptions \<Rightarrow> SerializeFrame list \<Rightarrow> 's \<Rightarrow> 's answer" where
  "write_frames d2s sk opts [] s = Inr (sk_ok sk s, s)"
| "write_frames d2s sk opts (f # fs) s =
     (case next_child f of
        None \<Rightarrow> proceed (close_frame sk opts f s) (write_frames d2s sk opts fs)
      | Some (key, child) \<Rightarrow>
          proceed (before_child sk opts f key s) (\<lambda>s.
            case openOrEmit d2s sk opts child (Suc (fr_depth f)) (advance_frame f # fs) s of
              Inl e \<Rightarrow> Inl e
            | Inr (b, frames, s) \<Rightarrow>
                if b then write_frames d2s sk opts frames s else Inr (False, s)))"
  by pat_completeness auto
termination
proof (relation "measure (\<lambda>(d2s, sk, opts, fs, s). stack_weight fs)", goal_cases)
  case (2 d2s sk opts f fs s sa)
  then show ?case by (simp add: stack_weight_def frame_weight_def)
next
  case (3 d2s sk opts f fs s p key child sa r q b frames s')
  then have "stack_weight frames < stack_weight (advance_frame f # fs) + 2 * nodes child"
    using openOrEmit_weight by (metis prod.collapse)
  moreover have "frame_rest f = child # frame_rest (advance_frame f)" using 3 next_child_rest by metis
  ultimately show ?case by (simp add: stack_weight_def frame_weight_def)
qed simp

declare write_frames.simps [simp del]

definition writeValueTo :: "(double \<Rightarrow> string) \<Rightarrow> 's sink \<Rightarrow> SerializeOptions \<Rightarrow> json \<Rightarrow> 's \<Rightarrow> 's answer" where
  "writeValueTo d2s sk opts v s =
     (case openOrEmit d2s sk opts v 0 [] s of
        Inl e \<Rightarrow> Inl e
      | Inr (b, frames, s) \<Rightarrow> if b then write_frames d2s sk opts frames s else Inr (False, s))"

subsection \<open>Public functions\<close>

definition msg_toString_limit :: string where
  "msg_toString_limit = ''JSON output exceeds maxOutputBytes or contains invalid data''"
definition msg_size_limit :: string where
  "msg_size_limit = ''JSON output exceeds maxOutputBytes or representable size''"
definition msg_serialize_memory :: string where
  "msg_serialize_memory = ''JSON serialization ran out of memory''"
definition msg_serialize_internal :: string where
  "msg_serialize_internal = ''JSON serialization failed with an internal exception''"
definition msg_stream_write :: string where
  "msg_stream_write = ''JSON destination stream write failed''"

definition appendValue :: "(double \<Rightarrow> string) \<Rightarrow> string \<Rightarrow> json \<Rightarrow> SerializeOptions \<Rightarrow> cpp_exception + string" where
  "appendValue d2s out v opts =
     try_bind (writeValueTo d2s string_sink opts v
         \<lparr>ss_out = out, ss_limit = so_maxOutputBytes opts, ss_written = 0\<rparr>) (\<lambda>(b, s).
       Inr (ss_out s))"

definition count_value :: "(double \<Rightarrow> string) \<Rightarrow> json \<Rightarrow> SerializeOptions \<Rightarrow> CountingSink answer" where
  "count_value d2s v opts =
     writeValueTo d2s counting_sink opts v (new_counting_sink (so_maxOutputBytes opts))"

definition toString_with :: "(double \<Rightarrow> string) \<Rightarrow> json \<Rightarrow> SerializeOptions \<Rightarrow> cpp_exception + string" where
  "toString_with d2s v opts =
     try_bind (count_value d2s v opts) (\<lambda>(b, count).
       if \<not> b then
         Inl (if cs_invalidUtf8 count then invalid_argument msg_utf8
              else if cs_invalidNumber count then invalid_argument msg_not_finite
              else length_error msg_toString_limit)
       else appendValue d2s [] v opts)"

definition toString :: "(double \<Rightarrow> string) \<Rightarrow> json \<Rightarrow> cpp_exception + string" where
  "toString d2s v = toString_with d2s v default_serialize_options"

text \<open>The error of a failed preflight.\<close>

definition preflight_error :: "CountingSink \<Rightarrow> SerializeError" where
  "preflight_error count =
     (if cs_invalidUtf8 count then setSerializeError InvalidUtf8 msg_utf8
      else if cs_invalidNumber count then setSerializeError NonFiniteNumber msg_not_finite
      else setSerializeError OutputLimit msg_size_limit)"

definition toString_caught :: "cpp_exception \<Rightarrow> SerializeError" where
  "toString_caught e =
     (case e of
        bad_alloc \<Rightarrow> setSerializeError Serialize_AllocationFailure msg_serialize_memory
      | length_error m \<Rightarrow> setSerializeError OutputLimit m
      | invalid_argument m \<Rightarrow> setSerializeError InternalError m
      | _ \<Rightarrow> setSerializeError InternalError msg_serialize_internal)"

text \<open>The answer, the caller's string and the error.\<close>

definition toString_into ::
    "(double \<Rightarrow> string) \<Rightarrow> json \<Rightarrow> string \<Rightarrow> SerializeOptions \<Rightarrow> bool \<times> string \<times> SerializeError" where
  "toString_into d2s v out opts =
     (case count_value d2s v opts of
        Inl e \<Rightarrow> (False, out, toString_caught e)
      | Inr (False, count) \<Rightarrow> (False, out, preflight_error count)
      | Inr (True, count) \<Rightarrow>
          (case appendValue d2s [] v opts of
             Inl e \<Rightarrow> (False, out, toString_caught e)
           | Inr result \<Rightarrow> (True, result, resetSerializeError)))"

definition new_stream_sink :: "ostream \<Rightarrow> StreamSink" where
  "new_stream_sink out = \<lparr>st_out = out, st_limit = 0, st_written = 0\<rparr>"

definition writeValue :: "(double \<Rightarrow> string) \<Rightarrow> ostream \<Rightarrow> json \<Rightarrow> SerializeOptions \<Rightarrow> cpp_exception + (bool \<times> ostream)" where
  "writeValue d2s out v opts =
     try_bind (count_value d2s v opts) (\<lambda>(b, count).
       if \<not> b then Inr (False, setstate_fail out)
       else try_bind (writeValueTo d2s stream_sink opts v (new_stream_sink out)) (\<lambda>(b, s).
         Inr (b, st_out s)))"

definition write_with :: "(double \<Rightarrow> string) \<Rightarrow> json \<Rightarrow> ostream \<Rightarrow> SerializeOptions \<Rightarrow> cpp_exception + ostream" where
  "write_with d2s v out opts = try_bind (writeValue d2s out v opts) (\<lambda>(b, out). Inr out)"

definition write_default :: "(double \<Rightarrow> string) \<Rightarrow> json \<Rightarrow> ostream \<Rightarrow> cpp_exception + ostream" where
  "write_default d2s v out = write_with d2s v out default_serialize_options"

definition write_caught :: "cpp_exception \<Rightarrow> SerializeError" where
  "write_caught e =
     (case e of
        bad_alloc \<Rightarrow> setSerializeError Serialize_AllocationFailure msg_serialize_memory
      | _ \<Rightarrow> setSerializeError InternalError msg_serialize_internal)"

definition write_into ::
    "(double \<Rightarrow> string) \<Rightarrow> json \<Rightarrow> ostream \<Rightarrow> SerializeOptions \<Rightarrow> bool \<times> ostream \<times> SerializeError" where
  "write_into d2s v out opts =
     (case count_value d2s v opts of
        Inl e \<Rightarrow> (False, setstate_fail out, write_caught e)
      | Inr (False, count) \<Rightarrow> (False, setstate_fail out, preflight_error count)
      | Inr (True, count) \<Rightarrow>
          (case writeValueTo d2s stream_sink opts v (new_stream_sink out) of
             Inl e \<Rightarrow> (False, setstate_fail out, write_caught e)
           | Inr (False, s) \<Rightarrow> (False, st_out s, setSerializeError StreamFailure msg_stream_write)
           | Inr (True, s) \<Rightarrow> (True, st_out s, resetSerializeError)))"

end
