(* ===== verification/Serialize_Render.thy ===== *)
theory Serialize_Render
  imports Serializer
begin

section \<open>What the serializer writes\<close>

text \<open>
  The reference: the emissions of a value, by recursion on it, as one list of texts and failures
  in order. A sink that keeps the laws of \<open>sink_laws\<close> ends, after the code's iterative traversal,
  as after these emissions: the checks the code leaves out between two writes make no difference.
  The three sinks of the code keep the laws.
\<close>

subsection \<open>Emissions\<close>

datatype emission = Emit string | EmitFail | EmitInvalidUtf8 | EmitInvalidNumber

definition code_point_texts :: "nat \<Rightarrow> string list" where
  "code_point_texts cp =
     (if cp \<le> 0xFFFF then [unicode_escape cp]
      else [unicode_escape (0xD800 + drop_bit 10 (cp - 0x10000)),
        unicode_escape (0xDC00 + ((cp - 0x10000) AND 0x3FF))])"

definition char_emissions :: "bool \<Rightarrow> string \<Rightarrow> nat \<Rightarrow> nat \<times> emission list" where
  "char_emissions escapeNonAscii src i =
     (let ch = src ! i
      in case output_escape ch of
           Some e \<Rightarrow> (1, [Emit [backslash, e]])
         | None \<Rightarrow>
             if byte ch < 0x20 then (1, [Emit (unicode_escape (byte ch))])
             else if byte ch < 0x80 then (1, [Emit [ch]])
             else
               let n = utf8Len src i (length src); x = take n (drop i src)
               in if n = 0 then (0, [EmitInvalidUtf8])
                  else if \<not> escapeNonAscii then (n, [Emit x])
                  else (n, map Emit (code_point_texts (code_point x))))"

function string_emissions :: "bool \<Rightarrow> string \<Rightarrow> nat \<Rightarrow> emission list" where
  "string_emissions escapeNonAscii src i =
     (if i < length src then
        (case char_emissions escapeNonAscii src i of
           (n, es) \<Rightarrow> if n = 0 then es else es @ string_emissions escapeNonAscii src (i + n))
      else [])"
  by pat_completeness auto
termination by (relation "measure (\<lambda>(e, src, i). length src - i)") auto

declare string_emissions.simps [simp del]

definition indent_emission :: "SerializeOptions \<Rightarrow> nat \<Rightarrow> emission" where
  "indent_emission opts depth =
     (if so_indentWidth opts \<noteq> 0 \<and> depth > size_max div so_indentWidth opts then EmitFail
      else Emit (replicate (depth * so_indentWidth opts)
        (if so_indentCharacter opts = char_tab then char_tab else CHR '' '')))"

definition newline_emissions :: "SerializeOptions \<Rightarrow> nat \<Rightarrow> emission list" where
  "newline_emissions opts depth =
     (if so_pretty opts then [Emit [char_lf], indent_emission opts depth] else [])"

definition quoted_emissions :: "SerializeOptions \<Rightarrow> string \<Rightarrow> emission list" where
  "quoted_emissions opts x =
     Emit [dquote] # string_emissions (so_escapeNonAscii opts) x 0"

fun key_emissions :: "SerializeOptions \<Rightarrow> string option \<Rightarrow> emission list" where
  "key_emissions opts None = []"
| "key_emissions opts (Some k) =
     quoted_emissions opts k @ [Emit (if so_pretty opts then dquote # '': '' else dquote # '':'')]"

definition lead_emissions :: "SerializeOptions \<Rightarrow> nat \<Rightarrow> bool \<Rightarrow> string option \<Rightarrow> emission list" where
  "lead_emissions opts depth first key =
     (if first then [] else [Emit '','']) @ newline_emissions opts depth @ key_emissions opts key"

definition double_emission :: "(double \<Rightarrow> string) \<Rightarrow> SerializeOptions \<Rightarrow> double \<Rightarrow> emission" where
  "double_emission d2s opts d =
     (if isfinite d then Emit (formatDouble d2s d)
      else
        case so_nonFinite opts of
          RejectNonFinite \<Rightarrow> EmitInvalidNumber
        | NonFiniteToNull \<Rightarrow> Emit ''null''
        | NonFiniteToString \<Rightarrow>
            Emit (if isnan d then dquote # ''NaN'' @ [dquote]
              else if double_less d double_zero then dquote # ''-Infinity'' @ [dquote]
              else dquote # ''Infinity'' @ [dquote]))"

fun emissions :: "(double \<Rightarrow> string) \<Rightarrow> SerializeOptions \<Rightarrow> nat \<Rightarrow> json \<Rightarrow> emission list"
  and elements_emissions :: "(double \<Rightarrow> string) \<Rightarrow> SerializeOptions \<Rightarrow> nat \<Rightarrow> bool \<Rightarrow> json list \<Rightarrow> emission list"
  and members_emissions :: "(double \<Rightarrow> string) \<Rightarrow> SerializeOptions \<Rightarrow> nat \<Rightarrow> bool \<Rightarrow> members \<Rightarrow> emission list" where
  "emissions d2s opts depth JNull = [Emit ''null'']"
| "emissions d2s opts depth (JString x) = quoted_emissions opts x @ [Emit [dquote]]"
| "emissions d2s opts depth (JInt i) = [Emit (decimal_int (sint i))]"
| "emissions d2s opts depth (JUInt u) = [Emit (decimal (unat u))]"
| "emissions d2s opts depth (JDouble d) = [double_emission d2s opts d]"
| "emissions d2s opts depth (JBool b) = [Emit (if b then ''true'' else ''false'')]"
| "emissions d2s opts depth (JArray xs) =
     (if xs = [] then [Emit ''[]'']
      else Emit ''['' # elements_emissions d2s opts (Suc depth) True xs
        @ newline_emissions opts depth @ [Emit '']''])"
| "emissions d2s opts depth (JObject ms) =
     (if ms = [] then [Emit ''{}'']
      else Emit ''{'' # members_emissions d2s opts (Suc depth) True ms
        @ newline_emissions opts depth @ [Emit ''}''])"
| "elements_emissions d2s opts depth first [] = []"
| "elements_emissions d2s opts depth first (x # xs) =
     lead_emissions opts depth first None @ emissions d2s opts depth x
     @ elements_emissions d2s opts depth False xs"
| "members_emissions d2s opts depth first [] = []"
| "members_emissions d2s opts depth first ((k, x) # ms) =
     lead_emissions opts depth first (Some k) @ emissions d2s opts depth x
     @ members_emissions d2s opts depth False ms"

subsection \<open>Running them\<close>

fun run :: "'s sink \<Rightarrow> emission list \<Rightarrow> 's \<Rightarrow> 's answer" where
  "run sk [] s = Inr (sk_ok sk s, s)"
| "run sk (Emit x # es) s = proceed (checked sk (sk_write sk x s)) (run sk es)"
| "run sk (EmitFail # es) s = sk_fail sk s"
| "run sk (EmitInvalidUtf8 # es) s = sk_invalidUtf8 sk s"
| "run sk (EmitInvalidNumber # es) s = sk_invalidNumber sk s"

text \<open>Two answers that are the same, but for what the view of a failed sink hides.\<close>

fun alike :: "'s sink \<Rightarrow> ('s \<Rightarrow> 'v) \<Rightarrow> 's answer \<Rightarrow> 's answer \<Rightarrow> bool" where
  "alike sk view (Inl e) r \<longleftrightarrow> r = Inl e"
| "alike sk view (Inr (b, s)) r \<longleftrightarrow>
     (\<exists>s'. r = Inr (b, s') \<and> (if b then s' = s \<and> sk_ok sk s else view s' = view s))"

lemma alike_True: "alike sk view r (Inr (True, s)) \<Longrightarrow> r = Inr (True, s)"
  by (cases r) auto

lemma alike_False: "alike sk view r (Inr (False, s)) \<Longrightarrow> \<exists>s'. r = Inr (False, s') \<and> view s' = view s"
  by (cases r) auto

definition writes :: "'s sink \<Rightarrow> ('s \<Rightarrow> 'v) \<Rightarrow> ('s \<Rightarrow> 's answer) \<Rightarrow> emission list \<Rightarrow> bool" where
  "writes sk view f es \<longleftrightarrow> (\<forall>s. sk_ok sk s \<longrightarrow> alike sk view (f s) (run sk es s))"

text \<open>A writer that does nothing more to a failed sink.\<close>

definition steady :: "'s sink \<Rightarrow> ('s \<Rightarrow> 'v) \<Rightarrow> ('s \<Rightarrow> 's answer) \<Rightarrow> bool" where
  "steady sk view f \<longleftrightarrow>
     (\<forall>s. \<not> sk_ok sk s \<longrightarrow> (\<exists>s'. f s = Inr (False, s') \<and> \<not> sk_ok sk s' \<and> view s' = view s))"

definition frame_emissions :: "(double \<Rightarrow> string) \<Rightarrow> SerializeOptions \<Rightarrow> SerializeFrame \<Rightarrow> emission list" where
  "frame_emissions d2s opts f =
     (if fr_isObject f
      then members_emissions d2s opts (Suc (fr_depth f)) (fr_first f) (drop (fr_objectIt f) (fr_object f))
      else elements_emissions d2s opts (Suc (fr_depth f)) (fr_first f) (drop (fr_arrayIndex f) (fr_array f)))
     @ newline_emissions opts (fr_depth f) @ [Emit (if fr_isObject f then ''}'' else '']'')]"

lemma frame_emissions_next:
  "next_child f = Some (k, v) \<Longrightarrow> frame_emissions d2s opts f =
    lead_emissions opts (Suc (fr_depth f)) (fr_first f) k @ emissions d2s opts (Suc (fr_depth f)) v
    @ frame_emissions d2s opts (advance_frame f)"
  by (auto simp: next_child_def frame_emissions_def advance_frame_def Cons_nth_drop_Suc [symmetric]
      split: if_splits prod.splits)

lemma frame_emissions_end:
  "next_child f = None \<Longrightarrow> frame_emissions d2s opts f =
    newline_emissions opts (fr_depth f) @ [Emit (if fr_isObject f then ''}'' else '']'')]"
  by (auto simp: next_child_def frame_emissions_def split: if_splits prod.splits)

lemma new_frame_emissions:
  "emit_scalar d2s sk opts v s = None \<Longrightarrow> emissions d2s opts depth v =
    Emit (if isObject v then ''{'' else ''['') # frame_emissions d2s opts (new_frame v depth)"
  by (cases v) (auto simp: frame_emissions_def new_frame_def isObject_def split: if_splits)

lemma proceed_True [simp]:
  "proceed m f = Inr (True, s') \<longleftrightarrow> (\<exists>s. m = Inr (True, s) \<and> f s = Inr (True, s'))"
  by (cases "(m, f)" rule: proceed.cases) auto

lemma proceed_stop: "(\<And>s. m \<noteq> Inr (True, s)) \<Longrightarrow> proceed m f = m"
  by (cases "(m, f)" rule: proceed.cases) auto

lemma proceed_assoc: "proceed (proceed m f) g = proceed m (\<lambda>s. proceed (f s) g)"
  by (cases "(m, f)" rule: proceed.cases) auto

subsection \<open>The laws of a sink\<close>

locale sink_laws =
  fixes sk :: "'s sink" and view :: "'s \<Rightarrow> 'v"
  assumes put_write: "sk_put sk c s = sk_write sk [c] s"
    and repeat_write: "sk_repeat sk c n s = checked sk (sk_write sk (replicate n c) s)"
    and failed_write: "\<not> sk_ok sk s \<Longrightarrow>
      \<exists>s'. sk_write sk x s = Inr s' \<and> \<not> sk_ok sk s' \<and> view s' = view s"
    and failed_fail: "\<not> sk_ok sk s \<Longrightarrow>
      \<exists>s'. sk_fail sk s = Inr (False, s') \<and> \<not> sk_ok sk s' \<and> view s' = view s"
    and fails: "sk_fail sk s \<noteq> Inr (True, s')" "sk_invalidUtf8 sk s \<noteq> Inr (True, s')"
      "sk_invalidNumber sk s \<noteq> Inr (True, s')"
begin

lemma run_ok: "run sk es s = Inr (True, s') \<Longrightarrow> sk_ok sk s'"
proof (induction es arbitrary: s)
  case (Cons e es)
  then show ?case by (cases e) (auto simp: fails)
qed simp

lemma alike_refl: "(\<And>s. r = Inr (True, s) \<Longrightarrow> sk_ok sk s) \<Longrightarrow> alike sk view r r"
  by (cases "(sk, view, r, r)" rule: alike.cases) auto

lemma run_append: "sk_ok sk s \<Longrightarrow> run sk (es @ fs) s = proceed (run sk es s) (run sk fs)"
proof (induction es arbitrary: s)
  case (Cons e es)
  show ?case
  proof (cases e)
    case (Emit x)
    with Cons.IH show ?thesis
      by (auto simp: proceed_assoc checked_def intro!: proceed_cong)
  next
    case EmitFail
    then show ?thesis by (simp add: fails proceed_stop)
  next
    case EmitInvalidUtf8
    then show ?thesis by (simp add: fails proceed_stop)
  next
    case EmitInvalidNumber
    then show ?thesis by (simp add: fails proceed_stop)
  qed
qed simp

lemma writes_proceed:
  assumes "writes sk view f es" "writes sk view g fs"
  shows "writes sk view (\<lambda>s. proceed (f s) g) (es @ fs)"
  unfolding writes_def
proof (intro allI impI)
  fix s assume ok: "sk_ok sk s"
  with assms(1) have "alike sk view (f s) (run sk es s)" by (simp add: writes_def)
  then show "alike sk view (proceed (f s) g) (run sk (es @ fs) s)"
    using assms(2) unfolding run_append [OF ok] writes_def
    by (cases "(sk, view, f s, run sk es s)" rule: alike.cases) (auto split: if_splits)
qed

lemma writes_run: "writes sk view (run sk es) es"
  by (auto simp: writes_def intro: alike_refl dest: run_ok)

lemma writes_cong:
  "(\<And>s. sk_ok sk s \<Longrightarrow> f s = g s) \<Longrightarrow> writes sk view f es \<longleftrightarrow> writes sk view g es"
  by (simp add: writes_def)

lemma writes_check: "writes sk view (\<lambda>s. checked sk (sk_write sk x s)) [Emit x]"
proof -
  have "checked sk (sk_write sk x s) = run sk [Emit x] s" for s
    by (cases "sk_write sk x s") (auto simp: checked_def)
  then show ?thesis using writes_run [of "[Emit x]"] by (simp only: writes_def)
qed

lemma writes_fail:
  "writes sk view (sk_fail sk) [EmitFail]" "writes sk view (sk_invalidUtf8 sk) [EmitInvalidUtf8]"
  "writes sk view (sk_invalidNumber sk) [EmitInvalidNumber]"
  using writes_run [of "[EmitFail]"] writes_run [of "[EmitInvalidUtf8]"] writes_run [of "[EmitInvalidNumber]"]
  by (simp_all add: writes_def)

lemma writes_end: "writes sk view (\<lambda>s. Inr (sk_ok sk s, s)) []"
  by (simp add: writes_def)

lemma steady_end: "steady sk view (\<lambda>s. Inr (sk_ok sk s, s))"
  by (simp add: steady_def)

lemma steady_check: "steady sk view (\<lambda>s. checked sk (sk_write sk x s))"
  unfolding steady_def using failed_write by (fastforce simp: checked_def)

lemma steady_fail: "steady sk view (sk_fail sk)"
  unfolding steady_def using failed_fail by blast

lemma steady_proceed: "steady sk view f \<Longrightarrow> steady sk view (\<lambda>s. proceed (f s) g)"
  unfolding steady_def by fastforce

text \<open>A write that is not checked, followed by a steady writer.\<close>

lemma steady_unchecked: "steady sk view g \<Longrightarrow> steady sk view (\<lambda>s. try_bind (sk_write sk x s) g)"
  unfolding steady_def
proof (intro allI impI)
  fix s assume g: "\<forall>s. \<not> sk_ok sk s \<longrightarrow> (\<exists>s'. g s = Inr (False, s') \<and> \<not> sk_ok sk s' \<and> view s' = view s)"
    and ok: "\<not> sk_ok sk s"
  obtain s1 where "sk_write sk x s = Inr s1" "\<not> sk_ok sk s1" "view s1 = view s"
    using failed_write [OF ok] by blast
  with g show "\<exists>s'. try_bind (sk_write sk x s) g = Inr (False, s') \<and> \<not> sk_ok sk s' \<and> view s' = view s"
    by fastforce
qed

lemma writes_unchecked:
  assumes "steady sk view g" "writes sk view g es"
  shows "writes sk view (\<lambda>s. try_bind (sk_write sk x s) g) (Emit x # es)"
  unfolding writes_def
proof (intro allI impI)
  fix s
  show "alike sk view (try_bind (sk_write sk x s) g) (run sk (Emit x # es) s)"
  proof (cases "sk_write sk x s")
    case (Inr s1)
    show ?thesis
    proof (cases "sk_ok sk s1")
      case True
      with Inr assms(2) show ?thesis by (simp add: checked_def writes_def)
    next
      case False
      with assms(1) obtain s2 where "g s1 = Inr (False, s2)" "view s2 = view s1"
        unfolding steady_def by blast
      with Inr False show ?thesis by (simp add: checked_def)
    qed
  qed (simp add: checked_def)
qed

subsection \<open>The traversal\<close>

lemma writeUnicodeEscape_writes: "writes sk view (writeUnicodeEscape sk u) [Emit (unicode_escape u)]"
  using writes_check [of "unicode_escape u"] by (simp add: writes_def writeUnicodeEscape_def)

lemma write_code_point_writes: "writes sk view (write_code_point sk cp) (map Emit (code_point_texts cp))"
  using writes_proceed [OF writeUnicodeEscape_writes [of "0xD800 + drop_bit 10 (cp - 0x10000)"]
      writeUnicodeEscape_writes [of "0xDC00 + ((cp - 0x10000) AND 0x3FF)"]]
    writeUnicodeEscape_writes [of cp]
  by (simp add: writes_def write_code_point_def code_point_texts_def Let_def)

lemma write_char_writes:
  assumes "char_emissions e src i = (n, es)"
  shows "fst (write_char sk e src i s) = n" and "writes sk view (\<lambda>s. snd (write_char sk e src i s)) es"
proof -
  let ?c = "src ! i" and ?m = "utf8Len src i (length src)"
  consider x where "output_escape ?c = Some x" | "output_escape ?c = None" "byte ?c < 0x20"
    | "output_escape ?c = None" "\<not> byte ?c < 0x20" "byte ?c < 0x80"
    | "output_escape ?c = None" "\<not> byte ?c < 0x20" "\<not> byte ?c < 0x80" "?m = 0"
    | "output_escape ?c = None" "\<not> byte ?c < 0x20" "\<not> byte ?c < 0x80" "?m \<noteq> 0" by fastforce
  then have "(\<forall>s. fst (write_char sk e src i s) = n) \<and> writes sk view (\<lambda>s. snd (write_char sk e src i s)) es"
  proof cases
    case (1 x)
    with assms writes_check [of "[backslash, x]"] show ?thesis
      by (simp add: write_char_def char_emissions_def)
  next
    case 2
    with assms writeUnicodeEscape_writes show ?thesis
      by (auto simp: write_char_def char_emissions_def)
  next
    case 3
    with assms writes_check [of "[?c]"] show ?thesis
      by (simp add: write_char_def char_emissions_def put_write)
  next
    case 4
    with assms writes_fail(2) show ?thesis
      by (auto simp: write_char_def char_emissions_def)
  next
    case 5
    with assms writes_check [of "take ?m (drop i src)"]
      write_code_point_writes [of "code_point (take ?m (drop i src))"] show ?thesis
      by (cases e) (auto simp: write_char_def char_emissions_def Let_def)
  qed
  then show "fst (write_char sk e src i s) = n" "writes sk view (\<lambda>s. snd (write_char sk e src i s)) es"
    by simp_all
qed

lemma writeEscapedTo_writes: "writes sk view (writeEscapedTo sk e src i) (string_emissions e src i)"
proof (induction "length src - i" arbitrary: i rule: less_induct)
  case less
  show ?case
  proof (cases "i < length src")
    case True
    obtain n es where n: "char_emissions e src i = (n, es)" by fastforce
    note w = write_char_writes [OF n]
    have eq: "writeEscapedTo sk e src i s = (if n = 0 then snd (write_char sk e src i s)
        else proceed (snd (write_char sk e src i s)) (writeEscapedTo sk e src (i + n)))" for s
      using w(1) [of s] True
      by (cases "write_char sk e src i s") (simp add: writeEscapedTo.simps [of sk e src i s])
    show ?thesis
    proof (cases "n = 0")
      case True
      then show ?thesis using w(2) \<open>i < length src\<close> n by (simp add: writes_def eq string_emissions.simps [of e src i])
    next
      case False
      with less [of "i + n"] \<open>i < length src\<close>
      have "writes sk view (writeEscapedTo sk e src (i + n)) (string_emissions e src (i + n))" by simp
      with writes_proceed [OF w(2) this] False \<open>i < length src\<close> n
      show ?thesis by (simp add: writes_def eq string_emissions.simps [of e src i])
    qed
  next
    case False
    then show ?thesis
      using writes_end by (simp add: writes_def writeEscapedTo.simps [of sk e src i] string_emissions.simps [of e src i])
  qed
qed

lemma emit_string_writes: "writes sk view (emit_string sk opts x) (quoted_emissions opts x @ [Emit [dquote]])"
  using writes_proceed [OF writes_check [of "[dquote]"]
      writes_proceed [OF writeEscapedTo_writes [of "so_escapeNonAscii opts" x 0] writes_check [of "[dquote]"]]]
  unfolding emit_string_def put_write quoted_emissions_def by (simp add: writes_def)

lemma writeIndent_writes:
  "writes sk view (writeIndent sk opts depth) [indent_emission opts depth]"
  "steady sk view (writeIndent sk opts depth)"
  using writes_check writes_fail(1) steady_check steady_fail
  by (simp_all add: writes_def steady_def writeIndent_def indent_emission_def repeat_write Let_def)

lemma newline_writes:
  assumes "steady sk view g" "writes sk view g es"
  shows "writes sk view (\<lambda>s. proceed (write_newline sk opts depth s) g) (newline_emissions opts depth @ es)"
    and "steady sk view (\<lambda>s. proceed (write_newline sk opts depth s) g)"
proof -
  let ?g = "\<lambda>s. proceed (writeIndent sk opts depth s) g"
  have eq: "proceed (write_newline sk opts depth s) g =
      (if so_pretty opts then try_bind (sk_write sk [char_lf] s) ?g else g s)" for s
    by (cases "sk_write sk [char_lf] s") (simp_all add: write_newline_def put_write)
  have g: "steady sk view ?g" "writes sk view ?g (indent_emission opts depth # es)"
    using steady_proceed [OF writeIndent_writes(2)] writes_proceed [OF writeIndent_writes(1) assms(2)] by auto
  from writes_unchecked [OF g, of "[char_lf]"] steady_unchecked [OF g(1), of "[char_lf]"] assms
  show "writes sk view (\<lambda>s. proceed (write_newline sk opts depth s) g) (newline_emissions opts depth @ es)"
    "steady sk view (\<lambda>s. proceed (write_newline sk opts depth s) g)"
    unfolding eq newline_emissions_def by (cases "so_pretty opts"; simp)+
qed

lemma key_writes:
  "writes sk view (\<lambda>s. proceed (write_key sk opts key s) (\<lambda>s. Inr (sk_ok sk s, s))) (key_emissions opts key)"
  "steady sk view (\<lambda>s. proceed (write_key sk opts key s) (\<lambda>s. Inr (sk_ok sk s, s)))"
proof -
  let ?q = "if so_pretty opts then dquote # '': '' else dquote # '':''"
  let ?f = "\<lambda>s. proceed (checked sk (sk_write sk [dquote] s)) (\<lambda>s.
    proceed (writeEscapedTo sk (so_escapeNonAscii opts) (the key) 0 s) (\<lambda>s. checked sk (sk_write sk ?q s)))"
  have eq: "proceed (try_bind (sk_write sk x s) (\<lambda>s. Inr (True, s))) (\<lambda>s. Inr (sk_ok sk s, s))
      = checked sk (sk_write sk x s)" for x s
    by (cases "sk_write sk x s") (simp_all add: checked_def)
  have f: "proceed (write_key sk opts key s) (\<lambda>s. Inr (sk_ok sk s, s)) =
      (if key = None then Inr (sk_ok sk s, s) else ?f s)" for s
    by (auto simp: write_key_def put_write proceed_assoc eq split: option.split)
  have "writes sk view ?f (quoted_emissions opts (the key) @ [Emit ?q])"
    using writes_proceed [OF writes_check [of "[dquote]"] writes_proceed
        [OF writeEscapedTo_writes [of "so_escapeNonAscii opts" "the key" 0] writes_check [of ?q]]]
    by (simp add: quoted_emissions_def)
  moreover have "steady sk view ?f" by (rule steady_proceed [OF steady_check])
  ultimately show "writes sk view (\<lambda>s. proceed (write_key sk opts key s) (\<lambda>s. Inr (sk_ok sk s, s))) (key_emissions opts key)"
    "steady sk view (\<lambda>s. proceed (write_key sk opts key s) (\<lambda>s. Inr (sk_ok sk s, s)))"
    unfolding f using writes_end steady_end by (cases key; simp)+
qed

lemma before_child_writes:
  "writes sk view (before_child sk opts f key) (lead_emissions opts (Suc (fr_depth f)) (fr_first f) key)"
proof -
  note g = newline_writes(2,1) [OF key_writes(2,1)]
  show ?thesis
    using g(2) [of opts "Suc (fr_depth f)" opts key] writes_unchecked [OF g, of "'',''" opts "Suc (fr_depth f)" opts key]
    unfolding before_child_def lead_emissions_def put_write by (cases "fr_first f") simp_all
qed

lemma close_frame_writes:
  "writes sk view (close_frame sk opts f)
    (newline_emissions opts (fr_depth f) @ [Emit (if fr_isObject f then ''}'' else '']'')])"
  using newline_writes(1) [OF steady_check writes_check]
  unfolding close_frame_def put_write by (cases "fr_isObject f") simp_all

lemma emit_scalar_writes:
  "sk_ok sk s \<Longrightarrow> emit_scalar d2s sk opts v s = Some r \<Longrightarrow> alike sk view r (run sk (emissions d2s opts depth v) s)"
  using writes_check emit_string_writes [of opts] writes_fail(3)
  by (cases v) (auto simp: writes_def emit_double_def double_emission_def split: if_splits NonFinitePolicy.splits)

text \<open>Opening a value and going on.\<close>

lemma open_continue:
  "(case openOrEmit d2s sk opts v depth fs s of
      Inl e \<Rightarrow> Inl e
    | Inr (b, frames, s) \<Rightarrow> if b then f frames s else Inr (False, s)) =
    (case emit_scalar d2s sk opts v s of
      Some r \<Rightarrow> proceed r (f fs)
    | None \<Rightarrow> proceed (checked sk (sk_write sk (if isObject v then ''{'' else ''['') s)) (f (new_frame v depth # fs)))"
proof (cases "emit_scalar d2s sk opts v s")
  case None
  then show ?thesis
    by (cases "sk_write sk (if isObject v then ''{'' else ''['') s")
      (simp_all add: openOrEmit_def put_write checked_def split: if_splits)
next
  case (Some r)
  then show ?thesis by (cases r) (auto simp: openOrEmit_def with_frames_def)
qed

lemma open_writes:
  assumes "writes sk view (f fs) es"
    and "\<And>s. sk_ok sk s \<Longrightarrow> emit_scalar d2s sk opts v s = None \<Longrightarrow>
      writes sk view (f (new_frame v depth # fs)) (frame_emissions d2s opts (new_frame v depth) @ es)"
  shows "writes sk view (\<lambda>s. case openOrEmit d2s sk opts v depth fs s of
      Inl e \<Rightarrow> Inl e
    | Inr (b, frames, s) \<Rightarrow> if b then f frames s else Inr (False, s)) (emissions d2s opts depth v @ es)"
  unfolding writes_def open_continue
proof (intro allI impI)
  fix s assume ok: "sk_ok sk s"
  show "alike sk view (case emit_scalar d2s sk opts v s of
      Some r \<Rightarrow> proceed r (f fs)
    | None \<Rightarrow> proceed (checked sk (sk_write sk (if isObject v then ''{'' else ''['') s)) (f (new_frame v depth # fs)))
    (run sk (emissions d2s opts depth v @ es) s)"
  proof (cases "emit_scalar d2s sk opts v s")
    case None
    from writes_proceed [OF writes_check assms(2) [OF ok None], of "if isObject v then ''{'' else ''[''"]
    show ?thesis using ok unfolding writes_def new_frame_emissions [OF None] by (simp add: None)
  next
    case (Some r)
    then have "writes sk view (\<lambda>s'. if s' = s then r else run sk (emissions d2s opts depth v) s') (emissions d2s opts depth v)"
      using emit_scalar_writes [OF ok Some] writes_run by (simp add: writes_def)
    from writes_proceed [OF this assms(1)] ok Some show ?thesis unfolding writes_def by fastforce
  qed
qed

lemma write_frames_writes:
  "writes sk view (write_frames d2s sk opts fs) (concat (map (frame_emissions d2s opts) fs))"
proof (induction "stack_weight fs" arbitrary: fs rule: less_induct)
  case less
  show ?case
  proof (cases fs)
    case Nil
    then show ?thesis using writes_end by (simp add: writes_def write_frames.simps)
  next
    case (Cons f gs)
    show ?thesis
    proof (cases "next_child f")
      case None
      have "stack_weight gs < stack_weight fs" by (simp add: Cons stack_weight_def frame_weight_def)
      from writes_proceed [OF close_frame_writes [of opts f] less [OF this]] show ?thesis
        unfolding Cons by (simp add: writes_def write_frames.simps None frame_emissions_end)
    next
      case (Some p)
      then obtain k v where kv: "next_child f = Some (k, v)" by (cases p) auto
      let ?fs = "advance_frame f # gs"
      have w: "stack_weight ?fs + 2 * nodes v \<le> stack_weight fs"
        using next_child_rest [OF kv] by (simp add: Cons stack_weight_def frame_weight_def)
      moreover have "1 \<le> nodes v" by (cases v) simp_all
      ultimately have "stack_weight ?fs < stack_weight fs" by simp
      note rest = less [OF this]
      have "writes sk view (write_frames d2s sk opts (new_frame v (Suc (fr_depth f)) # ?fs))
          (frame_emissions d2s opts (new_frame v (Suc (fr_depth f))) @ concat (map (frame_emissions d2s opts) ?fs))"
        if "emit_scalar d2s sk opts v s = None" for s
      proof -
        have "stack_weight (new_frame v (Suc (fr_depth f)) # ?fs) < stack_weight fs"
          using new_frame_weight [OF that, of "Suc (fr_depth f)"] w by (simp add: stack_weight_def)
        from less [OF this] show ?thesis by simp
      qed
      from writes_proceed [OF before_child_writes [of opts f k] open_writes [where f = "write_frames d2s sk opts", OF rest this]]
      show ?thesis unfolding Cons by (simp add: writes_def write_frames.simps kv frame_emissions_next)
    qed
  qed
qed

lemma writeValueTo_run: "sk_ok sk s \<Longrightarrow> alike sk view (writeValueTo d2s sk opts v s) (run sk (emissions d2s opts 0 v) s)"
  using open_writes [where f = "write_frames d2s sk opts" and fs = "[]" and es = "[]" and v = v and depth = 0, of d2s opts]
    write_frames_writes [of d2s opts "[]"] write_frames_writes [of d2s opts "[new_frame v 0]"]
  by (simp add: writes_def writeValueTo_def)

end

end
