(* ===== verification/Serialize_Result.thy ===== *)
theory Serialize_Result
  imports Serialize_Render
begin

section \<open>The results of the serializer\<close>

text \<open>
  The three sinks keep the laws of the traversal. The text of a value under a budget is then one
  function of its emissions, and each public operation is that function: the counting run decides,
  and the second run writes exactly the text that was counted.
\<close>

subsection \<open>The sinks\<close>

interpretation string_laws: sink_laws string_sink id
  by unfold_locales (simp_all add: string_sink_def checked_def string_account_def string_append_def)

lemma counting_account_failed: "\<not> cs_valid s \<Longrightarrow> counting_account n s = (False, s)"
  by (simp add: counting_account_def)

interpretation counting_laws: sink_laws counting_sink id
  by unfold_locales
    (auto simp: counting_sink_def checked_def counting_account_def counting_fail_def)

lemma ostream_write_append: "ostream_write (x @ y) out = ostream_write y (ostream_write x out)"
proof (cases "os_room out")
  case (Some n)
  have "length x \<le> n \<Longrightarrow> n - length x < length y \<longleftrightarrow> n < length x + length y" by linarith
  with Some show ?thesis by (auto simp: ostream_write_def not_less)
qed (simp add: ostream_write_def)

lemma ostream_write_failed [simp]: "os_failed out \<Longrightarrow> ostream_write x out = out"
  by (simp add: ostream_write_def)

lemma ostream_write_Nil [simp]: "ostream_write [] out = out"
  by (cases out) (simp add: ostream_write_def split: option.split)

lemma stream_blocks_write:
  "stream_blocks ch n s = stream_emit (replicate n ch) s"
proof (induction ch n s rule: stream_blocks.induct)
  case (1 ch n s)
  have eq: "replicate n ch = replicate (min n 256) ch @ replicate (n - min n 256) ch"
    by (simp add: replicate_add [symmetric])
  show ?case
  proof (cases "n \<noteq> 0 \<and> \<not> os_failed (st_out s)")
    case True
    then have "stream_blocks ch n s =
        stream_emit (replicate (n - min n 256) ch) (stream_emit (replicate (min n 256) ch) s)"
      using 1 by (simp add: stream_blocks.simps [of ch n s])
    also have "\<dots> = stream_emit (replicate n ch) s"
      by (simp add: stream_emit_def ostream_write_append [symmetric] eq [symmetric])
    finally show ?thesis .
  next
    case False
    then show ?thesis
      by (cases "n = 0") (simp_all add: stream_blocks.simps [of ch n s] stream_blocks.simps [of ch 0 s] stream_emit_def)
  qed
qed

lemma setstate_fail_failed [simp]: "os_failed out \<Longrightarrow> setstate_fail out = out"
  by (simp add: setstate_fail_def)

lemma setstate_fail_fails [simp]: "os_failed (setstate_fail out)"
  by (simp add: setstate_fail_def)

interpretation stream_laws: sink_laws stream_sink st_out
proof unfold_locales
  show "sk_put stream_sink c s = sk_write stream_sink [c] s" for c s
    by (simp add: stream_sink_def stream_put_def stream_write_def streamsize_max_def split: prod.splits)
  show "sk_repeat stream_sink c n s = checked stream_sink (sk_write stream_sink (replicate n c) s)" for c n s
    by (auto simp: stream_sink_def checked_def stream_repeat_def stream_write_def stream_account_def
        stream_fail_def stream_blocks_write Let_def)
  show "\<exists>s'. sk_write stream_sink x s = Inr s' \<and> \<not> sk_ok stream_sink s' \<and> st_out s' = st_out s"
    if "\<not> sk_ok stream_sink s" for x s
    using that by (auto simp: stream_sink_def stream_write_def stream_account_def stream_fail_def stream_emit_def)
qed (auto simp: stream_sink_def stream_fail_def)

subsection \<open>The text under a budget\<close>

fun budget :: "nat \<Rightarrow> nat \<Rightarrow> emission list \<Rightarrow> SerializeError_Code + string" where
  "budget limit n [] = Inr []"
| "budget limit n (Emit x # es) =
     (if n + length x > size_max \<or> limit \<noteq> 0 \<and> n + length x > limit then Inl OutputLimit
      else try_bind (budget limit (n + length x) es) (\<lambda>r. Inr (x @ r)))"
| "budget limit n (EmitFail # es) = Inl OutputLimit"
| "budget limit n (EmitInvalidUtf8 # es) = Inl InvalidUtf8"
| "budget limit n (EmitInvalidNumber # es) = Inl NonFiniteNumber"

definition serialized :: "(double \<Rightarrow> string) \<Rightarrow> SerializeOptions \<Rightarrow> json \<Rightarrow> SerializeError_Code + string" where
  "serialized d2s opts v = budget (so_maxOutputBytes opts) 0 (emissions d2s opts 0 v)"

definition serialize_error :: "SerializeError_Code \<Rightarrow> SerializeError" where
  "serialize_error code =
     setSerializeError code
       (if code = InvalidUtf8 then msg_utf8 else if code = NonFiniteNumber then msg_not_finite
        else msg_size_limit)"

text \<open>The counting run: its verdict, and the flags that say why.\<close>

definition counts :: "SerializeError_Code + string \<Rightarrow> CountingSink answer \<Rightarrow> bool" where
  "counts b r \<longleftrightarrow>
     (case b of
        Inr x \<Rightarrow> \<exists>s. r = Inr (True, s)
      | Inl code \<Rightarrow> \<exists>s. r = Inr (False, s) \<and> cs_invalidUtf8 s = (code = InvalidUtf8)
          \<and> cs_invalidNumber s = (code = NonFiniteNumber)
          \<and> code \<in> {OutputLimit, InvalidUtf8, NonFiniteNumber})"

lemma counting_run:
  assumes "cs_valid s" "\<not> cs_invalidUtf8 s" "\<not> cs_invalidNumber s" "cs_written s \<le> size_max"
    "cs_limit s \<noteq> 0 \<longrightarrow> cs_written s \<le> cs_limit s"
  shows "counts (budget (cs_limit s) (cs_written s) es) (run counting_sink es s)"
  using assms
proof (induction es arbitrary: s)
  case Nil
  then show ?case by (simp add: counts_def counting_sink_def)
next
  case (Cons e es)
  show ?case
  proof (cases e)
    case (Emit x)
    let ?n = "cs_written s + length x"
    have over: "length x > size_max - cs_written s
        \<or> cs_limit s \<noteq> 0 \<and> length x > cs_limit s - min (cs_written s) (cs_limit s)
      \<longleftrightarrow> ?n > size_max \<or> cs_limit s \<noteq> 0 \<and> ?n > cs_limit s"
      using Cons.prems(4,5) by (auto simp: min_def)
    show ?thesis
    proof (cases "?n > size_max \<or> cs_limit s \<noteq> 0 \<and> ?n > cs_limit s")
      case True
      then have "counting_account (length x) s = (False, s\<lparr>cs_valid := False\<rparr>)"
        using Cons.prems(1) unfolding counting_account_def over by simp
      then show ?thesis using True Cons.prems
        by (simp add: Emit counts_def counting_sink_def checked_def)
    next
      case False
      then have "counting_account (length x) s = (True, s\<lparr>cs_written := ?n\<rparr>)"
        using Cons.prems(1) unfolding counting_account_def over by simp
      then have "run counting_sink (e # es) s = run counting_sink es (s\<lparr>cs_written := ?n\<rparr>)"
        using Cons.prems(1) by (simp add: Emit counting_sink_def checked_def)
      moreover have "counts (budget (cs_limit s) ?n es) (run counting_sink es (s\<lparr>cs_written := ?n\<rparr>))"
        using Cons.IH [of "s\<lparr>cs_written := ?n\<rparr>"] Cons.prems False by auto
      moreover have "budget (cs_limit s) (cs_written s) (e # es) =
          try_bind (budget (cs_limit s) ?n es) (\<lambda>r. Inr (x @ r))"
        using False unfolding Emit budget.simps by (simp only: if_False)
      ultimately show ?thesis
        by (cases "budget (cs_limit s) ?n es") (simp_all add: counts_def)
    qed
  qed (use Cons.prems in \<open>simp_all add: counts_def counting_sink_def counting_fail_def\<close>)
qed

lemma count_value_counts: "counts (serialized d2s opts v) (count_value d2s v opts)"
proof -
  let ?s = "new_counting_sink (so_maxOutputBytes opts)"
  have ok: "sk_ok counting_sink ?s" by (simp add: counting_sink_def new_counting_sink_def)
  have "counts (serialized d2s opts v) (run counting_sink (emissions d2s opts 0 v) ?s)"
    using counting_run [of ?s "emissions d2s opts 0 v"]
    by (simp add: new_counting_sink_def serialized_def)
  with counting_laws.writeValueTo_run [OF ok, of d2s opts v] show ?thesis
    unfolding count_value_def
    by (auto simp: counts_def split: sum.splits dest!: alike_True alike_False)
qed

lemma budget_size:
  "budget limit n es = Inr x \<Longrightarrow> n \<le> size_max \<Longrightarrow> n + length x \<le> size_max
    \<and> (limit \<noteq> 0 \<longrightarrow> n \<le> limit \<longrightarrow> n + length x \<le> limit)"
proof (induction es arbitrary: n x)
  case (Cons e es)
  then show ?case by (cases e) (fastforce split: if_splits)+
qed simp

lemma string_run:
  "budget (ss_limit s) (ss_written s) es = Inr x \<Longrightarrow>
    \<exists>s'. run string_sink es s = Inr (True, s') \<and> ss_out s' = ss_out s @ x"
proof (induction es arbitrary: s x)
  case Nil
  then show ?case by (simp add: string_sink_def)
next
  case (Cons e es)
  then obtain y r where y: "e = Emit y" "x = y @ r"
    "budget (ss_limit s) (ss_written s + length y) es = Inr r"
    "\<not> (ss_limit s \<noteq> 0 \<and> ss_written s + length y > ss_limit s)"
    by (cases e) (auto split: if_splits)
  let ?s = "string_append y (s\<lparr>ss_written := ss_written s + length y\<rparr>)"
  have "string_account (length y) s = Inr (s\<lparr>ss_written := ss_written s + length y\<rparr>)"
    using y(4) by (auto simp: string_account_def min_def)
  then have "run string_sink (e # es) s = run string_sink es ?s"
    by (simp add: y(1) string_sink_def checked_def)
  with Cons.IH [of ?s r] y show ?case by (auto simp: string_append_def)
qed

lemma appendValue_text:
  assumes "serialized d2s opts v = Inr x"
  shows "appendValue d2s out v opts = Inr (out @ x)"
proof -
  let ?s = "\<lparr>ss_out = out, ss_limit = so_maxOutputBytes opts, ss_written = 0\<rparr>"
  obtain s where s: "run string_sink (emissions d2s opts 0 v) ?s = Inr (True, s)" "ss_out s = out @ x"
    using string_run [of ?s "emissions d2s opts 0 v" x] assms by (auto simp: serialized_def)
  have "sk_ok string_sink ?s" by (simp add: string_sink_def)
  from string_laws.writeValueTo_run [OF this, of d2s opts v] s show ?thesis
    by (auto simp: appendValue_def dest!: alike_True)
qed

lemma stream_run:
  "budget limit n es = Inr x \<Longrightarrow> st_limit s = 0 \<Longrightarrow> length x \<le> streamsize_max \<Longrightarrow>
    \<exists>s'. run stream_sink es s = Inr (\<not> os_failed (st_out s'), s')
      \<and> st_out s' = ostream_write x (st_out s)"
proof (induction es arbitrary: s x n)
  case Nil
  then show ?case by (simp add: stream_sink_def)
next
  case (Cons e es)
  then obtain y r where y: "e = Emit y" "x = y @ r" "budget limit (n + length y) es = Inr r"
    by (cases e) (auto split: if_splits)
  let ?s = "stream_emit y (s\<lparr>st_written := st_written s + length y\<rparr>)"
  have w: "stream_write y s = ?s" using Cons.prems(2,3) y(2)
    by (simp add: stream_write_def stream_account_def)
  show ?case
  proof (cases "os_failed (st_out ?s)")
    case True
    then have "run stream_sink (e # es) s = Inr (False, ?s)"
      by (simp add: y(1) stream_sink_def checked_def w)
    with True show ?thesis by (simp add: y(2) ostream_write_append stream_emit_def)
  next
    case False
    then have "run stream_sink (e # es) s = run stream_sink es ?s"
      by (simp add: y(1) stream_sink_def checked_def w)
    with Cons.IH [OF y(3), of ?s] Cons.prems(2,3) y(2) show ?thesis
      by (auto simp: stream_emit_def ostream_write_append)
  qed
qed

text \<open>A stream that has already failed is left as it is.\<close>

lemma stream_failed:
  assumes "os_failed (st_out s)"
  shows "\<exists>s'. writeValueTo d2s stream_sink opts v s = Inr (False, s') \<and> st_out s' = st_out s"
proof -
  have w: "\<exists>s'. checked stream_sink (sk_write stream_sink x s) = Inr (False, s') \<and> st_out s' = st_out s" for x
    using assms stream_laws.failed_write [of s x] by (fastforce simp: checked_def stream_sink_def)
  have p: "\<exists>s'. sk_put stream_sink c s = Inr s' \<and> \<not> sk_ok stream_sink s' \<and> st_out s' = st_out s" for c
    using assms stream_laws.failed_write [of s "[c]"] stream_laws.put_write [of c s]
    by (auto simp: stream_sink_def)
  have n: "\<exists>s'. sk_invalidNumber stream_sink s = Inr (False, s') \<and> st_out s' = st_out s"
    using assms by (simp add: stream_sink_def stream_fail_def)
  have e: "\<exists>s'. emit_string stream_sink opts x s = Inr (False, s') \<and> st_out s' = st_out s" for x
    using w [of "[dquote]"] by (fastforce simp: emit_string_def stream_laws.put_write)
  have "\<exists>s'. r = Inr (False, s') \<and> st_out s' = st_out s" if "emit_scalar d2s stream_sink opts v s = Some r" for r
    using that w n e by (cases v) (auto simp: emit_double_def split: if_splits NonFinitePolicy.splits)
  moreover have "\<exists>s'. openOrEmit d2s stream_sink opts v 0 [] s = Inr (False, [], s') \<and> st_out s' = st_out s"
    if "emit_scalar d2s stream_sink opts v s = None"
    using that p [of "if isObject v then CHR ''{'' else CHR ''[''"] by (fastforce simp: openOrEmit_def)
  ultimately have "\<exists>s'. openOrEmit d2s stream_sink opts v 0 [] s = Inr (False, [], s') \<and> st_out s' = st_out s"
    by (cases "emit_scalar d2s stream_sink opts v s") (fastforce simp: openOrEmit_def with_frames_def)+
  then show ?thesis by (auto simp: writeValueTo_def)
qed

lemma stream_text:
  assumes "serialized d2s opts v = Inr x" "length x \<le> streamsize_max"
  shows "\<exists>s. writeValueTo d2s stream_sink opts v (new_stream_sink out) = Inr (\<not> os_failed (st_out s), s)
    \<and> st_out s = ostream_write x out"
proof (cases "os_failed out")
  case True
  then show ?thesis
    using stream_failed [of "new_stream_sink out" d2s opts v] by (fastforce simp: new_stream_sink_def)
next
  case False
  let ?s = "new_stream_sink out"
  obtain s where s: "run stream_sink (emissions d2s opts 0 v) ?s = Inr (\<not> os_failed (st_out s), s)"
    "st_out s = ostream_write x out"
    using stream_run [of "so_maxOutputBytes opts" 0 "emissions d2s opts 0 v" x ?s] assms
    by (auto simp: serialized_def new_stream_sink_def)
  have "sk_ok stream_sink ?s" using False by (simp add: stream_sink_def new_stream_sink_def)
  from stream_laws.writeValueTo_run [OF this, of d2s opts v] s show ?thesis
    by (cases "os_failed (st_out s)") (auto dest!: alike_True alike_False)
qed

end
