(* ===== verification/Serialize_Number.thy ===== *)
theory Serialize_Number
  imports Serializer Number_Value
begin

section \<open>The text of a double\<close>

text \<open>
  \<open>formatDouble\<close> rewrites the text of the Ryu library: moving the point and adding a fraction keeps
  the decimal it denotes, and what comes out is a number token with a fraction or an exponent, so
  the parser reads the same double back.
\<close>

subsection \<open>Decimals with their parts\<close>

definition decimal_text :: "string \<Rightarrow> string \<Rightarrow> string \<Rightarrow> string \<Rightarrow> string" where
  "decimal_text sg i fs ex = sg @ i @ (if fs = [] then [] else CHR ''.'' # fs) @ ex"

definition token_shape :: "string \<Rightarrow> string \<Rightarrow> string \<Rightarrow> string \<Rightarrow> bool" where
  "token_shape sg i fs ex \<longleftrightarrow> number_sign sg \<and> list_all is_digit i \<and> i \<noteq> [] \<and> list_all is_digit fs
     \<and> (ex = [] \<or> is_exponent_mark (hd ex))"

definition nearest_power :: "bool \<Rightarrow> nat \<Rightarrow> int \<Rightarrow> double" where
  "nearest_power s n e =
     (if 0 \<le> e then nearest_double s (n * 10 ^ nat e) 1 else nearest_double s n (10 ^ nat (- e)))"

lemma digit_not_mark: "is_digit c \<Longrightarrow> \<not> is_exponent_mark c \<and> c \<noteq> CHR ''.'' \<and> c \<noteq> CHR ''-'' \<and> c \<noteq> CHR ''+''"
  by (auto simp: is_exponent_mark_def)

lemma not_digit_mark [simp]: "\<not> is_digit (CHR ''e'')" "\<not> is_digit (CHR ''E'')"
  by (simp_all add: is_digit_def less_eq_char_def)

lemma takeWhile_all: "list_all P xs \<Longrightarrow> takeWhile P (xs @ ys) = xs @ takeWhile P ys"
  by (simp add: takeWhile_append2 list_all_iff)

lemma dropWhile_all: "list_all P xs \<Longrightarrow> dropWhile P (xs @ ys) = dropWhile P ys"
  by (simp add: dropWhile_append2 list_all_iff)

lemma token_of_shape:
  assumes "token_shape sg i fs ex"
  defines "t \<equiv> decimal_text sg i fs ex"
  shows "token_negative t = (sg \<noteq> [])" "significand_digits t = i @ fs"
    "token_power t = signed_digits (tl ex) - int (length fs)"
proof -
  let ?m = "i @ (if fs = [] then [] else CHR ''.'' # fs)"
  have i: "i \<noteq> []" "list_all is_digit i" "list_all is_digit fs" using assms(1) by (simp_all add: token_shape_def)
  then obtain a as where a: "i = a # as" "a \<noteq> CHR ''-''" using digit_not_mark by (cases i) auto
  consider "sg = []" "t = ?m @ ex" | "sg = ''-''" "t = CHR ''-'' # ?m @ ex"
    using assms(1) by (auto simp: t_def decimal_text_def token_shape_def number_sign_def)
  then have "token_negative t = (sg \<noteq> []) \<and> token_unsigned t = ?m @ ex"
    by cases (use a in \<open>simp_all add: token_negative_def token_unsigned_def\<close>)
  then have neg: "token_negative t = (sg \<noteq> [])" and u: "token_unsigned t = ?m @ ex" by simp_all
  from neg show "token_negative t = (sg \<noteq> [])" .
  have clean: "list_all (\<lambda>c. \<not> is_exponent_mark c \<and> c \<noteq> CHR ''.'') x" if "list_all is_digit x" for x
    using that digit_not_mark by (induction x) simp_all
  from clean [OF i(2)] clean [OF i(3)] have m: "list_all (\<lambda>c. \<not> is_exponent_mark c) ?m"
    by (auto simp: list_all_iff is_exponent_mark_def)
  have ex: "takeWhile (\<lambda>c. \<not> is_exponent_mark c) ex = []" "dropWhile (\<lambda>c. \<not> is_exponent_mark c) ex = ex"
    using assms(1) by (cases ex; simp add: token_shape_def)+
  have sig: "token_significand t = ?m"
    unfolding token_significand_def u takeWhile_all [OF m] ex by simp
  have "token_exponent t = tl ex"
    unfolding token_exponent_def u dropWhile_all [OF m] ex by simp
  moreover have dots: "list_all (\<lambda>c. c \<noteq> CHR ''.'') i" "list_all (\<lambda>c. c \<noteq> CHR ''.'') fs"
    using clean [OF i(2)] clean [OF i(3)] by (simp_all add: list_all_iff)
  moreover from this have "fraction_length t = length fs"
    unfolding fraction_length_def sig dropWhile_all [OF dots(1)] by simp
  ultimately show "token_power t = signed_digits (tl ex) - int (length fs)"
    by (simp add: token_power_def)
  show "significand_digits t = i @ fs"
    using dots unfolding significand_digits_def sig by (simp add: list_all_iff filter_id_conv)
qed

lemma token_double_shape:
  assumes "token_shape sg i fs ex"
  shows "token_double (decimal_text sg i fs ex) =
    nearest_power (sg \<noteq> []) (digits_value 0 (i @ fs)) (signed_digits (tl ex) - int (length fs))"
  unfolding token_double_def nearest_power_def Let_def token_of_shape [OF assms] ..

subsection \<open>Rounding does not depend on the fraction's terms\<close>

lemma round_even_scale: "0 < k \<Longrightarrow> round_even q (k * r) (k * d) = round_even q r d"
proof -
  assume k: "0 < k"
  have "2 * (k * r) < k * d \<longleftrightarrow> 2 * r < d" "k * d < 2 * (k * r) \<longleftrightarrow> d < 2 * r"
    using k by (metis mult.left_commute nat_mult_less_cancel1)+
  then show ?thesis by (simp add: round_even_def)
qed

lemma nearest_code_scale: "0 < k \<Longrightarrow> nearest_code (k * n) (k * d) = nearest_code n d"
proof -
  assume k: "0 < k"
  have q: "k * n * units div (k * d) = n * units div d"
    unfolding mult.assoc using k by (intro div_mult_mult1) simp
  have r: "k * n * units mod (k * d) = k * (n * units mod d)"
    by (simp only: mult.assoc mult_mod_right)
  have eq: "p * (k * d) = k * (p * d)" "k * a + k * b = k * (a + b)" for p a b :: nat
    by (simp_all only: distrib_left mult.left_commute)
  show ?thesis unfolding nearest_code_def q r Let_def eq round_even_scale [OF k] ..
qed

lemma nearest_double_scale: "0 < k \<Longrightarrow> nearest_double s (k * n) (k * d) = nearest_double s n d"
  by (simp add: nearest_double_def nearest_code_scale)

text \<open>The encoding of a fraction with \<open>m\<close> bits behind the point that fill a normal significand.\<close>

lemma nearest_code_fraction:
  assumes d: "0 < d" and m: "m + sh = 1074" and q: "2 ^ 52 \<le> n * 2 ^ m div d" "n * 2 ^ m div d < 2 ^ 53"
  shows "nearest_code n d = sh * 2 ^ 52 + round_even (n * 2 ^ m div d) (n * 2 ^ m mod d) d"
proof -
  define N where "N = n * 2 ^ m"
  define k where "k = n * units div d"
  have u: "n * units = N * 2 ^ sh"
    unfolding N_def units_def m [symmetric] by (simp add: power_add mult.assoc)
  have k: "k div 2 ^ sh = N div d"
    by (simp add: k_def u flip: div_mult2_eq)
  have r: "k mod 2 ^ sh * d + n * units mod d = 2 ^ sh * (N mod d)"
  proof -
    have "k mod 2 ^ sh * d + n * units mod d = N * 2 ^ sh mod (d * 2 ^ sh)"
      unfolding k_def u by (simp only: mod_mult2_eq mult.commute)
    also have "\<dots> = 2 ^ sh * (N mod d)" by (simp only: mult_mod_left mult.commute)
    finally show ?thesis .
  qed
  have lo: "2 ^ (52 + sh) \<le> k" 
  proof -
    have "2 ^ 52 * 2 ^ sh \<le> k div 2 ^ sh * 2 ^ sh" using q(1) by (simp add: k N_def)
    also have "\<dots> \<le> k" by (rule div_times_less_eq_dividend)
    finally show ?thesis by (simp add: power_add)
  qed
  have hi: "k < 2 ^ (53 + sh)"
    using q(2) k by (simp add: N_def [symmetric] power_add div_less_iff_less_mult [symmetric])
  have "0 < k" using lo zero_less_power [of "2 :: nat" "52 + sh"] by linarith
  note b = bit_length_bounds [OF this]
  have "52 + sh < bit_length k"
    using le_less_trans [OF lo conjunct2 [OF b]] by (simp only: power_strict_increasing_iff one_less_numeral_iff semiring_norm)
  moreover have "bit_length k - 1 < 53 + sh"
    using le_less_trans [OF conjunct1 [OF b] hi] by (simp only: power_strict_increasing_iff one_less_numeral_iff semiring_norm)
  ultimately have "bit_length k - 53 = sh" by simp
  then have "nearest_code n d = sh * 2 ^ 52 + round_even (k div 2 ^ sh) (k mod 2 ^ sh * d + n * units mod d) (2 ^ sh * d)"
    unfolding nearest_code_def Let_def k_def [symmetric] by simp
  also have "\<dots> = sh * 2 ^ 52 + round_even (N div d) (N mod d) d"
    unfolding k r by (simp add: round_even_scale)
  finally show ?thesis unfolding N_def .
qed

lemma nearest_power_shift: "nearest_power s (n * 10 ^ k) (e - int k) = nearest_power s n e"
proof -
  consider "int k \<le> e" | "0 \<le> e" "e < int k" | "e < 0" by linarith
  then show ?thesis
  proof cases
    case 1
    then have "nat e = k + nat (e - int k)" by simp
    then have "n * 10 ^ nat e = n * 10 ^ k * 10 ^ nat (e - int k)" by (simp only: power_add mult.assoc)
    with 1 show ?thesis unfolding nearest_power_def by (simp only: diff_ge_0_iff_ge) simp
  next
    case 2
    then have "k = nat e + nat (int k - e)" by simp
    then have "n * 10 ^ k = 10 ^ nat (int k - e) * (n * 10 ^ nat e)"
      by (metis mult.assoc mult.commute power_add)
    moreover have "nearest_power s (n * 10 ^ k) (e - int k) = nearest_double s (n * 10 ^ k) (10 ^ nat (int k - e))"
      "nearest_power s n e = nearest_double s (n * 10 ^ nat e) 1"
      using 2 by (simp_all add: nearest_power_def)
    ultimately show ?thesis
      using nearest_double_scale [of "10 ^ nat (int k - e)" s "n * 10 ^ nat e" 1]
      by (simp only: mult_1_right zero_less_power zero_less_numeral)
  next
    case 3
    then have "nat (- (e - int k)) = k + nat (- e)" by simp
    then have "(10 :: nat) ^ nat (- (e - int k)) = 10 ^ k * 10 ^ nat (- e)" by (simp only: power_add)
    with 3 nearest_double_scale [of "10 ^ k" s n "10 ^ nat (- e)"]
    show ?thesis by (simp add: nearest_power_def mult.commute)
  qed
qed

subsection \<open>What the Ryu library returns\<close>

text \<open>
  As documented: scientific notation with one digit before the point, zero as \<open>0E0\<close>, in the buffer
  the code passes, and a decimal that rounds to the double.
\<close>

definition ryu_text :: "double \<Rightarrow> string \<Rightarrow> bool" where
  "ryu_text d x \<longleftrightarrow>
     (\<exists>sg c ds e. x = decimal_text sg [c] ds (CHR ''E'' # decimal_int e)
       \<and> number_sign sg \<and> is_digit c \<and> list_all is_digit ds
       \<and> (c = CHR ''0'' \<longrightarrow> ds = [] \<and> e = 0) \<and> (double_eq d double_zero \<longrightarrow> c = CHR ''0''))
     \<and> length x \<le> 32 \<and> token_double x = d"

lemma decimal_first: "\<exists>c cs. decimal n = c # cs \<and> is_digit c"
  using decimal_digits [of n] decimal_nonempty [of n] by (cases "decimal n") auto

lemma signed_digits_decimal [simp]: "signed_digits (decimal_int e) = e"
proof (cases "e < 0")
  case False
  obtain c cs where c: "decimal (nat e) = c # cs" "is_digit c" using decimal_first by blast
  have "digits_value 0 (decimal (nat e)) = nat e" by simp
  with c digit_not_mark [OF c(2)] False show ?thesis by (simp add: signed_digits_def decimal_int_def)
qed (simp add: signed_digits_def decimal_int_def)

lemma fold_digits:
  "list_all is_digit ds \<Longrightarrow> fold (\<lambda>c v. v * 10 + (int (of_char c) - 48)) ds (int a) = int (digits_value a ds)"
proof (induction ds arbitrary: a)
  case (Cons c ds)
  then have "int a * 10 + (int (of_char c) - 48) = int (a * 10 + digit_value c)"
    using digit_value_int [of c] by simp
  with Cons show ?case by (simp del: of_nat_add of_nat_mult)
qed simp

lemma exponent_value_decimal [simp]: "exponent_value (decimal_int e) = e"
proof (cases "e < 0")
  case True
  then show ?thesis using fold_digits [of "decimal (nat (- e))" 0] decimal_digits
    by (simp add: exponent_value_def decimal_int_def Let_def)
next
  case False
  obtain c cs where c: "decimal (nat e) = c # cs" "is_digit c" using decimal_first by blast
  have "fold (\<lambda>c v. v * 10 + (int (of_char c) - 48)) (decimal (nat e)) 0 = e"
    using fold_digits [of "decimal (nat e)" 0] decimal_digits [of "nat e"] False by simp
  with c digit_not_mark [OF c(2)] False show ?thesis by (simp add: exponent_value_def decimal_int_def)
qed

subsection \<open>The shape of the result\<close>

lemma digits_zeros: "digits_value a (replicate k (CHR ''0'')) = a * 10 ^ k"
  by (induction k arbitrary: a) (simp_all add: digit_value_def)

lemma is_digit_zero [simp]: "is_digit (CHR ''0'')"
  by (simp add: is_digit_def)

text \<open>The mantissa with its point removed.\<close>

lemma plain_parts:
  fixes e :: int
  assumes "number_sign sg" "is_digit c" "list_all is_digit ds"
  defines "x \<equiv> decimal_text sg [c] ds (CHR ''e'' # decimal_int e)"
  shows "plain_notation x =
    (if - 4 \<le> e \<and> e < 15 then sg @ place_point (c # ds) (1 + e) else x)"
proof -
  let ?m = "sg @ [c] @ (if ds = [] then [] else CHR ''.'' # ds)"
  have x: "x = ?m @ CHR ''e'' # decimal_int e" by (simp add: x_def decimal_text_def)
  have "list_all (\<lambda>b. b \<noteq> CHR ''e'') y" if "list_all is_digit y" for y
    using that by (induction y) auto
  from this [OF assms(3)] assms(1,2) have m: "list_all (\<lambda>b. b \<noteq> CHR ''e'') ?m"
    by (cases "sg = []") (auto simp: number_sign_def)
  have tw: "takeWhile (\<lambda>b. b \<noteq> CHR ''e'') x = ?m" unfolding x takeWhile_all [OF m] by simp
  have dw: "tl (dropWhile (\<lambda>b. b \<noteq> CHR ''e'') x) = decimal_int e" unfolding x dropWhile_all [OF m] by simp
  have c: "c \<noteq> CHR ''-''" "c \<noteq> CHR ''.''" using digit_not_mark [OF assms(2)] by simp_all
  consider "sg = []" | "sg = ''-''" using assms(1) by (auto simp: number_sign_def)
  then have neg: "(x \<noteq> [] \<and> hd x = CHR ''-'') = (sg \<noteq> [])"
    by cases (use c in \<open>simp_all add: x\<close>)
  from \<open>number_sign sg\<close> consider "sg = []" | "sg = ''-''" by (auto simp: number_sign_def)
  then have digits: "remove1 (CHR ''.'') (if sg \<noteq> [] then tl ?m else ?m) = c # ds"
    by cases (use c in simp_all)
  have mem: "CHR ''e'' \<in> set x" by (simp add: x)
  have "plain_notation x = (if - 4 \<le> e \<and> e < 15 then
      (if sg \<noteq> [] then CHR ''-'' # place_point (c # ds) (1 + e) else place_point (c # ds) (1 + e)) else x)"
    unfolding plain_notation_def Let_def neg tw dw digits exponent_value_decimal using mem by (simp only: simp_thms)
  with \<open>number_sign sg\<close> show ?thesis by (cases "sg = []") (simp_all add: number_sign_def)
qed

lemma digits_no_mark: "list_all is_digit x \<Longrightarrow> list_ex is_float_mark x = False"
  by (auto simp: list_all_iff list_ex_iff is_float_mark_def)

lemma sign_no_mark: "number_sign sg \<Longrightarrow> \<not> list_ex is_float_mark sg"
  by (auto simp: number_sign_def is_float_mark_def)

lemma lower_case_mark:
  assumes "number_sign sg" "is_digit c" "list_all is_digit ds"
  shows "map (\<lambda>c. if c = CHR ''E'' then CHR ''e'' else c) (decimal_text sg [c] ds (CHR ''E'' # decimal_int e))
    = decimal_text sg [c] ds (CHR ''e'' # decimal_int e)"
proof -
  have id: "map (\<lambda>c. if c = CHR ''E'' then CHR ''e'' else c) y = y" if "list_all is_digit y" for y
    using that by (induction y) auto
  have "map (\<lambda>c. if c = CHR ''E'' then CHR ''e'' else c) (decimal_int e) = decimal_int e"
    by (simp add: decimal_int_def id decimal_digits)
  moreover have "map (\<lambda>c. if c = CHR ''E'' then CHR ''e'' else c) sg = sg"
    using assms(1) by (auto simp: number_sign_def)
  ultimately show ?thesis using assms(2) id [OF assms(3)] by (auto simp: decimal_text_def)
qed

lemma formatDouble_shape:
  assumes x: "d2s d = decimal_text sg [c] ds (CHR ''E'' # decimal_int e)" "isfinite d"
    and s: "number_sign sg" "is_digit c" "list_all is_digit ds" "c = CHR ''0'' \<longrightarrow> ds = [] \<and> e = 0"
  shows "\<exists>i fs ex. formatDouble d2s d = decimal_text sg i fs ex \<and> token_shape sg i fs ex
    \<and> canonical_decimal i \<and> number_exponent ex \<and> (fs \<noteq> [] \<or> ex \<noteq> [])
    \<and> length i + length fs \<le> length ds + 20 \<and> length ex \<le> length (decimal_int e) + 1
    \<and> (ex = [] \<or> ex = CHR ''e'' # decimal_int e)
    \<and> (digits_value 0 (i @ fs) = 0 \<longleftrightarrow> digits_value 0 (c # ds) = 0)
    \<and> (length ds \<le> 16 \<longrightarrow> digits_value 0 (i @ fs) < 10 ^ 17)
    \<and> nearest_power n (digits_value 0 (i @ fs)) (signed_digits (tl ex) - int (length fs))
      = nearest_power n (digits_value 0 (c # ds)) (e - int (length ds))"
proof -
  let ?x = "decimal_text sg [c] ds (CHR ''e'' # decimal_int e)"
  have f: "formatDouble d2s d =
      (let r = plain_notation ?x in if list_ex is_float_mark r then r else r @ ''.0'')"
    unfolding formatDouble_def x(1) lower_case_mark [OF s(1-3)] using x(2) by simp
  note p = plain_parts [OF s(1-3), of e]
  have D: "list_all is_digit (c # ds)" using s(2,3) by simp
  have small: "digits_value 0 (c # ds) < 10 ^ 17" if "length ds \<le> 16"
  proof -
    have "digits_value 0 (c # ds) < (0 + 1) * 10 ^ length (c # ds)" by (rule digits_value_bound [OF D])
    also have "\<dots> \<le> 10 ^ 17" using power_increasing [of "length (c # ds)" 17 "10 :: nat"] that by simp
    finally show ?thesis .
  qed
  have canon: "canonical_decimal (c # y)" if "list_all is_digit y" "c = CHR ''0'' \<longrightarrow> y = []" for y
    using that s(2) by (simp add: canonical_decimal_def)
  consider "\<not> (- 4 \<le> e \<and> e < 15)" | "- 4 \<le> e" "e < 0"
    | "0 \<le> e" "e < 15" "int (length ds) \<le> e" | "0 \<le> e" "e < int (length ds)" "e < 15" by linarith
  then show ?thesis
  proof cases
    case 1
    have "list_ex is_float_mark ?x" by (simp add: decimal_text_def is_float_mark_def)
    then have "formatDouble d2s d = decimal_text sg [c] ds (CHR ''e'' # decimal_int e)"
      unfolding f p Let_def using 1 by (simp only: if_False if_True)
    moreover have "number_exponent (CHR ''e'' # decimal_int e)"
    proof -
      obtain sg2 z where "decimal_int e = sg2 @ z" "exponent_sign sg2" "digit_run z"
      proof (cases "e < 0")
        case True
        then show ?thesis using that [of "''-''" "decimal (nat (- e))"] decimal_digits
          by (simp add: decimal_int_def exponent_sign_def digit_run_def)
      next
        case False
        then show ?thesis using that [of "[]" "decimal (nat e)"] decimal_digits
          by (simp add: decimal_int_def exponent_sign_def digit_run_def)
      qed
      then show ?thesis unfolding number_exponent_def is_exponent_mark_def by blast
    qed
    ultimately show ?thesis using s canon [of "[]"] small
      by - (rule exI [of _ "[c]"], rule exI [of _ ds], rule exI [of _ "CHR ''e'' # decimal_int e"],
          simp add: token_shape_def is_exponent_mark_def)
  next
    case 2
    let ?fs = "replicate (nat (- (1 + e))) (CHR ''0'') @ c # ds"
    have "plain_notation ?x = decimal_text sg ''0'' ?fs []"
      unfolding p using 2 by (simp add: place_point_def decimal_text_def)
    moreover have "list_ex is_float_mark (decimal_text sg ''0'' ?fs [])"
      by (simp add: decimal_text_def is_float_mark_def)
    ultimately have "formatDouble d2s d = decimal_text sg ''0'' ?fs []" by (simp add: f)
    moreover have "digits_value 0 (''0'' @ ?fs) = digits_value 0 (c # ds)"
      by (simp add: digits_value_append digits_zeros digit_value_def)
    moreover have "- int (length ?fs) = e - int (length ds)" using 2 by simp
    moreover have "list_all is_digit ?fs" "length ?fs \<le> length ds + 19" using 2 D by (auto simp: list_all_iff)
    ultimately show ?thesis using s D 2 small
      by - (rule exI [of _ "''0''"], rule exI [of _ ?fs], rule exI [of _ "[]"],
          simp add: token_shape_def canonical_decimal_def number_exponent_def signed_digits_def)
  next
    case 3
    let ?k = "nat e - length ds"
    let ?i = "c # ds @ replicate ?k (CHR ''0'')"
    have dig: "list_all is_digit ?i" using s by (auto simp: list_all_iff)
    have "nat (1 + e) = Suc (nat e)" using 3 by simp
    then have "place_point (c # ds) (1 + e) = ?i" using 3 by (simp add: place_point_def)
    then have pl: "plain_notation ?x = sg @ ?i" unfolding p using 3 by simp
    have no: "list_ex is_float_mark (sg @ ?i) = False"
      using sign_no_mark [OF s(1)] digits_no_mark [OF dig] by simp
    have "formatDouble d2s d = (sg @ ?i) @ ''.0''" unfolding f Let_def pl no by simp
    then have "formatDouble d2s d = decimal_text sg ?i ''0'' []" by (simp add: decimal_text_def)
    moreover have val: "digits_value 0 (?i @ ''0'') = digits_value 0 (c # ds) * 10 ^ Suc ?k"
      by (simp add: digits_value_append digits_zeros digit_value_def)
    moreover have "- 1 = e - int (length ds) - int (Suc ?k)" using 3 by simp
    then have "nearest_power n (digits_value 0 (?i @ ''0'')) (- 1)
        = nearest_power n (digits_value 0 (c # ds)) (e - int (length ds))"
      unfolding val using nearest_power_shift by metis
    moreover have "canonical_decimal ?i"
      using s(4) dig by (intro canon) auto
    moreover have "length ?i + 1 \<le> length ds + 20" using 3 by simp
    moreover have "digits_value 0 (?i @ ''0'') < 10 ^ 17"
    proof -
      have "digits_value 0 (?i @ ''0'') < (0 + 1) * 10 ^ length (?i @ ''0'')"
        using dig by (intro digits_value_bound) simp
      also have "\<dots> \<le> 10 ^ 17" using power_increasing [of "length (?i @ ''0'')" 17 "10 :: nat"] 3 by simp
      finally show ?thesis .
    qed
    ultimately show ?thesis using s(1) dig
      by - (rule exI [of _ ?i], rule exI [of _ "''0''"], rule exI [of _ "[]"],
          simp add: token_shape_def number_exponent_def signed_digits_def)
  next
    case 4
    let ?i = "c # take (nat e) ds" and ?fs = "drop (nat e) ds"
    have fs: "?fs \<noteq> []" using 4 by simp
    have dig: "list_all is_digit ?i" "list_all is_digit ?fs"
      using s by (auto simp: list_all_iff dest: in_set_takeD in_set_dropD)
    have "nat (1 + e) = Suc (nat e)" using 4 by simp
    then have "place_point (c # ds) (1 + e) = ?i @ CHR ''.'' # ?fs"
      using 4 by (simp add: place_point_def)
    then have "plain_notation ?x = decimal_text sg ?i ?fs []"
      unfolding p using 4 fs by (simp add: decimal_text_def)
    moreover have "list_ex is_float_mark (decimal_text sg ?i ?fs [])"
      using fs by (simp add: decimal_text_def is_float_mark_def)
    ultimately have "formatDouble d2s d = decimal_text sg ?i ?fs []" by (simp add: f)
    moreover have "digits_value 0 (?i @ ?fs) = digits_value 0 (c # ds)" by simp
    moreover have "- int (length ?fs) = e - int (length ds)" using 4 by simp
    moreover have "c = CHR ''0'' \<longrightarrow> take (nat e) ds = []" using s(4) by auto
    ultimately show ?thesis using s(1) dig fs canon [of "take (nat e) ds"] small
      by - (rule exI [of _ ?i], rule exI [of _ ?fs], rule exI [of _ "[]"],
          simp add: token_shape_def number_exponent_def signed_digits_def)
  qed
qed

subsection \<open>Reading it back\<close>

lemma decimal_text_jnumber:
  "number_sign sg \<Longrightarrow> canonical_decimal i \<Longrightarrow> list_all is_digit fs \<Longrightarrow> number_exponent ex \<Longrightarrow>
    fs \<noteq> [] \<or> ex \<noteq> [] \<Longrightarrow> jnumber (decimal_text sg i fs ex) True"
  unfolding jnumber_def decimal_text_def
  by (rule exI [of _ sg], rule exI [of _ i], rule exI [of _ "if fs = [] then [] else CHR ''.'' # fs"],
      rule exI [of _ ex]) (simp add: number_fraction_def digit_run_def)

lemma formatDouble_token:
  assumes d: "isfinite d" and r: "ryu_text d (d2s d)"
  shows "jnumber (formatDouble d2s d) True"
    and "convertNumberToken uf (formatDouble d2s d) True policy = Inr (FloatingPoint d)"
    and "token_double (formatDouble d2s d) = d"
proof -
  from r obtain sg c ds e where x: "d2s d = decimal_text sg [c] ds (CHR ''E'' # decimal_int e)"
    "number_sign sg" "is_digit c" "list_all is_digit ds" "c = CHR ''0'' \<longrightarrow> ds = [] \<and> e = 0"
    "double_eq d double_zero \<longrightarrow> c = CHR ''0''" and len: "length (d2s d) \<le> 32"
    and val: "token_double (d2s d) = d"
    unfolding ryu_text_def by blast
  let ?n = "sg \<noteq> []" and ?t = "formatDouble d2s d"
  have shape: "token_shape sg [c] ds (CHR ''E'' # decimal_int e)"
    using x by (simp add: token_shape_def is_exponent_mark_def)
  obtain i fs ex where t: "?t = decimal_text sg i fs ex" "token_shape sg i fs ex"
    "canonical_decimal i" "number_exponent ex" "fs \<noteq> [] \<or> ex \<noteq> []"
    "length i + length fs \<le> length ds + 20" "length ex \<le> length (decimal_int e) + 1"
    "digits_value 0 (i @ fs) = 0 \<longleftrightarrow> digits_value 0 (c # ds) = 0"
    "nearest_power ?n (digits_value 0 (i @ fs)) (signed_digits (tl ex) - int (length fs))
      = nearest_power ?n (digits_value 0 (c # ds)) (e - int (length ds))"
    using formatDouble_shape [of d2s d sg c ds e ?n, OF x(1) d x(2-5)]
    by (elim exE conjE) (rule that; assumption)
  show j: "jnumber ?t True"
    unfolding t(1) using t(2-5) by (intro decimal_text_jnumber) (simp_all add: token_shape_def)
  show v: "token_double ?t = d"
    unfolding t(1) token_double_shape [OF t(2)] t(9)
    using val token_double_shape [OF shape] x(1) by simp
  have "length ?t \<le> length (d2s d) + 21"
    unfolding t(1) x(1) decimal_text_def using t(6,7)
    by (cases "fs = []"; cases "ds = []") simp_all
  with len have short: "length ?t < 10 ^ 9" by simp
  have "fst (token_ratio ?t) = 0" if "double_eq d double_zero"
  proof -
    have "digits_value 0 (c # ds) = 0" using x(5,6) that by (simp add: digit_value_def)
    then have "digits_value 0 (significand_digits ?t) = 0"
      unfolding t(1) token_of_shape(2) [OF t(2)] using t(8) by simp
    then show ?thesis by (simp add: token_ratio_def Let_def)
  qed
  with parseDouble_exact [OF j short, of uf] d v
  show "convertNumberToken uf ?t True policy = Inr (FloatingPoint d)"
    by (auto simp: convertNumberToken_def convert_floating_def)
qed

end
