(* ===== verification/Serialize_Roundtrip.thy ===== *)
theory Serialize_Roundtrip
  imports Serialize_Result Serialize_Number Parsed_Value
begin

section \<open>Reading the output back\<close>

text \<open>
  What the serializer writes is a text of the JSON grammar, compact or pretty, for the tree of the
  value; and that tree stands for the value, an unsigned number that fits the signed type read as
  signed.
\<close>

subsection \<open>Emissions without a failure\<close>

fun emitted :: "emission list \<Rightarrow> string option" where
  "emitted [] = Some []"
| "emitted (Emit x # es) = map_option ((@) x) (emitted es)"
| "emitted (e # es) = None"

lemma emitted_append [simp]:
  "emitted (a @ b) = Some x \<longleftrightarrow> (\<exists>y z. x = y @ z \<and> emitted a = Some y \<and> emitted b = Some z)"
proof (induction a arbitrary: x)
  case (Cons e a)
  then show ?case by (cases e) fastforce+
qed auto

lemma emitted_Emit [simp]:
  "emitted (Emit y # es) = Some x \<longleftrightarrow> (\<exists>z. x = y @ z \<and> emitted es = Some z)"
  by auto

lemma emitted_texts [simp]: "emitted (map Emit xs) = Some (concat xs)"
  by (induction xs) simp_all

declare emitted.simps(2) [simp del]

lemma budget_emitted: "budget limit n es = Inr x \<Longrightarrow> emitted es = Some x"
proof (induction es arbitrary: n x)
  case (Cons e es)
  then show ?case by (cases e) (auto split: if_splits)
qed simp

subsection \<open>Strings\<close>

lemma hex_digits_all: "list_all (\<lambda>n. hex_digit (hex_char n) = Some n) [0..<16]"
  by (simp add: upt_rec hex_char_def hex_digit_def less_eq_char_def)

lemma hex_digit_char: "n < 16 \<Longrightarrow> hex_digit (hex_char n) = Some n"
  using hex_digits_all by (simp add: list_all_iff)

lemma hex_digits_value:
  assumes "u < 65536"
  shows "hex4 [hex_char (drop_bit 12 u AND 0x0F), hex_char (drop_bit 8 u AND 0x0F),
      hex_char (drop_bit 4 u AND 0x0F), hex_char (u AND 0x0F)] 0 = Some u"
proof -
  have d: "u div 4096 < 16" using assms by (simp add: less_mult_imp_div_less)
  have s: "16 * (u div 16) + u mod 16 = u" "16 * (u div 16 div 16) + u div 16 mod 16 = u div 16"
    "16 * (u div 16 div 16 div 16) + u div 16 div 16 mod 16 = u div 16 div 16" by simp_all
  have e: "u div 256 = u div 16 div 16" "u div 4096 = u div 16 div 16 div 16"
    by (simp_all add: div_mult2_eq [symmetric])
  show ?thesis unfolding hex4_def hex_loop_number
    using d s by (simp add: hex_digit_char low_bits(2) drop_bit_eq_div e del: mult_div_mod_eq)
qed

lemma utf8_small: "cp < 0x80 \<Longrightarrow> utf8 cp = [char_of cp]"
  by (simp add: utf8_def)

lemma jchar_unicode:
  assumes "u < 65536" "scalar_value u"
  shows "jchar (unicode_escape u) (utf8 u)"
  unfolding unicode_escape_def
  using char_unicode [OF _ hex_digits_value [OF assms(1)] assms(2)] by simp

lemma jchar_pair:
  assumes "0xFFFF < cp" "scalar_value cp"
  shows "jchar (unicode_escape (0xD800 + drop_bit 10 (cp - 0x10000))
    @ unicode_escape (0xDC00 + ((cp - 0x10000) AND 0x3FF))) (utf8 cp)"
proof -
  let ?c = "cp - 0x10000"
  let ?hi = "0xD800 + drop_bit 10 ?c" and ?lo = "0xDC00 + (?c AND 0x3FF)"
  have cp: "cp \<le> 0x10FFFF" using assms(2) by (simp add: scalar_value_def)
  have hi: "drop_bit 10 ?c = ?c div 1024" by (simp add: drop_bit_eq_div)
  have lo: "?c AND 0x3FF = ?c mod 1024" using and_low [of ?c 10] by simp
  have "?c div 1024 < 1024" using cp by (simp add: less_mult_imp_div_less)
  then have h: "high_surrogate ?hi" "?hi < 65536" unfolding hi high_surrogate_def by simp_all
  have "?c mod 1024 < 1024" by simp
  then have l: "low_surrogate ?lo" "?lo < 65536" unfolding lo low_surrogate_def by linarith+
  have "surrogate_pair ?hi ?lo = 0x10000 + (?c div 1024 * 1024 + ?c mod 1024)"
    unfolding surrogate_pair_def hi lo by simp
  also have "\<dots> = cp" using assms(1) by (simp only: div_mult_mod_eq)
  finally have p: "surrogate_pair ?hi ?lo = cp" .
  show ?thesis
    using char_pair [OF _ hex_digits_value [OF h(2)] h(1) _ hex_digits_value [OF l(2)] l(1)]
    unfolding p unicode_escape_def by simp
qed

lemma fold_tail: "utf8_tail tail cp0 = Some cp \<Longrightarrow>
    fold (\<lambda>ck cp. push_bit 6 cp OR (byte ck AND 0x3F)) tail cp0 = cp"
  by (induction tail arbitrary: cp0) (auto simp: utf8_tail.simps(2) split: if_splits)

lemma code_point_utf8: "scalar_value cp \<Longrightarrow> 0x80 \<le> cp \<Longrightarrow> code_point (utf8 cp) = cp"
proof -
  assume "scalar_value cp" "0x80 \<le> cp"
  then have "utf8_sequence (utf8 cp) = Some cp" by (simp add: utf8_sequence_iff)
  then obtain c tail n cp0 lo where cs: "utf8 cp = c # tail" "utf8_lead (byte c) = Some (n, cp0, lo)"
    "Suc (length tail) = n" "utf8_tail tail cp0 = Some cp"
    by (auto simp: utf8_sequence_def split: list.splits option.splits if_splits)
  have "cp0 = (byte c AND (if n = 2 then 0x1F else if n = 3 then 0x0F else 0x07))"
    using cs(2) by (auto simp: utf8_lead_def split: if_splits)
  with fold_tail [OF cs(4)] show ?thesis unfolding code_point_def cs(1)
    by (simp only: list.sel length_Cons cs(3))
qed

lemma output_escape_decodes: "output_escape c = Some e \<Longrightarrow> simple_escape e = Some c"
  by (auto simp: output_escape_def simple_escape_def split: if_splits)

lemma char_emissions_jchar:
  assumes c: "char_emissions e src i = (n, es)" "emitted es = Some x" and i: "i < length src"
  shows "n \<noteq> 0 \<and> i + n \<le> length src \<and> jchar x (take n (drop i src))"
proof -
  let ?c = "src ! i" and ?m = "utf8Len src i (length src)"
  have one: "take 1 (drop i src) = [?c]" using i by (simp add: drop_nth_Cons)
  consider y where "output_escape ?c = Some y" | "output_escape ?c = None" "byte ?c < 0x20"
    | "output_escape ?c = None" "\<not> byte ?c < 0x20" "byte ?c < 0x80"
    | "output_escape ?c = None" "\<not> byte ?c < 0x80" "?m = 0"
    | "output_escape ?c = None" "\<not> byte ?c < 0x80" "?m \<noteq> 0" by fastforce
  then show ?thesis
  proof cases
    case (1 y)
    then have "jchar [backslash, y] [?c]" using char_escape output_escape_decodes by blast
    with 1 c one i show ?thesis by (auto simp: char_emissions_def)
  next
    case 2
    have "jchar (unicode_escape (byte ?c)) [?c]"
      using jchar_unicode [of "byte ?c"] 2(2) by (simp add: scalar_value_def utf8_small)
    with 2 c one i show ?thesis by (auto simp: char_emissions_def)
  next
    case 3
    then have "plain_char ?c" by (auto simp: plain_char_def output_escape_def split: if_splits)
    with 3 c one i char_plain show ?thesis by (auto simp: char_emissions_def)
  next
    case 4
    with c show ?thesis by (auto simp: char_emissions_def)
  next
    case 5
    have at: "i < length src" "length src \<le> length src" "0x80 \<le> byte ?c" using i 5 by simp_all
    from utf8Len_iff [OF at, of ?m] 5(3) obtain cp where cp: "i + ?m \<le> length src" "scalar_value cp"
      "0x80 \<le> cp" "take ?m (drop i src) = utf8 cp" by auto
    have n: "n = ?m" "emitted es = Some x"
      "es = (if \<not> e then [Emit (utf8 cp)] else map Emit (code_point_texts cp))"
      using 5 c cp by (auto simp: char_emissions_def code_point_utf8 Let_def split: if_splits)
    have "jchar x (utf8 cp)"
    proof (cases "\<not> e")
      case True
      then have "x = utf8 cp" using n by simp
      with char_utf8 [OF cp(2,3)] show ?thesis by simp
    next
      case False
      then have "x = concat (code_point_texts cp)" using n by simp
      with jchar_unicode [OF _ cp(2)] jchar_pair [OF _ cp(2)] show ?thesis
        by (auto simp: code_point_texts_def)
    qed
    with n(1) 5(3) cp(1,4) show ?thesis by simp
  qed
qed

lemma string_emissions_jchars:
  "emitted (string_emissions e src i) = Some x \<Longrightarrow> jchars x (drop i src)"
proof (induction e src i arbitrary: x rule: string_emissions.induct)
  case (1 e src i)
  show ?case
  proof (cases "i < length src")
    case True
    obtain n es where n: "char_emissions e src i = (n, es)" by fastforce
    from "1.prems" obtain y z where yz: "emitted es = Some y" "n \<noteq> 0 \<longrightarrow> x = y @ z"
      "n \<noteq> 0 \<longrightarrow> emitted (string_emissions e src (i + n)) = Some z"
      using True n by (auto simp: string_emissions.simps [of e src i] split: if_splits)
    from char_emissions_jchar [OF n yz(1) True] have c: "n \<noteq> 0" "jchar y (take n (drop i src))"
      by simp_all
    then have "jchars z (drop (i + n) src)" using "1.IH" [OF True n [symmetric]] yz(3) by simp
    moreover have "take n (drop i src) @ drop (i + n) src = drop i src"
      by (metis append_take_drop_id drop_drop add.commute)
    ultimately show ?thesis using chars_more [OF c(2), of z "drop (i + n) src"] c(1) yz(2) by simp
  next
    case False
    with "1.prems" show ?thesis by (simp add: string_emissions.simps [of e src i] chars_end)
  qed
qed

lemma quoted_emissions_text:
  "emitted (quoted_emissions opts s) = Some x \<Longrightarrow> \<exists>raw. x = dquote # raw \<and> jchars raw s"
  using string_emissions_jchars [of "so_escapeNonAscii opts" s 0] by (auto simp: quoted_emissions_def)

subsection \<open>Layout\<close>

lemma newline_spaces: "emitted (newline_emissions opts depth) = Some x \<Longrightarrow> spaces x"
  by (auto simp: newline_emissions_def indent_emission_def spaces_def list_all_iff split: if_splits)

definition lead_text :: "bool \<Rightarrow> string" where
  "lead_text first = (if first then [] else '','')"

lemma lead_emissions_text:
  "emitted (lead_emissions opts depth first None) = Some x \<Longrightarrow> \<exists>w. x = lead_text first @ w \<and> spaces w"
  "emitted (lead_emissions opts depth first (Some k)) = Some x \<Longrightarrow>
    \<exists>w raw s. x = lead_text first @ w @ quoted raw @ '':'' @ s \<and> spaces w \<and> jchars raw k \<and> spaces s"
proof -
  show "emitted (lead_emissions opts depth first None) = Some x \<Longrightarrow> \<exists>w. x = lead_text first @ w \<and> spaces w"
    using newline_spaces by (cases first) (auto simp: lead_emissions_def lead_text_def)
  assume x: "emitted (lead_emissions opts depth first (Some k)) = Some x"
  let ?q = "if so_pretty opts then dquote # '': '' else dquote # '':''"
  from x obtain w q where w: "x = lead_text first @ w @ q @ ?q" "spaces w"
    "emitted (quoted_emissions opts k) = Some q"
    using newline_spaces by (cases first) (auto simp: lead_emissions_def lead_text_def)
  obtain raw where "q = dquote # raw" "jchars raw k" using quoted_emissions_text [OF w(3)] by blast
  with w show "\<exists>w raw s. x = lead_text first @ w @ quoted raw @ '':'' @ s \<and> spaces w \<and> jchars raw k \<and> spaces s"
    by (intro exI [of _ w] exI [of _ raw] exI [of _ "if so_pretty opts then '' '' else []"])
      (simp add: quoted_def spaces_def)
qed

subsection \<open>Values\<close>

fun json_tree :: "(double \<Rightarrow> string) \<Rightarrow> json \<Rightarrow> jtree" where
  "json_tree d2s JNull = TNull"
| "json_tree d2s (JString x) = TString x"
| "json_tree d2s (JInt i) = TNumber (decimal_int (sint i)) False"
| "json_tree d2s (JUInt u) = TNumber (decimal (unat u)) False"
| "json_tree d2s (JDouble d) = TNumber (formatDouble d2s d) True"
| "json_tree d2s (JBool b) = TBool b"
| "json_tree d2s (JArray xs) = TArray (map (json_tree d2s) xs)"
| "json_tree d2s (JObject ms) = TObject (map (\<lambda>(k, v). (k, json_tree d2s v)) ms)"

fun all_doubles :: "(double \<Rightarrow> bool) \<Rightarrow> json \<Rightarrow> bool" where
  "all_doubles P (JDouble d) = P d"
| "all_doubles P (JArray xs) = list_all (all_doubles P) xs"
| "all_doubles P (JObject ms) = list_all (\<lambda>m. all_doubles P (snd m)) ms"
| "all_doubles P _ = True"

text \<open>What the serializer relies on: finite doubles, for which the library's text is as documented.\<close>

definition printable :: "(double \<Rightarrow> string) \<Rightarrow> double \<Rightarrow> bool" where
  "printable d2s d \<longleftrightarrow> isfinite d \<and> ryu_text d (d2s d)"

lemma decimal_int_jnumber: "jnumber (decimal_int i) False"
proof -
  have "jnumber (sg @ decimal n) False" if "number_sign sg" for sg n
    unfolding jnumber_def using that
    by - (rule exI [of _ sg], rule exI [of _ "decimal n"], rule exI [of _ "[]"], rule exI [of _ "[]"],
        simp add: number_fraction_def number_exponent_def)
  from this [of "[]"] this [of "''-''"] show ?thesis by (simp add: decimal_int_def number_sign_def)
qed

lemma decimal_jnumber: "jnumber (decimal n) False"
  using decimal_int_jnumber [of "int n"] by (simp add: decimal_int_def)

lemma emissions_jvalue:
  "all_doubles (printable d2s) v \<Longrightarrow> emitted (emissions d2s opts depth v) = Some x \<Longrightarrow>
    jvalue x (json_tree d2s v)"
  "list_all (all_doubles (printable d2s)) vs \<Longrightarrow> vs \<noteq> [] \<Longrightarrow>
    emitted (elements_emissions d2s opts depth first vs) = Some x \<Longrightarrow> spaces w \<Longrightarrow>
    \<exists>y. x = lead_text first @ y \<and> jelements (y @ w) (map (json_tree d2s) vs)"
  "list_all (\<lambda>m. all_doubles (printable d2s) (snd m)) ms \<Longrightarrow> ms \<noteq> [] \<Longrightarrow>
    emitted (members_emissions d2s opts depth first ms) = Some x \<Longrightarrow> spaces w \<Longrightarrow>
    \<exists>y. x = lead_text first @ y \<and> jmembers (y @ w) (map (\<lambda>(k, v). (k, json_tree d2s v)) ms)"
proof (induction d2s opts depth v and d2s opts depth first vs and d2s opts depth first ms
    arbitrary: x and x w and x w rule: emissions_elements_emissions_members_emissions.induct)
  case (2 d2s opts depth s)
  then obtain raw where "x = quoted raw" "jchars raw s"
    using quoted_emissions_text [of opts s] by (auto simp: quoted_def)
  then show ?case by (simp add: value_string)
next
  case (5 d2s opts depth d)
  then have "isfinite d" "ryu_text d (d2s d)" by (simp_all add: printable_def)
  with 5(2) formatDouble_token(1) show ?case by (simp add: double_emission_def value_number)
next
  case (7 d2s opts depth xs)
  show ?case
  proof (cases "xs = []")
    case True
    then show ?thesis using 7(3) value_empty_array [of "[]"] by (simp add: spaces_def)
  next
    case False
    from 7(3) False obtain y w where x: "x = ''['' @ y @ w @ '']''" "spaces w"
      "emitted (elements_emissions d2s opts (Suc depth) True xs) = Some y"
      using newline_spaces by auto
    from 7(1) [OF False _ False x(3,2)] 7(2) have "jelements (y @ w) (map (json_tree d2s) xs)"
      by (simp add: lead_text_def)
    from value_array [OF this] x(1) show ?thesis by simp
  qed
next
  case (8 d2s opts depth ms)
  show ?case
  proof (cases "ms = []")
    case True
    then show ?thesis using 8(3) value_empty_object [of "[]"] by (simp add: spaces_def)
  next
    case False
    from 8(3) False obtain y w where x: "x = ''{'' @ y @ w @ ''}''" "spaces w"
      "emitted (members_emissions d2s opts (Suc depth) True ms) = Some y"
      using newline_spaces by auto
    from 8(1) [OF False _ False x(3,2)] 8(2)
    have "jmembers (y @ w) (map (\<lambda>(k, v). (k, json_tree d2s v)) ms)" by (simp add: lead_text_def)
    from value_object [OF this] x(1) show ?thesis by simp
  qed
next
  case (10 d2s opts depth first v vs)
  from 10(5) obtain l s r where x: "x = l @ s @ r" "emitted (lead_emissions opts depth first None) = Some l"
    "emitted (emissions d2s opts depth v) = Some s"
    "emitted (elements_emissions d2s opts depth False vs) = Some r" by auto
  obtain a where a: "l = lead_text first @ a" "spaces a" using lead_emissions_text(1) [OF x(2)] by blast
  have s: "jvalue s (json_tree d2s v)" using 10(1) 10(3) x(3) by simp
  show ?case
  proof (cases "vs = []")
    case True
    with x(1,4) a element_last [OF a(2) s 10(6)] show ?thesis by simp
  next
    case False
    from 10(2) [OF _ False x(4) 10(6)] 10(3) obtain y where
      y: "r = '','' @ y" "jelements (y @ w) (map (json_tree d2s) vs)" by (auto simp: lead_text_def)
    have "spaces []" by (simp add: spaces_def)
    from element_more [OF a(2) s this y(2)] x(1) a(1) y(1) show ?thesis by simp
  qed
next
  case (12 d2s opts depth first k v ms)
  from 12(5) obtain l s r where x: "x = l @ s @ r" "emitted (lead_emissions opts depth first (Some k)) = Some l"
    "emitted (emissions d2s opts depth v) = Some s"
    "emitted (members_emissions d2s opts depth False ms) = Some r" by auto
  obtain a raw c where a: "l = lead_text first @ a @ quoted raw @ '':'' @ c" "spaces a" "jchars raw k" "spaces c"
    using lead_emissions_text(2) [OF x(2)] by blast
  have s: "jvalue s (json_tree d2s v)" using 12(1) 12(3) x(3) by simp
  have e: "spaces []" by (simp add: spaces_def)
  show ?case
  proof (cases "ms = []")
    case True
    with x(1,4) a(1) member_last [OF a(2,3) e a(4) s 12(6)] show ?thesis by simp
  next
    case False
    from 12(2) [OF _ False x(4) 12(6)] 12(3) obtain y where
      y: "r = '','' @ y" "jmembers (y @ w) (map (\<lambda>(k, v). (k, json_tree d2s v)) ms)"
      by (auto simp: lead_text_def)
    from member_more [OF a(2,3) e a(4) s e y(2)] x(1) a(1) y(1) show ?thesis by simp
  qed
qed (auto simp: value_null value_true value_false value_number decimal_int_jnumber decimal_jnumber)

subsection \<open>The value of the tree\<close>

text \<open>What comes back: an unsigned number that fits the signed type is read as signed.\<close>

fun reparsed :: "json \<Rightarrow> json" where
  "reparsed (JUInt u) = (if unat u < 2 ^ 63 then JInt u else JUInt u)"
| "reparsed (JArray xs) = JArray (map reparsed xs)"
| "reparsed (JObject ms) = JObject (map (\<lambda>(k, v). (k, reparsed v)) ms)"
| "reparsed v = v"

lemma integer_text_decimal_int: "integer_text (decimal_int i) = i"
proof (cases "i < 0")
  case True
  obtain c cs where c: "decimal (nat (- i)) = c # cs" "is_digit c" using decimal_first by blast
  have "digits_value 0 (decimal (nat (- i))) = nat (- i)" by simp
  with c digit_not_mark [OF c(2)] True show ?thesis
    by (simp add: integer_text_def token_negative_def token_unsigned_def decimal_int_def signed_digits_def)
next
  case False
  obtain c cs where c: "decimal (nat i) = c # cs" "is_digit c" using decimal_first by blast
  have "signed_digits (decimal_int i) = i" by simp
  with c digit_not_mark [OF c(2)] False show ?thesis
    by (simp add: integer_text_def token_negative_def token_unsigned_def decimal_int_def)
qed

lemma convert_int: "convertNumberToken uf (decimal_int (sint i)) False policy = Inr (SignedInteger (i :: i64))"
  using sint_range_size [of i] unfolding convertNumberToken_def Let_def integer_text_decimal_int
  by (simp add: word_size)

lemma convert_uint:
  "convertNumberToken uf (decimal (unat u)) False policy =
    Inr (if unat (u :: u64) < 2 ^ 63 then SignedInteger u else UnsignedInteger u)"
proof -
  have t: "integer_text (decimal (unat u)) = int (unat u)"
    using integer_text_decimal_int [of "int (unat u)"] by (simp add: decimal_int_def)
  have "unat u < 2 ^ 64" by (rule unat_less_2p64)
  moreover obtain c cs where c: "decimal (unat u) = c # cs" "is_digit c" using decimal_first by blast
  moreover have "uint u < 9223372036854775808 \<longleftrightarrow> unat u < 9223372036854775808"
    by (simp only: uint_nat of_nat_less_numeral_iff)
  moreover have "uint u < 18446744073709551616 \<longleftrightarrow> unat u < 18446744073709551616"
    by (simp only: uint_nat of_nat_less_numeral_iff)
  moreover have "- 9223372036854775808 \<le> uint u" using uint_ge_0 [of u] by linarith
  ultimately show ?thesis using digit_not_mark [OF c(2)]
    unfolding convertNumberToken_def Let_def t by auto
qed

lemma store_new: "map_of ms k = None \<Longrightarrow> store_member policy k v ms = ms @ [(k, v)]"
  by (simp add: store_member_def update_new_key)

lemma tree_members_new:
  "(\<And>k v. (k, v) \<in> set es \<Longrightarrow> tree_value uf opts (f v) = Some (g v)) \<Longrightarrow>
    distinct_keys es \<Longrightarrow> fst ` set es \<inter> fst ` set ms = {} \<Longrightarrow>
    tree_members uf opts (map (\<lambda>(k, v). (k, f v)) es) ms = Some (ms @ map (\<lambda>(k, v). (k, g v)) es)"
proof (induction es arbitrary: ms)
  case (Cons e es)
  obtain k v where e: "e = (k, v)" by (cases e)
  have new: "map_of ms k = None" using Cons.prems(3) e by (auto simp: map_of_eq_None_iff)
  have v: "tree_value uf opts (f v) = Some (g v)" using Cons.prems(1) [of k v] e by simp
  have "tree_members uf opts (map (\<lambda>(k, v). (k, f v)) es) (ms @ [(k, g v)])
      = Some ((ms @ [(k, g v)]) @ map (\<lambda>(k, v). (k, g v)) es)"
    using Cons.prems e by (intro Cons.IH) auto
  then show ?case using new v by (simp add: e store_new)
qed simp

lemma tree_elements_all:
  "(\<And>v. v \<in> set vs \<Longrightarrow> tree_value uf opts (f v) = Some (g v)) \<Longrightarrow>
    tree_elements uf opts (map f vs) = Some (map g vs)"
  by (induction vs) simp_all

lemma json_tree_value:
  "all_doubles (printable d2s) v \<Longrightarrow> wf_json v \<Longrightarrow> tree_value uf opts (json_tree d2s v) = Some (reparsed v)"
proof (induction d2s v rule: json_tree.induct)
  case (5 d2s d)
  then show ?case by (simp add: printable_def formatDouble_token(2))
next
  case (7 d2s xs)
  then have "tree_elements uf opts (map (json_tree d2s) xs) = Some (map reparsed xs)"
    by (intro tree_elements_all) (simp add: list_all_iff)
  then show ?case by simp
next
  case (8 d2s ms)
  then have "tree_members uf opts (map (\<lambda>(k, v). (k, json_tree d2s v)) ms) []
      = Some ([] @ map (\<lambda>(k, v). (k, reparsed v)) ms)"
    by (intro tree_members_new) (fastforce simp: list_all_iff)+
  then show ?case by simp
qed (simp_all add: convert_int convert_uint)

lemma json_tree_size:
  "tree_nodes (json_tree d2s v) = nodes v" "tree_depth (json_tree d2s v) = nesting v"
proof (induction d2s v rule: json_tree.induct)
  case (7 d2s xs)
  {
    case 1
    from 7(1) have "map (tree_nodes \<circ> json_tree d2s) xs = map nodes xs" by simp
    then show ?case by (simp only: json_tree.simps tree_nodes.simps nodes.simps map_map)
  next
    case 2
    from 7(2) have "map (tree_depth \<circ> json_tree d2s) xs = map nesting xs" by simp
    then show ?case by (simp only: json_tree.simps tree_depth.simps nesting.simps map_map)
  }
next
  case (8 d2s ms)
  {
    case 1
    from 8(1) have "map ((\<lambda>m. tree_nodes (snd m)) \<circ> (\<lambda>(k, v). (k, json_tree d2s v))) ms = map (\<lambda>m. nodes (snd m)) ms"
      by (fastforce simp: split_beta)
    then show ?case by (simp only: json_tree.simps tree_nodes.simps nodes.simps map_map)
  next
    case 2
    from 8(2) have "map ((\<lambda>m. tree_depth (snd m)) \<circ> (\<lambda>(k, v). (k, json_tree d2s v))) ms = map (\<lambda>m. nesting (snd m)) ms"
      by (fastforce simp: split_beta)
    then show ?case by (simp only: json_tree.simps tree_depth.simps nesting.simps map_map)
  }
qed simp_all

end
