(* ===== verification/Serializer_Properties.thy ===== *)
theory Serializer_Properties
  imports Parser_Properties Serialize_Roundtrip
begin

section \<open>Properties of the serializer\<close>

text \<open>
  The public operations against the reference text, what the text may contain, and the round trip
  through the parser.
\<close>

subsection \<open>The exception a failure becomes\<close>

definition serialize_exception :: "SerializeError_Code \<Rightarrow> cpp_exception" where
  "serialize_exception code =
     (if code = InvalidUtf8 then invalid_argument msg_utf8
      else if code = NonFiniteNumber then invalid_argument msg_not_finite
      else length_error msg_toString_limit)"

lemma count_success: "serialized d2s opts v = Inr x \<Longrightarrow> \<exists>s. count_value d2s v opts = Inr (True, s)"
  using count_value_counts [of d2s opts v] by (simp add: counts_def)

lemma count_failure:
  "serialized d2s opts v = Inl code \<Longrightarrow>
    \<exists>s. count_value d2s v opts = Inr (False, s) \<and> preflight_error s = serialize_error code
      \<and> cs_invalidUtf8 s = (code = InvalidUtf8) \<and> cs_invalidNumber s = (code = NonFiniteNumber)"
  using count_value_counts [of d2s opts v]
  by (auto simp: counts_def preflight_error_def serialize_error_def)

lemma toString_success: "toString_with d2s v opts = Inr x \<longleftrightarrow> serialized d2s opts v = Inr x"
proof (cases "serialized d2s opts v")
  case (Inl code)
  with count_failure [OF Inl] show ?thesis by (auto simp: toString_with_def)
next
  case (Inr y)
  with count_success [OF Inr] appendValue_text [OF Inr] show ?thesis
    by (auto simp: toString_with_def)
qed

subsection \<open>The bytes of the output\<close>

definition clean_byte :: "char \<Rightarrow> bool" where
  "clean_byte c \<longleftrightarrow> byte c < 0x80 \<and> (0x20 \<le> byte c \<or> c = char_lf \<or> c = char_tab)"

fun clean :: "emission \<Rightarrow> bool" where
  "clean (Emit x) = list_all clean_byte x"
| "clean _ = True"

lemma digits_clean: "list_all is_digit x \<Longrightarrow> list_all clean_byte x"
  by (auto simp: list_all_iff clean_byte_def is_digit_def less_eq_char_def)

lemma hex_char_clean: "clean_byte (hex_char (n AND 0x0F))"
proof -
  have "n AND 0x0F < 16" using low_bits(2) [of n] by simp
  then have "hex_char (n AND 0x0F) \<in> set ''0123456789abcdef''"
    unfolding hex_char_def by (intro nth_mem) simp
  then show ?thesis by (auto simp: clean_byte_def)
qed

lemma unicode_escape_clean: "list_all clean_byte (unicode_escape u)"
  by (simp add: unicode_escape_def hex_char_clean) (simp add: clean_byte_def)

lemma output_escape_clean: "output_escape c = Some e \<Longrightarrow> clean_byte e"
  by (auto simp: output_escape_def clean_byte_def split: if_splits)

lemma char_emissions_clean: "char_emissions True src i = (n, es) \<Longrightarrow> list_all clean es"
  using unicode_escape_clean output_escape_clean
  by (auto simp: char_emissions_def code_point_texts_def clean_byte_def Let_def split: option.splits if_splits)

lemma string_emissions_clean: "list_all clean (string_emissions True src i)"
proof (induction True src i rule: string_emissions.induct)
  case (1 src i)
  obtain n es where n: "char_emissions True src i = (n, es)" by fastforce
  with 1 char_emissions_clean [OF n] show ?case by (simp add: string_emissions.simps [of True src i])
qed

lemma marks_clean:
  "clean_byte (CHR ''-'')" "clean_byte (CHR ''+'')" "clean_byte (CHR ''.'')" "clean_byte (CHR ''e'')"
  "clean_byte (CHR ''E'')"
  by (simp_all add: clean_byte_def)

lemma jnumber_clean: "jnumber t f \<Longrightarrow> list_all clean_byte t"
proof -
  assume "jnumber t f"
  then obtain sg i fr ex where t: "t = sg @ i @ fr @ ex" "number_sign sg" "canonical_decimal i"
    "number_fraction fr" "number_exponent ex"
    unfolding jnumber_def by blast
  have "list_all clean_byte sg" using t(2) marks_clean by (auto simp: number_sign_def)
  moreover have "list_all clean_byte i" using t(3) digits_clean by (simp add: canonical_decimal_def)
  moreover have "list_all clean_byte fr" using t(4) digits_clean marks_clean
    by (auto simp: number_fraction_def digit_run_def)
  moreover have "list_all clean_byte ex"
  proof (cases "ex = []")
    case False
    with t(5) obtain e sg ds where "ex = e # sg @ ds" "is_exponent_mark e" "exponent_sign sg" "digit_run ds"
      unfolding number_exponent_def by blast
    then show ?thesis using digits_clean marks_clean
      by (auto simp: is_exponent_mark_def exponent_sign_def digit_run_def)
  qed simp
  ultimately show ?thesis by (simp add: t(1))
qed

lemma newline_emissions_clean: "list_all clean (newline_emissions opts depth)"
  by (auto simp: newline_emissions_def indent_emission_def clean_byte_def list_all_iff)

lemma lead_emissions_clean: "so_escapeNonAscii opts \<Longrightarrow> list_all clean (lead_emissions opts depth first key)"
  using newline_emissions_clean string_emissions_clean
  by (cases key) (auto simp: lead_emissions_def quoted_emissions_def clean_byte_def)

lemma double_emission_clean:
  "isfinite d \<longrightarrow> ryu_text d (d2s d) \<Longrightarrow> clean (double_emission d2s opts d)"
  using jnumber_clean [OF formatDouble_token(1), of d d2s]
  by (auto simp: double_emission_def clean_byte_def split: NonFinitePolicy.split)

lemma emissions_clean:
  "so_escapeNonAscii opts \<Longrightarrow> all_doubles (\<lambda>d. isfinite d \<longrightarrow> ryu_text d (d2s d)) v \<Longrightarrow>
    list_all clean (emissions d2s opts depth v)"
  "so_escapeNonAscii opts \<Longrightarrow> list_all (all_doubles (\<lambda>d. isfinite d \<longrightarrow> ryu_text d (d2s d))) vs \<Longrightarrow>
    list_all clean (elements_emissions d2s opts depth first vs)"
  "so_escapeNonAscii opts \<Longrightarrow> list_all (\<lambda>m. all_doubles (\<lambda>d. isfinite d \<longrightarrow> ryu_text d (d2s d)) (snd m)) ms \<Longrightarrow>
    list_all clean (members_emissions d2s opts depth first ms)"
proof (induction d2s opts depth v and d2s opts depth first vs and d2s opts depth first ms
    rule: emissions_elements_emissions_members_emissions.induct)
  case (2 d2s opts depth x)
  then show ?case using string_emissions_clean [of x 0] by (simp add: quoted_emissions_def clean_byte_def)
next
  case (3 d2s opts depth i)
  then show ?case using jnumber_clean [OF decimal_int_jnumber] by simp
next
  case (4 d2s opts depth u)
  then show ?case using jnumber_clean [OF decimal_jnumber] by simp
next
  case (5 d2s opts depth d)
  then show ?case using double_emission_clean by simp
qed (use newline_emissions_clean lead_emissions_clean in \<open>auto simp: clean_byte_def\<close>)

lemma emitted_clean: "list_all clean es \<Longrightarrow> emitted es = Some x \<Longrightarrow> list_all clean_byte x"
proof (induction es arbitrary: x)
  case (Cons e es)
  then show ?case by (cases e) auto
qed simp

subsection \<open>The round trip\<close>

lemma serialized_document:
  assumes "serialized d2s opts v = Inr x" "all_doubles (printable d2s) v"
  shows "jdocument x (json_tree d2s v)"
  using emissions_jvalue(1) [OF assms(2) budget_emitted] assms(1) document_value
  unfolding serialized_def by blast

lemma parse_serialized:
  assumes "serialized d2s opts v = Inr x" "all_doubles (printable d2s) v" "wf_json v"
    "nesting v \<le> clampParseDepth (po_maxDepth popts)"
    "po_maxNodes popts = 0 \<or> nodes v \<le> po_maxNodes popts"
    "po_maxInputBytes popts = 0 \<or> length x \<le> po_maxInputBytes popts"
  shows "parser_parse uf popts x = (reparsed v, resetParseError)"
  using parse_document [OF serialized_document [OF assms(1,2)] _ json_tree_value [OF assms(2,3)] assms(6)]
    assms(4,5) by (simp add: within_limits_def json_tree_size)

text \<open>A double whose text is \<open>1E0\<close>.\<close>

definition double_one :: double where "double_one = double_of_int 1"

lemma double_one_text: "ryu_text double_one ''1E0''" "isfinite double_one"
proof -
  have shape: "token_shape [] ''1'' [] ''E0''"
    by (simp add: token_shape_def number_sign_def is_exponent_mark_def is_digit_def)
  have form: "decimal_text [] ''1'' [] (CHR ''E'' # decimal_int 0) = ''1E0''"
    by (simp add: decimal_text_def decimal_int_def)
  have val: "token_double ''1E0'' = double_one"
    using token_double_shape [OF shape]
    by (simp add: decimal_text_def signed_digits_def digit_value_def nearest_power_def double_one_def double_of_int_def)
  have "scaled double_one = 1 * int units" "isfinite double_one"
    using double_of_int_exact [of 1 1 0] by (simp_all add: double_one_def)
  moreover have "units \<noteq> 0" by (simp add: units_def)
  moreover have "scaled double_zero = 0" by (simp add: scaled_def double_zero_def code_magnitude_def double_code_def)
  ultimately have zero: "\<not> double_eq double_one double_zero" by (simp add: double_eq_def)
  show "ryu_text double_one ''1E0''"
    unfolding ryu_text_def
    by (intro conjI, rule exI [of _ "[]"], rule exI [of _ "CHR ''1''"], rule exI [of _ "[]"], rule exI [of _ 0])
      (simp_all add: form val zero number_sign_def is_digit_def)
  show "isfinite double_one" by fact
qed

subsection \<open>The properties\<close>

text \<open>C26: \<open>toString\<close> is transactional and exact: both overloads fail or succeed with the same reference
  text; on failure the caller's string keeps its bytes and the error names the first thing in text
  order that went wrong, on success the string is the whole text, and the counting run never
  disagrees with the writing run.\<close>

theorem toString_transactional:
  "toString_into d2s v out opts =
     (case serialized d2s opts v of
        Inl code \<Rightarrow> (False, out, serialize_error code)
      | Inr x \<Rightarrow> (True, x, resetSerializeError))
   \<and> toString_with d2s v opts =
     (case serialized d2s opts v of
        Inl code \<Rightarrow> Inl (serialize_exception code)
      | Inr x \<Rightarrow> Inr x)"
proof (cases "serialized d2s opts v")
  case (Inl code)
  with count_failure [OF Inl] show ?thesis
    by (auto simp: toString_into_def toString_with_def serialize_exception_def)
next
  case (Inr x)
  with count_success [OF Inr] appendValue_text [OF Inr] show ?thesis
    by (auto simp: toString_into_def toString_with_def)
qed

text \<open>C27: Writing to a stream delivers nothing when the value cannot be serialized, and otherwise
  hands the reference text to the stream once: it succeeds exactly when the stream took it all,
  and reports a stream failure otherwise, with whatever prefix the stream accepted. A text
  longer than the largest stream size is not covered.\<close>

theorem write_delivers:
  assumes "\<And>x. serialized d2s opts v = Inr x \<Longrightarrow> length x \<le> streamsize_max"
  shows "write_into d2s v out opts =
    (case serialized d2s opts v of
       Inl code \<Rightarrow> (False, setstate_fail out, serialize_error code)
     | Inr x \<Rightarrow>
         if os_failed (ostream_write x out)
         then (False, ostream_write x out, setSerializeError StreamFailure msg_stream_write)
         else (True, ostream_write x out, resetSerializeError))"
proof (cases "serialized d2s opts v")
  case (Inl code)
  with count_failure [OF Inl] show ?thesis by (auto simp: write_into_def)
next
  case (Inr x)
  from stream_text [OF Inr assms [OF Inr]] obtain s where
    "writeValueTo d2s stream_sink opts v (new_stream_sink out) = Inr (\<not> os_failed (st_out s), s)"
    "st_out s = ostream_write x out" by blast
  with count_success [OF Inr] Inr show ?thesis
    by (cases "os_failed (ostream_write x out)") (auto simp: write_into_def)
qed

lemma serialized_true: "serialized d2s default_serialize_options (JArray [JBool True]) = Inr ''[true]''"
  by (simp add: serialized_def default_serialize_options_def lead_emissions_def newline_emissions_def)

theorem write_delivers_witness:
  "write_into (\<lambda>d. []) (JArray [JBool True]) \<lparr>os_bytes = ''x'', os_room = Some 3, os_failed = False\<rparr>
      default_serialize_options
    = (False, \<lparr>os_bytes = ''x[tr'', os_room = Some 0, os_failed = True\<rparr>,
        setSerializeError StreamFailure msg_stream_write)"
  using write_delivers [of "\<lambda>d. []" default_serialize_options "JArray [JBool True]"
      "\<lparr>os_bytes = ''x'', os_room = Some 3, os_failed = False\<rparr>"]
  by (simp add: serialized_true streamsize_max_def ostream_write_def)

text \<open>C28: A text is never longer than \<open>maxOutputBytes\<close>, when that is set, nor than the largest
  \<open>size_t\<close>; with \<open>escapeNonAscii\<close> every byte of it is ASCII, and no control character but the
  line breaks and tabs of the layout occurs in it.\<close>

theorem output_bounded:
  assumes "toString_with d2s v opts = Inr x"
    and "all_doubles (\<lambda>d. isfinite d \<longrightarrow> ryu_text d (d2s d)) v"
  shows "length x \<le> size_max \<and> (so_maxOutputBytes opts \<noteq> 0 \<longrightarrow> length x \<le> so_maxOutputBytes opts)
    \<and> (so_escapeNonAscii opts \<longrightarrow>
        list_all (\<lambda>c. byte c < 0x80 \<and> (0x20 \<le> byte c \<or> c = char_lf \<or> c = char_tab)) x)"
proof -
  from assms(1) have b: "budget (so_maxOutputBytes opts) 0 (emissions d2s opts 0 v) = Inr x"
    by (simp add: toString_success serialized_def)
  have "list_all clean_byte x" if "so_escapeNonAscii opts"
    using emitted_clean [OF emissions_clean(1) [OF that assms(2)] budget_emitted [OF b]] .
  with budget_size [OF b] show ?thesis unfolding clean_byte_def by simp
qed

lemma formatDouble_one: "formatDouble (\<lambda>d. ''1E0'') double_one = ''1.0''"
  using double_one_text(2)
  by (simp add: formatDouble_def plain_notation_def exponent_value_def place_point_def is_float_mark_def)

text \<open>An accented letter and a double, in a budget that the text just fits.\<close>

definition ascii_options :: SerializeOptions where
  "ascii_options = default_serialize_options\<lparr>so_escapeNonAscii := True, so_maxOutputBytes := 14\<rparr>"

definition accented :: string where
  "accented = [CHR 0xC3, CHR 0xA9]"

lemma accented_emissions: "string_emissions True accented 0 = [Emit (backslash # ''u00e9'')]"
proof -
  have "utf8Len accented 0 2 = 2"
    by (simp add: utf8Len_def utf8_lead_def utf8_tail.simps accented_def Let_def push_bit_eq_mult flip: numeral_3_eq_3)
  moreover have "code_point accented = 0xE9"
    by (simp add: code_point_def accented_def push_bit_eq_mult flip: numeral_3_eq_3)
  moreover have "unicode_escape 0xE9 = backslash # ''u00e9''"
    by (simp add: unicode_escape_def hex_char_def drop_bit_eq_div)
  moreover have "output_escape (accented ! 0) = None" "take 2 accented = accented" "length accented = 2" "byte (accented ! 0) = 0xC3"
    by (simp_all add: output_escape_def accented_def)
  ultimately have "char_emissions True accented 0 = (2, [Emit (backslash # ''u00e9'')])" "length accented = 2"
    by (simp_all add: char_emissions_def code_point_texts_def Let_def)
  then show ?thesis
    by (simp add: string_emissions.simps [of True accented 0] string_emissions.simps [of True accented "Suc (Suc 0)"])
qed

lemma toString_accented:
  "toString_with (\<lambda>d. ''1E0'') (JArray [JString accented, JDouble double_one]) ascii_options
     = Inr (''['' @ [dquote, backslash] @ ''u00e9'' @ [dquote] @ '',1.0]'')"
  using double_one_text(2) accented_emissions
  by (simp add: toString_success serialized_def ascii_options_def default_serialize_options_def lead_emissions_def
        newline_emissions_def double_emission_def formatDouble_one quoted_emissions_def)
theorem output_bounded_witness:
  "case toString_with (\<lambda>d. ''1E0'') (JArray [JString accented, JDouble double_one]) ascii_options of
     Inl e \<Rightarrow> False
   | Inr x \<Rightarrow> x = ''['' @ [dquote, backslash] @ ''u00e9'' @ [dquote] @ '',1.0]'' \<and> length x \<le> 14
       \<and> list_all (\<lambda>c. byte c < 0x80 \<and> (0x20 \<le> byte c \<or> c = char_lf \<or> c = char_tab)) x"
proof -
  have "all_doubles (\<lambda>d. isfinite d \<longrightarrow> ryu_text d ''1E0'') (JArray [JString accented, JDouble double_one])"
    using double_one_text(1) by simp
  from output_bounded [OF toString_accented this] show ?thesis
    unfolding toString_accented sum.case by (simp add: ascii_options_def)
qed

text \<open>C29: \<open>formatDouble\<close> turns the Ryu library's text of a finite double into a JSON number with a
  fraction or an exponent that denotes a decimal with the same nearest double, so that converting
  the token gives back the same bits as a double, under every number policy.\<close>

theorem formatDouble_roundtrip:
  assumes "isfinite d" "ryu_text d (d2s d)"
  shows "jnumber (formatDouble d2s d) True
    \<and> convertNumberToken uf (formatDouble d2s d) True policy = Inr (FloatingPoint d)"
  using formatDouble_token [of d d2s, OF assms] by blast

theorem formatDouble_roundtrip_witness:
  "convertNumberToken True ''1.0'' True RejectUnrepresentableNumbers = Inr (FloatingPoint double_one)"
  using formatDouble_roundtrip [of double_one "\<lambda>d. ''1E0''" True RejectUnrepresentableNumbers] double_one_text
  by (simp add: formatDouble_one)

text \<open>C30: What \<open>toString\<close> writes, compact or pretty, escaped or not, the DOM parser reads back as the same
  value; only an unsigned number that fits \<open>int64_t\<close> comes back as
  signed. The value's objects have distinct names, its doubles are finite, and it stays within the
  parser's limits.\<close>

theorem parse_toString:
  assumes "toString_with d2s v opts = Inr x"
    and "all_doubles (printable d2s) v" "wf_json v"
    and "nesting v \<le> clampParseDepth (po_maxDepth popts)"
    and "po_maxNodes popts = 0 \<or> nodes v \<le> po_maxNodes popts"
    and "po_maxInputBytes popts = 0 \<or> length x \<le> po_maxInputBytes popts"
  shows "parser_parse uf popts x = (reparsed v, resetParseError)"
proof -
  from assms(1) have "serialized d2s opts v = Inr x" by (simp add: toString_success)
  from parse_serialized [OF this assms(2-6)] show ?thesis .
qed

lemma toString_numbers:
  "toString_with (\<lambda>d. ''1E0'') (JArray [JUInt 5, JDouble double_one]) default_serialize_options = Inr ''[5,1.0]''"
proof -
  have "digit_char 5 = CHR ''5''"
    using digit_char_value [of "CHR ''5''"] by (simp add: is_digit_def digit_value_def less_eq_char_def)
  then have "decimal 5 = ''5''" by (simp add: decimal.simps [of 5])
  then show ?thesis using double_one_text(2)
    by (simp add: toString_success serialized_def default_serialize_options_def lead_emissions_def
        newline_emissions_def double_emission_def formatDouble_one)
qed

theorem parse_toString_witness:
  "parser_parse True default_parser_options ''[5,1.0]''
    = (JArray [JInt 5, JDouble double_one], resetParseError)"
  using parse_toString [OF toString_numbers, of default_parser_options True] double_one_text
  by (simp add: printable_def default_parser_options_def clampParseDepth_def DepthHardLimit_def)

end
