(* ===== verification/Key_Hash.thy ===== *)
theory Key_Hash
  imports Utf8
begin

section \<open>The hash of object names\<close>

text \<open>
  \<open>pjsonImpl::ObjectHash\<close> of \<open>pjson.cpp\<close>: SipHash-2-4 with a key drawn once per process. All
  arithmetic is on \<open>uint64_t\<close>, so it wraps. The clock, the address of the function and the random
  device that the key is drawn from are parameters. The reference is the algorithm of the SipHash
  paper: the message as a list of little-endian words with the length in the last, compressed in
  turn and finalised.
\<close>

subsection \<open>The code\<close>

definition mixObjectHashSeed :: "u64 \<Rightarrow> u64" where
  "mixObjectHashSeed val =
     (let v = val XOR drop_bit 30 val;
          v = v * 0xbf58476d1ce4e5b9;
          v = v XOR drop_bit 27 v;
          v = v * 0x94d049bb133111eb
      in v XOR drop_bit 31 v)"

record ObjectHashKey =
  hk_first :: u64
  hk_second :: u64

text \<open>Four draws of the random device, or \<^const>\<open>None\<close> when it throws.\<close>

definition objectHashKey :: "u64 \<Rightarrow> u64 \<Rightarrow> (u64 \<times> u64 \<times> u64 \<times> u64) option \<Rightarrow> ObjectHashKey" where
  "objectHashKey clock address random =
     (let result = \<lparr>hk_first = mixObjectHashSeed (clock XOR address),
        hk_second = mixObjectHashSeed (NOT clock XOR push_bit 1 address)\<rparr>
      in case random of
           None \<Rightarrow> result
         | Some (a, b, c, d) \<Rightarrow>
             let first = push_bit 32 a XOR b; second = push_bit 32 c XOR d
             in result\<lparr>hk_first := mixObjectHashSeed (hk_first result XOR first),
                  hk_second := mixObjectHashSeed (hk_second result XOR second)\<rparr>)"

definition rotateLeft :: "u64 \<Rightarrow> nat \<Rightarrow> u64" where
  "rotateLeft val shift = push_bit shift val OR drop_bit (64 - shift) val"

type_synonym sip_state = "u64 \<times> u64 \<times> u64 \<times> u64"

definition sipRound :: "sip_state \<Rightarrow> sip_state" where
  "sipRound = (\<lambda>(v0, v1, v2, v3).
     let v0 = v0 + v1;
         v1 = rotateLeft v1 13;
         v1 = v1 XOR v0;
         v0 = rotateLeft v0 32;
         v2 = v2 + v3;
         v3 = rotateLeft v3 16;
         v3 = v3 XOR v2;
         v0 = v0 + v3;
         v3 = rotateLeft v3 21;
         v3 = v3 XOR v0;
         v2 = v2 + v1;
         v1 = rotateLeft v1 17;
         v1 = v1 XOR v2;
         v2 = rotateLeft v2 32
     in (v0, v1, v2, v3))"

text \<open>\<open>n\<close> bytes from \<open>offset\<close>, or-ed into a word.\<close>

definition key_byte :: "string \<Rightarrow> nat \<Rightarrow> u64" where
  "key_byte aKey i = word_of_nat (byte (aKey ! i))"

definition load_bytes :: "string \<Rightarrow> nat \<Rightarrow> nat \<Rightarrow> u64 \<Rightarrow> u64" where
  "load_bytes aKey offset n w = fold (\<lambda>i w. w OR push_bit (i * 8) (key_byte aKey (offset + i))) [0..<n] w"

definition absorb_word :: "u64 \<Rightarrow> sip_state \<Rightarrow> sip_state" where
  "absorb_word w = (\<lambda>(v0, v1, v2, v3).
     case sipRound (sipRound (v0, v1, v2, v3 XOR w)) of (v0, v1, v2, v3) \<Rightarrow> (v0 XOR w, v1, v2, v3))"

text \<open>The loop over whole words: the state and the offset where it ends.\<close>

function absorb_blocks :: "string \<Rightarrow> nat \<Rightarrow> sip_state \<Rightarrow> sip_state \<times> nat" where
  "absorb_blocks aKey offset s =
     (if length aKey - offset \<ge> 8
      then absorb_blocks aKey (offset + 8) (absorb_word (load_bytes aKey offset 8 0) s)
      else (s, offset))"
  by pat_completeness auto
termination by (relation "measure (\<lambda>(k, offset, s). length k - offset)") auto

declare absorb_blocks.simps [simp del]

definition object_hash :: "ObjectHashKey \<Rightarrow> string \<Rightarrow> u64" where
  "object_hash key aKey =
     (case absorb_blocks aKey 0
         (0x736f6d6570736575 XOR hk_first key, 0x646f72616e646f6d XOR hk_second key,
          0x6c7967656e657261 XOR hk_first key, 0x7465646279746573 XOR hk_second key) of
        (s, offset) \<Rightarrow>
          let tail = load_bytes aKey offset (length aKey - offset) (push_bit 56 (word_of_nat (length aKey)))
          in case absorb_word tail s of (v0, v1, v2, v3) \<Rightarrow>
               case (sipRound ^^ 4) (v0, v1, v2 XOR 0xff, v3) of (v0, v1, v2, v3) \<Rightarrow>
                 v0 XOR v1 XOR v2 XOR v3)"

subsection \<open>The algorithm of the paper\<close>

text \<open>A rotation is the library's rotation of words.\<close>

definition sip_round_ref :: "sip_state \<Rightarrow> sip_state" where
  "sip_round_ref = (\<lambda>(a, b, c, d).
     let a = a + b; c = c + d;
         b = word_rotl 13 b XOR a; d = word_rotl 16 d XOR c;
         a = word_rotl 32 a;
         c = c + b; a = a + d;
         b = word_rotl 17 b XOR c; d = word_rotl 21 d XOR a;
         c = word_rotl 32 c
     in (a, b, c, d))"

text \<open>Little-endian value of bytes.\<close>

fun little_endian :: "string \<Rightarrow> u64" where
  "little_endian [] = 0"
| "little_endian (c # cs) = word_of_nat (byte c) + 256 * little_endian cs"

fun sip_words :: "nat \<Rightarrow> string \<Rightarrow> u64 list" where
  "sip_words 0 cs = []"
| "sip_words (Suc n) cs = little_endian (take 8 cs) # sip_words n (drop 8 cs)"

text \<open>The message padded with zero bytes to seven beyond a multiple of eight, then its length.\<close>

definition sip_padded :: "string \<Rightarrow> string" where
  "sip_padded cs = cs @ replicate (7 - length cs mod 8) (CHR 0x00) @ [char_of (length cs)]"

definition sip_compress :: "nat \<Rightarrow> u64 \<Rightarrow> sip_state \<Rightarrow> sip_state" where
  "sip_compress c m = (\<lambda>(v0, v1, v2, v3).
     case (sip_round_ref ^^ c) (v0, v1, v2, v3 XOR m) of (v0, v1, v2, v3) \<Rightarrow> (v0 XOR m, v1, v2, v3))"

definition siphash :: "nat \<Rightarrow> nat \<Rightarrow> u64 \<Rightarrow> u64 \<Rightarrow> string \<Rightarrow> u64" where
  "siphash c d k0 k1 cs =
     (let s = (k0 XOR 0x736f6d6570736575, k1 XOR 0x646f72616e646f6d,
               k0 XOR 0x6c7967656e657261, k1 XOR 0x7465646279746573);
          s = fold (sip_compress c) (sip_words (length cs div 8 + 1) (sip_padded cs)) s
      in case s of (v0, v1, v2, v3) \<Rightarrow>
           case (sip_round_ref ^^ d) (v0, v1, v2 XOR 0xff, v3) of (v0, v1, v2, v3) \<Rightarrow>
             v0 XOR v1 XOR v2 XOR v3)"

subsection \<open>The code computes it\<close>

lemma rotateLeft_rotl:
  assumes "0 < n" "n < 64"
  shows "rotateLeft w n = word_rotl n w"
proof (rule bit_word_eqI)
  fix i assume i: "i < LENGTH(64)"
  then have m: "(i + 64 - n) mod 64 = (if n \<le> i then i - n else 64 + i - n)"
    using assms by (auto simp: mod_if)
  have "\<not> bit w (64 + i - n)" if "n \<le> i" using that by (auto dest: bit_imp_le_length)
  moreover have "64 - n + i = 64 + i - n" using assms by simp
  ultimately show "bit (rotateLeft w n) i = bit (word_rotl n w) i"
    using i assms m
    by (simp add: rotateLeft_def bit_or_iff bit_push_bit_iff bit_drop_bit_eq bit_word_rotl_iff)
qed

lemma sipRound_ref: "sipRound = sip_round_ref"
  by (simp add: fun_eq_iff sipRound_def sip_round_ref_def rotateLeft_rotl Let_def)

lemma absorb_compress: "absorb_word = sip_compress 2"
  by (simp add: fun_eq_iff absorb_word_def sip_compress_def sipRound_ref eval_nat_numeral)

lemma little_endian_Cons:
  "little_endian (c # cs) = word_of_nat (byte c) OR push_bit 8 (little_endian cs)"
proof -
  let ?b = "word_of_nat (byte c) :: u64"
  have "?b = take_bit 8 ?b"
    using byte_less [of c] take_bit_nat_eq_self [of "byte c" 8] by (simp add: take_bit_of_nat)
  then have "\<not> bit ?b n \<or> \<not> bit (push_bit 8 (little_endian cs)) n" for n
    by (metis bit_push_bit_iff bit_take_bit_iff linorder_not_le)
  then have "?b + push_bit 8 (little_endian cs) = ?b OR push_bit 8 (little_endian cs)"
    by (rule disjunctive_add)
  then show ?thesis by (simp add: push_bit_eq_mult mult.commute)
qed

declare little_endian.simps(2) [simp del]

lemma little_endian_append:
  "little_endian (xs @ ys) = little_endian xs OR push_bit (8 * length xs) (little_endian ys)"
  by (induction xs) (simp_all add: little_endian_Cons push_bit_or or.assoc add.commute)

lemma little_endian_zeros [simp]: "little_endian (replicate n (CHR 0x00)) = 0"
  by (induction n) (simp_all add: little_endian_Cons)

lemma load_bytes_value:
  "offset + n \<le> length k \<Longrightarrow> load_bytes k offset n w = w OR little_endian (take n (drop offset k))"
proof (induction n)
  case (Suc n)
  have "take (Suc n) (drop offset k) = take n (drop offset k) @ [k ! (offset + n)]"
    using Suc.prems by (simp add: take_Suc_conv_app_nth)
  moreover have "load_bytes k offset (Suc n) w = load_bytes k offset n w OR push_bit (n * 8) (key_byte k (offset + n))"
    by (simp add: load_bytes_def)
  moreover have "length (take n (drop offset k)) = n" using Suc.prems by simp
  ultimately show ?case using Suc
    by (simp add: little_endian_append little_endian_Cons key_byte_def or.assoc mult.commute)
qed (simp add: load_bytes_def)

lemma length_byte: "push_bit 56 (word_of_nat n) = push_bit 56 (little_endian [char_of n])"
proof (rule bit_word_eqI)
  fix i assume "i < LENGTH(64)"
  then show "bit (push_bit 56 (word_of_nat n :: u64)) i = bit (push_bit 56 (little_endian [char_of n])) i"
    by (auto simp: little_endian_Cons bit_push_bit_iff bit_of_nat_iff of_char_of
        take_bit_eq_mod [of 8 n, simplified, symmetric] bit_take_bit_iff)
qed

lemma absorb_blocks_words:
  "absorb_blocks k offset s =
    (fold absorb_word (sip_words ((length k - offset) div 8) (drop offset k)) s,
     offset + 8 * ((length k - offset) div 8))"
proof (induction k offset s rule: absorb_blocks.induct)
  case (1 k offset s)
  show ?case
  proof (cases "length k - offset \<ge> 8")
    case True
    then have n: "(length k - offset) div 8 = Suc ((length k - (offset + 8)) div 8)"
      unfolding diff_diff_left [symmetric] by (intro le_div_geq) simp_all
    have "load_bytes k offset 8 0 = little_endian (take 8 (drop offset k))"
      using True by (simp add: load_bytes_value)
    with 1 True show ?thesis
      by (simp add: absorb_blocks.simps [of k offset] n add.commute)
  next
    case False
    then show ?thesis by (simp add: absorb_blocks.simps [of k offset])
  qed
qed

lemma sip_words_append:
  "8 * m \<le> length cs \<Longrightarrow> sip_words (m + n) (cs @ ds) = sip_words m cs @ sip_words n (drop (8 * m) cs @ ds)"
proof (induction m arbitrary: cs)
  case (Suc m)
  from Suc.IH [of "drop 8 cs"] Suc.prems show ?case by (simp add: add.commute)
qed simp

lemma object_hash_ref:
  "object_hash key cs = siphash 2 4 (hk_first key) (hk_second key) cs"
proof -
  let ?n = "length cs div 8" and ?s = "(0x736f6d6570736575 XOR hk_first key, 0x646f72616e646f6d XOR hk_second key,
    0x6c7967656e657261 XOR hk_first key, 0x7465646279746573 XOR hk_second key)"
  let ?r = "drop (8 * ?n) cs"
  have le: "8 * ?n \<le> length cs" by simp
  have len: "length cs - 8 * ?n = length cs mod 8" by (simp add: minus_mult_div_eq_mod)
  have r: "length ?r = length cs mod 8" using len by simp
  have seven: "length cs mod 8 \<le> 7" by simp
  let ?last = "?r @ replicate (7 - length cs mod 8) (CHR 0x00) @ [char_of (length cs)]"
  have "length ?last = 8" using r seven by simp
  then have "take 8 ?last = ?last" by (intro take_all) simp
  then have "sip_words 1 ?last = [little_endian ?last]" unfolding One_nat_def sip_words.simps by simp
  then have words: "sip_words (?n + 1) (sip_padded cs) = sip_words ?n cs @ [little_endian ?last]"
    unfolding sip_padded_def sip_words_append [OF le] by (simp only:)
  have "load_bytes cs (8 * ?n) (length cs mod 8) (push_bit 56 (word_of_nat (length cs)))
      = push_bit 56 (word_of_nat (length cs)) OR little_endian ?r"
    using load_bytes_value [of "8 * ?n" "length cs mod 8" cs] r by simp
  also have "\<dots> = little_endian ?last"
  proof -
    have "8 * (length cs mod 8) + 8 * (7 - length cs mod 8) = 56" using seven by simp
    then show ?thesis
      by (simp add: little_endian_append len length_byte or.commute push_bit_push_bit)
  qed
  finally have tail: "load_bytes cs (8 * ?n) (length cs mod 8) (push_bit 56 (word_of_nat (length cs)))
      = little_endian ?last" .
  show ?thesis
    unfolding object_hash_def siphash_def absorb_blocks_words Let_def
    using tail len words by (simp add: absorb_compress sipRound_ref xor.commute split: prod.split)
qed

subsection \<open>A published value\<close>

lemma sip_rounds:
  "sipRound (0x7469686173716475, 0x6b617f6d656e6665, 0x6b7f62616d677361, 0x7c6d6c6a717c6d7b) =
    (0x64668a929363847f, 0x4ed232083d9aa8dc, 0xf2f74892d8141a2e, 0x9290f9810552f4a8)"
  "sipRound (0x64668a929363847f, 0x4ed232083d9aa8dc, 0xf2f74892d8141a2e, 0x9290f9810552f4a8) =
    (0x4d07749cdd0858e0, 0xd52f6f62a4f59a4, 0x634cb3577b01fd3d, 0xa5224d6f55c7d9c8)"
  "sipRound (0x4a017198de0a59e0, 0xd52f6f62a4f59a4, 0x634cb3577b01fd3d, 0xaa2c40635ecdd0c0) =
    (0x557560fb6063d060, 0x4c8e675bd961133e, 0xbd3d002b1703a181, 0xfb9441179a4a7315)"
  "sipRound (0x557560fb6063d060, 0x4c8e675bd961133e, 0xbd3d002b1703a181, 0xfb9441179a4a7315) =
    (0x338bbea7645fb759, 0x414fc3fb98efe374, 0xccf13ea527b9f4bd, 0x5293f5da84008f82)"
  "sipRound (0x3c85b3ab6f55be51, 0x414fc3fb98efe374, 0xccf13ea527b9f442, 0x5293f5da84008f82) =
    (0xf2a55244a20e48fe, 0xac5ad16ccc3ca6e4, 0x9fe5adb0a52f393a, 0xfd41d55e88f30308)"
  "sipRound (0xf2a55244a20e48fe, 0xac5ad16ccc3ca6e4, 0x9fe5adb0a52f393a, 0xfd41d55e88f30308) =
    (0xb6c3fbdecc2ae4b4, 0x1638c86adc6b3cf0, 0x28b8b6ab62553d46, 0xc9465e86ec43eb95)"
  "sipRound (0xb6c3fbdecc2ae4b4, 0x1638c86adc6b3cf0, 0x28b8b6ab62553d46, 0xc9465e86ec43eb95) =
    (0x58101b167209a5e6, 0xf8792ae75b66e7dd, 0x1da14c3ec7f0b4f7, 0x7624ba8a41bc4ad9)"
  "sipRound (0x58101b167209a5e6, 0xf8792ae75b66e7dd, 0x1da14c3ec7f0b4f7, 0x7624ba8a41bc4ad9) =
    (0xf6bcd53893fecff1, 0x54b9964c7ea0d937, 0x1b38329c099bb55a, 0x1814bb89ad7be679)"
  by (simp_all add: sipRound_def rotateLeft_def)

lemma funpow_four: "(f ^^ 4) x = f (f (f (f x)))"
  by (simp add: eval_nat_numeral)

lemma object_hash_vector:
  "object_hash \<lparr>hk_first = 0x0706050403020100, hk_second = 0x0f0e0d0c0b0a0908\<rparr>
    [CHR 0x00, CHR 0x01, CHR 0x02, CHR 0x03, CHR 0x04, CHR 0x05, CHR 0x06, CHR 0x07,
     CHR 0x08, CHR 0x09, CHR 0x0A, CHR 0x0B, CHR 0x0C, CHR 0x0D, CHR 0x0E] = 0xa129ca6149be45e5"
  unfolding object_hash_ref siphash_def absorb_compress [symmetric] sipRound_ref [symmetric]
  by (simp add: sip_padded_def little_endian.simps(2) absorb_word_def funpow_four sip_rounds)
subsection \<open>Mixing a seed\<close>

lemma shift_xor_inject:
  assumes "0 < k" "x XOR drop_bit k x = y XOR drop_bit k (y :: u64)"
  shows "x = y"
proof (rule bit_word_eqI)
  have step: "bit x n = bit y n" if "bit x (n + k) = bit y (n + k)" for n
  proof -
    have "bit (x XOR drop_bit k x) n = bit (y XOR drop_bit k y) n" by (simp only: assms(2))
    then have "(bit x n \<noteq> bit x (n + k)) = (bit y n \<noteq> bit y (n + k))"
      by (simp only: bit_xor_iff bit_drop_bit_eq comp_apply add.commute [of k])
    with that show ?thesis by blast
  qed
  fix n
  show "bit x n = bit y n"
  proof (induction "64 - n" arbitrary: n rule: less_induct)
    case less
    show ?case
    proof (cases "n < 64")
      case True
      then have "64 - (n + k) < 64 - n" using assms(1) by simp
      from step [OF less [OF this]] show ?thesis .
    next
      case False
      then show ?thesis by (auto dest: bit_imp_le_length)
    qed
  qed
qed

lemma unit_inject:
  assumes "x * c = y * c" "c * d = (1 :: u64)"
  shows "x = y"
proof -
  have "x = x * (c * d)" "y = y * (c * d)" using assms(2) by simp_all
  moreover have "x * (c * d) = y * (c * d)" using assms(1) by (simp only: mult.assoc [symmetric])
  ultimately show ?thesis by simp
qed

lemma mix_inject:
  assumes "mixObjectHashSeed x = mixObjectHashSeed y"
  shows "x = y"
proof -
  define f where "f v = v XOR drop_bit 30 v" for v :: u64
  define g where "g v = v * 0xbf58476d1ce4e5b9" for v :: u64
  define h where "h v = v XOR drop_bit 27 v" for v :: u64
  define m where "m v = v * 0x94d049bb133111eb" for v :: u64
  have units: "0xbf58476d1ce4e5b9 * 0x96de1b173f119089 = (1 :: u64)" "0x94d049bb133111eb * 0x319642b2d24d8ec3 = (1 :: u64)"
    by simp_all
  have f: "f a = f b \<Longrightarrow> a = b" for a b unfolding f_def by (rule shift_xor_inject [of 30]) simp_all
  have h: "h a = h b \<Longrightarrow> a = b" for a b unfolding h_def by (rule shift_xor_inject [of 27]) simp_all
  have g: "g a = g b \<Longrightarrow> a = b" for a b unfolding g_def by (erule unit_inject) (rule units)
  have m: "m a = m b \<Longrightarrow> a = b" for a b unfolding m_def by (erule unit_inject) (rule units)
  have "mixObjectHashSeed v = m (h (g (f v))) XOR drop_bit 31 (m (h (g (f v))))" for v
    unfolding mixObjectHashSeed_def f_def g_def h_def m_def Let_def ..
  with assms have "m (h (g (f x))) = m (h (g (f y)))" by - (rule shift_xor_inject [of 31], simp_all only: zero_less_numeral)
  then show ?thesis by (rule f [OF g [OF h [OF m]]])
qed

subsection \<open>The properties\<close>

text \<open>C31: Object names are hashed by SipHash-2-4 of the process key: reading the name in place, word by
  word and then its tail, gives the value of the algorithm on the padded message.\<close>

theorem object_hash_siphash:
  "object_hash key cs = siphash 2 4 (hk_first key) (hk_second key) cs"
  by (rule object_hash_ref)

text \<open>Whatever the clock and the address of the process are, a further draw of the random device
  changes the key: two different draws never give the same key, so no random bit is lost in the
  mixing.\<close>

lemma key_keeps_randomness:
  "objectHashKey clock address (Some (a, b, c, d)) = objectHashKey clock address (Some (a', b', c', d')) \<longleftrightarrow>
    push_bit 32 a XOR b = push_bit 32 a' XOR b' \<and> push_bit 32 c XOR d = push_bit 32 c' XOR d'"
proof -
  have inj: "x XOR m = x XOR n \<longleftrightarrow> m = n" for x m n :: u64
  proof
    assume "x XOR m = x XOR n"
    then have "x XOR (x XOR m) = x XOR (x XOR n)" by simp
    then show "m = n" by (simp add: xor.assoc [symmetric])
  qed simp
  have mix: "mixObjectHashSeed x = mixObjectHashSeed y \<longleftrightarrow> x = y" for x y
    using mix_inject by blast
  show ?thesis by (simp add: objectHashKey_def mix inj Let_def)
qed

end
