(* ===== verification/Sax_Cursor.thy ===== *)
theory Sax_Cursor
  imports Dom_Parser
begin

section \<open>The cursors of the SAX parser\<close>

text \<open>
  \<open>BufferSaxCursor\<close> and \<open>StreamSaxCursor\<close> of \<open>pjson_parser.cpp\<close>. The parser is a template over the
  two; here a cursor is one of them. A stream buffer delivers its bytes one at a time and then
  ends, breaks or throws; allocation failure in it is not modelled. Line and column are kept by
  the function of \<open>Parse_Error\<close> that was related to the coordinates of an offset.
\<close>

subsection \<open>What the parser needs of a cursor\<close>

text \<open>
  \<open>rest\<close> is the bytes a cursor will still deliver and \<open>breaks\<close> whether it fails behind them.
  Looking changes nothing the parser can observe, and taking moves by one byte.
\<close>

locale byte_cursor =
  fixes peek :: "'c \<Rightarrow> char option \<times> 'c" and get :: "'c \<Rightarrow> char option \<times> 'c"
    and rest :: "'c \<Rightarrow> string" and pos :: "'c \<Rightarrow> nat" and place :: "'c \<Rightarrow> source_position"
    and failed :: "'c \<Rightarrow> bool" and breaks :: "'c \<Rightarrow> bool"
  assumes peek_some: "rest c = ch # r \<Longrightarrow> fst (peek c) = Some ch"
    and peek_none: "rest c = [] \<Longrightarrow> fst (peek c) = None \<and> failed (snd (peek c)) = breaks c"
    and peek_same: "rest (snd (peek c)) = rest c \<and> pos (snd (peek c)) = pos c
      \<and> place (snd (peek c)) = place c \<and> breaks (snd (peek c)) = breaks c"
    and get_some: "rest c = ch # r \<Longrightarrow> fst (get c) = Some ch \<and> rest (snd (get c)) = r
      \<and> pos (snd (get c)) = Suc (pos c) \<and> place (snd (get c)) = advance_position ch (place c)"
    and get_none: "rest c = [] \<Longrightarrow> fst (get c) = None \<and> rest (snd (get c)) = []
      \<and> pos (snd (get c)) = pos c \<and> place (snd (get c)) = place c"
    and get_breaks: "breaks (snd (get c)) = breaks c"
    and failed_breaks: "failed c \<Longrightarrow> breaks c"
begin

lemma peek_result:
  "fst (peek c) = (case rest c of [] \<Rightarrow> None | ch # r \<Rightarrow> Some ch)"
  using peek_some peek_none by (auto split: list.split)

lemma get_result:
  "fst (get c) = (case rest c of [] \<Rightarrow> None | ch # r \<Rightarrow> Some ch)"
  "rest (snd (get c)) = tl (rest c)"
  using get_some [of c] get_none [of c] by (auto split: list.split) (cases "rest c"; simp)+

lemma get_length: "length (rest (snd (get c))) \<le> length (rest c)"
  "fst (get c) \<noteq> None \<Longrightarrow> length (rest (snd (get c))) < length (rest c)"
  by (auto simp: get_result split: list.splits)

end

subsection \<open>A buffer\<close>

record BufferSaxCursor =
  bs_src :: string
  bs_pos :: nat
  bs_where :: source_position

definition buffer_cursor :: "string \<Rightarrow> BufferSaxCursor" where
  "buffer_cursor src = \<lparr>bs_src = src, bs_pos = 0, bs_where = (1, 1, False)\<rparr>"

definition buffer_peek :: "BufferSaxCursor \<Rightarrow> char option" where
  "buffer_peek c = (if bs_pos c \<ge> length (bs_src c) then None else Some (bs_src c ! bs_pos c))"

definition buffer_get :: "BufferSaxCursor \<Rightarrow> char option \<times> BufferSaxCursor" where
  "buffer_get c =
     (case buffer_peek c of
        None \<Rightarrow> (None, c)
      | Some ch \<Rightarrow>
          (Some ch, c\<lparr>bs_pos := Suc (bs_pos c), bs_where := advance_position ch (bs_where c)\<rparr>))"

definition buffer_eof :: "BufferSaxCursor \<Rightarrow> bool" where
  "buffer_eof c \<longleftrightarrow> bs_pos c \<ge> length (bs_src c)"

definition buffer_rest :: "BufferSaxCursor \<Rightarrow> string" where
  "buffer_rest c = drop (bs_pos c) (bs_src c)"

lemma buffer_rest_cases:
  "buffer_rest c = [] \<longleftrightarrow> length (bs_src c) \<le> bs_pos c"
  "buffer_rest c = ch # r \<Longrightarrow> bs_pos c < length (bs_src c) \<and> bs_src c ! bs_pos c = ch
    \<and> drop (Suc (bs_pos c)) (bs_src c) = r"
  by (auto simp: buffer_rest_def) (metis drop_all linorder_not_le list.distinct(1), metis nth_via_drop, metis drop_Suc list.sel(3) tl_drop)

interpretation buffer: byte_cursor "\<lambda>c. (buffer_peek c, c)" buffer_get buffer_rest bs_pos bs_where
  "\<lambda>c. False" "\<lambda>c. False"
proof
  fix c :: BufferSaxCursor and ch r
  assume "buffer_rest c = ch # r"
  with buffer_rest_cases(2) [OF this]
  show "fst (buffer_peek c, c) = Some ch"
    "fst (buffer_get c) = Some ch \<and> buffer_rest (snd (buffer_get c)) = r
      \<and> bs_pos (snd (buffer_get c)) = Suc (bs_pos c)
      \<and> bs_where (snd (buffer_get c)) = advance_position ch (bs_where c)"
    by (simp_all add: buffer_peek_def buffer_get_def) (simp add: buffer_rest_def)
qed (auto simp: buffer_rest_cases buffer_peek_def buffer_get_def split: option.splits)

subsection \<open>A stream\<close>

text \<open>What follows the bytes: the end, the end with \<open>badbit\<close> set, or an exception.\<close>

datatype stream_end = Ends_eof | Ends_bad | Ends_throwing

record streambuf =
  sb_bytes :: string
  sb_end :: stream_end

text \<open>The stream: its buffer, if it has one, and its \<open>badbit\<close>.\<close>

record sax_istream =
  si_rdbuf :: "streambuf option"
  si_bad :: bool

text \<open>\<open>ss_buffer\<close> is the used part of the cursor's buffer.\<close>

record StreamSaxCursor =
  ss_in :: sax_istream
  ss_buffer :: string
  ss_posInBuf :: nat
  ss_pos :: nat
  ss_where :: source_position
  ss_failed :: bool
  ss_eof :: bool

definition stream_cursor :: "sax_istream \<Rightarrow> StreamSaxCursor" where
  "stream_cursor input =
     \<lparr>ss_in = input, ss_buffer = [], ss_posInBuf = 0, ss_pos = 0,
      ss_where = (1, 1, False), ss_failed = False, ss_eof = False\<rparr>"

definition stream_ensure :: "StreamSaxCursor \<Rightarrow> bool \<times> StreamSaxCursor" where
  "stream_ensure c =
     (if ss_posInBuf c < length (ss_buffer c) then (True, c)
      else if ss_eof c \<or> ss_failed c then (False, c)
      else
        case si_rdbuf (ss_in c) of
          None \<Rightarrow> (False, c\<lparr>ss_failed := True\<rparr>)
        | Some b \<Rightarrow>
            if si_bad (ss_in c) then (False, c\<lparr>ss_failed := True\<rparr>)
            else
              case sb_bytes b of
                ch # bytes \<Rightarrow>
                  (True, c\<lparr>ss_in := (ss_in c)\<lparr>si_rdbuf := Some (b\<lparr>sb_bytes := bytes\<rparr>)\<rparr>,
                    ss_buffer := [ch], ss_posInBuf := 0\<rparr>)
              | [] \<Rightarrow>
                  (case sb_end b of
                     Ends_throwing \<Rightarrow> (False, c\<lparr>ss_failed := True\<rparr>)
                   | Ends_bad \<Rightarrow>
                       (False, c\<lparr>ss_in := (ss_in c)\<lparr>si_bad := True\<rparr>, ss_failed := True\<rparr>)
                   | Ends_eof \<Rightarrow> (False, c\<lparr>ss_eof := True\<rparr>)))"

definition stream_peek :: "StreamSaxCursor \<Rightarrow> char option \<times> StreamSaxCursor" where
  "stream_peek c =
     (case stream_ensure c of (b, c1) \<Rightarrow> (if b then Some (ss_buffer c1 ! ss_posInBuf c1) else None, c1))"

definition stream_get :: "StreamSaxCursor \<Rightarrow> char option \<times> StreamSaxCursor" where
  "stream_get c =
     (case stream_ensure c of
        (False, c1) \<Rightarrow> (None, c1)
      | (True, c1) \<Rightarrow>
          (let ch = ss_buffer c1 ! ss_posInBuf c1
           in (Some ch, c1\<lparr>ss_posInBuf := Suc (ss_posInBuf c1),
                 ss_where := advance_position ch (ss_where c1), ss_pos := Suc (ss_pos c1)\<rparr>)))"

definition stream_eof :: "StreamSaxCursor \<Rightarrow> bool" where
  "stream_eof c \<longleftrightarrow> ss_eof c \<and> ss_posInBuf c \<ge> length (ss_buffer c)"

text \<open>Once it has seen the end or failed, a cursor reads nothing more.\<close>

definition stream_rest :: "StreamSaxCursor \<Rightarrow> string" where
  "stream_rest c =
     drop (ss_posInBuf c) (ss_buffer c)
     @ (if ss_eof c \<or> ss_failed c \<or> si_bad (ss_in c) then []
        else case si_rdbuf (ss_in c) of None \<Rightarrow> [] | Some b \<Rightarrow> sb_bytes b)"

definition breaks_off :: "sax_istream \<Rightarrow> bool" where
  "breaks_off input \<longleftrightarrow> si_bad input
     \<or> (case si_rdbuf input of None \<Rightarrow> True | Some b \<Rightarrow> sb_end b \<noteq> Ends_eof)"

definition stream_breaks :: "StreamSaxCursor \<Rightarrow> bool" where
  "stream_breaks c \<longleftrightarrow> ss_failed c \<or> \<not> ss_eof c \<and> breaks_off (ss_in c)"

lemma ensure_cases:
  assumes "stream_ensure c = (b, c1)"
  shows "stream_rest c1 = stream_rest c" "stream_breaks c1 = stream_breaks c"
    "ss_pos c1 = ss_pos c" "ss_where c1 = ss_where c"
    "b \<longleftrightarrow> stream_rest c \<noteq> []" "b \<longleftrightarrow> ss_posInBuf c1 < length (ss_buffer c1)"
    "\<not> b \<Longrightarrow> ss_failed c1 = stream_breaks c"
  using assms
  by (auto simp: stream_ensure_def stream_rest_def stream_breaks_def breaks_off_def
      split: if_splits option.splits list.splits stream_end.splits)

interpretation stream: byte_cursor stream_peek stream_get stream_rest ss_pos ss_where ss_failed stream_breaks
proof
  fix c :: StreamSaxCursor and ch r
  obtain b c1 where e: "stream_ensure c = (b, c1)" by (cases "stream_ensure c") auto
  note f = ensure_cases [OF e]
  have head: "ss_buffer c1 ! ss_posInBuf c1 = x \<and> drop (Suc (ss_posInBuf c1)) (ss_buffer c1) @
      (if ss_eof c1 \<or> ss_failed c1 \<or> si_bad (ss_in c1) then []
       else case si_rdbuf (ss_in c1) of None \<Rightarrow> [] | Some b \<Rightarrow> sb_bytes b) = q"
    if "stream_rest c = x # q" for x q
    using f(1,5,6) that by (auto simp: stream_rest_def Cons_nth_drop_Suc [symmetric])
  show "stream_rest c = ch # r \<Longrightarrow> fst (stream_peek c) = Some ch"
    using e f(5) head by (simp add: stream_peek_def)
  show "stream_rest c = [] \<Longrightarrow> fst (stream_peek c) = None \<and> ss_failed (snd (stream_peek c)) = stream_breaks c"
    using e f(5,7) by (simp add: stream_peek_def)
  show "stream_rest (snd (stream_peek c)) = stream_rest c \<and> ss_pos (snd (stream_peek c)) = ss_pos c
      \<and> ss_where (snd (stream_peek c)) = ss_where c \<and> stream_breaks (snd (stream_peek c)) = stream_breaks c"
    using e f(1-4) by (simp add: stream_peek_def)
  show "fst (stream_get c) = Some ch \<and> stream_rest (snd (stream_get c)) = r
      \<and> ss_pos (snd (stream_get c)) = Suc (ss_pos c)
      \<and> ss_where (snd (stream_get c)) = advance_position ch (ss_where c)" if "stream_rest c = ch # r"
  proof -
    let ?c2 = "c1\<lparr>ss_posInBuf := Suc (ss_posInBuf c1), ss_where := advance_position ch (ss_where c1),
        ss_pos := Suc (ss_pos c1)\<rparr>"
    have "stream_get c = (Some ch, ?c2)"
      using e f(5) head [OF that] that by (simp add: stream_get_def Let_def)
    moreover have "stream_rest ?c2 = r" using head [OF that] by (auto simp: stream_rest_def split: if_splits)
    ultimately show ?thesis using f(3,4) by simp
  qed
  show "fst (stream_get c) = None \<and> stream_rest (snd (stream_get c)) = []
      \<and> ss_pos (snd (stream_get c)) = ss_pos c \<and> ss_where (snd (stream_get c)) = ss_where c"
    if "stream_rest c = []"
    using e f(1,3-5) that by (simp add: stream_get_def)
  show "stream_breaks (snd (stream_get c)) = stream_breaks c"
    using e f(2) by (auto simp: stream_get_def stream_breaks_def Let_def split: bool.splits)
qed (simp add: stream_breaks_def)

subsection \<open>A cursor\<close>

datatype sax_cursor = BufferCursor BufferSaxCursor | StreamCursor StreamSaxCursor

fun cur_peek :: "sax_cursor \<Rightarrow> char option \<times> sax_cursor" where
  "cur_peek (BufferCursor c) = (buffer_peek c, BufferCursor c)"
| "cur_peek (StreamCursor c) = (case stream_peek c of (r, c1) \<Rightarrow> (r, StreamCursor c1))"

fun cur_get :: "sax_cursor \<Rightarrow> char option \<times> sax_cursor" where
  "cur_get (BufferCursor c) = (case buffer_get c of (r, c1) \<Rightarrow> (r, BufferCursor c1))"
| "cur_get (StreamCursor c) = (case stream_get c of (r, c1) \<Rightarrow> (r, StreamCursor c1))"

fun cur_failed :: "sax_cursor \<Rightarrow> bool" where
  "cur_failed (BufferCursor c) = False"
| "cur_failed (StreamCursor c) = ss_failed c"

fun cur_position :: "sax_cursor \<Rightarrow> nat" where
  "cur_position (BufferCursor c) = bs_pos c"
| "cur_position (StreamCursor c) = ss_pos c"

fun cur_where :: "sax_cursor \<Rightarrow> source_position" where
  "cur_where (BufferCursor c) = bs_where c"
| "cur_where (StreamCursor c) = ss_where c"

definition cur_line :: "sax_cursor \<Rightarrow> nat" where
  "cur_line c = (case cur_where c of (line, column, cr) \<Rightarrow> line)"

definition cur_column :: "sax_cursor \<Rightarrow> nat" where
  "cur_column c = (case cur_where c of (line, column, cr) \<Rightarrow> column)"


subsection \<open>The laws of a cursor\<close>

fun cur_rest :: "sax_cursor \<Rightarrow> string" where
  "cur_rest (BufferCursor c) = buffer_rest c"
| "cur_rest (StreamCursor c) = stream_rest c"

fun cur_breaks :: "sax_cursor \<Rightarrow> bool" where
  "cur_breaks (BufferCursor c) = False"
| "cur_breaks (StreamCursor c) = stream_breaks c"

lemma cur_snd:
  "cur_peek (BufferCursor b) = (fst (buffer_peek b, b), BufferCursor (snd (buffer_peek b, b)))"
  "cur_peek (StreamCursor s) = (fst (stream_peek s), StreamCursor (snd (stream_peek s)))"
  "cur_get (BufferCursor b) = (fst (buffer_get b), BufferCursor (snd (buffer_get b)))"
  "cur_get (StreamCursor s) = (fst (stream_get s), StreamCursor (snd (stream_get s)))"
  by (simp_all add: case_prod_beta)

interpretation cur: byte_cursor cur_peek cur_get cur_rest cur_position cur_where cur_failed cur_breaks
proof
  fix c ch r
  show "cur_rest c = ch # r \<Longrightarrow> fst (cur_peek c) = Some ch"
    using buffer.peek_some stream.peek_some by (cases c) (simp_all only: cur_snd cur_rest.simps fst_conv)
  show "cur_rest c = [] \<Longrightarrow> fst (cur_peek c) = None \<and> cur_failed (snd (cur_peek c)) = cur_breaks c"
    using buffer.peek_none stream.peek_none
    by (cases c) (simp_all only: cur_snd cur_rest.simps cur_failed.simps cur_breaks.simps fst_conv snd_conv)
  show "cur_rest (snd (cur_peek c)) = cur_rest c \<and> cur_position (snd (cur_peek c)) = cur_position c
      \<and> cur_where (snd (cur_peek c)) = cur_where c \<and> cur_breaks (snd (cur_peek c)) = cur_breaks c"
    using buffer.peek_same stream.peek_same
    by (cases c) (simp_all only: cur_snd cur_rest.simps cur_position.simps cur_where.simps cur_breaks.simps fst_conv snd_conv)
  show "cur_rest c = ch # r \<Longrightarrow> fst (cur_get c) = Some ch \<and> cur_rest (snd (cur_get c)) = r
      \<and> cur_position (snd (cur_get c)) = Suc (cur_position c)
      \<and> cur_where (snd (cur_get c)) = advance_position ch (cur_where c)"
    using buffer.get_some stream.get_some
    by (cases c) (simp_all only: cur_snd cur_rest.simps cur_position.simps cur_where.simps fst_conv snd_conv)
  show "cur_rest c = [] \<Longrightarrow> fst (cur_get c) = None \<and> cur_rest (snd (cur_get c)) = []
      \<and> cur_position (snd (cur_get c)) = cur_position c \<and> cur_where (snd (cur_get c)) = cur_where c"
    using buffer.get_none stream.get_none
    by (cases c) (simp_all only: cur_snd cur_rest.simps cur_position.simps cur_where.simps fst_conv snd_conv)
  show "cur_breaks (snd (cur_get c)) = cur_breaks c"
    using stream.get_breaks by (cases c) (simp_all only: cur_snd cur_breaks.simps snd_conv)
  show "cur_failed c \<Longrightarrow> cur_breaks c"
    using stream.failed_breaks by (cases c) (simp_all only: cur_failed.simps cur_breaks.simps)
qed

end
