(* ===== verification/Sax_Parser.thy ===== *)
theory Sax_Parser
  imports Sax_Cursor
begin

section \<open>The SAX parser\<close>

text \<open>
  \<open>SaxParser\<close> of \<open>pjson_parser.cpp\<close> over a cursor: it reports events to a handler instead of
  building a value. The parser's state is its cursor, the handler's state, the error record and
  the node count; a handler is a function that answers an event, or throws, and moves to its next
  state. A function of the parser that returns \<open>false\<close> or is left by an exception is an \<^const>\<open>Inl\<close>
  with the way it was left. The caller's error record is always there.
\<close>

datatype sax_event =
    OnNull
  | OnBool bool
  | OnInt i64
  | OnUInt u64
  | OnDouble double
  | OnString string
  | OnStartArray
  | OnEndArray
  | OnStartObject
  | OnKey string
  | OnEndObject

type_synonym 'h sax_handler = "sax_event \<Rightarrow> 'h \<Rightarrow> (cpp_exception + bool) \<times> 'h"

text \<open>A handler that overrides no callback accepts everything.\<close>

definition default_handler :: "'h sax_handler" where
  "default_handler event h = (Inr True, h)"

record 'h sax_setup =
  su_opts :: ParserOptions
  su_handler :: "'h sax_handler"
  su_underflow :: bool

record 'h SaxParser =
  sx_cur :: sax_cursor
  sx_handler :: 'h
  sx_err :: ParseError
  sx_nodeCount :: nat

datatype sax_exit = Stopped | Cancelled | Threw cpp_exception

type_synonym ('a, 'h) sax = "(sax_exit \<times> 'h SaxParser) + ('a \<times> 'h SaxParser)"

subsection \<open>Errors, bytes and events\<close>

definition failAt :: "nat \<Rightarrow> nat \<Rightarrow> nat \<Rightarrow> string \<Rightarrow> 'h SaxParser \<Rightarrow> 'h SaxParser" where
  "failAt offset line column message st =
     st\<lparr>sx_err := \<lparr>er_ok = False, er_code = classifyParseMessage message, er_offset = offset,
       er_line = line, er_column = column, er_message = message\<rparr>\<rparr>"

definition failHere :: "string \<Rightarrow> 'h SaxParser \<Rightarrow> 'h SaxParser" where
  "failHere message st =
     failAt (cur_position (sx_cur st)) (cur_line (sx_cur st)) (cur_column (sx_cur st)) message st"

definition sax_fail :: "string \<Rightarrow> 'h SaxParser \<Rightarrow> ('a, 'h) sax" where
  "sax_fail message st = Inl (Stopped, failHere message st)"

definition failNoThrow :: "string \<Rightarrow> ParseError_Code \<Rightarrow> 'h SaxParser \<Rightarrow> 'h SaxParser" where
  "failNoThrow message code st =
     st\<lparr>sx_err := \<lparr>er_ok = False, er_code = code, er_offset = cur_position (sx_cur st),
       er_line = cur_line (sx_cur st), er_column = cur_column (sx_cur st), er_message = message\<rparr>\<rparr>"

definition sax_peek :: "'h SaxParser \<Rightarrow> char option \<times> 'h SaxParser" where
  "sax_peek st = (case cur_peek (sx_cur st) of (r, c) \<Rightarrow> (r, st\<lparr>sx_cur := c\<rparr>))"

text \<open>Nothing is taken at the byte limit, and the error is recorded, or at the end.\<close>

definition getChar :: "'h sax_setup \<Rightarrow> 'h SaxParser \<Rightarrow> char option \<times> 'h SaxParser" where
  "getChar su st =
     (if po_maxInputBytes (su_opts su) \<noteq> 0
         \<and> cur_position (sx_cur st) \<ge> po_maxInputBytes (su_opts su)
      then (None, failAt (po_maxInputBytes (su_opts su)) (cur_line (sx_cur st)) (cur_column (sx_cur st))
              msg_input_limit st)
      else case cur_get (sx_cur st) of (r, c) \<Rightarrow> (r, st\<lparr>sx_cur := c\<rparr>))"

text \<open>\<open>if (!getChar(ch)) return false\<close> and \<open>if (!getChar(ch)) return fail(message)\<close>.\<close>

definition take_char :: "'h sax_setup \<Rightarrow> 'h SaxParser \<Rightarrow> (char, 'h) sax" where
  "take_char su st =
     (case getChar su st of (None, st1) \<Rightarrow> Inl (Stopped, st1) | (Some ch, st1) \<Rightarrow> Inr (ch, st1))"

definition take_or_fail :: "'h sax_setup \<Rightarrow> string \<Rightarrow> 'h SaxParser \<Rightarrow> (char, 'h) sax" where
  "take_or_fail su message st =
     (case getChar su st of (None, st1) \<Rightarrow> sax_fail message st1 | (Some ch, st1) \<Rightarrow> Inr (ch, st1))"

text \<open>\<open>if (!getChar(ch) || ch != want) return fail(message)\<close>\<close>

definition expect_char :: "'h sax_setup \<Rightarrow> char \<Rightarrow> string \<Rightarrow> 'h SaxParser \<Rightarrow> (unit, 'h) sax" where
  "expect_char su want message st =
     try_bind (take_or_fail su message st) (\<lambda>(ch, st1).
       if ch \<noteq> want then sax_fail message st1 else Inr ((), st1))"

definition reserveNode :: "'h sax_setup \<Rightarrow> 'h SaxParser \<Rightarrow> (unit, 'h) sax" where
  "reserveNode su st =
     (if po_maxNodes (su_opts su) \<noteq> 0 \<and> sx_nodeCount st \<ge> po_maxNodes (su_opts su)
      then sax_fail msg_node_budget st
      else Inr ((), st\<lparr>sx_nodeCount := Suc (sx_nodeCount st)\<rparr>))"

text \<open>A handler that answers \<open>false\<close> cancels the parse.\<close>

definition dispatch :: "'h sax_setup \<Rightarrow> sax_event \<Rightarrow> 'h SaxParser \<Rightarrow> (unit, 'h) sax" where
  "dispatch su event st =
     (case su_handler su event (sx_handler st) of
        (Inl e, h) \<Rightarrow> Inl (Threw e, st\<lparr>sx_handler := h\<rparr>)
      | (Inr ok, h) \<Rightarrow>
          if ok then Inr ((), st\<lparr>sx_handler := h\<rparr>) else Inl (Cancelled, st\<lparr>sx_handler := h\<rparr>))"

definition report :: "'h sax_setup \<Rightarrow> bool \<Rightarrow> sax_event \<Rightarrow> 'h SaxParser \<Rightarrow> (unit, 'h) sax" where
  "report su emit event st = (if emit then dispatch su event st else Inr ((), st))"

text \<open>The bytes ahead of a parser.\<close>

abbreviation ahead :: "'h SaxParser \<Rightarrow> string" where
  "ahead st \<equiv> cur_rest (sx_cur st)"

lemma getChar_shorter: "getChar su st = (Some ch, st1) \<Longrightarrow> ahead st = ch # ahead st1"
  using cur.get_result [of "sx_cur st"]
  by (auto simp: getChar_def split: if_splits prod.splits list.splits)

lemma peek_ahead: "ahead (snd (sax_peek st)) = ahead st"
  using cur.peek_same [of "sx_cur st"] by (simp add: sax_peek_def case_prod_beta)

function skipWhitespace :: "'h sax_setup \<Rightarrow> 'h SaxParser \<Rightarrow> (unit, 'h) sax" where
  "skipWhitespace su st =
     (case sax_peek st of
        (Some ch, st1) \<Rightarrow>
          if is_ws ch then
            (case getChar su st1 of
               (None, st2) \<Rightarrow> Inl (Stopped, st2)
             | (Some _, st2) \<Rightarrow> skipWhitespace su st2)
          else if cur_failed (sx_cur st1) then sax_fail msg_stream_read st1
          else Inr ((), st1)
      | (None, st1) \<Rightarrow>
          if cur_failed (sx_cur st1) then sax_fail msg_stream_read st1 else Inr ((), st1))"
  by pat_completeness auto
termination skipWhitespace
proof (relation "measure (\<lambda>(su, st). length (ahead st))", goal_cases)
  case (2 su st x st1 ch y st2 ch2)
  then have "ahead st1 = ahead st" using peek_ahead [of st] by (metis snd_conv)
  with 2 getChar_shorter [of su st1 ch2 st2] show ?case by auto
qed simp

declare skipWhitespace.simps [simp del]

subsection \<open>Strings\<close>

text \<open>\<open>readHex4\<close>: the digits still to come and the number so far.\<close>

fun read_hex :: "'h sax_setup \<Rightarrow> nat \<Rightarrow> nat \<Rightarrow> 'h SaxParser \<Rightarrow> (nat, 'h) sax" where
  "read_hex su 0 n st = Inr (n, st)"
| "read_hex su (Suc k) n st =
     try_bind (take_or_fail su msg_unicode_escape st) (\<lambda>(ch, st1).
       case hex_digit ch of
         None \<Rightarrow> sax_fail msg_unicode_escape st1
       | Some d \<Rightarrow> read_hex su k (push_bit 4 n OR d) st1)"

definition readHex4 :: "'h sax_setup \<Rightarrow> 'h SaxParser \<Rightarrow> (nat, 'h) sax" where
  "readHex4 su st = read_hex su 4 0 st"

text \<open>The bytes of the second escape, fewer than asked for at the end of the input.\<close>

fun collect_chars :: "'h sax_setup \<Rightarrow> nat \<Rightarrow> string \<Rightarrow> 'h SaxParser \<Rightarrow> string \<times> 'h SaxParser" where
  "collect_chars su 0 hex st = (hex, st)"
| "collect_chars su (Suc k) hex st =
     (case getChar su st of
        (None, st1) \<Rightarrow> (hex, st1)
      | (Some ch, st1) \<Rightarrow> collect_chars su k (hex @ [ch]) st1)"

definition low_unit :: "string \<Rightarrow> nat option" where
  "low_unit hex =
     (if length hex = 4 then
        (case hex4 hex 0 of
           None \<Rightarrow> None
         | Some low \<Rightarrow> if 0xDC00 \<le> low \<and> low \<le> 0xDFFF then Some low else None)
      else None)"

definition sax_low :: "'h sax_setup \<Rightarrow> 'h SaxParser \<Rightarrow> (nat, 'h) sax" where
  "sax_low su st =
     (case sax_peek st of
        (r, st1) \<Rightarrow>
          if r = Some backslash then
            try_bind (take_or_fail su msg_unicode_escape st1) (\<lambda>(_, st2).
            try_bind (take_or_fail su msg_unicode_escape st2) (\<lambda>(u, st3).
              if u = CHR ''u'' then
                (case collect_chars su 4 [] st3 of
                   (hex, st4) \<Rightarrow>
                     (case low_unit hex of
                        None \<Rightarrow> sax_fail msg_high_surrogate st4
                      | Some low \<Rightarrow> Inr (low, st4)))
              else sax_fail msg_high_surrogate st3))
          else sax_fail msg_high_surrogate st1)"

text \<open>Behind \<open>\u\<close>: the decoded bytes are appended to \<open>out\<close>.\<close>

definition sax_unicode :: "'h sax_setup \<Rightarrow> string \<Rightarrow> 'h SaxParser \<Rightarrow> (string, 'h) sax" where
  "sax_unicode su out st =
     try_bind (readHex4 su st) (\<lambda>(cp, st1).
       if 0xD800 \<le> cp \<and> cp \<le> 0xDBFF then
         try_bind (sax_low su st1) (\<lambda>(low, st2).
           Inr (appendUtf8 (0x10000 + push_bit 10 (cp - 0xD800) + (low - 0xDC00)) out, st2))
       else if 0xDC00 \<le> cp \<and> cp \<le> 0xDFFF then sax_fail msg_low_surrogate st1
       else Inr (appendUtf8 cp out, st1))"

text \<open>The continuation bytes of \<open>consumeUtf8Tail\<close>: how many, the code point and the output.\<close>

fun utf8_bytes ::
    "'h sax_setup \<Rightarrow> nat \<Rightarrow> nat \<Rightarrow> string \<Rightarrow> 'h SaxParser \<Rightarrow> (nat \<times> string, 'h) sax" where
  "utf8_bytes su 0 code out st = Inr ((code, out), st)"
| "utf8_bytes su (Suc k) code out st =
     try_bind (take_or_fail su msg_invalid_utf8 st) (\<lambda>(ch, st1).
       if (byte ch AND 0xC0) \<noteq> 0x80 then sax_fail msg_invalid_utf8 st1
       else utf8_bytes su k (push_bit 6 code OR (byte ch AND 0x3F)) (out @ [ch]) st1)"

definition consumeUtf8Tail :: "'h sax_setup \<Rightarrow> char \<Rightarrow> string \<Rightarrow> 'h SaxParser \<Rightarrow> (string, 'h) sax" where
  "consumeUtf8Tail su lead out st =
     (case utf8_lead (byte lead) of
        None \<Rightarrow> sax_fail msg_invalid_utf8 st
      | Some (n, code, least) \<Rightarrow>
          try_bind (utf8_bytes su (n - 1) code out st) (\<lambda>((code, out'), st1).
            if code < least \<or> code > 0x10FFFF \<or> 0xD800 \<le> code \<and> code \<le> 0xDFFF
            then sax_fail msg_invalid_utf8 st1
            else Inr (out', st1)))"

text \<open>One byte of the body that is no closing quote, and what belongs to it.\<close>

definition string_char :: "'h sax_setup \<Rightarrow> char \<Rightarrow> string \<Rightarrow> 'h SaxParser \<Rightarrow> (string, 'h) sax" where
  "string_char su ch out st =
     (if ch = backslash then
        try_bind (take_or_fail su msg_dangling_escape st) (\<lambda>(e, st1).
          case simple_escape e of
            Some d \<Rightarrow> Inr (out @ [d], st1)
          | None \<Rightarrow>
              if e = CHR ''u'' then sax_unicode su out st1 else sax_fail msg_invalid_escape st1)
      else if byte ch < 0x20 then sax_fail msg_control_character st
      else if byte ch \<ge> 0x80 then consumeUtf8Tail su ch (out @ [ch]) st
      else Inr (out @ [ch], st))"

subsection \<open>Predicates no step disturbs\<close>

definition state_of :: "('x \<times> 's) + ('a \<times> 's) \<Rightarrow> 's" where
  "state_of r = (case r of Inl (x, st) \<Rightarrow> st | Inr (a, st) \<Rightarrow> st)"

lemma state_of_simps [simp]: "state_of (Inl (x, st)) = st" "state_of (Inr (a, st)) = st"
  by (simp_all add: state_of_def)

text \<open>
  What the parser does to its state, apart from its control flow, is to look, to take, to record an
  error at a place it has been, to count and to hand the handler an event. A predicate these keep
  is kept by every function.
\<close>

locale stable_under =
  fixes su :: "'h sax_setup" and P :: "'h SaxParser \<Rightarrow> bool"
  assumes look: "P st \<Longrightarrow> P (snd (sax_peek st))"
    and taken: "P st \<Longrightarrow> P (snd (getChar su st))"
    and failed_at: "P st \<Longrightarrow> P st0 \<Longrightarrow> P (failAt (cur_position (sx_cur st0)) (cur_line (sx_cur st0))
      (cur_column (sx_cur st0)) message st)"
    and counted: "P st \<Longrightarrow> P (st\<lparr>sx_nodeCount := n\<rparr>)"
    and handled: "P st \<Longrightarrow> P (st\<lparr>sx_handler := h\<rparr>)"
begin

lemma peeked: "sax_peek st = (r, st1) \<Longrightarrow> P st \<Longrightarrow> P st1"
  using look [of st] by simp

lemma got: "getChar su st = (r, st1) \<Longrightarrow> P st \<Longrightarrow> P st1"
  using taken [of st] by simp

lemma failed: "P st \<Longrightarrow> P (failHere message st)" "P st \<Longrightarrow> P (state_of (sax_fail message st))"
  by (simp_all add: failHere_def sax_fail_def failed_at)

lemma bound:
  "P (state_of m) \<Longrightarrow> (\<And>a st1. m = Inr (a, st1) \<Longrightarrow> P st1 \<Longrightarrow> P (state_of (f (a, st1)))) \<Longrightarrow>
    P (state_of (try_bind m f))"
  by (cases m) (auto simp: state_of_def)

lemma take_char_stable: "P st \<Longrightarrow> P (state_of (take_char su st))"
  using taken [of st] by (auto simp: take_char_def split: prod.splits option.splits)

lemma take_or_fail_stable: "P st \<Longrightarrow> P (state_of (take_or_fail su message st))"
  using taken [of st] by (auto simp: take_or_fail_def failed split: prod.splits option.splits)

lemma expect_char_stable: "P st \<Longrightarrow> P (state_of (expect_char su want message st))"
  by (simp add: expect_char_def bound take_or_fail_stable failed)

lemma reserveNode_stable: "P st \<Longrightarrow> P (state_of (reserveNode su st))"
  by (simp add: reserveNode_def failed counted)

lemma report_stable: "P st \<Longrightarrow> P (state_of (report su emit event st))"
  by (auto simp: report_def dispatch_def handled split: prod.split sum.split)

lemma skipWhitespace_stable: "P st \<Longrightarrow> P (state_of (skipWhitespace su st))"
proof (induction "length (ahead st)" arbitrary: st rule: less_induct)
  case less
  obtain r st1 where pk: "sax_peek st = (r, st1)" by (cases "sax_peek st")
  note P1 = peeked [OF pk less.prems]
  show ?case
  proof (cases "\<exists>ch. r = Some ch \<and> is_ws ch")
    case True
    obtain q st2 where gt: "getChar su st1 = (q, st2)" by (cases "getChar su st1")
    note P2 = got [OF gt P1]
    show ?thesis
    proof (cases q)
      case None
      with True P2 show ?thesis by (auto simp: skipWhitespace.simps [of su st] pk gt)
    next
      case (Some y)
      have "length (ahead st2) < length (ahead st)"
        using getChar_shorter [OF gt [unfolded Some]] peek_ahead [of st] pk by (metis length_Cons lessI snd_conv)
      with less.hyps P2 Some True show ?thesis by (auto simp: skipWhitespace.simps [of su st] pk gt)
    qed
  next
    case False
    with P1 show ?thesis
      by (auto simp: skipWhitespace.simps [of su st] pk failed split: option.split)
  qed
qed

lemma read_hex_stable: "P st \<Longrightarrow> P (state_of (read_hex su k n st))"
  by (induction k arbitrary: n st) (auto intro!: bound take_or_fail_stable failed split: option.split)

lemma collect_chars_stable: "P st \<Longrightarrow> P (snd (collect_chars su k hex st))"
  by (induction k arbitrary: hex st) (auto dest: got split: prod.split option.split)

lemma sax_low_stable: "P st \<Longrightarrow> P (state_of (sax_low su st))"
  using collect_chars_stable
  by (auto simp: sax_low_def intro!: bound take_or_fail_stable failed dest: peeked
      split: prod.split option.split) (metis snd_conv failed(2))+

lemma sax_unicode_stable: "P st \<Longrightarrow> P (state_of (sax_unicode su out st))"
  by (auto simp: sax_unicode_def readHex4_def intro!: bound read_hex_stable sax_low_stable failed)

lemma utf8_bytes_stable: "P st \<Longrightarrow> P (state_of (utf8_bytes su k code out st))"
  by (induction k arbitrary: code out st) (auto intro!: bound take_or_fail_stable failed)

lemma string_char_stable: "P st \<Longrightarrow> P (state_of (string_char su ch out st))"
  by (auto simp: string_char_def consumeUtf8Tail_def
      intro!: bound take_or_fail_stable failed sax_unicode_stable utf8_bytes_stable split: option.split)

end

text \<open>The bytes ahead never grow.\<close>

definition no_longer :: "nat \<Rightarrow> 'h SaxParser \<Rightarrow> bool" where
  "no_longer n st \<longleftrightarrow> length (ahead st) \<le> n"

interpretation shrink: stable_under su "no_longer n" for su n
proof
  fix st st0 :: "'h SaxParser" and su :: "'h sax_setup" and message m h
  show "no_longer n st \<Longrightarrow> no_longer n (snd (sax_peek st))"
    by (simp add: no_longer_def peek_ahead)
  show "no_longer n st \<Longrightarrow> no_longer n (snd (getChar su st))"
    using cur.get_length(1) [of "sx_cur st"]
    by (auto simp: no_longer_def getChar_def failAt_def split: prod.split)
qed (simp_all add: no_longer_def failAt_def)

lemma no_longer_self [simp]: "no_longer (length (ahead st)) st"
  by (simp add: no_longer_def)

lemma shrink_Inr:
  "no_longer n (state_of r) \<Longrightarrow> r = Inr (a, st1) \<Longrightarrow> length (ahead st1) \<le> n"
  by (simp add: no_longer_def)

lemmas string_char_shrink = shrink_Inr [OF shrink.string_char_stable [OF no_longer_self]]
lemmas skipWhitespace_shrink = shrink_Inr [OF shrink.skipWhitespace_stable [OF no_longer_self]]
lemmas reserveNode_shrink = shrink_Inr [OF shrink.reserveNode_stable [OF no_longer_self]]
lemmas report_shrink = shrink_Inr [OF shrink.report_stable [OF no_longer_self]]

subsection \<open>String bodies\<close>

function string_body :: "'h sax_setup \<Rightarrow> string \<Rightarrow> 'h SaxParser \<Rightarrow> (string, 'h) sax" where
  "string_body su out st =
     (case getChar su st of
        (None, st1) \<Rightarrow>
          if cur_failed (sx_cur st1) then sax_fail msg_stream_read st1
          else sax_fail msg_unterminated_string st1
      | (Some ch, st1) \<Rightarrow>
          if ch = dquote then Inr (out, st1)
          else
            (case string_char su ch out st1 of
               Inl e \<Rightarrow> Inl e
             | Inr (out', st2) \<Rightarrow> string_body su out' st2))"
  by pat_completeness auto
termination string_body
proof (relation "measure (\<lambda>(su, out, st). length (ahead st))", goal_cases)
  case (2 su out st r st1 ch q out' st2)
  then have "getChar su st = (Some ch, st1)" "string_char su ch out st1 = Inr (out', st2)" by simp_all
  from getChar_shorter [OF this(1)] string_char_shrink [OF this(2)] show ?case by simp
qed simp

declare string_body.simps [simp del]

definition parseStringRaw :: "'h sax_setup \<Rightarrow> 'h SaxParser \<Rightarrow> (string, 'h) sax" where
  "parseStringRaw su st =
     try_bind (expect_char su dquote msg_expected_string st) (\<lambda>(_, st1). string_body su [] st1)"

subsection \<open>Scalars\<close>

definition parseStringValue :: "'h sax_setup \<Rightarrow> bool \<Rightarrow> 'h SaxParser \<Rightarrow> (unit, 'h) sax" where
  "parseStringValue su emit st =
     try_bind (reserveNode su st) (\<lambda>(_, st1).
     try_bind (parseStringRaw su st1) (\<lambda>(s, st2).
       report su emit (OnString s) st2))"

fun matchLiteral :: "'h sax_setup \<Rightarrow> string \<Rightarrow> 'h SaxParser \<Rightarrow> (unit, 'h) sax" where
  "matchLiteral su [] st = Inr ((), st)"
| "matchLiteral su (want # lit) st =
     try_bind (expect_char su want msg_invalid_value st) (\<lambda>(_, st1). matchLiteral su lit st1)"

definition literal_value ::
    "'h sax_setup \<Rightarrow> bool \<Rightarrow> string \<Rightarrow> sax_event \<Rightarrow> 'h SaxParser \<Rightarrow> (unit, 'h) sax" where
  "literal_value su emit lit event st =
     try_bind (matchLiteral su lit st) (\<lambda>(_, st1).
     try_bind (reserveNode su st1) (\<lambda>(_, st2).
       report su emit event st2))"

definition parseKeywordValue :: "'h sax_setup \<Rightarrow> bool \<Rightarrow> 'h SaxParser \<Rightarrow> (unit, 'h) sax" where
  "parseKeywordValue su emit st =
     (case sax_peek st of
        (None, st1) \<Rightarrow> sax_fail msg_end_of_input st1
      | (Some ch, st1) \<Rightarrow>
          if ch = CHR ''n'' then literal_value su emit ''null'' OnNull st1
          else if ch = CHR ''t'' then literal_value su emit ''true'' (OnBool True) st1
          else if ch = CHR ''f'' then literal_value su emit ''false'' (OnBool False) st1
          else sax_fail msg_invalid_value st1)"

fun number_event :: "ParsedNumber \<Rightarrow> sax_event" where
  "number_event (SignedInteger w) = OnInt w"
| "number_event (UnsignedInteger w) = OnUInt w"
| "number_event (FloatingPoint d) = OnDouble d"

definition sax_scanner :: "'h sax_setup \<Rightarrow> 'h SaxParser scanner" where
  "sax_scanner su = \<lparr>sc_peek = sax_peek, sc_take = getChar su\<rparr>"

lemma sax_scanner_sel [simp]:
  "sc_peek (sax_scanner su) = sax_peek" "sc_take (sax_scanner su) = getChar su"
  by (simp_all add: sax_scanner_def)

text \<open>The scan returns, by \<open>sax_scan_returns\<close>.\<close>

definition parseNumberValue :: "'h sax_setup \<Rightarrow> bool \<Rightarrow> 'h SaxParser \<Rightarrow> (unit, 'h) sax" where
  "parseNumberValue su emit st =
     (case the (scanJsonNumber (sax_scanner su) st) of
        Inl (scanError, st1) \<Rightarrow>
          (case scanError of None \<Rightarrow> Inl (Stopped, st1) | Some msg \<Rightarrow> sax_fail msg st1)
      | Inr ((token, isFloat), st1) \<Rightarrow>
          try_bind (reserveNode su st1) (\<lambda>(_, st2).
            case convertNumberToken (su_underflow su) token isFloat (po_numberPolicy (su_opts su)) of
              Inl msg \<Rightarrow> sax_fail msg st2
            | Inr n \<Rightarrow> report su emit (number_event n) st2))"

subsection \<open>Containers\<close>

text \<open>The depth check, the container's node, its opening bracket and the event.\<close>

definition sax_open ::
    "'h sax_setup \<Rightarrow> nat \<Rightarrow> bool \<Rightarrow> char \<Rightarrow> sax_event \<Rightarrow> 'h SaxParser \<Rightarrow> (unit, 'h) sax" where
  "sax_open su depth emit bracket event st =
     (if depth > clampParseDepth (po_maxDepth (su_opts su)) then sax_fail msg_max_depth st
      else
        try_bind (reserveNode su st) (\<lambda>(_, st1).
        try_bind (expect_char su bracket msg_end_of_input st1) (\<lambda>(_, st2).
          report su emit event st2)))"

text \<open>A member up to the event of its name: the names seen and whether its value is reported.\<close>

definition sax_member ::
    "'h sax_setup \<Rightarrow> bool \<Rightarrow> string list \<Rightarrow> 'h SaxParser \<Rightarrow> (string list \<times> bool, 'h) sax" where
  "sax_member su emit seenKeys st =
     try_bind (parseStringRaw su st) (\<lambda>(key, st1).
     try_bind (skipWhitespace su st1) (\<lambda>(_, st2).
     try_bind (expect_char su (CHR '':'') msg_expected_colon st2) (\<lambda>(_, st3).
       let policy = po_duplicateKeys (su_opts su);
           duplicate = (policy \<noteq> KeepLastDuplicate \<and> key \<in> set seenKeys);
           seen = (if \<not> duplicate \<and> policy \<noteq> KeepLastDuplicate then key # seenKeys else seenKeys);
           emitValue = (emit \<and> \<not> (duplicate \<and> policy = KeepFirstDuplicate))
       in if duplicate \<and> policy = RejectDuplicateKeys then
            Inl (Stopped, failAt (cur_position (sx_cur st)) (cur_line (sx_cur st))
              (cur_column (sx_cur st)) msg_duplicate_key st3)
          else
            try_bind (report su emitValue (OnKey key) st3) (\<lambda>(_, st4).
              Inr ((seen, emitValue), st4)))))"

definition sax_close ::
    "'h sax_setup \<Rightarrow> bool \<Rightarrow> sax_event \<Rightarrow> 'h SaxParser \<Rightarrow> (unit, 'h) sax" where
  "sax_close su emit event st =
     try_bind (take_char su st) (\<lambda>(_, st1). report su emit event st1)"

text \<open>The next byte behind white space, or the failure at the end of the input.\<close>

definition next_byte :: "'h sax_setup \<Rightarrow> string \<Rightarrow> 'h SaxParser \<Rightarrow> (char, 'h) sax" where
  "next_byte su message st =
     try_bind (skipWhitespace su st) (\<lambda>(_, st1).
       case sax_peek st1 of
         (None, st2) \<Rightarrow>
           if cur_failed (sx_cur st2) then sax_fail msg_stream_read st2 else sax_fail message st2
       | (Some ch, st2) \<Rightarrow> Inr (ch, st2))"

function (domintros, sequential)
  sax_parseValue :: "'h sax_setup \<Rightarrow> nat \<Rightarrow> bool \<Rightarrow> 'h SaxParser \<Rightarrow> (unit, 'h) sax"
  and sax_parseArray :: "'h sax_setup \<Rightarrow> nat \<Rightarrow> bool \<Rightarrow> 'h SaxParser \<Rightarrow> (unit, 'h) sax"
  and sax_elements ::
    "'h sax_setup \<Rightarrow> nat \<Rightarrow> bool \<Rightarrow> bool \<Rightarrow> bool \<Rightarrow> 'h SaxParser \<Rightarrow> (unit, 'h) sax"
  and sax_parseObject :: "'h sax_setup \<Rightarrow> nat \<Rightarrow> bool \<Rightarrow> 'h SaxParser \<Rightarrow> (unit, 'h) sax"
  and sax_members ::
    "'h sax_setup \<Rightarrow> nat \<Rightarrow> bool \<Rightarrow> bool \<Rightarrow> bool \<Rightarrow> string list \<Rightarrow> 'h SaxParser \<Rightarrow> (unit, 'h) sax" where
  "sax_parseValue su depth emit st =
     (case next_byte su msg_end_of_input st of
        Inl e \<Rightarrow> Inl e
      | Inr (ch, st1) \<Rightarrow>
          if ch = dquote then parseStringValue su emit st1
          else if ch = CHR ''{'' then sax_parseObject su (Suc depth) emit st1
          else if ch = CHR ''['' then sax_parseArray su (Suc depth) emit st1
          else if ch = CHR ''-'' \<or> is_digit ch then parseNumberValue su emit st1
          else parseKeywordValue su emit st1)"
| "sax_parseArray su depth emit st =
     (case sax_open su depth emit (CHR ''['') OnStartArray st of
        Inl e \<Rightarrow> Inl e
      | Inr (_, st1) \<Rightarrow> sax_elements su depth emit False False st1)"
| "sax_elements su depth emit expectValue anyValue st =
     (case next_byte su msg_array_unterminated st of
        Inl e \<Rightarrow> Inl e
      | Inr (ch, st1) \<Rightarrow>
          if ch = CHR '']'' then
            if expectValue then sax_fail msg_array_trailing st1
            else sax_close su emit OnEndArray st1
          else if ch = CHR '','' then
            if \<not> anyValue \<or> expectValue then sax_fail msg_array_comma st1
            else
              (case take_char su st1 of
                 Inl e \<Rightarrow> Inl e
               | Inr (_, st2) \<Rightarrow> sax_elements su depth emit True anyValue st2)
          else if anyValue \<and> \<not> expectValue then sax_fail msg_array_missing st1
          else
            (case sax_parseValue su depth emit st1 of
               Inl e \<Rightarrow> Inl e
             | Inr (_, st2) \<Rightarrow> sax_elements su depth emit False True st2))"
| "sax_parseObject su depth emit st =
     (case sax_open su depth emit (CHR ''{'') OnStartObject st of
        Inl e \<Rightarrow> Inl e
      | Inr (_, st1) \<Rightarrow> sax_members su depth emit False False [] st1)"
| "sax_members su depth emit expectMember anyMember seenKeys st =
     (case next_byte su msg_object_unterminated st of
        Inl e \<Rightarrow> Inl e
      | Inr (ch, st1) \<Rightarrow>
          if ch = CHR ''}'' then
            if expectMember then sax_fail msg_object_trailing st1
            else sax_close su emit OnEndObject st1
          else if ch = CHR '','' then
            if \<not> anyMember \<or> expectMember then sax_fail msg_object_comma st1
            else
              (case take_char su st1 of
                 Inl e \<Rightarrow> Inl e
               | Inr (_, st2) \<Rightarrow> sax_members su depth emit True anyMember seenKeys st2)
          else if ch \<noteq> dquote then sax_fail msg_expected_key st1
          else if anyMember \<and> \<not> expectMember then sax_fail msg_object_missing st1
          else
            (case sax_member su emit seenKeys st1 of
               Inl e \<Rightarrow> Inl e
             | Inr ((seen, emitValue), st2) \<Rightarrow>
                 (case sax_parseValue su depth emitValue st2 of
                    Inl e \<Rightarrow> Inl e
                  | Inr (_, st3) \<Rightarrow> sax_members su depth emit False True seen st3)))"
  by pat_completeness auto

subsection \<open>Termination\<close>

lemma peek_Some:
  "sax_peek st = (Some ch, st1) \<Longrightarrow> ahead st1 = ahead st \<and> (\<exists>r. ahead st = ch # r)"
  using peek_ahead [of st] cur.peek_result [of "sx_cur st"]
  by (auto simp: sax_peek_def split: prod.splits list.splits)

lemma peek_same: "sax_peek st = (r, st1) \<Longrightarrow> ahead st1 = ahead st \<and> sx_err st1 = sx_err st"
  using peek_ahead [of st] by (auto simp: sax_peek_def split: prod.splits)

text \<open>A byte that is ahead is refused only at the limit.\<close>

lemma getChar_refused:
  "getChar su st = (None, st1) \<Longrightarrow> ahead st \<noteq> [] \<Longrightarrow> \<not> er_ok (sx_err st1)"
  using cur.get_result [of "sx_cur st"]
  by (auto simp: getChar_def failAt_def split: if_splits prod.splits list.splits)

text \<open>A scan that returns, keeps \<open>P\<close>, is left with fewer than \<open>n\<close> bytes when it succeeds and
  has recorded an error when it fails without a message.\<close>

definition scan_keeps ::
    "('h SaxParser \<Rightarrow> bool) \<Rightarrow> nat \<Rightarrow> ('a, 'h SaxParser) scanned \<Rightarrow> bool" where
  "scan_keeps P n m \<longleftrightarrow> (\<exists>r. m = Some r \<and> P (state_of r)
     \<and> (\<forall>a st. r = Inr (a, st) \<longrightarrow> length (ahead st) < n)
     \<and> (\<forall>st. r = Inl (None, st) \<longrightarrow> \<not> er_ok (sx_err st)))"

lemma scan_keeps_intros:
  "P st \<Longrightarrow> scan_keeps P n (Some (Inl (Some msg, st)))"
  "P st \<Longrightarrow> length (ahead st) < n \<Longrightarrow> scan_keeps P n (Some (Inr (a, st)))"
  "P st \<Longrightarrow> \<not> er_ok (sx_err st) \<Longrightarrow> scan_keeps P n (Some (Inl (None, st)))"
  by (auto simp: scan_keeps_def)

lemma scan_keeps_mono: "scan_keeps P m r \<Longrightarrow> m \<le> n \<Longrightarrow> scan_keeps P n r"
  by (fastforce simp: scan_keeps_def)

lemma scan_keeps_sthen:
  assumes "scan_keeps P m r"
    and "\<And>a st. P st \<Longrightarrow> length (ahead st) < m \<Longrightarrow> scan_keeps P n (f a st)"
  shows "scan_keeps P n (sthen r f)"
proof -
  from assms(1) obtain q where q: "r = Some q" "P (state_of q)"
    "\<forall>a st. q = Inr (a, st) \<longrightarrow> length (ahead st) < m" "\<forall>st. q = Inl (None, st) \<longrightarrow> \<not> er_ok (sx_err st)"
    by (auto simp: scan_keeps_def)
  show ?thesis
  proof (cases q)
    case (Inl e)
    with q show ?thesis by (cases e) (auto simp: scan_keeps_def)
  next
    case (Inr p)
    with q assms(2) show ?thesis by (cases p) auto
  qed
qed

lemma sthen_assoc: "sthen (sthen m f) g = sthen m (\<lambda>a s. sthen (f a s) g)"
  by (cases m; cases "the m") (auto split: prod.splits)

context stable_under
begin

lemma scan_take_keeps:
  assumes "P st" "ahead st \<noteq> []"
  shows "scan_keeps P (length (ahead st)) (scan_take (sax_scanner su) tk st)"
proof (cases "getChar su st")
  case (Pair r st1)
  with assms got [OF Pair] getChar_refused [of su st st1] getChar_shorter [of su st _ st1] show ?thesis
    by (cases r) (auto simp: scan_take_def sax_scanner_def intro!: scan_keeps_intros)
qed

lemma scan_digits_keeps:
  "P st \<Longrightarrow> ahead st \<noteq> [] \<Longrightarrow> scan_keeps P (length (ahead st)) (scan_digits (sax_scanner su) tk st)"
proof (induction "length (ahead st)" arbitrary: st tk rule: less_induct)
  case less
  obtain r st1 where g: "getChar su st = (r, st1)" by (cases "getChar su st")
  obtain q st2 where p: "sax_peek st1 = (q, st2)" by (cases "sax_peek st1")
  note P1 = got [OF g less.prems(1)]
  note P2 = peeked [OF p P1]
  show ?case
  proof (cases r)
    case None
    with g P1 getChar_refused [of su st st1] less.prems show ?thesis
      by (subst scan_digits.simps) (auto simp: sax_scanner_def intro!: scan_keeps_intros)
  next
    case (Some ch)
    with g getChar_shorter [of su st ch st1] peek_same [OF p]
    have l: "length (ahead st2) < length (ahead st)" by simp
    show ?thesis
    proof (cases "\<exists>d. q = Some d \<and> is_digit d")
      case True
      then obtain d where "q = Some d" "ahead st2 \<noteq> []" using peek_Some p by fastforce
      with less.hyps [OF l P2, of "tk @ [ch]"] l g p Some True show ?thesis
        by (subst scan_digits.simps) (auto simp: sax_scanner_def intro: scan_keeps_mono)
    next
      case False
      with g p Some P2 l show ?thesis
        by (subst scan_digits.simps) (auto simp: sax_scanner_def intro!: scan_keeps_intros split: option.split)
    qed
  qed
qed

lemma scan_peek_keeps:
  assumes "P st" and "\<And>st1. P st1 \<Longrightarrow> ahead st1 = ahead st \<Longrightarrow> scan_keeps P n (f None st1)"
    and "\<And>ch st1. P st1 \<Longrightarrow> ahead st1 = ahead st \<Longrightarrow> ahead st1 \<noteq> [] \<Longrightarrow> scan_keeps P n (f (Some ch) st1)"
  shows "scan_keeps P n (case sax_peek st of (r, st1) \<Rightarrow> f r st1)"
proof (cases "sax_peek st")
  case (Pair r st1)
  with assms peeked [OF Pair] peek_same [OF Pair] peek_Some [of st _ st1] show ?thesis
    by (cases r) auto
qed

lemma scan_some_digits_keeps:
  "P st \<Longrightarrow> scan_keeps P (length (ahead st)) (scan_some_digits (sax_scanner su) msg tk st)"
  unfolding scan_some_digits_def sax_scanner_sel
  by (rule scan_peek_keeps) (auto intro: scan_keeps_intros scan_keeps_mono [OF scan_digits_keeps])

lemma scan_integer_keeps:
  "P st \<Longrightarrow> ahead st \<noteq> [] \<Longrightarrow> scan_keeps P (length (ahead st)) (scan_integer (sax_scanner su) (tk, ch) st)"
  by (auto simp: scan_integer_def intro: scan_take_keeps scan_digits_keeps scan_keeps_intros)

lemma scan_peek_then_keeps:
  assumes "P st" and "\<And>st1. P st1 \<Longrightarrow> scan_keeps P n (sthen (f None st1) g)"
    and "\<And>ch st1. P st1 \<Longrightarrow> ahead st1 = ahead st \<Longrightarrow> ahead st1 \<noteq> [] \<Longrightarrow>
      scan_keeps P n (sthen (f (Some ch) st1) g)"
  shows "scan_keeps P n (sthen (case sax_peek st of (r, st1) \<Rightarrow> f r st1) g)"
proof (cases "sax_peek st")
  case (Pair r st1)
  with assms peeked [OF Pair] peek_Some [of st _ st1] show ?thesis by (cases r) auto
qed

lemma scan_minus_keeps:
  assumes "P st"
  shows "scan_keeps P (length (ahead st))
    (sthen (case sax_peek st of (None, s3) \<Rightarrow> Some (Inl (Some msg, s3)) | (Some ch, s3) \<Rightarrow> Some (Inr ((tk, ch), s3)))
      (scan_integer (sax_scanner su)))"
  by (rule scan_peek_then_keeps [OF assms])
    (auto intro: scan_keeps_intros scan_keeps_mono [OF scan_integer_keeps])

lemma scan_sign_integer_keeps:
  assumes "P st"
  shows "scan_keeps P (length (ahead st))
    (sthen (scan_sign (sax_scanner su) st) (scan_integer (sax_scanner su)))"
  unfolding scan_sign_def sax_scanner_sel
proof (rule scan_peek_then_keeps [OF assms], goal_cases)
  case (2 ch st1)
  show ?case
  proof (cases "ch = CHR ''-''")
    case True
    have "scan_keeps P (length (ahead st1)) (sthen (scan_take (sax_scanner su) [] st1) (\<lambda>tk s2. sthen
       (case sax_peek s2 of (None, s3) \<Rightarrow> Some (Inl (Some msg_number_digit, s3))
          | (Some ch, s3) \<Rightarrow> Some (Inr ((tk, ch), s3))) (scan_integer (sax_scanner su))))"
      using 2 by (intro scan_keeps_sthen [OF scan_take_keeps]) (auto intro: scan_keeps_mono [OF scan_minus_keeps])
    with 2 True show ?thesis by (simp add: sthen_assoc)
  next
    case False
    with 2 show ?thesis by (auto intro: scan_keeps_mono [OF scan_integer_keeps])
  qed
qed (auto intro: scan_keeps_intros)

lemma scan_fraction_keeps:
  "P st \<Longrightarrow> scan_keeps P (Suc (length (ahead st))) (scan_fraction (sax_scanner su) tk st)"
  unfolding scan_fraction_def sax_scanner_sel
  by (rule scan_peek_keeps)
    (auto intro!: scan_keeps_intros scan_keeps_sthen [OF scan_take_keeps] scan_keeps_sthen [OF scan_some_digits_keeps])

lemma scan_exponent_sign_keeps:
  "P st \<Longrightarrow> scan_keeps P (Suc (length (ahead st))) (scan_exponent_sign (sax_scanner su) tk st)"
  unfolding scan_exponent_sign_def sax_scanner_sel
  by (rule scan_peek_keeps) (auto intro: scan_keeps_intros scan_keeps_mono [OF scan_take_keeps])

lemma scan_exponent_keeps:
  "P st \<Longrightarrow> scan_keeps P (Suc (length (ahead st))) (scan_exponent (sax_scanner su) (tk, f) st)"
  unfolding scan_exponent_def sax_scanner_sel prod.case
  by (rule scan_peek_keeps)
    (auto intro!: scan_keeps_intros scan_keeps_sthen [OF scan_take_keeps]
      scan_keeps_sthen [OF scan_exponent_sign_keeps] scan_keeps_sthen [OF scan_some_digits_keeps])

lemma scan_number_keeps:
  assumes "P st"
  shows "scan_keeps P (length (ahead st)) (scanJsonNumber (sax_scanner su) st)"
proof -
  have "scan_keeps P (length (ahead st)) (sthen (sthen (scan_sign (sax_scanner su) st) (scan_integer (sax_scanner su)))
      (\<lambda>tk s. sthen (scan_fraction (sax_scanner su) tk s) (scan_exponent (sax_scanner su))))"
    using assms
    by (auto intro!: scan_keeps_sthen [OF scan_sign_integer_keeps] scan_keeps_sthen [OF scan_fraction_keeps]
        intro: scan_keeps_mono [OF scan_exponent_keeps])
  then show ?thesis by (simp add: scanJsonNumber_def sthen_assoc)
qed

lemma string_body_stable: "P st \<Longrightarrow> P (state_of (string_body su out st))"
proof (induction "length (ahead st)" arbitrary: st out rule: less_induct)
  case less
  obtain r st1 where g: "getChar su st = (r, st1)" by (cases "getChar su st")
  note P1 = got [OF g less.prems]
  show ?case
  proof (cases "\<exists>ch. r = Some ch \<and> ch \<noteq> dquote")
    case True
    then obtain ch where ch: "r = Some ch" "ch \<noteq> dquote" by blast
    have "P (state_of (string_char su ch out st1))" by (rule string_char_stable [OF P1])
    moreover have "P (state_of (string_body su out' st2))" if "string_char su ch out st1 = Inr (out', st2)" for out' st2
      using less.hyps [of st2 out'] string_char_shrink [OF that] getChar_shorter [of su st ch st1] g ch that calculation
      by simp
    ultimately show ?thesis using ch g
      by (auto simp: string_body.simps [of su out st] split: sum.splits)
  next
    case False
    with P1 g show ?thesis by (auto simp: string_body.simps [of su out st] failed split: option.splits)
  qed
qed

lemma parseStringRaw_stable: "P st \<Longrightarrow> P (state_of (parseStringRaw su st))"
  by (auto simp: parseStringRaw_def intro!: bound expect_char_stable string_body_stable)

lemma matchLiteral_stable: "P st \<Longrightarrow> P (state_of (matchLiteral su lit st))"
  by (induction lit arbitrary: st) (auto intro!: bound expect_char_stable)

lemma literal_value_stable: "P st \<Longrightarrow> P (state_of (literal_value su emit lit event st))"
  by (auto simp: literal_value_def intro!: bound matchLiteral_stable reserveNode_stable report_stable)

lemma parseStringValue_stable: "P st \<Longrightarrow> P (state_of (parseStringValue su emit st))"
  by (auto simp: parseStringValue_def intro!: bound parseStringRaw_stable reserveNode_stable report_stable)

lemma parseKeywordValue_stable: "P st \<Longrightarrow> P (state_of (parseKeywordValue su emit st))"
  by (auto simp: parseKeywordValue_def intro!: literal_value_stable failed dest: peeked
      split: prod.split option.split)

lemma parseNumberValue_stable: "P st \<Longrightarrow> P (state_of (parseNumberValue su emit st))"
proof -
  assume "P st"
  from scan_number_keeps [OF this] obtain r where "scanJsonNumber (sax_scanner su) st = Some r" "P (state_of r)"
    by (auto simp: scan_keeps_def)
  then show ?thesis
    by (auto simp: parseNumberValue_def intro!: bound reserveNode_stable report_stable failed
        split: sum.split option.split prod.split)
qed

lemma sax_open_stable: "P st \<Longrightarrow> P (state_of (sax_open su depth emit bracket event st))"
  by (auto simp: sax_open_def intro!: bound reserveNode_stable expect_char_stable report_stable failed)

lemma sax_close_stable: "P st \<Longrightarrow> P (state_of (sax_close su emit event st))"
  by (auto simp: sax_close_def intro!: bound take_char_stable report_stable)

lemma next_byte_stable: "P st \<Longrightarrow> P (state_of (next_byte su msg st))"
  by (auto simp: next_byte_def intro!: bound skipWhitespace_stable failed dest: peeked
      split: prod.split option.split)

lemma sax_member_stable: "P st \<Longrightarrow> P (state_of (sax_member su emit seen st))"
  by (auto simp: sax_member_def Let_def failed_at
      intro!: bound parseStringRaw_stable skipWhitespace_stable expect_char_stable report_stable)

end

lemma sax_scan_returns: "scanJsonNumber (sax_scanner su) st \<noteq> None"
  using shrink.scan_number_keeps [OF no_longer_self [of st], where su = su] by (auto simp: scan_keeps_def)

lemmas string_body_shrink = shrink_Inr [OF shrink.string_body_stable [OF no_longer_self]]
lemmas matchLiteral_shrink = shrink_Inr [OF shrink.matchLiteral_stable [OF no_longer_self]]
lemmas shrinking = string_body_shrink matchLiteral_shrink skipWhitespace_shrink reserveNode_shrink report_shrink

text \<open>Every value, bracket, comma and name takes at least one byte.\<close>

abbreviation shorter :: "'h SaxParser \<Rightarrow> 'h SaxParser \<Rightarrow> bool" where
  "shorter st1 st \<equiv> length (ahead st1) < length (ahead st)"

lemma take_char_shorter: "take_char su st = Inr (ch, st1) \<Longrightarrow> shorter st1 st"
  using getChar_shorter [of su st ch st1] by (auto simp: take_char_def split: prod.splits option.splits)

lemma expect_char_shorter: "expect_char su want msg st = Inr (u, st1) \<Longrightarrow> shorter st1 st"
  using getChar_shorter [of su st]
  by (fastforce simp: expect_char_def take_or_fail_def sax_fail_def split: prod.splits option.splits if_splits)

lemma parseStringRaw_shorter: "parseStringRaw su st = Inr (s, st1) \<Longrightarrow> shorter st1 st"
  by (fastforce simp: parseStringRaw_def dest: expect_char_shorter string_body_shrink)

lemma parseStringValue_shorter: "parseStringValue su emit st = Inr (u, st1) \<Longrightarrow> shorter st1 st"
  by (fastforce simp: parseStringValue_def dest: parseStringRaw_shorter reserveNode_shrink report_shrink)

lemma literal_value_shorter:
  "literal_value su emit (c # lit) event st = Inr (u, st1) \<Longrightarrow> shorter st1 st"
  by (fastforce simp: literal_value_def dest: expect_char_shorter matchLiteral_shrink reserveNode_shrink report_shrink)

lemma parseKeywordValue_shorter: "parseKeywordValue su emit st = Inr (u, st1) \<Longrightarrow> shorter st1 st"
  by (auto simp: parseKeywordValue_def sax_fail_def split: prod.splits option.splits if_splits
      dest!: literal_value_shorter dest: peek_same)

lemma parseNumberValue_shorter:
  assumes "parseNumberValue su emit st = Inr (u, st1)"
  shows "shorter st1 st"
proof -
  from shrink.scan_number_keeps [OF no_longer_self [of st], where su = su] obtain r where
    r: "scanJsonNumber (sax_scanner su) st = Some r" "\<And>a st2. r = Inr (a, st2) \<Longrightarrow> shorter st2 st"
    by (auto simp: scan_keeps_def)
  show ?thesis
  proof (cases r)
    case (Inl e)
    with assms r(1) show ?thesis by (cases e) (auto simp: parseNumberValue_def sax_fail_def split: option.splits)
  next
    case (Inr p)
    obtain t f st2 where p: "p = ((t, f), st2)" by (cases p) auto
    with Inr r(2) have "shorter st2 st" by blast
    moreover from assms r(1) Inr p obtain n where
      n: "convertNumberToken (su_underflow su) t f (po_numberPolicy (su_opts su)) = Inr n"
      by (cases "convertNumberToken (su_underflow su) t f (po_numberPolicy (su_opts su))")
        (auto simp: parseNumberValue_def sax_fail_def)
    moreover from this assms r(1) Inr p obtain st3 where
      "reserveNode su st2 = Inr ((), st3)" "report su emit (number_event n) st3 = Inr (u, st1)"
      by (auto simp: parseNumberValue_def)
    then have "length (ahead st1) \<le> length (ahead st2)"
      using reserveNode_shrink report_shrink order_trans by blast
    ultimately show ?thesis by simp
  qed
qed

lemma sax_open_shorter: "sax_open su depth emit bracket event st = Inr (u, st1) \<Longrightarrow> shorter st1 st"
  by (fastforce simp: sax_open_def sax_fail_def dest: expect_char_shorter reserveNode_shrink report_shrink
      split: if_splits)

lemma sax_member_shorter: "sax_member su emit seen st = Inr (p, st1) \<Longrightarrow> shorter st1 st"
  by (fastforce simp: sax_member_def Let_def dest: parseStringRaw_shorter skipWhitespace_shrink
      expect_char_shorter report_shrink split: if_splits)

lemma next_byte_iff:
  "next_byte su msg st = Inr (ch, st1) \<longleftrightarrow>
    (\<exists>st2. skipWhitespace su st = Inr ((), st2) \<and> sax_peek st2 = (Some ch, st1))"
proof (cases "skipWhitespace su st")
  case (Inr p)
  obtain st2 where p: "p = ((), st2)" by (cases p) auto
  obtain r st3 where "sax_peek st2 = (r, st3)" by (cases "sax_peek st2")
  with Inr p show ?thesis by (cases r) (auto simp: next_byte_def sax_fail_def)
qed (simp add: next_byte_def)

lemma next_byte_shrink:
  assumes "next_byte su msg st = Inr (ch, st1)"
  shows "length (ahead st1) \<le> length (ahead st)" "ahead st1 \<noteq> []"
proof -
  from assms obtain st2 where s: "skipWhitespace su st = Inr ((), st2)" "sax_peek st2 = (Some ch, st1)"
    by (auto simp: next_byte_iff)
  from skipWhitespace_shrink [OF s(1)] peek_Some [OF s(2)]
  show "length (ahead st1) \<le> length (ahead st)" "ahead st1 \<noteq> []" by auto
qed

lemma sax_progress_partial:
  "sax_parseValue_sax_parseArray_sax_elements_sax_parseObject_sax_members_dom (Inl (Inl (su, d, m, st))) \<Longrightarrow>
    \<forall>u st1. sax_parseValue su d m st = Inr (u, st1) \<longrightarrow> shorter st1 st"
  "sax_parseValue_sax_parseArray_sax_elements_sax_parseObject_sax_members_dom (Inl (Inr (su, d, m, st))) \<Longrightarrow>
    \<forall>u st1. sax_parseArray su d m st = Inr (u, st1) \<longrightarrow> shorter st1 st"
  "sax_parseValue_sax_parseArray_sax_elements_sax_parseObject_sax_members_dom (Inr (Inl (su, d, m, e, a, st))) \<Longrightarrow>
    \<forall>u st1. sax_elements su d m e a st = Inr (u, st1) \<longrightarrow> shorter st1 st"
  "sax_parseValue_sax_parseArray_sax_elements_sax_parseObject_sax_members_dom (Inr (Inr (Inl (su, d, m, st)))) \<Longrightarrow>
    \<forall>u st1. sax_parseObject su d m st = Inr (u, st1) \<longrightarrow> shorter st1 st"
  "sax_parseValue_sax_parseArray_sax_elements_sax_parseObject_sax_members_dom (Inr (Inr (Inr (su, d, m, e, a, ks, st)))) \<Longrightarrow>
    \<forall>u st1. sax_members su d m e a ks st = Inr (u, st1) \<longrightarrow> shorter st1 st"
proof (induction rule: sax_parseValue_sax_parseArray_sax_elements_sax_parseObject_sax_members.pinduct)
  case (1 su d m st)
  show ?case
  proof (intro allI impI)
    fix u st2
    assume r: "sax_parseValue su d m st = Inr (u, st2)"
    then obtain ch st1 where nb: "next_byte su msg_end_of_input st = Inr (ch, st1)"
      unfolding sax_parseValue.psimps [OF "1.hyps"] by (auto split: sum.splits)
    from r 1(2-) [OF nb refl] next_byte_shrink [OF nb] show "shorter st2 st"
      unfolding sax_parseValue.psimps [OF "1.hyps"] nb
      by (fastforce split: if_splits dest: parseStringValue_shorter parseNumberValue_shorter parseKeywordValue_shorter)
  qed
next
  case (2 su d m st)
  then show ?case
    unfolding sax_parseArray.psimps [OF "2.hyps"]
    by (fastforce split: sum.splits dest: sax_open_shorter)
next
  case (3 su d m e a st)
  show ?case
  proof (intro allI impI)
    fix u st2
    assume r: "sax_elements su d m e a st = Inr (u, st2)"
    then obtain ch st1 where nb: "next_byte su msg_array_unterminated st = Inr (ch, st1)"
      unfolding sax_elements.psimps [OF "3.hyps"] by (auto split: sum.splits)
    note IH = 3(2-) [OF nb refl]
    from r IH next_byte_shrink [OF nb] show "shorter st2 st"
      unfolding sax_elements.psimps [OF "3.hyps"] nb
      by (fastforce simp: sax_fail_def sax_close_def split: if_splits sum.splits
          dest: take_char_shorter report_shrink)
  qed
next
  case (4 su d m st)
  then show ?case
    unfolding sax_parseObject.psimps [OF "4.hyps"]
    by (fastforce split: sum.splits dest: sax_open_shorter)
next
  case (5 su d m e a ks st)
  show ?case
  proof (intro allI impI)
    fix u st2
    assume r: "sax_members su d m e a ks st = Inr (u, st2)"
    then obtain ch st1 where nb: "next_byte su msg_object_unterminated st = Inr (ch, st1)"
      unfolding sax_members.psimps [OF "5.hyps"] by (auto split: sum.splits)
    note IH = 5(2-) [OF nb refl]
    from r IH next_byte_shrink [OF nb] show "shorter st2 st"
      unfolding sax_members.psimps [OF "5.hyps"] nb
      by (fastforce simp: sax_fail_def sax_close_def split: if_splits sum.splits
          dest: take_char_shorter report_shrink sax_member_shorter)
  qed
qed

termination sax_parseValue
proof (relation "measure (\<lambda>x. case x of
      Inl (Inl (su, d, m, st)) \<Rightarrow> 3 * length (ahead st) + 1
    | Inl (Inr (su, d, m, st)) \<Rightarrow> 3 * length (ahead st)
    | Inr (Inl (su, d, m, e, a, st)) \<Rightarrow> 3 * length (ahead st) + 2
    | Inr (Inr (Inl (su, d, m, st))) \<Rightarrow> 3 * length (ahead st)
    | Inr (Inr (Inr (su, d, m, e, a, ks, st))) \<Rightarrow> 3 * length (ahead st) + 2)", goal_cases)
  case 2
  then show ?case using next_byte_shrink(1) by fastforce
next
  case 3
  then show ?case using next_byte_shrink(1) by fastforce
next
  case 4
  then show ?case using sax_open_shorter by fastforce
next
  case 5
  then show ?case using next_byte_shrink(1) take_char_shorter by fastforce
next
  case 6
  then show ?case using next_byte_shrink(1) by fastforce
next
  case (7 su d m e a st p ch st1 q u st2)
  then have "shorter st2 st1" using sax_progress_partial(1) by blast
  with 7 show ?case using next_byte_shrink(1) by fastforce
next
  case 8
  then show ?case using sax_open_shorter by fastforce
next
  case 9
  then show ?case using next_byte_shrink(1) take_char_shorter by fastforce
next
  case (10 su d m e a ks st p ch st1 q k st2)
  then show ?case using next_byte_shrink(1) sax_member_shorter by fastforce
next
  case (11 su d m e a ks st p ch st1 q kv st2 seen ev r u st3)
  then show ?case using next_byte_shrink(1) sax_member_shorter sax_progress_partial(1) by fastforce
qed simp

declare sax_parseValue.simps [simp del] sax_parseArray.simps [simp del] sax_elements.simps [simp del]
  sax_parseObject.simps [simp del] sax_members.simps [simp del]

subsection \<open>Documents\<close>

definition sax_failed :: "'h SaxParser \<Rightarrow> (unit, 'h) sax" where
  "sax_failed st =
     (if cur_failed (sx_cur st) then sax_fail msg_stream_read st else Inr ((), st))"

text \<open>One value and nothing behind it.\<close>

definition sax_document :: "'h sax_setup \<Rightarrow> 'h SaxParser \<Rightarrow> (unit, 'h) sax" where
  "sax_document su st =
     try_bind (sax_parseValue su 0 True st) (\<lambda>(_, st1).
     try_bind (skipWhitespace su st1) (\<lambda>(_, st2).
       let limit = po_maxInputBytes (su_opts su)
       in case sax_peek st2 of
            (None, st3) \<Rightarrow> sax_failed st3
          | (Some _, st3) \<Rightarrow>
              if limit \<noteq> 0 \<and> cur_position (sx_cur st2) \<ge> limit
              then Inl (Stopped, failAt limit (cur_line (sx_cur st3)) (cur_column (sx_cur st3))
                     msg_input_limit st3)
              else sax_fail msg_trailing_characters st3))"

definition msg_sax_aborted :: string where "msg_sax_aborted = ''SAX parse aborted''"
definition msg_sax_memory :: string where "msg_sax_memory = ''SAX parse ran out of memory''"
definition msg_sax_exception :: string where
  "msg_sax_exception = ''SAX parse or handler exception''"

definition parseDocument :: "'h sax_setup \<Rightarrow> 'h SaxParser \<Rightarrow> bool \<times> 'h SaxParser" where
  "parseDocument su st =
     (case sax_document su (st\<lparr>sx_err := resetParseError\<rparr>) of
        Inr (_, st1) \<Rightarrow> (True, st1)
      | Inl (exit, st1) \<Rightarrow>
          (False,
           case exit of
             Stopped \<Rightarrow> st1
           | Cancelled \<Rightarrow> failNoThrow msg_sax_aborted CallbackError st1
           | Threw e \<Rightarrow>
               if e = bad_alloc then failNoThrow msg_sax_memory Parse_AllocationFailure st1
               else failNoThrow msg_sax_exception CallbackError st1))"

definition sax_parser :: "sax_cursor \<Rightarrow> 'h \<Rightarrow> 'h SaxParser" where
  "sax_parser cursor h = \<lparr>sx_cur = cursor, sx_handler = h, sx_err = resetParseError, sx_nodeCount = 0\<rparr>"

text \<open>The result, the handler's last state and the error; \<^const>\<open>None\<close> is a null source pointer.\<close>

definition parseSaxTop ::
    "'h sax_setup \<Rightarrow> string option \<Rightarrow> 'h \<Rightarrow> bool \<times> 'h \<times> ParseError" where
  "parseSaxTop su source h =
     (case source of
        None \<Rightarrow> (False, h, setParseError [] 0 msg_null_input Parse_InvalidArgument)
      | Some src \<Rightarrow>
          let limit = po_maxInputBytes (su_opts su)
          in if limit \<noteq> 0 \<and> length src > limit
             then (False, h, setParseError src limit msg_input_limit Parse_None)
             else case parseDocument su (sax_parser (BufferCursor (buffer_cursor src)) h) of
                    (ok, st) \<Rightarrow> (ok, sx_handler st, sx_err st))"

definition parseSaxStream ::
    "'h sax_setup \<Rightarrow> sax_istream \<Rightarrow> 'h \<Rightarrow> bool \<times> 'h \<times> ParseError" where
  "parseSaxStream su input h =
     (case parseDocument su (sax_parser (StreamCursor (stream_cursor input)) h) of
        (ok, st) \<Rightarrow> (ok, sx_handler st, sx_err st))"

end
