(* ===== verification/Sax_Invariant.thy ===== *)
theory Sax_Invariant
  imports Sax_Parser
begin

section \<open>What the SAX parser keeps\<close>

text \<open>
  The predicates no step of the parser disturbs are kept by the whole parse. The one of interest:
  the cursor has read a prefix of the bytes, within the limit, its coordinates are those of its
  offset, and a recorded error lies in the bytes.
\<close>

context stable_under
begin

lemma bound_case:
  assumes "P (state_of m)" and "\<And>a st1. m = Inr (a, st1) \<Longrightarrow> P st1 \<Longrightarrow> P (state_of (f a st1))"
  shows "P (state_of (case m of Inl e \<Rightarrow> Inl e | Inr (a, st1) \<Rightarrow> f a st1))"
  using assms by (cases m) (auto simp: state_of_def split: prod.splits)

theorem parser_stable:
  "su' = su \<Longrightarrow> P st \<Longrightarrow> P (state_of (sax_parseValue su' d m st))"
  "su' = su \<Longrightarrow> P st \<Longrightarrow> P (state_of (sax_parseArray su' d m st))"
  "su' = su \<Longrightarrow> P st \<Longrightarrow> P (state_of (sax_elements su' d m e a st))"
  "su' = su \<Longrightarrow> P st \<Longrightarrow> P (state_of (sax_parseObject su' d m st))"
  "su' = su \<Longrightarrow> P st \<Longrightarrow> P (state_of (sax_members su' d m e a ks st))"
proof (induction su' d m st and su' d m st and su' d m e a st and su' d m st and su' d m e a ks st
    rule: sax_parseValue_sax_parseArray_sax_elements_sax_parseObject_sax_members.induct)
  case (1 su' d m st)
  note IH = 1(1,2) [unfolded \<open>su' = su\<close>, OF _ refl]
  show ?case
    unfolding \<open>su' = su\<close> sax_parseValue.simps [of su d m st]
  proof (rule bound_case [OF next_byte_stable [OF 1(4)]])
    fix ch st1
    assume "next_byte su msg_end_of_input st = Inr (ch, st1)" "P st1"
    with IH show "P (state_of (if ch = dquote then parseStringValue su m st1
        else if ch = CHR ''{'' then sax_parseObject su (Suc d) m st1
        else if ch = CHR ''['' then sax_parseArray su (Suc d) m st1
        else if ch = CHR ''-'' \<or> is_digit ch then parseNumberValue su m st1
        else parseKeywordValue su m st1))"
      by (simp add: parseStringValue_stable parseNumberValue_stable parseKeywordValue_stable)
  qed
next
  case (2 su' d m st)
  note IH = 2(1) [unfolded \<open>su' = su\<close>, OF _ refl refl]
  show ?case
    unfolding \<open>su' = su\<close> sax_parseArray.simps [of su d m st]
    by (rule bound_case [OF sax_open_stable [OF 2(3)]]) (rule IH)
next
  case (3 su' d m e a st)
  note IH = 3(1-3) [unfolded \<open>su' = su\<close>, OF _ refl]
  show ?case
    unfolding \<open>su' = su\<close> sax_elements.simps [of su d m e a st]
  proof (rule bound_case [OF next_byte_stable [OF 3(5)]])
    fix ch st1
    assume nb: "next_byte su msg_array_unterminated st = Inr (ch, st1)" and P1: "P st1"
    have "P (state_of (case take_char su st1 of Inl e \<Rightarrow> Inl e | Inr (x, st2) \<Rightarrow> sax_elements su d m True a st2))"
      if "ch \<noteq> CHR '']''" "ch = CHR '',''" "\<not> (\<not> a \<or> e)"
      by (rule bound_case [OF take_char_stable [OF P1]]) (rule IH(1) [OF nb that _ refl refl])
    moreover have "P (state_of (case sax_parseValue su d m st1 of Inl e \<Rightarrow> Inl e
        | Inr (x, st2) \<Rightarrow> sax_elements su d m False True st2))"
      if "ch \<noteq> CHR '']''" "ch \<noteq> CHR '',''" "\<not> (a \<and> \<not> e)"
      by (rule bound_case [OF IH(2) [OF nb that refl P1]]) (rule IH(3) [OF nb that _ refl refl])
    ultimately show "P (state_of (if ch = CHR '']'' then if e then sax_fail msg_array_trailing st1
          else sax_close su m OnEndArray st1
        else if ch = CHR '','' then
          if \<not> a \<or> e then sax_fail msg_array_comma st1
          else (case take_char su st1 of Inl e \<Rightarrow> Inl e | Inr (x, st2) \<Rightarrow> sax_elements su d m True a st2)
        else if a \<and> \<not> e then sax_fail msg_array_missing st1
        else (case sax_parseValue su d m st1 of Inl e \<Rightarrow> Inl e
          | Inr (x, st2) \<Rightarrow> sax_elements su d m False True st2)))"
      using P1 by (simp add: failed sax_close_stable)
  qed
next
  case (4 su' d m st)
  note IH = 4(1) [unfolded \<open>su' = su\<close>, OF _ refl refl]
  show ?case
    unfolding \<open>su' = su\<close> sax_parseObject.simps [of su d m st]
    by (rule bound_case [OF sax_open_stable [OF 4(3)]]) (rule IH)
next
  case (5 su' d m e a ks st)
  note IH = 5(1-3) [unfolded \<open>su' = su\<close>, OF _ refl]
  show ?case
    unfolding \<open>su' = su\<close> sax_members.simps [of su d m e a ks st]
  proof (rule bound_case [OF next_byte_stable [OF 5(5)]])
    fix ch st1
    assume nb: "next_byte su msg_object_unterminated st = Inr (ch, st1)" and P1: "P st1"
    have "P (state_of (case take_char su st1 of Inl e \<Rightarrow> Inl e | Inr (x, st2) \<Rightarrow> sax_members su d m True a ks st2))"
      if "ch \<noteq> CHR ''}''" "ch = CHR '',''" "\<not> (\<not> a \<or> e)"
      by (rule bound_case [OF take_char_stable [OF P1]]) (rule IH(1) [OF nb that _ refl refl])
    moreover have "P (state_of (case sax_member su m ks st1 of Inl e \<Rightarrow> Inl e
        | Inr ((seen, ev), st2) \<Rightarrow> (case sax_parseValue su d ev st2 of Inl e \<Rightarrow> Inl e
          | Inr (x, st3) \<Rightarrow> sax_members su d m False True seen st3)))"
      if "ch \<noteq> CHR ''}''" "ch \<noteq> CHR '',''" "\<not> ch \<noteq> dquote" "\<not> (a \<and> \<not> e)"
    proof (rule bound_case [OF sax_member_stable [OF P1]], clarsimp)
      fix seen ev st2
      assume m: "sax_member su m ks st1 = Inr ((seen, ev), st2)" "P st2"
      show "P (state_of (case sax_parseValue su d ev st2 of Inl e \<Rightarrow> Inl e
          | Inr (x, st3) \<Rightarrow> sax_members su d m False True seen st3))"
        by (rule bound_case [OF IH(2) [OF nb that m(1) refl refl refl m(2)]])
          (rule IH(3) [OF nb that m(1) refl refl _ refl refl])
    qed
    ultimately show "P (state_of (if ch = CHR ''}'' then if e then sax_fail msg_object_trailing st1
          else sax_close su m OnEndObject st1
        else if ch = CHR '','' then
          if \<not> a \<or> e then sax_fail msg_object_comma st1
          else (case take_char su st1 of Inl e \<Rightarrow> Inl e | Inr (x, st2) \<Rightarrow> sax_members su d m True a ks st2)
        else if ch \<noteq> dquote then sax_fail msg_expected_key st1
        else if a \<and> \<not> e then sax_fail msg_object_missing st1
        else (case sax_member su m ks st1 of Inl e \<Rightarrow> Inl e
          | Inr ((seen, ev), st2) \<Rightarrow> (case sax_parseValue su d ev st2 of Inl e \<Rightarrow> Inl e
            | Inr (x, st3) \<Rightarrow> sax_members su d m False True seen st3))))"
      using P1 by (simp add: failed sax_close_stable)
  qed
qed

lemma sax_document_stable:
  assumes limit: "\<And>st message. P st \<Longrightarrow> po_maxInputBytes (su_opts su) \<noteq> 0 \<Longrightarrow>
      po_maxInputBytes (su_opts su) \<le> cur_position (sx_cur st) \<Longrightarrow>
      P (failAt (po_maxInputBytes (su_opts su)) (cur_line (sx_cur st)) (cur_column (sx_cur st)) message st)"
    and "P st"
  shows "P (state_of (sax_document su st))"
proof -
  have last: "P (state_of (let limit = po_maxInputBytes (su_opts su)
       in case sax_peek st2 of
            (None, st3) \<Rightarrow> sax_failed st3
          | (Some _, st3) \<Rightarrow>
              if limit \<noteq> 0 \<and> cur_position (sx_cur st2) \<ge> limit
              then Inl (Stopped, failAt limit (cur_line (sx_cur st3)) (cur_column (sx_cur st3))
                     msg_input_limit st3)
              else sax_fail msg_trailing_characters st3))" if "P st2" for st2
  proof (cases "sax_peek st2")
    case (Pair r st3)
    then have "cur_position (sx_cur st3) = cur_position (sx_cur st2)"
      using cur.peek_same [of "sx_cur st2"] by (auto simp: sax_peek_def split: prod.splits)
    with Pair peeked [OF Pair that] show ?thesis
      by (auto simp: Let_def sax_failed_def failed limit split: option.split)
  qed
  show ?thesis
    unfolding sax_document_def
    using last by (auto intro!: bound skipWhitespace_stable parser_stable(1) assms(2))
qed

end

subsection \<open>Coordinates\<close>

definition located :: "string \<Rightarrow> ParseError \<Rightarrow> bool" where
  "located src er \<longleftrightarrow> er_offset er \<le> length src \<and> er_code er \<noteq> Parse_None
     \<and> (er_line er, er_column er) = coordinates (take (er_offset er) src) 1 1"

definition tracked :: "'h sax_setup \<Rightarrow> string \<Rightarrow> 'h SaxParser \<Rightarrow> bool" where
  "tracked su src st \<longleftrightarrow> src = take (cur_position (sx_cur st)) src @ ahead st
     \<and> cur_position (sx_cur st) \<le> length src
     \<and> cur_where (sx_cur st) = fold advance_position (take (cur_position (sx_cur st)) src) (1, 1, False)
     \<and> (po_maxInputBytes (su_opts su) = 0 \<or> cur_position (sx_cur st) \<le> po_maxInputBytes (su_opts su))
     \<and> (er_ok (sx_err st) \<or> located src (sx_err st))"

lemma tracked_coordinates:
  "tracked su src st \<Longrightarrow> (cur_line (sx_cur st), cur_column (sx_cur st))
    = coordinates (take (cur_position (sx_cur st)) src) 1 1"
  using coordinates_incremental [of "take (cur_position (sx_cur st)) src" 1 1]
  by (simp add: tracked_def cur_line_def cur_column_def)

lemma classified: "classifyParseMessage msg \<noteq> Parse_None"
  by (simp add: classifyParseMessage_def)

lemma tracked_failAt:
  assumes "tracked su src st" "tracked su src st0"
  shows "tracked su src (failAt (cur_position (sx_cur st0)) (cur_line (sx_cur st0)) (cur_column (sx_cur st0)) message st)"
  using assms tracked_coordinates [OF assms(2)]
  by (auto simp: tracked_def failAt_def located_def classified)

lemma tracked_limit:
  assumes "tracked su src st" "po_maxInputBytes (su_opts su) \<noteq> 0"
    "po_maxInputBytes (su_opts su) \<le> cur_position (sx_cur st)"
  shows "tracked su src (failAt (po_maxInputBytes (su_opts su)) (cur_line (sx_cur st)) (cur_column (sx_cur st)) message st)"
proof -
  have "po_maxInputBytes (su_opts su) = cur_position (sx_cur st)" using assms by (auto simp: tracked_def)
  with tracked_failAt [OF assms(1,1)] show ?thesis by simp
qed

lemma tracked_peek: "tracked su src st \<Longrightarrow> tracked su src (snd (sax_peek st))"
  using cur.peek_same [of "sx_cur st"] by (auto simp: tracked_def sax_peek_def split: prod.splits)

lemma tracked_getChar:
  assumes "tracked su src st"
  shows "tracked su src (snd (getChar su st))"
proof (cases "po_maxInputBytes (su_opts su) \<noteq> 0 \<and> cur_position (sx_cur st) \<ge> po_maxInputBytes (su_opts su)")
  case True
  with tracked_limit [OF assms] show ?thesis by (simp add: getChar_def)
next
  case False
  let ?c = "sx_cur st" and ?c1 = "snd (cur_get (sx_cur st))"
  have g: "snd (getChar su st) = st\<lparr>sx_cur := ?c1\<rparr>"
    using False by (auto simp: getChar_def case_prod_beta)
  show ?thesis
  proof (cases "ahead st")
    case Nil
    with cur.get_none [of ?c] assms g show ?thesis by (simp add: tracked_def)
  next
    case (Cons ch r)
    with cur.get_some [of ?c ch r] have c1: "cur_rest ?c1 = r" "cur_position ?c1 = Suc (cur_position ?c)"
      "cur_where ?c1 = advance_position ch (cur_where ?c)" by simp_all
    from assms Cons have src: "src = take (cur_position ?c) src @ ch # r" "cur_position ?c \<le> length src"
      by (simp_all add: tracked_def)
    then have len: "cur_position ?c < length src"
      by (metis append_self_conv list.distinct(1) nat_less_le take_all_iff order_refl)
    moreover from src have "src ! cur_position ?c = ch"
      by (metis length_take min.absorb2 nth_append_length)
    ultimately have tk: "take (Suc (cur_position ?c)) src = take (cur_position ?c) src @ [ch]"
      by (simp add: take_Suc_conv_app_nth)
    have "src = take (Suc (cur_position ?c)) src @ r" using src(1) unfolding tk by simp
    with assms c1 g False len tk show ?thesis
      by (auto simp: tracked_def)
  qed
qed

interpretation tracking: stable_under su "tracked su src" for su src
proof
  fix st st0 :: "'a SaxParser" and message n h
  show "tracked su src st \<Longrightarrow> tracked su src (snd (sax_peek st))" by (rule tracked_peek)
  show "tracked su src st \<Longrightarrow> tracked su src (snd (getChar su st))" by (rule tracked_getChar)
  show "tracked su src st \<Longrightarrow> tracked su src st0 \<Longrightarrow>
    tracked su src (failAt (cur_position (sx_cur st0)) (cur_line (sx_cur st0)) (cur_column (sx_cur st0)) message st)"
    by (rule tracked_failAt)
qed (simp_all add: tracked_def)

subsection \<open>A parse that stops has recorded its error\<close>

definition reported :: "(sax_exit \<times> 'h SaxParser) + 'b \<Rightarrow> bool" where
  "reported r \<longleftrightarrow> (\<forall>st. r = Inl (Stopped, st) \<longrightarrow> \<not> er_ok (sx_err st))"

lemma reported_simps [simp]:
  "reported (Inr x)" "reported (Inl (Stopped, st)) \<longleftrightarrow> \<not> er_ok (sx_err st)"
  "reported (Inl (Cancelled, st))" "reported (Inl (Threw e, st))" "reported (sax_fail msg st)"
  "\<not> er_ok (sx_err (failAt p l c msg st))" "\<not> er_ok (sx_err (failHere msg st))"
  by (simp_all add: reported_def sax_fail_def failHere_def failAt_def)

lemma reported_bind:
  "reported m \<Longrightarrow> (\<And>a st. m = Inr (a, st) \<Longrightarrow> reported (f (a, st))) \<Longrightarrow> reported (try_bind m f)"
  by (cases m) (auto simp: reported_def)

lemma reported_case:
  "reported m \<Longrightarrow> (\<And>a st. m = Inr (a, st) \<Longrightarrow> reported (f a st)) \<Longrightarrow>
    reported (case m of Inl e \<Rightarrow> Inl e | Inr (a, st) \<Rightarrow> f a st)"
  by (cases m) (auto simp: reported_def)

lemma take_char_reported: "ahead st \<noteq> [] \<Longrightarrow> reported (take_char su st)"
  using getChar_refused [of su st] by (auto simp: take_char_def split: prod.split option.split)

lemma take_or_fail_reported: "reported (take_or_fail su msg st)"
  by (auto simp: take_or_fail_def split: prod.split option.split)

lemma report_reported: "reported (report su emit event st)"
  by (auto simp: report_def dispatch_def split: prod.split sum.split)

lemma expect_char_reported: "reported (expect_char su want msg st)"
  by (auto simp: expect_char_def intro!: reported_bind take_or_fail_reported)

lemma reserveNode_reported: "reported (reserveNode su st)"
  by (simp add: reserveNode_def)

lemma skipWhitespace_reported: "reported (skipWhitespace su st)"
proof (induction su st rule: skipWhitespace.induct)
  case (1 su st)
  obtain r st1 where pk: "sax_peek st = (r, st1)" by (cases "sax_peek st")
  show ?case
  proof (cases "\<exists>ch. r = Some ch \<and> is_ws ch")
    case True
    then obtain ch where ch: "r = Some ch" "is_ws ch" by blast
    then have "ahead st1 \<noteq> []" using peek_Some pk by fastforce
    moreover obtain q st2 where gt: "getChar su st1 = (q, st2)" by (cases "getChar su st1")
    ultimately show ?thesis using ch pk getChar_refused [of su st1 st2] 1 [OF pk [symmetric] ch gt [symmetric]]
      by (cases q) (simp_all add: skipWhitespace.simps [of su st])
  next
    case False
    with pk show ?thesis by (auto simp: skipWhitespace.simps [of su st] split: option.split)
  qed
qed

lemma read_hex_reported: "reported (read_hex su k n st)"
  by (induction k arbitrary: n st) (auto intro!: reported_bind take_or_fail_reported split: option.split)

lemma utf8_bytes_reported: "reported (utf8_bytes su k code out st)"
  by (induction k arbitrary: code out st) (auto intro!: reported_bind take_or_fail_reported)

lemma string_char_reported: "reported (string_char su ch out st)"
  by (auto simp: string_char_def sax_unicode_def sax_low_def readHex4_def consumeUtf8Tail_def
      intro!: reported_bind take_or_fail_reported read_hex_reported utf8_bytes_reported
      split: option.split prod.split)

lemma string_body_reported: "reported (string_body su out st)"
proof (induction su out st rule: string_body.induct)
  case (1 su out st)
  obtain r st1 where g: "getChar su st = (r, st1)" by (cases "getChar su st")
  show ?case
  proof (cases r)
    case (Some ch)
    show ?thesis
      unfolding string_body.simps [of su out st] g Some prod.case option.case
      by (simp only: split: if_split)
        (intro conjI impI reported_simps(1) reported_case string_char_reported 1 [OF g [symmetric] Some]; simp)
  qed (use g in \<open>simp add: string_body.simps [of su out st]\<close>)
qed

lemma parseStringRaw_reported: "reported (parseStringRaw su st)"
  by (auto simp: parseStringRaw_def intro!: reported_bind expect_char_reported string_body_reported)

lemma matchLiteral_reported: "reported (matchLiteral su lit st)"
  by (induction lit arbitrary: st) (auto intro!: reported_bind expect_char_reported)

lemma scalars_reported:
  "reported (parseStringValue su emit st)" "reported (parseKeywordValue su emit st)"
  by (auto simp: parseStringValue_def parseKeywordValue_def literal_value_def
      intro!: reported_bind parseStringRaw_reported matchLiteral_reported expect_char_reported
        reserveNode_reported report_reported split: prod.split option.split)

lemma parseNumberValue_reported: "reported (parseNumberValue su emit st)"
proof -
  from shrink.scan_number_keeps [OF no_longer_self [of st], where su = su] obtain r where
    r: "scanJsonNumber (sax_scanner su) st = Some r" "\<And>s. r = Inl (None, s) \<Longrightarrow> \<not> er_ok (sx_err s)"
    by (auto simp: scan_keeps_def)
  then show ?thesis
    by (auto simp: parseNumberValue_def intro!: reported_bind reserveNode_reported report_reported
        split: sum.split option.split prod.split)
qed

lemma next_byte_reported: "reported (next_byte su msg st)"
  by (auto simp: next_byte_def intro!: reported_bind skipWhitespace_reported split: prod.split option.split)

lemma sax_open_reported: "reported (sax_open su d emit b event st)"
  by (auto simp: sax_open_def intro!: reported_bind reserveNode_reported expect_char_reported report_reported)

lemma sax_close_reported: "ahead st \<noteq> [] \<Longrightarrow> reported (sax_close su emit event st)"
  by (auto simp: sax_close_def intro!: reported_bind take_char_reported report_reported)

lemma sax_member_reported: "reported (sax_member su emit seen st)"
  by (auto simp: sax_member_def Let_def
      intro!: reported_bind parseStringRaw_reported skipWhitespace_reported expect_char_reported report_reported)

theorem parser_reported:
  "reported (sax_parseValue su d m st)"
  "reported (sax_parseArray su d m st)"
  "reported (sax_elements su d m e a st)"
  "reported (sax_parseObject su d m st)"
  "reported (sax_members su d m e a ks st)"
proof (induction su d m st and su d m st and su d m e a st and su d m st and su d m e a ks st
    rule: sax_parseValue_sax_parseArray_sax_elements_sax_parseObject_sax_members.induct)
  case (1 su d m st)
  show ?case
    unfolding sax_parseValue.simps [of su d m st]
    by (rule reported_case [OF next_byte_reported]) (auto simp: scalars_reported parseNumberValue_reported 1)
next
  case (2 su d m st)
  show ?case
    unfolding sax_parseArray.simps [of su d m st]
    by (rule reported_case [OF sax_open_reported]) (rule 2 [OF _ refl])
next
  case (3 su d m e a st)
  show ?case
    unfolding sax_elements.simps [of su d m e a st]
  proof (rule reported_case [OF next_byte_reported])
    fix ch st1
    assume nb: "next_byte su msg_array_unterminated st = Inr (ch, st1)"
    note full = next_byte_shrink(2) [OF nb]
    have "reported (case take_char su st1 of Inl e \<Rightarrow> Inl e | Inr (x, st2) \<Rightarrow> sax_elements su d m True a st2)"
      if "ch \<noteq> CHR '']''" "ch = CHR '',''" "\<not> (\<not> a \<or> e)"
      by (rule reported_case [OF take_char_reported [OF full]]) (rule 3(1) [OF nb refl that _ refl])
    moreover have "reported (case sax_parseValue su d m st1 of Inl e \<Rightarrow> Inl e
        | Inr (x, st2) \<Rightarrow> sax_elements su d m False True st2)"
      if "ch \<noteq> CHR '']''" "ch \<noteq> CHR '',''" "\<not> (a \<and> \<not> e)"
      by (rule reported_case [OF 3(2) [OF nb refl that]]) (rule 3(3) [OF nb refl that _ refl])
    ultimately show "reported (if ch = CHR '']'' then if e then sax_fail msg_array_trailing st1
          else sax_close su m OnEndArray st1
        else if ch = CHR '','' then
          if \<not> a \<or> e then sax_fail msg_array_comma st1
          else (case take_char su st1 of Inl e \<Rightarrow> Inl e | Inr (x, st2) \<Rightarrow> sax_elements su d m True a st2)
        else if a \<and> \<not> e then sax_fail msg_array_missing st1
        else (case sax_parseValue su d m st1 of Inl e \<Rightarrow> Inl e
          | Inr (x, st2) \<Rightarrow> sax_elements su d m False True st2))"
      using full by (simp add: sax_close_reported)
  qed
next
  case (4 su d m st)
  show ?case
    unfolding sax_parseObject.simps [of su d m st]
    by (rule reported_case [OF sax_open_reported]) (rule 4 [OF _ refl])
next
  case (5 su d m e a ks st)
  show ?case
    unfolding sax_members.simps [of su d m e a ks st]
  proof (rule reported_case [OF next_byte_reported])
    fix ch st1
    assume nb: "next_byte su msg_object_unterminated st = Inr (ch, st1)"
    note full = next_byte_shrink(2) [OF nb]
    have "reported (case take_char su st1 of Inl e \<Rightarrow> Inl e | Inr (x, st2) \<Rightarrow> sax_members su d m True a ks st2)"
      if "ch \<noteq> CHR ''}''" "ch = CHR '',''" "\<not> (\<not> a \<or> e)"
      by (rule reported_case [OF take_char_reported [OF full]]) (rule 5(1) [OF nb refl that _ refl])
    moreover have "reported (case sax_member su m ks st1 of Inl e \<Rightarrow> Inl e
        | Inr ((seen, ev), st2) \<Rightarrow> (case sax_parseValue su d ev st2 of Inl e \<Rightarrow> Inl e
          | Inr (x, st3) \<Rightarrow> sax_members su d m False True seen st3))"
      if "ch \<noteq> CHR ''}''" "ch \<noteq> CHR '',''" "\<not> ch \<noteq> dquote" "\<not> (a \<and> \<not> e)"
    proof (rule reported_case [OF sax_member_reported], clarsimp)
      fix seen ev st2
      assume m: "sax_member su m ks st1 = Inr ((seen, ev), st2)"
      show "reported (case sax_parseValue su d ev st2 of Inl e \<Rightarrow> Inl e
          | Inr (x, st3) \<Rightarrow> sax_members su d m False True seen st3)"
        by (rule reported_case [OF 5(2) [OF nb refl that m refl refl]])
          (rule 5(3) [OF nb refl that m refl refl _ refl])
    qed
    ultimately show "reported (if ch = CHR ''}'' then if e then sax_fail msg_object_trailing st1
          else sax_close su m OnEndObject st1
        else if ch = CHR '','' then
          if \<not> a \<or> e then sax_fail msg_object_comma st1
          else (case take_char su st1 of Inl e \<Rightarrow> Inl e | Inr (x, st2) \<Rightarrow> sax_members su d m True a ks st2)
        else if ch \<noteq> dquote then sax_fail msg_expected_key st1
        else if a \<and> \<not> e then sax_fail msg_object_missing st1
        else (case sax_member su m ks st1 of Inl e \<Rightarrow> Inl e
          | Inr ((seen, ev), st2) \<Rightarrow> (case sax_parseValue su d ev st2 of Inl e \<Rightarrow> Inl e
            | Inr (x, st3) \<Rightarrow> sax_members su d m False True seen st3)))"
      using full by (simp add: sax_close_reported)
  qed
qed

lemma sax_document_reported: "reported (sax_document su st)"
  by (auto simp: sax_document_def sax_failed_def Let_def
      intro!: reported_bind parser_reported(1) skipWhitespace_reported split: prod.split option.split)

subsection \<open>Failed parses\<close>

lemma parseDocument_tracked:
  assumes "parseDocument su st = (ok, st1)" "tracked su src st"
  shows "tracked su src st1 \<and> (\<not> ok \<longrightarrow> \<not> er_ok (sx_err st1))"
proof -
  let ?st = "st\<lparr>sx_err := resetParseError\<rparr>"
  have "tracked su src ?st" using assms(2) by (auto simp: tracked_def resetParseError_def)
  then have t: "tracked su src (state_of (sax_document su ?st))"
    by (rule tracking.sax_document_stable [rotated]) (rule tracked_limit)
  have failing: "tracked su src (failNoThrow msg code s)"
    if "tracked su src s" "code \<noteq> Parse_None" for msg code and s :: "'a SaxParser"
    using that tracked_coordinates [OF that(1)] by (auto simp: tracked_def failNoThrow_def located_def)
  show ?thesis
  proof (cases "sax_document su ?st")
    case (Inl e)
    obtain x s where e: "e = (x, s)" by (cases e)
    with Inl t have s: "tracked su src s" by simp
    from sax_document_reported [of su ?st] Inl e have "x = Stopped \<Longrightarrow> \<not> er_ok (sx_err s)"
      by (simp add: reported_def)
    with assms(1) s show ?thesis
      by (auto simp: parseDocument_def Inl e intro!: failing split: sax_exit.splits if_splits)
        (simp_all add: failNoThrow_def)
  next
    case (Inr p)
    with assms(1) t show ?thesis by (cases p) (auto simp: parseDocument_def)
  qed
qed

definition stream_bytes :: "sax_istream \<Rightarrow> string" where
  "stream_bytes input =
     (if si_bad input then [] else case si_rdbuf input of None \<Rightarrow> [] | Some b \<Rightarrow> sb_bytes b)"

lemma start_tracked:
  "tracked su src (sax_parser (BufferCursor (buffer_cursor src)) h)"
  "tracked su (stream_bytes input) (sax_parser (StreamCursor (stream_cursor input)) h)"
  by (auto simp: tracked_def sax_parser_def buffer_cursor_def buffer_rest_def stream_cursor_def
      stream_rest_def stream_bytes_def resetParseError_def)

end
