(* ===== verification/Sax_Events.thy ===== *)
theory Sax_Events
  imports Sax_Invariant Dom_Parse_Correct
begin

section \<open>The events of a document\<close>

text \<open>
  The events a syntax tree stands for, what a handler makes of a sequence of events, and the
  calculus in which the parser's steps are related to them: a step that reads \<open>p\<close> yields its
  result after the handler has accepted the events, or is left where the handler refuses one.
\<close>

subsection \<open>Trees as events\<close>

text \<open>Numbers must convert, also those of a member that is dropped.\<close>

fun tree_events :: "bool \<Rightarrow> ParserOptions \<Rightarrow> jtree \<Rightarrow> sax_event list option"
  and elements_events :: "bool \<Rightarrow> ParserOptions \<Rightarrow> jtree list \<Rightarrow> sax_event list option"
  and members_events ::
    "bool \<Rightarrow> ParserOptions \<Rightarrow> (string \<times> jtree) list \<Rightarrow> string list \<Rightarrow> sax_event list option" where
  "tree_events uf opts TNull = Some [OnNull]"
| "tree_events uf opts (TBool b) = Some [OnBool b]"
| "tree_events uf opts (TNumber t f) =
     (case convertNumberToken uf t f (po_numberPolicy opts) of
        Inl msg \<Rightarrow> None
      | Inr n \<Rightarrow> Some [number_event n])"
| "tree_events uf opts (TString s) = Some [OnString s]"
| "tree_events uf opts (TArray ts) =
     map_option (\<lambda>es. OnStartArray # es @ [OnEndArray]) (elements_events uf opts ts)"
| "tree_events uf opts (TObject ms) =
     map_option (\<lambda>es. OnStartObject # es @ [OnEndObject]) (members_events uf opts ms [])"
| "elements_events uf opts [] = Some []"
| "elements_events uf opts (t # ts) =
     Option.bind (tree_events uf opts t) (\<lambda>e. map_option ((@) e) (elements_events uf opts ts))"
| "members_events uf opts [] seen = Some []"
| "members_events uf opts ((k, t) # ms) seen =
     (let policy = po_duplicateKeys opts;
          repeated = (policy \<noteq> KeepLastDuplicate \<and> k \<in> set seen)
      in if repeated \<and> policy = RejectDuplicateKeys then None
         else Option.bind (tree_events uf opts t) (\<lambda>e.
           map_option (\<lambda>es. (if repeated then [] else OnKey k # e) @ es)
             (members_events uf opts ms
               (if repeated \<or> policy = KeepLastDuplicate then seen else k # seen))))"

fun deliver :: "'h sax_handler \<Rightarrow> sax_event list \<Rightarrow> 'h \<Rightarrow> (sax_exit \<times> 'h) + 'h" where
  "deliver handler [] h = Inr h"
| "deliver handler (event # events) h =
     (case handler event h of
        (Inl e, h1) \<Rightarrow> Inl (Threw e, h1)
      | (Inr ok, h1) \<Rightarrow> if ok then deliver handler events h1 else Inl (Cancelled, h1))"

lemma deliver_append:
  "deliver handler (a @ b) h =
    (case deliver handler a h of Inl e \<Rightarrow> Inl e | Inr h1 \<Rightarrow> deliver handler b h1)"
  by (induction a arbitrary: h) (auto split: prod.split sum.split)

subsection \<open>Steps that yield\<close>

definition fits :: "'h sax_setup \<Rightarrow> 'h SaxParser \<Rightarrow> bool" where
  "fits su st \<longleftrightarrow> po_maxInputBytes (su_opts su) = 0
     \<or> cur_position (sx_cur st) + length (ahead st) \<le> po_maxInputBytes (su_opts su)"

definition healthy :: "'h sax_setup \<Rightarrow> 'h SaxParser \<Rightarrow> bool" where
  "healthy su st \<longleftrightarrow> fits su st \<and> \<not> cur_breaks (sx_cur st)"

definition yields ::
    "'h sax_setup \<Rightarrow> 'h SaxParser \<Rightarrow> ('a, 'h) sax \<Rightarrow> 'a \<Rightarrow> string \<Rightarrow> nat \<Rightarrow> sax_event list \<Rightarrow> bool" where
  "yields su st r a p k events \<longleftrightarrow>
     (case deliver (su_handler su) events (sx_handler st) of
        Inr h \<Rightarrow> \<exists>st1. r = Inr (a, st1) \<and> healthy su st1 \<and> ahead st = p @ ahead st1
          \<and> sx_nodeCount st1 = sx_nodeCount st + k \<and> sx_handler st1 = h \<and> sx_err st1 = sx_err st
      | Inl (x, h) \<Rightarrow> \<exists>st1. r = Inl (x, st1) \<and> sx_handler st1 = h)"

lemma yields_Inr: "yields su st (Inr (a, st)) a [] 0 []" if "healthy su st"
  using that by (simp add: yields_def)

lemma yields_bind:
  assumes m: "yields su st m a p1 k1 e1"
    and f: "\<And>st1. healthy su st1 \<Longrightarrow> ahead st = p1 @ ahead st1 \<Longrightarrow> sx_nodeCount st1 = sx_nodeCount st + k1 \<Longrightarrow>
      yields su st1 (f (a, st1)) b p2 k2 e2"
    and e: "p = p1 @ p2" "k = k1 + k2" "e = e1 @ e2"
  shows "yields su st (try_bind m f) b p k e"
proof (cases "deliver (su_handler su) e1 (sx_handler st)")
  case (Inl x)
  with m e show ?thesis by (cases x) (auto simp: yields_def deliver_append)
next
  case (Inr h)
  with m obtain st1 where st1: "m = Inr (a, st1)" "healthy su st1" "ahead st = p1 @ ahead st1"
    "sx_nodeCount st1 = sx_nodeCount st + k1" "sx_handler st1 = h" "sx_err st1 = sx_err st"
    by (auto simp: yields_def)
  with f [OF st1(2-4)] Inr e show ?thesis
    by (auto simp: yields_def deliver_append split: sum.splits)
qed

lemma yields_case:
  assumes "yields su st m a p1 k1 e1"
    and "\<And>st1. healthy su st1 \<Longrightarrow> ahead st = p1 @ ahead st1 \<Longrightarrow> sx_nodeCount st1 = sx_nodeCount st + k1 \<Longrightarrow>
      yields su st1 (f a st1) b p2 k2 e2"
    and "p = p1 @ p2" "k = k1 + k2" "e = e1 @ e2"
  shows "yields su st (case m of Inl e \<Rightarrow> Inl e | Inr (a, st1) \<Rightarrow> f a st1) b p k e"
proof -
  have "(case m of Inl e \<Rightarrow> Inl e | Inr (a, st1) \<Rightarrow> f a st1) = try_bind m (\<lambda>(a, st1). f a st1)"
    by (cases m) auto
  with yields_bind [OF assms(1) _ assms(3-5), of "\<lambda>(a, st1). f a st1"] assms(2) show ?thesis by simp
qed

text \<open>With the text ahead known.\<close>

lemma yields_then:
  assumes "yields su st m a p1 k1 e1" and "ahead st = p1 @ r"
    and "\<And>st1. healthy su st1 \<Longrightarrow> ahead st1 = r \<Longrightarrow> sx_nodeCount st1 = sx_nodeCount st + k1 \<Longrightarrow>
      yields su st1 (f (a, st1)) b p2 k2 e2"
    and "p = p1 @ p2" "k = k1 + k2" "e = e1 @ e2"
  shows "yields su st (try_bind m f) b p k e"
  by (rule yields_bind [OF assms(1) _ assms(4-6)]) (use assms(2,3) in auto)

lemma yields_cases:
  assumes "yields su st m a p1 k1 e1" and "ahead st = p1 @ r"
    and "\<And>st1. healthy su st1 \<Longrightarrow> ahead st1 = r \<Longrightarrow> sx_nodeCount st1 = sx_nodeCount st + k1 \<Longrightarrow>
      yields su st1 (f a st1) b p2 k2 e2"
    and "p = p1 @ p2" "k = k1 + k2" "e = e1 @ e2"
  shows "yields su st (case m of Inl e \<Rightarrow> Inl e | Inr (a, st1) \<Rightarrow> f a st1) b p k e"
  by (rule yields_case [OF assms(1) _ assms(4-6)]) (use assms(2,3) in auto)

definition shown :: "bool \<Rightarrow> sax_event list \<Rightarrow> sax_event list" where
  "shown emit events = (if emit then events else [])"

lemma shown_simps [simp]: "shown m [] = []" "shown m (a @ b) = shown m a @ shown m b"
  "shown False es = []" "shown True es = es"
  by (simp_all add: shown_def)

subsection \<open>Bytes\<close>

lemma fits_peek: "fits su st \<Longrightarrow> sax_peek st = (r, st1) \<Longrightarrow> fits su st1"
  using cur.peek_same [of "sx_cur st"] by (auto simp: fits_def sax_peek_def split: prod.splits)

lemma healthy_peek:
  assumes "healthy su st" "sax_peek st = (r, st1)"
  shows "healthy su st1" "ahead st1 = ahead st" "sx_nodeCount st1 = sx_nodeCount st"
    "sx_handler st1 = sx_handler st" "sx_err st1 = sx_err st" "\<not> cur_failed (sx_cur st1)"
    "r = (case ahead st of [] \<Rightarrow> None | ch # q \<Rightarrow> Some ch)"
proof -
  show h: "healthy su st1" using assms fits_peek [of su st r st1] cur.peek_same [of "sx_cur st"]
    by (auto simp: healthy_def sax_peek_def split: prod.splits)
  show "\<not> cur_failed (sx_cur st1)" using h cur.failed_breaks by (auto simp: healthy_def)
qed (use assms cur.peek_same [of "sx_cur st"] cur.peek_result [of "sx_cur st"] in
    \<open>auto simp: sax_peek_def split: prod.splits list.splits\<close>)

lemma fits_getChar:
  assumes "fits su st" "ahead st = ch # r"
  shows "\<exists>c. getChar su st = (Some ch, st\<lparr>sx_cur := c\<rparr>) \<and> fits su (st\<lparr>sx_cur := c\<rparr>) \<and> cur_rest c = r
    \<and> cur_breaks c = cur_breaks (sx_cur st)"
  using assms cur.get_some [OF assms(2)] cur.get_breaks [of "sx_cur st"]
  by (cases "cur_get (sx_cur st)") (auto simp: getChar_def fits_def)

lemma getChar_takes:
  assumes "healthy su st" "ahead st = ch # r"
  shows "\<exists>c. getChar su st = (Some ch, st\<lparr>sx_cur := c\<rparr>) \<and> healthy su (st\<lparr>sx_cur := c\<rparr>) \<and> cur_rest c = r"
  using fits_getChar [of su st ch r] assms by (auto simp: healthy_def)

lemma yields_take:
  assumes "healthy su st" "ahead st = ch # r"
  shows "yields su st (take_char su st) ch [ch] 0 []" "yields su st (take_or_fail su msg st) ch [ch] 0 []"
  using getChar_takes [OF assms] assms(2) by (auto simp: take_char_def take_or_fail_def yields_def)

lemma yields_expect:
  assumes "healthy su st" "ahead st = ch # r"
  shows "yields su st (expect_char su ch msg st) () [ch] 0 []"
  unfolding expect_char_def by (rule yields_bind [OF yields_take(2) [OF assms]]) (auto intro: yields_Inr)

definition node_room :: "'h sax_setup \<Rightarrow> nat \<Rightarrow> 'h SaxParser \<Rightarrow> bool" where
  "node_room su k st \<longleftrightarrow> po_maxNodes (su_opts su) = 0 \<or> sx_nodeCount st + k \<le> po_maxNodes (su_opts su)"

lemma yields_reserve:
  assumes "healthy su st" "node_room su 1 st"
  shows "yields su st (reserveNode su st) () [] 1 []"
  using assms by (auto simp: reserveNode_def node_room_def yields_def healthy_def fits_def)

lemma yields_report:
  "healthy su st \<Longrightarrow> yields su st (report su emit event st) () [] 0 (shown emit [event])"
  by (auto simp: shown_def report_def dispatch_def yields_def healthy_def fits_def split: prod.split sum.split)

lemma skip_next:
  assumes "healthy su st" "ahead st = w @ r" "spaces w" "r = [] \<or> \<not> is_ws (hd r)"
  shows "yields su st (skipWhitespace su st) () w 0 []"
  using assms(1-3)
proof (induction w arbitrary: st)
  case Nil
  obtain q st1 where pk: "sax_peek st = (q, st1)" by (cases "sax_peek st")
  note p = healthy_peek [OF Nil(1) pk]
  have "skipWhitespace su st = Inr ((), st1)"
    using p(6,7) assms(4) Nil(2) by (cases r) (auto simp: skipWhitespace.simps [of su st] pk)
  with p Nil show ?case by (simp add: yields_def)
next
  case (Cons x w)
  obtain q st1 where pk: "sax_peek st = (q, st1)" by (cases "sax_peek st")
  note p = healthy_peek [OF Cons(2) pk]
  with Cons(3) have "ahead st1 = x # w @ r" "q = Some x" by simp_all
  moreover from getChar_takes [OF p(1) this(1)] obtain c where
    c: "getChar su st1 = (Some x, st1\<lparr>sx_cur := c\<rparr>)" "healthy su (st1\<lparr>sx_cur := c\<rparr>)" "cur_rest c = w @ r"
    by blast
  moreover have "is_ws x" "spaces w" using Cons(4) by (simp_all add: spaces_def)
  ultimately have "skipWhitespace su st = skipWhitespace su (st1\<lparr>sx_cur := c\<rparr>)"
    by (subst skipWhitespace.simps) (simp add: pk)
  with Cons.IH [OF c(2)] c(3) \<open>spaces w\<close> p Cons(3) show ?case by (simp add: yields_def)
qed

lemma yields_next_byte:
  assumes "healthy su st" "ahead st = w @ x # r" "spaces w" "\<not> is_ws x"
  shows "yields su st (next_byte su msg st) x w 0 []"
  unfolding next_byte_def
proof (rule yields_bind [OF skip_next [OF assms(1-3)]])
  fix st1
  assume st1: "healthy su st1" "ahead st = w @ ahead st1"
  obtain q st2 where pk: "sax_peek st1 = (q, st2)" by (cases "sax_peek st1")
  have "ahead st1 = x # r" using st1(2) assms(2) by simp
  with healthy_peek [OF st1(1) pk] st1(1) pk
  show "yields su st1 (case ((), st1) of (u, st1) \<Rightarrow> (case sax_peek st1 of
      (None, st2) \<Rightarrow> if cur_failed (sx_cur st2) then sax_fail msg_stream_read st2 else sax_fail msg st2
    | (Some ch, st2) \<Rightarrow> Inr (ch, st2))) x [] 0 []"
    by (simp add: yields_def)
qed (use assms in auto)

subsection \<open>Strings\<close>

lemma yields_hex:
  assumes "healthy su st" "ahead st = hs @ r" "hex_loop hs n = Some u"
  shows "yields su st (read_hex su (length hs) n st) u hs 0 []"
  using assms
proof (induction hs arbitrary: n st)
  case Nil
  then show ?case by (simp add: yields_Inr)
next
  case (Cons h hs)
  then obtain d where d: "hex_digit h = Some d" "hex_loop hs (push_bit 4 n OR d) = Some u"
    by (auto split: option.splits)
  have "yields su st (take_or_fail su msg_unicode_escape st) h [h] 0 []"
    using Cons.prems by (intro yields_take(2)) auto
  then show ?case
    unfolding list.size add_Suc_right add_0_right read_hex.simps
    by (rule yields_bind) (use Cons d in auto)
qed

lemma collect_takes:
  "healthy su st \<Longrightarrow> ahead st = hs @ r \<Longrightarrow> \<exists>st1. collect_chars su (length hs) acc st = (acc @ hs, st1)
    \<and> healthy su st1 \<and> ahead st1 = r \<and> sx_nodeCount st1 = sx_nodeCount st \<and> sx_handler st1 = sx_handler st
    \<and> sx_err st1 = sx_err st"
proof (induction hs arbitrary: acc st)
  case (Cons h hs)
  then obtain c where "getChar su st = (Some h, st\<lparr>sx_cur := c\<rparr>)" "healthy su (st\<lparr>sx_cur := c\<rparr>)"
    "cur_rest c = hs @ r"
    using getChar_takes [of su st h "hs @ r"] by auto
  with Cons.IH [of "st\<lparr>sx_cur := c\<rparr>" "acc @ [h]"] show ?case by auto
qed simp

lemma low_unit_iff: "low_unit l = Some lo \<longleftrightarrow> length l = 4 \<and> hex4 l 0 = Some lo \<and> low_surrogate lo"
  by (auto simp: low_unit_def low_surrogate_def split: option.splits)

lemma yields_low:
  assumes st: "healthy su st" "ahead st = backslash # CHR ''u'' # l @ r"
    and l: "length l = 4" "hex4 l 0 = Some lo" "low_surrogate lo"
  shows "yields su st (sax_low su st) lo (backslash # CHR ''u'' # l) 0 []"
proof -
  obtain q st1 where pk: "sax_peek st = (q, st1)" by (cases "sax_peek st")
  note p = healthy_peek [OF st(1) pk]
  have low: "yields su st3 (case collect_chars su 4 [] st3 of (hex, st4) \<Rightarrow>
      (case low_unit hex of None \<Rightarrow> sax_fail msg_high_surrogate st4 | Some low \<Rightarrow> Inr (low, st4))) lo l 0 []"
    if "healthy su st3" "ahead st3 = l @ r" for st3
    using collect_takes [OF that, of "[]"] that l by (auto simp: yields_def low_unit_iff [THEN iffD2])
  have "yields su st1 (try_bind (take_or_fail su msg_unicode_escape st1) (\<lambda>(_, st2).
      try_bind (take_or_fail su msg_unicode_escape st2) (\<lambda>(u, st3).
        if u = CHR ''u'' then
          (case collect_chars su 4 [] st3 of (hex, st4) \<Rightarrow>
            (case low_unit hex of None \<Rightarrow> sax_fail msg_high_surrogate st4 | Some low \<Rightarrow> Inr (low, st4)))
        else sax_fail msg_high_surrogate st3))) lo (backslash # CHR ''u'' # l) 0 []"
    using p st(2)
    by (intro yields_bind [OF yields_take(2) [where ch = backslash and r = "CHR ''u'' # l @ r"]])
      (auto intro!: yields_bind [OF yields_take(2) [where ch = "CHR ''u''" and r = "l @ r"]] low)
  with p st(2) show ?thesis by (simp add: sax_low_def pk yields_def)
qed

lemma yields_unicode:
  assumes st: "healthy su st" "ahead st = h @ r" "length h = 4"
  shows "hex4 h 0 = Some u \<Longrightarrow> scalar_value u \<Longrightarrow>
      yields su st (sax_unicode su out st) (out @ utf8 u) h 0 []"
    and "hex4 h 0 = Some hi \<Longrightarrow> high_surrogate hi \<Longrightarrow> r = backslash # CHR ''u'' # l @ q \<Longrightarrow>
      length l = 4 \<Longrightarrow> hex4 l 0 = Some lo \<Longrightarrow> low_surrogate lo \<Longrightarrow>
      yields su st (sax_unicode su out st) (out @ utf8 (surrogate_pair hi lo))
        (h @ backslash # CHR ''u'' # l) 0 []"
proof -
  have hex: "yields su st (readHex4 su st) v h 0 []" if "hex4 h 0 = Some v" for v
    using yields_hex [OF st(1,2), of 0 v] that st(3) by (simp add: readHex4_def hex4_def)
  show "yields su st (sax_unicode su out st) (out @ utf8 u) h 0 []" if "hex4 h 0 = Some u" "scalar_value u"
    unfolding sax_unicode_def
    by (rule yields_bind [OF hex [OF that(1)]])
      (use that(2) appendUtf8_utf8 [of u out] in \<open>auto simp: scalar_value_def yields_Inr\<close>)
  assume hi: "hex4 h 0 = Some hi" "high_surrogate hi"
    and l: "r = backslash # CHR ''u'' # l @ q" "length l = 4" "hex4 l 0 = Some lo" "low_surrogate lo"
  have v: "0x10000 + push_bit 10 (hi - 0xD800) + (lo - 0xDC00) = surrogate_pair hi lo"
    by (simp add: surrogate_pair_def push_bit_eq_mult)
  show "yields su st (sax_unicode su out st) (out @ utf8 (surrogate_pair hi lo))
      (h @ backslash # CHR ''u'' # l) 0 []"
    unfolding sax_unicode_def
  proof (rule yields_bind [OF hex [OF hi(1)]])
    fix st1
    assume st1: "healthy su st1" "ahead st = h @ ahead st1"
    have "yields su st1 (try_bind (sax_low su st1) (\<lambda>(low, st2).
        Inr (appendUtf8 (0x10000 + push_bit 10 (hi - 0xD800) + (low - 0xDC00)) out, st2)))
        (out @ utf8 (surrogate_pair hi lo)) (backslash # CHR ''u'' # l) 0 []"
      using st1 st(2) l appendUtf8_utf8 [OF surrogate_pair_bound [OF hi(2) l(4)], of out]
      by (intro yields_bind [OF yields_low [where l = l and lo = lo and r = q]]) (auto simp: v yields_Inr)
    with hi(2) show "yields su st1 (case (hi, st1) of (cp, st1) \<Rightarrow>
        if 0xD800 \<le> cp \<and> cp \<le> 0xDBFF then
          try_bind (sax_low su st1) (\<lambda>(low, st2).
            Inr (appendUtf8 (0x10000 + push_bit 10 (cp - 0xD800) + (low - 0xDC00)) out, st2))
        else if 0xDC00 \<le> cp \<and> cp \<le> 0xDFFF then sax_fail msg_low_surrogate st1
        else Inr (appendUtf8 cp out, st1)) (out @ utf8 (surrogate_pair hi lo)) (backslash # CHR ''u'' # l) 0 []"
      by (simp add: high_surrogate_def)
  qed simp_all
qed

lemma yields_utf8_bytes:
  assumes "healthy su st" "ahead st = cs @ r" "utf8_tail cs code = Some cp"
  shows "yields su st (utf8_bytes su (length cs) code out st) (cp, out @ cs) cs 0 []"
  using assms
proof (induction cs arbitrary: code out st)
  case Nil
  then show ?case by (simp add: yields_Inr)
next
  case (Cons ch cs)
  have d: "byte ch AND 0xC0 = 0x80" "utf8_tail cs (push_bit 6 code OR (byte ch AND 0x3F)) = Some cp"
    using Cons.prems(3) unfolding utf8_tail.simps by (metis option.distinct(1))+
  have "yields su st (take_or_fail su msg_invalid_utf8 st) ch [ch] 0 []"
    using Cons.prems by (intro yields_take(2)) auto
  then show ?case
    unfolding list.size add_Suc_right add_0_right utf8_bytes.simps
    by (rule yields_bind) (use Cons.prems Cons.IH [of _ _ "out @ [ch]"] d in auto)
qed

lemma yields_utf8:
  assumes "healthy su st" "ahead st = cs @ r" "utf8 cp = c # cs" "scalar_value cp" "0x80 \<le> cp"
  shows "yields su st (consumeUtf8Tail su c out st) (out @ cs) cs 0 []"
proof -
  from assms(3-5) have "utf8_sequence (c # cs) = Some cp" by (simp add: utf8_sequence_iff)
  then obtain code lo where lead: "utf8_lead (byte c) = Some (Suc (length cs), code, lo)"
    and tail: "utf8_tail cs code = Some cp" "lo \<le> cp"
    by (auto simp: utf8_sequence_def split: option.splits if_splits)
  have ok: "\<not> (cp < lo \<or> cp > 0x10FFFF \<or> 0xD800 \<le> cp \<and> cp \<le> 0xDFFF)"
    using tail(2) assms(4) by (auto simp: scalar_value_def)
  show ?thesis
    unfolding consumeUtf8Tail_def lead option.case prod.case diff_Suc_1
    by (rule yields_bind [OF yields_utf8_bytes [OF assms(1,2) tail(1)]]) (use ok in \<open>auto intro: yields_Inr\<close>)
qed

lemma yields_char:
  assumes "jchar (x # q) b" "healthy su st" "ahead st = q @ r"
  shows "yields su st (string_char su x out st) (out @ b) q 0 []"
  using assms(1)
proof (cases rule: jchar.cases)
  case (char_plain)
  then show ?thesis using assms(2) by (auto simp: string_char_def plain_char_def yields_Inr)
next
  case (char_utf8 cp)
  from utf8_first [OF char_utf8(3,4)] char_utf8(1) have x: "0x80 \<le> byte x" "x \<noteq> backslash" by auto
  from yields_utf8 [OF assms(2,3) char_utf8(1) [symmetric] char_utf8(3,4), of "out @ [x]"]
  show ?thesis using x char_utf8 by (simp add: string_char_def)
next
  case (char_escape e d)
  have "yields su st (take_or_fail su msg_dangling_escape st) e [e] 0 []"
    using assms char_escape by (intro yields_take(2)) auto
  then show ?thesis unfolding string_char_def
    using char_escape by (auto intro!: yields_bind yields_Inr)
next
  case (char_unicode h u)
  have "yields su st (take_or_fail su msg_dangling_escape st) (CHR ''u'') [CHR ''u''] 0 []"
    using assms char_unicode by (intro yields_take(2)) auto
  then show ?thesis unfolding string_char_def
    using char_unicode assms(3)
    by (auto intro!: yields_bind yields_unicode(1) simp: escape_u)
next
  case (char_pair h hi l lo)
  have "yields su st (take_or_fail su msg_dangling_escape st) (CHR ''u'') [CHR ''u''] 0 []"
    using assms char_pair by (intro yields_take(2)) auto
  then show ?thesis unfolding string_char_def
    using char_pair assms(3)
    by (auto intro!: yields_bind yields_unicode(2) simp: escape_u)
qed

lemma yields_body:
  "jchars raw b \<Longrightarrow> healthy su st \<Longrightarrow> ahead st = raw @ dquote # r \<Longrightarrow>
    yields su st (string_body su out st) (out @ b) (raw @ [dquote]) 0 []"
proof (induction raw b arbitrary: st out rule: jchars.induct)
  case chars_end
  then obtain c where c: "getChar su st = (Some dquote, st\<lparr>sx_cur := c\<rparr>)" "healthy su (st\<lparr>sx_cur := c\<rparr>)"
    "cur_rest c = r"
    using getChar_takes [of su st dquote r] by auto
  with chars_end show ?case by (simp add: string_body.simps [of su out st] yields_def)
next
  case (chars_more p b raw bs)
  from jchar_first [OF chars_more(1)] obtain x q where x: "p = x # q" "x \<noteq> dquote" by blast
  with chars_more.prems obtain c where c: "getChar su st = (Some x, st\<lparr>sx_cur := c\<rparr>)"
    "healthy su (st\<lparr>sx_cur := c\<rparr>)" "cur_rest c = q @ raw @ dquote # r"
    using getChar_takes [of su st x "q @ raw @ dquote # r"] by auto
  let ?st = "st\<lparr>sx_cur := c\<rparr>"
  have "yields su ?st (case string_char su x out ?st of Inl e \<Rightarrow> Inl e
      | Inr (out', st2) \<Rightarrow> string_body su out' st2) (out @ b @ bs) (q @ raw @ [dquote]) 0 []"
    using chars_more(1) x(1) c
    by (intro yields_case [OF yields_char [where q = q and b = b and r = "raw @ dquote # r"]])
      (auto intro: chars_more.IH [of _ "out @ b", simplified])
  with c x chars_more.prems show ?case
    by (simp add: string_body.simps [of su out st] yields_def)
qed

lemma yields_string:
  assumes "jchars raw b" "healthy su st" "ahead st = quoted raw @ r"
  shows "yields su st (parseStringRaw su st) b (quoted raw) 0 []"
proof -
  have "yields su st (expect_char su dquote msg_expected_string st) () [dquote] 0 []"
    using assms by (intro yields_expect) (auto simp: quoted_def)
  then show ?thesis
    unfolding parseStringRaw_def using assms yields_body [of raw b su _ r "[]"]
    by (auto intro!: yields_bind simp: quoted_def)
qed

end
