(* ===== verification/Sax_Correct.thy ===== *)
theory Sax_Correct
  imports Sax_Events
begin

section \<open>The SAX parser reads every document\<close>

text \<open>
  A text of the grammar within the limits yields its tree's events, whatever the handler answers:
  by induction over the derivation, with one lemma for each turn of the loops.
\<close>

subsection \<open>Scalars\<close>

lemma yields_from:
  assumes "yields su st1 r a p2 k e" "ahead st = p1 @ ahead st1" "sx_nodeCount st1 = sx_nodeCount st"
    "sx_handler st1 = sx_handler st" "sx_err st1 = sx_err st"
  shows "yields su st r a (p1 @ p2) k e"
  using assms by (auto simp: yields_def split: sum.splits)

lemma yields_literal:
  "healthy su st \<Longrightarrow> ahead st = lit @ r \<Longrightarrow> yields su st (matchLiteral su lit st) () lit 0 []"
proof (induction lit arbitrary: st)
  case Nil
  then show ?case by (simp add: yields_Inr)
next
  case (Cons x lit)
  have "yields su st (expect_char su x msg_invalid_value st) () [x] 0 []"
    using Cons.prems by (intro yields_expect) auto
  then show ?case unfolding matchLiteral.simps
    by (rule yields_then [where r = "lit @ r"]) (use Cons in auto)
qed

lemma yields_reserved:
  assumes "healthy su st" "node_room su 1 st" "ahead st = r"
    and "\<And>st1. healthy su st1 \<Longrightarrow> ahead st1 = r \<Longrightarrow> sx_nodeCount st1 = Suc (sx_nodeCount st) \<Longrightarrow>
      yields su st1 (f ((), st1)) b p k e"
  shows "yields su st (try_bind (reserveNode su st) f) b p (Suc k) e"
  by (rule yields_then [OF yields_reserve [OF assms(1,2)], where r = r]) (use assms in auto)

lemma yields_literal_value:
  assumes "healthy su st" "ahead st = lit @ r" "node_room su 1 st"
  shows "yields su st (literal_value su m lit event st) () lit 1 (shown m [event])"
  unfolding literal_value_def
  by (rule yields_then [OF yields_literal [OF assms(1,2)] assms(2), of _ _ "[]" 1 "shown m [event]"])
    (use assms(3) in \<open>auto simp: node_room_def intro!: yields_reserved yields_report\<close>)

lemma yields_string_value:
  assumes "jchars raw b" "healthy su st" "ahead st = quoted raw @ r" "node_room su 1 st"
  shows "yields su st (parseStringValue su m st) () (quoted raw) 1 (shown m [OnString b])"
  unfolding parseStringValue_def One_nat_def
  by (rule yields_reserved [OF assms(2,4,3)])
    (use assms(1) in \<open>auto intro!: yields_then [OF yields_string] yields_report\<close>)

text \<open>What the scanner leaves alone.\<close>

definition scanning :: "'h sax_setup \<Rightarrow> 'h SaxParser \<Rightarrow> 'h SaxParser \<Rightarrow> bool" where
  "scanning su st0 st \<longleftrightarrow> fits su st \<and> cur_breaks (sx_cur st) = cur_breaks (sx_cur st0)
     \<and> sx_nodeCount st = sx_nodeCount st0 \<and> sx_handler st = sx_handler st0 \<and> sx_err st = sx_err st0"

interpretation sax_number: number_cursor "sax_scanner su" "\<lambda>st. ahead st" "scanning su st0" for su st0
proof
  fix st assume s: "scanning su st0 st"
  obtain q st1 where pk: "sax_peek st = (q, st1)" by (cases "sax_peek st")
  with s fits_peek [of su st q st1] cur.peek_same [of "sx_cur st"] cur.peek_result [of "sx_cur st"]
  show "\<exists>s'. sc_peek (sax_scanner su) st = (case ahead st of [] \<Rightarrow> None | c # r \<Rightarrow> Some c, s')
      \<and> scanning su st0 s' \<and> ahead s' = ahead st"
    by (auto simp: scanning_def sax_peek_def split: prod.splits list.split)
next
  fix st x r assume "scanning su st0 st" "ahead st = x # r"
  with fits_getChar [of su st x r]
  show "\<exists>s'. sc_take (sax_scanner su) st = (Some x, s') \<and> scanning su st0 s' \<and> ahead s' = r"
    by (auto simp: scanning_def)
qed

lemma scanning_self: "fits su st \<Longrightarrow> scanning su st st"
  by (simp add: scanning_def)

lemma yields_number:
  assumes st: "healthy su st" "ahead st = t @ r" "node_room su 1 st" and t: "jnumber t f" "number_end r"
    and n: "convertNumberToken (su_underflow su) t f (po_numberPolicy (su_opts su)) = Inr n"
  shows "yields su st (parseNumberValue su m st) () t 1 (shown m [number_event n])"
proof -
  have "scanning su st st" using st(1) by (simp add: healthy_def scanning_self)
  from sax_number.number_scan [OF this] text_number_complete [OF t] st(2) obtain st1 where
    s: "scanJsonNumber (sax_scanner su) st = Some (Inr ((t, f), st1))" "scanning su st st1" "ahead st1 = r"
    by (auto simp: sax_number.scans_def)
  then have st1: "healthy su st1" "node_room su 1 st1"
    using st by (auto simp: scanning_def healthy_def node_room_def)
  have "yields su st1 (try_bind (reserveNode su st1) (\<lambda>(_, st2).
      case convertNumberToken (su_underflow su) t f (po_numberPolicy (su_opts su)) of
        Inl msg \<Rightarrow> sax_fail msg st2 | Inr n \<Rightarrow> report su m (number_event n) st2)) () [] (Suc 0)
      (shown m [number_event n])"
    by (rule yields_reserved [OF st1 refl]) (simp add: n yields_report)
  then have "yields su st (parseNumberValue su m st) () (t @ []) (Suc 0) (shown m [number_event n])"
    by (intro yields_from [of su st1]) (use s st(2) in \<open>simp_all add: parseNumberValue_def scanning_def\<close>)
  then show ?thesis by simp
qed

subsection \<open>Arrays\<close>

lemma yields_close:
  assumes "healthy su st" "ahead st = ch # r"
  shows "yields su st (sax_close su m event st) () [ch] 0 (shown m [event])"
  unfolding sax_close_def
  by (rule yields_then [OF yields_take(1) [OF assms], where r = r]) (auto simp: assms intro: yields_report)

definition depth_room :: "'h sax_setup \<Rightarrow> nat \<Rightarrow> bool" where
  "depth_room su d \<longleftrightarrow> d \<le> clampParseDepth (po_maxDepth (su_opts su))"

lemma yields_open:
  assumes "healthy su st" "ahead st = ch # r" "node_room su 1 st" "depth_room su d"
  shows "yields su st (sax_open su d m ch event st) () [ch] 1 (shown m [event])"
proof -
  have "yields su st (try_bind (reserveNode su st) (\<lambda>(_, st1).
      try_bind (expect_char su ch msg_end_of_input st1) (\<lambda>(_, st2). report su m event st2))) () [ch] (Suc 0)
      (shown m [event])"
    by (rule yields_reserved [OF assms(1,3,2)])
      (auto intro!: yields_then [OF yields_expect] yields_report)
  with assms(4) show ?thesis by (simp add: sax_open_def depth_room_def)
qed

lemma elements_close:
  assumes "healthy su st" "ahead st = b @ CHR '']'' # r" "spaces b" "\<not> e"
  shows "yields su st (sax_elements su d m e a st) () (b @ '']'') 0 (shown m [OnEndArray])"
proof -
  have "\<not> is_ws (CHR '']'')" by simp
  note nb = yields_next_byte [OF assms(1-3) this, of msg_array_unterminated]
  show ?thesis
    unfolding sax_elements.simps [of su d m e a st]
    by (rule yields_cases [OF nb assms(2), where ?p2.0 = "'']''"]) (use assms(4) in \<open>auto intro: yields_close\<close>)
qed

lemma elements_comma:
  assumes "healthy su st" "ahead st = b @ CHR '','' # q" "spaces b" "a" "\<not> e"
    and rest: "\<And>st1. healthy su st1 \<Longrightarrow> ahead st1 = q \<Longrightarrow> sx_nodeCount st1 = sx_nodeCount st \<Longrightarrow>
      yields su st1 (sax_elements su d m True a st1) () p k es"
  shows "yields su st (sax_elements su d m e a st) () (b @ CHR '','' # p) k es"
proof -
  have "\<not> is_ws (CHR '','')" by simp
  note nb = yields_next_byte [OF assms(1-3) this, of msg_array_unterminated]
  show ?thesis
    unfolding sax_elements.simps [of su d m e a st]
    by (rule yields_cases [OF nb assms(2), where ?p2.0 = "CHR '','' # p" and ?k2.0 = k and ?e2.0 = es])
      (use assms(4,5) in \<open>auto intro!: yields_cases [OF yields_take(1)] rest\<close>)
qed

definition value_runs :: "'h sax_setup \<Rightarrow> string \<Rightarrow> jtree \<Rightarrow> bool" where
  "value_runs su s t \<longleftrightarrow> (\<forall>d m st w r es. healthy su st \<longrightarrow> ahead st = w @ s @ r \<longrightarrow> spaces w \<longrightarrow>
     number_end r \<longrightarrow> tree_events (su_underflow su) (su_opts su) t = Some es \<longrightarrow>
     node_room su (tree_nodes t) st \<longrightarrow> depth_room su (d + tree_depth t) \<longrightarrow>
     yields su st (sax_parseValue su d m st) () (w @ s) (tree_nodes t) (shown m es))"

lemma value_runsD:
  assumes "value_runs su s t" "healthy su st" "ahead st = w @ s @ r" "spaces w" "number_end r"
    "tree_events (su_underflow su) (su_opts su) t = Some es" "node_room su (tree_nodes t) st"
    "depth_room su (d + tree_depth t)"
  shows "yields su st (sax_parseValue su d m st) () (w @ s) (tree_nodes t) (shown m es)"
  using assms by (simp add: value_runs_def)

lemma elements_value:
  assumes v: "value_runs su s t" "jvalue s t" "healthy su st" "ahead st = w @ s @ q" "spaces w" "number_end q"
    "tree_events (su_underflow su) (su_opts su) t = Some es" "node_room su (tree_nodes t) st"
    "depth_room su (d + tree_depth t)" "\<not> (a \<and> \<not> e)"
    and rest: "\<And>st1. healthy su st1 \<Longrightarrow> ahead st1 = q \<Longrightarrow> sx_nodeCount st1 = sx_nodeCount st + tree_nodes t \<Longrightarrow>
      yields su st1 (sax_elements su d m False True st1) () p k es'"
  shows "yields su st (sax_elements su d m e a st) () (w @ s @ p) (tree_nodes t + k) (shown m es @ es')"
proof -
  obtain y s' where y: "s = y # s'" "\<not> is_ws y" "y \<noteq> CHR '']''" "y \<noteq> CHR '',''"
    using value_first [OF v(2)] .
  with v(4) have at: "ahead st = w @ y # s' @ q" by simp
  note nb = yields_next_byte [OF v(3) at v(5) y(2), of msg_array_unterminated]
  have "yields su st1 (case sax_parseValue su d m st1 of Inl e \<Rightarrow> Inl e
      | Inr (x, st2) \<Rightarrow> sax_elements su d m False True st2) () (s @ p) (tree_nodes t + k) (shown m es @ es')"
    if st1: "healthy su st1" "ahead st1 = y # s' @ q" "sx_nodeCount st1 = sx_nodeCount st" for st1
  proof -
    have "yields su st1 (sax_parseValue su d m st1) () ([] @ s) (tree_nodes t) (shown m es)"
      by (rule value_runsD [OF v(1) st1(1), of "[]" q]) (use st1 y v in \<open>auto simp: node_room_def\<close>)
    then show ?thesis
      by (rule yields_cases [where r = q]) (use st1 y(1) in \<open>auto intro: rest\<close>)
  qed
  with y v(10) show ?thesis
    unfolding sax_elements.simps [of su d m e a st]
    by (intro yields_cases [OF nb at, where ?p2.0 = "s @ p" and ?k2.0 = "tree_nodes t + k"
          and ?e2.0 = "shown m es @ es'"]) auto
qed

subsection \<open>Objects\<close>

lemma members_close:
  assumes "healthy su st" "ahead st = b @ CHR ''}'' # r" "spaces b" "\<not> e"
  shows "yields su st (sax_members su d m e a ks st) () (b @ ''}'') 0 (shown m [OnEndObject])"
proof -
  have "\<not> is_ws (CHR ''}'')" by simp
  note nb = yields_next_byte [OF assms(1-3) this, of msg_object_unterminated]
  show ?thesis
    unfolding sax_members.simps [of su d m e a ks st]
    by (rule yields_cases [OF nb assms(2), where ?p2.0 = "''}''"]) (use assms(4) in \<open>auto intro: yields_close\<close>)
qed

lemma members_comma:
  assumes "healthy su st" "ahead st = b @ CHR '','' # q" "spaces b" "a" "\<not> e"
    and rest: "\<And>st1. healthy su st1 \<Longrightarrow> ahead st1 = q \<Longrightarrow> sx_nodeCount st1 = sx_nodeCount st \<Longrightarrow>
      yields su st1 (sax_members su d m True a ks st1) () p k es"
  shows "yields su st (sax_members su d m e a ks st) () (b @ CHR '','' # p) k es"
proof -
  have "\<not> is_ws (CHR '','')" by simp
  note nb = yields_next_byte [OF assms(1-3) this, of msg_object_unterminated]
  show ?thesis
    unfolding sax_members.simps [of su d m e a ks st]
    by (rule yields_cases [OF nb assms(2), where ?p2.0 = "CHR '','' # p" and ?k2.0 = k and ?e2.0 = es])
      (use assms(4,5) in \<open>auto intro!: yields_cases [OF yields_take(1)] rest\<close>)
qed

text \<open>The names seen behind a member, and whether its value is reported.\<close>

definition member_seen :: "ParserOptions \<Rightarrow> string list \<Rightarrow> string \<Rightarrow> string list" where
  "member_seen opts ks k =
     (if po_duplicateKeys opts = KeepLastDuplicate \<or> k \<in> set ks then ks else k # ks)"

definition member_repeated :: "ParserOptions \<Rightarrow> string list \<Rightarrow> string \<Rightarrow> bool" where
  "member_repeated opts ks k \<longleftrightarrow> po_duplicateKeys opts \<noteq> KeepLastDuplicate \<and> k \<in> set ks"

lemma yields_member:
  assumes "jchars raw k" "healthy su st" "ahead st = quoted raw @ b @ CHR '':'' # q" "spaces b"
    "\<not> (member_repeated (su_opts su) ks k \<and> po_duplicateKeys (su_opts su) = RejectDuplicateKeys)"
  shows "yields su st (sax_member su m ks st)
    (member_seen (su_opts su) ks k, m \<and> \<not> member_repeated (su_opts su) ks k)
    (quoted raw @ b @ '':'') 0 (shown (m \<and> \<not> member_repeated (su_opts su) ks k) [OnKey k])"
proof -
  let ?policy = "po_duplicateKeys (su_opts su)" and ?rep = "member_repeated (su_opts su) ks k"
  have keep: "?rep \<longrightarrow> ?policy = KeepFirstDuplicate"
    using assms(5) by (cases ?policy) (auto simp: member_repeated_def)
  have last: "yields su st3 (let policy = ?policy; duplicate = (policy \<noteq> KeepLastDuplicate \<and> k \<in> set ks);
        seen = (if \<not> duplicate \<and> policy \<noteq> KeepLastDuplicate then k # ks else ks);
        emitValue = (m \<and> \<not> (duplicate \<and> policy = KeepFirstDuplicate))
      in if duplicate \<and> policy = RejectDuplicateKeys then
           Inl (Stopped, failAt (cur_position (sx_cur st)) (cur_line (sx_cur st))
             (cur_column (sx_cur st)) msg_duplicate_key st3)
         else
           try_bind (report su emitValue (OnKey k) st3) (\<lambda>(_, st4). Inr ((seen, emitValue), st4)))
      (member_seen (su_opts su) ks k, m \<and> \<not> ?rep) [] 0 (shown (m \<and> \<not> ?rep) [OnKey k])"
    if "healthy su st3" for st3
  proof -
    have "yields su st3 (try_bind (report su (m \<and> \<not> ?rep) (OnKey k) st3)
        (\<lambda>(_, st4). Inr ((member_seen (su_opts su) ks k, m \<and> \<not> ?rep), st4)))
        (member_seen (su_opts su) ks k, m \<and> \<not> ?rep) [] 0 (shown (m \<and> \<not> ?rep) [OnKey k])"
      by (rule yields_then [OF yields_report [OF that], where r = "ahead st3"]) (auto intro: yields_Inr)
    moreover have rep: "(?policy \<noteq> KeepLastDuplicate \<and> k \<in> set ks) = ?rep"
      by (simp add: member_repeated_def)
    moreover have ev: "(m \<and> \<not> (?rep \<and> ?policy = KeepFirstDuplicate)) = (m \<and> \<not> ?rep)" using keep by blast
    moreover have seen: "(if \<not> ?rep \<and> ?policy \<noteq> KeepLastDuplicate then k # ks else ks) = member_seen (su_opts su) ks k"
      by (auto simp: member_seen_def member_repeated_def)
    ultimately show ?thesis unfolding Let_def rep ev seen if_not_P [OF assms(5)] by simp
  qed
  have colon: "\<not> is_ws (CHR '':'')" by simp
  have name: "yields su st2 (skipWhitespace su st2) () b 0 []" if "healthy su st2" "ahead st2 = b @ CHR '':'' # q" for st2
    using that assms(4) by (intro skip_next) auto
  show ?thesis
    unfolding sax_member_def
    by (rule yields_then [OF yields_string [OF assms(1-3)] assms(3), where ?p2.0 = "b @ '':''" and ?k2.0 = 0
            and ?e2.0 = "shown (m \<and> \<not> ?rep) [OnKey k]"], simp only: prod.case,
        rule yields_then [OF name, where ?p2.0 = "'':''" and ?k2.0 = 0
            and ?e2.0 = "shown (m \<and> \<not> ?rep) [OnKey k]"], assumption, assumption, assumption,
        simp only: prod.case,
        rule yields_then [OF yields_expect, where ?p2.0 = "[]" and ?k2.0 = 0
            and ?e2.0 = "shown (m \<and> \<not> ?rep) [OnKey k]"], assumption, assumption)
      (simp_all only: prod.case last append_Nil append_Nil2 append_Cons append_assoc add_0)
qed

definition members_run ::
    "'h sax_setup \<Rightarrow> nat \<Rightarrow> bool \<Rightarrow> bool \<Rightarrow> string \<Rightarrow> (string \<times> jtree) list \<Rightarrow> bool" where
  "members_run su d m e s ms \<longleftrightarrow> (\<forall>st r ks es. healthy su st \<longrightarrow> ahead st = s @ CHR ''}'' # r \<longrightarrow>
     members_events (su_underflow su) (su_opts su) ms ks = Some es \<longrightarrow>
     node_room su (sum_list (map (\<lambda>m. tree_nodes (snd m)) ms)) st \<longrightarrow>
     (\<forall>x\<in>set ms. depth_room su (d + tree_depth (snd x))) \<longrightarrow>
     yields su st (sax_members su d m e e ks st) () (s @ ''}'')
       (sum_list (map (\<lambda>m. tree_nodes (snd m)) ms)) (shown m (es @ [OnEndObject])))"

lemma members_value:
  assumes v: "value_runs su s t" "jchars raw k" "healthy su st"
    "ahead st = w @ quoted raw @ b @ CHR '':'' # c @ s @ q" "spaces w" "spaces b" "spaces c" "number_end q"
    "tree_events (su_underflow su) (su_opts su) t = Some es" "node_room su (tree_nodes t) st"
    "depth_room su (d + tree_depth t)" "\<not> (a \<and> \<not> e)"
    and dup: "\<not> (member_repeated (su_opts su) ks k \<and> po_duplicateKeys (su_opts su) = RejectDuplicateKeys)"
    and rest: "\<And>st1. healthy su st1 \<Longrightarrow> ahead st1 = q \<Longrightarrow> sx_nodeCount st1 = sx_nodeCount st + tree_nodes t \<Longrightarrow>
      yields su st1 (sax_members su d m False True (member_seen (su_opts su) ks k) st1) () p n es'"
  shows "yields su st (sax_members su d m e a ks st) () (w @ quoted raw @ b @ CHR '':'' # c @ s @ p)
    (tree_nodes t + n) (shown m (if member_repeated (su_opts su) ks k then [] else OnKey k # es) @ es')"
proof -
  let ?ev = "m \<and> \<not> member_repeated (su_opts su) ks k"
  let ?es = "shown ?ev (OnKey k # es) @ es'"
  have at: "ahead st = w @ dquote # raw @ [dquote] @ b @ CHR '':'' # c @ s @ q"
    using v(4) by (simp add: quoted_def)
  have "\<not> is_ws dquote" by simp
  note nb = yields_next_byte [OF v(3) at v(5) this, of msg_object_unterminated]
  have val: "yields su st2 (case sax_parseValue su d ?ev st2 of Inl e \<Rightarrow> Inl e
      | Inr (x, st3) \<Rightarrow> sax_members su d m False True (member_seen (su_opts su) ks k) st3) ()
      (c @ s @ p) (tree_nodes t + n) (shown ?ev es @ es')"
    if "healthy su st2" "ahead st2 = c @ s @ q" "sx_nodeCount st2 = sx_nodeCount st" for st2
    by (rule yields_cases [OF value_runsD [OF v(1) that(1,2) v(7,8,9) _ v(11)], where r = q])
      (use that v(10) in \<open>auto simp: node_room_def intro: rest\<close>)
  have mem: "yields su st1 (case sax_member su m ks st1 of Inl e \<Rightarrow> Inl e
      | Inr ((seen, ev), st2) \<Rightarrow> (case sax_parseValue su d ev st2 of Inl e \<Rightarrow> Inl e
        | Inr (x, st3) \<Rightarrow> sax_members su d m False True seen st3)) ()
      (quoted raw @ b @ CHR '':'' # c @ s @ p) (tree_nodes t + n) ?es"
    if "healthy su st1" "ahead st1 = quoted raw @ b @ CHR '':'' # c @ s @ q" "sx_nodeCount st1 = sx_nodeCount st" for st1
    by (rule yields_cases [OF yields_member [OF v(2) that(1,2) v(6) dup, of m], where r = "c @ s @ q"
          and ?e2.0 = "shown ?ev es @ es'" and ?k2.0 = "tree_nodes t + n" and ?p2.0 = "c @ s @ p"])
      (use that val in \<open>simp_all add: shown_def\<close>)
  have "yields su st (sax_members su d m e a ks st) () (w @ quoted raw @ b @ CHR '':'' # c @ s @ p)
      (tree_nodes t + n) ?es"
    unfolding sax_members.simps [of su d m e a ks st]
    by (rule yields_cases [OF nb at, where ?p2.0 = "quoted raw @ b @ CHR '':'' # c @ s @ p"
          and ?k2.0 = "tree_nodes t + n" and ?e2.0 = ?es])
      (use v(12) mem in \<open>auto simp: quoted_def\<close>)
  moreover have "?es = shown m (if member_repeated (su_opts su) ks k then [] else OnKey k # es) @ es'"
    by (simp add: shown_def)
  ultimately show ?thesis by (simp only:)
qed

subsection \<open>The grammar\<close>

lemma value_yields:
  assumes "healthy su st" "ahead st = w @ (y # s) @ r" "spaces w" "\<not> is_ws y"
    and run: "\<And>st1. healthy su st1 \<Longrightarrow> ahead st1 = (y # s) @ r \<Longrightarrow> sx_nodeCount st1 = sx_nodeCount st \<Longrightarrow>
      yields su st1 (if y = dquote then parseStringValue su m st1
          else if y = CHR ''{'' then sax_parseObject su (Suc d) m st1
          else if y = CHR ''['' then sax_parseArray su (Suc d) m st1
          else if y = CHR ''-'' \<or> is_digit y then parseNumberValue su m st1
          else parseKeywordValue su m st1) () (y # s) k es"
  shows "yields su st (sax_parseValue su d m st) () (w @ y # s) k es"
proof -
  have at: "ahead st = w @ y # s @ r" using assms(2) by simp
  show ?thesis
    unfolding sax_parseValue.simps [of su d m st]
    by (rule yields_cases [OF yields_next_byte [OF assms(1) at assms(3,4)] at, where ?p2.0 = "y # s"
          and ?k2.0 = k and ?e2.0 = es])
      (simp_all only: run append_Cons add_0 append_Nil add_0_right)
qed

definition elements_run :: "'h sax_setup \<Rightarrow> nat \<Rightarrow> bool \<Rightarrow> bool \<Rightarrow> string \<Rightarrow> jtree list \<Rightarrow> bool" where
  "elements_run su d m e s ts \<longleftrightarrow> (\<forall>st r es. healthy su st \<longrightarrow> ahead st = s @ CHR '']'' # r \<longrightarrow>
     elements_events (su_underflow su) (su_opts su) ts = Some es \<longrightarrow>
     node_room su (sum_list (map tree_nodes ts)) st \<longrightarrow>
     (\<forall>t\<in>set ts. depth_room su (d + tree_depth t)) \<longrightarrow>
     yields su st (sax_elements su d m e e st) () (s @ '']'') (sum_list (map tree_nodes ts))
       (shown m (es @ [OnEndArray])))"

lemma keyword_yields:
  assumes "healthy su st" "ahead st = lit @ r" "node_room su 1 st"
    "lit = ''null'' \<and> event = OnNull \<or> lit = ''true'' \<and> event = OnBool True \<or> lit = ''false'' \<and> event = OnBool False"
  shows "yields su st (parseKeywordValue su m st) () lit 1 (shown m [event])"
proof -
  obtain q st1 where pk: "sax_peek st = (q, st1)" by (cases "sax_peek st")
  note p = healthy_peek [OF assms(1) pk]
  have "node_room su 1 st1" using assms(3) p by (simp add: node_room_def)
  with yields_literal_value [OF p(1), of lit r] assms(2) p
  have "yields su st1 (literal_value su m lit event st1) () lit 1 (shown m [event])" by simp
  moreover have "parseKeywordValue su m st = literal_value su m lit event st1"
    using assms(2,4) p(7) pk by (auto simp: parseKeywordValue_def)
  ultimately show ?thesis using yields_from [of su st1 _ "()" lit 1 _ st "[]"] p(2-5) by simp
qed

lemma array_yields:
  assumes "elements_run su (Suc d) m False s ts" "healthy su st" "ahead st = CHR ''['' # s @ CHR '']'' # r"
    "elements_events (su_underflow su) (su_opts su) ts = Some es"
    "node_room su (tree_nodes (TArray ts)) st" "depth_room su (d + tree_depth (TArray ts))"
  shows "yields su st (sax_parseArray su (Suc d) m st) () (CHR ''['' # s @ '']'') (tree_nodes (TArray ts))
    (shown m (OnStartArray # es @ [OnEndArray]))"
proof -
  have room: "node_room su 1 st" "depth_room su (Suc d)" "\<forall>t\<in>set ts. depth_room su (Suc d + tree_depth t)"
    using assms(5,6) depth_containers(1) [of d ts] unfolding depth_room_def by (auto simp: node_room_def)
  have "yields su st1 (sax_elements su (Suc d) m False False st1) () (s @ '']'') (sum_list (map tree_nodes ts))
      (shown m (es @ [OnEndArray]))"
    if "healthy su st1" "ahead st1 = s @ CHR '']'' # r" "sx_nodeCount st1 = sx_nodeCount st + 1" for st1
    using assms(1,4,5) room(3) that by (auto simp: elements_run_def node_room_def)
  note rest = this
  show ?thesis
    unfolding sax_parseArray.simps [of su "Suc d" m st]
    by (rule yields_cases [OF yields_open [OF assms(2,3) room(1,2)] , where r = "s @ CHR '']'' # r"
          and ?p2.0 = "s @ '']''" and ?k2.0 = "sum_list (map tree_nodes ts)" and ?e2.0 = "shown m (es @ [OnEndArray])"])
      (use assms(3) rest in \<open>auto simp: shown_def\<close>)
qed

lemma object_yields:
  assumes "members_run su (Suc d) m False s ms" "healthy su st" "ahead st = CHR ''{'' # s @ CHR ''}'' # r"
    "members_events (su_underflow su) (su_opts su) ms [] = Some es"
    "node_room su (tree_nodes (TObject ms)) st" "depth_room su (d + tree_depth (TObject ms))"
  shows "yields su st (sax_parseObject su (Suc d) m st) () (CHR ''{'' # s @ ''}'') (tree_nodes (TObject ms))
    (shown m (OnStartObject # es @ [OnEndObject]))"
proof -
  have room: "node_room su 1 st" "depth_room su (Suc d)" "\<forall>x\<in>set ms. depth_room su (Suc d + tree_depth (snd x))"
    using assms(5,6) depth_containers(2) [of d ms] unfolding depth_room_def by (auto simp: node_room_def)
  have "yields su st1 (sax_members su (Suc d) m False False [] st1) () (s @ ''}'')
      (sum_list (map (\<lambda>m. tree_nodes (snd m)) ms)) (shown m (es @ [OnEndObject]))"
    if "healthy su st1" "ahead st1 = s @ CHR ''}'' # r" "sx_nodeCount st1 = sx_nodeCount st + 1" for st1
    using assms(1,4,5) room(3) that by (auto simp: members_run_def node_room_def)
  note rest = this
  show ?thesis
    unfolding sax_parseObject.simps [of su "Suc d" m st]
    by (rule yields_cases [OF yields_open [OF assms(2,3) room(1,2)] , where r = "s @ CHR ''}'' # r"
          and ?p2.0 = "s @ ''}''" and ?k2.0 = "sum_list (map (\<lambda>m. tree_nodes (snd m)) ms)"
          and ?e2.0 = "shown m (es @ [OnEndObject])"])
      (use assms(3) rest in \<open>auto simp: shown_def\<close>)
qed

lemma empty_yields:
  assumes "spaces w"
  shows "elements_run su d m False w []" "members_run su d m False w []"
  unfolding elements_run_def members_run_def
  using elements_close [OF _ _ assms, where e = False] members_close [OF _ _ assms, where e = False] by auto

lemma array_runs:
  assumes "\<And>d m. elements_run su (Suc d) m False s ts"
  shows "value_runs su (CHR ''['' # s @ '']'') (TArray ts)"
  unfolding value_runs_def
proof (intro allI impI)
  fix d m st w r es'
  assume a: "healthy su st" "ahead st = w @ (CHR ''['' # s @ '']'') @ r" "spaces w"
    "tree_events (su_underflow su) (su_opts su) (TArray ts) = Some es'"
    "node_room su (tree_nodes (TArray ts)) st" "depth_room su (d + tree_depth (TArray ts))"
  then obtain es where es: "elements_events (su_underflow su) (su_opts su) ts = Some es"
    "es' = OnStartArray # es @ [OnEndArray]" by auto
  have "yields su st1 (sax_parseArray su (Suc d) m st1) () (CHR ''['' # s @ '']'') (tree_nodes (TArray ts)) (shown m es')"
    if "healthy su st1" "ahead st1 = (CHR ''['' # s @ '']'') @ r" "sx_nodeCount st1 = sx_nodeCount st" for st1
    unfolding es(2)
    by (rule array_yields [OF assms that(1) _ es(1) _ a(6)]) (use that a(5) in \<open>auto simp: node_room_def\<close>)
  then show "yields su st (sax_parseValue su d m st) () (w @ CHR ''['' # s @ '']'') (tree_nodes (TArray ts)) (shown m es')"
    by (intro value_yields [OF a(1-3)]) (simp_all del: tree_nodes.simps)
qed

lemma object_runs:
  assumes "\<And>d m. members_run su (Suc d) m False s ms"
  shows "value_runs su (CHR ''{'' # s @ ''}'') (TObject ms)"
  unfolding value_runs_def
proof (intro allI impI)
  fix d m st w r es'
  assume a: "healthy su st" "ahead st = w @ (CHR ''{'' # s @ ''}'') @ r" "spaces w"
    "tree_events (su_underflow su) (su_opts su) (TObject ms) = Some es'"
    "node_room su (tree_nodes (TObject ms)) st" "depth_room su (d + tree_depth (TObject ms))"
  then obtain es where es: "members_events (su_underflow su) (su_opts su) ms [] = Some es"
    "es' = OnStartObject # es @ [OnEndObject]" by auto
  have "yields su st1 (sax_parseObject su (Suc d) m st1) () (CHR ''{'' # s @ ''}'') (tree_nodes (TObject ms)) (shown m es')"
    if "healthy su st1" "ahead st1 = (CHR ''{'' # s @ ''}'') @ r" "sx_nodeCount st1 = sx_nodeCount st" for st1
    unfolding es(2)
    by (rule object_yields [OF assms that(1) _ es(1) _ a(6)]) (use that a(5) in \<open>auto simp: node_room_def\<close>)
  then show "yields su st (sax_parseValue su d m st) () (w @ CHR ''{'' # s @ ''}'') (tree_nodes (TObject ms)) (shown m es')"
    by (intro value_yields [OF a(1-3)]) (simp_all del: tree_nodes.simps)
qed

lemma members_events_step:
  assumes "members_events uf opts ((k, t) # ms) ks = Some es"
  obtains e1 e2 where "tree_events uf opts t = Some e1"
    "members_events uf opts ms (member_seen opts ks k) = Some e2"
    "\<not> (member_repeated opts ks k \<and> po_duplicateKeys opts = RejectDuplicateKeys)"
    "es = (if member_repeated opts ks k then [] else OnKey k # e1) @ e2"
proof -
  have seen: "member_seen opts ks k =
      (if member_repeated opts ks k \<or> po_duplicateKeys opts = KeepLastDuplicate then ks else k # ks)"
    by (auto simp: member_seen_def member_repeated_def)
  from assms that show thesis
    unfolding members_events.simps Let_def member_repeated_def [symmetric] seen
    by (auto split: if_splits bind_splits)
qed

lemma keyword_runs:
  assumes "lit = ''null'' \<and> t = TNull \<or> lit = ''true'' \<and> t = TBool True \<or> lit = ''false'' \<and> t = TBool False"
  shows "value_runs su lit t"
  unfolding value_runs_def
proof (intro allI impI)
  fix d m st w r es
  assume a: "healthy su st" "ahead st = w @ lit @ r" "spaces w"
    "tree_events (su_underflow su) (su_opts su) t = Some es" "node_room su (tree_nodes t) st"
  define event where "event = hd es"
  have e: "lit = ''null'' \<and> event = OnNull \<or> lit = ''true'' \<and> event = OnBool True
      \<or> lit = ''false'' \<and> event = OnBool False" "es = [event]" "tree_nodes t = 1"
    using assms a(4) by (auto simp: event_def)
  from assms obtain y s where y: "lit = y # s" "y = CHR ''n'' \<or> y = CHR ''t'' \<or> y = CHR ''f''"
    by (elim disjE conjE) simp_all
  have plain: "\<not> is_ws y" "y \<noteq> dquote" "y \<noteq> CHR ''{''" "y \<noteq> CHR ''[''" "\<not> (y = CHR ''-'' \<or> is_digit y)"
    using y(2) by (elim disjE; simp)+
  have at: "ahead st = w @ (y # s) @ r" using a(2) y(1) by simp
  have run: "yields su st1 (parseKeywordValue su m st1) () (y # s) 1 (shown m [event])"
    if "healthy su st1" "ahead st1 = (y # s) @ r" "sx_nodeCount st1 = sx_nodeCount st" for st1
    using keyword_yields [OF that(1), of lit r event m] that a(5) e y(1) by (simp add: node_room_def)
  show "yields su st (sax_parseValue su d m st) () (w @ lit) (tree_nodes t) (shown m es)"
    unfolding y(1) e(2,3) by (rule value_yields [OF a(1) at a(3) plain(1)]) (simp only: plain if_False run)
qed

lemma elements_runD:
  assumes "\<forall>d m e. elements_run su d m e s ts" "healthy su st" "ahead st = s @ CHR '']'' # r"
    "elements_events (su_underflow su) (su_opts su) ts = Some es" "node_room su (sum_list (map tree_nodes ts)) st"
    "\<forall>t\<in>set ts. depth_room su (d + tree_depth t)"
  shows "yields su st (sax_elements su d m e e st) () (s @ '']'') (sum_list (map tree_nodes ts))
    (shown m (es @ [OnEndArray]))"
  using assms unfolding elements_run_def by blast

lemma members_runD:
  assumes "\<forall>d m e. members_run su d m e s ms" "healthy su st" "ahead st = s @ CHR ''}'' # r"
    "members_events (su_underflow su) (su_opts su) ms ks = Some es"
    "node_room su (sum_list (map (\<lambda>m. tree_nodes (snd m)) ms)) st"
    "\<forall>x\<in>set ms. depth_room su (d + tree_depth (snd x))"
  shows "yields su st (sax_members su d m e e ks st) () (s @ ''}'') (sum_list (map (\<lambda>m. tree_nodes (snd m)) ms))
    (shown m (es @ [OnEndObject]))"
  using assms unfolding members_run_def by blast

lemma number_runs:
  assumes "jnumber tk f"
  shows "value_runs su tk (TNumber tk f)"
  unfolding value_runs_def
proof (intro allI impI)
  fix d m st w r es
  assume a: "healthy su st" "ahead st = w @ tk @ r" "spaces w" "number_end r"
    "tree_events (su_underflow su) (su_opts su) (TNumber tk f) = Some es"
    "node_room su (tree_nodes (TNumber tk f)) st"
  from jnumber_first [OF assms] obtain c cs where c: "tk = c # cs" "c = CHR ''-'' \<or> is_digit c" by blast
  have plain: "\<not> is_ws c" "c \<noteq> dquote" "c \<noteq> CHR ''{''" "c \<noteq> CHR ''[''"
    using c(2) is_digit_not_ws by (auto simp: is_digit_def less_eq_char_def)
  from a(5) obtain n where n: "convertNumberToken (su_underflow su) tk f (po_numberPolicy (su_opts su)) = Inr n"
    "es = [number_event n]" by (auto split: sum.splits)
  have at: "ahead st = w @ (c # cs) @ r" using a(2) c(1) by simp
  have run: "yields su st1 (parseNumberValue su m st1) () (c # cs) 1 (shown m [number_event n])"
    if "healthy su st1" "ahead st1 = (c # cs) @ r" "sx_nodeCount st1 = sx_nodeCount st" for st1
    using that a(6) c(1) by (intro yields_number [OF _ _ _ assms [unfolded c(1)] a(4) n(1) [unfolded c(1)]])
      (simp_all add: node_room_def)
  have one: "tree_nodes (TNumber tk f) = 1" by simp
  show "yields su st (sax_parseValue su d m st) () (w @ tk) (tree_nodes (TNumber tk f)) (shown m es)"
    unfolding one n(2) unfolding c(1)
    by (rule value_yields [OF a(1) at a(3) plain(1)]) (use run c(2) plain in simp)
qed

lemma string_runs:
  assumes "jchars raw out"
  shows "value_runs su (quoted raw) (TString out)"
  unfolding value_runs_def
proof (intro allI impI)
  fix d m st w r es
  assume a: "healthy su st" "ahead st = w @ quoted raw @ r" "spaces w" "number_end r"
    "tree_events (su_underflow su) (su_opts su) (TString out) = Some es"
    "node_room su (tree_nodes (TString out)) st"
  have at: "ahead st = w @ (dquote # raw @ [dquote]) @ r" "\<not> is_ws dquote" using a(2) by (simp_all add: quoted_def)
  have run: "yields su st1 (parseStringValue su m st1) () (dquote # raw @ [dquote]) 1 (shown m [OnString out])"
    if "healthy su st1" "ahead st1 = (dquote # raw @ [dquote]) @ r" "sx_nodeCount st1 = sx_nodeCount st" for st1
    using that a(6) yields_string_value [OF assms that(1), of r m] by (simp add: node_room_def quoted_def)
  have one: "tree_nodes (TString out) = 1" "es = [OnString out]" using a(5) by simp_all
  show "yields su st (sax_parseValue su d m st) () (w @ quoted raw) (tree_nodes (TString out)) (shown m es)"
    unfolding one quoted_def
    by (rule value_yields [OF a(1) at(1) a(3) at(2)]) (use run in simp)
qed

lemma element_last_runs:
  assumes "spaces a" "jvalue s t" "spaces b" "value_runs su s t"
  shows "elements_run su d m e (a @ s @ b) [t]"
  unfolding elements_run_def
proof (intro allI impI)
  fix st r es
  assume st: "healthy su st" "ahead st = (a @ s @ b) @ CHR '']'' # r"
    "elements_events (su_underflow su) (su_opts su) [t] = Some es"
    "node_room su (sum_list (map tree_nodes [t])) st" "\<forall>t\<in>set [t]. depth_room su (d + tree_depth t)"
  from st(3) have ev: "tree_events (su_underflow su) (su_opts su) t = Some es" by (auto split: bind_splits)
  have ne: "number_end (b @ CHR '']'' # r)" by (rule number_end_spaces(1) [OF assms(3)]) simp
  have tl: "yields su st1 (sax_elements su d m False True st1) () (b @ '']'') 0 (shown m [OnEndArray])"
    if "healthy su st1" "ahead st1 = b @ CHR '']'' # r" for st1
    by (rule elements_close [OF that assms(3)]) simp
  have "yields su st (sax_elements su d m e e st) () (a @ s @ b @ '']'') (tree_nodes t + 0)
      (shown m es @ shown m [OnEndArray])"
    by (rule elements_value [OF assms(4,2) st(1) _ assms(1) ne ev])
      (use st tl in \<open>simp_all\<close>)
  then show "yields su st (sax_elements su d m e e st) () ((a @ s @ b) @ '']'') (sum_list (map tree_nodes [t]))
      (shown m (es @ [OnEndArray]))"
    by simp
qed

lemma element_more_runs:
  assumes "spaces a" "jvalue s t" "spaces b" "jelements es ts" "value_runs su s t"
    "\<forall>d m e. elements_run su d m e es ts"
  shows "elements_run su d m e (a @ s @ b @ '','' @ es) (t # ts)"
  unfolding elements_run_def
proof (intro allI impI)
  fix st r evs
  assume st: "healthy su st" "ahead st = (a @ s @ b @ '','' @ es) @ CHR '']'' # r"
    "elements_events (su_underflow su) (su_opts su) (t # ts) = Some evs"
    "node_room su (sum_list (map tree_nodes (t # ts))) st"
    "\<forall>t\<in>set (t # ts). depth_room su (d + tree_depth t)"
  from st(3) obtain e1 e2 where ev: "tree_events (su_underflow su) (su_opts su) t = Some e1"
    "elements_events (su_underflow su) (su_opts su) ts = Some e2" "evs = e1 @ e2"
    by (auto split: bind_splits)
  have ne: "number_end (b @ CHR '','' # es @ CHR '']'' # r)" by (rule number_end_spaces(1) [OF assms(3)]) simp
  have tl: "yields su st1 (sax_elements su d m False True st1) () (b @ CHR '','' # es @ '']'')
      (sum_list (map tree_nodes ts)) (shown m (e2 @ [OnEndArray]))"
    if "healthy su st1" "ahead st1 = b @ CHR '','' # es @ CHR '']'' # r"
      "sx_nodeCount st1 = sx_nodeCount st + tree_nodes t" for st1
  proof (rule elements_comma [OF that(1,2) assms(3)])
    fix st2 assume "healthy su st2" "ahead st2 = es @ CHR '']'' # r" "sx_nodeCount st2 = sx_nodeCount st1"
    then show "yields su st2 (sax_elements su d m True True st2) () (es @ '']'') (sum_list (map tree_nodes ts))
        (shown m (e2 @ [OnEndArray]))"
      using ev(2) st(4,5) that(3) by (intro elements_runD [OF assms(6)]) (auto simp: node_room_def)
  qed simp_all
  have room: "node_room su (tree_nodes t) st" using st(4) by (auto simp: node_room_def)
  have "yields su st (sax_elements su d m e e st) () (a @ s @ b @ CHR '','' # es @ '']'')
      (tree_nodes t + sum_list (map tree_nodes ts)) (shown m e1 @ shown m (e2 @ [OnEndArray]))"
    by (rule elements_value [OF assms(5,2) st(1) _ assms(1) ne ev(1) room])
      (use st(2,5) tl in \<open>simp_all\<close>)
  then show "yields su st (sax_elements su d m e e st) () ((a @ s @ b @ '','' @ es) @ '']'')
      (sum_list (map tree_nodes (t # ts))) (shown m (evs @ [OnEndArray]))"
    by (simp add: ev(3))
qed

lemma member_last_runs:
  assumes "spaces a" "jchars raw k" "spaces b" "spaces c" "jvalue s t" "spaces d'" "value_runs su s t"
  shows "members_run su d m e (a @ quoted raw @ b @ '':'' @ c @ s @ d') [(k, t)]"
  unfolding members_run_def
proof (intro allI impI)
  fix st r ks es
  assume st: "healthy su st" "ahead st = (a @ quoted raw @ b @ '':'' @ c @ s @ d') @ CHR ''}'' # r"
    "members_events (su_underflow su) (su_opts su) [(k, t)] ks = Some es"
    "node_room su (sum_list (map (\<lambda>m. tree_nodes (snd m)) [(k, t)])) st"
    "\<forall>x\<in>set [(k, t)]. depth_room su (d + tree_depth (snd x))"
  have ne: "number_end (d' @ CHR ''}'' # r)" by (rule number_end_spaces(1) [OF assms(6)]) simp
  obtain e1 e2 where ev: "tree_events (su_underflow su) (su_opts su) t = Some e1"
    "\<not> (member_repeated (su_opts su) ks k \<and> po_duplicateKeys (su_opts su) = RejectDuplicateKeys)"
    "es = (if member_repeated (su_opts su) ks k then [] else OnKey k # e1) @ e2" "e2 = []"
    by (rule members_events_step [OF st(3)]) (rule that; simp)
  have tl: "yields su st1 (sax_members su d m False True (member_seen (su_opts su) ks k) st1) () (d' @ ''}'') 0
      (shown m [OnEndObject])" if "healthy su st1" "ahead st1 = d' @ CHR ''}'' # r" for st1
    by (rule members_close [OF that assms(6)]) simp
  have "yields su st (sax_members su d m e e ks st) () (a @ quoted raw @ b @ CHR '':'' # c @ s @ d' @ ''}'')
      (tree_nodes t + 0) (shown m (if member_repeated (su_opts su) ks k then [] else OnKey k # e1) @ shown m [OnEndObject])"
    by (rule members_value [OF assms(7,2) st(1) _ assms(1,3,4) ne ev(1) _ _ _ ev(2)])
      (use st(2,4,5) tl in \<open>simp_all\<close>)
  then show "yields su st (sax_members su d m e e ks st) () ((a @ quoted raw @ b @ '':'' @ c @ s @ d') @ ''}'')
      (sum_list (map (\<lambda>m. tree_nodes (snd m)) [(k, t)])) (shown m (es @ [OnEndObject]))"
    by (simp add: ev(3,4))
qed

lemma member_more_runs:
  assumes "spaces a" "jchars raw k" "spaces b" "spaces c" "jvalue s t" "spaces d'" "jmembers s' ms"
    "value_runs su s t" "\<forall>d m e. members_run su d m e s' ms"
  shows "members_run su d m e (a @ quoted raw @ b @ '':'' @ c @ s @ d' @ '','' @ s') ((k, t) # ms)"
  unfolding members_run_def
proof (intro allI impI)
  fix st r ks es
  assume st: "healthy su st" "ahead st = (a @ quoted raw @ b @ '':'' @ c @ s @ d' @ '','' @ s') @ CHR ''}'' # r"
    "members_events (su_underflow su) (su_opts su) ((k, t) # ms) ks = Some es"
    "node_room su (sum_list (map (\<lambda>m. tree_nodes (snd m)) ((k, t) # ms))) st"
    "\<forall>x\<in>set ((k, t) # ms). depth_room su (d + tree_depth (snd x))"
  have ne: "number_end (d' @ CHR '','' # s' @ CHR ''}'' # r)"
    by (rule number_end_spaces(1) [OF assms(6)]) simp
  obtain e1 e2 where ev:
    "tree_events (su_underflow su) (su_opts su) t = Some e1"
    "members_events (su_underflow su) (su_opts su) ms (member_seen (su_opts su) ks k) = Some e2"
    "\<not> (member_repeated (su_opts su) ks k \<and> po_duplicateKeys (su_opts su) = RejectDuplicateKeys)"
    "es = (if member_repeated (su_opts su) ks k then [] else OnKey k # e1) @ e2"
    by (rule members_events_step [OF st(3)])
  have tl: "yields su st1 (sax_members su d m False True (member_seen (su_opts su) ks k) st1) ()
      (d' @ CHR '','' # s' @ ''}'') (sum_list (map (\<lambda>m. tree_nodes (snd m)) ms)) (shown m (e2 @ [OnEndObject]))"
    if "healthy su st1" "ahead st1 = d' @ CHR '','' # s' @ CHR ''}'' # r"
      "sx_nodeCount st1 = sx_nodeCount st + tree_nodes t" for st1
  proof (rule members_comma [OF that(1,2) assms(6)])
    fix st2 assume "healthy su st2" "ahead st2 = s' @ CHR ''}'' # r" "sx_nodeCount st2 = sx_nodeCount st1"
    then show "yields su st2 (sax_members su d m True True (member_seen (su_opts su) ks k) st2) () (s' @ ''}'')
        (sum_list (map (\<lambda>m. tree_nodes (snd m)) ms)) (shown m (e2 @ [OnEndObject]))"
      using ev(2) st(4,5) that(3) by (intro members_runD [OF assms(9)]) (auto simp: node_room_def)
  qed simp_all
  have room: "node_room su (tree_nodes t) st" using st(4) by (auto simp: node_room_def)
  have "yields su st (sax_members su d m e e ks st) ()
      (a @ quoted raw @ b @ CHR '':'' # c @ s @ d' @ CHR '','' # s' @ ''}'')
      (tree_nodes t + sum_list (map (\<lambda>m. tree_nodes (snd m)) ms))
      (shown m (if member_repeated (su_opts su) ks k then [] else OnKey k # e1) @ shown m (e2 @ [OnEndObject]))"
    by (rule members_value [OF assms(8,2) st(1) _ assms(1,3,4) ne ev(1) room _ _ ev(3)])
      (use st(2,5) tl in \<open>simp_all\<close>)
  then show "yields su st (sax_members su d m e e ks st) ()
      ((a @ quoted raw @ b @ '':'' @ c @ s @ d' @ '','' @ s') @ ''}'')
      (sum_list (map (\<lambda>m. tree_nodes (snd m)) ((k, t) # ms))) (shown m (es @ [OnEndObject]))"
    by (simp add: ev(4))
qed

theorem grammar_runs:
  "jvalue s t \<Longrightarrow> value_runs su s t"
  "jelements s ts \<Longrightarrow> \<forall>d m e. elements_run su d m e s ts"
  "jmembers s ms \<Longrightarrow> \<forall>d m e. members_run su d m e s ms"
proof (induction rule: jvalue_jelements_jmembers.inducts)
  case value_null
  show ?case by (rule keyword_runs) simp
next
  case value_true
  show ?case by (rule keyword_runs) simp
next
  case value_false
  show ?case by (rule keyword_runs) simp
next
  case (value_number tk f)
  then show ?case by (rule number_runs)
next
  case (value_string raw out)
  then show ?case by (rule string_runs)
next
  case (value_empty_array w)
  then have "elements_run su (Suc d) m False w []" for d m by (rule empty_yields)
  then show ?case by (rule array_runs)
next
  case (value_array s ts)
  have "elements_run su (Suc d) m False s ts" for d m using value_array(2) by blast
  then show ?case by (rule array_runs)
next
  case (value_empty_object w)
  then have "members_run su (Suc d) m False w []" for d m by (rule empty_yields)
  then show ?case by (rule object_runs)
next
  case (value_object s ms)
  have "members_run su (Suc d) m False s ms" for d m using value_object(2) by blast
  then show ?case by (rule object_runs)
next
  case element_last
  then show ?case using element_last_runs by blast
next
  case element_more
  then show ?case using element_more_runs by blast
next
  case member_last
  then show ?case using member_last_runs by blast
next
  case member_more
  then show ?case using member_more_runs by blast
qed

end
