(* ===== verification/Sax_Sound.thy ===== *)
theory Sax_Sound
  imports Sax_Correct
begin

section \<open>The SAX parser accepts documents only\<close>

text \<open>
  A parse that returns \<open>true\<close> has read a text of the grammar: what each function consumed, by
  induction over the parser. The bytes need only fit the input limit; the stream may break.
\<close>

definition steps :: "'h sax_setup \<Rightarrow> 'h SaxParser \<Rightarrow> 'h SaxParser \<Rightarrow> string \<Rightarrow> nat \<Rightarrow> bool" where
  "steps su st st1 p k \<longleftrightarrow> ahead st = p @ ahead st1 \<and> sx_nodeCount st1 = sx_nodeCount st + k
     \<and> (node_room su 0 st \<longrightarrow> node_room su 0 st1)"

lemma steps_trans:
  "steps su a b p k \<Longrightarrow> steps su b c q n \<Longrightarrow> steps su a c (p @ q) (k + n)"
  by (simp add: steps_def)

lemma steps_refl: "steps su st st [] 0"
  by (simp add: steps_def)

lemma peek_steps: "sax_peek st = (r, st1) \<Longrightarrow> steps su st st1 [] 0"
  using cur.peek_same [of "sx_cur st"]
  by (auto simp: sax_peek_def steps_def node_room_def split: prod.splits)

lemma getChar_steps: "getChar su st = (Some ch, st1) \<Longrightarrow> steps su st st1 [ch] 0"
  using getChar_shorter [of su st ch st1]
  by (auto simp: getChar_def steps_def node_room_def split: if_splits prod.splits)

lemma take_steps:
  "take_char su st = Inr (ch, st1) \<Longrightarrow> steps su st st1 [ch] 0"
  "take_or_fail su msg st = Inr (ch, st1) \<Longrightarrow> steps su st st1 [ch] 0"
  using getChar_steps [of su st ch st1]
  by (auto simp: take_char_def take_or_fail_def sax_fail_def split: prod.splits option.splits)

lemma expect_steps: "expect_char su want msg st = Inr (u, st1) \<Longrightarrow> steps su st st1 [want] 0"
  by (auto simp: expect_char_def sax_fail_def dest: take_steps split: if_splits)

lemma reserve_steps: "reserveNode su st = Inr (u, st1) \<Longrightarrow> steps su st st1 [] 1"
  by (auto simp: reserveNode_def sax_fail_def steps_def node_room_def split: if_splits)

lemma report_steps: "report su m event st = Inr (u, st1) \<Longrightarrow> steps su st st1 [] 0"
  by (auto simp: report_def dispatch_def steps_def node_room_def split: if_splits prod.splits sum.splits)

lemma skip_steps: "skipWhitespace su st = Inr (u, st1) \<Longrightarrow> \<exists>w. spaces w \<and> steps su st st1 w 0"
proof (induction su st rule: skipWhitespace.induct)
  case (1 su st)
  obtain r st2 where pk: "sax_peek st = (r, st2)" by (cases "sax_peek st")
  note p = peek_steps [OF pk]
  show ?case
  proof (cases "\<exists>ch. r = Some ch \<and> is_ws ch")
    case True
    then obtain ch where ch: "r = Some ch" "is_ws ch" by blast
    with "1.prems" pk obtain x st3 where g: "getChar su st2 = (Some x, st3)" "skipWhitespace su st3 = Inr (u, st1)"
      by (auto simp: skipWhitespace.simps [of su st] split: prod.splits option.splits)
    from "1.IH" [OF pk [symmetric] ch g(1) [symmetric] refl g(2)] obtain w where
      w: "spaces w" "steps su st3 st1 w 0" by blast
    have "x = ch" using getChar_steps [OF g(1)] peek_Some [of st ch st2] pk ch by (auto simp: steps_def)
    with w ch have "spaces (x # w)" by simp
    moreover have "steps su st st1 ([] @ [x] @ w) (0 + (0 + 0))"
      by (rule steps_trans [OF p steps_trans [OF getChar_steps [OF g(1)] w(2)]])
    ultimately show ?thesis by (intro exI [of _ "x # w"]) simp
  next
    case False
    with "1.prems" pk have "st1 = st2"
      by (auto simp: skipWhitespace.simps [of su st] sax_fail_def split: option.splits if_splits)
    with p show ?thesis by (intro exI [of _ "[]"]) simp
  qed
qed

lemma next_byte_steps:
  assumes "next_byte su msg st = Inr (ch, st1)"
  shows "\<exists>w r. spaces w \<and> steps su st st1 w 0 \<and> ahead st1 = ch # r"
proof -
  from assms obtain st2 where s: "skipWhitespace su st = Inr ((), st2)" "sax_peek st2 = (Some ch, st1)"
    by (auto simp: next_byte_iff)
  from skip_steps [OF s(1)] obtain w where "spaces w" "steps su st st2 w 0" by blast
  with steps_trans [OF this(2) peek_steps [OF s(2)]] peek_Some [OF s(2)] show ?thesis by auto
qed

text \<open>The limit is never in the way.\<close>

interpretation fitting: stable_under su "fits su" for su
proof
  fix st st0 :: "'a SaxParser" and message n h
  show "fits su st \<Longrightarrow> fits su (snd (sax_peek st))" using fits_peek [of su st] by (metis prod.collapse)
  show "fits su (snd (getChar su st))" if f: "fits su st"
  proof (cases "ahead st")
    case Nil
    with f cur.get_none [of "sx_cur st"] show ?thesis
      by (auto simp: fits_def getChar_def failAt_def split: prod.split)
  next
    case (Cons ch r)
    with fits_getChar [OF f this] show ?thesis by auto
  qed
qed (simp_all add: fits_def failAt_def)

lemma fits_Inr: "fits su (state_of r) \<Longrightarrow> r = Inr (a, st1) \<Longrightarrow> fits su st1"
  by simp

subsection \<open>Strings\<close>

lemma read_hex_steps:
  "read_hex su k n st = Inr (u, st1) \<Longrightarrow> \<exists>hs. length hs = k \<and> hex_loop hs n = Some u \<and> steps su st st1 hs 0"
proof (induction k arbitrary: n st)
  case 0
  then show ?case by (auto simp: steps_refl)
next
  case (Suc k)
  then obtain ch st2 d where t: "take_or_fail su msg_unicode_escape st = Inr (ch, st2)" "hex_digit ch = Some d"
    "read_hex su k (push_bit 4 n OR d) st2 = Inr (u, st1)"
    by (auto simp: sax_fail_def split: option.splits)
  from Suc.IH [OF t(3)] obtain hs where "length hs = k" "hex_loop hs (push_bit 4 n OR d) = Some u"
    "steps su st2 st1 hs 0" by blast
  with t(2) steps_trans [OF take_steps(2) [OF t(1)] this(3)] show ?case
    by (intro exI [of _ "ch # hs"]) simp
qed

lemma collect_steps:
  "collect_chars su k acc st = (hex, st1) \<Longrightarrow> \<exists>hs. hex = acc @ hs \<and> steps su st st1 hs 0 \<or> length hex < length acc + k"
proof (induction k arbitrary: acc st)
  case 0
  then show ?case by (auto simp: steps_refl)
next
  case (Suc k)
  obtain q st2 where g: "getChar su st = (q, st2)" by (cases "getChar su st")
  show ?case
  proof (cases q)
    case None
    with Suc.prems g show ?thesis by auto
  next
    case (Some ch)
    with Suc.prems g have "collect_chars su k (acc @ [ch]) st2 = (hex, st1)" by simp
    from Suc.IH [OF this] show ?thesis
      using steps_trans [OF getChar_steps [OF g [unfolded Some]]] by fastforce
  qed
qed

lemma sax_low_steps:
  assumes "sax_low su st = Inr (lo, st1)"
  shows "\<exists>l. length l = 4 \<and> hex4 l 0 = Some lo \<and> low_surrogate lo \<and> steps su st st1 (backslash # CHR ''u'' # l) 0"
proof -
  obtain q st2 where pk: "sax_peek st = (q, st2)" by (cases "sax_peek st")
  from assms pk have q: "q = Some backslash" by (auto simp: sax_low_def sax_fail_def split: if_splits)
  with assms pk obtain x st3 st4 hex where
    t: "take_or_fail su msg_unicode_escape st2 = Inr (x, st3)"
      "take_or_fail su msg_unicode_escape st3 = Inr (CHR ''u'', st4)"
      "collect_chars su 4 [] st4 = (hex, st1)" "low_unit hex = Some lo"
    by (auto simp: sax_low_def sax_fail_def split: if_splits prod.splits option.splits)
  have x: "x = backslash" using take_steps(2) [OF t(1)] peek_Some [of st backslash st2] pk q
    by (auto simp: steps_def)
  from t(4) have l: "length hex = 4" "hex4 hex 0 = Some lo" "low_surrogate lo" by (simp_all add: low_unit_iff)
  with collect_steps [OF t(3)] have "steps su st4 st1 hex 0" by auto
  with peek_steps [OF pk] take_steps(2) [OF t(1)] take_steps(2) [OF t(2)]
  have "steps su st st1 ([] @ [x] @ [CHR ''u''] @ hex) (0 + (0 + (0 + 0)))" by (intro steps_trans)
  with l x show ?thesis by auto
qed

lemma sax_unicode_steps:
  assumes "sax_unicode su out st = Inr (out', st1)"
  shows "\<exists>q b. steps su st st1 q 0 \<and> out' = out @ b \<and> jchar (backslash # CHR ''u'' # q) b"
proof -
  from assms obtain cp st2 where r: "readHex4 su st = Inr (cp, st2)"
    and run: "(if 0xD800 \<le> cp \<and> cp \<le> 0xDBFF then
         try_bind (sax_low su st2) (\<lambda>(low, st3).
           Inr (appendUtf8 (0x10000 + push_bit 10 (cp - 0xD800) + (low - 0xDC00)) out, st3))
       else if 0xDC00 \<le> cp \<and> cp \<le> 0xDFFF then sax_fail msg_low_surrogate st2
       else Inr (appendUtf8 cp out, st2)) = Inr (out', st1)"
    by (auto simp: sax_unicode_def)
  from read_hex_steps [OF r [unfolded readHex4_def]] obtain h where
    h: "length h = 4" "hex4 h 0 = Some cp" "steps su st st2 h 0" by (auto simp: hex4_def)
  show ?thesis
  proof (cases "high_surrogate cp")
    case True
    with run obtain lo where lo: "sax_low su st2 = Inr (lo, st1)"
      "out' = appendUtf8 (0x10000 + push_bit 10 (cp - 0xD800) + (lo - 0xDC00)) out"
      by (auto simp: high_surrogate_def)
    from sax_low_steps [OF lo(1)] obtain l where l: "length l = 4" "hex4 l 0 = Some lo" "low_surrogate lo"
      "steps su st2 st1 (backslash # CHR ''u'' # l) 0" by blast
    have v: "0x10000 + push_bit 10 (cp - 0xD800) + (lo - 0xDC00) = surrogate_pair cp lo"
      by (simp add: surrogate_pair_def push_bit_eq_mult)
    have "out' = out @ utf8 (surrogate_pair cp lo)"
      unfolding lo(2) v by (rule appendUtf8_utf8 [OF surrogate_pair_bound [OF True l(3)]])
    with char_pair [OF h(1,2) True l(1-3)] steps_trans [OF h(3) l(4)] show ?thesis
      by (intro exI [of _ "h @ backslash # CHR ''u'' # l"] exI [of _ "utf8 (surrogate_pair cp lo)"]) auto
  next
    case False
    have "cp < 65536" using hex4_less h(2) by blast
    with False run have s: "scalar_value cp" "out' = appendUtf8 cp out" "st1 = st2"
      by (auto simp: high_surrogate_def scalar_value_def sax_fail_def split: if_splits)
    have "out' = out @ utf8 cp" using s(2) \<open>cp < 65536\<close> appendUtf8_utf8 [of cp out] by simp
    with char_unicode [OF h(1,2) s(1)] h(3) s(3) show ?thesis by blast
  qed
qed

lemma utf8_bytes_steps:
  "utf8_bytes su k code out st = Inr ((cp, out'), st1) \<Longrightarrow>
    \<exists>cs. length cs = k \<and> utf8_tail cs code = Some cp \<and> out' = out @ cs \<and> steps su st st1 cs 0"
proof (induction k arbitrary: code out st)
  case 0
  then show ?case by (auto simp: steps_refl)
next
  case (Suc k)
  obtain p where "take_or_fail su msg_invalid_utf8 st = Inr p"
    using Suc.prems by (cases "take_or_fail su msg_invalid_utf8 st") (simp only: utf8_bytes.simps try_bind.simps sum.distinct, blast)
  then obtain ch st2 where t1: "take_or_fail su msg_invalid_utf8 st = Inr (ch, st2)" by (cases p) simp
  have run: "(if (byte ch AND 0xC0) \<noteq> 0x80 then Inl (Stopped, failHere msg_invalid_utf8 st2)
      else utf8_bytes su k (push_bit 6 code OR (byte ch AND 0x3F)) (out @ [ch]) st2) = Inr ((cp, out'), st1)"
    using Suc.prems unfolding utf8_bytes.simps t1 try_bind.simps prod.case sax_fail_def .
  have t2: "\<not> (byte ch AND 0xC0) \<noteq> 0x80"
  proof
    assume "(byte ch AND 0xC0) \<noteq> 0x80"
    from run [unfolded if_P [OF this]] show False by (rule sum.distinct(1) [THEN notE])
  qed
  note t = t1 t2 run [unfolded if_not_P [OF t2]]
  from Suc.IH [OF t(3)] obtain cs where cs: "length cs = k"
    "utf8_tail cs (push_bit 6 code OR (byte ch AND 0x3F)) = Some cp" "out' = (out @ [ch]) @ cs" "steps su st2 st1 cs 0"
    by (elim exE conjE) (rule that; assumption)
  have "utf8_tail (ch # cs) code = Some cp" using t(2) cs(2) by (simp only: utf8_tail.simps simp_thms if_False)
  moreover have "steps su st st1 ([ch] @ cs) (0 + 0)" by (rule steps_trans [OF take_steps(2) [OF t(1)] cs(4)])
  ultimately show ?case using cs(1,3)
    by (intro exI [of _ "ch # cs"]) (simp only: list.size append_Cons append_Nil append_assoc add_0 add_Suc_right simp_thms)
qed

lemma utf8_tail_steps:
  assumes "consumeUtf8Tail su x (out @ [x]) st = Inr (out', st1)"
  shows "\<exists>q. steps su st st1 q 0 \<and> out' = out @ x # q \<and> jchar (x # q) (x # q)"
proof -
  from assms obtain n code least where lead: "utf8_lead (byte x) = Some (n, code, least)"
    by (auto simp: consumeUtf8Tail_def sax_fail_def split: option.splits)
  with assms obtain cp st2 where b: "utf8_bytes su (n - 1) code (out @ [x]) st = Inr ((cp, out'), st1)"
    "least \<le> cp" "scalar_value cp"
    by (auto simp: consumeUtf8Tail_def sax_fail_def scalar_value_def split: if_splits)
  from utf8_bytes_steps [OF b(1)] obtain q where q: "length q = n - 1" "utf8_tail q code = Some cp"
    "out' = out @ x # q" "steps su st st1 q 0" by auto
  have "n = Suc (length q)" using q(1) utf8_lead_length [OF lead] by auto
  with lead q(2) b(2,3) have "utf8_sequence (x # q) = Some cp" by (simp add: utf8_sequence_def)
  then have "x # q = utf8 cp" "0x80 \<le> cp" by (simp_all add: utf8_sequence_iff)
  with char_utf8 [OF b(3)] q show ?thesis by auto
qed

lemma string_char_steps:
  assumes "string_char su x out st = Inr (out', st1)" "x \<noteq> dquote"
  shows "\<exists>q b. steps su st st1 q 0 \<and> out' = out @ b \<and> jchar (x # q) b"
proof -
  consider "x = backslash" | "x \<noteq> backslash" "0x80 \<le> byte x" | "plain_char x"
    using assms by (fastforce simp: string_char_def plain_char_def sax_fail_def)
  then show ?thesis
  proof cases
    case 1
    with assms obtain e st2 where t: "take_or_fail su msg_dangling_escape st = Inr (e, st2)"
      and run: "(case simple_escape e of Some d \<Rightarrow> Inr (out @ [d], st2)
          | None \<Rightarrow> if e = CHR ''u'' then sax_unicode su out st2 else sax_fail msg_invalid_escape st2)
        = Inr (out', st1)"
      by (auto simp: string_char_def)
    show ?thesis
    proof (cases "simple_escape e")
      case (Some d)
      with run char_escape [OF Some] take_steps(2) [OF t] 1 show ?thesis by auto
    next
      case None
      with run have e: "e = CHR ''u''" "sax_unicode su out st2 = Inr (out', st1)"
        by (auto simp: sax_fail_def split: if_splits)
      from sax_unicode_steps [OF e(2)] obtain q b where "steps su st2 st1 q 0" "out' = out @ b"
        "jchar (backslash # CHR ''u'' # q) b" by blast
      with steps_trans [OF take_steps(2) [OF t] this(1)] e(1) 1 show ?thesis by auto
    qed
  next
    case 2
    with assms have "consumeUtf8Tail su x (out @ [x]) st = Inr (out', st1)"
      by (auto simp: string_char_def sax_fail_def split: if_splits)
    from utf8_tail_steps [OF this] show ?thesis by auto
  next
    case 3
    with assms have "out' = out @ [x]" "st1 = st" by (auto simp: string_char_def plain_char_def)
    with char_plain [OF 3] steps_refl show ?thesis by auto
  qed
qed

lemma string_body_steps:
  "string_body su out st = Inr (s, st1) \<Longrightarrow>
    \<exists>raw b. steps su st st1 (raw @ [dquote]) 0 \<and> s = out @ b \<and> jchars raw b"
proof (induction su out st rule: string_body.induct)
  case (1 su out st)
  from "1.prems" obtain ch st2 where g: "getChar su st = (Some ch, st2)"
    by (subst (asm) string_body.simps) (auto simp: sax_fail_def split: prod.splits option.splits if_splits)
  show ?case
  proof (cases "ch = dquote")
    case True
    with "1.prems" g have "s = out" "st1 = st2" by (auto simp: string_body.simps [of su out st])
    with getChar_steps [OF g] True chars_end show ?thesis by (intro exI [of _ "[]"]) simp
  next
    case False
    with "1.prems" g obtain out' st3 where c: "string_char su ch out st2 = Inr (out', st3)"
      "string_body su out' st3 = Inr (s, st1)"
      by (subst (asm) string_body.simps) (auto split: sum.splits)
    from string_char_steps [OF c(1) False] obtain q b where
      q: "steps su st2 st3 q 0" "out' = out @ b" "jchar (ch # q) b" by blast
    from "1.IH" [OF g [symmetric] refl False c(1) refl c(2)] obtain raw bs where
      r: "steps su st3 st1 (raw @ [dquote]) 0" "s = out' @ bs" "jchars raw bs" by blast
    have "steps su st st1 ([ch] @ q @ raw @ [dquote]) (0 + (0 + 0))"
      by (rule steps_trans [OF getChar_steps [OF g] steps_trans [OF q(1) r(1)]])
    with chars_more [OF q(3) r(3)] q(2) r(2) show ?thesis
      by (intro exI [of _ "(ch # q) @ raw"] exI [of _ "b @ bs"]) simp
  qed
qed

lemma parseStringRaw_steps:
  assumes "parseStringRaw su st = Inr (s, st1)"
  shows "\<exists>raw. steps su st st1 (quoted raw) 0 \<and> jchars raw s"
proof -
  from assms obtain st2 where e: "expect_char su dquote msg_expected_string st = Inr ((), st2)"
    "string_body su [] st2 = Inr (s, st1)" by (auto simp: parseStringRaw_def)
  from string_body_steps [OF e(2)] obtain raw where "steps su st2 st1 (raw @ [dquote]) 0" "jchars raw s" by auto
  with steps_trans [OF expect_steps [OF e(1)] this(1)] show ?thesis by (auto simp: quoted_def)
qed

subsection \<open>Scalars\<close>

lemma steps_then: "steps su a b p k \<Longrightarrow> steps su b c [] n \<Longrightarrow> steps su a c p (k + n)"
  using steps_trans [of su a b p k c "[]" n] by simp

text \<open>What a value has consumed: white space and a text whose tree has events.\<close>

definition reads :: "'h sax_setup \<Rightarrow> nat \<Rightarrow> 'h SaxParser \<Rightarrow> 'h SaxParser \<Rightarrow> string \<Rightarrow> jtree \<Rightarrow> bool" where
  "reads su d st st1 s t \<longleftrightarrow> jvalue s t \<and> steps su st st1 s (tree_nodes t)
     \<and> tree_events (su_underflow su) (su_opts su) t \<noteq> None \<and> depth_room su (d + tree_depth t)"

lemma string_value_reads:
  assumes "parseStringValue su m st = Inr ((), st1)" "depth_room su d"
  shows "\<exists>s t. reads su d st st1 s t"
proof -
  from assms(1) obtain st2 s st3 where e: "reserveNode su st = Inr ((), st2)" "parseStringRaw su st2 = Inr (s, st3)"
    "report su m (OnString s) st3 = Inr ((), st1)" by (auto simp: parseStringValue_def)
  from parseStringRaw_steps [OF e(2)] obtain raw where r: "steps su st2 st3 (quoted raw) 0" "jchars raw s" by blast
  have "steps su st st1 (quoted raw) 1"
    using steps_trans [OF reserve_steps [OF e(1)] steps_then [OF r(1) report_steps [OF e(3)]]] by simp
  with value_string [OF r(2)] assms(2) show ?thesis unfolding reads_def
    by (intro exI [of _ "quoted raw"] exI [of _ "TString s"]) simp
qed

lemma literal_steps: "matchLiteral su lit st = Inr (u, st1) \<Longrightarrow> steps su st st1 lit 0"
proof (induction lit arbitrary: st)
  case Nil
  then show ?case by (simp add: steps_refl)
next
  case (Cons x lit)
  then obtain st2 where e: "expect_char su x msg_invalid_value st = Inr ((), st2)"
    "matchLiteral su lit st2 = Inr (u, st1)" by auto
  from steps_trans [OF expect_steps [OF e(1)] Cons.IH [OF e(2)]] show ?case by simp
qed

lemma literal_value_steps:
  assumes "literal_value su m lit event st = Inr ((), st1)"
  shows "steps su st st1 lit 1"
proof -
  from assms obtain st2 st3 where e: "matchLiteral su lit st = Inr ((), st2)" "reserveNode su st2 = Inr ((), st3)"
    "report su m event st3 = Inr ((), st1)" by (auto simp: literal_value_def)
  from steps_then [OF literal_steps [OF e(1)] steps_then [OF reserve_steps [OF e(2)] report_steps [OF e(3)]]]
  show ?thesis by simp
qed

lemma keyword_reads:
  assumes "parseKeywordValue su m st = Inr ((), st1)" "depth_room su d"
  shows "\<exists>s t. reads su d st st1 s t"
proof -
  obtain q st2 where pk: "sax_peek st = (q, st2)" by (cases "sax_peek st")
  have lit: "steps su st st1 lit 1" if "literal_value su m lit event st2 = Inr ((), st1)" for lit event
    using steps_trans [OF peek_steps [OF pk] literal_value_steps [OF that]] by simp
  from assms(1) pk have "literal_value su m ''null'' OnNull st2 = Inr ((), st1)
      \<or> literal_value su m ''true'' (OnBool True) st2 = Inr ((), st1)
      \<or> literal_value su m ''false'' (OnBool False) st2 = Inr ((), st1)"
    by (simp add: parseKeywordValue_def sax_fail_def split: option.splits if_splits)
  then show ?thesis
  proof (elim disjE)
    assume "literal_value su m ''null'' OnNull st2 = Inr ((), st1)"
    from lit [OF this] value_null assms(2) show ?thesis unfolding reads_def
      by (intro exI [of _ "''null''"] exI [of _ TNull]) simp
  next
    assume "literal_value su m ''true'' (OnBool True) st2 = Inr ((), st1)"
    from lit [OF this] value_true assms(2) show ?thesis unfolding reads_def
      by (intro exI [of _ "''true''"] exI [of _ "TBool True"]) simp
  next
    assume "literal_value su m ''false'' (OnBool False) st2 = Inr ((), st1)"
    from lit [OF this] value_false assms(2) show ?thesis unfolding reads_def
      by (intro exI [of _ "''false''"] exI [of _ "TBool False"]) simp
  qed
qed

lemma number_reads:
  assumes "parseNumberValue su m st = Inr ((), st1)" "depth_room su d" "fits su st"
  shows "\<exists>s t. reads su d st st1 s t"
proof -
  have s: "scanning su st st" by (rule scanning_self [OF assms(3)])
  show ?thesis
  proof (cases "text_number (ahead st)")
    case (Inl msg)
    with sax_number.number_scan [OF s] assms(1) show ?thesis
      by (auto simp: sax_number.rejects_def parseNumberValue_def sax_fail_def)
  next
    case (Inr p)
    obtain t f r where "p = ((t, f), r)" by (metis surj_pair)
    with Inr have n: "text_number (ahead st) = Inr ((t, f), r)" by simp
    from sax_number.number_scan [OF s] n obtain st2 where
      st2: "scanJsonNumber (sax_scanner su) st = Some (Inr ((t, f), st2))" "scanning su st st2" "ahead st2 = r"
      by (auto simp: sax_number.scans_def)
    note t = text_number_result [OF n]
    with st2 have m: "steps su st st2 t 0" by (simp add: steps_def scanning_def node_room_def)
    from assms(1) st2(1) obtain st3 where r: "reserveNode su st2 = Inr ((), st3)"
      by (auto simp: parseNumberValue_def)
    with assms(1) st2(1) obtain x where x:
      "convertNumberToken (su_underflow su) t f (po_numberPolicy (su_opts su)) = Inr x"
      by (auto simp: parseNumberValue_def sax_fail_def split: sum.splits)
    with r assms(1) st2(1) have "report su m (number_event x) st3 = Inr ((), st1)"
      by (simp add: parseNumberValue_def)
    from steps_then [OF m steps_then [OF reserve_steps [OF r] report_steps [OF this]]]
    have "steps su st st1 t (tree_nodes (TNumber t f))" by simp
    with t value_number [of t f] x assms(2) show ?thesis unfolding reads_def
      by (intro exI [of _ t] exI [of _ "TNumber t f"]) simp
  qed
qed

subsection \<open>Containers\<close>

definition reads_elements ::
    "'h sax_setup \<Rightarrow> nat \<Rightarrow> bool \<Rightarrow> bool \<Rightarrow> 'h SaxParser \<Rightarrow> 'h SaxParser \<Rightarrow> bool" where
  "reads_elements su d e a st st1 \<longleftrightarrow> (\<exists>s ts. steps su st st1 s (sum_list (map tree_nodes ts))
     \<and> rest_text (CHR '']'') jelements e a s ts \<and> elements_events (su_underflow su) (su_opts su) ts \<noteq> None
     \<and> (\<forall>t\<in>set ts. depth_room su (d + tree_depth t)))"

definition reads_members ::
    "'h sax_setup \<Rightarrow> nat \<Rightarrow> bool \<Rightarrow> bool \<Rightarrow> string list \<Rightarrow> 'h SaxParser \<Rightarrow> 'h SaxParser \<Rightarrow> bool" where
  "reads_members su d e a ks st st1 \<longleftrightarrow> (\<exists>s ms. steps su st st1 s (sum_list (map (\<lambda>m. tree_nodes (snd m)) ms))
     \<and> rest_text (CHR ''}'') jmembers e a s ms \<and> members_events (su_underflow su) (su_opts su) ms ks \<noteq> None
     \<and> (\<forall>x\<in>set ms. depth_room su (d + tree_depth (snd x))))"

definition reads_value :: "'h sax_setup \<Rightarrow> nat \<Rightarrow> 'h SaxParser \<Rightarrow> 'h SaxParser \<Rightarrow> bool" where
  "reads_value su d st st1 \<longleftrightarrow> (\<exists>w s t st2. spaces w \<and> steps su st st2 w 0 \<and> reads su d st2 st1 s t)"

lemma close_steps:
  assumes "sax_close su m event st = Inr ((), st1)" "ahead st = x # r"
  shows "steps su st st1 [x] 0"
proof -
  from assms(1) obtain ch st2 where e: "take_char su st = Inr (ch, st2)" "report su m event st2 = Inr ((), st1)"
    by (auto simp: sax_close_def)
  have "steps su st st1 [ch] 0" using steps_then [OF take_steps(1) [OF e(1)] report_steps [OF e(2)]] by simp
  with assms(2) show ?thesis by (auto simp: steps_def)
qed

lemma open_steps:
  assumes "sax_open su d m ch event st = Inr ((), st1)"
  shows "steps su st st1 [ch] 1 \<and> depth_room su d"
proof -
  from assms obtain st2 st3 where e: "reserveNode su st = Inr ((), st2)" "expect_char su ch msg_end_of_input st2 = Inr ((), st3)"
    "report su m event st3 = Inr ((), st1)" "depth_room su d"
    by (auto simp: sax_open_def sax_fail_def depth_room_def split: if_splits)
  with steps_trans [OF reserve_steps [OF e(1)] steps_then [OF expect_steps [OF e(2)] report_steps [OF e(3)]]]
  show ?thesis by simp
qed

lemma try_return:
  "try_bind m (\<lambda>(_ :: unit, st). Inr (x, st)) = Inr (y, st1) \<Longrightarrow> x = y \<and> m = Inr ((), st1)"
  by (cases m) auto

lemma member_steps:
  assumes "sax_member su m ks st = Inr ((ks', ev), st1)"
  shows "\<exists>raw k b. steps su st st1 (quoted raw @ b @ '':'') 0 \<and> jchars raw k \<and> spaces b
    \<and> ks' = member_seen (su_opts su) ks k
    \<and> \<not> (member_repeated (su_opts su) ks k \<and> po_duplicateKeys (su_opts su) = RejectDuplicateKeys)"
proof -
  from assms obtain k st2 st3 st4 where e: "parseStringRaw su st = Inr (k, st2)" "skipWhitespace su st2 = Inr ((), st3)"
    "expect_char su (CHR '':'') msg_expected_colon st3 = Inr ((), st4)"
    and run: "(let policy = po_duplicateKeys (su_opts su);
           duplicate = (policy \<noteq> KeepLastDuplicate \<and> k \<in> set ks);
           seen = (if \<not> duplicate \<and> policy \<noteq> KeepLastDuplicate then k # ks else ks);
           emitValue = (m \<and> \<not> (duplicate \<and> policy = KeepFirstDuplicate))
       in if duplicate \<and> policy = RejectDuplicateKeys then
            Inl (Stopped, failAt (cur_position (sx_cur st)) (cur_line (sx_cur st))
              (cur_column (sx_cur st)) msg_duplicate_key st4)
          else
            try_bind (report su emitValue (OnKey k) st4) (\<lambda>(_, st5). Inr ((seen, emitValue), st5)))
      = Inr ((ks', ev), st1)"
    unfolding sax_member_def by auto
  from parseStringRaw_steps [OF e(1)] obtain raw where r: "steps su st st2 (quoted raw) 0" "jchars raw k" by blast
  from skip_steps [OF e(2)] obtain b where b: "spaces b" "steps su st2 st3 b 0" by blast
  let ?rep = "po_duplicateKeys (su_opts su) \<noteq> KeepLastDuplicate \<and> k \<in> set ks"
  have ok: "\<not> (?rep \<and> po_duplicateKeys (su_opts su) = RejectDuplicateKeys)"
  proof
    assume "?rep \<and> po_duplicateKeys (su_opts su) = RejectDuplicateKeys"
    from run [unfolded Let_def if_P [OF this]] show False by simp
  qed
  from try_return [OF run [unfolded Let_def if_not_P [OF ok]]]
  have ev: "ev = (m \<and> \<not> (?rep \<and> po_duplicateKeys (su_opts su) = KeepFirstDuplicate))"
    and rep: "report su (m \<and> \<not> (?rep \<and> po_duplicateKeys (su_opts su) = KeepFirstDuplicate)) (OnKey k) st4 = Inr ((), st1)"
    and ks: "ks' = (if \<not> ?rep \<and> po_duplicateKeys (su_opts su) \<noteq> KeepLastDuplicate then k # ks else ks)"
    by blast+
  have seen: "ks' = member_seen (su_opts su) ks k"
    "\<not> (member_repeated (su_opts su) ks k \<and> po_duplicateKeys (su_opts su) = RejectDuplicateKeys)"
    using ks ok by (auto simp: member_seen_def member_repeated_def)
  from steps_trans [OF r(1) steps_trans [OF b(2) steps_then [OF expect_steps [OF e(3)] report_steps [OF rep]]]]
  have "steps su st st1 (quoted raw @ b @ '':'') 0" by simp
  with r b seen show ?thesis by blast
qed

subsection \<open>The turns of the loops\<close>

lemma steps_spaces: "steps su a b w 0 \<Longrightarrow> steps su b c p k \<Longrightarrow> steps su a c (w @ p) k"
  using steps_trans by fastforce

lemma elements_end:
  assumes "steps su st st1 w 0" "spaces w" "ahead st1 = CHR '']'' # r" "\<not> e"
    "sax_close su m event st1 = Inr ((), st2)"
  shows "reads_elements su d e a st st2"
  using steps_spaces [OF assms(1) close_steps [OF assms(5,3)]] rest_text_close [OF assms(4,2), of "CHR '']''" jelements a]
  unfolding reads_elements_def by (intro exI [of _ "w @ '']''"] exI [of _ "[]"]) simp

lemma members_end:
  assumes "steps su st st1 w 0" "spaces w" "ahead st1 = CHR ''}'' # r" "\<not> e"
    "sax_close su m event st1 = Inr ((), st2)"
  shows "reads_members su d e a ks st st2"
  using steps_spaces [OF assms(1) close_steps [OF assms(5,3)]] rest_text_close [OF assms(4,2), of "CHR ''}''" jmembers a]
  unfolding reads_members_def by (intro exI [of _ "w @ ''}''"] exI [of _ "[]"]) simp

lemma comma_steps:
  assumes "steps su st st1 w 0" "ahead st1 = x # r" "take_char su st1 = Inr (y, st2)"
  shows "steps su st st2 (w @ [x]) 0"
  using steps_trans [OF assms(1) take_steps(1) [OF assms(3)]] take_steps(1) [OF assms(3)] assms(2)
  by (simp add: steps_def)

lemma elements_next:
  assumes "steps su st st2 (w @ '','') 0" "spaces w" "reads_elements su d True True st2 st1"
  shows "reads_elements su d False True st st1"
proof -
  from assms(3) obtain s ts where s: "steps su st2 st1 s (sum_list (map tree_nodes ts))"
    "rest_text (CHR '']'') jelements True True s ts" "elements_events (su_underflow su) (su_opts su) ts \<noteq> None"
    "\<forall>t\<in>set ts. depth_room su (d + tree_depth t)" unfolding reads_elements_def by blast
  with steps_spaces [OF assms(1) s(1)] rest_text_comma [OF assms(2) s(2)] show ?thesis
    unfolding reads_elements_def by (intro exI [of _ "w @ CHR '','' # s"] exI [of _ ts]) simp
qed

lemma members_next:
  assumes "steps su st st2 (w @ '','') 0" "spaces w" "reads_members su d True True ks st2 st1"
  shows "reads_members su d False True ks st st1"
proof -
  from assms(3) obtain s ms where s: "steps su st2 st1 s (sum_list (map (\<lambda>m. tree_nodes (snd m)) ms))"
    "rest_text (CHR ''}'') jmembers True True s ms" "members_events (su_underflow su) (su_opts su) ms ks \<noteq> None"
    "\<forall>x\<in>set ms. depth_room su (d + tree_depth (snd x))" unfolding reads_members_def by blast
  with steps_spaces [OF assms(1) s(1)] rest_text_comma [OF assms(2) s(2)] show ?thesis
    unfolding reads_members_def by (intro exI [of _ "w @ CHR '','' # s"] exI [of _ ms]) simp
qed

lemma elements_turn:
  assumes "steps su st st1 w 0" "spaces w" "reads_value su d st1 st2" "reads_elements su d False True st2 st3"
  shows "reads_elements su d e e st st3"
proof -
  from assms(3) obtain v s t sta where v: "spaces v" "steps su st1 sta v 0" "reads su d sta st2 s t"
    unfolding reads_value_def by blast
  from assms(4) obtain q ts where q: "steps su st2 st3 q (sum_list (map tree_nodes ts))"
    "rest_text (CHR '']'') jelements False True q ts" "elements_events (su_underflow su) (su_opts su) ts \<noteq> None"
    "\<forall>t\<in>set ts. depth_room su (d + tree_depth t)" unfolding reads_elements_def by blast
  have r: "jvalue s t" "steps su sta st2 s (tree_nodes t)" "depth_room su (d + tree_depth t)"
    "tree_events (su_underflow su) (su_opts su) t \<noteq> None" using v(3) by (simp_all add: reads_def)
  have "steps su st st3 ((w @ v) @ s @ q) (tree_nodes t + sum_list (map tree_nodes ts))"
    using steps_spaces [OF assms(1) steps_spaces [OF v(2) steps_trans [OF r(2) q(1)]]] by simp
  moreover have "rest_text (CHR '']'') jelements e e ((w @ v) @ s @ q) (t # ts)"
    using rest_text_element [OF _ r(1) q(2), of "w @ v" e] assms(2) v(1) by simp
  moreover have "elements_events (su_underflow su) (su_opts su) (t # ts) \<noteq> None" using r(4) q(3) by auto
  ultimately show ?thesis unfolding reads_elements_def using r(3) q(4)
    by (intro exI [of _ "(w @ v) @ s @ q"] exI [of _ "t # ts"]) simp
qed

lemma members_events_Cons:
  assumes "tree_events uf opts t \<noteq> None" "members_events uf opts ms (member_seen opts ks k) \<noteq> None"
    "\<not> (member_repeated opts ks k \<and> po_duplicateKeys opts = RejectDuplicateKeys)"
  shows "members_events uf opts ((k, t) # ms) ks \<noteq> None"
proof -
  have "member_seen opts ks k =
      (if member_repeated opts ks k \<or> po_duplicateKeys opts = KeepLastDuplicate then ks else k # ks)"
    by (auto simp: member_seen_def member_repeated_def)
  with assms show ?thesis
    unfolding members_events.simps Let_def member_repeated_def [symmetric] by auto
qed

lemma members_turn:
  assumes "steps su st st1 w 0" "spaces w" "sax_member su m ks st1 = Inr ((ks', ev), st2)"
    "reads_value su d st2 st3" "reads_members su d False True ks' st3 st4"
  shows "reads_members su d e e ks st st4"
proof -
  from member_steps [OF assms(3)] obtain raw k b where k: "steps su st1 st2 (quoted raw @ b @ '':'') 0"
    "jchars raw k" "spaces b" "ks' = member_seen (su_opts su) ks k"
    "\<not> (member_repeated (su_opts su) ks k \<and> po_duplicateKeys (su_opts su) = RejectDuplicateKeys)" by blast
  from assms(4) obtain v s t sta where v: "spaces v" "steps su st2 sta v 0" "reads su d sta st3 s t"
    unfolding reads_value_def by blast
  from assms(5) obtain q ms where q: "steps su st3 st4 q (sum_list (map (\<lambda>m. tree_nodes (snd m)) ms))"
    "rest_text (CHR ''}'') jmembers False True q ms" "members_events (su_underflow su) (su_opts su) ms ks' \<noteq> None"
    "\<forall>x\<in>set ms. depth_room su (d + tree_depth (snd x))" unfolding reads_members_def by blast
  have r: "jvalue s t" "steps su sta st3 s (tree_nodes t)" "depth_room su (d + tree_depth t)"
    "tree_events (su_underflow su) (su_opts su) t \<noteq> None" using v(3) by (simp_all add: reads_def)
  let ?x = "w @ quoted raw @ b @ CHR '':'' # v @ s @ q"
  have "steps su st st4 ?x (tree_nodes t + sum_list (map (\<lambda>m. tree_nodes (snd m)) ms))"
    using steps_spaces [OF assms(1) steps_spaces [OF k(1) steps_spaces [OF v(2) steps_trans [OF r(2) q(1)]]]] by simp
  moreover have "rest_text (CHR ''}'') jmembers e e ?x ((k, t) # ms)"
    by (rule rest_text_member [OF assms(2) k(2,3) v(1) r(1) q(2)])
  moreover have "members_events (su_underflow su) (su_opts su) ((k, t) # ms) ks \<noteq> None"
    using members_events_Cons [OF r(4) q(3) [unfolded k(4)] k(5)] .
  ultimately show ?thesis unfolding reads_members_def using r(3) q(4)
    by (intro exI [of _ ?x] exI [of _ "(k, t) # ms"]) simp
qed

lemma container_reads:
  assumes "steps su st st1 [x] 1" "depth_room su (Suc d)"
  shows "x = CHR ''['' \<Longrightarrow> reads_elements su (Suc d) False False st1 st2 \<Longrightarrow> \<exists>s t. reads su d st st2 s t"
    and "x = CHR ''{'' \<Longrightarrow> reads_members su (Suc d) False False [] st1 st2 \<Longrightarrow> \<exists>s t. reads su d st st2 s t"
proof -
  show "\<exists>s t. reads su d st st2 s t"
    if x: "x = CHR ''[''" and r: "reads_elements su (Suc d) False False st1 st2"
  proof -
    from r obtain s ts where s: "steps su st1 st2 s (sum_list (map tree_nodes ts))"
      "rest_text (CHR '']'') jelements False False s ts" "elements_events (su_underflow su) (su_opts su) ts \<noteq> None"
      "\<forall>t\<in>set ts. depth_room su (Suc d + tree_depth t)" unfolding reads_elements_def by blast
    have "jvalue (CHR ''['' # s) (TArray ts)"
      using s(2) value_array value_empty_array by (auto simp: rest_text_def)
    moreover have "depth_room su (d + tree_depth (TArray ts))"
      using s(4) assms(2) depth_containers(1) [of d ts] unfolding depth_room_def by blast
    moreover have "steps su st st2 (CHR ''['' # s) (tree_nodes (TArray ts))"
      using steps_trans [OF assms(1) s(1)] x by simp
    ultimately show ?thesis unfolding reads_def using s(3)
      by (intro exI [of _ "CHR ''['' # s"] exI [of _ "TArray ts"]) simp
  qed
  show "\<exists>s t. reads su d st st2 s t"
    if x: "x = CHR ''{''" and r: "reads_members su (Suc d) False False [] st1 st2"
  proof -
    from r obtain s ms where s: "steps su st1 st2 s (sum_list (map (\<lambda>m. tree_nodes (snd m)) ms))"
      "rest_text (CHR ''}'') jmembers False False s ms" "members_events (su_underflow su) (su_opts su) ms [] \<noteq> None"
      "\<forall>x\<in>set ms. depth_room su (Suc d + tree_depth (snd x))" unfolding reads_members_def by blast
    have "jvalue (CHR ''{'' # s) (TObject ms)"
      using s(2) value_object value_empty_object by (auto simp: rest_text_def)
    moreover have "depth_room su (d + tree_depth (TObject ms))"
      using s(4) assms(2) depth_containers(2) [of d ms] unfolding depth_room_def by blast
    moreover have "steps su st st2 (CHR ''{'' # s) (tree_nodes (TObject ms))"
      using steps_trans [OF assms(1) s(1)] x by simp
    ultimately show ?thesis unfolding reads_def using s(3)
      by (intro exI [of _ "CHR ''{'' # s"] exI [of _ "TObject ms"]) simp
  qed
qed

text \<open>The limits stay open.\<close>

lemmas fits_next = fits_Inr [OF fitting.next_byte_stable]
lemmas fits_take = fits_Inr [OF fitting.take_char_stable]
lemmas fits_open = fits_Inr [OF fitting.sax_open_stable]
lemmas fits_member = fits_Inr [OF fitting.sax_member_stable]
lemmas fits_value = fits_Inr [OF fitting.parser_stable(1) [OF refl]]

subsection \<open>The parser\<close>

theorem parser_reads:
  "fits su st \<Longrightarrow> depth_room su d \<Longrightarrow> \<forall>st1. sax_parseValue su d m st = Inr ((), st1) \<longrightarrow> reads_value su d st st1"
  "fits su st \<Longrightarrow> \<forall>d' st1. d = Suc d' \<longrightarrow> sax_parseArray su d m st = Inr ((), st1) \<longrightarrow>
    (\<exists>s t. reads su d' st st1 s t)"
  "fits su st \<Longrightarrow> depth_room su d \<Longrightarrow> e \<longrightarrow> a \<Longrightarrow> \<forall>st1. sax_elements su d m e a st = Inr ((), st1) \<longrightarrow>
    reads_elements su d e a st st1"
  "fits su st \<Longrightarrow> \<forall>d' st1. d = Suc d' \<longrightarrow> sax_parseObject su d m st = Inr ((), st1) \<longrightarrow>
    (\<exists>s t. reads su d' st st1 s t)"
  "fits su st \<Longrightarrow> depth_room su d \<Longrightarrow> e \<longrightarrow> a \<Longrightarrow> \<forall>st1. sax_members su d m e a ks st = Inr ((), st1) \<longrightarrow>
    reads_members su d e a ks st st1"
proof (induction su d m st and su d m st and su d m e a st and su d m st and su d m e a ks st
    rule: sax_parseValue_sax_parseArray_sax_elements_sax_parseObject_sax_members.induct)
  case (1 su d m st)
  show ?case
  proof (intro allI impI)
    fix st2 assume p: "sax_parseValue su d m st = Inr ((), st2)"
    then obtain ch st1 where nb: "next_byte su msg_end_of_input st = Inr (ch, st1)"
      unfolding sax_parseValue.simps [of su d m st] by (auto split: sum.splits)
    from next_byte_steps [OF nb] obtain w where w: "spaces w" "steps su st st1 w 0" by blast
    have f: "fits su st1" by (rule fits_next [OF 1(3) nb])
    note run = p [unfolded sax_parseValue.simps [of su d m st] nb sum.case prod.case]
    have "\<exists>s t. reads su d st1 st2 s t"
      using run 1(1) [OF nb refl] 1(2) [OF nb refl] f string_value_reads [OF _ 1(4)] keyword_reads [OF _ 1(4)]
        number_reads [OF _ 1(4) f] by (auto split: if_splits)
    with w show "reads_value su d st st2" unfolding reads_value_def by blast
  qed
next
  case (2 su d m st)
  show ?case
  proof (intro allI impI)
    fix d' st2 assume d: "d = Suc d'" and p: "sax_parseArray su d m st = Inr ((), st2)"
    then obtain st1 where o: "sax_open su d m (CHR ''['') OnStartArray st = Inr ((), st1)"
      and run: "sax_elements su d m False False st1 = Inr ((), st2)"
      unfolding sax_parseArray.simps [of su d m st] by (auto split: sum.splits)
    from open_steps [OF o] have s: "steps su st st1 [CHR ''[''] 1" "depth_room su d" by simp_all
    from 2(1) [OF o refl fits_open [OF 2(2) o] s(2)] run have "reads_elements su d False False st1 st2" by simp
    with container_reads(1) [OF s(1) s(2) [unfolded d] refl] d show "\<exists>s t. reads su d' st st2 s t" by simp
  qed
next
  case (3 su d m e a st)
  show ?case
  proof (intro allI impI)
    fix st3 assume p: "sax_elements su d m e a st = Inr ((), st3)"
    then obtain ch st1 where nb: "next_byte su msg_array_unterminated st = Inr (ch, st1)"
      unfolding sax_elements.simps [of su d m e a st] by (auto split: sum.splits)
    from next_byte_steps [OF nb] obtain w r where w: "spaces w" "steps su st st1 w 0" "ahead st1 = ch # r" by blast
    have f: "fits su st1" by (rule fits_next [OF 3(4) nb])
    note run = p [unfolded sax_elements.simps [of su d m e a st] nb sum.case prod.case]
    note IH = 3(1-3) [OF nb refl]
    consider "ch = CHR '']''" | "ch = CHR '',''" | "ch \<noteq> CHR '']''" "ch \<noteq> CHR '',''" by blast
    then show "reads_elements su d e a st st3"
    proof cases
      case 1
      with run have "\<not> e" "sax_close su m OnEndArray st1 = Inr ((), st3)"
        by (auto simp: sax_fail_def split: if_splits)
      with elements_end [OF w(2,1)] w(3) 1 show ?thesis by blast
    next
      case 2
      with run obtain x st2 where t: "a" "\<not> e" "take_char su st1 = Inr (x, st2)"
        "sax_elements su d m True a st2 = Inr ((), st3)"
        by (auto simp: sax_fail_def split: if_splits sum.splits)
      have "steps su st st2 (w @ '','') 0" using comma_steps [OF w(2,3) t(3)] 2 by simp
      moreover have "reads_elements su d True a st2 st3"
        using IH(1) [OF _ 2 _ t(3) refl fits_take [OF f t(3)] \<open>depth_room su d\<close>] t(1,2,4) 2 by auto
      ultimately show ?thesis using elements_next w(1) t(1,2) by auto
    next
      case 3
      with run obtain st2 where t: "\<not> (a \<and> \<not> e)" "sax_parseValue su d m st1 = Inr ((), st2)"
        "sax_elements su d m False True st2 = Inr ((), st3)"
        by (auto simp: sax_fail_def split: if_splits sum.splits)
      have "reads_value su d st1 st2" using IH(2) [OF 3 t(1) f] \<open>depth_room su d\<close> t(2) by blast
      moreover have "reads_elements su d False True st2 st3"
        using IH(3) [OF 3 t(1,2) refl fits_value [OF f t(2)]] \<open>depth_room su d\<close> t(3) by blast
      ultimately have "reads_elements su d e e st st3" by (rule elements_turn [OF w(2,1)])
      with t(1) \<open>e \<longrightarrow> a\<close> show ?thesis by auto
    qed
  qed
next
  case (4 su d m st)
  show ?case
  proof (intro allI impI)
    fix d' st2 assume d: "d = Suc d'" and p: "sax_parseObject su d m st = Inr ((), st2)"
    then obtain st1 where o: "sax_open su d m (CHR ''{'') OnStartObject st = Inr ((), st1)"
      and run: "sax_members su d m False False [] st1 = Inr ((), st2)"
      unfolding sax_parseObject.simps [of su d m st] by (auto split: sum.splits)
    from open_steps [OF o] have s: "steps su st st1 [CHR ''{''] 1" "depth_room su d" by simp_all
    from 4(1) [OF o refl fits_open [OF 4(2) o] s(2)] run have "reads_members su d False False [] st1 st2" by simp
    with container_reads(2) [OF s(1) s(2) [unfolded d] refl] d show "\<exists>s t. reads su d' st st2 s t" by simp
  qed
next
  case (5 su d m e a ks st)
  show ?case
  proof (intro allI impI)
    fix st4 assume p: "sax_members su d m e a ks st = Inr ((), st4)"
    then obtain ch st1 where nb: "next_byte su msg_object_unterminated st = Inr (ch, st1)"
      unfolding sax_members.simps [of su d m e a ks st] by (auto split: sum.splits)
    from next_byte_steps [OF nb] obtain w r where w: "spaces w" "steps su st st1 w 0" "ahead st1 = ch # r" by blast
    have f: "fits su st1" by (rule fits_next [OF 5(4) nb])
    note run = p [unfolded sax_members.simps [of su d m e a ks st] nb sum.case prod.case]
    note IH = 5(1-3) [OF nb refl]
    consider "ch = CHR ''}''" | "ch = CHR '',''" | "ch \<noteq> CHR ''}''" "ch \<noteq> CHR '',''" by blast
    then show "reads_members su d e a ks st st4"
    proof cases
      case 1
      with run have "\<not> e" "sax_close su m OnEndObject st1 = Inr ((), st4)"
        by (auto simp: sax_fail_def split: if_splits)
      with members_end [OF w(2,1)] w(3) 1 show ?thesis by blast
    next
      case 2
      with run obtain x st2 where t: "a" "\<not> e" "take_char su st1 = Inr (x, st2)"
        "sax_members su d m True a ks st2 = Inr ((), st4)"
        by (auto simp: sax_fail_def split: if_splits sum.splits)
      have "steps su st st2 (w @ '','') 0" using comma_steps [OF w(2,3) t(3)] 2 by simp
      moreover have "reads_members su d True a ks st2 st4"
        using IH(1) [OF _ 2 _ t(3) refl fits_take [OF f t(3)] \<open>depth_room su d\<close>] t(1,2,4) 2 by auto
      ultimately show ?thesis using members_next w(1) t(1,2) by auto
    next
      case 3
      with run obtain ks' ev st2 st3 where q: "\<not> ch \<noteq> dquote" "\<not> (a \<and> \<not> e)"
        and t: "sax_member su m ks st1 = Inr ((ks', ev), st2)" "sax_parseValue su d ev st2 = Inr ((), st3)"
        "sax_members su d m False True ks' st3 = Inr ((), st4)"
        by (auto simp: sax_fail_def split: if_splits sum.splits)
      have f2: "fits su st2" by (rule fits_member [OF f t(1)])
      have "reads_value su d st2 st3" using IH(2) [OF 3 q t(1) refl refl f2] \<open>depth_room su d\<close> t(2) by blast
      moreover have "reads_members su d False True ks' st3 st4"
        using IH(3) [OF 3 q t(1) refl refl t(2) refl fits_value [OF f2 t(2)]] \<open>depth_room su d\<close> t(3) by blast
      ultimately have "reads_members su d e e ks st st4" by (rule members_turn [OF w(2,1) t(1)])
      with q(2) \<open>e \<longrightarrow> a\<close> show ?thesis by auto
    qed
  qed
qed

end
