(* ===== verification/Sax_Properties.thy ===== *)
theory Sax_Properties
  imports Sax_Sound Parser_Properties
begin

section \<open>Properties of the SAX parser\<close>

text \<open>
  Both directions put together for whole documents, for buffers and for streams, and what a parse
  that fails tells about the place.
\<close>

subsection \<open>Documents\<close>

text \<open>Whether a stream breaks is decided before the parse.\<close>

definition breaking :: "bool \<Rightarrow> 'h SaxParser \<Rightarrow> bool" where
  "breaking b st \<longleftrightarrow> cur_breaks (sx_cur st) = b"

interpretation breaking: stable_under su "breaking b" for su b
proof
  fix st st0 :: "'a SaxParser" and message n h
  show "breaking b st \<Longrightarrow> breaking b (snd (sax_peek st))"
    using cur.peek_same [of "sx_cur st"] by (simp add: breaking_def sax_peek_def case_prod_beta)
  show "breaking b st \<Longrightarrow> breaking b (snd (getChar su st))"
    using cur.get_breaks [of "sx_cur st"] by (auto simp: breaking_def getChar_def failAt_def case_prod_beta)
qed (simp_all add: breaking_def failAt_def)

text \<open>A document that the options allow, and its events.\<close>

definition presents :: "'h sax_setup \<Rightarrow> string \<Rightarrow> sax_event list \<Rightarrow> bool" where
  "presents su src events \<longleftrightarrow> (\<exists>t. jdocument src t \<and> within_limits (su_opts su) t
     \<and> tree_events (su_underflow su) (su_opts su) t = Some events)"

lemma yields_document:
  assumes "healthy su st" "ahead st = src" "sx_nodeCount st = 0" "presents su src events"
  shows "\<exists>k. yields su st (sax_document su st) () src k events"
proof -
  from assms(4) obtain a s b t where d: "src = a @ s @ b" "spaces a" "jvalue s t" "spaces b"
    "within_limits (su_opts su) t" "tree_events (su_underflow su) (su_opts su) t = Some events"
    unfolding presents_def jdocument_def by blast
  have v: "yields su st (sax_parseValue su 0 True st) () (a @ s) (tree_nodes t) (shown True events)"
    using assms d number_end_spaces(2) [OF d(4)]
    by (intro value_runsD [OF grammar_runs(1) [OF d(3)]])
      (auto simp: within_limits_def node_room_def depth_room_def)
  have last: "yields su st2 (let limit = po_maxInputBytes (su_opts su)
       in case sax_peek st2 of (None, st3) \<Rightarrow> sax_failed st3
          | (Some _, st3) \<Rightarrow>
              if limit \<noteq> 0 \<and> cur_position (sx_cur st2) \<ge> limit
              then Inl (Stopped, failAt limit (cur_line (sx_cur st3)) (cur_column (sx_cur st3))
                     msg_input_limit st3)
              else sax_fail msg_trailing_characters st3) () [] 0 []"
    if "healthy su st2" "ahead st2 = []" for st2
  proof (cases "sax_peek st2")
    case (Pair r st3)
    from healthy_peek [OF that(1) Pair] that(2) show ?thesis
      by (simp add: Pair Let_def sax_failed_def yields_def)
  qed
  have "yields su st1 (try_bind (skipWhitespace su st1) (\<lambda>(_, st2).
      let limit = po_maxInputBytes (su_opts su)
       in case sax_peek st2 of (None, st3) \<Rightarrow> sax_failed st3
          | (Some _, st3) \<Rightarrow>
              if limit \<noteq> 0 \<and> cur_position (sx_cur st2) \<ge> limit
              then Inl (Stopped, failAt limit (cur_line (sx_cur st3)) (cur_column (sx_cur st3))
                     msg_input_limit st3)
              else sax_fail msg_trailing_characters st3)) () b 0 []"
    if "healthy su st1" "ahead st1 = b" for st1
  proof (rule yields_then [OF skip_next [of su st1 b "[]"], where r = "[]"])
    fix st2 assume "healthy su st2" "ahead st2 = []"
    from last [OF this] show "yields su st2 (case ((), st2) of (_, st2) \<Rightarrow>
      let limit = po_maxInputBytes (su_opts su)
       in case sax_peek st2 of (None, st3) \<Rightarrow> sax_failed st3
          | (Some _, st3) \<Rightarrow>
              if limit \<noteq> 0 \<and> cur_position (sx_cur st2) \<ge> limit
              then Inl (Stopped, failAt limit (cur_line (sx_cur st3)) (cur_column (sx_cur st3))
                     msg_input_limit st3)
              else sax_fail msg_trailing_characters st3) () [] 0 []"
      by (simp only: prod.case)
  qed (use that d(4) in simp_all)
  note rest = this
  have "yields su st (sax_document su st) () ((a @ s) @ b) (tree_nodes t + 0) (events @ [])"
    unfolding sax_document_def
    by (rule yields_then [OF v, where r = b and ?p2.0 = b and ?k2.0 = 0 and ?e2.0 = "[]"])
      (use rest assms(2) d(1) in simp_all)
  with d(1) show ?thesis by auto
qed

lemma document_reads:
  assumes "sax_document su st = Inr ((), st1)" "fits su st" "sx_nodeCount st = 0" "ahead st = src"
  shows "(\<exists>events. presents su src events) \<and> \<not> cur_breaks (sx_cur st)"
proof -
  from assms(1) obtain st2 st3 where v: "sax_parseValue su 0 True st = Inr ((), st2)"
    and w: "skipWhitespace su st2 = Inr ((), st3)"
    and run: "(let limit = po_maxInputBytes (su_opts su)
       in case sax_peek st3 of (None, st4) \<Rightarrow> sax_failed st4
          | (Some _, st4) \<Rightarrow>
              if limit \<noteq> 0 \<and> cur_position (sx_cur st3) \<ge> limit
              then Inl (Stopped, failAt limit (cur_line (sx_cur st4)) (cur_column (sx_cur st4))
                     msg_input_limit st4)
              else sax_fail msg_trailing_characters st4) = Inr ((), st1)"
    unfolding sax_document_def try_bind_Inr_iff by auto
  obtain r st4 where pk: "sax_peek st3 = (r, st4)" by (cases "sax_peek st3")
  from run pk have r: "r = None" and nf: "\<not> cur_failed (sx_cur st4)"
    by (auto simp: Let_def sax_fail_def sax_failed_def split: option.splits if_splits)
  have "depth_room su 0" by (simp add: depth_room_def)
  with parser_reads(1) [OF assms(2)] v have "reads_value su 0 st st2" by blast
  then obtain a s t sta where a: "spaces a" "steps su st sta a 0" "reads su 0 sta st2 s t"
    unfolding reads_value_def by blast
  from skip_steps [OF w] obtain b where b: "spaces b" "steps su st2 st3 b 0" by blast
  have end3: "ahead st3 = []" "cur_breaks (sx_cur st3) = cur_failed (sx_cur st4)"
    using pk r cur.peek_result [of "sx_cur st3"] cur.peek_none [of "sx_cur st3"]
    by (auto simp: sax_peek_def split: prod.splits list.splits)
  have "breaking (cur_breaks (sx_cur st)) (state_of (sax_parseValue su 0 True st))"
    by (rule breaking.parser_stable(1)) (simp_all add: breaking_def)
  then have "breaking (cur_breaks (sx_cur st)) (state_of (skipWhitespace su st2))"
    using v by (intro breaking.skipWhitespace_stable) simp
  with w nf end3(2) have nb: "\<not> cur_breaks (sx_cur st)" by (simp add: breaking_def)
  have rd: "jvalue s t" "steps su sta st2 s (tree_nodes t)" "depth_room su (tree_depth t)"
    "tree_events (su_underflow su) (su_opts su) t \<noteq> None" using a(3) by (simp_all add: reads_def)
  have st: "steps su st st3 (a @ s @ b) (tree_nodes t)"
    using steps_spaces [OF a(2) steps_then [OF rd(2)]] steps_trans [OF a(2) steps_trans [OF rd(2) b(2)]] by simp
  then have "src = a @ s @ b" using assms(4) end3(1) by (simp add: steps_def)
  then have "jdocument src t" using a(1) b(1) rd(1) unfolding jdocument_def by blast
  moreover have "within_limits (su_opts su) t"
    using st rd(3) assms(3) by (auto simp: within_limits_def depth_room_def steps_def node_room_def)
  ultimately show ?thesis using rd(4) nb unfolding presents_def by blast
qed

lemma document_ends:
  assumes "sax_document su st = Inr ((), st1)"
  shows "ahead st1 = []"
proof -
  from assms obtain st3 where
    run: "(let limit = po_maxInputBytes (su_opts su)
       in case sax_peek st3 of (None, st4) \<Rightarrow> sax_failed st4
          | (Some _, st4) \<Rightarrow>
              if limit \<noteq> 0 \<and> cur_position (sx_cur st3) \<ge> limit
              then Inl (Stopped, failAt limit (cur_line (sx_cur st4)) (cur_column (sx_cur st4))
                     msg_input_limit st4)
              else sax_fail msg_trailing_characters st4) = Inr ((), st1)"
    unfolding sax_document_def try_bind_Inr_iff by auto
  obtain r st4 where pk: "sax_peek st3 = (r, st4)" by (cases "sax_peek st3")
  with run have "r = None" "st1 = st4"
    by (auto simp: Let_def sax_fail_def sax_failed_def split: option.splits if_splits)
  with pk peek_same [OF pk] cur.peek_result [of "sx_cur st3"] show ?thesis
    by (auto simp: sax_peek_def split: prod.splits list.splits)
qed

subsection \<open>Results\<close>

lemma start_fields:
  "ahead (sax_parser (BufferCursor (buffer_cursor src)) h) = src"
  "ahead (sax_parser (StreamCursor (stream_cursor input)) h) = stream_bytes input"
  "sx_handler (sax_parser c h) = h" "sx_nodeCount (sax_parser c h) = 0"
  "sx_err (sax_parser c h) = resetParseError" "sx_cur (sax_parser c h) = c"
  "cur_breaks (StreamCursor (stream_cursor input)) = breaks_off input"
  by (auto simp: sax_parser_def buffer_cursor_def buffer_rest_def stream_cursor_def stream_rest_def
      stream_bytes_def stream_breaks_def split: option.splits)

lemma start_position:
  "cur_position (sx_cur (sax_parser (BufferCursor (buffer_cursor src)) h)) = 0"
  "cur_position (sx_cur (sax_parser (StreamCursor (stream_cursor input)) h)) = 0"
  by (simp_all add: sax_parser_def buffer_cursor_def stream_cursor_def)

lemma fits_start:
  "fits su (sax_parser (BufferCursor (buffer_cursor src)) h) \<longleftrightarrow>
    po_maxInputBytes (su_opts su) = 0 \<or> length src \<le> po_maxInputBytes (su_opts su)"
  "fits su (sax_parser (StreamCursor (stream_cursor input)) h) \<longleftrightarrow>
    po_maxInputBytes (su_opts su) = 0 \<or> length (stream_bytes input) \<le> po_maxInputBytes (su_opts su)"
  unfolding fits_def start_fields(1,2) start_position by simp_all

lemma reset_start: "sax_parser c h\<lparr>sx_err := resetParseError\<rparr> = sax_parser c h"
  by (simp add: sax_parser_def)

text \<open>A parse that is left by the handler, and its error.\<close>

fun refusal :: "sax_exit \<Rightarrow> 'h SaxParser \<Rightarrow> 'h SaxParser" where
  "refusal Stopped st = st"
| "refusal Cancelled st = failNoThrow msg_sax_aborted CallbackError st"
| "refusal (Threw e) st =
     (if e = bad_alloc then failNoThrow msg_sax_memory Parse_AllocationFailure st
      else failNoThrow msg_sax_exception CallbackError st)"

lemma parseDocument_cases:
  "parseDocument su (sax_parser c h) =
    (case sax_document su (sax_parser c h) of
       Inr (_, st) \<Rightarrow> (True, st)
     | Inl (exit, st) \<Rightarrow> (False, refusal exit st))"
  by (auto simp: parseDocument_def reset_start split: sum.split sax_exit.split)

text \<open>The document \<open>c\<close> holds: what is ahead, whether it fits and is delivered whole.\<close>

lemma parseDocument_true:
  assumes "cur_position c = 0"
  shows "parseDocument su (sax_parser c h) = (True, st) \<and> sx_handler st = h' \<and> sx_err st = er
      \<and> fits su (sax_parser c h) \<longleftrightarrow>
    parseDocument su (sax_parser c h) = (True, st) \<and> er = resetParseError \<and> healthy su (sax_parser c h)
      \<and> (\<exists>events. presents su (cur_rest c) events \<and> deliver (su_handler su) events h = Inr h')"
proof -
  have "er = resetParseError \<and> healthy su (sax_parser c h)
      \<and> (\<exists>events. presents su (cur_rest c) events \<and> deliver (su_handler su) events h = Inr h')
      \<longleftrightarrow> sx_handler st = h' \<and> sx_err st = er \<and> fits su (sax_parser c h)"
    if p: "parseDocument su (sax_parser c h) = (True, st)"
  proof -
    from p have d: "sax_document su (sax_parser c h) = Inr ((), st)"
      unfolding parseDocument_cases by (auto split: sum.splits)
    have out: "deliver (su_handler su) events h = Inr (sx_handler st) \<and> sx_err st = resetParseError"
      if "healthy su (sax_parser c h)" "presents su (cur_rest c) events" for events
      using yields_document [OF that(1) _ _ that(2)] d
      by (cases "deliver (su_handler su) events h") (auto simp: yields_def start_fields(3-6))
    have "healthy su (sax_parser c h) \<and> (\<exists>events. presents su (cur_rest c) events)"
      if "fits su (sax_parser c h)"
      using document_reads [OF d that _ refl] that by (simp add: start_fields(3-6) healthy_def)
    with out show ?thesis by (auto simp: healthy_def)
  qed
  then show ?thesis by blast
qed

text \<open>A handler that refuses an event of a document leaves the parse there.\<close>

lemma parseDocument_refused:
  assumes "healthy su (sax_parser c h)" "presents su (cur_rest c) events"
    "deliver (su_handler su) events h = Inl (x, h')"
  shows "\<exists>st. parseDocument su (sax_parser c h) = (False, refusal x st) \<and> sx_handler st = h'"
  using yields_document [OF assms(1) _ _ assms(2)] assms(3)
  by (auto simp: yields_def start_fields(3-6) parseDocument_cases)

lemma refusal_handler [simp]: "sx_handler (refusal x st) = sx_handler st"
  by (cases "(x, st)" rule: refusal.cases) (simp_all add: failNoThrow_def)

lemma deliver_not_stopped: "deliver handler events h \<noteq> Inl (Stopped, h')"
  by (induction events arbitrary: h) (auto split: prod.splits sum.splits if_splits)

lemma refusal_code:
  "deliver handler events h = Inl (x, h') \<Longrightarrow> \<not> er_ok (sx_err (refusal x st))
    \<and> (er_code (sx_err (refusal x st)) = CallbackError \<or> x = Threw bad_alloc \<and> er_code (sx_err (refusal x st)) = Parse_AllocationFailure)"
  using deliver_not_stopped [of handler events h h'] by (cases x) (auto simp: failNoThrow_def)

text \<open>The same documents are accepted as by the DOM parser.\<close>

lemma events_defined:
  "tree_events uf opts t = None \<longleftrightarrow> tree_value uf opts t = None"
  "elements_events uf opts ts = None \<longleftrightarrow> tree_elements uf opts ts = None"
  "(po_duplicateKeys opts \<noteq> KeepLastDuplicate \<longrightarrow> set ks = dom (map_of vs)) \<Longrightarrow>
    members_events uf opts ms ks = None \<longleftrightarrow> tree_members uf opts ms vs = None"
proof (induction uf opts t and uf opts ts and uf opts ms vs arbitrary: and and ks
    rule: tree_value_tree_elements_tree_members.induct)
  case (6 uf opts ms)
  have "po_duplicateKeys opts \<noteq> KeepLastDuplicate \<longrightarrow> set ([] :: string list) = dom (map_of [])" by simp
  from 6 [OF this] show ?case by simp
next
  case (8 uf opts t ts)
  then show ?case by (cases "tree_value uf opts t"; cases "tree_events uf opts t") auto
next
  case (10 uf opts k t ts ms)
  let ?last = "po_duplicateKeys opts = KeepLastDuplicate"
  have rep: "(\<not> ?last \<and> k \<in> set ks) = (\<not> ?last \<and> map_of ms k \<noteq> None)" using 10(3) by auto
  show ?case
  proof (cases "map_of ms k \<noteq> None \<and> po_duplicateKeys opts = RejectDuplicateKeys")
    case True
    with rep show ?thesis by (auto simp: Let_def)
  next
    case False
    let ?ks = "if (\<not> ?last \<and> k \<in> set ks) \<or> ?last then ks else k # ks"
    have ks: "\<not> ?last \<longrightarrow> set ?ks = dom (map_of (store_member (po_duplicateKeys opts) k v ms))" for v
      using 10(3) rep False
      by (cases "po_duplicateKeys opts") (auto simp: store_member_def update_conv' split: if_splits)
    have "\<not> ((\<not> ?last \<and> k \<in> set ks) \<and> po_duplicateKeys opts = RejectDuplicateKeys)" using rep False by auto
    with 10(1) [OF False] 10(2) [OF False _ ks] False show ?thesis
      by (cases "tree_value uf opts t"; cases "tree_events uf opts t") (auto simp: Let_def)
  qed
qed (auto split: sum.split)

lemma presents_value:
  "(\<exists>events. presents su src events) \<longleftrightarrow>
    (\<exists>t v. jdocument src t \<and> within_limits (su_opts su) t \<and> tree_value (su_underflow su) (su_opts su) t = Some v)"
  unfolding presents_def using events_defined(1) by (metis not_None_eq)

subsection \<open>Buffers and streams\<close>

lemma sax_top_true:
  "parseSaxTop su (Some src) h = (True, h', er) \<longleftrightarrow> er = resetParseError
    \<and> (po_maxInputBytes (su_opts su) = 0 \<or> length src \<le> po_maxInputBytes (su_opts su))
    \<and> (\<exists>events. presents su src events \<and> deliver (su_handler su) events h = Inr h')"
proof -
  let ?c = "BufferCursor (buffer_cursor src)"
  have src: "cur_rest ?c = src" "cur_position ?c = 0" "\<not> cur_breaks ?c"
    by (simp_all add: buffer_cursor_def buffer_rest_def)
  have run: "parseSaxTop su (Some src) h = (True, h', er) \<longleftrightarrow> fits su (sax_parser ?c h)
      \<and> (\<exists>st. parseDocument su (sax_parser ?c h) = (True, st) \<and> sx_handler st = h' \<and> sx_err st = er)"
    by (auto simp: parseSaxTop_def fits_start Let_def linorder_not_less split: prod.splits)
  have whole: "\<exists>st. parseDocument su (sax_parser ?c h) = (True, st)"
    if "healthy su (sax_parser ?c h)" "presents su src events" "deliver (su_handler su) events h = Inr h'" for events
    using yields_document [OF that(1) _ _ that(2)] that(3) src(1)
    by (auto simp: yields_def start_fields(3-6) parseDocument_cases)
  have "healthy su (sax_parser ?c h) \<longleftrightarrow> fits su (sax_parser ?c h)"
    using src(3) by (simp add: healthy_def start_fields(6))
  then show ?thesis
    unfolding run using parseDocument_true [OF src(2), of su h _ h' er] whole src(1) fits_start(1) [of su src h] by metis
qed

lemma sax_stream_true:
  "parseSaxStream su input h = (True, h', er) \<longleftrightarrow> er = resetParseError \<and> \<not> breaks_off input
    \<and> (po_maxInputBytes (su_opts su) = 0 \<or> length (stream_bytes input) \<le> po_maxInputBytes (su_opts su))
    \<and> (\<exists>events. presents su (stream_bytes input) events \<and> deliver (su_handler su) events h = Inr h')"
proof -
  let ?c = "StreamCursor (stream_cursor input)" and ?src = "stream_bytes input"
  have src: "cur_rest ?c = ?src" "cur_position ?c = 0" "cur_breaks ?c = breaks_off input"
    using start_fields(2,7) by (simp_all add: start_fields(6) stream_cursor_def)
  have fits: "fits su (sax_parser ?c h)" if p: "parseDocument su (sax_parser ?c h) = (True, st)" for st
  proof -
    from p have d: "sax_document su (sax_parser ?c h) = Inr ((), st)"
      unfolding parseDocument_cases by (auto split: sum.splits)
    from parseDocument_tracked [OF p start_tracked(2)] have t: "tracked su ?src st" by simp
    have "ahead st = []" by (rule document_ends [OF d])
    with t have "?src = take (cur_position (sx_cur st)) ?src" by (simp add: tracked_def)
    then have "length ?src \<le> cur_position (sx_cur st)" by (metis take_all_iff)
    with t show ?thesis unfolding fits_start by (auto simp: tracked_def)
  qed
  have run: "parseSaxStream su input h = (True, h', er) \<longleftrightarrow> fits su (sax_parser ?c h)
      \<and> (\<exists>st. parseDocument su (sax_parser ?c h) = (True, st) \<and> sx_handler st = h' \<and> sx_err st = er)"
    using fits by (auto simp: parseSaxStream_def split: prod.splits)
  have whole: "\<exists>st. parseDocument su (sax_parser ?c h) = (True, st)"
    if "healthy su (sax_parser ?c h)" "presents su ?src events" "deliver (su_handler su) events h = Inr h'" for events
    using yields_document [OF that(1) _ _ that(2)] that(3) src(1)
    by (auto simp: yields_def start_fields(3-6) parseDocument_cases)
  have "healthy su (sax_parser ?c h) \<longleftrightarrow> fits su (sax_parser ?c h) \<and> \<not> breaks_off input"
    using src(3) by (simp add: healthy_def start_fields(6))
  then show ?thesis
    unfolding run using parseDocument_true [OF src(2), of su h _ h' er] whole src(1) fits_start(2) [of su input h] by metis
qed

text \<open>The same texts as the DOM parser, for a handler that refuses nothing.\<close>

lemma deliver_accepting:
  "(\<And>event h. fst (handler event h) = Inr True) \<Longrightarrow> \<exists>h'. deliver handler events h = Inr h'"
proof (induction events arbitrary: h)
  case (Cons event events)
  obtain r h1 where "handler event h = (r, h1)" by (cases "handler event h")
  with Cons show ?case by (metis (mono_tags, lifting) deliver.simps(2) fst_conv old.prod.case old.sum.simps(6))
qed simp

lemma sax_accepts_dom:
  assumes "\<And>event h. fst (su_handler su event h) = Inr True"
  shows "(\<exists>h' er. parseSaxTop su (Some src) h = (True, h', er)) \<longleftrightarrow>
    er_ok (snd (parser_parse (su_underflow su) (su_opts su) src))"
proof -
  let ?p = "parser_parse (su_underflow su) (su_opts su) src"
  let ?fits = "po_maxInputBytes (su_opts su) = 0 \<or> length src \<le> po_maxInputBytes (su_opts su)"
  have acc: "\<exists>h'. deliver (su_handler su) events h = Inr h'" for events
    by (rule deliver_accepting [OF assms])
  have "(\<exists>h' er. parseSaxTop su (Some src) h = (True, h', er)) \<longleftrightarrow> ?fits \<and> (\<exists>events. presents su src events)"
    unfolding sax_top_true using acc by fast
  also have "\<dots> \<longleftrightarrow> (\<exists>v. ?fits \<and> (\<exists>t. jdocument src t \<and> within_limits (su_opts su) t
      \<and> tree_value (su_underflow su) (su_opts su) t = Some v))"
    unfolding presents_value by fast
  also have "\<dots> \<longleftrightarrow> (\<exists>v. ?fits \<and> (\<exists>c. parseValue (su_underflow su) (initial_context src (su_opts su)) = Inr (v, c)
      \<and> spaces (rest c)))"
    using value_sound [of "su_underflow su" src "su_opts su"] value_complete [of src _ "su_opts su" "su_underflow su"]
    by (intro ex_cong1 conj_cong refl iffI) (elim exE conjE; simp; fail)+
  also have "\<dots> \<longleftrightarrow> (\<exists>v er. ?p = (v, er) \<and> er_ok er)"
    unfolding parse_success by fast
  also have "\<dots> \<longleftrightarrow> er_ok (snd ?p)" by (cases ?p) auto
  finally show ?thesis .
qed

subsection \<open>A sample\<close>

text \<open>A handler that records the events and refuses the one after \<open>n\<close>.\<close>

definition recorder :: "nat \<Rightarrow> sax_event list sax_handler" where
  "recorder n event h = (Inr (length h < n), h @ [event])"

definition sample_setup :: "nat \<Rightarrow> sax_event list sax_setup" where
  "sample_setup n = \<lparr>su_opts = default_parser_options, su_handler = recorder n, su_underflow = True\<rparr>"

text \<open>The same with a byte limit.\<close>

definition tiny_setup :: "nat \<Rightarrow> sax_event list sax_setup" where
  "tiny_setup n =
     \<lparr>su_opts = default_parser_options\<lparr>po_maxInputBytes := n\<rparr>, su_handler = recorder 100, su_underflow = True\<rparr>"

lemma sample_presents:
  "presents (sample_setup n) ''[true]'' [OnStartArray, OnBool True, OnEndArray]"
  unfolding presents_def
  by (intro exI [of _ "TArray [TBool True]"] conjI sample_document)
    (simp_all add: sample_setup_def within_limits_def default_parser_options_def clampParseDepth_def DepthHardLimit_def)

subsection \<open>The properties\<close>

text \<open>C32: The SAX parser returns \<open>true\<close> on exactly the documents of the JSON grammar that stay
  within the input, depth and node limits and whose numbers and repeated names the policies allow,
  when the handler accepts every event; the handler has then seen exactly the events the document
  stands for, in order, without those of repeated members that are dropped.\<close>

theorem sax_refines_grammar:
  "parseSaxTop su (Some src) h = (True, h', er) \<longleftrightarrow> er = resetParseError
    \<and> (po_maxInputBytes (su_opts su) = 0 \<or> length src \<le> po_maxInputBytes (su_opts su))
    \<and> (\<exists>t events. jdocument src t \<and> within_limits (su_opts su) t
        \<and> tree_events (su_underflow su) (su_opts su) t = Some events
        \<and> deliver (su_handler su) events h = Inr h')"
  unfolding sax_top_true presents_def by blast

text \<open>C33: A stream is accepted exactly when it does not break and the buffer of its bytes is
  accepted, and the handler ends in the same state; a stream beyond the byte limit is never
  accepted.\<close>

theorem sax_stream_as_buffer:
  "parseSaxStream su input h = (True, h', er) \<longleftrightarrow>
    \<not> breaks_off input \<and> parseSaxTop su (Some (stream_bytes input)) h = (True, h', er)"
  unfolding sax_stream_true sax_top_true by blast

text \<open>C34: A handler that answers \<open>false\<close>, or throws, on an event of an acceptable document ends the
  parse with \<open>false\<close>: it has seen the events up to that one and no other, and the error is a
  callback error, or an allocation failure when it threw \<open>bad_alloc\<close>.\<close>

theorem sax_handler_refuses:
  assumes "jdocument src t" "within_limits (su_opts su) t"
    "tree_events (su_underflow su) (su_opts su) t = Some events"
    "po_maxInputBytes (su_opts su) = 0 \<or> length src \<le> po_maxInputBytes (su_opts su)"
    "deliver (su_handler su) events h = Inl (x, h')"
  shows "\<exists>er. parseSaxTop su (Some src) h = (False, h', er) \<and> \<not> er_ok er
    \<and> (er_code er = CallbackError \<or> x = Threw bad_alloc \<and> er_code er = Parse_AllocationFailure)"
proof -
  let ?c = "BufferCursor (buffer_cursor src)"
  have "healthy su (sax_parser ?c h)"
    using assms(4) fits_start(1) [of su src h] by (simp add: healthy_def start_fields(6))
  moreover have "cur_rest ?c = src" by (simp add: buffer_cursor_def buffer_rest_def)
  ultimately obtain st where st: "parseDocument su (sax_parser ?c h) = (False, refusal x st)" "sx_handler st = h'"
    using parseDocument_refused [of su ?c h events x h'] assms(1-3,5) unfolding presents_def by auto
  then have "parseSaxTop su (Some src) h = (False, h', sx_err (refusal x st))"
    using assms(4) by (auto simp: parseSaxTop_def Let_def)
  with refusal_code [OF assms(5), of st] show ?thesis by blast
qed

theorem sax_handler_refuses_witness:
  "fst (snd (parseSaxTop (sample_setup 1) (Some ''[true]'') [])) = [OnStartArray, OnBool True]"
  using sax_handler_refuses [OF sample_document, of "sample_setup 1" "[OnStartArray, OnBool True, OnEndArray]"
      "[]" Cancelled "[OnStartArray, OnBool True]"]
  by (auto simp: sample_setup_def recorder_def within_limits_def default_parser_options_def clampParseDepth_def
      DepthHardLimit_def)

text \<open>C35: The error record always tells the truth about a parse, of a buffer or of a stream: it is
  set exactly when the result is \<open>false\<close>, and then with a failure code, an offset inside the bytes
  and the line and column of that offset, although the cursor counts them byte by byte.\<close>

theorem sax_error_located:
  assumes "parseSaxTop su (Some src) h = (ok, h', er)
    \<or> stream_bytes input = src \<and> parseSaxStream su input h = (ok, h', er)"
  shows "er_ok er = ok \<and> (\<not> ok \<longrightarrow> er_code er \<noteq> Parse_None \<and> er_offset er \<le> length src
    \<and> (er_line er, er_column er) = coordinates (take (er_offset er) src) 1 1)"
  using assms
proof
  assume top: "parseSaxTop su (Some src) h = (ok, h', er)"
  show ?thesis
  proof (cases "ok \<or> po_maxInputBytes (su_opts su) \<noteq> 0 \<and> length src > po_maxInputBytes (su_opts su)")
    case True
    with top show ?thesis
      using sax_top_true [of su src h h' er] setParseError_fields [of "po_maxInputBytes (su_opts su)" src]
      by (cases ok) (auto simp: parseSaxTop_def Let_def)
  next
    case False
    with top obtain st where "parseDocument su (sax_parser (BufferCursor (buffer_cursor src)) h) = (ok, st)" "er = sx_err st"
      by (auto simp: parseSaxTop_def Let_def split: prod.splits if_splits)
    with parseDocument_tracked [OF this(1) start_tracked(1)] False show ?thesis
      by (auto simp: tracked_def located_def)
  qed
next
  assume s: "stream_bytes input = src \<and> parseSaxStream su input h = (ok, h', er)"
  then obtain st where st: "parseDocument su (sax_parser (StreamCursor (stream_cursor input)) h) = (ok, st)" "er = sx_err st"
    by (auto simp: parseSaxStream_def split: prod.splits)
  show ?thesis
  proof (cases ok)
    case True
    with s sax_stream_true [of su input h h' er] show ?thesis by simp
  next
    case False
    with parseDocument_tracked [OF st(1) start_tracked(2)] s st(2) show ?thesis
      by (auto simp: tracked_def located_def)
  qed
qed

theorem sax_error_located_witness:
  "er_column (snd (snd (parseSaxTop (tiny_setup 3) (Some ''[true]'') []))) = 4"
  using sax_error_located [of "tiny_setup 3" "''[true]''" "[]" False "[]"
      "setParseError ''[true]'' 3 msg_input_limit Parse_None"]
  by (simp add: parseSaxTop_def tiny_setup_def setParseError_def lineAndColumn_def classify_not_none
      classifyParseMessage_def numeral_nat)

end
