(* ===== verification/Schema_Value.thy ===== *)
theory Schema_Value
  imports Json_Value Utf8 Serializer
begin

section \<open>Values as the schema validator reads them\<close>

text \<open>
  \<open>pjson_schema_value.cpp\<close>: accessors with defaults, type names, sizes, the screen for regular
  expressions and exact divisibility of decimal numbers. A \<open>uint64_t\<close> coefficient is a natural and
  its overflow check is written out; every other integer stays far inside its type. The text of a
  double comes from the serializer, with the vendored Ryu library as the parameter \<open>d2s\<close>.
\<close>

subsection \<open>Accessors\<close>

definition strOf :: "json \<Rightarrow> string" where
  "strOf v = (case tryGet_string v of None \<Rightarrow> [] | Some s \<Rightarrow> s)"

definition boolOf :: "json \<Rightarrow> bool" where
  "boolOf v = (case tryGet_bool v of None \<Rightarrow> False | Some b \<Rightarrow> b)"

definition numberText :: "(double \<Rightarrow> string) \<Rightarrow> json \<Rightarrow> cpp_exception + string" where
  "numberText d2s v =
     (case (isInt v, tryGet_int64 v) of
        (True, Some i) \<Rightarrow> Inr (decimal_int (sint i))
      | _ \<Rightarrow>
          (case (isUInt v, tryGet_uint64 v) of
             (True, Some u) \<Rightarrow> Inr (decimal (unat u))
           | _ \<Rightarrow>
               toString_with d2s v (default_serialize_options\<lparr>so_nonFinite := NonFiniteToString\<rparr>)))"

definition numberAsDouble :: "json \<Rightarrow> double" where
  "numberAsDouble v = (case tryGet_double v of None \<Rightarrow> double_zero | Some d \<Rightarrow> d)"

text \<open>The length of the sequence at \<open>position\<close>, zero when it is none.\<close>

definition schema_utf8Len :: "string \<Rightarrow> nat \<Rightarrow> nat \<Rightarrow> nat" where
  "schema_utf8Len source position stop =
     (let c0 = byte (source ! position)
      in if c0 < 0x80 then 1
         else
           case utf8_lead c0 of
             None \<Rightarrow> 0
           | Some (count, codePoint, minimum) \<Rightarrow>
               if position + count > stop then 0
               else
                 (case utf8_tail (take (count - 1) (drop (Suc position) source)) codePoint of
                    None \<Rightarrow> 0
                  | Some cp \<Rightarrow>
                      if cp < minimum \<or> cp > 0x10FFFF \<or> 0xD800 \<le> cp \<and> cp \<le> 0xDFFF then 0 else count))"

subsection \<open>Types\<close>

definition typeName :: "json \<Rightarrow> string" where
  "typeName v =
     (if isNull v then ''null''
      else if isString v then ''string''
      else if isInteger v then ''integer''
      else if isDouble v then ''number''
      else if isBool v then ''boolean''
      else if isArray v then ''array''
      else if isObject v then ''object''
      else ''unknown'')"

text \<open>\<open>std::isfinite(number) && std::floor(number) == number\<close>\<close>

definition double_integral :: "double \<Rightarrow> bool" where
  "double_integral d \<longleftrightarrow> isfinite d \<and> scaled d mod int units = 0"

definition typeMatches :: "json \<Rightarrow> string \<Rightarrow> bool" where
  "typeMatches v type \<longleftrightarrow>
     (if type = ''null'' then isNull v
      else if type = ''string'' then isString v
      else if type = ''boolean'' then isBool v
      else if type = ''array'' then isArray v
      else if type = ''object'' then isObject v
      else if type = ''number'' then isNumber v
      else if type = ''integer'' then
        isInteger v
        \<or> isDouble v \<and> (case tryGet_double v of None \<Rightarrow> False | Some number \<Rightarrow> double_integral number)
      else False)"

subsection \<open>The screen for regular expressions\<close>

record regex_group =
  hasQuantifier :: bool
  hasAlternation :: bool

record regex_scan =
  rs_inClass :: bool
  rs_groups :: nat
  rs_quantifiers :: nat
  rs_stack :: "regex_group list"

definition is_quantifier :: "char \<Rightarrow> bool" where
  "is_quantifier c \<longleftrightarrow> c = CHR ''*'' \<or> c = CHR ''+'' \<or> c = CHR ''?'' \<or> c = CHR ''{''"

text \<open>The digits of a repetition bound: the bound, and what follows; none when it passes 1000.\<close>

fun repeat_bound :: "nat \<Rightarrow> string \<Rightarrow> (nat \<times> string) option" where
  "repeat_bound bound [] = Some (bound, [])"
| "repeat_bound bound (c # cs) =
     (if is_digit c then
        (if bound > 1000 then None else repeat_bound (bound * 10 + digit_value c) cs)
      else Some (bound, c # cs))"

definition repeat_bounds_safe :: "string \<Rightarrow> bool" where
  "repeat_bounds_safe cs =
     (case repeat_bound 0 cs of
        None \<Rightarrow> False
      | Some (first, rest) \<Rightarrow>
          (case (case rest of
                   c # cs' \<Rightarrow> if c = CHR '','' then repeat_bound 0 cs' else Some (0, c # cs')
                 | [] \<Rightarrow> Some (0, [])) of
             None \<Rightarrow> False
           | Some (second, _) \<Rightarrow> \<not> first > 1000 \<and> \<not> second > 1000))"

definition mark_quantified :: "bool \<Rightarrow> regex_group list \<Rightarrow> regex_group list" where
  "mark_quantified quantified stack =
     (case stack of
        [] \<Rightarrow> []
      | g # gs \<Rightarrow> g\<lparr>hasQuantifier := hasQuantifier g \<or> quantified\<rparr> # gs)"

text \<open>
  A character behind a backslash: what is left behind it and behind the braces of a property escape,
  or \<^const>\<open>None\<close> when the pattern is refused.
\<close>

definition skip_escape :: "string \<Rightarrow> string option" where
  "skip_escape rest =
     (case rest of
        [] \<Rightarrow> Some []
      | c # cs \<Rightarrow>
          if CHR ''1'' \<le> c \<and> c \<le> CHR ''9'' then None
          else if (c = CHR ''p'' \<or> c = CHR ''P'') \<and> cs \<noteq> [] \<and> hd cs = CHR ''{'' then
            (let name = takeWhile (\<lambda>x. x \<noteq> CHR ''}'') (tl cs);
                 behind = dropWhile (\<lambda>x. x \<noteq> CHR ''}'') (tl cs)
             in if behind = [] \<or> name = [] then None else Some (tl behind))
          else Some cs)"

lemma skip_escape_shorter: "skip_escape cs = Some r \<Longrightarrow> length r \<le> length cs"
proof -
  have "length (dropWhile P xs) \<le> length xs" for P :: "char \<Rightarrow> bool" and xs
    by (rule length_dropWhile_le)
  then have "length (tl (dropWhile P (tl xs))) \<le> length xs" for P :: "char \<Rightarrow> bool" and xs
    by (metis diff_le_self dual_order.trans length_tl)
  then show "skip_escape cs = Some r \<Longrightarrow> length r \<le> length cs"
    by (fastforce simp: skip_escape_def Let_def le_SucI split: list.splits if_splits)
qed

text \<open>A character outside classes and escapes, with what follows it.\<close>

definition safe_char :: "char \<Rightarrow> string \<Rightarrow> regex_scan \<Rightarrow> regex_scan option" where
  "safe_char c cs st =
     (if c = CHR ''('' then
        (if Suc (rs_groups st) > 16 then None
         else Some (st\<lparr>rs_groups := Suc (rs_groups st),
                rs_stack := \<lparr>hasQuantifier = False, hasAlternation = False\<rparr> # rs_stack st\<rparr>))
      else if c = CHR ''|'' then None
      else if is_quantifier c then
        (if Suc (rs_quantifiers st) > 1 then None
         else if c = CHR ''{'' \<and> \<not> repeat_bounds_safe cs then None
         else Some (st\<lparr>rs_quantifiers := Suc (rs_quantifiers st),
                rs_stack := mark_quantified True (rs_stack st)\<rparr>))
      else if c = CHR '')'' then
        (case rs_stack st of
           [] \<Rightarrow> Some st
         | closed # stack \<Rightarrow>
             let quantified = (cs \<noteq> [] \<and> is_quantifier (hd cs))
             in if quantified \<and> (hasQuantifier closed \<or> hasAlternation closed) then None
                else Some (st\<lparr>rs_stack := mark_quantified (quantified \<or> hasQuantifier closed) stack\<rparr>))
      else Some st)"

function safe_scan :: "string \<Rightarrow> regex_scan \<Rightarrow> bool" where
  "safe_scan [] st = True"
| "safe_scan (c # cs) st =
     (if c = backslash then
        (case skip_escape cs of None \<Rightarrow> False | Some r \<Rightarrow> safe_scan r st)
      else if c = CHR ''['' then safe_scan cs (st\<lparr>rs_inClass := True\<rparr>)
      else if c = CHR '']'' \<and> rs_inClass st then safe_scan cs (st\<lparr>rs_inClass := False\<rparr>)
      else if rs_inClass st then safe_scan cs st
      else case safe_char c cs st of None \<Rightarrow> False | Some st' \<Rightarrow> safe_scan cs st')"
  by pat_completeness auto
termination safe_scan
  by (relation "measure (\<lambda>(cs, st). length cs)") (auto simp: le_imp_less_Suc skip_escape_shorter)

definition isSafeRegex :: "string \<Rightarrow> bool" where
  "isSafeRegex pattern =
     safe_scan pattern \<lparr>rs_inClass = False, rs_groups = 0, rs_quantifiers = 0, rs_stack = []\<rparr>"

subsection \<open>Exact decimals\<close>

text \<open>A coefficient and the power of ten it is multiplied with; the sign plays no part.\<close>

type_synonym ExactDecimal = "nat \<times> int"

definition magnitudeOf :: "i64 \<Rightarrow> nat" where
  "magnitudeOf w = nat \<bar>sint w\<bar>"

function strip_tens :: "nat \<Rightarrow> int \<Rightarrow> ExactDecimal" where
  "strip_tens coefficient exponent =
     (if coefficient \<noteq> 0 \<and> coefficient mod 10 = 0 then strip_tens (coefficient div 10) (exponent + 1)
      else (coefficient, exponent))"
  by pat_completeness auto
termination strip_tens
  by (relation "measure fst") auto

declare strip_tens.simps [simp del]

record decimal_scan =
  ds_coefficient :: nat
  ds_fractionDigits :: nat
  ds_seenDigit :: bool
  ds_afterPoint :: bool

text \<open>The characters up to the exponent, and the text from its mark on.\<close>

fun scan_coefficient :: "string \<Rightarrow> decimal_scan \<Rightarrow> (decimal_scan \<times> string) option" where
  "scan_coefficient [] st = Some (st, [])"
| "scan_coefficient (ch # cs) st =
     (if ch = CHR ''e'' \<or> ch = CHR ''E'' then Some (st, ch # cs)
      else if ch = CHR ''.'' \<and> \<not> ds_afterPoint st then scan_coefficient cs (st\<lparr>ds_afterPoint := True\<rparr>)
      else if \<not> is_digit ch then None
      else if ds_coefficient st > (2 ^ 64 - 1 - digit_value ch) div 10 then None
      else
        scan_coefficient cs
          (st\<lparr>ds_coefficient := ds_coefficient st * 10 + digit_value ch,
             ds_fractionDigits := (if ds_afterPoint st then Suc (ds_fractionDigits st) else ds_fractionDigits st),
             ds_seenDigit := True\<rparr>))"

fun scan_power :: "string \<Rightarrow> nat \<Rightarrow> nat option" where
  "scan_power [] e = Some e"
| "scan_power (ch # cs) e =
     (if \<not> is_digit ch \<or> e > 10000 then None else scan_power cs (e * 10 + digit_value ch))"

text \<open>The text behind the mark.\<close>

definition decimal_exponent :: "string \<Rightarrow> int option" where
  "decimal_exponent text =
     (let signed = (text \<noteq> [] \<and> (hd text = CHR ''+'' \<or> hd text = CHR ''-''));
          negative = (signed \<and> hd text = CHR ''-'');
          digits = (if signed then tl text else text)
      in if digits = [] then None
         else map_option (\<lambda>e. if negative then - int e else int e) (scan_power digits 0))"

definition decimalFromText :: "string \<Rightarrow> ExactDecimal option" where
  "decimalFromText text =
     (let body = (if text \<noteq> [] \<and> (hd text = CHR ''+'' \<or> hd text = CHR ''-'') then tl text else text)
      in case scan_coefficient body \<lparr>ds_coefficient = 0, ds_fractionDigits = 0, ds_seenDigit = False, ds_afterPoint = False\<rparr> of
           None \<Rightarrow> None
         | Some (st, rest) \<Rightarrow>
             (case (if rest = [] then Some 0 else decimal_exponent (tl rest)) of
                None \<Rightarrow> None
              | Some explicitExponent \<Rightarrow>
                  if \<not> ds_seenDigit st then None
                  else if ds_coefficient st = 0 then Some (0, 0)
                  else Some (strip_tens (ds_coefficient st) (explicitExponent - int (ds_fractionDigits st)))))"

definition decimalFromNumber :: "(double \<Rightarrow> string) \<Rightarrow> json \<Rightarrow> ExactDecimal option" where
  "decimalFromNumber d2s v =
     (case v of
        JInt w \<Rightarrow> Some (strip_tens (magnitudeOf w) 0)
      | JUInt w \<Rightarrow> Some (strip_tens (unat w) 0)
      | JDouble number \<Rightarrow>
          if isfinite number then
            (case numberText d2s v of Inl e \<Rightarrow> None | Inr text \<Rightarrow> decimalFromText text)
          else None
      | _ \<Rightarrow> None)"

text \<open>
  The text of a number in a message; \<^const>\<open>numberText\<close> throws on no finite double Ryu writes, by
  \<open>numberText_double\<close> of \<open>Schema_Decimal\<close>.
\<close>

definition formatNumber :: "(double \<Rightarrow> string) \<Rightarrow> json \<Rightarrow> string" where
  "formatNumber d2s v = (case numberText d2s v of Inl e \<Rightarrow> [] | Inr text \<Rightarrow> text)"

subsection \<open>Sizes\<close>

text \<open>\<^const>\<open>None\<close> is no size, \<^term>\<open>Some None\<close> a size above the range of \<open>size_t\<close>.\<close>

definition schemaSize :: "json \<Rightarrow> nat option option" where
  "schemaSize v =
     (case v of
        JUInt w \<Rightarrow> if unat w > size_max then Some None else Some (Some (unat w))
      | JInt w \<Rightarrow>
          if sint w < 0 then None
          else if nat (sint w) > size_max then Some None
          else Some (Some (nat (sint w)))
      | JDouble number \<Rightarrow>
          if \<not> isfinite number \<or> double_less number double_zero \<or> \<not> double_integral number then None
          else if double_le double_two64 number then Some None
          else Some (Some (nat (double_trunc number)))
      | _ \<Rightarrow> None)"

subsection \<open>Divisibility\<close>

text \<open>\<open>while (remaining > 0 && reduced % p == 0) { reduced /= p; --remaining; }\<close>\<close>

fun strip_factor :: "nat \<Rightarrow> nat \<Rightarrow> nat \<Rightarrow> nat \<times> nat" where
  "strip_factor p 0 reduced = (0, reduced)"
| "strip_factor p (Suc remaining) reduced =
     (if reduced mod p = 0 then strip_factor p remaining (reduced div p) else (Suc remaining, reduced))"

definition decimal_multiple :: "ExactDecimal \<Rightarrow> ExactDecimal \<Rightarrow> bool" where
  "decimal_multiple valueDecimal divisorDecimal =
     (case (valueDecimal, divisorDecimal) of
        ((vc, ve), (dc, de)) \<Rightarrow>
          let shift = ve - de
          in if shift \<ge> 0 then
               (let reduced = snd (strip_factor 5 (nat shift) (snd (strip_factor 2 (nat shift) dc)))
                in vc mod reduced = 0)
             else if vc mod dc \<noteq> 0 then False
             else fst (strip_factor 10 (nat (- shift)) (vc div dc)) = 0)"

definition isExactMultiple :: "(double \<Rightarrow> string) \<Rightarrow> json \<Rightarrow> json \<Rightarrow> bool" where
  "isExactMultiple d2s v divisor =
     (if double_le (numberAsDouble divisor) double_zero then True
      else
        case (v, divisor) of
          (JInt w, JInt d) \<Rightarrow> magnitudeOf w mod magnitudeOf d = 0
        | _ \<Rightarrow>
            (case decimalFromNumber d2s divisor of
               None \<Rightarrow> True
             | Some divisorDecimal \<Rightarrow>
                 if fst divisorDecimal = 0 then True
                 else
                   (case decimalFromNumber d2s v of
                      None \<Rightarrow> False
                    | Some valueDecimal \<Rightarrow>
                        if fst valueDecimal = 0 then True else decimal_multiple valueDecimal divisorDecimal)))"

end
