(* ===== verification/Schema_Decimal.thy ===== *)
theory Schema_Decimal
  imports Complex_Main Schema_Value Serializer_Properties
begin

section \<open>Divisibility of decimal numbers\<close>

text \<open>
  What \<open>isExactMultiple\<close> decides: the numbers compared are the decimals their texts denote, an
  integer by itself and a double by the text the serializer writes for it.
\<close>

subsection \<open>The decimal a number stands for\<close>

definition decimal_rat :: "ExactDecimal \<Rightarrow> rat" where
  "decimal_rat d = of_nat (fst d) * 10 powi snd d"

definition text_rat :: "string \<Rightarrow> rat" where
  "text_rat t = (if token_negative t then - 1 else 1) * decimal_rat (digits_value 0 (significand_digits t), token_power t)"

fun number_rat :: "(double \<Rightarrow> string) \<Rightarrow> json \<Rightarrow> rat" where
  "number_rat d2s (JInt w) = of_int (sint w)"
| "number_rat d2s (JUInt w) = of_nat (unat w)"
| "number_rat d2s (JDouble d) = text_rat (formatDouble d2s d)"
| "number_rat d2s _ = 0"

text \<open>The shape of Ryu's text: at most 17 digits and an exponent of at most three.\<close>

definition ryu_compact :: "string \<Rightarrow> bool" where
  "ryu_compact x \<longleftrightarrow>
     (\<exists>sg c ds e. x = decimal_text sg [c] ds (CHR ''E'' # decimal_int e)
       \<and> number_sign sg \<and> is_digit c \<and> list_all is_digit ds \<and> (c = CHR ''0'' \<longrightarrow> ds = [] \<and> e = 0)
       \<and> length ds \<le> 16 \<and> \<bar>e\<bar> < 1000)"

subsection \<open>Trailing zeros and factors\<close>

lemma strip_tens_rat: "decimal_rat (strip_tens c e) = decimal_rat (c, e)"
proof (induction c e rule: strip_tens.induct)
  case (1 c e)
  show ?case
  proof (cases "c \<noteq> 0 \<and> c mod 10 = 0")
    case True
    then have "(of_nat c :: rat) = of_nat (c div 10) * 10" by (metis mult_div_mod_eq add.right_neutral mult.commute of_nat_mult of_nat_numeral)
    then have "decimal_rat (c div 10, e + 1) = decimal_rat (c, e)" by (simp add: decimal_rat_def power_int_add)
    with 1 True show ?thesis by (subst strip_tens.simps) simp
  next
    case False
    then have "strip_tens c e = (c, e)" by (subst strip_tens.simps) auto
    then show ?thesis by simp
  qed
qed

lemma strip_tens_rest: "c \<noteq> 0 \<Longrightarrow> fst (strip_tens c e) mod 10 \<noteq> 0"
  by (induction c e rule: strip_tens.induct) (subst strip_tens.simps, auto)

lemma strip_tens_zero: "fst (strip_tens c e) = 0 \<longleftrightarrow> c = 0"
  using strip_tens_rest [of c e] by (cases "c = 0") (auto simp: strip_tens.simps [of 0])

lemma strip_factor_power:
  assumes "1 < p" "0 < m"
  shows "\<exists>a. a \<le> n \<and> m = p ^ a * snd (strip_factor p n m) \<and> fst (strip_factor p n m) = n - a
    \<and> (a = n \<or> \<not> p dvd snd (strip_factor p n m))"
  using assms(2)
proof (induction n arbitrary: m)
  case (Suc n)
  show ?case
  proof (cases "p dvd m")
    case True
    with Suc.prems assms(1) have "0 < m div p" by (simp add: div_greater_zero_iff dvd_imp_le)
    from Suc.IH [OF this] obtain a where a: "a \<le> n" "m div p = p ^ a * snd (strip_factor p n (m div p))"
      "fst (strip_factor p n (m div p)) = n - a" "a = n \<or> \<not> p dvd snd (strip_factor p n (m div p))" by blast
    moreover have "m = p * (m div p)" using True by simp
    ultimately show ?thesis using True by (intro exI [of _ "Suc a"]) (simp add: mod_eq_0_iff_dvd mult.assoc)
  next
    case False
    then show ?thesis by (intro exI [of _ 0]) (simp add: mod_eq_0_iff_dvd)
  qed
qed simp

lemma two_or_five_coprime:
  fixes r :: nat
  assumes "p = 2 \<or> p = 5" "\<not> p dvd r"
  shows "coprime r p"
proof -
  have "gcd r p dvd p" by simp
  moreover have "gcd r p \<noteq> p" using assms(2) by (metis gcd_dvd1)
  moreover have "d = 1 \<or> d = p" if "d dvd p" for d :: nat
  proof -
    have "d \<le> 5" "0 < d" using that assms(1) by (auto dest: dvd_imp_le intro: Nat.gr0I)
    then have "d \<in> {1, 2, 3, 4, 5}" by auto
    with that assms(1) show ?thesis by auto
  qed
  ultimately show ?thesis by (metis coprime_iff_gcd_eq_1)
qed

lemma dvd_power_strip:
  fixes p r x :: nat
  assumes "p = 2 \<or> p = 5" "a \<le> s" "a = s \<or> \<not> p dvd r"
  shows "p ^ a * r dvd p ^ s * x \<longleftrightarrow> r dvd x"
proof -
  have "p ^ s * x = p ^ a * (p ^ (s - a) * x)" using assms(2) by (simp add: power_add [symmetric] mult.assoc [symmetric])
  moreover have "p ^ a \<noteq> 0" using assms(1) by auto
  ultimately have "p ^ a * r dvd p ^ s * x \<longleftrightarrow> r dvd p ^ (s - a) * x"
    by (simp only: nat_mult_dvd_cancel_disj) simp
  also have "\<dots> \<longleftrightarrow> r dvd x"
  proof (cases "a = s")
    case False
    with assms have "coprime r (p ^ (s - a))" using two_or_five_coprime by simp
    then show ?thesis by (simp add: coprime_dvd_mult_right_iff)
  qed simp
  finally show ?thesis .
qed

lemma reduced_dvd:
  assumes "0 < dc"
  shows "vc mod snd (strip_factor 5 s (snd (strip_factor 2 s dc))) = 0 \<longleftrightarrow> dc dvd vc * 10 ^ s"
proof -
  let ?r = "snd (strip_factor 2 s dc)" let ?q = "snd (strip_factor 5 s ?r)"
  obtain a where a: "a \<le> s" "dc = 2 ^ a * ?r" "a = s \<or> \<not> 2 dvd ?r"
    using strip_factor_power [of 2 dc s] assms by auto
  then have "0 < ?r" using assms by (metis gr0I mult_is_0)
  then obtain b where b: "b \<le> s" "?r = 5 ^ b * ?q" "b = s \<or> \<not> 5 dvd ?q"
    using strip_factor_power [of 5 ?r s] by auto
  have "vc * 10 ^ s = 2 ^ s * (5 ^ s * vc)"
    using power_mult_distrib [of "2 :: nat" 5 s] by (simp add: mult.assoc mult.commute)
  then have "dc dvd vc * 10 ^ s \<longleftrightarrow> ?r dvd 5 ^ s * vc"
    using a dvd_power_strip [of 2 a s ?r "5 ^ s * vc"] by (metis (lifting))
  also have "\<dots> \<longleftrightarrow> ?q dvd vc" using b dvd_power_strip [of 5 b s ?q vc] by (metis (lifting))
  finally show ?thesis by (simp add: mod_eq_0_iff_dvd)
qed

subsection \<open>Multiples of decimals\<close>

definition rat_multiple :: "rat \<Rightarrow> rat \<Rightarrow> bool" where
  "rat_multiple x y \<longleftrightarrow> (\<exists>k :: int. x = of_int k * y)"

lemma rat_multiple_nat: "rat_multiple (of_nat m) (of_nat n) \<longleftrightarrow> n dvd m"
proof
  assume "rat_multiple (of_nat m) (of_nat n)"
  then obtain k where "(of_nat m :: rat) = of_int k * of_nat n" by (auto simp: rat_multiple_def)
  then have "(of_int (int m) :: rat) = of_int (k * int n)" by simp
  then have "int m = k * int n" by (rule of_int_eq_iff [THEN iffD1])
  then show "n dvd m" by (metis dvd_triv_right int_dvd_int_iff)
next
  assume "n dvd m"
  then show "rat_multiple (of_nat m) (of_nat n)"
    unfolding rat_multiple_def by (auto simp: dvd_def intro: exI [of _ "int _"])
qed

lemma rat_multiple_scale: "c \<noteq> 0 \<Longrightarrow> rat_multiple (x * c) (y * c) \<longleftrightarrow> rat_multiple x y"
  by (simp add: rat_multiple_def mult.assoc [symmetric])

lemma rat_multiple_sign: "rat_multiple (- x) y \<longleftrightarrow> rat_multiple x y"
  unfolding rat_multiple_def
  by (metis minus_equation_iff mult_minus_left of_int_minus)

lemma decimal_shift: "e \<le> e' \<Longrightarrow> decimal_rat (c, e') = of_nat (c * 10 ^ nat (e' - e)) * 10 powi e"
  using power_int_add [of "10 :: rat" "e' - e" e] by (simp add: decimal_rat_def power_int_def [of 10 "e' - e"])

lemma decimal_multiple_iff:
  assumes "0 < dc" "vc mod 10 \<noteq> 0"
  shows "decimal_multiple (vc, ve) (dc, de) \<longleftrightarrow> rat_multiple (decimal_rat (vc, ve)) (decimal_rat (dc, de))"
proof (cases "0 \<le> ve - de")
  case True
  let ?s = "nat (ve - de)"
  have "decimal_rat (vc, ve) = of_nat (vc * 10 ^ ?s) * 10 powi de"
    using True by (intro decimal_shift) simp
  then have "rat_multiple (decimal_rat (vc, ve)) (decimal_rat (dc, de)) \<longleftrightarrow> dc dvd vc * 10 ^ ?s"
    using rat_multiple_scale [of "10 powi de" "of_nat (vc * 10 ^ ?s)" "of_nat dc"] rat_multiple_nat
    by (simp add: decimal_rat_def del: of_nat_mult)
  with True reduced_dvd [OF assms(1), of vc ?s] show ?thesis by (simp add: decimal_multiple_def Let_def)
next
  case False
  let ?n = "nat (de - ve)"
  have "decimal_rat (dc, de) = of_nat (dc * 10 ^ ?n) * 10 powi ve"
    using False by (intro decimal_shift) simp
  then have "rat_multiple (decimal_rat (vc, ve)) (decimal_rat (dc, de)) \<longleftrightarrow> dc * 10 ^ ?n dvd vc"
    using rat_multiple_scale [of "10 powi ve" "of_nat vc" "of_nat (dc * 10 ^ ?n)"] rat_multiple_nat
    by (simp add: decimal_rat_def del: of_nat_mult)
  moreover have "\<not> dc * 10 ^ ?n dvd vc"
  proof
    assume "dc * 10 ^ ?n dvd vc"
    moreover have "10 dvd dc * 10 ^ ?n" using False by (cases ?n) auto
    ultimately have "10 dvd vc" by (rule dvd_trans [rotated])
    with assms(2) show False by (simp add: mod_eq_0_iff_dvd)
  qed
  moreover have "\<not> decimal_multiple (vc, ve) (dc, de)"
  proof (cases "vc mod dc = 0")
    case True
    have "\<not> 10 dvd vc div dc"
      using True assms(2) by (metis dvd_mult_div_cancel dvd_mult dvd_imp_mod_0 mod_0_imp_dvd)
    moreover obtain m where "nat (- (ve - de)) = Suc m" using False by (cases "nat (- (ve - de))") auto
    ultimately show ?thesis using False True by (simp add: decimal_multiple_def Let_def mod_eq_0_iff_dvd)
  qed (use False in \<open>simp add: decimal_multiple_def Let_def\<close>)
  ultimately show ?thesis by simp
qed

subsection \<open>Reading the text of a double\<close>

lemma scan_digit_run:
  assumes "list_all is_digit xs" "digits_value (ds_coefficient st) xs < 10 ^ 17"
  shows "scan_coefficient (xs @ ys) st =
    scan_coefficient ys (st\<lparr>ds_coefficient := digits_value (ds_coefficient st) xs,
      ds_fractionDigits := (if ds_afterPoint st then ds_fractionDigits st + length xs else ds_fractionDigits st),
      ds_seenDigit := (ds_seenDigit st \<or> xs \<noteq> [])\<rparr>)"
  using assms
proof (induction xs arbitrary: st)
  case (Cons x xs)
  then have x: "is_digit x" "x \<noteq> CHR ''e''" "x \<noteq> CHR ''E''" "x \<noteq> CHR ''.''" "digit_value x < 10"
    using digit_not_mark [of x] digit_value_less by (auto simp: is_exponent_mark_def)
  have "ds_coefficient st * 10 + digit_value x \<le> digits_value (ds_coefficient st) (x # xs)"
    using digits_value_mono by simp
  with Cons.prems(2) have "ds_coefficient st * 10 + digit_value x < 10 ^ 17" by linarith
  then have c: "\<not> ds_coefficient st > (2 ^ 64 - 1 - digit_value x) div 10" using x(5) by simp
  show ?case
    using Cons.prems c by (simp add: x(1-4) Cons.IH)
qed simp

lemma scan_coefficient_stop:
  "ex = [] \<or> is_exponent_mark (hd ex) \<Longrightarrow> scan_coefficient ex st = Some (st, ex)"
  by (cases ex) (auto simp: is_exponent_mark_def)

lemma scan_power_small:
  "list_all is_digit ds \<Longrightarrow> digits_value a ds < 1000 \<Longrightarrow> scan_power ds a = Some (digits_value a ds)"
proof (induction ds arbitrary: a)
  case (Cons d ds)
  have "a \<le> digits_value a (d # ds)" by (rule digits_value_mono)
  with Cons show ?case by simp
qed simp

lemma decimal_exponent_int: "\<bar>e\<bar> < 1000 \<Longrightarrow> decimal_exponent (decimal_int e) = Some e"
proof (cases "e < 0")
  case True
  then show "\<bar>e\<bar> < 1000 \<Longrightarrow> ?thesis"
    using scan_power_small [OF decimal_digits, of 0 "nat (- e)"] by (simp add: decimal_exponent_def decimal_int_def)
next
  case False
  obtain c cs where c: "decimal (nat e) = c # cs" "is_digit c" using decimal_first by blast
  assume e: "\<bar>e\<bar> < 1000"
  with False have "scan_power (decimal (nat e)) 0 = Some (nat e)"
    using scan_power_small [OF decimal_digits, of 0 "nat e"] by simp
  then have "scan_power (c # cs) 0 = Some (nat e)" unfolding c(1) .
  with False c digit_not_mark [OF c(2)] show ?thesis
    by (simp add: decimal_exponent_def decimal_int_def del: scan_power.simps)
qed

lemma decimalFromText_decimal:
  assumes "token_shape sg i fs ex" "digits_value 0 (i @ fs) < 10 ^ 17" "ex = [] \<or> ex = m # decimal_int e \<and> \<bar>e\<bar> < 1000"
  shows "\<exists>c p. decimalFromText (decimal_text sg i fs ex) = Some (c, p)
    \<and> decimal_rat (c, p) = decimal_rat (digits_value 0 (i @ fs), token_power (decimal_text sg i fs ex))
    \<and> (c \<noteq> 0 \<longrightarrow> c mod 10 \<noteq> 0)"
proof -
  let ?start = "\<lparr>ds_coefficient = 0, ds_fractionDigits = 0, ds_seenDigit = False, ds_afterPoint = False\<rparr>"
  let ?t = "decimal_text sg i fs ex" and ?b = "i @ (if fs = [] then [] else CHR ''.'' # fs) @ ex"
  have parts: "list_all is_digit i" "i \<noteq> []" "list_all is_digit fs" "ex = [] \<or> is_exponent_mark (hd ex)" "number_sign sg"
    using assms(1) by (simp_all add: token_shape_def)
  have "digits_value 0 i \<le> digits_value 0 (i @ fs)" by (simp add: digits_value_append digits_value_mono)
  with assms(2) have bi: "digits_value 0 i < 10 ^ 17" by linarith
  have bf: "digits_value (digits_value 0 i) fs < 10 ^ 17" using assms(2) by (simp add: digits_value_append)
  obtain a as where a: "i = a # as" "is_digit a" using parts(1,2) by (cases i) auto
  then have body: "(if ?t \<noteq> [] \<and> (hd ?t = CHR ''+'' \<or> hd ?t = CHR ''-'') then tl ?t else ?t) = ?b"
    using parts(5) digit_not_mark [OF a(2)] by (auto simp: decimal_text_def number_sign_def)
  let ?final = "\<lparr>ds_coefficient = digits_value 0 (i @ fs), ds_fractionDigits = length fs, ds_seenDigit = True, ds_afterPoint = (fs \<noteq> [])\<rparr>"
  have scan: "scan_coefficient ?b ?start = Some (?final, ex)"
    using parts(2) scan_digit_run [OF parts(1), of ?start] bi
      scan_digit_run [OF parts(3), of "?final\<lparr>ds_coefficient := digits_value 0 i, ds_fractionDigits := 0\<rparr>"] bf
    by (cases "fs = []") (simp_all add: scan_coefficient_stop [OF parts(4)] digits_value_append)
  have exp: "(if ex = [] then Some 0 else decimal_exponent (tl ex)) = Some (signed_digits (tl ex))"
    using assms(3) by (auto simp: decimal_exponent_int) (simp add: signed_digits_def)
  have pow: "token_power ?t = signed_digits (tl ex) - int (length fs)" by (rule token_of_shape(3) [OF assms(1)])
  show ?thesis
  proof (cases "digits_value 0 (i @ fs) = 0")
    case True
    then have "decimalFromText ?t = Some (0, 0)"
      unfolding decimalFromText_def Let_def body scan using exp by simp
    then show ?thesis using True by (simp add: decimal_rat_def)
  next
    case False
    let ?d = "strip_tens (digits_value 0 (i @ fs)) (token_power ?t)"
    from False have "decimalFromText ?t = Some (fst ?d, snd ?d)"
      unfolding decimalFromText_def Let_def body scan using exp by (simp add: pow)
    moreover have "decimal_rat (fst ?d, snd ?d) = decimal_rat (digits_value 0 (i @ fs), token_power ?t)"
      using strip_tens_rat by simp
    ultimately show ?thesis using strip_tens_rest [OF False] by blast
  qed
qed

lemma decimal_length: "0 < k \<Longrightarrow> n < 10 ^ k \<Longrightarrow> length (decimal n) \<le> k"
proof (induction k arbitrary: n)
  case (Suc k)
  show ?case
  proof (cases "n < 10")
    case False
    with Suc.prems(2) have "0 < k" by (cases k) auto
    moreover have "n div 10 < 10 ^ k" using Suc.prems(2) by (simp add: less_mult_imp_div_less mult.commute)
    ultimately show ?thesis using Suc.IH [of "n div 10"] False by (subst decimal.simps) simp
  qed (subst decimal.simps, simp)
qed simp

lemma compact_parts:
  assumes "isfinite d" "ryu_compact (d2s d)"
  shows "\<exists>sg i fs ex e. formatDouble d2s d = decimal_text sg i fs ex \<and> token_shape sg i fs ex
    \<and> digits_value 0 (i @ fs) < 10 ^ 17 \<and> (ex = [] \<or> ex = CHR ''e'' # decimal_int e) \<and> \<bar>e\<bar> < 1000
    \<and> length i + length fs \<le> 36"
proof -
  obtain sg c ds e where x: "d2s d = decimal_text sg [c] ds (CHR ''E'' # decimal_int e)"
    "number_sign sg" "is_digit c" "list_all is_digit ds" "c = CHR ''0'' \<longrightarrow> ds = [] \<and> e = 0"
    "length ds \<le> 16" "\<bar>e\<bar> < 1000"
    using assms(2) unfolding ryu_compact_def by blast
  obtain i fs ex where "formatDouble d2s d = decimal_text sg i fs ex" "token_shape sg i fs ex"
    "digits_value 0 (i @ fs) < 10 ^ 17" "ex = [] \<or> ex = CHR ''e'' # decimal_int e"
    "length i + length fs \<le> length ds + 20"
    using formatDouble_shape [of d2s d sg c ds e True, OF x(1) assms(1) x(2-5)] x(6)
    by (elim exE conjE) (rule that; simp)
  with x(6,7) show ?thesis by (intro exI conjI) (assumption | simp)+
qed

lemma numberText_double:
  assumes "isfinite d" "ryu_compact (d2s d)"
  shows "numberText d2s (JDouble d) = Inr (formatDouble d2s d)"
proof -
  let ?o = "default_serialize_options\<lparr>so_nonFinite := NonFiniteToString\<rparr>"
  obtain sg i fs ex e where t: "formatDouble d2s d = decimal_text sg i fs ex" "token_shape sg i fs ex"
    "ex = [] \<or> ex = CHR ''e'' # decimal_int e" "\<bar>e\<bar> < 1000" "length i + length fs \<le> 36"
    using compact_parts [of d d2s, OF assms] by blast
  have "length (decimal_int e) \<le> 4"
  proof -
    have "nat \<bar>e\<bar> < 10 ^ 3" using t(4) by simp
    from decimal_length [OF _ this] show ?thesis by (auto simp: decimal_int_def abs_if split: if_splits)
  qed
  with t have "length (formatDouble d2s d) \<le> 60"
    by (auto simp: decimal_text_def token_shape_def number_sign_def)
  with assms(1) have "serialized d2s ?o (JDouble d) = Inr (formatDouble d2s d)"
    by (simp add: serialized_def double_emission_def default_serialize_options_def)
  with toString_success show ?thesis by (simp add: numberText_def isInt_def isUInt_def)
qed

text \<open>What the code reads from a finite double.\<close>

lemma decimalFromNumber_double:
  assumes "isfinite d" "ryu_compact (d2s d)"
  shows "\<exists>c p. decimalFromNumber d2s (JDouble d) = Some (c, p) \<and> (c \<noteq> 0 \<longrightarrow> c mod 10 \<noteq> 0)
    \<and> (number_rat d2s (JDouble d) = decimal_rat (c, p) \<or> number_rat d2s (JDouble d) = - decimal_rat (c, p))"
proof -
  obtain sg i fs ex e where t: "formatDouble d2s d = decimal_text sg i fs ex" "token_shape sg i fs ex"
    "digits_value 0 (i @ fs) < 10 ^ 17" "ex = [] \<or> ex = CHR ''e'' # decimal_int e" "\<bar>e\<bar> < 1000"
    using compact_parts [of d d2s, OF assms] by blast
  obtain k p where k: "decimalFromText (formatDouble d2s d) = Some (k, p)" "k \<noteq> 0 \<longrightarrow> k mod 10 \<noteq> 0"
    "decimal_rat (k, p) = decimal_rat (digits_value 0 (i @ fs), token_power (formatDouble d2s d))"
    using decimalFromText_decimal [OF t(2,3), of "CHR ''e''" e] t(1,4,5) by auto
  moreover have "decimalFromNumber d2s (JDouble d) = decimalFromText (formatDouble d2s d)"
    using assms by (simp add: decimalFromNumber_def numberText_double)
  ultimately show ?thesis
    using token_of_shape(2) [OF t(2)] t(1) by (auto simp: text_rat_def)
qed

text \<open>The number of a value and what the code reads from it.\<close>

definition readable :: "(double \<Rightarrow> string) \<Rightarrow> json \<Rightarrow> bool" where
  "readable d2s v \<longleftrightarrow>
     (case v of
        JInt w \<Rightarrow> True
      | JUInt w \<Rightarrow> True
      | JDouble d \<Rightarrow> isfinite d \<and> ryu_compact (d2s d)
      | _ \<Rightarrow> False)"

lemma decimalFromNumber_value:
  assumes "readable d2s v"
  shows "\<exists>c p. decimalFromNumber d2s v = Some (c, p) \<and> (c \<noteq> 0 \<longrightarrow> c mod 10 \<noteq> 0)
    \<and> (number_rat d2s v = decimal_rat (c, p) \<or> number_rat d2s v = - decimal_rat (c, p))"
proof (cases v)
  case (JInt w)
  have "of_int (sint w) = decimal_rat (strip_tens (magnitudeOf w) 0) \<or> of_int (sint w) = - decimal_rat (strip_tens (magnitudeOf w) 0)"
    unfolding strip_tens_rat by (simp add: decimal_rat_def magnitudeOf_def) (simp add: abs_if)
  then show ?thesis using JInt strip_tens_rest [of "magnitudeOf w" 0] strip_tens_zero [of "magnitudeOf w" 0]
    by (cases "strip_tens (magnitudeOf w) 0") (auto simp: decimalFromNumber_def)
next
  case (JUInt w)
  have "of_nat (unat w) = decimal_rat (strip_tens (unat w) 0)"
    unfolding strip_tens_rat by (simp add: decimal_rat_def)
  then show ?thesis using JUInt strip_tens_rest [of "unat w" 0] strip_tens_zero [of "unat w" 0]
    by (cases "strip_tens (unat w) 0") (auto simp: decimalFromNumber_def)
next
  case (JDouble d)
  with assms decimalFromNumber_double [of d d2s] show ?thesis by (simp add: readable_def)
qed (use assms in \<open>simp_all add: readable_def\<close>)

text \<open>C39: \<open>multipleOf\<close> is exact: a number is accepted exactly when its value is a whole multiple of the
  divisor's, both taken as the rationals their texts denote, whichever of the three number kinds they
  have and however large their exponents are. The divisor is positive, as the compiler of schemas
  demands; doubles are finite and their shortest texts have the documented form.\<close>

theorem isExactMultiple_iff:
  assumes "readable d2s v" "readable d2s divisor" "double_less double_zero (numberAsDouble divisor)"
    "number_rat d2s divisor \<noteq> 0"
  shows "isExactMultiple d2s v divisor \<longleftrightarrow> rat_multiple (number_rat d2s v) (number_rat d2s divisor)"
proof -
  have pos: "\<not> double_le (numberAsDouble divisor) double_zero"
    using assms(3) by (auto simp: double_less_def double_le_def)
  have sign: "rat_multiple x y \<longleftrightarrow> rat_multiple a b" if "x = a \<or> x = - a" "y = b \<or> y = - b" for a b x y
    using that rat_multiple_sign unfolding rat_multiple_def
    by (metis minus_mult_commute minus_minus of_int_minus)
  obtain c p where v: "decimalFromNumber d2s v = Some (c, p)" "c \<noteq> 0 \<longrightarrow> c mod 10 \<noteq> 0"
    "number_rat d2s v = decimal_rat (c, p) \<or> number_rat d2s v = - decimal_rat (c, p)"
    using decimalFromNumber_value [OF assms(1)] by blast
  obtain c' p' where d: "decimalFromNumber d2s divisor = Some (c', p')"
    "number_rat d2s divisor = decimal_rat (c', p') \<or> number_rat d2s divisor = - decimal_rat (c', p')"
    using decimalFromNumber_value [OF assms(2)] by blast
  have c': "0 < c'" using d(2) assms(4) by (auto simp: decimal_rat_def)
  have general: "(if c = 0 then True else decimal_multiple (c, p) (c', p'))
      \<longleftrightarrow> rat_multiple (number_rat d2s v) (number_rat d2s divisor)"
  proof (cases "c = 0")
    case True
    then have "number_rat d2s v = 0" using v(3) by (auto simp: decimal_rat_def)
    with True show ?thesis by (auto simp: rat_multiple_def intro: exI [of _ 0])
  next
    case False
    with v(2) have "decimal_multiple (c, p) (c', p') \<longleftrightarrow> rat_multiple (decimal_rat (c, p)) (decimal_rat (c', p'))"
      by (intro decimal_multiple_iff c') simp
    with False sign [OF v(3) d(2)] show ?thesis by simp
  qed
  show ?thesis
  proof (cases "isInt v \<and> isInt divisor")
    case True
    then obtain a b where ab: "v = JInt a" "divisor = JInt b"
      by (cases v; cases divisor) (simp_all add: isInt_def)
    have "rat_multiple (of_int (sint a)) (of_int (sint b)) \<longleftrightarrow>
        rat_multiple (of_nat (magnitudeOf a)) (of_nat (magnitudeOf b))"
      by (rule sign) (auto simp: magnitudeOf_def abs_if)
    with ab pos show ?thesis by (simp add: isExactMultiple_def rat_multiple_nat mod_eq_0_iff_dvd)
  next
    case False
    then have "isExactMultiple d2s v divisor \<longleftrightarrow> (if c = 0 then True else decimal_multiple (c, p) (c', p'))"
      using pos v(1) d(1) c' by (cases v; cases divisor) (simp_all add: isExactMultiple_def isInt_def)
    with general show ?thesis by simp
  qed
qed

text \<open>
  The doubles nearest to 0.1 and 0.3. As binary fractions neither is a multiple of the other; the
  decimals of their shortest texts are.
\<close>

definition double_tenth :: double where "double_tenth = Binary64 0x3FB999999999999A"

definition double_three_tenths :: double where "double_three_tenths = Binary64 0x3FD3333333333333"

definition tenths_text :: "double \<Rightarrow> string" where
  "tenths_text d = (if d = double_three_tenths then ''3E-1'' else ''1E-1'')"

lemma tenths_text_simps [simp]: "tenths_text double_tenth = ''1E-1''" "tenths_text double_three_tenths = ''3E-1''"
  by (simp_all add: tenths_text_def double_tenth_def double_three_tenths_def)

lemma tenths_finite: "isfinite double_tenth" "isfinite double_three_tenths"
  by (simp_all add: double_tenth_def double_three_tenths_def isfinite_def exponent_field_def double_code_def)

lemma tenths_positive: "double_less double_zero double_tenth" "double_less double_zero double_three_tenths"
  by (simp_all add: double_tenth_def double_three_tenths_def double_less_def isnan_def exponent_field_def scaled_def
      double_zero_def code_magnitude_def double_code_def sign_bit_def)

lemma tenths_form:
  assumes "is_digit c" "c \<noteq> CHR ''0''"
  shows "c # ''E-1'' = decimal_text [] [c] [] (CHR ''E'' # decimal_int (- 1))" "ryu_compact (c # ''E-1'')"
proof -
  have "decimal_int (- 1) = ''-1''"
    using digit_char_value [of "CHR ''1''"]
    by (simp add: decimal_int_def decimal.simps [of 1] decimal.simps [of "Suc 0"] is_digit_def digit_value_def)
  then show form: "c # ''E-1'' = decimal_text [] [c] [] (CHR ''E'' # decimal_int (- 1))"
    by (simp add: decimal_text_def)
  show "ryu_compact (c # ''E-1'')"
    unfolding ryu_compact_def using assms
    by (intro exI [of _ "[]"] exI [of _ c] exI [of _ "- 1"]) (simp add: form number_sign_def)
qed

lemma tenths_ryu: "ryu_text double_tenth ''1E-1''" "ryu_text double_three_tenths ''3E-1''"
proof -
  have ryu: "ryu_text d (c # ''E-1'')"
    if c: "is_digit c" "c \<noteq> CHR ''0''" and d: "double_less double_zero d" "nearest_double False (digit_value c) 10 = d" for c d
  proof -
    have shape: "token_shape [] [c] [] (CHR ''E'' # decimal_int (- 1))"
      using c(1) by (simp add: token_shape_def number_sign_def is_exponent_mark_def)
    have "token_double (c # ''E-1'') = d"
      using token_double_shape [OF shape] d(2)
      by (simp add: tenths_form(1) [OF c] nearest_power_def)
    moreover have "\<not> double_eq d double_zero" using d(1) by (auto simp: double_less_def double_eq_def)
    moreover have "length (decimal_text [] [c] [] (CHR ''E'' # decimal_int (- 1))) \<le> 32"
      by (simp flip: tenths_form(1) [OF c])
    ultimately show ?thesis
      unfolding ryu_text_def using c
      by (intro conjI exI [of _ "[]"] exI [of _ c] exI [of _ "- 1"]) (simp_all add: tenths_form(1) number_sign_def)
  qed
  have near: "nearest_double False 1 10 = double_tenth" "nearest_double False 3 10 = double_three_tenths"
    by (simp_all add: nearest_double_def make_double_def double_tenth_def double_three_tenths_def round_even_def
        nearest_code_fraction [where m = 56 and sh = 1018 and n = "Suc 0"] nearest_code_fraction [where m = 54 and sh = 1020 and n = 3])
  show "ryu_text double_tenth ''1E-1''" "ryu_text double_three_tenths ''3E-1''"
    by (rule ryu; use near tenths_positive in \<open>simp add: is_digit_def digit_value_def\<close>)+
qed

lemma tenths_rat:
  "number_rat tenths_text (JDouble double_tenth) = 1 / 10" "number_rat tenths_text (JDouble double_three_tenths) = 3 / 10"
proof -
  have "formatDouble tenths_text double_tenth = ''0.1''" "formatDouble tenths_text double_three_tenths = ''0.3''"
    using tenths_finite
    by (simp_all add: formatDouble_def plain_notation_def exponent_value_def place_point_def is_float_mark_def)
  moreover have "token_shape [] ''0'' [c] []" if "is_digit c" for c
    using that by (simp add: token_shape_def number_sign_def is_digit_def)
  ultimately show "number_rat tenths_text (JDouble double_tenth) = 1 / 10"
    "number_rat tenths_text (JDouble double_three_tenths) = 3 / 10"
    using token_of_shape [of "[]" "''0''" "''1''" "[]"] token_of_shape [of "[]" "''0''" "''3''" "[]"]
    by (simp_all add: text_rat_def decimal_text_def is_digit_def digit_value_def decimal_rat_def signed_digits_def
        power_int_minus)
qed

theorem isExactMultiple_iff_witness:
  "ryu_text double_tenth (tenths_text double_tenth) \<and> ryu_text double_three_tenths (tenths_text double_three_tenths)
   \<and> ryu_compact (tenths_text double_tenth) \<and> ryu_compact (tenths_text double_three_tenths)
   \<and> isExactMultiple tenths_text (JDouble double_three_tenths) (JDouble double_tenth)
   \<and> \<not> isExactMultiple tenths_text (JDouble double_tenth) (JDouble double_three_tenths)"
proof -
  have compact: "ryu_compact ''1E-1''" "ryu_compact ''3E-1''"
    by (rule tenths_form(2); simp add: is_digit_def)+
  have read: "readable tenths_text (JDouble double_tenth)" "readable tenths_text (JDouble double_three_tenths)"
    using tenths_finite compact by (simp_all add: readable_def)
  have pos: "double_less double_zero (numberAsDouble (JDouble double_tenth))"
    "double_less double_zero (numberAsDouble (JDouble double_three_tenths))"
    using tenths_positive by (simp_all add: numberAsDouble_def)
  have "rat_multiple (3 / 10) (1 / 10)" unfolding rat_multiple_def by (rule exI [of _ 3]) simp
  moreover have "\<not> rat_multiple (1 / 10) (3 / 10)"
  proof
    assume "rat_multiple (1 / 10) (3 / 10)"
    then obtain k :: int where "(1 :: rat) = of_int (3 * k)" by (auto simp: rat_multiple_def mult.commute)
    then have "1 = 3 * k" by (simp only: of_int_eq_1_iff [symmetric])
    then show False by presburger
  qed
  ultimately show ?thesis
    using isExactMultiple_iff [OF read(2,1) pos(1)] isExactMultiple_iff [OF read(1,2) pos(2)] tenths_ryu compact
    by (simp add: tenths_rat del: number_rat.simps)
qed

end
