(* ===== verification/Schema_Uri.thy ===== *)
theory Schema_Uri
  imports Utf8
begin

section \<open>References\<close>

text \<open>
  \<open>pjson_schema_uri.cpp\<close>: fragments, schemes, anchors and the resolution of a reference against a
  base. A position found in a string is written as the text before it and the text from it on.
\<close>

subsection \<open>Characters and searches\<close>

definition isAsciiHex :: "char \<Rightarrow> bool" where
  "isAsciiHex ch \<longleftrightarrow>
     is_digit ch \<or> CHR ''a'' \<le> ch \<and> ch \<le> CHR ''f'' \<or> CHR ''A'' \<le> ch \<and> ch \<le> CHR ''F''"

definition is_alpha :: "char \<Rightarrow> bool" where
  "is_alpha c \<longleftrightarrow> CHR ''A'' \<le> c \<and> c \<le> CHR ''Z'' \<or> CHR ''a'' \<le> c \<and> c \<le> CHR ''z''"

definition before :: "(char \<Rightarrow> bool) \<Rightarrow> string \<Rightarrow> string" where
  "before P s = takeWhile (\<lambda>c. \<not> P c) s"

definition from_first :: "(char \<Rightarrow> bool) \<Rightarrow> string \<Rightarrow> string" where
  "from_first P s = dropWhile (\<lambda>c. \<not> P c) s"

lemma before_from [simp]: "before P s @ from_first P s = s"
  by (simp add: before_def from_first_def)

subsection \<open>Paths\<close>

text \<open>The pieces between slashes; there is always one.\<close>

fun split_slash :: "string \<Rightarrow> string list" where
  "split_slash [] = [[]]"
| "split_slash (c # cs) =
     (if c = CHR ''/'' then [] # split_slash cs
      else (c # hd (split_slash cs)) # tl (split_slash cs))"

text \<open>One piece, with the segments kept so far.\<close>

definition push_segment :: "string \<Rightarrow> string list \<Rightarrow> string list" where
  "push_segment segment segments =
     (if segment = [] \<or> segment = ''.'' then segments
      else if segment = ''..'' then butlast segments
      else segments @ [segment])"

definition add_segment :: "string \<Rightarrow> string \<Rightarrow> string" where
  "add_segment segment result =
     (if result \<noteq> [] \<and> last result \<noteq> CHR ''/'' then result @ ''/'' else result) @ segment"

definition normalizePath :: "string \<Rightarrow> string" where
  "normalizePath path =
     (let absolute = (path \<noteq> [] \<and> hd path = CHR ''/'');
          segments = fold push_segment (split_slash path) [];
          result = fold add_segment segments (if absolute then ''/'' else [])
      in if path \<noteq> [] \<and> last path = CHR ''/'' \<and> (result = [] \<or> last result \<noteq> CHR ''/'')
         then result @ ''/'' else result)"

definition splitPathSuffix :: "string \<Rightarrow> string \<times> string" where
  "splitPathSuffix s =
     (let marker = (\<lambda>c. c = CHR ''?'' \<or> c = CHR ''#'') in (before marker s, from_first marker s))"

subsection \<open>Fragments, schemes and anchors\<close>

fun percentDecodeFragment :: "string \<Rightarrow> string option" where
  "percentDecodeFragment [] = Some []"
| "percentDecodeFragment (c # cs) =
     (if c \<noteq> CHR ''%'' then map_option ((#) c) (percentDecodeFragment cs)
      else
        case cs of
          hi # lo # rest \<Rightarrow>
            (case (hex_digit hi, hex_digit lo) of
               (Some high, Some low) \<Rightarrow>
                 map_option ((#) (char_of (push_bit 4 high OR low :: nat))) (percentDecodeFragment rest)
             | _ \<Rightarrow> None)
        | _ \<Rightarrow> None)"

text \<open>The characters of a scheme behind the first, up to the colon.\<close>

fun scheme_rest :: "string \<Rightarrow> bool" where
  "scheme_rest [] = False"
| "scheme_rest (c # cs) =
     (if c = CHR '':'' then True
      else if \<not> (is_alpha c \<or> is_digit c \<or> c = CHR ''+'' \<or> c = CHR ''-'' \<or> c = CHR ''.'') then False
      else scheme_rest cs)"

definition uriHasScheme :: "string \<Rightarrow> bool" where
  "uriHasScheme uri =
     (if uri = [] \<or> \<not> is_alpha (hd uri) then False else scheme_rest (tl uri))"

definition validAnchorName :: "string \<Rightarrow> bool" where
  "validAnchorName name =
     (if name = [] \<or> \<not> (is_alpha (hd name) \<or> hd name = CHR ''_'') then False
      else list_all (\<lambda>c. is_alpha c \<or> is_digit c \<or> c = CHR ''_'' \<or> c = CHR ''-'' \<or> c = CHR ''.''
             \<or> c = CHR '':'') (tl name))"

definition stripFragment :: "string \<Rightarrow> string" where
  "stripFragment uri = before (\<lambda>c. c = CHR ''#'') uri"

definition splitReference :: "string \<Rightarrow> string \<times> string" where
  "splitReference uri =
     (before (\<lambda>c. c = CHR ''#'') uri, tl (from_first (\<lambda>c. c = CHR ''#'') uri))"

subsection \<open>Resolution\<close>

text \<open>\<open>path.substr(0, path.rfind('/') + 1)\<close>, empty without a slash.\<close>

definition directory_of :: "string \<Rightarrow> string" where
  "directory_of path = rev (from_first (\<lambda>c. c = CHR ''/'') (rev path))"

text \<open>
  A relative reference against the path of the base; \<open>front\<close> is the scheme and the authority put in
  front.
\<close>

definition resolve_path :: "string \<Rightarrow> string \<Rightarrow> string \<Rightarrow> string" where
  "resolve_path front base_path reference =
     (case splitPathSuffix reference of
        (referencePath, referenceSuffix) \<Rightarrow>
          let basePath = fst (splitPathSuffix base_path)
          in if hd reference = CHR ''?'' then front @ basePath @ reference
             else if referencePath \<noteq> [] \<and> hd referencePath = CHR ''/''
             then front @ normalizePath referencePath @ referenceSuffix
             else front @ normalizePath (directory_of basePath @ referencePath) @ referenceSuffix)"

definition resolveUri :: "string \<Rightarrow> string \<Rightarrow> string" where
  "resolveUri baseWithFragment reference =
     (let base = stripFragment baseWithFragment;
          colon = (\<lambda>c. c = CHR '':'');
          slash = (\<lambda>c. c = CHR ''/'')
      in if reference = [] then base
         else if uriHasScheme reference then reference
         else if hd reference = CHR ''#'' then base @ reference
         else if from_first colon base = [] then resolve_path [] base reference
         else
           (let scheme = before colon base @ '':'';
                remainder = tl (from_first colon base)
            in if \<not> has_prefix ''//'' remainder then resolve_path scheme remainder reference
               else if has_prefix ''//'' reference then scheme @ reference
               else
                 (let authority = ''//'' @ before slash (drop 2 remainder);
                      basePath = from_first slash (drop 2 remainder)
                  in resolve_path (scheme @ authority) (if basePath = [] then ''/'' else basePath) reference)))"

subsection \<open>Dot segments\<close>

lemma split_slash_nonempty [simp]: "split_slash s \<noteq> []"
  by (cases s) auto

lemma split_slash_pieces: "p \<in> set (split_slash s) \<Longrightarrow> CHR ''/'' \<notin> set p"
proof (induction s arbitrary: p)
  case (Cons c cs)
  obtain q qs where q: "split_slash cs = q # qs" using split_slash_nonempty by (metis neq_Nil_conv)
  with Cons.IH [of q] Cons.IH [of p] Cons.prems show ?case by (cases "c = CHR ''/''") auto
qed simp

lemma split_slash_append:
  "split_slash (s @ CHR ''/'' # t) = split_slash s @ split_slash t"
  by (induction s) (simp_all add: hd_append tl_append2)

lemma split_slash_piece: "CHR ''/'' \<notin> set s \<Longrightarrow> split_slash s = [s]"
  by (induction s) auto

definition plain_segment :: "string \<Rightarrow> bool" where
  "plain_segment p \<longleftrightarrow> p \<noteq> [] \<and> p \<noteq> ''.'' \<and> p \<noteq> ''..'' \<and> CHR ''/'' \<notin> set p"

lemma push_segments_plain:
  "list_all plain_segment segs \<Longrightarrow> \<forall>p \<in> set ps. CHR ''/'' \<notin> set p \<Longrightarrow>
    list_all plain_segment (fold push_segment ps segs)"
proof (induction ps arbitrary: segs)
  case (Cons p ps)
  have "list_all plain_segment (butlast segs)"
    using Cons.prems(1) by (meson in_set_butlastD list_all_iff)
  moreover have "list_all plain_segment (segs @ [p])" if "p \<noteq> []" "p \<noteq> ''.''" "p \<noteq> ''..''"
  proof -
    have "plain_segment p" using that Cons.prems(2) by (simp only: plain_segment_def list.set_intros simp_thms)
    then show ?thesis using Cons.prems(1) by simp
  qed
  ultimately have "list_all plain_segment (push_segment p segs)"
    using Cons.prems(1) unfolding push_segment_def by presburger
  with Cons.IH Cons.prems(2) show ?case by simp
qed simp

text \<open>The segments of a normalized path.\<close>

definition segments_of :: "string \<Rightarrow> string list" where
  "segments_of path = filter (\<lambda>p. p \<noteq> []) (split_slash path)"

lemma segments_of_slash: "segments_of (s @ ''/'') = segments_of s"
  by (simp add: segments_of_def split_slash_append)

lemma segments_of_add:
  assumes "plain_segment p" "r = [] \<or> r = ''/'' \<or> last r \<noteq> CHR ''/''"
  shows "segments_of (add_segment p r) = segments_of r @ [p]"
    and "last (add_segment p r) \<noteq> CHR ''/'' \<and> add_segment p r \<noteq> []"
proof -
  from assms(1) have p: "split_slash p = [p]" "p \<noteq> []" "CHR ''/'' \<notin> set p"
    by (auto simp: plain_segment_def intro: split_slash_piece)
  then have "last p \<noteq> CHR ''/''" by (metis last_in_set)
  with p show "last (add_segment p r) \<noteq> CHR ''/'' \<and> add_segment p r \<noteq> []"
    by (simp add: add_segment_def)
  consider "r = []" | "r = ''/''" | "r \<noteq> []" "last r \<noteq> CHR ''/''" using assms(2) by blast
  then show "segments_of (add_segment p r) = segments_of r @ [p]"
  proof cases
    case 3
    then have "segments_of (add_segment p r) = segments_of (r @ CHR ''/'' # p)" by (simp add: add_segment_def)
    with p show ?thesis by (simp add: segments_of_def split_slash_append)
  qed (use p in \<open>simp_all add: add_segment_def segments_of_def\<close>)
qed

lemma segments_of_fold:
  "list_all plain_segment ps \<Longrightarrow> r = [] \<or> r = ''/'' \<or> last r \<noteq> CHR ''/'' \<Longrightarrow>
    segments_of (fold add_segment ps r) = segments_of r @ ps"
proof (induction ps arbitrary: r)
  case (Cons p ps)
  then show ?case using segments_of_add [of p r] by simp
qed simp

text \<open>
  What \<open>normalizePath\<close> computes: the segments left by the dot segments, none of them special, and a
  path that is absolute when the given one is.
\<close>

lemma normalizePath_segments:
  "segments_of (normalizePath path) = fold push_segment (split_slash path) []"
  "list_all plain_segment (segments_of (normalizePath path))"
proof -
  let ?segs = "fold push_segment (split_slash path) []"
  let ?r = "fold add_segment ?segs (if path \<noteq> [] \<and> hd path = CHR ''/'' then ''/'' else [])"
  have plain: "list_all plain_segment ?segs"
    using split_slash_pieces [of _ path] by (intro push_segments_plain) auto
  have "segments_of ?r = ?segs"
    using segments_of_fold [OF plain, of "if path \<noteq> [] \<and> hd path = CHR ''/'' then ''/'' else []"]
    by (simp add: segments_of_def)
  moreover have "normalizePath path = ?r \<or> normalizePath path = ?r @ ''/''"
    unfolding normalizePath_def Let_def by simp
  ultimately show "segments_of (normalizePath path) = ?segs" using segments_of_slash by metis
  with plain show "list_all plain_segment (segments_of (normalizePath path))" by simp
qed

end
