(* ===== verification/Schema_Dialect.thy ===== *)
theory Schema_Dialect
  imports Schema_Uri Schema_Value Json_Pointer
begin

section \<open>Options, diagnostics and dialects of the validator\<close>

text \<open>
  The public records of \<open>pjson_schema.h\<close> and the dialect policies of \<open>pjson_schema_dialect.cpp\<close>. The
  caller's resolver is a function from a document URI: an answer with a schema, no answer, or an
  exception.
\<close>

subsection \<open>Diagnostics\<close>

datatype SchemaError_Code =
    Schema_None
  | FalseSchema
  | TypeMismatch
  | ConstMismatch
  | EnumMismatch
  | NumericConstraint
  | StringConstraint
  | ArrayConstraint
  | ObjectConstraint
  | FormatMismatch
  | CombinatorMismatch
  | ReferenceFailure
  | ReferenceCycle
  | RegexFailure
  | UnsupportedKeyword
  | InvalidSchema
  | UnsupportedDialect
  | UnsupportedVocabulary
  | ResolverFailure
  | Schema_ResourceLimit
  | Schema_AllocationFailure
  | Schema_InternalError

datatype SchemaError_Category = InstanceValidation | SchemaCompilation

datatype SchemaError =
  SchemaError
    (se_code: SchemaError_Code)
    (se_category: SchemaError_Category)
    (se_instanceLocation: string)
    (se_schemaLocation: string)
    (se_keyword: string)
    (se_message: string)
    (se_causes: "SchemaError list")

subsection \<open>Options\<close>

type_synonym resolver = "string \<Rightarrow> cpp_exception + json option"

record SchemaOptions =
  op_maxRegexPatternBytes :: nat
  op_maxRegexSubjectBytes :: nat
  op_allowUnsafeRegex :: bool
  op_maxValidationDepth :: nat
  op_maxRefResolutions :: nat
  op_maxValidationWork :: nat
  op_maxErrors :: nat
  op_stopAfterFirstError :: bool
  op_collectNestedCauses :: bool
  op_validateFormats :: bool
  op_strictSubset :: bool
  op_refSiblings :: bool
  op_resolveCustomDialects :: bool
  op_retrievalUri :: string
  op_defaultDialectUri :: string
  op_resolver :: "resolver option"
  op_maxResolvedDocuments :: nat
  op_maxResolvedBytes :: nat

definition documentedSubsetDialect :: string where
  "documentedSubsetDialect = ''urn:bytedance:pjson:schema:documented-subset:2''"

definition documentedSubsetVocabulary :: string where
  "documentedSubsetVocabulary = ''urn:bytedance:pjson:schema:vocabulary:documented-subset:2''"

definition draft2020Dialect :: string where
  "draft2020Dialect = ''https://json-schema.org/draft/2020-12/schema''"

definition kSchemaValidationDepthHardLimit :: nat where
  "kSchemaValidationDepthHardLimit = 32"

definition default_schema_options :: SchemaOptions where
  "default_schema_options =
     \<lparr>op_maxRegexPatternBytes = 256,
      op_maxRegexSubjectBytes = 4096,
      op_allowUnsafeRegex = False,
      op_maxValidationDepth = kSchemaValidationDepthHardLimit,
      op_maxRefResolutions = 1024,
      op_maxValidationWork = 1000000,
      op_maxErrors = 100,
      op_stopAfterFirstError = False,
      op_collectNestedCauses = False,
      op_validateFormats = True,
      op_strictSubset = False,
      op_refSiblings = False,
      op_resolveCustomDialects = False,
      op_retrievalUri = [],
      op_defaultDialectUri = documentedSubsetDialect,
      op_resolver = None,
      op_maxResolvedDocuments = 32,
      op_maxResolvedBytes = 16 * 1024 * 1024\<rparr>"

definition trustedRegex :: SchemaOptions where
  "trustedRegex =
     default_schema_options
       \<lparr>op_maxRegexPatternBytes := 0, op_maxRegexSubjectBytes := 0, op_allowUnsafeRegex := True\<rparr>"

definition strict_options :: SchemaOptions where
  "strict_options = default_schema_options\<lparr>op_strictSubset := True\<rparr>"

definition modernSubset :: SchemaOptions where
  "modernSubset = default_schema_options\<lparr>op_refSiblings := True, op_validateFormats := False\<rparr>"

definition draft2020 :: SchemaOptions where
  "draft2020 = modernSubset\<lparr>op_defaultDialectUri := draft2020Dialect, op_resolveCustomDialects := True\<rparr>"

subsection \<open>Limits\<close>

definition diagnosticLimit :: "SchemaOptions \<Rightarrow> nat" where
  "diagnosticLimit opts =
     (if op_stopAfterFirstError opts then 1
      else if op_maxErrors opts = 0 then 100 else op_maxErrors opts)"

definition validationDepthLimit :: "SchemaOptions \<Rightarrow> nat" where
  "validationDepthLimit opts =
     (let requested = (if op_maxValidationDepth opts = 0 then kSchemaValidationDepthHardLimit
                       else op_maxValidationDepth opts)
      in min requested kSchemaValidationDepthHardLimit)"

definition validationRefLimit :: "SchemaOptions \<Rightarrow> nat" where
  "validationRefLimit opts = (if op_maxRefResolutions opts = 0 then 1024 else op_maxRefResolutions opts)"

definition validationWorkLimit :: "SchemaOptions \<Rightarrow> nat" where
  "validationWorkLimit opts = (if op_maxValidationWork opts = 0 then 1000000 else op_maxValidationWork opts)"

definition resolvedDocumentLimit :: "SchemaOptions \<Rightarrow> nat" where
  "resolvedDocumentLimit opts = (if op_maxResolvedDocuments opts = 0 then 32 else op_maxResolvedDocuments opts)"

definition resolvedByteLimit :: "SchemaOptions \<Rightarrow> nat" where
  "resolvedByteLimit opts =
     (if op_maxResolvedBytes opts = 0 then 16 * 1024 * 1024 else op_maxResolvedBytes opts)"

lemma diagnosticLimit_pos: "0 < diagnosticLimit opts"
  by (simp add: diagnosticLimit_def)

subsection \<open>Vocabularies\<close>

datatype Vocabulary =
    VCore
  | VApplicator
  | VUnevaluated
  | VValidation
  | VMetadata
  | VFormatAnnotation
  | VFormatAssertion
  | VContent

fun vocabulary_bit :: "Vocabulary \<Rightarrow> u32" where
  "vocabulary_bit VCore = 1"
| "vocabulary_bit VApplicator = 2"
| "vocabulary_bit VUnevaluated = 4"
| "vocabulary_bit VValidation = 8"
| "vocabulary_bit VMetadata = 16"
| "vocabulary_bit VFormatAnnotation = 32"
| "vocabulary_bit VFormatAssertion = 64"
| "vocabulary_bit VContent = 128"

record DialectPolicy =
  dp_vocabularies :: u32
  dp_refSiblings :: bool
  dp_assertFormats :: bool

definition default_policy :: DialectPolicy where
  "default_policy = \<lparr>dp_vocabularies = 0, dp_refSiblings = False, dp_assertFormats = False\<rparr>"

definition hasVocabulary :: "DialectPolicy \<Rightarrow> Vocabulary \<Rightarrow> bool" where
  "hasVocabulary policy v \<longleftrightarrow> (dp_vocabularies policy AND vocabulary_bit v) \<noteq> 0"

definition vocabulary_prefix :: string where
  "vocabulary_prefix = ''https://json-schema.org/draft/2020-12/vocab/''"

definition vocabularyForUri :: "string \<Rightarrow> Vocabulary option" where
  "vocabularyForUri uri =
     (if \<not> has_prefix vocabulary_prefix uri then None
      else
        map_of
          [(''core'', VCore), (''applicator'', VApplicator), (''unevaluated'', VUnevaluated),
           (''validation'', VValidation), (''meta-data'', VMetadata),
           (''format-annotation'', VFormatAnnotation), (''content'', VContent)]
          (drop (length vocabulary_prefix) uri))"

definition subsetPolicy :: "SchemaOptions \<Rightarrow> DialectPolicy" where
  "subsetPolicy opts =
     \<lparr>dp_vocabularies = fold (\<lambda>v w. w OR vocabulary_bit v)
        [VApplicator, VUnevaluated, VValidation, VMetadata, VFormatAnnotation, VFormatAssertion, VContent]
        (vocabulary_bit VCore),
      dp_refSiblings = op_refSiblings opts,
      dp_assertFormats = op_validateFormats opts\<rparr>"

definition draft2020Policy :: "SchemaOptions \<Rightarrow> DialectPolicy" where
  "draft2020Policy opts =
     \<lparr>dp_vocabularies = fold (\<lambda>v w. w OR vocabulary_bit v)
        [VApplicator, VUnevaluated, VValidation, VMetadata, VFormatAnnotation, VContent]
        (vocabulary_bit VCore),
      dp_refSiblings = True,
      dp_assertFormats = op_validateFormats opts\<rparr>"

lemma policies_cover:
  "hasVocabulary (subsetPolicy opts) v"
  "hasVocabulary (draft2020Policy opts) v \<longleftrightarrow> v \<noteq> VFormatAssertion"
  by (cases v; simp add: hasVocabulary_def subsetPolicy_def draft2020Policy_def)+

subsection \<open>Nodes of documents\<close>

text \<open>
  A pointer to a value inside a document that does not change while it is used: the identity of the
  node, which is a document and a path in it, and the value. The temporary string of a property
  name is a node of its own.
\<close>

datatype node_step = At step | Name_of string

type_synonym node_id = "nat \<times> node_step list"

record pnode =
  pn_id :: node_id
  pn_value :: json

definition root_node :: "nat \<Rightarrow> json \<Rightarrow> pnode" where
  "root_node document v = \<lparr>pn_id = (document, []), pn_value = v\<rparr>"

definition below :: "pnode \<Rightarrow> node_step list \<Rightarrow> json \<Rightarrow> pnode" where
  "below n steps v = \<lparr>pn_id = (fst (pn_id n), snd (pn_id n) @ steps), pn_value = v\<rparr>"

definition node_find :: "pnode \<Rightarrow> string \<Rightarrow> pnode option" where
  "node_find n key = map_option (below n [At (Member key)]) (find_key (pn_value n) key)"

definition node_index :: "pnode \<Rightarrow> nat \<Rightarrow> pnode option" where
  "node_index n i = map_option (below n [At (Elem i)]) (find_index (pn_value n) i)"

definition node_findPointer :: "pnode \<Rightarrow> string \<Rightarrow> pnode option" where
  "node_findPointer n pointer =
     (case findPointer (pn_value n) pointer of
        Inl e \<Rightarrow> None
      | Inr (at, v) \<Rightarrow> Some (below n (map At at) v))"

definition name_node :: "pnode \<Rightarrow> string \<Rightarrow> pnode" where
  "name_node n key = below n [Name_of key] (assign_string pjson_null key)"

definition pointerAppend :: "string \<Rightarrow> string \<Rightarrow> string" where
  "pointerAppend base token = base @ ''/'' @ escapePointerToken token"

definition absoluteSchemaLocation :: "string \<Rightarrow> string \<Rightarrow> string" where
  "absoluteSchemaLocation documentUri pointer =
     (if documentUri = [] then pointer else stripFragment documentUri @ ''#'' @ pointer)"

subsection \<open>The compiled index\<close>

text \<open>A resource always has a root; the maps are lists of pairs with one entry for each key.\<close>

record SchemaResource =
  sr_root :: pnode
  sr_baseUri :: string
  sr_policy :: DialectPolicy

record SchemaTarget =
  tg_schema :: pnode
  tg_resourceRoot :: pnode
  tg_baseUri :: string
  tg_location :: string
  tg_policy :: DialectPolicy

record ResolvedDocument =
  rd_requestedUri :: string
  rd_schema :: pnode

record CompiledSchemaIndex =
  ci_documents :: "ResolvedDocument list"
  ci_dialectDocuments :: "ResolvedDocument list"
  ci_resources :: "(string \<times> SchemaResource) list"
  ci_anchors :: "(string \<times> SchemaTarget) list"
  ci_dynamicAnchors :: "(string \<times> SchemaTarget) list"
  ci_nodeTargets :: "(node_id \<times> SchemaTarget) list"
  ci_pendingDocuments :: "string list"
  ci_failedDocuments :: "string list"
  ci_resolvedBytes :: nat
  ci_workUsed :: nat

definition empty_index :: CompiledSchemaIndex where
  "empty_index =
     \<lparr>ci_documents = [], ci_dialectDocuments = [], ci_resources = [], ci_anchors = [],
      ci_dynamicAnchors = [], ci_nodeTargets = [], ci_pendingDocuments = [], ci_failedDocuments = [],
      ci_resolvedBytes = 0, ci_workUsed = 0\<rparr>"

text \<open>
  The target of an absolute reference: a resource's root, an anchor or a pointer into the resource.
  \<open>resolve_target\<close> is the code \<open>resolveCompiledTarget\<close> and \<open>resolveSchemaReference\<close> have in common, and
  says how it fails.
\<close>

datatype resolve_failure = Unknown_resource | Unknown_anchor | Unknown_pointer

definition resolve_target :: "CompiledSchemaIndex \<Rightarrow> string \<Rightarrow> string \<Rightarrow> string \<Rightarrow> resolve_failure + SchemaTarget" where
  "resolve_target index document fragment decoded =
     (case map_of (ci_resources index) document of
        None \<Rightarrow> Inl Unknown_resource
      | Some resource \<Rightarrow>
          let root = sr_root resource
          in if fragment = [] then
               Inr \<lparr>tg_schema = root, tg_resourceRoot = root, tg_baseUri = sr_baseUri resource,
                    tg_location = absoluteSchemaLocation document [], tg_policy = sr_policy resource\<rparr>
             else if decoded = [] \<or> hd decoded \<noteq> CHR ''/'' then
               (case map_of (ci_anchors index) (document @ ''#'' @ decoded) of
                  None \<Rightarrow> Inl Unknown_anchor
                | Some target \<Rightarrow> Inr target)
             else
               (case node_findPointer root decoded of
                  None \<Rightarrow> Inl Unknown_pointer
                | Some selected \<Rightarrow>
                    (case map_of (ci_nodeTargets index) (pn_id selected) of
                       None \<Rightarrow>
                         Inr \<lparr>tg_schema = selected, tg_resourceRoot = root, tg_baseUri = sr_baseUri resource,
                              tg_location = absoluteSchemaLocation document decoded, tg_policy = sr_policy resource\<rparr>
                     | Some target \<Rightarrow> Inr target)))"

definition resolveCompiledTarget ::
    "string \<Rightarrow> string \<Rightarrow> CompiledSchemaIndex \<Rightarrow> SchemaTarget option" where
  "resolveCompiledTarget reference baseUri index =
     (case splitReference (resolveUri baseUri reference) of
        (document0, fragment) \<Rightarrow>
          let document = (if document0 = [] then stripFragment baseUri else document0)
          in if map_of (ci_resources index) document = None then None
             else
               (case (if fragment = [] then Some [] else percentDecodeFragment fragment) of
                  None \<Rightarrow> None
                | Some decoded \<Rightarrow>
                    (case resolve_target index document fragment decoded of
                       Inl e \<Rightarrow> None
                     | Inr target \<Rightarrow> Some target)))"

end
