(* ===== verification/Schema_Format.thy ===== *)
theory Schema_Format
  imports Schema_Uri Decimal
begin

section \<open>Patterns and formats\<close>

text \<open>
  \<open>pjson_schema_regex.cpp\<close> in front of the vendored regular-expression engine, and the string
  formats of \<open>pjson_schema_format.cpp\<close>. The engine is a parameter: whether it accepts a pattern and
  what it answers for a subject. Calendar and clock numbers have at most four digits, so the code's
  \<open>int\<close> is a natural; only the time zone offset is signed.
\<close>

subsection \<open>Patterns\<close>

datatype srell_error = error_complexity | error_stack | error_other

record regex_engine =
  srell_assign :: "string \<Rightarrow> bool"
  srell_search :: "string \<Rightarrow> string \<Rightarrow> srell_error + bool"

datatype regex_result = Match | NoMatch | Invalid | WorkLimit

text \<open>The characters behind a backslash: what is left, or \<^const>\<open>None\<close> for a refused escape.\<close>

definition ecma_escape :: "string \<Rightarrow> string option" where
  "ecma_escape rest =
     (case rest of
        [] \<Rightarrow> None
      | escaped # cs \<Rightarrow>
          if escaped = CHR ''c'' then
            (if cs = [] \<or> \<not> is_alpha (hd cs) then None else Some (tl cs))
          else if escaped = CHR ''p'' \<or> escaped = CHR ''P'' then
            (if cs = [] \<or> hd cs \<noteq> CHR ''{'' then None
             else
               (let behind = from_first (\<lambda>c. c = CHR ''}'') (tl cs)
                in if behind = [] \<or> before (\<lambda>c. c = CHR ''}'') (tl cs) = [] then None else Some (tl behind)))
          else if is_alpha escaped \<and> escaped \<notin> set ''bBfnrtvxdDsSwWuk'' then None
          else Some cs)"

lemma from_first_length: "length (from_first P s) \<le> length s"
  by (simp add: from_first_def length_dropWhile_le)

lemma ecma_escape_shorter: "ecma_escape cs = Some r \<Longrightarrow> length r \<le> length cs"
proof -
  have "length (tl (from_first P (tl xs))) \<le> length xs" for P :: "char \<Rightarrow> bool" and xs
    by (metis diff_le_self dual_order.trans length_tl from_first_length)
  then show "ecma_escape cs = Some r \<Longrightarrow> length r \<le> length cs"
    by (fastforce simp: ecma_escape_def Let_def le_SucI split: list.splits if_splits)
qed

definition group_extension :: "string \<Rightarrow> bool" where
  "group_extension cs \<longleftrightarrow>
     length cs \<ge> 2 \<and> cs ! 0 = CHR ''?'' \<and> cs ! 1 \<in> set ''P#ims-''"

text \<open>Whether a class is open and how many groups are.\<close>

function ecma_scan :: "string \<Rightarrow> bool \<Rightarrow> nat \<Rightarrow> bool" where
  "ecma_scan [] inClass groups = (\<not> inClass \<and> groups = 0)"
| "ecma_scan (c # cs) inClass groups =
     (if c = backslash then
        (case ecma_escape cs of None \<Rightarrow> False | Some r \<Rightarrow> ecma_scan r inClass groups)
      else if c = CHR ''['' \<and> \<not> inClass then ecma_scan cs True groups
      else if c = CHR '']'' \<and> inClass then ecma_scan cs False groups
      else if inClass then ecma_scan cs inClass groups
      else if c = CHR ''('' then
        (if group_extension cs then False else ecma_scan cs inClass (Suc groups))
      else if c = CHR '')'' then
        (if groups = 0 then False else ecma_scan cs inClass (groups - 1))
      else ecma_scan cs inClass groups)"
  by pat_completeness auto
termination ecma_scan
  by (relation "measure (\<lambda>(cs, inClass, groups). length cs)") (auto simp: le_imp_less_Suc ecma_escape_shorter)

definition validEcmaSyntaxSubset :: "string \<Rightarrow> bool" where
  "validEcmaSyntaxSubset pattern = ecma_scan pattern False 0"

fun hasUnsupportedGlobalModifiers :: "string \<Rightarrow> bool" where
  "hasUnsupportedGlobalModifiers (a # b # c # d # cs) =
     (if a = CHR ''('' \<and> b = CHR ''?'' \<and> c \<in> set ''ims-'' then True
      else hasUnsupportedGlobalModifiers (b # c # d # cs))"
| "hasUnsupportedGlobalModifiers _ = False"

definition regex_compile :: "regex_engine \<Rightarrow> string \<Rightarrow> bool" where
  "regex_compile engine pattern =
     (if \<not> validEcmaSyntaxSubset pattern \<or> hasUnsupportedGlobalModifiers pattern then False
      else srell_assign engine pattern)"

text \<open>A search with the pattern last compiled.\<close>

definition regex_search :: "regex_engine \<Rightarrow> string \<Rightarrow> string \<Rightarrow> regex_result" where
  "regex_search engine pattern subject =
     (case srell_search engine pattern subject of
        Inr found \<Rightarrow> if found then Match else NoMatch
      | Inl code \<Rightarrow> if code = error_complexity \<or> code = error_stack then WorkLimit else Invalid)"

definition validEcmaRegex :: "regex_engine \<Rightarrow> string \<Rightarrow> bool" where
  "validEcmaRegex engine pattern = regex_compile engine pattern"

subsection \<open>Dates and times\<close>

definition parseFixedDigits :: "string \<Rightarrow> nat \<Rightarrow> nat \<Rightarrow> nat option" where
  "parseFixedDigits s offset count =
     (if offset > length s \<or> count > length s - offset then None
      else
        let ds = take count (drop offset s)
        in if list_all is_digit ds then Some (digits_value 0 ds) else None)"

definition isLeapYear :: "nat \<Rightarrow> bool" where
  "isLeapYear year \<longleftrightarrow> year mod 4 = 0 \<and> (year mod 100 \<noteq> 0 \<or> year mod 400 = 0)"

definition month_days :: "nat list" where
  "month_days = [31, 28, 31, 30, 31, 30, 31, 31, 30, 31, 30, 31]"

definition validDate :: "string \<Rightarrow> bool" where
  "validDate s =
     (if length s \<noteq> 10 \<or> s ! 4 \<noteq> CHR ''-'' \<or> s ! 7 \<noteq> CHR ''-'' then False
      else
        case (parseFixedDigits s 0 4, parseFixedDigits s 5 2, parseFixedDigits s 8 2) of
          (Some year, Some month, Some day) \<Rightarrow>
            if month < 1 \<or> month > 12 \<or> day < 1 then False
            else
              (let maxDay = (if month = 2 \<and> isLeapYear year then 29 else month_days ! (month - 1))
               in day \<le> maxDay)
        | _ \<Rightarrow> False)"

text \<open>The fraction of a second behind position 8: what follows it.\<close>

definition skip_fraction :: "string \<Rightarrow> string option" where
  "skip_fraction rest =
     (if rest \<noteq> [] \<and> hd rest = CHR ''.'' then
        (let digits = takeWhile is_digit (tl rest)
         in if digits = [] then None else Some (dropWhile is_digit (tl rest)))
      else Some rest)"

text \<open>The offset in minutes; nothing may follow it.\<close>

definition zone_offset :: "string \<Rightarrow> int option" where
  "zone_offset rest =
     (if rest \<noteq> [] \<and> (hd rest = CHR ''Z'' \<or> hd rest = CHR ''z'') then
        (if tl rest \<noteq> [] then None else Some 0)
      else if length rest \<noteq> 6 \<or> hd rest \<noteq> CHR ''+'' \<and> hd rest \<noteq> CHR ''-'' \<or> rest ! 3 \<noteq> CHR '':'' then None
      else
        case (parseFixedDigits rest 1 2, parseFixedDigits rest 4 2) of
          (Some offsetHour, Some offsetMinute) \<Rightarrow>
            if offsetHour > 23 \<or> offsetMinute > 59 then None
            else
              (let minutes = int (offsetHour * 60 + offsetMinute)
               in Some (if hd rest = CHR ''-'' then - minutes else minutes))
        | _ \<Rightarrow> None)"

text \<open>A leap second lies at the end of a day in UTC; \<open>%\<close> truncates and the code adds a day to a negative rest.\<close>

definition validTime :: "string \<Rightarrow> bool" where
  "validTime s =
     (if length s < 9 \<or> s ! 2 \<noteq> CHR '':'' \<or> s ! 5 \<noteq> CHR '':'' then False
      else
        case (parseFixedDigits s 0 2, parseFixedDigits s 3 2, parseFixedDigits s 6 2) of
          (Some hour, Some minute, Some second) \<Rightarrow>
            if hour > 23 \<or> minute > 59 \<or> second > 60 then False
            else
              (case skip_fraction (drop 8 s) of
                 None \<Rightarrow> False
               | Some rest \<Rightarrow>
                   (case zone_offset rest of
                      None \<Rightarrow> False
                    | Some offsetMinutes \<Rightarrow>
                        second = 60 \<longrightarrow> (int (hour * 60 + minute) - offsetMinutes) mod (24 * 60) = 23 * 60 + 59))
        | _ \<Rightarrow> False)"

subsection \<open>Addresses and identifiers\<close>

text \<open>The digits of an octet: what follows them, \<^const>\<open>None\<close> once it passes 255.\<close>

fun read_octet :: "nat \<Rightarrow> string \<Rightarrow> string option" where
  "read_octet octet [] = Some []"
| "read_octet octet (c # cs) =
     (if is_digit c then
        (if octet * 10 + digit_value c > 255 then None else read_octet (octet * 10 + digit_value c) cs)
      else Some (c # cs))"

definition ipv4_part :: "string \<Rightarrow> string option" where
  "ipv4_part s =
     (case read_octet 0 s of
        None \<Rightarrow> None
      | Some rest \<Rightarrow>
          let digits = length s - length rest
          in if digits = 0 \<or> digits > 3 \<or> digits > 1 \<and> hd s = CHR ''0'' then None else Some rest)"

text \<open>The parts behind the first, each behind a point.\<close>

fun ipv4_parts :: "nat \<Rightarrow> string \<Rightarrow> bool" where
  "ipv4_parts 0 s = (s = [])"
| "ipv4_parts (Suc n) s =
     (if s = [] \<or> hd s \<noteq> CHR ''.'' then False
      else case ipv4_part (tl s) of None \<Rightarrow> False | Some rest \<Rightarrow> ipv4_parts n rest)"

definition validIPv4 :: "string \<Rightarrow> bool" where
  "validIPv4 s = (case ipv4_part s of None \<Rightarrow> False | Some rest \<Rightarrow> ipv4_parts 3 rest)"

text \<open>The units of one side, counted on from \<open>units\<close>.\<close>

function ipv6_tokens :: "bool \<Rightarrow> string \<Rightarrow> nat \<Rightarrow> nat option" where
  "ipv6_tokens mayContainIPv4 side units =
     (let colon = (\<lambda>c. c = CHR '':'');
          token = before colon side;
          tail = from_first colon side
      in if token = [] then None
         else
           let counted =
             (if CHR ''.'' \<in> set token then
                (if \<not> mayContainIPv4 \<or> tail \<noteq> [] \<or> \<not> validIPv4 token then None else Some (units + 2))
              else if length token > 4 then None
              else if \<not> list_all isAsciiHex token then None
              else Some (units + 1))
           in case counted of
                None \<Rightarrow> None
              | Some units' \<Rightarrow>
                  if tail = [] then Some units'
                  else if tl tail = [] then None
                  else ipv6_tokens mayContainIPv4 (tl tail) units')"
  by pat_completeness auto
termination ipv6_tokens
proof (relation "measure (\<lambda>(may, side, units). length side)", goal_cases)
  case (2 may side units colon token tail counted units')
  have "length side = length token + length tail" unfolding 2 by (metis before_from length_append)
  moreover have "token \<noteq> []" "tail \<noteq> []" using 2 by blast+
  ultimately have "length (tl tail) < length side" by (cases tail; cases token) simp_all
  then show ?case by simp
qed simp

declare ipv6_tokens.simps [simp del]

definition parseIPv6Side :: "string \<Rightarrow> bool \<Rightarrow> nat \<Rightarrow> nat option" where
  "parseIPv6Side side mayContainIPv4 units =
     (if side = [] then Some units else ipv6_tokens mayContainIPv4 side units)"

text \<open>The text before and behind the first \<open>::\<close>.\<close>

fun split_compression :: "string \<Rightarrow> (string \<times> string) option" where
  "split_compression (a # b # cs) =
     (if a = CHR '':'' \<and> b = CHR '':'' then Some ([], cs)
      else map_option (\<lambda>(left, right). (a # left, right)) (split_compression (b # cs)))"
| "split_compression _ = None"

definition validIPv6 :: "string \<Rightarrow> bool" where
  "validIPv6 s =
     (if s = [] then False
      else
        case split_compression s of
          None \<Rightarrow> parseIPv6Side s True 0 = Some 8
        | Some (left, right) \<Rightarrow>
            if split_compression right \<noteq> None then False
            else
              (case parseIPv6Side left False 0 of
                 None \<Rightarrow> False
               | Some units \<Rightarrow>
                   (case parseIPv6Side right True units of
                      None \<Rightarrow> False
                    | Some units' \<Rightarrow> units' < 8)))"

definition uuid_dashes :: "nat set" where
  "uuid_dashes = {8, 13, 18, 23}"

definition validUuid :: "string \<Rightarrow> bool" where
  "validUuid s \<longleftrightarrow> length s = 36 \<and>
     list_all (\<lambda>i. if i \<in> uuid_dashes then s ! i = CHR ''-'' else isAsciiHex (s ! i)) [0..<36]"

text \<open>Whether the format is known, and whether the string has it.\<close>

definition knownFormatValid :: "regex_engine \<Rightarrow> string \<Rightarrow> string \<Rightarrow> bool \<times> bool" where
  "knownFormatValid engine format s =
     (if format = ''date'' then (True, validDate s)
      else if format = ''time'' then (True, validTime s)
      else if format = ''date-time'' then
        (True, length s > 11 \<and> (s ! 10 = CHR ''T'' \<or> s ! 10 = CHR ''t'')
           \<and> validDate (take 10 s) \<and> validTime (drop 11 s))
      else if format = ''ipv4'' then (True, validIPv4 s)
      else if format = ''ipv6'' then (True, validIPv6 s)
      else if format = ''uuid'' then (True, validUuid s)
      else if format = ''regex'' then (True, validEcmaRegex engine s)
      else (False, True))"

subsection \<open>What an IPv4 address is\<close>

lemma read_octet_run:
  assumes "list_all is_digit ds" "r = [] \<or> \<not> is_digit (hd r)" "a < 256"
  shows "read_octet a (ds @ r) = (if digits_value a ds > 255 then None else Some r)"
  using assms(1,3)
proof (induction ds arbitrary: a)
  case Nil
  then show ?case using assms(2) by (cases r) auto
next
  case (Cons d ds)
  have "a * 10 + digit_value d \<le> digits_value a (d # ds)" using digits_value_mono by simp
  with Cons show ?case by auto
qed

lemma ipv4_part_iff:
  assumes "r = [] \<or> \<not> is_digit (hd r)" "list_all is_digit ds"
  shows "ipv4_part (ds @ r) = (if \<exists>n < 256. ds = decimal n then Some r else None)"
proof -
  have read: "read_octet 0 (ds @ r) = (if digits_value 0 ds > 255 then None else Some r)"
    using read_octet_run [OF assms(2,1)] by simp
  have "(\<exists>n < 256. ds = decimal n) \<longleftrightarrow> digits_value 0 ds \<le> 255 \<and> canonical_decimal ds"
    proof -
    have "digits_value 0 ds < 256 \<longleftrightarrow> digits_value 0 ds \<le> 255" by linarith
    then show ?thesis unfolding canonical_decimal_iff by (metis digits_value_decimal)
  qed
  moreover have "length ds \<le> 3" if "digits_value 0 ds \<le> 255" "canonical_decimal ds"
  proof (rule ccontr)
    assume l: "\<not> length ds \<le> 3"
    obtain d ds' where d: "ds = d # ds'" using l by (cases ds) auto
    with l that(2) assms(2) have "d \<noteq> CHR ''0''" "is_digit d" by (auto simp: canonical_decimal_def)
    then have "digit_value d \<noteq> 0" using digit_char_value [of d] digit_char_zero [of "digit_value d"] digit_value_less by metis
    then have "1 \<le> digit_value d" by simp
    moreover have "a * 10 ^ length xs \<le> digits_value a xs" for a xs
    proof (induction xs arbitrary: a)
      case (Cons x xs)
      have "a * 10 ^ length (x # xs) \<le> (a * 10 + digit_value x) * 10 ^ length xs" by simp
      also have "\<dots> \<le> digits_value a (x # xs)" using Cons by simp
      finally show ?case .
    qed simp
    from this [of "digit_value d" ds'] have "digit_value d * 10 ^ length ds' \<le> digits_value 0 ds" by (simp add: d)
    moreover have "(10 :: nat) ^ 3 \<le> 10 ^ length ds'" using l d by (intro power_increasing) auto
    ultimately have "1 * 10 ^ 3 \<le> digits_value 0 ds" using mult_le_mono order_trans by blast
    then show False using that(1) by simp
  qed
  ultimately show ?thesis
    using assms(2) unfolding ipv4_part_def read by (cases ds) (auto simp: canonical_decimal_def)
qed

lemma ipv4_part_shape:
  "ipv4_part s = Some r \<longleftrightarrow> (\<exists>n < 256. s = decimal n @ r \<and> (r = [] \<or> \<not> is_digit (hd r)))"
proof -
  have digits: "list_all is_digit (takeWhile is_digit s)" by (auto simp: list_all_iff dest: set_takeWhileD)
  have stop: "dropWhile is_digit s = [] \<or> \<not> is_digit (hd (dropWhile is_digit s))" using hd_dropWhile by blast
  have "ipv4_part s = (if \<exists>n < 256. takeWhile is_digit s = decimal n then Some (dropWhile is_digit s) else None)"
    using ipv4_part_iff [OF stop digits] by simp
  moreover have "takeWhile is_digit s = decimal n \<and> dropWhile is_digit s = r \<longleftrightarrow>
      s = decimal n @ r \<and> (r = [] \<or> \<not> is_digit (hd r))" for n
  proof
    assume "takeWhile is_digit s = decimal n \<and> dropWhile is_digit s = r"
    with stop show "s = decimal n @ r \<and> (r = [] \<or> \<not> is_digit (hd r))" by (metis takeWhile_dropWhile_id)
  next
    assume "s = decimal n @ r \<and> (r = [] \<or> \<not> is_digit (hd r))"
    then show "takeWhile is_digit s = decimal n \<and> dropWhile is_digit s = r"
      using decimal_digits [of n] by (cases r) (auto simp: takeWhile_append2 dropWhile_append2 list_all_iff)
  qed
  ultimately show ?thesis by auto
qed

lemma ipv4_parts_Suc:
  "ipv4_parts (Suc n) s \<longleftrightarrow> (\<exists>k < 256. \<exists>r. s = CHR ''.'' # decimal k @ r \<and> (r = [] \<or> \<not> is_digit (hd r)) \<and> ipv4_parts n r)"
proof (cases s)
  case (Cons c cs)
  have "ipv4_parts (Suc n) (c # cs) \<longleftrightarrow> c = CHR ''.'' \<and> (\<exists>r. ipv4_part cs = Some r \<and> ipv4_parts n r)"
    by (cases "ipv4_part cs") simp_all
  then show ?thesis unfolding Cons ipv4_part_shape by (simp only: list.inject) blast
qed simp

text \<open>C40: The \<open>ipv4\<close> format accepts exactly the texts of four canonical decimals below 256 with points
  between them: no sign, no leading zero, no fifth part.\<close>

theorem validIPv4_shape:
  "validIPv4 s \<longleftrightarrow> (\<exists>a b c d. list_all (\<lambda>n. n < 256) [a, b, c, d]
    \<and> s = decimal a @ ''.'' @ decimal b @ ''.'' @ decimal c @ ''.'' @ decimal d)"
proof -
  have dot: "\<not> is_digit (CHR ''.'')" by (simp add: is_digit_def less_eq_char_def)
  note stops = dot list.sel(1)
  have last: "ipv4_parts 1 s \<longleftrightarrow> (\<exists>d < 256. s = CHR ''.'' # decimal d)" for s
    using ipv4_parts_Suc [of 0 s] by simp
  have step: "ipv4_parts (Suc (Suc n)) s \<longleftrightarrow> (\<exists>k < 256. \<exists>r. s = CHR ''.'' # decimal k @ r \<and> ipv4_parts (Suc n) r)" for n s
    unfolding ipv4_parts_Suc [of "Suc n" s] using ipv4_parts_Suc [of n] stops by (metis (no_types, lifting))
  have two: "ipv4_parts 2 s \<longleftrightarrow> (\<exists>c < 256. \<exists>d < 256. s = CHR ''.'' # decimal c @ CHR ''.'' # decimal d)" for s
    using step [of 0 s] last by (simp add: numeral_2_eq_2) blast
  have three: "ipv4_parts 3 s \<longleftrightarrow> (\<exists>b < 256. \<exists>c < 256. \<exists>d < 256.
      s = CHR ''.'' # decimal b @ CHR ''.'' # decimal c @ CHR ''.'' # decimal d)" for s
    using step [of 1 s] two by (simp add: numeral_2_eq_2 numeral_3_eq_3) blast
  have "validIPv4 s \<longleftrightarrow> (\<exists>r. ipv4_part s = Some r \<and> ipv4_parts 3 r)"
    by (cases "ipv4_part s") (simp_all add: validIPv4_def)
  also have "\<dots> \<longleftrightarrow> (\<exists>a < 256. \<exists>r. s = decimal a @ r \<and> ipv4_parts 3 r)"
    unfolding ipv4_part_shape three using stops by (metis (no_types, lifting))
  finally show ?thesis unfolding three by (simp only: list.pred_inject append.simps simp_thms) blast
qed

end
