(* ===== verification/Schema_State.thy ===== *)
theory Schema_State
  imports Schema_Dialect Schema_Format Json_Compare
begin

section \<open>The state of a validation run\<close>

text \<open>
  \<open>ValidationCtx\<close>, \<open>ErrorSink\<close> and the helpers of \<open>pjson_schema.cpp\<close> that charge budgets, report
  errors, evaluate patterns and compare values. The errors of a run are the caller's vector, which a
  public sink and \<open>ctx.publicErrors\<close> share; a sink for causes has a vector of its own, and what a
  discarding sink is given is dropped. The state carries the sink and the annotations of the
  function that runs; a call gives its callee others and takes its own back.

  A function of the code that returns \<open>false\<close> early, or is left by \<open>SchemaBudgetExceeded\<close>, is an
  \<^const>\<open>Inl\<close>. Allocation failure is not modelled, so \<open>publicErrors\<close> is never null.
\<close>

subsection \<open>State\<close>

datatype sink_mode = Public | Causes | Discard

datatype regex_state = Uninitialized | Ready | PatternTooLarge | UnsafePattern | InvalidPattern

record annotations =
  an_properties :: "string list"
  an_items :: "nat list"

definition no_annotations :: annotations where
  "no_annotations = \<lparr>an_properties = [], an_items = []\<rparr>"

text \<open>The sets of the code, kept as lists without order.\<close>

definition merge_annotations :: "annotations \<Rightarrow> annotations \<Rightarrow> annotations" where
  "merge_annotations other mine =
     \<lparr>an_properties = an_properties other @ an_properties mine, an_items = an_items other @ an_items mine\<rparr>"

record vstate =
  vs_publicErrors :: "SchemaError list"
  vs_depth :: nat
  vs_refResolutions :: nat
  vs_workUsed :: nat
  vs_errorsUsed :: nat
  vs_diagnosticsUsed :: nat
  vs_publicErrorStart :: nat
  vs_aborted :: bool
  vs_activeRefs :: "(node_id \<times> node_id) list"
  vs_regexCache :: "(string \<times> regex_state) list"
  vs_dynamicScope :: "SchemaTarget list"
  vs_mode :: sink_mode
  vs_values :: "SchemaError list"
  vs_failures :: nat
  vs_evaluated :: annotations

record vsetup =
  su_rootSchema :: pnode
  su_options :: SchemaOptions
  su_compiled :: CompiledSchemaIndex
  su_engine :: regex_engine
  su_d2s :: "double \<Rightarrow> string"

definition new_run :: "SchemaError list \<Rightarrow> vstate" where
  "new_run publicErrors =
     \<lparr>vs_publicErrors = publicErrors, vs_depth = 0, vs_refResolutions = 0, vs_workUsed = 0,
      vs_errorsUsed = 0, vs_diagnosticsUsed = 0, vs_publicErrorStart = length publicErrors,
      vs_aborted = False, vs_activeRefs = [], vs_regexCache = [], vs_dynamicScope = [],
      vs_mode = Public, vs_values = [], vs_failures = 0, vs_evaluated = no_annotations\<rparr>"

datatype vexit = Returned_false | Budget_exceeded | Out_of_fuel

type_synonym 'a vresult = "(vexit \<times> vstate) + ('a \<times> vstate)"

type_synonym vstep = "vstate \<Rightarrow> unit vresult"

subsection \<open>Control flow\<close>

definition done_step :: vstep where
  "done_step st = Inr ((), st)"

definition return_false :: vstep where
  "return_false st = Inl (Returned_false, st)"

definition then_step :: "vstep \<Rightarrow> vstep \<Rightarrow> vstep" where
  "then_step a b st = try_bind (a st) (\<lambda>(_, st1). b st1)"

definition steps_of :: "vstep list \<Rightarrow> vstep" where
  "steps_of ss = foldr then_step ss done_step"

definition when_step :: "bool \<Rightarrow> vstep \<Rightarrow> vstep" where
  "when_step c s = (if c then s else done_step)"

definition with_some :: "'a option \<Rightarrow> ('a \<Rightarrow> vstep) \<Rightarrow> vstep" where
  "with_some x f = (case x of None \<Rightarrow> done_step | Some a \<Rightarrow> f a)"

fun for_each :: "'a list \<Rightarrow> ('a \<Rightarrow> vstep) \<Rightarrow> vstep" where
  "for_each [] f = done_step"
| "for_each (x # xs) f = then_step (f x) (for_each xs f)"

text \<open>A loop whose condition ends with \<open>&& !ctx.aborted\<close>.\<close>

fun for_each_running :: "'a list \<Rightarrow> ('a \<Rightarrow> vstep) \<Rightarrow> vstep" where
  "for_each_running [] f st = Inr ((), st)"
| "for_each_running (x # xs) f st =
     (if vs_aborted st then Inr ((), st) else then_step (f x) (for_each_running xs f) st)"

text \<open>\<open>if (ctx.aborted) return false;\<close>\<close>

definition stop_if_aborted :: vstep where
  "stop_if_aborted st = (if vs_aborted st then Inl (Returned_false, st) else Inr ((), st))"

subsection \<open>Errors\<close>

definition schemaLocationFor :: "vsetup \<Rightarrow> pnode \<Rightarrow> string \<Rightarrow> string" where
  "schemaLocationFor su schema keyword =
     (let base = (case map_of (ci_nodeTargets (su_compiled su)) (pn_id schema) of
                    None \<Rightarrow> [] | Some target \<Rightarrow> tg_location target)
      in if keyword = [] then base else pointerAppend base keyword)"

definition validationError ::
    "vsetup \<Rightarrow> pnode \<Rightarrow> SchemaError_Code \<Rightarrow> string \<Rightarrow> string \<Rightarrow> string \<Rightarrow> SchemaError" where
  "validationError su schema code instanceLocation keyword message =
     SchemaError code InstanceValidation instanceLocation (schemaLocationFor su schema keyword) keyword message []"

definition msg_error_budget :: string where
  "msg_error_budget = ''schema validation error budget exceeded''"

text \<open>
  \<open>ErrorSink::push_back\<close>. The counter of failures is a natural; the code's guard against its overflow
  at 2^64 - 1 failures of one sink is left out.
\<close>

definition push_back :: "vsetup \<Rightarrow> SchemaError \<Rightarrow> vstep" where
  "push_back su error st0 =
     (if vs_aborted st0 then Inr ((), st0)
      else
        let st = st0\<lparr>vs_failures := Suc (vs_failures st0)\<rparr>;
            limit = diagnosticLimit (su_options su)
        in case vs_mode st of
             Discard \<Rightarrow> Inr ((), st)
           | Causes \<Rightarrow>
               if Suc (vs_diagnosticsUsed st) \<ge> limit then Inr ((), st)
               else Inr ((), st\<lparr>vs_values := vs_values st @ [error],
                      vs_diagnosticsUsed := Suc (vs_diagnosticsUsed st)\<rparr>)
           | Public \<Rightarrow>
               if vs_errorsUsed st \<ge> limit \<or> vs_diagnosticsUsed st \<ge> limit then
                 (let st1 = st\<lparr>vs_aborted := True\<rparr>
                  in if length (vs_publicErrors st) - vs_publicErrorStart st < limit
                        \<and> vs_diagnosticsUsed st < limit
                     then Inl (Budget_exceeded, st1\<lparr>
                            vs_publicErrors := vs_publicErrors st @
                              [SchemaError Schema_ResourceLimit InstanceValidation (se_instanceLocation error)
                                 (se_schemaLocation error) [] msg_error_budget []],
                            vs_diagnosticsUsed := Suc (vs_diagnosticsUsed st)\<rparr>)
                     else Inl (Budget_exceeded, st1))
               else
                 (let st1 = st\<lparr>vs_publicErrors := vs_publicErrors st @ [error],
                        vs_diagnosticsUsed := Suc (vs_diagnosticsUsed st),
                        vs_errorsUsed := Suc (vs_errorsUsed st)\<rparr>
                  in if op_stopAfterFirstError (su_options su)
                     then Inl (Budget_exceeded, st1\<lparr>vs_aborted := True\<rparr>)
                     else Inr ((), st1)))"

definition report_error ::
    "vsetup \<Rightarrow> pnode \<Rightarrow> SchemaError_Code \<Rightarrow> string \<Rightarrow> string \<Rightarrow> string \<Rightarrow> vstep" where
  "report_error su schema code path keyword message =
     push_back su (validationError su schema code path keyword message)"

text \<open>The answer of \<open>addSchemaError\<close> is ignored by every caller.\<close>

definition addSchemaError ::
    "vsetup \<Rightarrow> pnode \<Rightarrow> SchemaError_Code \<Rightarrow> string \<Rightarrow> string \<Rightarrow> string \<Rightarrow> vstep" where
  "addSchemaError su schema code path keyword message =
     push_back su (validationError su schema code path keyword message)"

definition bestEffortSchemaError :: "SchemaError_Code \<Rightarrow> string \<Rightarrow> string \<Rightarrow> vstate \<Rightarrow> vstate" where
  "bestEffortSchemaError code path message st =
     st\<lparr>vs_publicErrors := vs_publicErrors st @ [SchemaError code InstanceValidation path [] [] message []]\<rparr>"

subsection \<open>Budgets\<close>

definition failValidationBudget :: "vsetup \<Rightarrow> string \<Rightarrow> string \<Rightarrow> vstate \<Rightarrow> vstate" where
  "failValidationBudget su path message st =
     (if vs_aborted st then st
      else
        let st1 = st\<lparr>vs_aborted := True\<rparr>
        in if vs_errorsUsed st \<ge> diagnosticLimit (su_options su) then st1
           else (bestEffortSchemaError Schema_ResourceLimit path message st1)
                  \<lparr>vs_errorsUsed := Suc (vs_errorsUsed st), vs_diagnosticsUsed := Suc (vs_diagnosticsUsed st)\<rparr>)"

definition msg_work_budget :: string where
  "msg_work_budget = ''schema validation work budget exceeded''"

definition chargeValidationWork :: "vsetup \<Rightarrow> string \<Rightarrow> nat \<Rightarrow> vstate \<Rightarrow> bool \<times> vstate" where
  "chargeValidationWork su path amount st =
     (let limit = validationWorkLimit (su_options su)
      in if amount > limit - min (vs_workUsed st) limit
         then (False, failValidationBudget su path msg_work_budget st)
         else (True, st\<lparr>vs_workUsed := vs_workUsed st + amount\<rparr>))"

text \<open>\<open>if (!chargeLoopWork(...)) return false;\<close>\<close>

definition charge :: "vsetup \<Rightarrow> string \<Rightarrow> nat \<Rightarrow> vstep" where
  "charge su path amount st =
     (case chargeValidationWork su path amount st of
        (False, st1) \<Rightarrow> Inl (Returned_false, st1)
      | (True, st1) \<Rightarrow> Inr ((), st1))"

definition fail_budget :: "vsetup \<Rightarrow> string \<Rightarrow> string \<Rightarrow> vstep" where
  "fail_budget su path message st = Inl (Returned_false, failValidationBudget su path message st)"

text \<open>The number of characters: a byte that starts no sequence counts as one.\<close>

function unicode_count :: "vsetup \<Rightarrow> string \<Rightarrow> string \<Rightarrow> nat \<Rightarrow> nat \<Rightarrow> vstate \<Rightarrow> nat vresult" where
  "unicode_count su s path offset count st =
     (if offset \<ge> length s then Inr (count, st)
      else
        let bytes = schema_utf8Len s offset (length s);
            consumed = (if bytes > 0 then bytes else 1)
        in try_bind (charge su path consumed st) (\<lambda>(_, st1).
             unicode_count su s path (offset + consumed) (Suc count) st1))"
  by pat_completeness auto
termination unicode_count
  by (relation "measure (\<lambda>(su, s, path, offset, count, st). length s - offset)") (auto split: if_splits)

declare unicode_count.simps [simp del]

definition unicodeLength :: "vsetup \<Rightarrow> string \<Rightarrow> string \<Rightarrow> vstate \<Rightarrow> nat vresult" where
  "unicodeLength su s path st = unicode_count su s path 0 0 st"

subsection \<open>Patterns\<close>

text \<open>The state of a pattern that is not in the cache.\<close>

definition compile_pattern :: "vsetup \<Rightarrow> string \<Rightarrow> regex_state" where
  "compile_pattern su pattern =
     (let opts = su_options su
      in if op_maxRegexPatternBytes opts \<noteq> 0 \<and> length pattern > op_maxRegexPatternBytes opts then PatternTooLarge
         else if \<not> op_allowUnsafeRegex opts \<and> \<not> isSafeRegex pattern then UnsafePattern
         else if regex_compile (su_engine su) pattern then Ready else InvalidPattern)"

text \<open>The cached state, or the charge and the state it gets.\<close>

definition cached_pattern :: "vsetup \<Rightarrow> string \<Rightarrow> string \<Rightarrow> vstate \<Rightarrow> regex_state option \<times> vstate" where
  "cached_pattern su pattern path st =
     (let state = (case map_of (vs_regexCache st) pattern of None \<Rightarrow> Uninitialized | Some s \<Rightarrow> s)
      in if state \<noteq> Uninitialized then (Some state, st)
         else
           let st1 = st\<lparr>vs_regexCache := AList.update pattern Uninitialized (vs_regexCache st)\<rparr>
           in case chargeValidationWork su path (length pattern + 1) st1 of
                (False, st2) \<Rightarrow> (None, st2)
              | (True, st2) \<Rightarrow>
                  let new = compile_pattern su pattern
                  in (Some new, st2\<lparr>vs_regexCache := AList.update pattern new (vs_regexCache st2)\<rparr>))"

definition subject_message :: "vsetup \<Rightarrow> string \<Rightarrow> string" where
  "subject_message su subject =
     ''string exceeds regex safety limit ('' @ decimal (length subject) @ '' bytes, limit ''
       @ decimal (op_maxRegexSubjectBytes (su_options su)) @ '')''"

text \<open>\<^const>\<open>None\<close> is the result \<open>false\<close>: the pattern was not evaluated.\<close>

definition evaluateRegex ::
    "vsetup \<Rightarrow> string \<Rightarrow> string \<Rightarrow> string \<Rightarrow> pnode \<Rightarrow> string \<Rightarrow> vstate \<Rightarrow> bool option vresult" where
  "evaluateRegex su subject pattern path schema keyword st =
     (let opts = su_options su;
          refuse = (\<lambda>code message st. try_bind (report_error su schema code path keyword message st)
             (\<lambda>(_, st1). Inr (None, st1)))
      in if op_maxRegexSubjectBytes opts \<noteq> 0 \<and> length subject > op_maxRegexSubjectBytes opts
         then refuse Schema_ResourceLimit (subject_message su subject) st
         else
           case cached_pattern su pattern path st of
             (None, st1) \<Rightarrow> Inr (None, st1)
           | (Some PatternTooLarge, st1) \<Rightarrow> refuse RegexFailure ''schema regex pattern exceeds safety limit'' st1
           | (Some UnsafePattern, st1) \<Rightarrow> refuse RegexFailure ''schema regex pattern rejected by safety policy'' st1
           | (Some InvalidPattern, st1) \<Rightarrow> refuse RegexFailure ''schema has an invalid regex pattern'' st1
           | (Some _, st1) \<Rightarrow>
               (case chargeValidationWork su path (length subject + 1) st1 of
                  (False, st2) \<Rightarrow> Inr (None, st2)
                | (True, st2) \<Rightarrow>
                    (case regex_search (su_engine su) pattern subject of
                       WorkLimit \<Rightarrow> refuse Schema_ResourceLimit ''schema regex work limit exceeded'' st2
                     | Invalid \<Rightarrow> refuse RegexFailure ''schema regex evaluation failed'' st2
                     | Match \<Rightarrow> Inr (Some True, st2)
                     | NoMatch \<Rightarrow> Inr (Some False, st2))))"

subsection \<open>Equality\<close>

text \<open>
  The pairs of an object, pushed in the order of the members: each is charged for, and \<^const>\<open>None\<close>
  when the other object lacks the name.
\<close>

fun member_charges ::
    "vsetup \<Rightarrow> string \<Rightarrow> members \<Rightarrow> members \<Rightarrow> vstate \<Rightarrow> (json \<times> json) list option vresult" where
  "member_charges su path [] r st = Inr (Some [], st)"
| "member_charges su path ((k, lv) # ms) r st =
     try_bind (charge su path (length k + 1) st) (\<lambda>(_, st1).
       case map_of r k of
         None \<Rightarrow> Inr (None, st1)
       | Some rv \<Rightarrow>
           try_bind (member_charges su path ms r st1) (\<lambda>(ps, st2).
             Inr (map_option (Cons (lv, rv)) ps, st2)))"

text \<open>One pair: \<^const>\<open>None\<close> when it settles that the values differ, or the pairs to be pushed.\<close>

definition equal_pair ::
    "vsetup \<Rightarrow> string \<Rightarrow> json \<Rightarrow> json \<Rightarrow> vstate \<Rightarrow> (json \<times> json) list option vresult" where
  "equal_pair su path l r st =
     (if isNumber l \<and> isNumber r then
        Inr (if tryCompareNumber l r \<noteq> Some 0 then None else Some [], st)
      else if getType l \<noteq> getType r then Inr (None, st)
      else
        case (l, r) of
          (JBool lb, JBool rb) \<Rightarrow> Inr (if lb \<noteq> rb then None else Some [], st)
        | (JString ls, JString rs) \<Rightarrow>
            try_bind (charge su path (max (length ls) (length rs)) st) (\<lambda>(_, st1).
              Inr (if ls \<noteq> rs then None else Some [], st1))
        | (JArray ls, JArray rs) \<Rightarrow>
            Inr (if length ls \<noteq> length rs then None else Some (zip ls rs), st)
        | (JObject ls, JObject rs) \<Rightarrow>
            if length ls \<noteq> length rs then Inr (None, st) else member_charges su path ls rs st
        | _ \<Rightarrow> Inr (Some [], st))"

lemma charge_Inr: "charge su path n st = Inr (u, st1) \<Longrightarrow> st1 = st\<lparr>vs_workUsed := vs_workUsed st + n\<rparr>"
  by (auto simp: charge_def chargeValidationWork_def Let_def split: if_splits)

lemma member_charges_pairs:
  "member_charges su path l r st = Inr (ps, st1) \<Longrightarrow> ps = member_pairs l r"
  by (induction su path l r st arbitrary: ps st1 rule: member_charges.induct) (auto split: option.splits)

lemma equal_pair_node:
  "equal_pair su path l r st = Inr (ps, st1) \<Longrightarrow> ps = equal_node l r"
proof (cases "isNumber l \<and> isNumber r")
  case True
  moreover have "compareNumbers l r = 0 \<longleftrightarrow> tryCompareNumber l r = Some 0"
    using True by (simp add: tryCompareNumber_def Let_def)
  ultimately show "equal_pair su path l r st = Inr (ps, st1) \<Longrightarrow> ?thesis"
    by (auto simp: equal_pair_def equal_node_def)
next
  case False
  then show "equal_pair su path l r st = Inr (ps, st1) \<Longrightarrow> ?thesis"
    by (cases l; cases r)
      (auto simp: equal_pair_def equal_node_def isNumber_def dest: member_charges_pairs split: if_splits)
qed

function (sequential) equal_loop :: "vsetup \<Rightarrow> string \<Rightarrow> (json \<times> json) list \<Rightarrow> vstate \<Rightarrow> bool vresult" where
  "equal_loop su path [] st = Inr (True, st)"
| "equal_loop su path ((l, r) # work) st =
     try_bind (charge su path 1 st) (\<lambda>(_, st1).
     try_bind (equal_pair su path l r st1) (\<lambda>(ps, st2).
       case ps of
         None \<Rightarrow> Inr (False, st2)
       | Some ps \<Rightarrow> equal_loop su path (rev ps @ work) st2))"
  by pat_completeness auto
termination equal_loop
  by (relation "measure (\<lambda>(su, path, work, st). work_nodes work)")
    (auto dest!: equal_pair_node intro: equal_node_nodes [OF sym])

definition equalWithBudget :: "vsetup \<Rightarrow> string \<Rightarrow> json \<Rightarrow> json \<Rightarrow> vstate \<Rightarrow> bool vresult" where
  "equalWithBudget su path l r st = equal_loop su path [(l, r)] st"

lemma equal_loop_work: "equal_loop su path work st = Inr (b, st1) \<Longrightarrow> b = equal_work work"
proof (induction su path work st rule: equal_loop.induct)
  case (2 su path l r work st)
  then obtain s1 s2 ps where s: "charge su path 1 st = Inr ((), s1)" "equal_pair su path l r s1 = Inr (ps, s2)"
    "(case ps of None \<Rightarrow> Inr (False, s2) | Some ps \<Rightarrow> equal_loop su path (rev ps @ work) s2) = Inr (b, st1)"
    by auto
  show ?case
  proof (cases ps)
    case None
    with s equal_pair_node [OF s(2)] show ?thesis by auto
  next
    case (Some qs)
    then have q: "equal_node l r = Some qs" using equal_pair_node [OF s(2)] by simp
    have "equal_loop su path (rev qs @ work) s2 = Inr (b, st1)" using s(3) Some by simp
    from "2.IH" [OF s(1) refl s(2) refl Some this] q show ?thesis by simp
  qed
qed simp

text \<open>A comparison that stays inside the budget answers what \<open>operator==\<close> does.\<close>

lemma equalWithBudget_eq: "equalWithBudget su path l r st = Inr (b, st1) \<Longrightarrow> b = operator_eq l r"
  unfolding equalWithBudget_def operator_eq_def by (rule equal_loop_work)

end
