(* ===== verification/Schema_Validate.thy ===== *)
theory Schema_Validate
  imports Schema_State
begin

section \<open>The recursive validator\<close>

text \<open>
  \<open>validateCtx\<close> of \<open>pjson_schema.cpp\<close>, cut at its comments into one definition for each keyword or
  group of keywords. A block is given the recursive call as a parameter, so it is not recursive
  itself; the recursion counts its levels, and the depth limit of the options ends it before the
  count is used up. Nodes of the instance and of schemas are pointers with the values behind them.
\<close>

subsection \<open>Frames and calls\<close>

text \<open>What the code keeps about the schema it is at.\<close>

record position =
  cu_schema :: pnode
  cu_resourceRoot :: pnode
  cu_baseUri :: string
  cu_policy :: DialectPolicy

record frame =
  fr_node :: pnode
  fr_path :: string
  fr_at :: position

abbreviation fr_schema :: "frame \<Rightarrow> pnode" where "fr_schema fr \<equiv> cu_schema (fr_at fr)"

type_synonym validator =
  "pnode \<Rightarrow> pnode \<Rightarrow> string \<Rightarrow> pnode option \<Rightarrow> string \<Rightarrow> vstate \<Rightarrow> (bool \<times> annotations) vresult"

text \<open>A call whose answer is ignored.\<close>

definition descend :: "validator \<Rightarrow> pnode \<Rightarrow> pnode \<Rightarrow> string \<Rightarrow> vstep" where
  "descend validate node schema path st =
     try_bind (validate node schema path None [] st) (\<lambda>(_, st1). Inr ((), st1))"

definition merge_into :: "annotations \<Rightarrow> vstate \<Rightarrow> vstate" where
  "merge_into other st = st\<lparr>vs_evaluated := merge_annotations other (vs_evaluated st)\<rparr>"

text \<open>A call whose annotations are merged when it answers \<open>true\<close>.\<close>

definition in_place ::
    "validator \<Rightarrow> pnode \<Rightarrow> pnode \<Rightarrow> string \<Rightarrow> pnode option \<Rightarrow> string \<Rightarrow> vstep" where
  "in_place validate node schema path resourceRoot baseUri st =
     try_bind (validate node schema path resourceRoot baseUri st) (\<lambda>((valid, other), st1).
       Inr ((), if valid then merge_into other st1 else st1))"

text \<open>A call with a sink of its own, whose vector is given and returned.\<close>

definition speculate ::
    "validator \<Rightarrow> sink_mode \<Rightarrow> SchemaError list \<Rightarrow> pnode \<Rightarrow> pnode \<Rightarrow> string \<Rightarrow> vstate
      \<Rightarrow> (bool \<times> annotations \<times> SchemaError list) vresult" where
  "speculate validate mode values node schema path st =
     try_bind (validate node schema path None [] (st\<lparr>vs_mode := mode, vs_values := values, vs_failures := 0\<rparr>))
       (\<lambda>((valid, other), st1).
         Inr ((valid, other, vs_values st1),
           st1\<lparr>vs_mode := vs_mode st, vs_values := vs_values st, vs_failures := vs_failures st\<rparr>))"

definition mark_property :: "string \<Rightarrow> vstep" where
  "mark_property key st =
     Inr ((), st\<lparr>vs_evaluated := (vs_evaluated st)\<lparr>an_properties := key # an_properties (vs_evaluated st)\<rparr>\<rparr>)"

definition mark_item :: "nat \<Rightarrow> vstep" where
  "mark_item i st =
     Inr ((), st\<lparr>vs_evaluated := (vs_evaluated st)\<lparr>an_items := i # an_items (vs_evaluated st)\<rparr>\<rparr>)"

definition node_elements :: "pnode \<Rightarrow> pnode list" where
  "node_elements n =
     (case pn_value n of
        JArray xs \<Rightarrow> map (\<lambda>(i, v). below n [At (Elem i)] v) (enumerate 0 xs)
      | _ \<Rightarrow> [])"

definition json_elements :: "json \<Rightarrow> json list" where
  "json_elements v = (case v of JArray xs \<Rightarrow> xs | _ \<Rightarrow> [])"

definition keyword_of :: "Vocabulary \<Rightarrow> frame \<Rightarrow> string \<Rightarrow> pnode option" where
  "keyword_of vocabulary fr name =
     (if hasVocabulary (cu_policy (fr_at fr)) vocabulary then node_find (fr_schema fr) name else None)"

abbreviation validationKeyword :: "frame \<Rightarrow> string \<Rightarrow> pnode option" where
  "validationKeyword \<equiv> keyword_of VValidation"

abbreviation applicatorKeyword :: "frame \<Rightarrow> string \<Rightarrow> pnode option" where
  "applicatorKeyword \<equiv> keyword_of VApplicator"

abbreviation unevaluatedKeyword :: "frame \<Rightarrow> string \<Rightarrow> pnode option" where
  "unevaluatedKeyword \<equiv> keyword_of VUnevaluated"

definition fail_at :: "vsetup \<Rightarrow> frame \<Rightarrow> SchemaError_Code \<Rightarrow> string \<Rightarrow> string \<Rightarrow> vstep" where
  "fail_at su fr code keyword message = report_error su (fr_schema fr) code (fr_path fr) keyword message"

definition quoted :: "string \<Rightarrow> string" where
  "quoted s = dquote # s @ [dquote]"

subsection \<open>References\<close>

text \<open>\<open>resolveSchemaReference\<close>, with the \<open>return false\<close> of its callers.\<close>

definition resolveSchemaReference ::
    "vsetup \<Rightarrow> string \<Rightarrow> string \<Rightarrow> string \<Rightarrow> pnode \<Rightarrow> string \<Rightarrow> vstate \<Rightarrow> SchemaTarget vresult" where
  "resolveSchemaReference su reference baseUri path schema keyword st =
     (let absolute = resolveUri baseUri reference;
          refuse = (\<lambda>message. try_bind (report_error su schema ReferenceFailure path keyword message st)
             (\<lambda>(_, st1). Inl (Returned_false, st1)))
      in case splitReference absolute of
           (document0, fragment) \<Rightarrow>
             (case percentDecodeFragment fragment of
                None \<Rightarrow> refuse (''malformed schema reference: '' @ reference)
              | Some decodedFragment \<Rightarrow>
                  let document = (if document0 = [] then stripFragment baseUri else document0)
                  in case resolve_target (su_compiled su) document fragment decodedFragment of
                       Inr target \<Rightarrow> Inr (target, st)
                     | Inl Unknown_resource \<Rightarrow> refuse (''unresolved compiled schema resource: '' @ document)
                     | Inl Unknown_anchor \<Rightarrow> refuse (''unresolved schema anchor: '' @ absolute)
                     | Inl Unknown_pointer \<Rightarrow> refuse (''unresolved schema reference: '' @ reference)))"

definition msg_depth_budget :: string where
  "msg_depth_budget = ''schema validation depth budget exceeded''"

text \<open>The reference budget.\<close>

definition take_reference :: "vsetup \<Rightarrow> string \<Rightarrow> string \<Rightarrow> vstep" where
  "take_reference su path message st =
     (if vs_refResolutions st \<ge> validationRefLimit (su_options su) then fail_budget su path message st
      else Inr ((), st\<lparr>vs_refResolutions := Suc (vs_refResolutions st)\<rparr>))"

text \<open>The pair of node and schema must not be active already, and becomes active.\<close>

definition activate ::
    "vsetup \<Rightarrow> pnode \<Rightarrow> SchemaTarget \<Rightarrow> pnode \<Rightarrow> string \<Rightarrow> string \<Rightarrow> string \<Rightarrow> vstep" where
  "activate su node resolved schema path keyword message st =
     (let active = (pn_id node, pn_id (tg_schema resolved))
      in if active \<in> set (vs_activeRefs st) then
           then_step (report_error su schema ReferenceCycle path keyword message) return_false st
         else Inr ((), st\<lparr>vs_activeRefs := vs_activeRefs st @ [active]\<rparr>))"

definition msg_ref_budget :: string where
  "msg_ref_budget = ''schema $ref resolution budget exceeded''"

text \<open>A \<open>$ref\<close> that replaces its siblings: the schema it leads to.\<close>

definition follow_ref ::
    "vsetup \<Rightarrow> pnode \<Rightarrow> string \<Rightarrow> position \<Rightarrow> string \<Rightarrow> vstate \<Rightarrow> position vresult" where
  "follow_ref su node path cur refText st =
     try_bind (take_reference su path msg_ref_budget st) (\<lambda>(_, st1).
     try_bind (resolveSchemaReference su refText (cu_baseUri cur) path (cu_schema cur) ''$ref'' st1) (\<lambda>(resolved, st2).
     try_bind (activate su node resolved (cu_schema cur) path ''$ref''
                 (''schema reference cycle detected: '' @ refText) st2) (\<lambda>(_, st3).
     try_bind (charge su path 1 st3) (\<lambda>(_, st4).
       if vs_depth st4 \<ge> validationDepthLimit (su_options su) then
         Inl (Returned_false, failValidationBudget su path msg_depth_budget st4)
       else
         Inr (\<lparr>cu_schema = tg_schema resolved, cu_resourceRoot = tg_resourceRoot resolved,
               cu_baseUri = tg_baseUri resolved, cu_policy = tg_policy resolved\<rparr>,
              st4\<lparr>vs_depth := Suc (vs_depth st4)\<rparr>)))))"

text \<open>Nothing but \<open>follow_ref\<close> moves the depth of a running function.\<close>

lemma push_back_depth: "push_back su e st = Inr (u, st1) \<Longrightarrow> vs_depth st1 = vs_depth st"
  by (auto simp: push_back_def Let_def split: sink_mode.splits if_splits)

lemma charge_depth: "charge su path n st = Inr (u, st1) \<Longrightarrow> vs_depth st1 = vs_depth st"
  by (auto dest: charge_Inr)

lemma resolve_same: "resolveSchemaReference su reference baseUri path schema keyword st = Inr (t, st1) \<Longrightarrow> st1 = st"
  by (auto simp: resolveSchemaReference_def Let_def split: prod.splits option.splits sum.splits resolve_failure.splits)

lemma activate_depth: "activate su node resolved schema path keyword message st = Inr (u, st1) \<Longrightarrow> vs_depth st1 = vs_depth st"
  by (auto simp: activate_def then_step_def return_false_def Let_def split: if_splits)

lemma follow_ref_depth:
  assumes "follow_ref su node path cur refText st = Inr (cur', st1)"
  shows "vs_depth st1 = Suc (vs_depth st)" "vs_depth st < validationDepthLimit (su_options su)"
  using assms
  by (auto simp: follow_ref_def take_reference_def fail_budget_def split: if_splits
      dest!: charge_depth resolve_same activate_depth)

lemma follow_ref_measure:
  "follow_ref su node path cur refText st = Inr (cur', st1) \<Longrightarrow>
    validationDepthLimit (su_options su) - vs_depth st1 < validationDepthLimit (su_options su) - vs_depth st"
  using follow_ref_depth [of su node path cur refText st cur' st1] by simp

text \<open>\<^const>\<open>None\<close> is \<open>return true\<close>: the schema is \<open>true\<close>, or no schema at all.\<close>

function follow_refs :: "vsetup \<Rightarrow> pnode \<Rightarrow> string \<Rightarrow> position \<Rightarrow> vstate \<Rightarrow> position option vresult" where
  "follow_refs su node path cur st =
     (let schema = cu_schema cur
      in if isBool (pn_value schema) then
           (if \<not> boolOf (pn_value schema) then
              try_bind (report_error su schema FalseSchema path [] ''schema is false; no value is valid here'' st)
                (\<lambda>(_, st1). Inl (Returned_false, st1))
            else Inr (None, st))
         else if \<not> isObject (pn_value schema) then Inr (None, st)
         else
           case node_find schema ''$ref'' of
             None \<Rightarrow> Inr (Some cur, st)
           | Some ref \<Rightarrow>
               if \<not> isString (pn_value ref) \<or> dp_refSiblings (cu_policy cur) then Inr (Some cur, st)
               else
                 (case follow_ref su node path cur (strOf (pn_value ref)) st of
                    Inl e \<Rightarrow> Inl e
                  | Inr (cur', st1) \<Rightarrow> follow_refs su node path cur' st1))"
  by pat_completeness auto
termination follow_refs
  by (relation "measure (\<lambda>(su, node, path, cur, st). validationDepthLimit (su_options su) - vs_depth st)")
    (auto dest: follow_ref_measure)

declare follow_refs.simps [simp del]

text \<open>A reference next to other keywords: the referenced schema is applied to the node.\<close>

definition apply_reference ::
    "vsetup \<Rightarrow> validator \<Rightarrow> frame \<Rightarrow> SchemaTarget \<Rightarrow> string \<Rightarrow> string \<Rightarrow> vstep" where
  "apply_reference su validate fr resolved keyword message =
     steps_of
       [activate su (fr_node fr) resolved (fr_schema fr) (fr_path fr) keyword message,
        in_place validate (fr_node fr) (tg_schema resolved) (fr_path fr)
          (Some (tg_resourceRoot resolved)) (tg_baseUri resolved),
        stop_if_aborted]"

definition check_ref :: "vsetup \<Rightarrow> validator \<Rightarrow> frame \<Rightarrow> vstep" where
  "check_ref su validate fr =
     when_step (dp_refSiblings (cu_policy (fr_at fr)))
       (with_some (node_find (fr_schema fr) ''$ref'') (\<lambda>ref.
          when_step (isString (pn_value ref))
            (let refText = strOf (pn_value ref)
             in then_step (take_reference su (fr_path fr) msg_ref_budget)
                  (\<lambda>st. try_bind (resolveSchemaReference su refText (cu_baseUri (fr_at fr)) (fr_path fr)
                                   (fr_schema fr) ''$ref'' st) (\<lambda>(resolved, st1).
                     apply_reference su validate fr resolved ''$ref''
                       (''schema reference cycle detected: '' @ refText) st1)))))"

text \<open>The outermost resource in scope that declares the dynamic anchor.\<close>

fun first_dynamic :: "CompiledSchemaIndex \<Rightarrow> string \<Rightarrow> SchemaTarget list \<Rightarrow> SchemaTarget option" where
  "first_dynamic index fragment [] = None"
| "first_dynamic index fragment (scope # scopes) =
     (case map_of (ci_dynamicAnchors index) (tg_baseUri scope @ ''#'' @ fragment) of
        None \<Rightarrow> first_dynamic index fragment scopes
      | Some scoped \<Rightarrow> Some scoped)"

definition dynamic_target ::
    "CompiledSchemaIndex \<Rightarrow> string \<Rightarrow> SchemaTarget \<Rightarrow> SchemaTarget list \<Rightarrow> SchemaTarget" where
  "dynamic_target index fragment resolved scopes =
     (if fragment \<noteq> [] \<and> hd fragment \<noteq> CHR ''/'' \<and> isObject (pn_value (tg_schema resolved)) then
        (case node_find (tg_schema resolved) ''$dynamicAnchor'' of
           None \<Rightarrow> resolved
         | Some declaration \<Rightarrow>
             if isString (pn_value declaration) \<and> strOf (pn_value declaration) = fragment then
               (case first_dynamic index fragment scopes of None \<Rightarrow> resolved | Some scoped \<Rightarrow> scoped)
             else resolved)
      else resolved)"

definition check_dynamicRef :: "vsetup \<Rightarrow> validator \<Rightarrow> frame \<Rightarrow> vstep" where
  "check_dynamicRef su validate fr =
     with_some (node_find (fr_schema fr) ''$dynamicRef'') (\<lambda>dynamicRef.
       when_step (isString (pn_value dynamicRef))
         (let refText = strOf (pn_value dynamicRef);
              fragment = snd (splitReference (resolveUri (cu_baseUri (fr_at fr)) refText))
          in then_step (take_reference su (fr_path fr) ''schema $dynamicRef resolution budget exceeded'')
               (\<lambda>st. try_bind (resolveSchemaReference su refText (cu_baseUri (fr_at fr)) (fr_path fr)
                                (fr_schema fr) ''$dynamicRef'' st) (\<lambda>(resolved, st1).
                  apply_reference su validate fr
                    (dynamic_target (su_compiled su) fragment resolved (vs_dynamicScope st1)) ''$dynamicRef''
                    (''schema dynamic-reference cycle detected: '' @ refText) st1))))"

subsection \<open>Assertions on any value\<close>

definition supported_keywords :: "string list" where
  "supported_keywords =
     [''type'', ''enum'', ''const'', ''$ref'', ''properties'', ''patternProperties'', ''propertyNames'',
      ''required'', ''dependentRequired'', ''dependencies'', ''dependentSchemas'', ''additionalProperties'',
      ''minProperties'', ''maxProperties'', ''items'', ''prefixItems'', ''contains'', ''minContains'',
      ''maxContains'', ''minItems'', ''maxItems'', ''uniqueItems'', ''minimum'', ''maximum'',
      ''exclusiveMinimum'', ''exclusiveMaximum'', ''multipleOf'', ''minLength'', ''maxLength'', ''pattern'',
      ''format'', ''allOf'', ''anyOf'', ''oneOf'', ''not'', ''if'', ''then'', ''else'',
      ''$schema'', ''$id'', ''$anchor'', ''$dynamicAnchor'', ''$dynamicRef'', ''$vocabulary'', ''$defs'',
      ''$comment'', ''definitions'', ''title'', ''description'', ''default'', ''examples'', ''deprecated'',
      ''readOnly'', ''writeOnly'', ''unevaluatedItems'', ''unevaluatedProperties'']"

definition isSupportedSchemaKeyword :: "string \<Rightarrow> bool" where
  "isSupportedSchemaKeyword keyword \<longleftrightarrow> keyword \<in> set supported_keywords"

definition isStandardSchemaKeyword :: "string \<Rightarrow> bool" where
  "isStandardSchemaKeyword keyword \<longleftrightarrow>
     keyword \<in> set [''$recursiveRef'', ''$recursiveAnchor'', ''additionalItems'', ''contentEncoding'',
       ''contentMediaType'', ''contentSchema'']"

definition check_strict :: "vsetup \<Rightarrow> frame \<Rightarrow> vstep" where
  "check_strict su fr =
     when_step (op_strictSubset (su_options su))
       (then_step
         (for_each (pjson_keys (pn_value (fr_schema fr))) (\<lambda>key.
            then_step (charge su (fr_path fr) 1)
              (when_step (\<not> isSupportedSchemaKeyword key \<and> isStandardSchemaKeyword key)
                (addSchemaError su (fr_schema fr) UnsupportedKeyword (fr_path fr) key
                   (''strict schema mode: unsupported standard keyword '' @ quoted key)))))
         stop_if_aborted)"

text \<open>The names looked at, joined, and whether one matched; each is charged for.\<close>

fun match_types :: "vsetup \<Rightarrow> string \<Rightarrow> json \<Rightarrow> json list \<Rightarrow> string \<Rightarrow> vstate \<Rightarrow> (bool \<times> string) vresult" where
  "match_types su path node [] names st = Inr ((False, names), st)"
| "match_types su path node (e # es) names st =
     try_bind (charge su path 1 st) (\<lambda>(_, st1).
       if isString e then
         (let names' = (if names \<noteq> [] then names @ '', '' else names) @ strOf e
          in if typeMatches node (strOf e) then Inr ((True, names'), st1)
             else match_types su path node es names' st1)
       else match_types su path node es names st1)"

definition check_type :: "vsetup \<Rightarrow> frame \<Rightarrow> vstep" where
  "check_type su fr =
     with_some (validationKeyword fr ''type'') (\<lambda>t.
       let node = pn_value (fr_node fr)
       in if isString (pn_value t) then
            when_step (\<not> typeMatches node (strOf (pn_value t)))
              (fail_at su fr TypeMismatch ''type''
                 (''expected type '' @ strOf (pn_value t) @ '', got '' @ typeName node))
          else
            when_step (isArray (pn_value t))
              (\<lambda>st. try_bind (match_types su (fr_path fr) node (json_elements (pn_value t)) [] st)
                 (\<lambda>((matched, names), st1).
                    when_step (\<not> matched)
                      (fail_at su fr TypeMismatch ''type''
                         (''expected one of type ['' @ names @ ''], got '' @ typeName node)) st1)))"

definition check_const :: "vsetup \<Rightarrow> frame \<Rightarrow> vstep" where
  "check_const su fr =
     with_some (validationKeyword fr ''const'') (\<lambda>cst st.
       try_bind (equalWithBudget su (fr_path fr) (pn_value (fr_node fr)) (pn_value cst) st) (\<lambda>(equal, st1).
         when_step (\<not> equal)
           (fail_at su fr ConstMismatch ''const'' ''value does not equal the required const'') st1))"

fun find_equal :: "vsetup \<Rightarrow> string \<Rightarrow> json \<Rightarrow> json list \<Rightarrow> vstate \<Rightarrow> bool vresult" where
  "find_equal su path v [] st = Inr (False, st)"
| "find_equal su path v (x # xs) st =
     try_bind (equalWithBudget su path v x st) (\<lambda>(equal, st1).
       if equal then Inr (True, st1) else find_equal su path v xs st1)"

definition check_enum :: "vsetup \<Rightarrow> frame \<Rightarrow> vstep" where
  "check_enum su fr =
     with_some (validationKeyword fr ''enum'') (\<lambda>en.
       when_step (isArray (pn_value en)) (\<lambda>st.
         try_bind (find_equal su (fr_path fr) (pn_value (fr_node fr)) (json_elements (pn_value en)) st)
           (\<lambda>(found, st1).
             when_step (\<not> found)
               (fail_at su fr EnumMismatch ''enum'' ''value is not in the allowed enum'') st1)))"

subsection \<open>Numbers and strings\<close>

text \<open>A bound, the orders that violate it, and the words between the two numbers.\<close>

definition check_bound :: "vsetup \<Rightarrow> frame \<Rightarrow> string \<Rightarrow> (int \<Rightarrow> bool) \<Rightarrow> string \<Rightarrow> vstep" where
  "check_bound su fr keyword violated words =
     with_some (validationKeyword fr keyword) (\<lambda>m.
       let node = pn_value (fr_node fr); bound = pn_value m
       in when_step (isNumber bound
                     \<and> (case tryCompareNumber node bound of None \<Rightarrow> False | Some order \<Rightarrow> violated order))
            (fail_at su fr NumericConstraint keyword
               (''value '' @ formatNumber (su_d2s su) node @ words @ formatNumber (su_d2s su) bound)))"

definition check_multipleOf :: "vsetup \<Rightarrow> frame \<Rightarrow> vstep" where
  "check_multipleOf su fr =
     with_some (validationKeyword fr ''multipleOf'') (\<lambda>m.
       let node = pn_value (fr_node fr); divisor = pn_value m
       in when_step (isNumber divisor \<and> \<not> isExactMultiple (su_d2s su) node divisor)
            (fail_at su fr NumericConstraint ''multipleOf''
               (''value '' @ formatNumber (su_d2s su) node @ '' is not a multiple of ''
                  @ formatNumber (su_d2s su) divisor)))"

definition check_number :: "vsetup \<Rightarrow> frame \<Rightarrow> vstep" where
  "check_number su fr =
     when_step (isNumber (pn_value (fr_node fr)))
       (steps_of
         [check_bound su fr ''minimum'' (\<lambda>order. order < 0) '' is below minimum '',
          check_bound su fr ''maximum'' (\<lambda>order. order > 0) '' is above maximum '',
          check_bound su fr ''exclusiveMinimum'' (\<lambda>order. order \<le> 0) '' is not greater than exclusiveMinimum '',
          check_bound su fr ''exclusiveMaximum'' (\<lambda>order. order \<ge> 0) '' is not less than exclusiveMaximum '',
          check_multipleOf su fr])"

text \<open>A size below a lower bound, or above an upper one; a bound that is no size is ignored.\<close>

definition below_bound :: "nat \<Rightarrow> json \<Rightarrow> bool" where
  "below_bound n m =
     (case schemaSize m of None \<Rightarrow> False | Some None \<Rightarrow> True | Some (Some bound) \<Rightarrow> n < bound)"

definition above_bound :: "nat \<Rightarrow> json \<Rightarrow> bool" where
  "above_bound n m =
     (case schemaSize m of None \<Rightarrow> False | Some None \<Rightarrow> False | Some (Some bound) \<Rightarrow> n > bound)"

definition check_size ::
    "vsetup \<Rightarrow> frame \<Rightarrow> SchemaError_Code \<Rightarrow> string \<Rightarrow> (nat \<Rightarrow> json \<Rightarrow> bool) \<Rightarrow> nat \<Rightarrow> string \<Rightarrow> string \<Rightarrow> vstep" where
  "check_size su fr code keyword violated n front words =
     with_some (validationKeyword fr keyword) (\<lambda>m.
       when_step (violated n (pn_value m))
         (fail_at su fr code keyword
            (front @ decimal n @ words @ keyword @ '' '' @ formatNumber (su_d2s su) (pn_value m))))"

definition check_pattern :: "vsetup \<Rightarrow> frame \<Rightarrow> vstep" where
  "check_pattern su fr =
     with_some (validationKeyword fr ''pattern'') (\<lambda>p.
       when_step (isString (pn_value p))
         (let pattern = strOf (pn_value p)
          in (\<lambda>st. try_bind (evaluateRegex su (strOf (pn_value (fr_node fr))) pattern (fr_path fr)
                              (fr_schema fr) ''pattern'' st) (\<lambda>(matches, st1).
               when_step (matches = Some False)
                 (fail_at su fr StringConstraint ''pattern''
                    (''string does not match pattern /'' @ pattern @ ''/'')) st1))))"

definition check_format :: "vsetup \<Rightarrow> frame \<Rightarrow> vstep" where
  "check_format su fr =
     when_step (dp_assertFormats (cu_policy (fr_at fr)))
       (with_some (node_find (fr_schema fr) ''format'') (\<lambda>format.
          when_step (isString (pn_value format)
              \<and> knownFormatValid (su_engine su) (strOf (pn_value format)) (strOf (pn_value (fr_node fr)))
                  = (True, False))
            (fail_at su fr FormatMismatch ''format''
               (''string is not a valid '' @ strOf (pn_value format) @ '' format''))))"

definition check_string :: "vsetup \<Rightarrow> frame \<Rightarrow> vstep" where
  "check_string su fr =
     when_step (isString (pn_value (fr_node fr))) (\<lambda>st.
       try_bind (unicodeLength su (strOf (pn_value (fr_node fr))) (fr_path fr) st) (\<lambda>(size, st1).
         steps_of
           [check_size su fr StringConstraint ''minLength'' below_bound size ''string length '' '' is below '',
            check_size su fr StringConstraint ''maxLength'' above_bound size ''string length '' '' is above '',
            check_pattern su fr,
            check_format su fr] st1))"

subsection \<open>Arrays\<close>

text \<open>Whether an element equals one of those behind it.\<close>

fun has_duplicate :: "vsetup \<Rightarrow> string \<Rightarrow> json list \<Rightarrow> vstate \<Rightarrow> bool vresult" where
  "has_duplicate su path [] st = Inr (False, st)"
| "has_duplicate su path (x # xs) st =
     try_bind (find_equal su path x xs st) (\<lambda>(dup, st1).
       if dup then Inr (True, st1) else has_duplicate su path xs st1)"

definition check_uniqueItems :: "vsetup \<Rightarrow> frame \<Rightarrow> vstep" where
  "check_uniqueItems su fr =
     with_some (validationKeyword fr ''uniqueItems'') (\<lambda>u.
       when_step (isBool (pn_value u) \<and> boolOf (pn_value u)) (\<lambda>st.
         try_bind (has_duplicate su (fr_path fr) (json_elements (pn_value (fr_node fr))) st) (\<lambda>(dup, st1).
           when_step dup (fail_at su fr ArrayConstraint ''uniqueItems'' ''array items are not unique'') st1)))"

text \<open>An element against a schema for its place: it is evaluated by then.\<close>

definition check_element :: "vsetup \<Rightarrow> validator \<Rightarrow> frame \<Rightarrow> nat \<times> pnode \<times> pnode \<Rightarrow> vstep" where
  "check_element su validate fr =
     (\<lambda>(i, elem, sub).
       steps_of
         [charge su (fr_path fr) 1,
          mark_item i,
          descend validate elem sub (pointerAppend (fr_path fr) (decimal i))])"

definition check_items :: "vsetup \<Rightarrow> validator \<Rightarrow> frame \<Rightarrow> vstep" where
  "check_items su validate fr =
     (let elems = enumerate 0 (node_elements (fr_node fr));
          items = applicatorKeyword fr ''items'';
          prefixItems = applicatorKeyword fr ''prefixItems'';
          prefixes = (case prefixItems of None \<Rightarrow> [] | Some p \<Rightarrow> node_elements p);
          pair = (\<lambda>((i, elem), sub). (i, elem, sub))
      in then_step
           (for_each_running (map pair (zip elems prefixes)) (check_element su validate fr))
           (with_some items (\<lambda>schemas.
              if isArray (pn_value schemas) \<and> prefixItems = None then
                for_each_running (map pair (zip elems (node_elements schemas))) (check_element su validate fr)
              else
                for_each_running (map (\<lambda>(i, elem). (i, elem, schemas)) (drop (length prefixes) elems))
                  (check_element su validate fr))))"

text \<open>The number of elements that match, each evaluated by that.\<close>

fun count_matching ::
    "vsetup \<Rightarrow> validator \<Rightarrow> frame \<Rightarrow> pnode \<Rightarrow> (nat \<times> pnode) list \<Rightarrow> nat \<Rightarrow> vstate \<Rightarrow> nat vresult" where
  "count_matching su validate fr contains [] matched st = Inr (matched, st)"
| "count_matching su validate fr contains ((i, elem) # elems) matched st =
     (if vs_aborted st then Inr (matched, st)
      else
        try_bind (charge su (fr_path fr) 1 st) (\<lambda>(_, st1).
        try_bind (speculate validate Discard [] elem contains (pointerAppend (fr_path fr) (decimal i)) st1)
          (\<lambda>((valid, _, _), st2).
        try_bind (then_step (when_step valid (mark_item i)) stop_if_aborted st2) (\<lambda>(_, st3).
          count_matching su validate fr contains elems (if valid then Suc matched else matched) st3))))"

definition min_contains :: "frame \<Rightarrow> nat" where
  "min_contains fr =
     (case validationKeyword fr ''minContains'' of
        None \<Rightarrow> 1
      | Some mc \<Rightarrow>
          (case schemaSize (pn_value mc) of
             None \<Rightarrow> 1 | Some None \<Rightarrow> size_max | Some (Some bound) \<Rightarrow> bound))"

definition contains_message :: "nat \<Rightarrow> string \<Rightarrow> nat \<Rightarrow> string" where
  "contains_message matched words bound =
     ''array has '' @ decimal matched @ '' items matching '' @ quoted ''contains'' @ words @ decimal bound"

definition check_contains :: "vsetup \<Rightarrow> validator \<Rightarrow> frame \<Rightarrow> vstep" where
  "check_contains su validate fr =
     with_some (applicatorKeyword fr ''contains'') (\<lambda>contains st.
       try_bind (count_matching su validate fr contains (enumerate 0 (node_elements (fr_node fr))) 0 st)
         (\<lambda>(matched, st1).
           then_step
             (when_step (matched < min_contains fr)
               (fail_at su fr ArrayConstraint ''contains''
                  (contains_message matched '', below minContains '' (min_contains fr))))
             (with_some (validationKeyword fr ''maxContains'') (\<lambda>xc.
                case schemaSize (pn_value xc) of
                  Some (Some bound) \<Rightarrow>
                    when_step (matched > bound)
                      (fail_at su fr ArrayConstraint ''contains''
                         (contains_message matched '', above maxContains '' bound))
                | _ \<Rightarrow> done_step))
             st1))"

definition check_array :: "vsetup \<Rightarrow> validator \<Rightarrow> frame \<Rightarrow> vstep" where
  "check_array su validate fr =
     (let arrSize = length (json_elements (pn_value (fr_node fr)))
      in when_step (isArray (pn_value (fr_node fr)))
           (steps_of
             [check_size su fr ArrayConstraint ''minItems'' below_bound arrSize ''array has '' '' items, below '',
              check_size su fr ArrayConstraint ''maxItems'' above_bound arrSize ''array has '' '' items, above '',
              check_uniqueItems su fr,
              check_items su validate fr,
              check_contains su validate fr]))"

subsection \<open>Objects\<close>

text \<open>Names that must be there; what is no string is ignored.\<close>

definition check_names :: "vsetup \<Rightarrow> frame \<Rightarrow> string \<Rightarrow> string \<Rightarrow> json \<Rightarrow> vstep" where
  "check_names su fr keyword front names =
     for_each (json_elements names) (\<lambda>k.
       then_step (charge su (fr_path fr) 1)
         (when_step (isString k \<and> \<not> hasKey (pn_value (fr_node fr)) (strOf k))
           (fail_at su fr ObjectConstraint keyword (front @ quoted (strOf k)))))"

definition check_required :: "vsetup \<Rightarrow> frame \<Rightarrow> vstep" where
  "check_required su fr =
     with_some (validationKeyword fr ''required'') (\<lambda>req.
       when_step (isArray (pn_value req))
         (check_names su fr ''required'' ''missing required property '' (pn_value req)))"

definition check_properties :: "vsetup \<Rightarrow> validator \<Rightarrow> frame \<Rightarrow> vstep" where
  "check_properties su validate fr =
     with_some (applicatorKeyword fr ''properties'') (\<lambda>props.
       when_step (isObject (pn_value props))
         (for_each (pjson_keys (pn_value props)) (\<lambda>key.
            steps_of
              [charge su (fr_path fr) 1,
               (case (node_find (fr_node fr) key, node_find props key) of
                  (Some member, Some sub) \<Rightarrow>
                    then_step (mark_property key)
                      (descend validate member sub (pointerAppend (fr_path fr) key))
                | _ \<Rightarrow> done_step),
               stop_if_aborted])))"

text \<open>A member's name against one pattern.\<close>

definition check_patternProperty ::
    "vsetup \<Rightarrow> validator \<Rightarrow> frame \<Rightarrow> pnode \<Rightarrow> string \<Rightarrow> string \<Rightarrow> vstate \<Rightarrow> bool vresult" where
  "check_patternProperty su validate fr patternProps pat key st =
     (let path = pointerAppend (fr_path fr) key
      in try_bind (charge su (fr_path fr) 1 st) (\<lambda>(_, st1).
         try_bind (evaluateRegex su key pat path (fr_schema fr) ''patternProperties'' st1) (\<lambda>(matches, st2).
         try_bind
           (then_step
             (when_step (matches = Some True)
               (then_step (mark_property key)
                 (case (node_find (fr_node fr) key, node_find patternProps pat) of
                    (Some member, Some sub) \<Rightarrow> descend validate member sub path
                  | _ \<Rightarrow> done_step)))
             stop_if_aborted st2) (\<lambda>(_, st3).
           Inr (matches = Some True, st3)))))"

text \<open>The names matched by some pattern.\<close>

fun match_patterns ::
    "vsetup \<Rightarrow> validator \<Rightarrow> frame \<Rightarrow> pnode \<Rightarrow> (string \<times> string) list \<Rightarrow> string list \<Rightarrow> vstate \<Rightarrow> string list vresult" where
  "match_patterns su validate fr patternProps [] matched st = Inr (matched, st)"
| "match_patterns su validate fr patternProps ((pat, key) # pairs) matched st =
     try_bind (check_patternProperty su validate fr patternProps pat key st) (\<lambda>(matches, st1).
       match_patterns su validate fr patternProps pairs (if matches then key # matched else matched) st1)"

definition check_patternProperties ::
    "vsetup \<Rightarrow> validator \<Rightarrow> frame \<Rightarrow> vstate \<Rightarrow> string list vresult" where
  "check_patternProperties su validate fr st =
     (case applicatorKeyword fr ''patternProperties'' of
        None \<Rightarrow> Inr ([], st)
      | Some patternProps \<Rightarrow>
          if isObject (pn_value patternProps) then
            match_patterns su validate fr patternProps
              (List.product (pjson_keys (pn_value patternProps)) (pjson_keys (pn_value (fr_node fr)))) [] st
          else Inr ([], st))"

definition check_propertyNames :: "vsetup \<Rightarrow> validator \<Rightarrow> frame \<Rightarrow> vstep" where
  "check_propertyNames su validate fr =
     with_some (applicatorKeyword fr ''propertyNames'') (\<lambda>propertyNames.
       for_each (pjson_keys (pn_value (fr_node fr))) (\<lambda>key.
         steps_of
           [charge su (fr_path fr) 1,
            descend validate (name_node (fr_node fr) key) propertyNames (pointerAppend (fr_path fr) key),
            stop_if_aborted]))"

definition requires_message :: "string \<Rightarrow> string" where
  "requires_message key = ''property '' @ quoted key @ '' requires property ''"

definition check_dependentRequired :: "vsetup \<Rightarrow> frame \<Rightarrow> vstep" where
  "check_dependentRequired su fr =
     with_some (validationKeyword fr ''dependentRequired'') (\<lambda>deps.
       when_step (isObject (pn_value deps))
         (for_each (pjson_keys (pn_value deps)) (\<lambda>key.
            then_step (charge su (fr_path fr) 1)
              (with_some (node_find deps key) (\<lambda>names.
                 when_step (hasKey (pn_value (fr_node fr)) key \<and> isArray (pn_value names))
                   (check_names su fr ''dependentRequired'' (requires_message key) (pn_value names)))))))"

definition check_dependencies :: "vsetup \<Rightarrow> validator \<Rightarrow> frame \<Rightarrow> vstep" where
  "check_dependencies su validate fr =
     with_some (applicatorKeyword fr ''dependencies'') (\<lambda>deps.
       when_step (isObject (pn_value deps))
         (for_each (pjson_keys (pn_value deps)) (\<lambda>key.
            then_step (charge su (fr_path fr) 1)
              (when_step (hasKey (pn_value (fr_node fr)) key)
                (with_some (node_find deps key) (\<lambda>dep.
                   if isArray (pn_value dep) then
                     check_names su fr ''dependencies'' (requires_message key) (pn_value dep)
                   else
                     then_step (in_place validate (fr_node fr) dep (fr_path fr) None []) stop_if_aborted))))))"

definition check_additionalProperties :: "vsetup \<Rightarrow> validator \<Rightarrow> frame \<Rightarrow> string list \<Rightarrow> vstep" where
  "check_additionalProperties su validate fr patternMatched =
     with_some (applicatorKeyword fr ''additionalProperties'') (\<lambda>addl.
       let props = applicatorKeyword fr ''properties''
       in for_each (pjson_keys (pn_value (fr_node fr))) (\<lambda>key.
            let path = pointerAppend (fr_path fr) key;
                declared = (case props of None \<Rightarrow> False
                            | Some p \<Rightarrow> isObject (pn_value p) \<and> hasKey (pn_value p) key)
            in then_step (charge su (fr_path fr) 1)
                 (when_step (\<not> (declared \<or> key \<in> set patternMatched))
                   (steps_of
                     [mark_property key,
                      if isBool (pn_value addl) then
                        when_step (\<not> boolOf (pn_value addl))
                          (report_error su (fr_schema fr) ObjectConstraint path ''additionalProperties''
                             (''additional property '' @ quoted key @ '' is not allowed''))
                      else
                        with_some (node_find (fr_node fr) key) (\<lambda>member. descend validate member addl path),
                      stop_if_aborted]))))"

definition check_dependentSchemas :: "vsetup \<Rightarrow> validator \<Rightarrow> frame \<Rightarrow> vstep" where
  "check_dependentSchemas su validate fr =
     with_some (applicatorKeyword fr ''dependentSchemas'') (\<lambda>deps.
       when_step (isObject (pn_value deps))
         (for_each (pjson_keys (pn_value deps)) (\<lambda>key.
            then_step (charge su (fr_path fr) 1)
              (when_step (hasKey (pn_value (fr_node fr)) key)
                (then_step
                  (with_some (node_find deps key) (\<lambda>dep.
                     in_place validate (fr_node fr) dep (fr_path fr) None []))
                  stop_if_aborted)))))"

definition check_object :: "vsetup \<Rightarrow> validator \<Rightarrow> frame \<Rightarrow> vstep" where
  "check_object su validate fr =
     (let size = length (pjson_keys (pn_value (fr_node fr)))
      in when_step (isObject (pn_value (fr_node fr)))
           (then_step
             (steps_of
               [check_required su fr,
                check_size su fr ObjectConstraint ''minProperties'' below_bound size ''object has '' '' properties, below '',
                check_size su fr ObjectConstraint ''maxProperties'' above_bound size ''object has '' '' properties, above '',
                check_properties su validate fr])
             (\<lambda>st. try_bind (check_patternProperties su validate fr st) (\<lambda>(patternMatched, st1).
                steps_of
                  [check_propertyNames su validate fr,
                   check_dependentRequired su fr,
                   check_dependencies su validate fr,
                   check_additionalProperties su validate fr patternMatched,
                   check_dependentSchemas su validate fr] st1))))"

subsection \<open>Conditions and combinations\<close>

text \<open>A schema applied to the same node.\<close>

definition check_here :: "validator \<Rightarrow> frame \<Rightarrow> pnode \<Rightarrow> vstep" where
  "check_here validate fr schema =
     then_step (in_place validate (fr_node fr) schema (fr_path fr) None []) stop_if_aborted"

definition check_conditional :: "vsetup \<Rightarrow> validator \<Rightarrow> frame \<Rightarrow> vstep" where
  "check_conditional su validate fr =
     with_some (applicatorKeyword fr ''if'') (\<lambda>ifSchema st.
       try_bind (speculate validate Discard [] (fr_node fr) ifSchema (fr_path fr) st)
         (\<lambda>((matched, other, _), st1).
         try_bind (stop_if_aborted st1) (\<lambda>(_, st2).
           if matched then
             with_some (applicatorKeyword fr ''then'') (check_here validate fr) (merge_into other st2)
           else with_some (applicatorKeyword fr ''else'') (check_here validate fr) st2)))"

definition check_allOf :: "vsetup \<Rightarrow> validator \<Rightarrow> frame \<Rightarrow> vstep" where
  "check_allOf su validate fr =
     with_some (applicatorKeyword fr ''allOf'') (\<lambda>allOf.
       for_each (node_elements allOf) (\<lambda>sub.
         then_step (charge su (fr_path fr) 1) (check_here validate fr sub)))"

definition branch_mode :: "vsetup \<Rightarrow> sink_mode" where
  "branch_mode su = (if op_collectNestedCauses (su_options su) then Causes else Discard)"

text \<open>A branch of \<open>anyOf\<close> or \<open>oneOf\<close>: its answer, its annotations and the causes so far.\<close>

definition try_branch ::
    "vsetup \<Rightarrow> validator \<Rightarrow> frame \<Rightarrow> SchemaError list \<Rightarrow> pnode \<Rightarrow> vstate
      \<Rightarrow> (bool \<times> annotations \<times> SchemaError list) vresult" where
  "try_branch su validate fr causes sub st =
     try_bind (charge su (fr_path fr) 1 st) (\<lambda>(_, st1).
     try_bind (speculate validate (branch_mode su) causes (fr_node fr) sub (fr_path fr) st1) (\<lambda>(answer, st2).
     try_bind (stop_if_aborted st2) (\<lambda>(_, st3).
       Inr (answer, st3))))"

definition combinator_error ::
    "vsetup \<Rightarrow> frame \<Rightarrow> string \<Rightarrow> string \<Rightarrow> SchemaError list \<Rightarrow> SchemaError" where
  "combinator_error su fr keyword message causes =
     SchemaError CombinatorMismatch InstanceValidation (fr_path fr)
       (schemaLocationFor su (fr_schema fr) keyword) keyword message causes"

fun any_branches ::
    "vsetup \<Rightarrow> validator \<Rightarrow> frame \<Rightarrow> pnode list \<Rightarrow> bool \<Rightarrow> SchemaError list \<Rightarrow> vstate
      \<Rightarrow> (bool \<times> SchemaError list) vresult" where
  "any_branches su validate fr [] anyMatch causes st = Inr ((anyMatch, causes), st)"
| "any_branches su validate fr (sub # subs) anyMatch causes st =
     try_bind (try_branch su validate fr causes sub st) (\<lambda>((valid, other, causes'), st1).
       if valid then any_branches su validate fr subs True causes' (merge_into other st1)
       else any_branches su validate fr subs anyMatch causes' st1)"

definition check_anyOf :: "vsetup \<Rightarrow> validator \<Rightarrow> frame \<Rightarrow> vstep" where
  "check_anyOf su validate fr =
     with_some (applicatorKeyword fr ''anyOf'') (\<lambda>anyOf.
       when_step (isArray (pn_value anyOf)) (\<lambda>st.
         try_bind (any_branches su validate fr (node_elements anyOf) False [] st) (\<lambda>((anyMatch, causes), st1).
           if \<not> anyMatch then
             push_back su (combinator_error su fr ''anyOf'' ''value does not match any schema in anyOf''
               (if op_collectNestedCauses (su_options su) then causes else [])) st1
           else Inr ((), st1\<lparr>vs_diagnosticsUsed := vs_diagnosticsUsed st\<rparr>))))"

fun one_branches ::
    "vsetup \<Rightarrow> validator \<Rightarrow> frame \<Rightarrow> pnode list \<Rightarrow> nat \<Rightarrow> annotations \<Rightarrow> SchemaError list \<Rightarrow> vstate
      \<Rightarrow> (nat \<times> annotations \<times> SchemaError list) vresult" where
  "one_branches su validate fr [] matches matching causes st = Inr ((matches, matching, causes), st)"
| "one_branches su validate fr (sub # subs) matches matching causes st =
     try_bind (try_branch su validate fr causes sub st) (\<lambda>((valid, other, causes'), st1).
       if valid then one_branches su validate fr subs (Suc matches) other causes' st1
       else one_branches su validate fr subs matches matching causes' st1)"

definition oneOf_message :: "nat \<Rightarrow> string" where
  "oneOf_message matches =
     ''value matched '' @ decimal matches @ '' schemas in oneOf (exactly 1 required)''"

definition check_oneOf :: "vsetup \<Rightarrow> validator \<Rightarrow> frame \<Rightarrow> vstep" where
  "check_oneOf su validate fr =
     with_some (applicatorKeyword fr ''oneOf'') (\<lambda>oneOf.
       when_step (isArray (pn_value oneOf)) (\<lambda>st.
         try_bind (one_branches su validate fr (node_elements oneOf) 0 no_annotations [] st)
           (\<lambda>((matches, matching, causes), st1).
             let reset = st1\<lparr>vs_diagnosticsUsed := vs_diagnosticsUsed st\<rparr>
             in if matches \<noteq> 1 then
                  (if op_collectNestedCauses (su_options su) \<and> matches = 0
                   then push_back su (combinator_error su fr ''oneOf'' (oneOf_message matches) causes) st1
                   else push_back su (combinator_error su fr ''oneOf'' (oneOf_message matches) []) reset)
                else Inr ((), merge_into matching reset))))"

definition check_not :: "vsetup \<Rightarrow> validator \<Rightarrow> frame \<Rightarrow> vstep" where
  "check_not su validate fr =
     with_some (applicatorKeyword fr ''not'') (\<lambda>nots.
       when_step (isBool (pn_value nots) \<or> isObject (pn_value nots)) (\<lambda>st.
         try_bind (speculate validate Discard [] (fr_node fr) nots (fr_path fr) st) (\<lambda>((valid, _, _), st1).
           then_step
             (when_step valid
               (fail_at su fr CombinatorMismatch ''not'' (''value must not match the '' @ quoted ''not'' @ '' schema'')))
             stop_if_aborted st1)))"

subsection \<open>What no other keyword evaluated\<close>

definition check_unevaluatedProperties :: "vsetup \<Rightarrow> validator \<Rightarrow> frame \<Rightarrow> vstep" where
  "check_unevaluatedProperties su validate fr =
     when_step (isObject (pn_value (fr_node fr)))
       (with_some (unevaluatedKeyword fr ''unevaluatedProperties'') (\<lambda>unevaluated.
          for_each (pjson_keys (pn_value (fr_node fr))) (\<lambda>key st.
            if key \<in> set (an_properties (vs_evaluated st)) then Inr ((), st)
            else
              let path = pointerAppend (fr_path fr) key
              in steps_of
                   [charge su (fr_path fr) 1,
                    if isBool (pn_value unevaluated) \<and> \<not> boolOf (pn_value unevaluated) then
                      report_error su (fr_schema fr) ObjectConstraint path ''unevaluatedProperties''
                        ''unevaluated property is not allowed''
                    else with_some (node_find (fr_node fr) key) (\<lambda>member. descend validate member unevaluated path),
                    mark_property key,
                    stop_if_aborted] st)))"

definition check_unevaluatedItems :: "vsetup \<Rightarrow> validator \<Rightarrow> frame \<Rightarrow> vstep" where
  "check_unevaluatedItems su validate fr =
     when_step (isArray (pn_value (fr_node fr)))
       (with_some (unevaluatedKeyword fr ''unevaluatedItems'') (\<lambda>unevaluated.
          for_each (enumerate 0 (node_elements (fr_node fr))) (\<lambda>(i, item) st.
            if i \<in> set (an_items (vs_evaluated st)) then Inr ((), st)
            else
              let path = pointerAppend (fr_path fr) (decimal i)
              in steps_of
                   [charge su (fr_path fr) 1,
                    if isBool (pn_value unevaluated) \<and> \<not> boolOf (pn_value unevaluated) then
                      report_error su (fr_schema fr) ArrayConstraint path ''unevaluatedItems''
                        ''unevaluated item is not allowed''
                    else descend validate item unevaluated path,
                    mark_item i,
                    stop_if_aborted] st)))"

subsection \<open>The validator\<close>

text \<open>All keywords, in the order of the code.\<close>

definition check_keywords :: "vsetup \<Rightarrow> validator \<Rightarrow> frame \<Rightarrow> vstep" where
  "check_keywords su validate fr =
     steps_of
       [check_ref su validate fr,
        check_dynamicRef su validate fr,
        check_strict su fr,
        check_type su fr,
        check_const su fr,
        check_enum su fr,
        check_number su fr,
        check_string su fr,
        check_array su validate fr,
        check_object su validate fr,
        check_conditional su validate fr,
        check_allOf su validate fr,
        check_anyOf su validate fr,
        check_oneOf su validate fr,
        check_not su validate fr,
        check_unevaluatedProperties su validate fr,
        check_unevaluatedItems su validate fr]"

definition initial_position :: "vsetup \<Rightarrow> pnode \<Rightarrow> pnode option \<Rightarrow> string \<Rightarrow> position" where
  "initial_position su schema resourceRoot baseUri =
     (case map_of (ci_nodeTargets (su_compiled su)) (pn_id schema) of
        Some target \<Rightarrow>
          \<lparr>cu_schema = schema, cu_resourceRoot = tg_resourceRoot target, cu_baseUri = tg_baseUri target,
           cu_policy = tg_policy target\<rparr>
      | None \<Rightarrow>
          \<lparr>cu_schema = schema,
           cu_resourceRoot = (case resourceRoot of None \<Rightarrow> su_rootSchema su | Some r \<Rightarrow> r),
           cu_baseUri = baseUri,
           cu_policy = (case map_of (ci_resources (su_compiled su)) (stripFragment baseUri) of
              None \<Rightarrow> subsetPolicy (su_options su) | Some resource \<Rightarrow> sr_policy resource)\<rparr>)"

text \<open>The position a reference led to, as the index knows it.\<close>

definition settle :: "vsetup \<Rightarrow> position \<Rightarrow> position" where
  "settle su cur =
     (case map_of (ci_nodeTargets (su_compiled su)) (pn_id (cu_schema cur)) of
        None \<Rightarrow> cur
      | Some target \<Rightarrow>
          cur\<lparr>cu_resourceRoot := tg_resourceRoot target, cu_baseUri := tg_baseUri target,
            cu_policy := tg_policy target\<rparr>)"

definition pushResource :: "position \<Rightarrow> SchemaTarget list \<Rightarrow> SchemaTarget list" where
  "pushResource cur scope =
     (let target = \<lparr>tg_schema = cu_resourceRoot cur, tg_resourceRoot = cu_resourceRoot cur,
            tg_baseUri = cu_baseUri cur, tg_location = [], tg_policy = cu_policy cur\<rparr>
      in if scope = [] \<or> tg_baseUri (last scope) \<noteq> tg_baseUri target
            \<or> pn_id (tg_resourceRoot (last scope)) \<noteq> pn_id (tg_resourceRoot target)
         then scope @ [target] else scope)"

text \<open>Behind the references: the keywords, and whether they reported nothing.\<close>

definition check_schema ::
    "vsetup \<Rightarrow> validator \<Rightarrow> pnode \<Rightarrow> string \<Rightarrow> position \<Rightarrow> vstate \<Rightarrow> bool vresult" where
  "check_schema su validate node path cur st =
     (let here = settle su cur;
          st1 = st\<lparr>vs_dynamicScope := pushResource here (vs_dynamicScope st)\<rparr>
      in try_bind (check_keywords su validate \<lparr>fr_node = node, fr_path = path, fr_at = here\<rparr> st1) (\<lambda>(_, st2).
           Inr (\<not> vs_aborted st2 \<and> vs_failures st2 = vs_failures st, st2)))"

text \<open>What the guards of a function undo when it returns.\<close>

definition leave :: "vstate \<Rightarrow> vstate \<Rightarrow> vstate" where
  "leave entry after =
     after\<lparr>vs_depth := vs_depth entry,
       vs_activeRefs := take (length (vs_activeRefs entry)) (vs_activeRefs after),
       vs_dynamicScope := take (length (vs_dynamicScope entry)) (vs_dynamicScope after),
       vs_evaluated := vs_evaluated entry\<rparr>"

definition returned :: "vstate \<Rightarrow> bool vresult \<Rightarrow> (bool \<times> annotations) vresult" where
  "returned entry result =
     (case result of
        Inr (answer, st) \<Rightarrow> Inr ((answer, vs_evaluated st), leave entry st)
      | Inl (Returned_false, st) \<Rightarrow> Inr ((False, vs_evaluated st), leave entry st)
      | Inl (exit, st) \<Rightarrow> Inl (exit, st))"

text \<open>The whole function, given the call one level down.\<close>

definition validate_level ::
    "vsetup \<Rightarrow> validator \<Rightarrow> pnode \<Rightarrow> pnode \<Rightarrow> string \<Rightarrow> pnode option \<Rightarrow> string \<Rightarrow> vstate \<Rightarrow> bool vresult" where
  "validate_level su validate node schema0 path resourceRoot baseUri st =
     (if vs_aborted st then Inl (Returned_false, st)
      else
        try_bind (charge su path 1 st) (\<lambda>(_, st1).
          if vs_depth st1 \<ge> validationDepthLimit (su_options su) then
            Inl (Returned_false, failValidationBudget su path msg_depth_budget st1)
          else
            try_bind (follow_refs su node path (initial_position su schema0 resourceRoot baseUri)
                        (st1\<lparr>vs_depth := Suc (vs_depth st1)\<rparr>)) (\<lambda>(at, st2).
              case at of
                None \<Rightarrow> Inr (True, st2)
              | Some cur \<Rightarrow> check_schema su validate node path cur st2)))"

fun validateCtx :: "nat \<Rightarrow> vsetup \<Rightarrow> validator" where
  "validateCtx 0 su node schema0 path resourceRoot baseUri st = Inl (Out_of_fuel, st)"
| "validateCtx (Suc levels) su node schema0 path resourceRoot baseUri st =
     returned st
       (validate_level su (validateCtx levels su) node schema0 path resourceRoot baseUri
          (st\<lparr>vs_evaluated := no_annotations\<rparr>))"

text \<open>
  One level more than the depth limit is enough, by \<open>validateCtx_returns\<close>. The answer, and the
  caller's vector.
\<close>

definition runValidation ::
    "vsetup \<Rightarrow> pnode \<Rightarrow> pnode \<Rightarrow> SchemaError list \<Rightarrow> bool \<times> SchemaError list" where
  "runValidation su node schema errors =
     (case validateCtx (Suc (validationDepthLimit (su_options su))) su node schema [] None [] (new_run errors) of
        Inr ((answer, _), st) \<Rightarrow> (answer, vs_publicErrors st)
      | Inl (_, st) \<Rightarrow> (False, vs_publicErrors st))"

end
