(* ===== verification/Schema_Calculus.thy ===== *)
theory Schema_Calculus
  imports Schema_Validate "HOL-Library.Product_Order" "HOL-Library.Sublist"
begin

section \<open>A calculus for steps of the validator\<close>

text \<open>
  What a step of the validator does to a run has two sides. It keeps the books: the errors reported
  so far and the budgets. And it decides something: in a run that stays inside its budgets it
  reports an error exactly when a condition on the schema and the instance fails, and otherwise adds
  what it evaluated. The judgements below say both at once; there is one rule for each construct of
  \<open>Schema_State\<close>, so the meaning of a block is read off its definition.
\<close>

subsection \<open>Books\<close>

text \<open>The error of a budget.\<close>

definition budget_error :: "SchemaError \<Rightarrow> bool" where
  "budget_error e \<longleftrightarrow>
     (\<exists>path message. e = SchemaError Schema_ResourceLimit InstanceValidation path [] [] message [])"

definition cache_ok :: "vsetup \<Rightarrow> (string \<times> regex_state) list \<Rightarrow> bool" where
  "cache_ok su cache \<longleftrightarrow>
     (\<forall>p s. map_of cache p = Some s \<longrightarrow> s = Uninitialized \<or> s = compile_pattern su p)"

text \<open>
  While a run is not aborted, the errors it added are those it counted; an aborted run has reported
  at least one error and at most as many as allowed.
\<close>

definition books :: "vsetup \<Rightarrow> vstate \<Rightarrow> bool" where
  "books su st \<longleftrightarrow>
     (if vs_aborted st then
        vs_publicErrorStart st < length (vs_publicErrors st)
        \<and> length (vs_publicErrors st) \<le> vs_publicErrorStart st + diagnosticLimit (su_options su)
      else
        length (vs_publicErrors st) = vs_publicErrorStart st + vs_errorsUsed st
        \<and> vs_errorsUsed st \<le> diagnosticLimit (su_options su)
        \<and> (vs_diagnosticsUsed st < diagnosticLimit (su_options su) \<or> 0 < vs_errorsUsed st))
     \<and> vs_workUsed st \<le> validationWorkLimit (su_options su)
     \<and> vs_refResolutions st \<le> validationRefLimit (su_options su)
     \<and> cache_ok su (vs_regexCache st)"

text \<open>
  How the errors may grow: a step that counts no failure, or whose sink is not public, adds at most
  the error of an exhausted budget.
\<close>

definition adds :: "vstate \<Rightarrow> vstate \<Rightarrow> SchemaError list \<Rightarrow> bool" where
  "adds st st' new \<longleftrightarrow>
     vs_publicErrors st' = vs_publicErrors st @ new
     \<and> (if vs_mode st = Public \<and> vs_failures st' \<noteq> vs_failures st then new \<noteq> []
        else new = [] \<or> \<not> vs_aborted st \<and> vs_aborted st' \<and> (\<exists>e. new = [e] \<and> budget_error e))"

definition grows :: "vstate \<Rightarrow> vstate \<Rightarrow> bool" where
  "grows st st' \<longleftrightarrow>
     vs_mode st' = vs_mode st \<and> vs_publicErrorStart st' = vs_publicErrorStart st
     \<and> prefix (vs_activeRefs st) (vs_activeRefs st')
     \<and> vs_failures st \<le> vs_failures st'
     \<and> (vs_aborted st \<longrightarrow> vs_aborted st' \<and> vs_failures st' = vs_failures st)
     \<and> (\<exists>new. adds st st' new)"

lemma grows_refl [simp]: "grows st st"
  by (auto simp: grows_def adds_def)

lemma grows_trans:
  assumes "grows a b" "grows b c"
  shows "grows a c"
proof -
  from assms obtain new1 new2 where n: "adds a b new1" "adds b c new2" by (auto simp: grows_def)
  have "adds a c (new1 @ new2)"
    using n assms by (auto simp: adds_def grows_def split: if_splits)
  with assms show ?thesis by (auto simp: grows_def dest: prefix_order.trans)
qed

subsection \<open>Judgements\<close>

type_synonym seen = "string set \<times> nat set"

type_synonym active = "(node_id \<times> node_id) list"

type_synonym standing = "active \<times> seen"

definition reach_of :: "annotations \<Rightarrow> seen" where
  "reach_of a = (set (an_properties a), set (an_items a))"

abbreviation reached :: "vstate \<Rightarrow> seen" where
  "reached st \<equiv> reach_of (vs_evaluated st)"

definition standing_of :: "vstate \<Rightarrow> standing" where
  "standing_of st = (vs_activeRefs st, reached st)"

lemma reach_of_simps [simp]:
  "reach_of no_annotations = bot"
  "reach_of (merge_annotations a b) = sup (reach_of b) (reach_of a)"
  by (auto simp: reach_of_def no_annotations_def merge_annotations_def bot_prod_def sup_prod_def)

text \<open>
  Where a step runs: the setup, the dynamic scope, the depth, and how many levels of calls are left,
  which is more than the depth still allows.
\<close>

record site =
  at_setup :: vsetup
  at_scope :: "SchemaTarget list"
  at_depth :: nat
  at_levels :: nat

abbreviation at_limit :: "site \<Rightarrow> nat" where
  "at_limit w \<equiv> validationDepthLimit (su_options (at_setup w))"

definition ready :: "site \<Rightarrow> vstate \<Rightarrow> bool" where
  "ready w st \<longleftrightarrow>
     books (at_setup w) st \<and> vs_dynamicScope st = at_scope w \<and> vs_depth st = at_depth w
     \<and> at_depth w \<le> at_limit w \<and> at_limit w < at_depth w + at_levels w"

text \<open>
  The exits of a step at a state, against what it should compute there. A step that counted a
  failure refutes; one that counted none and did not run out of a budget computes. The exception is
  thrown by public failures only. Levels never run out.
\<close>

definition outcome ::
    "site \<Rightarrow> ('a \<Rightarrow> 'b) \<Rightarrow> vstate \<Rightarrow> 'a vresult \<Rightarrow> ('b \<times> standing) option \<Rightarrow> bool" where
  "outcome w g st r t \<longleftrightarrow>
     (case r of
        Inr (x, st') \<Rightarrow>
          ready w st' \<and> grows st st'
          \<and> (if vs_failures st' = vs_failures st then vs_aborted st' \<or> t = Some (g x, standing_of st')
             else t = None)
      | Inl (Returned_false, st') \<Rightarrow>
          books (at_setup w) st' \<and> grows st st' \<and> prefix (at_scope w) (vs_dynamicScope st')
          \<and> (if vs_failures st' = vs_failures st then vs_aborted st' else t = None)
      | Inl (Budget_exceeded, st') \<Rightarrow>
          books (at_setup w) st' \<and> \<not> vs_aborted st \<and> vs_aborted st' \<and> vs_mode st = Public
          \<and> vs_publicErrorStart st' = vs_publicErrorStart st
          \<and> prefix (vs_publicErrors st) (vs_publicErrors st') \<and> t = None
      | Inl (Out_of_fuel, st') \<Rightarrow> False)"

definition computes ::
    "site \<Rightarrow> ('a \<Rightarrow> 'b) \<Rightarrow> (vstate \<Rightarrow> 'a vresult) \<Rightarrow> (standing \<Rightarrow> ('b \<times> standing) option) \<Rightarrow> bool" where
  "computes w g m s \<longleftrightarrow> (\<forall>st. ready w st \<longrightarrow> outcome w g st (m st) (s (standing_of st)))"

text \<open>
  Most blocks ask for a condition, have a result and add to what is evaluated, all three given by
  the active references alone.
\<close>

definition demand ::
    "(active \<Rightarrow> bool) \<Rightarrow> (active \<Rightarrow> 'b) \<Rightarrow> (active \<Rightarrow> seen) \<Rightarrow> standing \<Rightarrow> ('b \<times> standing) option" where
  "demand P y Q = (\<lambda>(A, E). if P A then Some (y A, (A, sup E (Q A))) else None)"

definition obeys ::
    "site \<Rightarrow> ('a \<Rightarrow> 'b) \<Rightarrow> (vstate \<Rightarrow> 'a vresult) \<Rightarrow> (active \<Rightarrow> bool) \<Rightarrow> (active \<Rightarrow> 'b) \<Rightarrow> (active \<Rightarrow> seen) \<Rightarrow> bool" where
  "obeys w g m P y Q \<longleftrightarrow> computes w g m (demand P y Q)"

text \<open>A step without a result.\<close>

abbreviation asks :: "site \<Rightarrow> vstep \<Rightarrow> (active \<Rightarrow> bool) \<Rightarrow> (active \<Rightarrow> seen) \<Rightarrow> bool" where
  "asks w m P Q \<equiv> obeys w (\<lambda>u. ()) m P (\<lambda>A. ()) Q"

text \<open>One that evaluates nothing, and asks for something that does not depend on references.\<close>

abbreviation asserts :: "site \<Rightarrow> vstep \<Rightarrow> bool \<Rightarrow> bool" where
  "asserts w m P \<equiv> asks w m (\<lambda>A. P) (\<lambda>A. bot)"

abbreviation returns :: "site \<Rightarrow> (vstate \<Rightarrow> 'a vresult) \<Rightarrow> bool \<Rightarrow> 'a \<Rightarrow> bool" where
  "returns w m P y \<equiv> obeys w (\<lambda>x. x) m (\<lambda>A. P) (\<lambda>A. y) (\<lambda>A. bot)"

lemma computesI: "(\<And>st. ready w st \<Longrightarrow> outcome w g st (m st) (s (standing_of st))) \<Longrightarrow> computes w g m s"
  by (simp add: computes_def)

lemma computesD: "computes w g m s \<Longrightarrow> ready w st \<Longrightarrow> outcome w g st (m st) (s (standing_of st))"
  by (simp add: computes_def)

lemma obeysI:
  "(\<And>st. ready w st \<Longrightarrow> outcome w g st (m st) (demand P y Q (standing_of st))) \<Longrightarrow> obeys w g m P y Q"
  by (simp add: obeys_def computes_def)

lemma obeysD: "obeys w g m P y Q \<Longrightarrow> ready w st \<Longrightarrow> outcome w g st (m st) (demand P y Q (standing_of st))"
  by (simp add: obeys_def computes_def)

lemma outcome_cases:
  assumes "outcome w g st r t"
  obtains x st' where "r = Inr (x, st')" "ready w st'" "grows st st'"
      "if vs_failures st' = vs_failures st then vs_aborted st' \<or> t = Some (g x, standing_of st') else t = None"
    | st' where "r = Inl (Returned_false, st')" "books (at_setup w) st'" "grows st st'"
        "prefix (at_scope w) (vs_dynamicScope st')"
        "if vs_failures st' = vs_failures st then vs_aborted st' else t = None"
    | st' where "r = Inl (Budget_exceeded, st')" "books (at_setup w) st'" "\<not> vs_aborted st" "vs_aborted st'"
        "vs_mode st = Public" "vs_publicErrorStart st' = vs_publicErrorStart st"
        "prefix (vs_publicErrors st) (vs_publicErrors st')" "t = None"
  using assms by (auto simp: outcome_def split: sum.splits prod.splits vexit.splits)

text \<open>A step behind another one.\<close>

lemma grows_prefix: "grows st st' \<Longrightarrow> prefix (vs_publicErrors st) (vs_publicErrors st')"
  by (auto simp: grows_def adds_def)

lemma outcome_behind:
  assumes "grows st st1" "outcome w g st1 r t"
    and "vs_failures st1 = vs_failures st \<longrightarrow> vs_aborted st1 \<or> t = t'"
    and "vs_failures st1 \<noteq> vs_failures st \<longrightarrow> t' = None"
  shows "outcome w g st r t'"
  using assms(2)
proof (cases rule: outcome_cases)
  case (1 x st2)
  from assms(1) 1(3) have g: "grows st st2" by (rule grows_trans)
  have "if vs_failures st2 = vs_failures st then vs_aborted st2 \<or> t' = Some (g x, standing_of st2) else t' = None"
    using 1(3,4) assms(1,3,4) by (auto simp: grows_def split: if_splits)
  with 1 g show ?thesis by (simp add: outcome_def)
next
  case (2 st2)
  from assms(1) 2(3) have g: "grows st st2" by (rule grows_trans)
  have "if vs_failures st2 = vs_failures st then vs_aborted st2 else t' = None"
    using 2(3,5) assms(1,3,4) by (auto simp: grows_def split: if_splits)
  with 2 g show ?thesis by (simp add: outcome_def)
next
  case (3 st2)
  have "t' = None" using 3 assms(3,4) by auto
  moreover have "prefix (vs_publicErrors st) (vs_publicErrors st2)"
    using grows_prefix [OF assms(1)] 3(7) by (rule prefix_order.trans)
  ultimately show ?thesis using 3 assms(1) by (auto simp: outcome_def grows_def)
qed

subsection \<open>Sequences\<close>

lemma computes_cong: "computes w g m s \<Longrightarrow> (\<And>a. s a = s' a) \<Longrightarrow> computes w g m s'"
  by (simp add: computes_def)

lemma computes_bind:
  assumes "computes w g m s" "\<And>x. computes w h (f x) (t (g x))"
  shows "computes w h (\<lambda>st. try_bind (m st) (\<lambda>(x, st1). f x st1)) (\<lambda>a. Option.bind (s a) (\<lambda>(y, a1). t y a1))"
proof (rule computesI)
  fix st assume st: "ready w st"
  from computesD [OF assms(1) st]
  show "outcome w h st (try_bind (m st) (\<lambda>(x, st1). f x st1)) (Option.bind (s (standing_of st)) (\<lambda>(y, a1). t y a1))"
  proof (cases rule: outcome_cases)
    case (1 x st1)
    have "outcome w h st (f x st1) (Option.bind (s (standing_of st)) (\<lambda>(y, a1). t y a1))"
      by (rule outcome_behind [OF 1(3) computesD [OF assms(2) 1(2)]]) (use 1(4) in auto)
    with 1(1) show ?thesis by simp
  qed (auto simp: outcome_def split: if_splits)
qed

lemma demand_eq: "(\<And>A. P A = P' A) \<Longrightarrow> (\<And>A. P A \<Longrightarrow> y A = y' A \<and> Q A = Q' A) \<Longrightarrow> demand P y Q = demand P' y' Q'"
  by (auto simp: demand_def fun_eq_iff)

lemma obeys_cong:
  assumes "obeys w g m P y Q" "\<And>A. P A = P' A" "\<And>A. P A \<Longrightarrow> y A = y' A \<and> Q A = Q' A"
  shows "obeys w g m P' y' Q'"
  using assms demand_eq [of P P' y y' Q Q'] by (simp add: obeys_def)

lemma obeys_bind:
  assumes "obeys w g m P y Q" "\<And>x. obeys w h (f x) (P' (g x)) (y' (g x)) (Q' (g x))"
  shows "obeys w h (\<lambda>st. try_bind (m st) (\<lambda>(x, st1). f x st1)) (\<lambda>A. P A \<and> P' (y A) A) (\<lambda>A. y' (y A) A)
    (\<lambda>A. sup (Q A) (Q' (y A) A))"
proof -
  have "computes w h (\<lambda>st. try_bind (m st) (\<lambda>(x, st1). f x st1))
      (\<lambda>a. Option.bind (demand P y Q a) (\<lambda>(z, a1). demand (P' z) (y' z) (Q' z) a1))"
    using assms by (intro computes_bind [where t = "\<lambda>z. demand (P' z) (y' z) (Q' z)"]) (simp_all add: obeys_def)
  then show ?thesis
    unfolding obeys_def by (rule computes_cong) (auto simp: demand_def sup_assoc split: if_splits)
qed

text \<open>Steps without results.\<close>

lemma asks_return: "asks w (\<lambda>st. Inr ((), st)) (\<lambda>A. True) (\<lambda>A. bot)"
  by (rule obeysI) (auto simp: outcome_def demand_def standing_of_def sup_prod_def bot_prod_def)

lemma obeys_return: "obeys w g (\<lambda>st. Inr (x, st)) (\<lambda>A. True) (\<lambda>A. g x) (\<lambda>A. bot)"
  by (rule obeysI) (auto simp: outcome_def demand_def standing_of_def sup_prod_def bot_prod_def)

lemma asks_done: "asks w done_step (\<lambda>A. True) (\<lambda>A. bot)"
  using asks_return [of w] by (simp add: done_step_def [abs_def])

lemma asks_then:
  assumes "asks w a P Q" "asks w b P' Q'"
  shows "asks w (then_step a b) (\<lambda>A. P A \<and> P' A) (\<lambda>A. sup (Q A) (Q' A))"
  unfolding then_step_def [abs_def]
  by (rule obeys_bind [where f = "\<lambda>_. b" and P' = "\<lambda>_. P'" and y' = "\<lambda>_ _. ()" and Q' = "\<lambda>_. Q'",
      OF assms(1)]) (rule assms(2))

text \<open>A result that depends on the step's arguments only.\<close>

lemma obeys_returns:
  assumes "returns w m P y" "\<And>x. obeys w h (f x) (P' x) (y' x) (Q' x)"
  shows "obeys w h (\<lambda>st. try_bind (m st) (\<lambda>(x, st1). f x st1)) (\<lambda>A. P \<and> P' y A) (y' y) (Q' y)"
  using obeys_bind [where P' = P' and y' = y' and Q' = Q', OF assms(1), of h f] assms(2)
  by (simp add: sup_bot.left_neutral)

lemma asks_when:
  assumes "c \<Longrightarrow> asks w m P Q"
  shows "asks w (when_step c m) (\<lambda>A. c \<longrightarrow> P A) (\<lambda>A. if c then Q A else bot)"
  using assms asks_done [of w] by (simp add: when_step_def)

lemma asks_with_some:
  assumes "\<And>x. opt = Some x \<Longrightarrow> asks w (f x) (P x) (Q x)"
  shows "asks w (with_some opt f) (\<lambda>A. \<forall>x. opt = Some x \<longrightarrow> P x A)
    (\<lambda>A. case opt of None \<Rightarrow> bot | Some x \<Rightarrow> Q x A)"
  using assms asks_done [of w] by (cases opt) (simp_all add: with_some_def)

lemma asks_if:
  "(c \<Longrightarrow> obeys w g m P y Q) \<Longrightarrow> (\<not> c \<Longrightarrow> obeys w g m' P' y' Q') \<Longrightarrow>
    obeys w g (if c then m else m') (\<lambda>A. if c then P A else P' A) (\<lambda>A. if c then y A else y' A)
      (\<lambda>A. if c then Q A else Q' A)"
  by simp

lemma obeys_asserts:
  assumes "asserts w a True" "obeys w h m P y Q"
  shows "obeys w h (\<lambda>st. try_bind (a st) (\<lambda>(_, st1). m st1)) P y Q"
  using obeys_bind [where P' = "\<lambda>_. P" and y' = "\<lambda>_. y" and Q' = "\<lambda>_. Q", OF assms(1), of h "\<lambda>_. m"] assms(2)
  by simp

text \<open>All that a list of steps evaluates.\<close>

definition all_seen :: "seen list \<Rightarrow> seen" where
  "all_seen qs = foldr sup qs bot"

lemma all_seen_simps [simp]: "all_seen [] = bot" "all_seen (q # qs) = sup q (all_seen qs)"
  by (simp_all add: all_seen_def)

lemma asks_for_each:
  assumes "\<And>x. x \<in> set xs \<Longrightarrow> asks w (f x) (P x) (Q x)"
  shows "asks w (for_each xs f) (\<lambda>A. \<forall>x\<in>set xs. P x A) (\<lambda>A. all_seen (map (\<lambda>x. Q x A) xs))"
  using assms
proof (induction xs)
  case Nil
  show ?case using asks_done by (simp add: bot_fun_def)
next
  case (Cons x xs)
  have "asks w (then_step (f x) (for_each xs f)) (\<lambda>A. P x A \<and> (\<forall>x\<in>set xs. P x A))
      (\<lambda>A. sup (Q x A) (all_seen (map (\<lambda>x. Q x A) xs)))"
    using Cons by (intro asks_then) simp_all
  then show ?case by simp
qed

subsection \<open>Budgets and errors\<close>

lemma books_aborted:
  "books su st \<Longrightarrow> vs_errorsUsed st < diagnosticLimit (su_options su) \<Longrightarrow> \<not> vs_aborted st \<Longrightarrow>
    length (vs_publicErrors st) < vs_publicErrorStart st + diagnosticLimit (su_options su)"
  by (auto simp: books_def)

lemma failValidationBudget_books:
  assumes "books su st"
  shows "books su (failValidationBudget su path message st)"
    "grows st (failValidationBudget su path message st)"
    "vs_aborted (failValidationBudget su path message st)"
    "vs_failures (failValidationBudget su path message st) = vs_failures st"
    "vs_dynamicScope (failValidationBudget su path message st) = vs_dynamicScope st"
  using assms diagnosticLimit_pos [of "su_options su"]
  by (auto simp: failValidationBudget_def books_def Let_def bestEffortSchemaError_def grows_def adds_def
      budget_error_def)

text \<open>A function that is left because a budget is used up.\<close>

lemma outcome_budget:
  assumes "ready w st" "su = at_setup w"
  shows "outcome w g st (Inl (Returned_false, failValidationBudget su path message st)) t"
  using assms failValidationBudget_books [of su st path message] by (auto simp: outcome_def ready_def)

lemma chargeValidationWork_cases:
  assumes "ready w st" "su = at_setup w"
  obtains "chargeValidationWork su path n st = (False, failValidationBudget su path msg_work_budget st)"
  | st1 where "chargeValidationWork su path n st = (True, st1)" "ready w st1" "grows st st1"
      "vs_failures st1 = vs_failures st" "standing_of st1 = standing_of st" "vs_regexCache st1 = vs_regexCache st"
proof (cases "n > validationWorkLimit (su_options su) - min (vs_workUsed st) (validationWorkLimit (su_options su))")
  case True
  then show ?thesis using that(1) by (simp add: chargeValidationWork_def)
next
  case False
  define st1 where "st1 = st\<lparr>vs_workUsed := vs_workUsed st + n\<rparr>"
  have "vs_workUsed st \<le> validationWorkLimit (su_options su)" using assms by (simp add: ready_def books_def)
  then have "ready w st1" using assms False by (auto simp: st1_def ready_def books_def)
  moreover have "grows st st1" by (auto simp: st1_def grows_def adds_def)
  ultimately show ?thesis
    using False by (intro that(2) [of st1]) (simp_all add: st1_def chargeValidationWork_def standing_of_def)
qed

lemma asks_charge: "su = at_setup w \<Longrightarrow> asserts w (charge su path n) True"
proof (rule obeysI)
  fix st assume a: "ready w st" "su = at_setup w"
  then show "outcome w (\<lambda>u. ()) st (charge su path n st) (demand (\<lambda>A. True) (\<lambda>A. ()) (\<lambda>A. bot) (standing_of st))"
  proof (cases rule: chargeValidationWork_cases [of w st su path n])
    case 1
    with outcome_budget [OF a] show ?thesis by (simp add: charge_def)
  next
    case (2 st1)
    then show ?thesis by (simp add: charge_def outcome_def demand_def standing_of_def)
  qed
qed

lemma asks_fail_budget: "su = at_setup w \<Longrightarrow> asks w (fail_budget su path message) P Q"
  by (rule obeysI) (simp add: fail_budget_def outcome_budget)

lemma push_back_outcome:
  assumes "ready w st" "su = at_setup w"
  shows "outcome w (\<lambda>u. ()) st (push_back su e st) None"
proof (cases "vs_aborted st")
  case True
  with assms show ?thesis by (simp add: push_back_def outcome_def)
next
  case False
  note st = assms(1) [unfolded ready_def books_def, simplified False]
  show ?thesis
  proof (cases "vs_mode st")
    case Public
    then show ?thesis
      using st False assms diagnosticLimit_pos [of "su_options su"]
      by (auto simp: push_back_def Let_def outcome_def ready_def books_def grows_def adds_def)
  qed (use st False assms in
      \<open>auto simp: push_back_def Let_def outcome_def ready_def books_def grows_def adds_def split: if_splits\<close>)
qed

lemma outcome_aborted: "outcome w g st r t \<Longrightarrow> vs_aborted st \<Longrightarrow> outcome w g st r t'"
  by (erule outcome_cases) (auto simp: outcome_def grows_def)

lemma asks_push_back:
  assumes "su = at_setup w" shows "asks w (push_back su e) (\<lambda>A. False) Q"
  by (rule obeysI) (use push_back_outcome assms in \<open>simp add: demand_def split_beta\<close>)

lemma asks_report: "su = at_setup w \<Longrightarrow> asks w (report_error su schema code path keyword message) (\<lambda>A. False) Q"
  unfolding report_error_def [abs_def] by (rule asks_push_back)

lemma asks_addSchemaError: "su = at_setup w \<Longrightarrow> asks w (addSchemaError su schema code path keyword message) (\<lambda>A. False) Q"
  unfolding addSchemaError_def [abs_def] by (rule asks_push_back)

lemma asks_fail_at: "su = at_setup w \<Longrightarrow> asks w (fail_at su fr code keyword message) (\<lambda>A. False) Q"
  unfolding fail_at_def [abs_def] by (rule asks_report)

lemma asks_when_fails:
  assumes "asks w m (\<lambda>A. False) (\<lambda>A. bot)"
  shows "asserts w (when_step c m) (\<not> c)"
  by (rule asks_when [OF assms, THEN obeys_cong]) auto

lemma asks_stop_if_aborted: "asserts w stop_if_aborted True"
  by (rule obeysI)
    (auto simp: stop_if_aborted_def outcome_def demand_def standing_of_def ready_def sup_prod_def bot_prod_def)

text \<open>What a sub-step cannot do when the run is aborted already.\<close>

lemma asks_for_each_running:
  assumes "\<And>x. x \<in> set xs \<Longrightarrow> asks w (f x) (P x) (Q x)"
  shows "asks w (for_each_running xs f) (\<lambda>A. \<forall>x\<in>set xs. P x A) (\<lambda>A. all_seen (map (\<lambda>x. Q x A) xs))"
  using assms
proof (induction xs)
  case Nil
  have "for_each_running [] f = (\<lambda>st. Inr ((), st))" by (simp add: fun_eq_iff)
  then show ?case using asks_return [of w] by (simp only: list.set(1) list.map(1) all_seen_simps ball_empty)
next
  case (Cons x xs)
  then have "asks w (then_step (f x) (for_each_running xs f)) (\<lambda>A. P x A \<and> (\<forall>x\<in>set xs. P x A))
      (\<lambda>A. sup (Q x A) (all_seen (map (\<lambda>x. Q x A) xs)))"
    by (intro asks_then) simp_all
  then have body: "asks w (then_step (f x) (for_each_running xs f)) (\<lambda>A. \<forall>x\<in>set (x # xs). P x A)
      (\<lambda>A. all_seen (map (\<lambda>x. Q x A) (x # xs)))"
    by simp
  show ?case
  proof (rule obeysI)
    fix st assume st: "ready w st"
    show "outcome w (\<lambda>u. ()) st (for_each_running (x # xs) f st)
      (demand (\<lambda>A. \<forall>x\<in>set (x # xs). P x A) (\<lambda>A. ()) (\<lambda>A. all_seen (map (\<lambda>x. Q x A) (x # xs))) (standing_of st))"
      using obeysD [OF body st] st by (auto simp: outcome_def)
  qed
qed

lemma asks_mark_property: "asks w (mark_property key) (\<lambda>A. True) (\<lambda>A. ({key}, {}))"
  by (rule obeysI)
    (auto simp: mark_property_def outcome_def demand_def standing_of_def ready_def books_def grows_def adds_def
      reach_of_def sup_prod_def)

lemma asks_mark_item: "asks w (mark_item i) (\<lambda>A. True) (\<lambda>A. ({}, {i}))"
  by (rule obeysI)
    (auto simp: mark_item_def outcome_def demand_def standing_of_def ready_def books_def grows_def adds_def
      reach_of_def sup_prod_def)

subsection \<open>Text, patterns and equality\<close>

text \<open>The number of characters behind an offset.\<close>

function char_count :: "string \<Rightarrow> nat \<Rightarrow> nat" where
  "char_count s offset =
     (if offset \<ge> length s then 0
      else Suc (char_count s (offset + max 1 (schema_utf8Len s offset (length s)))))"
  by pat_completeness auto
termination char_count
  by (relation "measure (\<lambda>(s, offset). length s - offset)") auto

declare char_count.simps [simp del]

lemma returns_unicode_count:
  assumes "su = at_setup w"
  shows "returns w (unicode_count su s path offset count) True (count + char_count s offset)"
proof (induction "length s - offset" arbitrary: offset count rule: less_induct)
  case less
  show ?case
  proof (cases "offset \<ge> length s")
    case True
    then have "unicode_count su s path offset count = (\<lambda>st. Inr (count, st))"
      "char_count s offset = 0"
      by (simp_all add: fun_eq_iff unicode_count.simps char_count.simps)
    then show ?thesis using obeys_return [of w "\<lambda>x. x" count] by simp
  next
    case False
    define n where "n = max 1 (schema_utf8Len s offset (length s))"
    have n: "(if schema_utf8Len s offset (length s) > 0 then schema_utf8Len s offset (length s) else 1) = n"
      by (simp add: n_def max_def)
    have "unicode_count su s path offset count =
      (\<lambda>st. try_bind (charge su path n st) (\<lambda>(_, st1). unicode_count su s path (offset + n) (Suc count) st1))"
      using False by (simp add: fun_eq_iff unicode_count.simps [of su s path offset] Let_def n)
    moreover have "returns w (unicode_count su s path (offset + n) (Suc count)) True (Suc count + char_count s (offset + n))"
      by (rule less) (use False in \<open>auto simp: n_def\<close>)
    ultimately show ?thesis
      using obeys_asserts [OF asks_charge [OF assms]] False
      by (simp add: char_count.simps [of s offset] n_def)
  qed
qed

lemma returns_unicodeLength:
  "su = at_setup w \<Longrightarrow> returns w (unicodeLength su s path) True (char_count s 0)"
  using returns_unicode_count [of su w s path 0 0] by (simp add: unicodeLength_def [abs_def])

text \<open>What a pattern answers: \<^const>\<open>None\<close> when it cannot be evaluated.\<close>

definition regex_answer :: "vsetup \<Rightarrow> string \<Rightarrow> string \<Rightarrow> bool option" where
  "regex_answer su subject pattern =
     (let bound = op_maxRegexSubjectBytes (su_options su)
      in if bound \<noteq> 0 \<and> length subject > bound \<or> compile_pattern su pattern \<noteq> Ready then None
         else
           (case regex_search (su_engine su) pattern subject of
              Match \<Rightarrow> Some True | NoMatch \<Rightarrow> Some False | _ \<Rightarrow> None))"

lemma cached_pattern_cases:
  assumes "ready w st" "su = at_setup w"
  obtains st1 where "cached_pattern su pattern path st = (None, st1)" "books su st1" "grows st st1"
      "vs_aborted st1" "vs_failures st1 = vs_failures st" "vs_dynamicScope st1 = vs_dynamicScope st" "ready w st1"
  | st1 where "cached_pattern su pattern path st = (Some (compile_pattern su pattern), st1)" "ready w st1"
      "grows st st1" "vs_failures st1 = vs_failures st" "standing_of st1 = standing_of st"
proof (cases "map_of (vs_regexCache st) pattern \<in> {None, Some Uninitialized}")
  case False
  then obtain s where s: "map_of (vs_regexCache st) pattern = Some s" "s \<noteq> Uninitialized" by auto
  with assms have "s = compile_pattern su pattern" by (auto simp: ready_def books_def cache_ok_def)
  with s show ?thesis using assms by (intro that(2) [of st]) (simp_all add: cached_pattern_def)
next
  case True
  define st1 where "st1 = st\<lparr>vs_regexCache := AList.update pattern Uninitialized (vs_regexCache st)\<rparr>"
  have s: "cached_pattern su pattern path st =
      (case chargeValidationWork su path (length pattern + 1) st1 of
         (False, st2) \<Rightarrow> (None, st2)
       | (True, st2) \<Rightarrow> (Some (compile_pattern su pattern),
           st2\<lparr>vs_regexCache := AList.update pattern (compile_pattern su pattern) (vs_regexCache st2)\<rparr>))"
    using True by (auto simp: cached_pattern_def st1_def Let_def split: prod.splits bool.splits)
  have r1: "ready w st1" and g1: "grows st st1" and f1: "vs_failures st1 = vs_failures st"
      "vs_dynamicScope st1 = vs_dynamicScope st" "standing_of st1 = standing_of st"
    using assms by (auto simp: st1_def ready_def books_def cache_ok_def update_conv' grows_def adds_def standing_of_def)
  show ?thesis
  proof (cases rule: chargeValidationWork_cases [OF r1 assms(2), of path "length pattern + 1"])
    case 1
    have b: "books su st1" using r1 assms by (simp add: ready_def)
    note fb = failValidationBudget_books [OF b, of path msg_work_budget]
    have "ready w (failValidationBudget su path msg_work_budget st1)"
      using r1 fb assms(2) by (auto simp: ready_def failValidationBudget_def bestEffortSchemaError_def Let_def)
    with 1 fb f1 grows_trans [OF g1 fb(2)] show ?thesis
      by (intro that(1)) (auto simp: s)
  next
    case (2 st2)
    define st3 where "st3 = st2\<lparr>vs_regexCache := AList.update pattern (compile_pattern su pattern) (vs_regexCache st2)\<rparr>"
    have "ready w st3" using 2(2) assms(2)
      by (auto simp: st3_def ready_def books_def cache_ok_def update_conv')
    moreover have "grows st2 st3" by (auto simp: st3_def grows_def adds_def)
    with grows_trans [OF g1 2(3)] have "grows st st3" by (rule grows_trans)
    ultimately show ?thesis using 2 f1
      by (intro that(2) [of st3]) (simp_all add: s st3_def standing_of_def)
  qed
qed

lemma refuse_outcome:
  assumes "ready w st" "su = at_setup w"
  shows "outcome w g st (try_bind (push_back su e st) (\<lambda>(_, st1). Inr (x, st1))) None"
  using push_back_outcome [OF assms, of e]
  by (rule outcome_cases) (auto simp: outcome_def split: if_splits)

lemma returns_evaluateRegex:
  assumes su: "su = at_setup w"
  shows "returns w (evaluateRegex su subject pattern path schema keyword)
    (regex_answer su subject pattern \<noteq> None) (regex_answer su subject pattern)"
proof (rule obeysI)
  fix st assume st: "ready w st"
  let ?P = "regex_answer su subject pattern \<noteq> None" and ?y = "regex_answer su subject pattern"
  let ?refuse = "\<lambda>code message st. try_bind (report_error su schema code path keyword message st)
      (\<lambda>(_, st1). Inr (None :: bool option, st1))"
  let ?goal = "\<lambda>r. outcome w (\<lambda>x. x) st r (demand (\<lambda>A. ?P) (\<lambda>A. ?y) (\<lambda>A. bot) (standing_of st))"
  have refuse: "outcome w (\<lambda>x. x) st (?refuse code message st1) t"
    if "ready w st1" "grows st st1" "vs_failures st1 = vs_failures st" "t = None" for st1 code message t
    unfolding report_error_def
    by (rule outcome_behind [OF that(2) refuse_outcome [OF that(1) su]]) (use that(3,4) in simp_all)
  have none: "?goal (?refuse code message st1)"
    if "ready w st1" "grows st st1" "vs_failures st1 = vs_failures st" "\<not> ?P" for st1 code message
    using refuse [OF that(1,2,3)] that(4) by (simp add: demand_def split_beta)
  show "?goal (evaluateRegex su subject pattern path schema keyword st)"
  proof (cases "op_maxRegexSubjectBytes (su_options su) \<noteq> 0 \<and> length subject > op_maxRegexSubjectBytes (su_options su)")
    case True
    with none [OF st] show ?thesis by (simp add: evaluateRegex_def regex_answer_def Let_def)
  next
    case False
    show ?thesis
    proof (cases rule: cached_pattern_cases [OF st su, of pattern path])
      case (1 st1)
      then show ?thesis
        unfolding evaluateRegex_def Let_def if_not_P [OF False] by (simp add: outcome_def)
    next
      case (2 st1)
      show ?thesis
      proof (cases "compile_pattern su pattern = Ready")
        case refused: False
        then have "\<not> ?P" by (simp add: regex_answer_def Let_def)
        with refused 2(1) none [OF 2(2,3,4)] show ?thesis
          unfolding evaluateRegex_def Let_def if_not_P [OF False]
          by (auto simp: compile_pattern_def Let_def)
      next
        case ok: True
        have e: "evaluateRegex su subject pattern path schema keyword st =
            (case chargeValidationWork su path (length subject + 1) st1 of
               (False, st2) \<Rightarrow> Inr (None, st2)
             | (True, st2) \<Rightarrow>
                 (case regex_search (su_engine su) pattern subject of
                    WorkLimit \<Rightarrow> ?refuse Schema_ResourceLimit ''schema regex work limit exceeded'' st2
                  | Invalid \<Rightarrow> ?refuse RegexFailure ''schema regex evaluation failed'' st2
                  | Match \<Rightarrow> Inr (Some True, st2)
                  | NoMatch \<Rightarrow> Inr (Some False, st2)))"
          unfolding evaluateRegex_def Let_def if_not_P [OF False] using 2(1) by (simp add: ok)
        have y: "?y = (case regex_search (su_engine su) pattern subject of
            Match \<Rightarrow> Some True | NoMatch \<Rightarrow> Some False | _ \<Rightarrow> None)"
          using False ok by (auto simp: regex_answer_def Let_def)
        show ?thesis
        proof (cases rule: chargeValidationWork_cases [OF 2(2) su, of path "length subject + 1"])
          case 1
          have b: "books su st1" using 2 su by (simp add: ready_def)
          note fb = failValidationBudget_books [OF b, of path msg_work_budget]
          have "ready w (failValidationBudget su path msg_work_budget st1)"
            using 2(2) fb su by (auto simp: ready_def failValidationBudget_def bestEffortSchemaError_def Let_def)
          with 1 fb 2 grows_trans [OF 2(3) fb(2)] show ?thesis
            by (simp add: e outcome_def)
        next
          case (2 st2)
          have g: "grows st st2" "vs_failures st2 = vs_failures st" "standing_of st2 = standing_of st"
            using grows_trans [OF \<open>grows st st1\<close> 2(3)] 2 \<open>vs_failures st1 = vs_failures st\<close>
              \<open>standing_of st1 = standing_of st\<close> by simp_all
          with 2 none [OF 2(2) g(1,2)] show ?thesis
            by (cases "regex_search (su_engine su) pattern subject")
              (simp_all add: e y outcome_def demand_def standing_of_def)
        qed
      qed
    qed
  qed
qed

text \<open>A step that only charges: what it returns is known from elsewhere.\<close>

abbreviation charges :: "site \<Rightarrow> (vstate \<Rightarrow> 'a vresult) \<Rightarrow> bool" where
  "charges w m \<equiv> obeys w (\<lambda>_. ()) m (\<lambda>A. True) (\<lambda>A. ()) (\<lambda>A. bot)"

lemma charges_return: "charges w (\<lambda>st. Inr (x, st))"
  by (rule obeys_return)

lemma charges_bind:
  assumes "charges w m" "\<And>x. charges w (f x)"
  shows "charges w (\<lambda>st. try_bind (m st) (\<lambda>(x, st1). f x st1))"
  using obeys_bind [where P' = "\<lambda>_ _. True" and y' = "\<lambda>_ _. ()" and Q' = "\<lambda>_ _. bot" and f = f and h = "\<lambda>_. ()",
      OF assms(1)] assms(2)
  by simp

lemma returns_charges:
  assumes "charges w m" "\<And>st x st1. m st = Inr (x, st1) \<Longrightarrow> x = y"
  shows "returns w m True y"
proof (rule obeysI)
  fix st assume "ready w st"
  from obeysD [OF assms(1) this]
  show "outcome w (\<lambda>x. x) st (m st) (demand (\<lambda>A. True) (\<lambda>A. y) (\<lambda>A. bot) (standing_of st))"
    by (rule outcome_cases) (use assms(2) in \<open>auto simp: outcome_def demand_def split: if_splits\<close>)
qed

lemma charges_member_charges:
  assumes "su = at_setup w"
  shows "charges w (member_charges su path l r)"
proof (induction l)
  case Nil
  have "member_charges su path [] r = (\<lambda>st. Inr (Some [], st))" by (simp add: fun_eq_iff)
  then show ?case by (simp add: charges_return)
next
  case (Cons m ms)
  obtain k lv where m: "m = (k, lv)" by (cases m)
  have "member_charges su path (m # ms) r =
      (\<lambda>st. try_bind (charge su path (length k + 1) st) (\<lambda>(_, st1).
        (case map_of r k of
           None \<Rightarrow> (\<lambda>st1. Inr (None, st1))
         | Some rv \<Rightarrow> (\<lambda>st1. try_bind (member_charges su path ms r st1) (\<lambda>(ps, st2).
             Inr (map_option (Cons (lv, rv)) ps, st2)))) st1))"
    by (auto simp: m fun_eq_iff split: option.splits)
  then show ?case
    using Cons by (auto intro!: charges_bind asks_charge assms charges_return split: option.splits)
qed

lemma charges_equal_pair: "su = at_setup w \<Longrightarrow> charges w (equal_pair su path l r)"
proof -
  assume su: "su = at_setup w"
  consider (string) a b where "l = JString a" "r = JString b"
    | (object) a b where "l = JObject a" "r = JObject b"
    | (plain) x where "equal_pair su path l r = (\<lambda>st. Inr (x, st))"
    by (cases l; cases r) (auto simp: equal_pair_def [abs_def] isNumber_def)
  then show ?thesis
  proof cases
    case string
    have "equal_pair su path l r = (\<lambda>st. try_bind (charge su path (max (length a) (length b)) st)
        (\<lambda>(_, st1). Inr (if a \<noteq> b then None else Some [], st1)))"
      by (simp add: string equal_pair_def [abs_def] isNumber_def)
    then show ?thesis by (simp only: charges_bind asks_charge [OF su] charges_return)
  next
    case object
    have "equal_pair su path l r =
        (if length a \<noteq> length b then (\<lambda>st. Inr (None, st)) else member_charges su path a b)"
      by (simp add: object equal_pair_def [abs_def] isNumber_def)
    then show ?thesis using charges_member_charges [OF su] by (simp add: charges_return)
  qed (simp add: charges_return)
qed

lemma charges_equal_loop:
  assumes "su = at_setup w"
  shows "charges w (equal_loop su path work)"
proof (induction "work_nodes work" arbitrary: work rule: less_induct)
  case less
  show ?case
  proof (cases work)
    case Nil
    have "equal_loop su path [] = (\<lambda>st. Inr (True, st))" by (simp add: fun_eq_iff)
    then show ?thesis by (simp add: Nil charges_return)
  next
    case (Cons p rest)
    obtain l r where p: "p = (l, r)" by (cases p)
    let ?f = "\<lambda>ps. case ps of None \<Rightarrow> (\<lambda>st2. Inr (False, st2)) | Some qs \<Rightarrow> equal_loop su path (rev qs @ rest)"
    let ?f' = "\<lambda>ps. if ps = equal_node l r then ?f ps else (\<lambda>st2. Inr (False, st2))"
    have e: "equal_loop su path work = (\<lambda>st. try_bind (charge su path 1 st) (\<lambda>(_, st1).
        try_bind (equal_pair su path l r st1) (\<lambda>(ps, st2). ?f' ps st2)))"
    proof (rule ext)
      fix st
      show "equal_loop su path work st = try_bind (charge su path 1 st) (\<lambda>(_, st1).
          try_bind (equal_pair su path l r st1) (\<lambda>(ps, st2). ?f' ps st2))"
      proof (cases "charge su path 1 st")
        case c: (Inr a)
        obtain st1 where a: "a = ((), st1)" by (cases a) simp
        show ?thesis
        proof (cases "equal_pair su path l r st1")
          case (Inr b)
          then show ?thesis
            using equal_pair_node [of su path l r st1 "fst b" "snd b"] c
            by (cases b) (auto simp: Cons p a split: option.splits)
        qed (use c in \<open>simp add: Cons p a\<close>)
      qed (simp add: Cons p)
    qed
    have "charges w (?f' ps)" for ps
    proof (cases "ps = equal_node l r \<and> ps \<noteq> None")
      case True
      then obtain qs where qs: "equal_node l r = Some qs" "ps = Some qs" by auto
      have "charges w (equal_loop su path (rev qs @ rest))"
        by (rule less) (use equal_node_nodes [OF qs(1)] in \<open>simp add: Cons p\<close>)
      with qs show ?thesis by simp
    qed (auto simp: charges_return)
    then show ?thesis
      unfolding e by (intro charges_bind asks_charge charges_equal_pair assms)
  qed
qed

lemma returns_equalWithBudget:
  "su = at_setup w \<Longrightarrow> returns w (equalWithBudget su path l r) True (operator_eq l r)"
  by (rule returns_charges)
    (simp_all only: equalWithBudget_def [abs_def] charges_equal_loop equalWithBudget_eq [unfolded equalWithBudget_def])

subsection \<open>Calls\<close>

text \<open>
  What a call of the validator promises its caller. The references, the annotations, the scope and
  the depth are as before; the answer is \<open>true\<close> exactly when no failure was counted, and then, in a
  run inside its budgets, the schema means the annotations returned.
\<close>

definition called ::
    "site \<Rightarrow> vstate \<Rightarrow> (bool \<times> annotations) vresult \<Rightarrow> seen option \<Rightarrow> bool" where
  "called w st r t \<longleftrightarrow>
     (case r of
        Inr ((valid, other), st') \<Rightarrow>
          ready w st' \<and> grows st st' \<and> vs_activeRefs st' = vs_activeRefs st \<and> vs_evaluated st' = vs_evaluated st
          \<and> (valid \<longrightarrow> \<not> vs_aborted st')
          \<and> (if vs_failures st' = vs_failures st then vs_aborted st' \<or> valid \<and> t = Some (reach_of other)
             else \<not> valid \<and> t = None)
      | Inl (Budget_exceeded, st') \<Rightarrow>
          books (at_setup w) st' \<and> \<not> vs_aborted st \<and> vs_aborted st' \<and> vs_mode st = Public
          \<and> vs_publicErrorStart st' = vs_publicErrorStart st
          \<and> prefix (vs_publicErrors st) (vs_publicErrors st') \<and> t = None
      | _ \<Rightarrow> False)"

lemma called_cases:
  assumes "called w st r t"
  obtains valid other st' where "r = Inr ((valid, other), st')" "ready w st'" "grows st st'"
      "vs_activeRefs st' = vs_activeRefs st" "vs_evaluated st' = vs_evaluated st" "valid \<longrightarrow> \<not> vs_aborted st'"
      "if vs_failures st' = vs_failures st then vs_aborted st' \<or> valid \<and> t = Some (reach_of other)
       else \<not> valid \<and> t = None"
  | st' where "r = Inl (Budget_exceeded, st')" "books (at_setup w) st'" "\<not> vs_aborted st" "vs_aborted st'"
      "vs_mode st = Public" "vs_publicErrorStart st' = vs_publicErrorStart st"
      "prefix (vs_publicErrors st) (vs_publicErrors st')" "t = None"
  using assms by (auto simp: called_def split: sum.splits prod.splits vexit.splits)

lemma grows_evaluated: "grows st (st'\<lparr>vs_evaluated := e\<rparr>) \<longleftrightarrow> grows st st'"
  by (simp add: grows_def adds_def)

text \<open>What a schema means at a node: \<^const>\<open>None\<close>, or all it evaluates there.\<close>

type_synonym meaning = "active \<Rightarrow> pnode \<Rightarrow> pnode \<Rightarrow> pnode option \<Rightarrow> string \<Rightarrow> seen option"

definition seen_of :: "seen option \<Rightarrow> seen" where
  "seen_of t = (case t of None \<Rightarrow> bot | Some E \<Rightarrow> E)"

definition accepted :: "seen option \<Rightarrow> bool" where
  "accepted t \<longleftrightarrow> t \<noteq> None"

lemma accepted_simps [simp]: "\<not> accepted None" "accepted (Some E)"
  by (simp_all add: accepted_def)

lemma seen_of_simps [simp]: "seen_of None = bot" "seen_of (Some E) = E"
  by (simp_all add: seen_of_def)

locale validator_call =
  fixes w :: site and V :: validator and v :: meaning
  assumes call: "ready w st \<Longrightarrow>
    called w st (V node schema path root base st) (v (vs_activeRefs st) node schema root base)"
begin

lemma descend:
  "asks w (descend V node schema path) (\<lambda>A. accepted (v A node schema None [])) (\<lambda>A. bot)"
proof (rule obeysI)
  fix st assume "ready w st"
  from call [OF this, of node schema path None "[]"]
  show "outcome w (\<lambda>u. ()) st (descend V node schema path st)
      (demand (\<lambda>A. accepted (v A node schema None [])) (\<lambda>A. ()) (\<lambda>A. bot) (standing_of st))"
    by (rule called_cases)
      (auto simp: descend_def outcome_def demand_def standing_of_def accepted_def simp del: not_None_eq split: if_splits)
qed

lemma in_place:
  "asks w (in_place V node schema path root base) (\<lambda>A. accepted (v A node schema root base))
    (\<lambda>A. seen_of (v A node schema root base))"
proof (rule obeysI)
  fix st assume "ready w st"
  from call [OF this, of node schema path root base]
  show "outcome w (\<lambda>u. ()) st (in_place V node schema path root base st)
      (demand (\<lambda>A. accepted (v A node schema root base)) (\<lambda>A. ()) (\<lambda>A. seen_of (v A node schema root base))
        (standing_of st))"
  proof (cases rule: called_cases)
    case (1 valid other st')
    define st2 where "st2 = (if valid then merge_into other st' else st')"
    have "ready w st2" using 1(2) by (simp add: st2_def merge_into_def ready_def books_def)
    moreover have "grows st st2" using 1(3) by (simp add: st2_def merge_into_def grows_evaluated)
    moreover have "vs_failures st2 = vs_failures st'" "vs_aborted st2 = vs_aborted st'"
      by (simp_all add: st2_def merge_into_def)
    moreover have "standing_of st2 = (vs_activeRefs st, if valid then sup (reached st) (reach_of other) else reached st)"
      using 1(4,5) by (simp add: st2_def merge_into_def standing_of_def)
    moreover have "in_place V node schema path root base st = Inr ((), st2)"
      by (simp add: in_place_def 1(1) st2_def)
    ultimately show ?thesis using 1(7)
      by (auto simp: outcome_def demand_def standing_of_def accepted_def simp del: not_None_eq split: if_splits)
  qed (auto simp: in_place_def outcome_def demand_def standing_of_def accepted_def)
qed

text \<open>What a call whose errors are kept apart answers.\<close>

lemma speculate:
  assumes "mode \<noteq> Public"
  shows "obeys w (\<lambda>(valid, other, values). if valid then Some (reach_of other) else None)
    (speculate V mode values node schema path) (\<lambda>A. True) (\<lambda>A. v A node schema None []) (\<lambda>A. bot)"
proof (rule obeysI)
  fix st assume st: "ready w st"
  define st0 where "st0 = st\<lparr>vs_mode := mode, vs_values := values, vs_failures := 0\<rparr>"
  have r0: "ready w st0" using st by (simp add: st0_def ready_def books_def)
  have a0: "vs_activeRefs st0 = vs_activeRefs st" by (simp add: st0_def)
  from call [OF r0, of node schema path None "[]"]
  show "outcome w (\<lambda>(valid, other, values). if valid then Some (reach_of other) else None) st
      (speculate V mode values node schema path st)
      (demand (\<lambda>A. True) (\<lambda>A. v A node schema None []) (\<lambda>A. bot) (standing_of st))"
  proof (cases rule: called_cases)
    case (1 valid other st')
    define st2 where "st2 = st'\<lparr>vs_mode := vs_mode st, vs_values := vs_values st, vs_failures := vs_failures st\<rparr>"
    have "ready w st2" using 1(2) by (simp add: st2_def ready_def books_def)
    moreover have "grows st st2" using 1(3) assms
      by (auto simp: st2_def st0_def grows_def adds_def)
    moreover have "vs_failures st2 = vs_failures st" by (simp add: st2_def)
    moreover have "standing_of st2 = standing_of st" using 1(4,5) by (simp add: st2_def st0_def standing_of_def)
    moreover have "speculate V mode values node schema path st = Inr ((valid, other, vs_values st'), st2)"
      using 1(1) by (simp add: speculate_def st0_def st2_def)
    moreover have "vs_aborted st2 \<or> v (vs_activeRefs st) node schema None [] = (if valid then Some (reach_of other) else None)"
      using 1(7) a0 by (auto simp: st2_def split: if_splits)
    ultimately show ?thesis
      by (auto simp: outcome_def demand_def standing_of_def)
  qed (use assms in \<open>simp add: st0_def\<close>)
qed

end

end
