(* ===== verification/Schema_Meaning.thy ===== *)
theory Schema_Meaning
  imports Schema_Calculus
begin

section \<open>What a schema means\<close>

text \<open>
  The keywords without the machinery of a run: no budgets, no errors, no order of evaluation. Each
  keyword is a condition on the instance and what it evaluates, given what subschemas mean. A
  condition that refers to a subschema is given the active references, which the code compares for
  cycles.
\<close>

definition if_given :: "'a option \<Rightarrow> ('a \<Rightarrow> bool) \<Rightarrow> bool" where
  "if_given opt P = (case opt of None \<Rightarrow> True | Some x \<Rightarrow> P x)"

definition seen_given :: "'a option \<Rightarrow> ('a \<Rightarrow> seen) \<Rightarrow> seen" where
  "seen_given opt Q = (case opt of None \<Rightarrow> bot | Some x \<Rightarrow> Q x)"

lemma if_given_simps [simp]: "if_given None P" "if_given (Some x) P = P x"
  by (simp_all add: if_given_def)

lemma seen_given_simps [simp]: "seen_given None Q = bot" "seen_given (Some x) Q = Q x"
  by (simp_all add: seen_given_def)

abbreviation fr_value :: "frame \<Rightarrow> json" where
  "fr_value fr \<equiv> pn_value (fr_node fr)"

subsection \<open>Assertions\<close>

definition strict_ok :: "vsetup \<Rightarrow> frame \<Rightarrow> bool" where
  "strict_ok su fr \<longleftrightarrow>
     (op_strictSubset (su_options su) \<longrightarrow>
        list_all (\<lambda>key. isSupportedSchemaKeyword key \<or> \<not> isStandardSchemaKeyword key)
          (pjson_keys (pn_value (fr_schema fr))))"

definition type_ok :: "frame \<Rightarrow> bool" where
  "type_ok fr = if_given (validationKeyword fr ''type'') (\<lambda>t.
     if isString (pn_value t) then typeMatches (fr_value fr) (strOf (pn_value t))
     else isArray (pn_value t) \<longrightarrow>
       list_ex (\<lambda>e. isString e \<and> typeMatches (fr_value fr) (strOf e)) (json_elements (pn_value t)))"

definition const_ok :: "frame \<Rightarrow> bool" where
  "const_ok fr = if_given (validationKeyword fr ''const'') (\<lambda>c. operator_eq (fr_value fr) (pn_value c))"

definition enum_ok :: "frame \<Rightarrow> bool" where
  "enum_ok fr = if_given (validationKeyword fr ''enum'') (\<lambda>en.
     isArray (pn_value en) \<longrightarrow> list_ex (operator_eq (fr_value fr)) (json_elements (pn_value en)))"

definition bound_ok :: "frame \<Rightarrow> string \<Rightarrow> (int \<Rightarrow> bool) \<Rightarrow> bool" where
  "bound_ok fr keyword violated = if_given (validationKeyword fr keyword) (\<lambda>m.
     isNumber (pn_value m) \<longrightarrow> if_given (tryCompareNumber (fr_value fr) (pn_value m)) (\<lambda>order. \<not> violated order))"

definition multiple_ok :: "vsetup \<Rightarrow> frame \<Rightarrow> bool" where
  "multiple_ok su fr = if_given (validationKeyword fr ''multipleOf'') (\<lambda>m.
     isNumber (pn_value m) \<longrightarrow> isExactMultiple (su_d2s su) (fr_value fr) (pn_value m))"

definition number_ok :: "vsetup \<Rightarrow> frame \<Rightarrow> bool" where
  "number_ok su fr \<longleftrightarrow>
     (isNumber (fr_value fr) \<longrightarrow>
        bound_ok fr ''minimum'' (\<lambda>order. order < 0) \<and> bound_ok fr ''maximum'' (\<lambda>order. order > 0)
        \<and> bound_ok fr ''exclusiveMinimum'' (\<lambda>order. order \<le> 0)
        \<and> bound_ok fr ''exclusiveMaximum'' (\<lambda>order. order \<ge> 0)
        \<and> multiple_ok su fr)"

definition size_ok :: "frame \<Rightarrow> string \<Rightarrow> (nat \<Rightarrow> json \<Rightarrow> bool) \<Rightarrow> nat \<Rightarrow> bool" where
  "size_ok fr keyword violated n = if_given (validationKeyword fr keyword) (\<lambda>m. \<not> violated n (pn_value m))"

definition sizes_ok :: "frame \<Rightarrow> string \<Rightarrow> string \<Rightarrow> nat \<Rightarrow> bool" where
  "sizes_ok fr least most n \<longleftrightarrow> size_ok fr least below_bound n \<and> size_ok fr most above_bound n"

definition pattern_ok :: "vsetup \<Rightarrow> frame \<Rightarrow> bool" where
  "pattern_ok su fr = if_given (validationKeyword fr ''pattern'') (\<lambda>p.
     isString (pn_value p) \<longrightarrow> regex_answer su (strOf (fr_value fr)) (strOf (pn_value p)) = Some True)"

definition format_ok :: "vsetup \<Rightarrow> frame \<Rightarrow> bool" where
  "format_ok su fr \<longleftrightarrow>
     (dp_assertFormats (cu_policy (fr_at fr)) \<longrightarrow>
        if_given (node_find (fr_schema fr) ''format'') (\<lambda>f.
          isString (pn_value f) \<longrightarrow>
            knownFormatValid (su_engine su) (strOf (pn_value f)) (strOf (fr_value fr)) \<noteq> (True, False)))"

definition string_ok :: "vsetup \<Rightarrow> frame \<Rightarrow> bool" where
  "string_ok su fr \<longleftrightarrow>
     (isString (fr_value fr) \<longrightarrow>
        sizes_ok fr ''minLength'' ''maxLength'' (char_count (strOf (fr_value fr)) 0)
        \<and> pattern_ok su fr \<and> format_ok su fr)"

subsection \<open>Arrays\<close>

definition unique_ok :: "frame \<Rightarrow> bool" where
  "unique_ok fr = if_given (validationKeyword fr ''uniqueItems'') (\<lambda>u.
     isBool (pn_value u) \<and> boolOf (pn_value u) \<longrightarrow>
       sorted_wrt (\<lambda>x y. \<not> operator_eq x y) (json_elements (fr_value fr)))"

text \<open>The elements with the schemas for their places.\<close>

definition placed_items :: "frame \<Rightarrow> (nat \<times> pnode \<times> pnode) list" where
  "placed_items fr =
     (let elems = enumerate 0 (node_elements (fr_node fr));
          prefixItems = applicatorKeyword fr ''prefixItems'';
          prefixes = (case prefixItems of None \<Rightarrow> [] | Some p \<Rightarrow> node_elements p);
          pair = (\<lambda>((i, elem), sub). (i, elem, sub))
      in map pair (zip elems prefixes) @
         (case applicatorKeyword fr ''items'' of
            None \<Rightarrow> []
          | Some schemas \<Rightarrow>
              if isArray (pn_value schemas) \<and> prefixItems = None then map pair (zip elems (node_elements schemas))
              else map (\<lambda>(i, elem). (i, elem, schemas)) (drop (length prefixes) elems)))"

definition items_ok :: "meaning \<Rightarrow> frame \<Rightarrow> active \<Rightarrow> bool" where
  "items_ok v fr A = list_all (\<lambda>(i, elem, sub). accepted (v A elem sub None [])) (placed_items fr)"

definition items_seen :: "frame \<Rightarrow> seen" where
  "items_seen fr = ({}, set (map fst (placed_items fr)))"

text \<open>The places of the elements that match.\<close>

definition contained :: "meaning \<Rightarrow> frame \<Rightarrow> active \<Rightarrow> pnode \<Rightarrow> nat list" where
  "contained v fr A contains =
     map fst (filter (\<lambda>(i, elem). accepted (v A elem contains None [])) (enumerate 0 (node_elements (fr_node fr))))"

definition contains_ok :: "meaning \<Rightarrow> frame \<Rightarrow> active \<Rightarrow> bool" where
  "contains_ok v fr A = if_given (applicatorKeyword fr ''contains'') (\<lambda>c.
     min_contains fr \<le> length (contained v fr A c)
     \<and> size_ok fr ''maxContains'' above_bound (length (contained v fr A c)))"

definition contains_seen :: "meaning \<Rightarrow> frame \<Rightarrow> active \<Rightarrow> seen" where
  "contains_seen v fr A = seen_given (applicatorKeyword fr ''contains'') (\<lambda>c. ({}, set (contained v fr A c)))"

definition array_ok :: "meaning \<Rightarrow> frame \<Rightarrow> active \<Rightarrow> bool" where
  "array_ok v fr A \<longleftrightarrow>
     (isArray (fr_value fr) \<longrightarrow>
        sizes_ok fr ''minItems'' ''maxItems'' (length (json_elements (fr_value fr)))
        \<and> unique_ok fr \<and> items_ok v fr A \<and> contains_ok v fr A)"

definition array_seen :: "meaning \<Rightarrow> frame \<Rightarrow> active \<Rightarrow> seen" where
  "array_seen v fr A = (if isArray (fr_value fr) then sup (items_seen fr) (contains_seen v fr A) else bot)"

subsection \<open>Objects\<close>

definition names_ok :: "frame \<Rightarrow> json \<Rightarrow> bool" where
  "names_ok fr names =
     list_all (\<lambda>k. isString k \<longrightarrow> hasKey (fr_value fr) (strOf k)) (json_elements names)"

definition required_ok :: "frame \<Rightarrow> bool" where
  "required_ok fr = if_given (validationKeyword fr ''required'') (\<lambda>req.
     isArray (pn_value req) \<longrightarrow> names_ok fr (pn_value req))"

text \<open>The members a list of names selects, with the schemas of a container for them.\<close>

definition placed_members :: "frame \<Rightarrow> pnode \<Rightarrow> (string \<times> pnode \<times> pnode) list" where
  "placed_members fr props =
     List.map_filter (\<lambda>key.
       case (node_find (fr_node fr) key, node_find props key) of
         (Some member, Some sub) \<Rightarrow> Some (key, member, sub)
       | _ \<Rightarrow> None) (pjson_keys (pn_value props))"

definition properties_ok :: "meaning \<Rightarrow> frame \<Rightarrow> active \<Rightarrow> bool" where
  "properties_ok v fr A = if_given (applicatorKeyword fr ''properties'') (\<lambda>props.
     isObject (pn_value props) \<longrightarrow>
       list_all (\<lambda>(key, member, sub). accepted (v A member sub None [])) (placed_members fr props))"

definition properties_seen :: "frame \<Rightarrow> seen" where
  "properties_seen fr = seen_given (applicatorKeyword fr ''properties'') (\<lambda>props.
     if isObject (pn_value props) then (set (map fst (placed_members fr props)), {}) else bot)"

text \<open>Names and the patterns they are matched against.\<close>

definition pattern_pairs :: "frame \<Rightarrow> (string \<times> string) list" where
  "pattern_pairs fr =
     (case applicatorKeyword fr ''patternProperties'' of
        None \<Rightarrow> []
      | Some pats \<Rightarrow>
          if isObject (pn_value pats) then List.product (pjson_keys (pn_value pats)) (pjson_keys (fr_value fr))
          else [])"

definition pattern_pair_ok :: "vsetup \<Rightarrow> meaning \<Rightarrow> frame \<Rightarrow> active \<Rightarrow> pnode \<Rightarrow> string \<times> string \<Rightarrow> bool" where
  "pattern_pair_ok su v fr A pats = (\<lambda>(pat, key).
     case regex_answer su key pat of
       None \<Rightarrow> False
     | Some matches \<Rightarrow>
         matches \<longrightarrow>
           (case (node_find (fr_node fr) key, node_find pats pat) of
              (Some member, Some sub) \<Rightarrow> accepted (v A member sub None [])
            | _ \<Rightarrow> True))"

definition patterns_ok :: "vsetup \<Rightarrow> meaning \<Rightarrow> frame \<Rightarrow> active \<Rightarrow> bool" where
  "patterns_ok su v fr A = if_given (applicatorKeyword fr ''patternProperties'') (\<lambda>pats.
     list_all (pattern_pair_ok su v fr A pats) (pattern_pairs fr))"

definition pattern_matched :: "vsetup \<Rightarrow> frame \<Rightarrow> string set" where
  "pattern_matched su fr =
     set (map snd (filter (\<lambda>(pat, key). regex_answer su key pat = Some True) (pattern_pairs fr)))"

definition propertyNames_ok :: "meaning \<Rightarrow> frame \<Rightarrow> active \<Rightarrow> bool" where
  "propertyNames_ok v fr A = if_given (applicatorKeyword fr ''propertyNames'') (\<lambda>names.
     list_all (\<lambda>key. accepted (v A (name_node (fr_node fr) key) names None [])) (pjson_keys (fr_value fr)))"

text \<open>The dependencies of the names that are there.\<close>

definition triggered :: "frame \<Rightarrow> pnode \<Rightarrow> pnode list" where
  "triggered fr deps =
     List.map_filter (\<lambda>key. if hasKey (fr_value fr) key then node_find deps key else None)
       (pjson_keys (pn_value deps))"

definition dependentRequired_ok :: "frame \<Rightarrow> bool" where
  "dependentRequired_ok fr = if_given (validationKeyword fr ''dependentRequired'') (\<lambda>deps.
     isObject (pn_value deps) \<longrightarrow>
       list_all (\<lambda>names. isArray (pn_value names) \<longrightarrow> names_ok fr (pn_value names)) (triggered fr deps))"

abbreviation applies :: "meaning \<Rightarrow> frame \<Rightarrow> active \<Rightarrow> pnode \<Rightarrow> seen option" where
  "applies v fr A schema \<equiv> v A (fr_node fr) schema None []"

definition dependency_ok :: "meaning \<Rightarrow> frame \<Rightarrow> active \<Rightarrow> pnode \<Rightarrow> bool" where
  "dependency_ok v fr A dep =
     (if isArray (pn_value dep) then names_ok fr (pn_value dep) else accepted (applies v fr A dep))"

definition dependencies_ok :: "meaning \<Rightarrow> frame \<Rightarrow> active \<Rightarrow> bool" where
  "dependencies_ok v fr A = if_given (applicatorKeyword fr ''dependencies'') (\<lambda>deps.
     isObject (pn_value deps) \<longrightarrow> list_all (dependency_ok v fr A) (triggered fr deps))"

definition dependencies_seen :: "meaning \<Rightarrow> frame \<Rightarrow> active \<Rightarrow> seen" where
  "dependencies_seen v fr A = seen_given (applicatorKeyword fr ''dependencies'') (\<lambda>deps.
     if isObject (pn_value deps) then
       all_seen (map (\<lambda>dep. if isArray (pn_value dep) then bot else seen_of (applies v fr A dep)) (triggered fr deps))
     else bot)"

definition dependentSchemas_ok :: "meaning \<Rightarrow> frame \<Rightarrow> active \<Rightarrow> bool" where
  "dependentSchemas_ok v fr A = if_given (applicatorKeyword fr ''dependentSchemas'') (\<lambda>deps.
     isObject (pn_value deps) \<longrightarrow> list_all (\<lambda>dep. accepted (applies v fr A dep)) (triggered fr deps))"

definition dependentSchemas_seen :: "meaning \<Rightarrow> frame \<Rightarrow> active \<Rightarrow> seen" where
  "dependentSchemas_seen v fr A = seen_given (applicatorKeyword fr ''dependentSchemas'') (\<lambda>deps.
     if isObject (pn_value deps) then all_seen (map (\<lambda>dep. seen_of (applies v fr A dep)) (triggered fr deps))
     else bot)"

text \<open>The names neither \<open>properties\<close> nor \<open>patternProperties\<close> speaks of; the latter are given.\<close>

definition additional_names :: "frame \<Rightarrow> string set \<Rightarrow> string list" where
  "additional_names fr matched =
     filter (\<lambda>key.
       (case applicatorKeyword fr ''properties'' of None \<Rightarrow> True
        | Some p \<Rightarrow> \<not> (isObject (pn_value p) \<and> hasKey (pn_value p) key))
       \<and> key \<notin> matched) (pjson_keys (fr_value fr))"

definition additional_ok :: "meaning \<Rightarrow> frame \<Rightarrow> string set \<Rightarrow> active \<Rightarrow> bool" where
  "additional_ok v fr matched A = if_given (applicatorKeyword fr ''additionalProperties'') (\<lambda>addl.
     list_all (\<lambda>key.
       if isBool (pn_value addl) then boolOf (pn_value addl)
       else if_given (node_find (fr_node fr) key) (\<lambda>member. accepted (v A member addl None [])))
       (additional_names fr matched))"

definition additional_seen :: "frame \<Rightarrow> string set \<Rightarrow> seen" where
  "additional_seen fr matched = seen_given (applicatorKeyword fr ''additionalProperties'') (\<lambda>addl.
     (set (additional_names fr matched), {}))"

definition object_ok :: "vsetup \<Rightarrow> meaning \<Rightarrow> frame \<Rightarrow> active \<Rightarrow> bool" where
  "object_ok su v fr A \<longleftrightarrow>
     (isObject (fr_value fr) \<longrightarrow>
        required_ok fr
        \<and> sizes_ok fr ''minProperties'' ''maxProperties'' (length (pjson_keys (fr_value fr)))
        \<and> properties_ok v fr A \<and> patterns_ok su v fr A \<and> propertyNames_ok v fr A
        \<and> dependentRequired_ok fr \<and> dependencies_ok v fr A \<and> additional_ok v fr (pattern_matched su fr) A
        \<and> dependentSchemas_ok v fr A)"

definition object_seen :: "vsetup \<Rightarrow> meaning \<Rightarrow> frame \<Rightarrow> active \<Rightarrow> seen" where
  "object_seen su v fr A =
     (if isObject (fr_value fr) then
        all_seen
          [properties_seen fr, (pattern_matched su fr, {}), dependencies_seen v fr A,
           additional_seen fr (pattern_matched su fr), dependentSchemas_seen v fr A]
      else bot)"

subsection \<open>Conditions and combinations\<close>

text \<open>The branch of \<open>if\<close> that is taken.\<close>

definition branch_of :: "meaning \<Rightarrow> frame \<Rightarrow> active \<Rightarrow> pnode \<Rightarrow> pnode option" where
  "branch_of v fr A condition =
     (if accepted (applies v fr A condition) then applicatorKeyword fr ''then'' else applicatorKeyword fr ''else'')"

definition conditional_ok :: "meaning \<Rightarrow> frame \<Rightarrow> active \<Rightarrow> bool" where
  "conditional_ok v fr A = if_given (applicatorKeyword fr ''if'') (\<lambda>condition.
     if_given (branch_of v fr A condition) (\<lambda>branch. accepted (applies v fr A branch)))"

definition conditional_seen :: "meaning \<Rightarrow> frame \<Rightarrow> active \<Rightarrow> seen" where
  "conditional_seen v fr A = seen_given (applicatorKeyword fr ''if'') (\<lambda>condition.
     sup (seen_of (applies v fr A condition))
       (seen_given (branch_of v fr A condition) (\<lambda>branch. seen_of (applies v fr A branch))))"

definition subschemas :: "frame \<Rightarrow> string \<Rightarrow> pnode list" where
  "subschemas fr keyword =
     (case applicatorKeyword fr keyword of None \<Rightarrow> [] | Some s \<Rightarrow> node_elements s)"

definition branches :: "frame \<Rightarrow> string \<Rightarrow> pnode list option" where
  "branches fr keyword =
     (case applicatorKeyword fr keyword of
        None \<Rightarrow> None | Some s \<Rightarrow> if isArray (pn_value s) then Some (node_elements s) else None)"

definition allOf_ok :: "meaning \<Rightarrow> frame \<Rightarrow> active \<Rightarrow> bool" where
  "allOf_ok v fr A = list_all (\<lambda>sub. accepted (applies v fr A sub)) (subschemas fr ''allOf'')"

definition allOf_seen :: "meaning \<Rightarrow> frame \<Rightarrow> active \<Rightarrow> seen" where
  "allOf_seen v fr A = all_seen (map (\<lambda>sub. seen_of (applies v fr A sub)) (subschemas fr ''allOf''))"

definition anyOf_ok :: "meaning \<Rightarrow> frame \<Rightarrow> active \<Rightarrow> bool" where
  "anyOf_ok v fr A = if_given (branches fr ''anyOf'') (list_ex (\<lambda>sub. accepted (applies v fr A sub)))"

definition anyOf_seen :: "meaning \<Rightarrow> frame \<Rightarrow> active \<Rightarrow> seen" where
  "anyOf_seen v fr A =
     seen_given (branches fr ''anyOf'') (\<lambda>subs. all_seen (map (\<lambda>sub. seen_of (applies v fr A sub)) subs))"

definition matching :: "meaning \<Rightarrow> frame \<Rightarrow> active \<Rightarrow> pnode list \<Rightarrow> pnode list" where
  "matching v fr A subs = filter (\<lambda>sub. accepted (applies v fr A sub)) subs"

definition oneOf_ok :: "meaning \<Rightarrow> frame \<Rightarrow> active \<Rightarrow> bool" where
  "oneOf_ok v fr A = if_given (branches fr ''oneOf'') (\<lambda>subs. length (matching v fr A subs) = 1)"

definition oneOf_seen :: "meaning \<Rightarrow> frame \<Rightarrow> active \<Rightarrow> seen" where
  "oneOf_seen v fr A =
     seen_given (branches fr ''oneOf'') (\<lambda>subs. all_seen (map (\<lambda>sub. seen_of (applies v fr A sub)) subs))"

definition not_ok :: "meaning \<Rightarrow> frame \<Rightarrow> active \<Rightarrow> bool" where
  "not_ok v fr A = if_given (applicatorKeyword fr ''not'') (\<lambda>n.
     isBool (pn_value n) \<or> isObject (pn_value n) \<longrightarrow> \<not> accepted (applies v fr A n))"

subsection \<open>All keywords but the references\<close>

definition keywords_ok :: "vsetup \<Rightarrow> meaning \<Rightarrow> frame \<Rightarrow> active \<Rightarrow> bool" where
  "keywords_ok su v fr A \<longleftrightarrow>
     strict_ok su fr \<and> type_ok fr \<and> const_ok fr \<and> enum_ok fr \<and> number_ok su fr \<and> string_ok su fr
     \<and> array_ok v fr A \<and> object_ok su v fr A \<and> conditional_ok v fr A
     \<and> allOf_ok v fr A \<and> anyOf_ok v fr A \<and> oneOf_ok v fr A \<and> not_ok v fr A"

definition keywords_seen :: "vsetup \<Rightarrow> meaning \<Rightarrow> frame \<Rightarrow> active \<Rightarrow> seen" where
  "keywords_seen su v fr A =
     all_seen
       [array_seen v fr A, object_seen su v fr A, conditional_seen v fr A, allOf_seen v fr A,
        anyOf_seen v fr A, oneOf_seen v fr A]"

text \<open>What is left unevaluated; the condition for it, and that it is evaluated then.\<close>

definition rest_ok :: "meaning \<Rightarrow> active \<Rightarrow> pnode \<Rightarrow> pnode option \<Rightarrow> bool" where
  "rest_ok v A unevaluated member \<longleftrightarrow>
     (if isBool (pn_value unevaluated) \<and> \<not> boolOf (pn_value unevaluated) then False
      else if_given member (\<lambda>m. accepted (v A m unevaluated None [])))"

definition unevaluatedProperties_ok :: "meaning \<Rightarrow> frame \<Rightarrow> standing \<Rightarrow> bool" where
  "unevaluatedProperties_ok v fr = (\<lambda>(A, E).
     isObject (fr_value fr) \<longrightarrow> if_given (unevaluatedKeyword fr ''unevaluatedProperties'') (\<lambda>u.
       list_all (\<lambda>key. key \<notin> fst E \<longrightarrow> rest_ok v A u (node_find (fr_node fr) key)) (pjson_keys (fr_value fr))))"

definition unevaluatedProperties_seen :: "frame \<Rightarrow> seen" where
  "unevaluatedProperties_seen fr =
     (if isObject (fr_value fr) then
        seen_given (unevaluatedKeyword fr ''unevaluatedProperties'') (\<lambda>u. (set (pjson_keys (fr_value fr)), {}))
      else bot)"

definition unevaluatedItems_ok :: "meaning \<Rightarrow> frame \<Rightarrow> standing \<Rightarrow> bool" where
  "unevaluatedItems_ok v fr = (\<lambda>(A, E).
     isArray (fr_value fr) \<longrightarrow> if_given (unevaluatedKeyword fr ''unevaluatedItems'') (\<lambda>u.
       list_all (\<lambda>(i, item). i \<notin> snd E \<longrightarrow> rest_ok v A u (Some item)) (enumerate 0 (node_elements (fr_node fr)))))"

definition unevaluatedItems_seen :: "frame \<Rightarrow> seen" where
  "unevaluatedItems_seen fr =
     (if isArray (fr_value fr) then
        seen_given (unevaluatedKeyword fr ''unevaluatedItems'')
          (\<lambda>u. ({}, set (map fst (enumerate 0 (node_elements (fr_node fr))))))
      else bot)"

end
