(* ===== verification/Schema_Blocks.thy ===== *)
theory Schema_Blocks
  imports Schema_Meaning
begin

section \<open>The blocks of the validator mean their keywords\<close>

text \<open>
  For each block of \<open>Schema_Validate\<close>, the judgement that it asks for the condition of
  \<open>Schema_Meaning\<close> and evaluates what that theory says. The blocks that call the validator do so under
  the contract of \<^const>\<open>validator_call\<close>.
\<close>

subsection \<open>Rules for conditions that are given\<close>

lemma asksI:
  assumes "asks w m P Q" "\<And>A. R A = P A" "\<And>A. P A \<Longrightarrow> S A = Q A"
  shows "asks w m R S"
  by (rule obeys_cong [OF assms(1)]) (simp_all add: assms)

lemma asks_doneI: "(\<And>A. P A) \<Longrightarrow> (\<And>A. Q A = bot) \<Longrightarrow> asks w done_step P Q"
  by (rule asksI [OF asks_done]) simp_all

lemma asks_fail_atI: "su = at_setup w \<Longrightarrow> (\<And>A. \<not> P A) \<Longrightarrow> asks w (fail_at su fr code keyword message) P Q"
  by (rule asksI [OF asks_fail_at]) simp_all

lemma asks_reportI:
  "su = at_setup w \<Longrightarrow> (\<And>A. \<not> P A) \<Longrightarrow> asks w (report_error su schema code path keyword message) P Q"
  by (rule asksI [OF asks_report]) simp_all

lemma asks_push_backI: "su = at_setup w \<Longrightarrow> (\<And>A. \<not> P A) \<Longrightarrow> asks w (push_back su e) P Q"
  by (rule asksI [OF asks_push_back]) simp_all

lemma asks_with_someI:
  assumes "\<And>A. opt = None \<Longrightarrow> P A \<and> Q A = bot" "\<And>x. opt = Some x \<Longrightarrow> asks w (f x) P Q"
  shows "asks w (with_some opt f) P Q"
  using assms by (cases opt) (simp_all add: with_some_def asks_doneI)

lemma asks_whenI:
  assumes "\<And>A. \<not> c \<Longrightarrow> P A \<and> Q A = bot" "c \<Longrightarrow> asks w m P Q"
  shows "asks w (when_step c m) P Q"
  using assms by (simp add: when_step_def asks_doneI)

lemma asks_thenI:
  assumes "asks w a P Q" "asks w b P' Q'" "\<And>A. R A = (P A \<and> P' A)" "\<And>A. R A \<Longrightarrow> S A = sup (Q A) (Q' A)"
  shows "asks w (then_step a b) R S"
  by (rule asksI [OF asks_then [OF assms(1,2)]]) (simp_all add: assms(3,4))

lemma asks_charge_thenI: "su = at_setup w \<Longrightarrow> asks w b P Q \<Longrightarrow> asks w (then_step (charge su path n) b) P Q"
  by (rule asks_thenI [OF asks_charge]) simp_all

lemma asks_then_stopI: "asks w a P Q \<Longrightarrow> asks w (then_step a stop_if_aborted) P Q"
  by (rule asks_thenI [OF _ asks_stop_if_aborted]) simp_all

lemma steps_of_simps [simp]:
  "steps_of [] = done_step" "steps_of (s # ss) = then_step s (steps_of ss)"
  by (simp_all add: steps_of_def)

text \<open>A sequence of steps, with a condition for each.\<close>

lemma asks_steps:
  "list_all2 (\<lambda>s (P, Q). asks w s P Q) ss PQs \<Longrightarrow>
    asks w (steps_of ss) (\<lambda>A. list_all (\<lambda>(P, Q). P A) PQs) (\<lambda>A. all_seen (map (\<lambda>(P, Q). Q A) PQs))"
proof (induction ss PQs rule: list_all2_induct)
  case (Cons s ss PQ PQs)
  then show ?case by (cases PQ) (simp add: asks_then)
qed (simp add: asks_done)

lemma asserts_steps:
  assumes "list_all2 (asserts w) ss Ps"
  shows "asserts w (steps_of ss) (list_all (\<lambda>P. P) Ps)"
  using assms by (induction ss Ps rule: list_all2_induct) (auto intro: asks_done asks_thenI)

lemma asks_then_doneI: "asks w a P Q \<Longrightarrow> asks w (then_step a done_step) P Q"
  by (rule asks_thenI [OF _ asks_done]) simp_all

lemma all_seen_bot [simp]: "all_seen (map (\<lambda>x. bot) xs) = bot"
  by (induction xs) simp_all

lemma all_seen_append [simp]: "all_seen (xs @ ys) = sup (all_seen xs) (all_seen ys)"
  by (induction xs) (simp_all add: sup_assoc)

lemma all_seen_items: "all_seen (map (\<lambda>x. ({}, {f x})) xs) = ({}, set (map f xs))"
  by (induction xs) (simp_all add: sup_prod_def bot_prod_def)

lemma all_seen_properties: "all_seen (map (\<lambda>x. ({f x}, {})) xs) = (set (map f xs), {})"
  by (induction xs) (simp_all add: sup_prod_def bot_prod_def)

lemma asks_for_eachI:
  assumes "\<And>x. x \<in> set xs \<Longrightarrow> asks w (f x) (P x) (Q x)" "\<And>A. R A = list_all (\<lambda>x. P x A) xs"
    "\<And>A. R A \<Longrightarrow> S A = all_seen (map (\<lambda>x. Q x A) xs)"
  shows "asks w (for_each xs f) R S"
  by (rule asksI [OF asks_for_each [OF assms(1)]]) (simp_all add: assms(2,3) list_all_iff)

lemma asserts_for_eachI:
  assumes "\<And>x. x \<in> set xs \<Longrightarrow> asserts w (f x) (P x)" "R = list_all P xs"
  shows "asserts w (for_each xs f) R"
  by (rule asks_for_eachI [OF assms(1)]) (simp_all add: assms(2))

lemma asks_returnsI:
  assumes "returns w m R y" "\<And>x. asks w (f x) (P x) (Q x)" "\<And>A. S A = (R \<and> P y A)" "\<And>A. S A \<Longrightarrow> T A = Q y A"
  shows "asks w (\<lambda>st. try_bind (m st) (\<lambda>(x, st1). f x st1)) S T"
  by (rule asksI [OF obeys_returns [where P' = P and y' = "\<lambda>_ _. ()" and Q' = Q, OF assms(1,2)]])
    (simp_all add: assms(3,4))

lemma asserts_returnsI:
  assumes "returns w m True y" "\<And>x. asserts w (f x) (P x)" "S = P y"
  shows "asserts w (\<lambda>st. try_bind (m st) (\<lambda>(x, st1). f x st1)) S"
  by (rule asks_returnsI [OF assms(1,2)]) (simp_all add: assms(3))

subsection \<open>Assertions\<close>

text \<open>Where a block runs.\<close>

locale validator_site =
  fixes w :: site and su :: vsetup
  assumes su: "su = at_setup w"
begin

lemma check_strict: "asserts w (check_strict su fr) (strict_ok su fr)"
  unfolding check_strict_def
proof (rule asks_whenI)
  assume c: "op_strictSubset (su_options su)"
  let ?P = "\<lambda>key. isSupportedSchemaKeyword key \<or> \<not> isStandardSchemaKeyword key"
  show "asserts w
      (then_step
        (for_each (pjson_keys (pn_value (fr_schema fr))) (\<lambda>key.
          then_step (charge su (fr_path fr) 1)
            (when_step (\<not> isSupportedSchemaKeyword key \<and> isStandardSchemaKeyword key)
              (addSchemaError su (fr_schema fr) UnsupportedKeyword (fr_path fr) key
                (''strict schema mode: unsupported standard keyword '' @ quoted key)))))
        stop_if_aborted) (strict_ok su fr)"
    by (intro asks_then_stopI asserts_for_eachI [where P = ?P] asks_charge_thenI su asks_whenI
        asks_push_backI [folded addSchemaError_def])
      (auto simp: strict_ok_def c addSchemaError_def [abs_def] asksI [OF asks_push_back [OF su]])
qed (simp add: strict_ok_def)

lemma match_types:
  "obeys w fst (match_types su path node es names) (\<lambda>A. True)
    (\<lambda>A. list_ex (\<lambda>e. isString e \<and> typeMatches node (strOf e)) es) (\<lambda>A. bot)"
proof (induction es arbitrary: names)
  case Nil
  have "match_types su path node [] names = (\<lambda>st. Inr ((False, names), st))" by (simp add: fun_eq_iff)
  then show ?case using obeys_return [of w fst "(False, names)"] by simp
next
  case (Cons e es)
  let ?names = "(if names \<noteq> [] then names @ '', '' else names) @ strOf e"
  have e: "match_types su path node (e # es) names = (\<lambda>st. try_bind (charge su path 1 st) (\<lambda>(_, st1).
      (if isString e \<and> typeMatches node (strOf e) then (\<lambda>st1. Inr ((True, ?names), st1))
       else match_types su path node es (if isString e then ?names else names)) st1))"
    by (simp add: fun_eq_iff Let_def)
  have r: "obeys w fst (if isString e \<and> typeMatches node (strOf e) then (\<lambda>st1. Inr ((True, ?names), st1))
       else match_types su path node es (if isString e then ?names else names)) (\<lambda>A. True)
      (\<lambda>A. list_ex (\<lambda>e. isString e \<and> typeMatches node (strOf e)) (e # es)) (\<lambda>A. bot)"
    using Cons obeys_return [of w fst "(True, ?names)"] by auto
  show ?case unfolding e by (rule obeys_asserts [OF asks_charge [OF su] r])
qed

lemma check_type: "asserts w (check_type su fr) (type_ok fr)"
  unfolding check_type_def
proof (rule asks_with_someI)
  fix t assume t: "validationKeyword fr ''type'' = Some t"
  let ?node = "fr_value fr" and ?m = "\<lambda>e. isString e \<and> typeMatches (fr_value fr) (strOf e)"
  let ?es = "json_elements (pn_value t)"
  have "asserts w (\<lambda>st. try_bind (match_types su (fr_path fr) ?node ?es [] st)
      (\<lambda>(r, st1). (case r of (matched, names) \<Rightarrow>
        when_step (\<not> matched) (fail_at su fr TypeMismatch ''type''
          (''expected one of type ['' @ names @ ''], got '' @ typeName ?node))) st1)) (list_ex ?m ?es)"
    by (rule asksI [OF obeys_bind [where P' = "\<lambda>matched A. matched" and y' = "\<lambda>_ _. ()" and Q' = "\<lambda>_ _. bot",
          OF match_types]])
      (auto intro!: asks_whenI asks_fail_atI su split: prod.splits)
  then show "asserts w
     (let node = fr_value fr
      in if isString (pn_value t) then
           when_step (\<not> typeMatches node (strOf (pn_value t)))
             (fail_at su fr TypeMismatch ''type'' (''expected type '' @ strOf (pn_value t) @ '', got '' @ typeName node))
         else when_step (isArray (pn_value t))
           (\<lambda>st. try_bind (match_types su (fr_path fr) node (json_elements (pn_value t)) [] st)
             (\<lambda>((matched, names), st1).
               when_step (\<not> matched)
                 (fail_at su fr TypeMismatch ''type''
                   (''expected one of type ['' @ names @ ''], got '' @ typeName node)) st1))) (type_ok fr)"
    unfolding Let_def
    by (auto simp: type_ok_def t prod.case_distrib intro!: asks_whenI asks_fail_atI su cong: prod.case_cong)
qed (simp add: type_ok_def)

lemma check_const: "asserts w (check_const su fr) (const_ok fr)"
  unfolding check_const_def
proof (rule asks_with_someI)
  fix c assume c: "validationKeyword fr ''const'' = Some c"
  show "asserts w (\<lambda>st. try_bind (equalWithBudget su (fr_path fr) (fr_value fr) (pn_value c) st) (\<lambda>(equal, st1).
      when_step (\<not> equal) (fail_at su fr ConstMismatch ''const'' ''value does not equal the required const'') st1))
      (const_ok fr)"
    by (rule asserts_returnsI [OF returns_equalWithBudget [OF su], where P = "\<lambda>equal. equal"])
      (auto simp: const_ok_def c intro!: asks_whenI asks_fail_atI su)
qed (simp add: const_ok_def)

lemma find_equal: "returns w (find_equal su path v xs) True (list_ex (operator_eq v) xs)"
proof (induction xs)
  case Nil
  have "find_equal su path v [] = (\<lambda>st. Inr (False, st))" by (simp add: fun_eq_iff)
  then show ?case using obeys_return [of w "\<lambda>x. x" False] by simp
next
  case (Cons x xs)
  have "find_equal su path v (x # xs) = (\<lambda>st. try_bind (equalWithBudget su path v x st) (\<lambda>(equal, st1).
      (if equal then (\<lambda>st1. Inr (True, st1)) else find_equal su path v xs) st1))"
    by (auto simp: fun_eq_iff intro!: arg_cong [of _ _ "try_bind _"])
  moreover have "returns w (\<lambda>st. try_bind (equalWithBudget su path v x st) (\<lambda>(equal, st1).
      (if equal then (\<lambda>st1. Inr (True, st1)) else find_equal su path v xs) st1)) True (list_ex (operator_eq v) (x # xs))"
    by (rule obeys_cong [OF obeys_returns [where P' = "\<lambda>_ _. True" and Q' = "\<lambda>_ _. bot"
            and y' = "\<lambda>equal _. equal \<or> list_ex (operator_eq v) xs", OF returns_equalWithBudget [OF su]]])
      (use Cons obeys_return [of w "\<lambda>x. x" True] in auto)
  ultimately show ?case by simp
qed

lemma check_enum: "asserts w (check_enum su fr) (enum_ok fr)"
  unfolding check_enum_def
proof (rule asks_with_someI)
  fix en assume en: "validationKeyword fr ''enum'' = Some en"
  show "asserts w (when_step (isArray (pn_value en)) (\<lambda>st.
      try_bind (find_equal su (fr_path fr) (fr_value fr) (json_elements (pn_value en)) st) (\<lambda>(found, st1).
        when_step (\<not> found) (fail_at su fr EnumMismatch ''enum'' ''value is not in the allowed enum'') st1)))
      (enum_ok fr)"
    by (rule asks_whenI, simp add: enum_ok_def en, rule asserts_returnsI [OF find_equal, where P = "\<lambda>found. found"])
      (auto simp: enum_ok_def en intro!: asks_whenI asks_fail_atI su)
qed (simp add: enum_ok_def)

lemma check_bound: "asserts w (check_bound su fr keyword violated words) (bound_ok fr keyword violated)"
  unfolding check_bound_def Let_def
  by (intro asks_with_someI asks_whenI asks_fail_atI su)
    (auto simp: bound_ok_def if_given_def split: option.splits)

lemma check_multipleOf: "asserts w (check_multipleOf su fr) (multiple_ok su fr)"
  unfolding check_multipleOf_def Let_def
  by (intro asks_with_someI asks_whenI asks_fail_atI su) (auto simp: multiple_ok_def)

lemma check_number: "asserts w (check_number su fr) (number_ok su fr)"
  unfolding check_number_def
proof (rule asks_whenI)
  assume n: "isNumber (fr_value fr)"
  let ?Ps = "[bound_ok fr ''minimum'' (\<lambda>order. order < 0), bound_ok fr ''maximum'' (\<lambda>order. order > 0),
      bound_ok fr ''exclusiveMinimum'' (\<lambda>order. order \<le> 0), bound_ok fr ''exclusiveMaximum'' (\<lambda>order. order \<ge> 0),
      multiple_ok su fr]"
  show "asserts w (steps_of
       [check_bound su fr ''minimum'' (\<lambda>order. order < 0) '' is below minimum '',
        check_bound su fr ''maximum'' (\<lambda>order. order > 0) '' is above maximum '',
        check_bound su fr ''exclusiveMinimum'' (\<lambda>order. order \<le> 0) '' is not greater than exclusiveMinimum '',
        check_bound su fr ''exclusiveMaximum'' (\<lambda>order. order \<ge> 0) '' is not less than exclusiveMaximum '',
        check_multipleOf su fr]) (number_ok su fr)"
    by (rule asksI [OF asserts_steps [where Ps = ?Ps]]) (simp_all add: check_bound check_multipleOf number_ok_def n)
qed (simp add: number_ok_def)

lemma check_size: "asserts w (check_size su fr code keyword violated n front words) (size_ok fr keyword violated n)"
  unfolding check_size_def
  by (intro asks_with_someI asks_whenI asks_fail_atI su) (auto simp: size_ok_def)

lemma check_pattern: "asserts w (check_pattern su fr) (pattern_ok su fr)"
  unfolding check_pattern_def
proof (rule asks_with_someI)
  fix p assume p: "validationKeyword fr ''pattern'' = Some p"
  show "asserts w
     (when_step (isString (pn_value p))
       (let pattern = strOf (pn_value p)
        in (\<lambda>st. try_bind (evaluateRegex su (strOf (fr_value fr)) pattern (fr_path fr) (fr_schema fr) ''pattern'' st)
             (\<lambda>(matches, st1).
               when_step (matches = Some False)
                 (fail_at su fr StringConstraint ''pattern'' (''string does not match pattern /'' @ pattern @ ''/'')) st1))))
      (pattern_ok su fr)"
    unfolding Let_def
    by (rule asks_whenI, simp add: pattern_ok_def p,
        rule asks_returnsI [OF returns_evaluateRegex [OF su], where P = "\<lambda>answer A. answer \<noteq> Some False"
          and Q = "\<lambda>_ _. bot"])
      (auto simp: pattern_ok_def p intro!: asks_whenI asks_fail_atI su)
qed (simp add: pattern_ok_def)

lemma check_format: "asserts w (check_format su fr) (format_ok su fr)"
  unfolding check_format_def
  by (intro asks_with_someI asks_whenI asks_fail_atI su) (auto simp: format_ok_def)

lemma check_string: "asserts w (check_string su fr) (string_ok su fr)"
  unfolding check_string_def
proof (rule asks_whenI)
  assume s: "isString (fr_value fr)"
  let ?P = "\<lambda>n. sizes_ok fr ''minLength'' ''maxLength'' n \<and> pattern_ok su fr \<and> format_ok su fr"
  let ?Ps = "\<lambda>n. [size_ok fr ''minLength'' below_bound n, size_ok fr ''maxLength'' above_bound n, pattern_ok su fr,
      format_ok su fr]"
  show "asserts w (\<lambda>st. try_bind (unicodeLength su (strOf (fr_value fr)) (fr_path fr) st) (\<lambda>(size, st1).
         steps_of
           [check_size su fr StringConstraint ''minLength'' below_bound size ''string length '' '' is below '',
            check_size su fr StringConstraint ''maxLength'' above_bound size ''string length '' '' is above '',
            check_pattern su fr,
            check_format su fr] st1)) (string_ok su fr)"
    by (rule asserts_returnsI [OF returns_unicodeLength [OF su], where P = ?P],
        rule asksI [OF asserts_steps [where Ps = "?Ps n" for n]])
      (simp_all add: check_size check_pattern check_format string_ok_def s sizes_ok_def)
qed (simp add: string_ok_def)

lemma has_duplicate: "returns w (has_duplicate su path xs) True (\<not> sorted_wrt (\<lambda>x y. \<not> operator_eq x y) xs)"
proof (induction xs)
  case Nil
  have "has_duplicate su path [] = (\<lambda>st. Inr (False, st))" by (simp add: fun_eq_iff)
  then show ?case using obeys_return [of w "\<lambda>x. x" False] by simp
next
  case (Cons x xs)
  have "has_duplicate su path (x # xs) = (\<lambda>st. try_bind (find_equal su path x xs st) (\<lambda>(dup, st1).
      (if dup then (\<lambda>st1. Inr (True, st1)) else has_duplicate su path xs) st1))"
    by (auto simp: fun_eq_iff intro!: arg_cong [of _ _ "try_bind _"])
  moreover have "returns w (\<lambda>st. try_bind (find_equal su path x xs st) (\<lambda>(dup, st1).
      (if dup then (\<lambda>st1. Inr (True, st1)) else has_duplicate su path xs) st1)) True
      (\<not> sorted_wrt (\<lambda>x y. \<not> operator_eq x y) (x # xs))"
    by (rule obeys_cong [OF obeys_returns [where P' = "\<lambda>_ _. True" and Q' = "\<lambda>_ _. bot"
            and y' = "\<lambda>dup _. dup \<or> \<not> sorted_wrt (\<lambda>x y. \<not> operator_eq x y) xs", OF find_equal]])
      (use Cons obeys_return [of w "\<lambda>x. x" True] in \<open>auto simp: list_ex_iff\<close>)
  ultimately show ?case by simp
qed

lemma check_uniqueItems: "asserts w (check_uniqueItems su fr) (unique_ok fr)"
  unfolding check_uniqueItems_def
proof (rule asks_with_someI)
  fix u :: pnode assume u: "validationKeyword fr ''uniqueItems'' = Some u"
  show "asserts w (when_step (isBool (pn_value u) \<and> boolOf (pn_value u)) (\<lambda>st.
      try_bind (has_duplicate su (fr_path fr) (json_elements (fr_value fr)) st) (\<lambda>(dup, st1).
        when_step dup (fail_at su fr ArrayConstraint ''uniqueItems'' ''array items are not unique'') st1)))
      (unique_ok fr)"
    by (rule asks_whenI, fastforce simp: unique_ok_def u, rule asserts_returnsI [OF has_duplicate, where P = "\<lambda>dup. \<not> dup"])
      (auto simp: unique_ok_def u intro!: asks_whenI asks_fail_atI su)
qed (simp add: unique_ok_def)

lemma check_names: "asserts w (check_names su fr keyword front names) (names_ok fr names)"
  unfolding check_names_def
  by (intro asserts_for_eachI [where P = "\<lambda>k. isString k \<longrightarrow> hasKey (fr_value fr) (strOf k)"] asks_charge_thenI su
      asks_whenI asks_fail_atI)
    (auto simp: names_ok_def)

lemma check_required: "asserts w (check_required su fr) (required_ok fr)"
  unfolding check_required_def
  by (intro asks_with_someI asks_whenI asksI [OF check_names]) (auto simp: required_ok_def)

end

subsection \<open>Lists of selected things\<close>

lemma accepted_if [simp]: "accepted (if c then Some E else None) = c"
  by simp

lemma list_all_map_filter:
  "list_all P (List.map_filter f xs) = list_all (\<lambda>x. case f x of None \<Rightarrow> True | Some y \<Rightarrow> P y) xs"
  by (induction xs) (simp_all add: map_filter_simps split: option.splits)

lemma all_seen_map_filter:
  "all_seen (map Q (List.map_filter f xs)) = all_seen (map (\<lambda>x. case f x of None \<Rightarrow> bot | Some y \<Rightarrow> Q y) xs)"
  by (induction xs) (simp_all add: map_filter_simps split: option.splits)

lemma list_all_filter: "list_all P (filter f xs) = list_all (\<lambda>x. f x \<longrightarrow> P x) xs"
  by (induction xs) simp_all

lemma set_seen_filter:
  "all_seen (map (\<lambda>x. if f x then ({x}, {}) else bot) xs) = (set (filter f xs), {})"
  by (induction xs) (simp_all add: sup_prod_def bot_prod_def)

subsection \<open>Arrays\<close>

text \<open>The blocks, under the contract of calls.\<close>

locale validator_keywords = validator_site w su + validator_call w V v for w su V v
begin

lemma check_here:
  "asks w (check_here V fr schema) (\<lambda>A. accepted (applies v fr A schema)) (\<lambda>A. seen_of (applies v fr A schema))"
  unfolding check_here_def by (rule asks_then_stopI [OF in_place])

lemma check_element:
  "asks w (check_element su V fr (i, elem, sub)) (\<lambda>A. accepted (v A elem sub None [])) (\<lambda>A. ({}, {i}))"
  unfolding check_element_def prod.case steps_of_simps
  by (rule asks_charge_thenI [OF su], rule asks_thenI [OF asks_mark_item asks_then_doneI [OF descend]])
    simp_all

lemma run_elements:
  "asks w (for_each_running xs (check_element su V fr))
    (\<lambda>A. list_all (\<lambda>(i, elem, sub). accepted (v A elem sub None [])) xs) (\<lambda>A. ({}, set (map fst xs)))"
  by (rule asksI [OF asks_for_each_running [where P = "\<lambda>(i, elem, sub) A. accepted (v A elem sub None [])"
          and Q = "\<lambda>x A. ({}, {fst x})"]])
    (auto simp: check_element list_all_iff all_seen_items split: prod.splits)

lemma check_items: "asks w (check_items su V fr) (items_ok v fr) (\<lambda>A. items_seen fr)"
proof -
  let ?pair = "\<lambda>((i, elem), sub). (i, elem, sub)"
  define elems where "elems = enumerate 0 (node_elements (fr_node fr))"
  define pre where "pre = applicatorKeyword fr ''prefixItems''"
  define prefixes where "prefixes = (case pre of None \<Rightarrow> [] | Some p \<Rightarrow> node_elements p)"
  define more where "more = (case applicatorKeyword fr ''items'' of
      None \<Rightarrow> []
    | Some schemas \<Rightarrow>
        if isArray (pn_value schemas) \<and> pre = None then map ?pair (zip elems (node_elements schemas))
        else map (\<lambda>(i, elem). (i, elem, schemas)) (drop (length prefixes) elems))"
  have placed: "placed_items fr = map ?pair (zip elems prefixes) @ more"
    unfolding placed_items_def Let_def elems_def pre_def prefixes_def more_def by (rule refl)
  have "asks w (with_some (applicatorKeyword fr ''items'') (\<lambda>schemas.
      if isArray (pn_value schemas) \<and> pre = None then
        for_each_running (map ?pair (zip elems (node_elements schemas))) (check_element su V fr)
      else for_each_running (map (\<lambda>(i, elem). (i, elem, schemas)) (drop (length prefixes) elems)) (check_element su V fr)))
    (\<lambda>A. list_all (\<lambda>(i, elem, sub). accepted (v A elem sub None [])) more) (\<lambda>A. ({}, set (map fst more)))"
    by (rule asks_with_someI)
      (simp_all only: more_def option.case run_elements list.pred_inject(1) list.map list.set bot_prod_def simp_thms
        split: if_split, blast)
  then have "asks w (check_items su V fr)
    (\<lambda>A. list_all (\<lambda>(i, elem, sub). accepted (v A elem sub None [])) (placed_items fr))
    (\<lambda>A. ({}, set (map fst (placed_items fr))))"
    unfolding check_items_def Let_def elems_def [symmetric] pre_def [symmetric] prefixes_def [symmetric]
    by (rule asks_thenI [OF run_elements]) (auto simp: placed sup_prod_def)
  then show ?thesis by (rule asksI) (simp_all add: items_ok_def items_seen_def)
qed

lemma count_matching:
  "obeys w (\<lambda>n. n) (count_matching su V fr c elems n) (\<lambda>A. True)
    (\<lambda>A. n + length (filter (\<lambda>(i, elem). accepted (v A elem c None [])) elems))
    (\<lambda>A. ({}, set (map fst (filter (\<lambda>(i, elem). accepted (v A elem c None [])) elems))))"
proof (induction elems arbitrary: n)
  case Nil
  have "count_matching su V fr c [] n = (\<lambda>st. Inr (n, st))" by (simp add: fun_eq_iff)
  then show ?case using obeys_return [of w "\<lambda>n. n" n] by (simp add: bot_prod_def)
next
  case (Cons x elems)
  obtain i elem where x: "x = (i, elem)" by (cases x)
  let ?m = "\<lambda>A. accepted (v A elem c None [])"
  let ?n = "\<lambda>valid. if valid then Suc n else n"
  let ?mark = "\<lambda>valid. then_step (when_step valid (mark_item i)) stop_if_aborted"
  let ?body = "\<lambda>st. try_bind (charge su (fr_path fr) 1 st) (\<lambda>(_, st1).
      try_bind (speculate V Discard [] elem c (pointerAppend (fr_path fr) (decimal i)) st1)
        (\<lambda>(r, st2). (case r of (valid, _, _) \<Rightarrow> (\<lambda>st2.
      try_bind (?mark valid st2) (\<lambda>(_, st3). count_matching su V fr c elems (?n valid) st3))) st2))"
  have mark: "asks w (?mark valid) (\<lambda>A. True) (\<lambda>A. if valid then ({}, {i}) else bot)" for valid
    by (intro asks_then_stopI asks_whenI asksI [OF asks_mark_item]) simp_all
  have rest: "obeys w (\<lambda>n. n)
      (\<lambda>st2. try_bind (?mark valid st2) (\<lambda>(_, st3). count_matching su V fr c elems (?n valid) st3)) (\<lambda>A. True)
      (\<lambda>A. ?n valid + length (filter (\<lambda>(i, elem). accepted (v A elem c None [])) elems))
      (\<lambda>A. sup (if valid then ({}, {i}) else bot)
        ({}, set (map fst (filter (\<lambda>(i, elem). accepted (v A elem c None [])) elems))))" for valid
    by (rule obeys_cong [OF obeys_bind [where P' = "\<lambda>_ _. True"
          and y' = "\<lambda>_ A. ?n valid + length (filter (\<lambda>(i, elem). accepted (v A elem c None [])) elems)"
          and Q' = "\<lambda>_ A. ({}, set (map fst (filter (\<lambda>(i, elem). accepted (v A elem c None [])) elems)))",
          OF mark]]) (rule Cons | simp)+
  have body: "obeys w (\<lambda>n. n) ?body (\<lambda>A. True)
      (\<lambda>A. n + length (filter (\<lambda>(i, elem). accepted (v A elem c None [])) (x # elems)))
      (\<lambda>A. ({}, set (map fst (filter (\<lambda>(i, elem). accepted (v A elem c None [])) (x # elems)))))"
    by (rule obeys_asserts [OF asks_charge [OF su]],
        rule obeys_cong [OF obeys_bind [where P' = "\<lambda>_ _. True"
          and y' = "\<lambda>t A. ?n (accepted t) + length (filter (\<lambda>(i, elem). accepted (v A elem c None [])) elems)"
          and Q' = "\<lambda>t A. sup (if accepted t then ({}, {i}) else bot)
            ({}, set (map fst (filter (\<lambda>(i, elem). accepted (v A elem c None [])) elems)))",
          OF speculate]])
      (auto simp: x sup_prod_def bot_prod_def simp del: list.set_map intro!: rest [THEN obeys_cong] split: if_split)
  show ?case
  proof (rule obeysI)
    fix st assume st: "ready w st"
    have "count_matching su V fr c (x # elems) n st = (if vs_aborted st then Inr (n, st) else ?body st)"
      by (simp add: x prod.case_distrib [of "\<lambda>f. f _"] cong: prod.case_cong)
    then show "outcome w (\<lambda>n. n) st (count_matching su V fr c (x # elems) n st)
        (demand (\<lambda>A. True) (\<lambda>A. n + length (filter (\<lambda>(i, elem). accepted (v A elem c None [])) (x # elems)))
          (\<lambda>A. ({}, set (map fst (filter (\<lambda>(i, elem). accepted (v A elem c None [])) (x # elems))))) (standing_of st))"
      using obeysD [OF body st] st by (simp only: outcome_def split: if_split) simp
  qed
qed

lemma check_contains: "asks w (check_contains su V fr) (contains_ok v fr) (contains_seen v fr)"
  unfolding check_contains_def
proof (rule asks_with_someI)
  fix c assume c: "applicatorKeyword fr ''contains'' = Some c"
  let ?elems = "enumerate 0 (node_elements (fr_node fr))"
  let ?P = "\<lambda>n. min_contains fr \<le> n \<and> size_ok fr ''maxContains'' above_bound n"
  let ?report = "\<lambda>n. then_step
      (when_step (n < min_contains fr)
        (fail_at su fr ArrayConstraint ''contains''
          (contains_message n '', below minContains '' (min_contains fr))))
      (with_some (validationKeyword fr ''maxContains'') (\<lambda>xc.
        case schemaSize (pn_value xc) of
          Some (Some bound) \<Rightarrow>
            when_step (n > bound)
              (fail_at su fr ArrayConstraint ''contains'' (contains_message n '', above maxContains '' bound))
        | _ \<Rightarrow> done_step))"
  have "asserts w (?report n) (?P n)" for n
    by (rule asks_thenI [where P = "\<lambda>A. min_contains fr \<le> n" and P' = "\<lambda>A. size_ok fr ''maxContains'' above_bound n"
          and Q = "\<lambda>A. bot" and Q' = "\<lambda>A. bot"])
      (auto simp: size_ok_def above_bound_def split: option.splits
        intro!: asks_whenI asks_fail_atI su asks_with_someI asks_doneI)
  then show "asks w (\<lambda>st. try_bind (count_matching su V fr c ?elems 0 st) (\<lambda>(matched, st1). ?report matched st1))
      (contains_ok v fr) (contains_seen v fr)"
    by (rule asksI [OF obeys_bind [where P' = "\<lambda>n A. ?P n" and y' = "\<lambda>_ _. ()" and Q' = "\<lambda>_ _. bot",
          OF count_matching]])
      (simp_all add: contains_ok_def contains_seen_def contained_def c)
qed (simp_all add: contains_ok_def contains_seen_def)

lemma check_array: "asks w (check_array su V fr) (array_ok v fr) (array_seen v fr)"
  unfolding check_array_def Let_def
proof (rule asks_whenI)
  let ?n = "length (json_elements (fr_value fr))"
  let ?PQs = "[(\<lambda>A. size_ok fr ''minItems'' below_bound ?n, \<lambda>A. bot),
      (\<lambda>A. size_ok fr ''maxItems'' above_bound ?n, \<lambda>A. bot), (\<lambda>A. unique_ok fr, \<lambda>A. bot),
      (items_ok v fr, \<lambda>A. items_seen fr), (contains_ok v fr, contains_seen v fr)]"
  assume "isArray (fr_value fr)"
  then show "asks w (steps_of
       [check_size su fr ArrayConstraint ''minItems'' below_bound ?n ''array has '' '' items, below '',
        check_size su fr ArrayConstraint ''maxItems'' above_bound ?n ''array has '' '' items, above '',
        check_uniqueItems su fr,
        check_items su V fr,
        check_contains su V fr]) (array_ok v fr) (array_seen v fr)"
    by (intro asksI [OF asks_steps [where PQs = ?PQs]])
      (simp_all add: check_size check_uniqueItems check_items check_contains array_ok_def array_seen_def sizes_ok_def)
qed (simp_all add: array_ok_def array_seen_def)

subsection \<open>Objects\<close>

lemma check_properties: "asks w (check_properties su V fr) (properties_ok v fr) (\<lambda>A. properties_seen fr)"
  unfolding check_properties_def
proof (rule asks_with_someI)
  fix props assume p: "applicatorKeyword fr ''properties'' = Some props"
  define sel where "sel = (\<lambda>key. case (node_find (fr_node fr) key, node_find props key) of
      (Some member, Some sub) \<Rightarrow> Some (key, member, sub) | _ \<Rightarrow> None)"
  have placed: "placed_members fr props = List.map_filter sel (pjson_keys (pn_value props))"
    by (simp add: placed_members_def sel_def)
  let ?P = "\<lambda>key A. case sel key of None \<Rightarrow> True | Some (key, member, sub) \<Rightarrow> accepted (v A member sub None [])"
  let ?Q = "\<lambda>key. case sel key of None \<Rightarrow> bot | Some (key, member, sub) \<Rightarrow> ({key}, {})"
  have one: "asks w
      (case (node_find (fr_node fr) key, node_find props key) of
         (Some member, Some sub) \<Rightarrow>
           then_step (mark_property key) (descend V member sub (pointerAppend (fr_path fr) key))
       | _ \<Rightarrow> done_step) (?P key) (\<lambda>A. ?Q key)" for key
    by (auto simp: sel_def split: option.splits intro!: asks_doneI asks_thenI [OF asks_mark_property descend])
  have seen: "all_seen (map ?Q keys) = (fst ` set (List.map_filter sel keys), {})" for keys :: "string list"
    using all_seen_map_filter [of "\<lambda>(key, member, sub). ({key}, {})" sel keys]
      all_seen_properties [of fst "List.map_filter sel keys"]
    by (simp add: case_prod_beta')
  show "asks w
     (when_step (isObject (pn_value props))
       (for_each (pjson_keys (pn_value props)) (\<lambda>key.
         steps_of
           [charge su (fr_path fr) 1,
            (case (node_find (fr_node fr) key, node_find props key) of
               (Some member, Some sub) \<Rightarrow>
                 then_step (mark_property key) (descend V member sub (pointerAppend (fr_path fr) key))
             | _ \<Rightarrow> done_step),
            stop_if_aborted]))) (properties_ok v fr) (\<lambda>A. properties_seen fr)"
    unfolding steps_of_simps
  proof (intro asks_whenI asks_for_eachI [where P = ?P and Q = "\<lambda>key A. ?Q key"] asks_charge_thenI [OF su])
    show "asks w (then_step
          (case (node_find (fr_node fr) key, node_find props key) of
             (Some member, Some sub) \<Rightarrow>
               then_step (mark_property key) (descend V member sub (pointerAppend (fr_path fr) key))
           | _ \<Rightarrow> done_step)
          (then_step stop_if_aborted done_step)) (?P key) (\<lambda>A. ?Q key)" for key
      by (rule asks_thenI [OF one asks_then_doneI [OF asks_stop_if_aborted]]) simp_all
  qed (simp_all add: properties_ok_def properties_seen_def p placed list_all_map_filter seen)
qed (simp_all add: properties_ok_def properties_seen_def)

lemma check_patternProperty:
  "obeys w (\<lambda>m. m) (check_patternProperty su V fr pats pat key) (\<lambda>A. pattern_pair_ok su v fr A pats (pat, key))
    (\<lambda>A. regex_answer su key pat = Some True) (\<lambda>A. if regex_answer su key pat = Some True then ({key}, {}) else bot)"
proof -
  let ?path = "pointerAppend (fr_path fr) key"
  let ?member = "case (node_find (fr_node fr) key, node_find pats pat) of
      (Some member, Some sub) \<Rightarrow> descend V member sub ?path | _ \<Rightarrow> done_step"
  let ?ok = "\<lambda>A. case (node_find (fr_node fr) key, node_find pats pat) of
      (Some member, Some sub) \<Rightarrow> accepted (v A member sub None []) | _ \<Rightarrow> True"
  let ?mark = "\<lambda>matches. then_step (when_step (matches = Some True) (then_step (mark_property key) ?member)) stop_if_aborted"
  have member: "asks w ?member ?ok (\<lambda>A. bot)"
    by (auto split: option.splits intro!: asks_doneI descend)
  have mark: "asks w (?mark matches) (\<lambda>A. matches = Some True \<longrightarrow> ?ok A)
      (\<lambda>A. if matches = Some True then ({key}, {}) else bot)" for matches
    by (intro asks_then_stopI asks_whenI asks_thenI [OF asks_mark_property member]) simp_all
  have last: "obeys w (\<lambda>m. m) (\<lambda>st. try_bind (?mark matches st) (\<lambda>(_, st3). Inr (matches = Some True, st3)))
      (\<lambda>A. matches = Some True \<longrightarrow> ?ok A) (\<lambda>A. matches = Some True)
      (\<lambda>A. if matches = Some True then ({key}, {}) else bot)" for matches
    by (rule obeys_cong [OF obeys_bind [where P' = "\<lambda>_ _. True" and y' = "\<lambda>_ A. matches = Some True"
            and Q' = "\<lambda>_ _. bot", OF mark obeys_return [of w "\<lambda>m. m" "matches = Some True"]]]) simp_all
  have body: "obeys w (\<lambda>m. m) (\<lambda>st. try_bind (evaluateRegex su key pat ?path (fr_schema fr) ''patternProperties'' st)
      (\<lambda>(matches, st2). try_bind (?mark matches st2) (\<lambda>(_, st3). Inr (matches = Some True, st3))))
    (\<lambda>A. pattern_pair_ok su v fr A pats (pat, key)) (\<lambda>A. regex_answer su key pat = Some True)
    (\<lambda>A. if regex_answer su key pat = Some True then ({key}, {}) else bot)"
    by (rule obeys_cong [OF obeys_returns [OF returns_evaluateRegex [OF su] last]])
      (auto simp: pattern_pair_ok_def split: option.splits)
  show ?thesis
    unfolding check_patternProperty_def [abs_def] Let_def by (rule obeys_asserts [OF asks_charge [OF su] body])
qed

lemma match_patterns:
  "obeys w set (match_patterns su V fr pats pairs matched) (\<lambda>A. list_all (pattern_pair_ok su v fr A pats) pairs)
    (\<lambda>A. set matched \<union> set (map snd (filter (\<lambda>(pat, key). regex_answer su key pat = Some True) pairs)))
    (\<lambda>A. (set (map snd (filter (\<lambda>(pat, key). regex_answer su key pat = Some True) pairs)), {}))"
proof (induction pairs arbitrary: matched)
  case Nil
  have "match_patterns su V fr pats [] matched = (\<lambda>st. Inr (matched, st))" by (simp add: fun_eq_iff)
  then show ?case using obeys_return [of w set matched] by (simp add: bot_prod_def)
next
  case (Cons p pairs)
  obtain pat key where p: "p = (pat, key)" by (cases p)
  have e: "match_patterns su V fr pats (p # pairs) matched =
      (\<lambda>st. try_bind (check_patternProperty su V fr pats pat key st) (\<lambda>(matches, st1).
        match_patterns su V fr pats pairs (if matches then key # matched else matched) st1))"
    by (simp add: p fun_eq_iff)
  show ?case
    unfolding e
    by (rule obeys_cong [OF obeys_bind [where f = "\<lambda>matches. match_patterns su V fr pats pairs (if matches then key # matched else matched)",
            OF check_patternProperty Cons]])
      (auto simp: p sup_prod_def bot_prod_def)
qed

lemma check_patternProperties:
  "obeys w set (check_patternProperties su V fr) (patterns_ok su v fr) (\<lambda>A. pattern_matched su fr)
    (\<lambda>A. (pattern_matched su fr, {}))"
proof (cases "pattern_pairs fr = []")
  case True
  have "check_patternProperties su V fr = (\<lambda>st. Inr ([], st))"
    using True by (auto simp: check_patternProperties_def [abs_def] pattern_pairs_def fun_eq_iff split: option.splits)
  then have "obeys w set (check_patternProperties su V fr) (\<lambda>A. True) (\<lambda>A. set []) (\<lambda>A. bot)"
    using obeys_return [of w set "[]"] by simp
  then show ?thesis
    by (rule obeys_cong) (simp_all add: True patterns_ok_def pattern_matched_def if_given_def bot_prod_def split: option.split)
next
  case False
  then obtain pats where pats: "applicatorKeyword fr ''patternProperties'' = Some pats" "isObject (pn_value pats)"
    by (auto simp: pattern_pairs_def split: option.splits if_splits)
  then have e: "check_patternProperties su V fr = match_patterns su V fr pats (pattern_pairs fr) []"
    by (simp add: check_patternProperties_def [abs_def] pattern_pairs_def)
  show ?thesis
    unfolding e by (rule obeys_cong [OF match_patterns]) (simp_all add: patterns_ok_def pattern_matched_def pats)
qed

lemma check_propertyNames: "asks w (check_propertyNames su V fr) (propertyNames_ok v fr) (\<lambda>A. bot)"
  unfolding check_propertyNames_def steps_of_simps
  by (intro asks_with_someI asks_for_eachI [where
        P = "\<lambda>key A. accepted (v A (name_node (fr_node fr) key) names None [])" and Q = "\<lambda>key A. bot" for names]
      asks_charge_thenI su asks_thenI [OF descend asks_then_doneI [OF asks_stop_if_aborted]])
    (simp_all add: propertyNames_ok_def)

text \<open>Loops over the names of a container whose members are there.\<close>

lemma for_triggered:
  assumes "\<And>key. asks w (g key)
      (\<lambda>A. case (if hasKey (fr_value fr) key then node_find deps key else None) of None \<Rightarrow> True | Some dep \<Rightarrow> P dep A)
      (\<lambda>A. case (if hasKey (fr_value fr) key then node_find deps key else None) of None \<Rightarrow> bot | Some dep \<Rightarrow> Q dep A)"
  shows "asks w (for_each (pjson_keys (pn_value deps)) g) (\<lambda>A. list_all (\<lambda>dep. P dep A) (triggered fr deps))
    (\<lambda>A. all_seen (map (\<lambda>dep. Q dep A) (triggered fr deps)))"
  by (rule asks_for_eachI [OF assms]) (simp_all only: triggered_def list_all_map_filter all_seen_map_filter)

lemma check_dependentRequired: "asserts w (check_dependentRequired su fr) (dependentRequired_ok fr)"
  unfolding check_dependentRequired_def
proof (rule asks_with_someI)
  fix deps assume d: "validationKeyword fr ''dependentRequired'' = Some deps"
  let ?P = "\<lambda>names A. isArray (pn_value names) \<longrightarrow> names_ok fr (pn_value names)"
  let ?loop = "for_each (pjson_keys (pn_value deps)) (\<lambda>key.
      then_step (charge su (fr_path fr) 1)
        (with_some (node_find deps key) (\<lambda>names.
          when_step (hasKey (fr_value fr) key \<and> isArray (pn_value names))
            (check_names su fr ''dependentRequired'' (requires_message key) (pn_value names)))))"
  have "asks w ?loop (\<lambda>A. list_all (\<lambda>dep. ?P dep A) (triggered fr deps))
      (\<lambda>A. all_seen (map (\<lambda>dep. bot) (triggered fr deps)))"
    by (rule for_triggered, rule asks_charge_thenI [OF su])
      (auto intro!: asks_with_someI asks_whenI check_names [THEN asksI] split: option.splits)
  then show "asserts w (when_step (isObject (pn_value deps)) ?loop) (dependentRequired_ok fr)"
    by (intro asks_whenI) (simp_all add: dependentRequired_ok_def d)
qed (simp add: dependentRequired_ok_def)

lemma check_dependencies:
  "asks w (check_dependencies su V fr) (dependencies_ok v fr) (dependencies_seen v fr)"
  unfolding check_dependencies_def
proof (rule asks_with_someI)
  fix deps assume d: "applicatorKeyword fr ''dependencies'' = Some deps"
  let ?Q = "\<lambda>dep A. if isArray (pn_value dep) then bot else seen_of (applies v fr A dep)"
  let ?dep = "\<lambda>key dep. if isArray (pn_value dep) then
        check_names su fr ''dependencies'' (requires_message key) (pn_value dep)
      else then_step (in_place V (fr_node fr) dep (fr_path fr) None []) stop_if_aborted"
  let ?loop = "for_each (pjson_keys (pn_value deps)) (\<lambda>key.
      then_step (charge su (fr_path fr) 1)
        (when_step (hasKey (fr_value fr) key) (with_some (node_find deps key) (?dep key))))"
  have dep: "asks w (?dep key dep) (\<lambda>A. dependency_ok v fr A dep) (?Q dep)" for key dep
    by (auto simp: dependency_ok_def intro!: check_names asks_then_stopI in_place)
  have "asks w ?loop (\<lambda>A. list_all (dependency_ok v fr A) (triggered fr deps))
      (\<lambda>A. all_seen (map (\<lambda>dep. ?Q dep A) (triggered fr deps)))"
    by (rule for_triggered, rule asks_charge_thenI [OF su])
      (auto intro!: asks_with_someI asks_whenI dep [THEN asksI])
  then show "asks w (when_step (isObject (pn_value deps)) ?loop) (dependencies_ok v fr) (dependencies_seen v fr)"
    by (intro asks_whenI) (auto simp: dependencies_ok_def dependencies_seen_def d elim: asksI)
qed (simp_all add: dependencies_ok_def dependencies_seen_def)

lemma check_dependentSchemas:
  "asks w (check_dependentSchemas su V fr) (dependentSchemas_ok v fr) (dependentSchemas_seen v fr)"
  unfolding check_dependentSchemas_def
proof (rule asks_with_someI)
  fix deps assume d: "applicatorKeyword fr ''dependentSchemas'' = Some deps"
  let ?loop = "for_each (pjson_keys (pn_value deps)) (\<lambda>key.
      then_step (charge su (fr_path fr) 1)
        (when_step (hasKey (fr_value fr) key)
          (then_step
            (with_some (node_find deps key) (\<lambda>dep. in_place V (fr_node fr) dep (fr_path fr) None []))
            stop_if_aborted)))"
  have "asks w ?loop (\<lambda>A. list_all (\<lambda>dep. accepted (applies v fr A dep)) (triggered fr deps))
      (\<lambda>A. all_seen (map (\<lambda>dep. seen_of (applies v fr A dep)) (triggered fr deps)))"
    by (rule for_triggered, rule asks_charge_thenI [OF su])
      (auto intro!: asks_whenI asks_then_stopI asks_with_someI in_place [THEN asksI])
  then show "asks w (when_step (isObject (pn_value deps)) ?loop) (dependentSchemas_ok v fr) (dependentSchemas_seen v fr)"
    by (intro asks_whenI) (auto simp: dependentSchemas_ok_def dependentSchemas_seen_def d elim: asksI)
qed (simp_all add: dependentSchemas_ok_def dependentSchemas_seen_def)

lemma check_additionalProperties:
  "asks w (check_additionalProperties su V fr pm) (additional_ok v fr (set pm)) (\<lambda>A. additional_seen fr (set pm))"
  unfolding check_additionalProperties_def Let_def
proof (rule asks_with_someI)
  fix addl assume a: "applicatorKeyword fr ''additionalProperties'' = Some addl"
  let ?declared = "\<lambda>key. case applicatorKeyword fr ''properties'' of None \<Rightarrow> False
      | Some p \<Rightarrow> isObject (pn_value p) \<and> hasKey (pn_value p) key"
  define new where "new = (\<lambda>key. (case applicatorKeyword fr ''properties'' of None \<Rightarrow> True
      | Some p \<Rightarrow> \<not> (isObject (pn_value p) \<and> hasKey (pn_value p) key)) \<and> key \<notin> set pm)"
  let ?ok = "\<lambda>key A. if isBool (pn_value addl) then boolOf (pn_value addl)
      else if_given (node_find (fr_node fr) key) (\<lambda>member. accepted (v A member addl None []))"
  let ?member = "\<lambda>key. if isBool (pn_value addl) then
        when_step (\<not> boolOf (pn_value addl))
          (report_error su (fr_schema fr) ObjectConstraint (pointerAppend (fr_path fr) key) ''additionalProperties''
            (''additional property '' @ quoted key @ '' is not allowed''))
      else with_some (node_find (fr_node fr) key) (\<lambda>member. descend V member addl (pointerAppend (fr_path fr) key))"
  have member: "asks w (?member key) (?ok key) (\<lambda>A. bot)" for key
    by (auto intro!: asks_whenI asks_reportI su asks_with_someI descend [THEN asksI])
  have one: "asks w
      (when_step (\<not> (?declared key \<or> key \<in> set pm))
        (then_step (mark_property key) (then_step (?member key) (then_step stop_if_aborted done_step))))
      (\<lambda>A. new key \<longrightarrow> ?ok key A) (\<lambda>A. if new key then ({key}, {}) else bot)" for key
  proof -
    have fresh: "(\<not> (?declared key \<or> key \<in> set pm)) = new key" by (auto simp: new_def split: option.splits)
    show ?thesis
      unfolding fresh
    proof (rule asks_whenI)
      have "asks w (then_step (?member key) (then_step stop_if_aborted done_step)) (?ok key) (\<lambda>A. bot)"
        by (rule asks_thenI [OF member asks_then_doneI [OF asks_stop_if_aborted]]) simp_all
      then show "asks w (then_step (mark_property key) (then_step (?member key) (then_step stop_if_aborted done_step)))
          (\<lambda>A. new key \<longrightarrow> ?ok key A) (\<lambda>A. if new key then ({key}, {}) else bot)" if "new key"
        using that by (intro asks_thenI [OF asks_mark_property]) (auto simp: sup_prod_def bot_prod_def)
    qed simp
  qed
  show "asks w (for_each (pjson_keys (fr_value fr)) (\<lambda>key.
      then_step (charge su (fr_path fr) 1)
        (when_step (\<not> (?declared key \<or> key \<in> set pm))
          (steps_of [mark_property key, ?member key, stop_if_aborted]))))
      (additional_ok v fr (set pm)) (\<lambda>A. additional_seen fr (set pm))"
    unfolding steps_of_simps
    by (rule asks_for_eachI [where P = "\<lambda>key A. new key \<longrightarrow> ?ok key A"
          and Q = "\<lambda>key A. if new key then ({key}, {}) else bot", OF asks_charge_thenI [OF su one]])
      (simp_all only: new_def additional_ok_def additional_seen_def additional_names_def a list_all_filter set_seen_filter
        if_given_simps seen_given_simps)
qed (simp_all add: additional_ok_def additional_seen_def)

lemma check_object: "asks w (check_object su V fr) (object_ok su v fr) (object_seen su v fr)"
  unfolding check_object_def Let_def
proof (rule asks_whenI)
  let ?n = "length (pjson_keys (fr_value fr))"
  let ?first = "[(\<lambda>A. required_ok fr, \<lambda>A. bot), (\<lambda>A. size_ok fr ''minProperties'' below_bound ?n, \<lambda>A. bot),
      (\<lambda>A. size_ok fr ''maxProperties'' above_bound ?n, \<lambda>A. bot), (properties_ok v fr, \<lambda>A. properties_seen fr)]"
  let ?last = "\<lambda>M. [(propertyNames_ok v fr, \<lambda>A. bot), (\<lambda>A. dependentRequired_ok fr, \<lambda>A. bot),
      (dependencies_ok v fr, dependencies_seen v fr), (additional_ok v fr M, \<lambda>A. additional_seen fr M),
      (dependentSchemas_ok v fr, dependentSchemas_seen v fr)]"
  let ?P = "\<lambda>M A. propertyNames_ok v fr A \<and> dependentRequired_ok fr \<and> dependencies_ok v fr A
      \<and> additional_ok v fr M A \<and> dependentSchemas_ok v fr A"
  let ?Q = "\<lambda>M A. sup (dependencies_seen v fr A) (sup (additional_seen fr M) (dependentSchemas_seen v fr A))"
  have first: "asks w (steps_of
       [check_required su fr,
        check_size su fr ObjectConstraint ''minProperties'' below_bound ?n ''object has '' '' properties, below '',
        check_size su fr ObjectConstraint ''maxProperties'' above_bound ?n ''object has '' '' properties, above '',
        check_properties su V fr])
      (\<lambda>A. required_ok fr \<and> sizes_ok fr ''minProperties'' ''maxProperties'' ?n \<and> properties_ok v fr A)
      (\<lambda>A. properties_seen fr)"
    by (rule asksI [OF asks_steps [where PQs = ?first]])
      (simp_all add: check_required check_size check_properties sizes_ok_def)
  have last: "asks w (steps_of
       [check_propertyNames su V fr, check_dependentRequired su fr, check_dependencies su V fr,
        check_additionalProperties su V fr pm, check_dependentSchemas su V fr])
      (?P (set pm)) (?Q (set pm))" for pm
    by (rule asksI [OF asks_steps [where PQs = "?last (set pm)"]])
      (simp_all add: check_propertyNames check_dependentRequired check_dependencies check_additionalProperties
        check_dependentSchemas sup_assoc)
  assume "isObject (fr_value fr)"
  then show "asks w
      (then_step
        (steps_of
          [check_required su fr,
           check_size su fr ObjectConstraint ''minProperties'' below_bound ?n ''object has '' '' properties, below '',
           check_size su fr ObjectConstraint ''maxProperties'' above_bound ?n ''object has '' '' properties, above '',
           check_properties su V fr])
        (\<lambda>st. try_bind (check_patternProperties su V fr st) (\<lambda>(pm, st1).
          steps_of
            [check_propertyNames su V fr, check_dependentRequired su fr, check_dependencies su V fr,
             check_additionalProperties su V fr pm, check_dependentSchemas su V fr] st1)))
      (object_ok su v fr) (object_seen su v fr)"
    by (intro asks_thenI [OF first obeys_bind [where P' = ?P and y' = "\<lambda>_ _. ()" and Q' = ?Q,
          OF check_patternProperties last]])
      (simp_all add: object_ok_def object_seen_def sizes_ok_def sup_assoc)
qed (simp_all add: object_ok_def object_seen_def)

subsection \<open>Conditions and combinations\<close>

lemma ready_evaluated: "ready w (st\<lparr>vs_evaluated := e\<rparr>) \<longleftrightarrow> ready w st"
  by (simp add: ready_def books_def)

lemma asks_merge: "asks w (\<lambda>st. Inr ((), merge_into a st)) (\<lambda>A. True) (\<lambda>A. reach_of a)"
  by (rule obeysI)
    (simp add: merge_into_def outcome_def demand_def standing_of_def ready_def books_def grows_evaluated)

lemma seen_given_none: "seen_given opt (\<lambda>x. bot) = bot"
  by (cases opt) simp_all

lemma check_branch:
  "asks w (with_some opt (check_here V fr)) (\<lambda>A. if_given opt (\<lambda>b. accepted (applies v fr A b)))
    (\<lambda>A. seen_given opt (\<lambda>b. seen_of (applies v fr A b)))"
  by (rule asks_with_someI) (auto intro: check_here [THEN asksI])

text \<open>The answer of a call on the side, followed by a step for each answer.\<close>

abbreviation answer :: "bool \<times> annotations \<times> 'c \<Rightarrow> seen option" where
  "answer \<equiv> (\<lambda>(valid, other, c). if valid then Some (reach_of other) else None)"

lemma bind_answer:
  assumes "obeys w answer m (\<lambda>A. True) t (\<lambda>A. bot)"
    and "\<And>other c. obeys w h (f (True, other, c)) (P (Some (reach_of other))) (y (Some (reach_of other)))
      (Q (Some (reach_of other)))"
    and "\<And>other c. obeys w h (f (False, other, c)) (P None) (y None) (Q None)"
  shows "obeys w h (\<lambda>st. try_bind (m st) (\<lambda>(x, st1). f x st1)) (\<lambda>A. P (t A) A) (\<lambda>A. y (t A) A) (\<lambda>A. Q (t A) A)"
proof -
  have "obeys w h (f x) (P (answer x)) (y (answer x)) (Q (answer x))" for x
    using assms(2,3) by (cases x; cases "fst x") auto
  from obeys_bind [where P' = P and y' = y and Q' = Q, OF assms(1) this] show ?thesis by simp
qed

lemma check_conditional:
  "asks w (check_conditional su V fr) (conditional_ok v fr) (conditional_seen v fr)"
  unfolding check_conditional_def
proof (rule asks_with_someI)
  fix c assume c: "applicatorKeyword fr ''if'' = Some c"
  let ?branch = "\<lambda>m. if m then applicatorKeyword fr ''then'' else applicatorKeyword fr ''else''"
  let ?P = "\<lambda>t A. if_given (?branch (accepted t)) (\<lambda>b. accepted (applies v fr A b))"
  let ?Q = "\<lambda>t A. sup (seen_of t) (seen_given (?branch (accepted t)) (\<lambda>b. seen_of (applies v fr A b)))"
  let ?f = "\<lambda>(matched, other, c). \<lambda>st1. try_bind (stop_if_aborted st1) (\<lambda>(_, st2).
        if matched then with_some (applicatorKeyword fr ''then'') (check_here V fr) (merge_into other st2)
        else with_some (applicatorKeyword fr ''else'') (check_here V fr) st2)"
  have yes: "asks w (?f (True, other, c)) (?P (Some (reach_of other))) (?Q (Some (reach_of other)))"
    for other and c :: "SchemaError list"
  proof -
    have "asks w (then_step (\<lambda>st. Inr ((), merge_into other st)) (with_some (applicatorKeyword fr ''then'') (check_here V fr)))
        (?P (Some (reach_of other))) (?Q (Some (reach_of other)))"
      by (rule asks_thenI [OF asks_merge check_branch]) simp_all
    from obeys_asserts [OF asks_stop_if_aborted this] show ?thesis by (simp add: then_step_def)
  qed
  have no: "asks w (?f (False, other, c)) (?P None) (?Q None)" for other and c :: "SchemaError list"
    using obeys_asserts [OF asks_stop_if_aborted check_branch [of "applicatorKeyword fr ''else''" fr]] by simp
  have "asks w (\<lambda>st. try_bind (speculate V Discard [] (fr_node fr) c (fr_path fr) st) (\<lambda>(r, st1). ?f r st1))
      (conditional_ok v fr) (conditional_seen v fr)"
    by (rule asksI [OF bind_answer [where P = ?P and y = "\<lambda>_ _. ()" and Q = ?Q, OF speculate yes no]])
      (simp_all add: conditional_ok_def conditional_seen_def branch_of_def c)
  then show "asks w (\<lambda>st. try_bind (speculate V Discard [] (fr_node fr) c (fr_path fr) st)
      (\<lambda>((matched, other, _), st1). try_bind (stop_if_aborted st1) (\<lambda>(_, st2).
        if matched then with_some (applicatorKeyword fr ''then'') (check_here V fr) (merge_into other st2)
        else with_some (applicatorKeyword fr ''else'') (check_here V fr) st2)))
      (conditional_ok v fr) (conditional_seen v fr)"
    by (simp add: case_prod_beta')
qed (simp_all add: conditional_ok_def conditional_seen_def)

lemma check_allOf: "asks w (check_allOf su V fr) (allOf_ok v fr) (allOf_seen v fr)"
  unfolding check_allOf_def
  by (intro asks_with_someI asks_for_eachI [OF asks_charge_thenI [OF su check_here]])
    (simp_all add: allOf_ok_def allOf_seen_def subschemas_def)

lemma branch_mode_private: "branch_mode su \<noteq> Public"
  by (simp add: branch_mode_def)

lemma try_branch:
  "obeys w answer (try_branch su V fr causes sub) (\<lambda>A. True) (\<lambda>A. applies v fr A sub) (\<lambda>A. bot)"
proof -
  have ret: "obeys w answer (\<lambda>st. try_bind (stop_if_aborted st) (\<lambda>(_, st1). Inr (x, st1))) (\<lambda>A. True) (\<lambda>A. answer x)
      (\<lambda>A. bot)" for x :: "bool \<times> annotations \<times> SchemaError list"
    by (rule obeys_asserts [OF asks_stop_if_aborted obeys_return])
  have yes: "obeys w answer (\<lambda>st. try_bind (stop_if_aborted st) (\<lambda>(_, st1). Inr ((True, other, c), st1))) (\<lambda>A. True)
      (\<lambda>A. Some (reach_of other)) (\<lambda>A. bot)" for other and c :: "SchemaError list"
    using ret [of "(True, other, c)"] by simp
  have no: "obeys w answer (\<lambda>st. try_bind (stop_if_aborted st) (\<lambda>(_, st1). Inr ((False, other, c), st1))) (\<lambda>A. True)
      (\<lambda>A. None) (\<lambda>A. bot)" for other and c :: "SchemaError list"
    using ret [of "(False, other, c)"] by simp
  have "obeys w answer (\<lambda>st. try_bind (speculate V (branch_mode su) causes (fr_node fr) sub (fr_path fr) st)
      (\<lambda>(x, st2). try_bind (stop_if_aborted st2) (\<lambda>(_, st3). Inr (x, st3))))
    (\<lambda>A. True) (\<lambda>A. applies v fr A sub) (\<lambda>A. bot)"
    by (rule bind_answer [where P = "\<lambda>_ _. True" and y = "\<lambda>t _. t" and Q = "\<lambda>_ _. bot"
          and f = "\<lambda>x st2. try_bind (stop_if_aborted st2) (\<lambda>(_, st3). Inr (x, st3))",
          OF speculate [OF branch_mode_private] yes no])
  from obeys_asserts [OF asks_charge [OF su] this] show ?thesis
    by (simp add: try_branch_def [abs_def])
qed

lemma any_branches:
  "obeys w fst (any_branches su V fr subs any causes) (\<lambda>A. True)
    (\<lambda>A. any \<or> list_ex (\<lambda>sub. accepted (applies v fr A sub)) subs)
    (\<lambda>A. all_seen (map (\<lambda>sub. seen_of (applies v fr A sub)) subs))"
proof (induction subs arbitrary: any causes)
  case Nil
  have "any_branches su V fr [] any causes = (\<lambda>st. Inr ((any, causes), st))" by (simp add: fun_eq_iff)
  then show ?case using obeys_return [of w fst "(any, causes)"] by simp
next
  case (Cons sub subs)
  let ?f = "\<lambda>(valid, other, causes').
      (\<lambda>st1. if valid then any_branches su V fr subs True causes' (merge_into other st1)
        else any_branches su V fr subs any causes' st1)"
  let ?y = "\<lambda>t A. any \<or> accepted t \<or> list_ex (\<lambda>sub. accepted (applies v fr A sub)) subs"
  let ?Q = "\<lambda>t A. sup (seen_of t) (all_seen (map (\<lambda>sub. seen_of (applies v fr A sub)) subs))"
  have e: "any_branches su V fr (sub # subs) any causes =
      (\<lambda>st. try_bind (try_branch su V fr causes sub st) (\<lambda>(r, st1). ?f r st1))"
    by (simp add: fun_eq_iff case_prod_beta')
  have yes: "obeys w fst (?f (True, other, c)) (\<lambda>A. True) (?y (Some (reach_of other))) (?Q (Some (reach_of other)))"
    for other c
  proof -
    have "obeys w fst (\<lambda>st. try_bind (Inr ((), merge_into other st))
          (\<lambda>(_, st1). any_branches su V fr subs True c st1)) (\<lambda>A. True)
        (?y (Some (reach_of other))) (?Q (Some (reach_of other)))"
      by (rule obeys_cong [OF obeys_bind [OF asks_merge Cons]]) simp_all
    then show ?thesis by simp
  qed
  have no: "obeys w fst (?f (False, other, c)) (\<lambda>A. True) (?y None) (?Q None)" for other c
    using Cons by simp
  show ?case
    unfolding e
    by (rule obeys_cong [OF bind_answer [where P = "\<lambda>_ _. True" and y = ?y and Q = ?Q, OF try_branch yes no]]) simp_all
qed

lemma none_matching: "matching v fr A subs = [] \<Longrightarrow> all_seen (map (\<lambda>sub. seen_of (applies v fr A sub)) subs) = bot"
proof (induction subs)
  case (Cons sub subs)
  then show ?case by (cases "applies v fr A sub") (auto simp: matching_def split: if_splits)
qed simp

lemma one_branches:
  "obeys w (\<lambda>(n, a, causes). (n, if n = 1 then reach_of a else bot)) (one_branches su V fr subs n a causes) (\<lambda>A. True)
    (\<lambda>A. let k = n + length (matching v fr A subs)
         in (k, if k = 1 then (if n = 1 then reach_of a else all_seen (map (\<lambda>sub. seen_of (applies v fr A sub)) subs))
                else bot))
    (\<lambda>A. bot)"
proof (induction subs arbitrary: n a causes)
  case Nil
  have "one_branches su V fr [] n a causes = (\<lambda>st. Inr ((n, a, causes), st))" by (simp add: fun_eq_iff)
  then show ?case
    using obeys_return [of w "\<lambda>(n, a, causes). (n, if n = 1 then reach_of a else bot)" "(n, a, causes)"]
    by (simp add: matching_def Let_def cong: if_cong)
next
  case (Cons sub subs)
  let ?g = "\<lambda>(n, a, causes). (n, if n = (1 :: nat) then reach_of a else bot)"
  let ?y = "\<lambda>n r A. let k = n + length (matching v fr A subs)
         in (k, if k = 1 then (if n = 1 then r else all_seen (map (\<lambda>sub. seen_of (applies v fr A sub)) subs)) else bot)"
  let ?f = "\<lambda>(valid, other, causes').
      if valid then one_branches su V fr subs (Suc n) other causes' else one_branches su V fr subs n a causes'"
  let ?z = "\<lambda>t A. if accepted t then ?y (Suc n) (seen_of t) A else ?y n (reach_of a) A"
  have e: "one_branches su V fr (sub # subs) n a causes =
      (\<lambda>st. try_bind (try_branch su V fr causes sub st) (\<lambda>(r, st1). ?f r st1))"
    by (auto simp: fun_eq_iff case_prod_beta' intro!: arg_cong [of _ _ "try_bind _"])
  have yes: "obeys w ?g (?f (True, other, c)) (\<lambda>A. True) (?z (Some (reach_of other))) (\<lambda>A. bot)" for other c
    using Cons [of "Suc n" other c] by (simp only: prod.case if_True accepted_simps seen_of_simps)
  have no: "obeys w ?g (?f (False, other, c)) (\<lambda>A. True) (?z None) (\<lambda>A. bot)" for other :: annotations and c
    using Cons [of n a c] by (simp only: prod.case if_False accepted_simps)
  have z: "?z (applies v fr A sub) A =
        (let k = n + length (matching v fr A (sub # subs))
         in (k, if k = 1 then (if n = 1 then reach_of a
                  else all_seen (map (\<lambda>sub. seen_of (applies v fr A sub)) (sub # subs))) else bot))" for A
    using none_matching [of fr A subs] by (cases "applies v fr A sub") (auto simp: matching_def Let_def)
  show ?case
    unfolding e
    by (rule obeys_cong [OF bind_answer [where P = "\<lambda>_ _. True" and y = ?z and Q = "\<lambda>_ _. bot", OF try_branch yes no]])
      (simp_all only: z)
qed

text \<open>The diagnostics of branches that are given back.\<close>

lemma reset_outcome:
  assumes "ready w st" "ready w st1" "grows st st1"
  defines "st2 \<equiv> st1\<lparr>vs_diagnosticsUsed := vs_diagnosticsUsed st\<rparr>"
  shows "ready w st2" "grows st1 st2" "vs_failures st2 = vs_failures st1" "standing_of st2 = standing_of st1"
    "vs_aborted st2 = vs_aborted st1"
proof -
  have "length (vs_publicErrors st) \<le> length (vs_publicErrors st1)"
    using grows_prefix [OF assms(3)] by (rule prefix_length_le)
  moreover have "vs_publicErrorStart st1 = vs_publicErrorStart st" "\<not> vs_aborted st1 \<Longrightarrow> \<not> vs_aborted st"
    using assms(3) by (auto simp: grows_def)
  ultimately show "ready w st2"
    using assms(1,2) by (auto simp: st2_def ready_def books_def split: if_splits)
qed (auto simp: st2_def grows_def adds_def standing_of_def)

lemma obeys_bind_at:
  assumes "obeys w g m P y Q"
    and "\<And>st x st1. ready w st \<Longrightarrow> ready w st1 \<Longrightarrow> grows st st1 \<Longrightarrow>
      outcome w h st1 (f st x st1) (demand (P' (g x)) (y' (g x)) (Q' (g x)) (standing_of st1))"
  shows "obeys w h (\<lambda>st. try_bind (m st) (\<lambda>(x, st1). f st x st1)) (\<lambda>A. P A \<and> P' (y A) A) (\<lambda>A. y' (y A) A)
    (\<lambda>A. sup (Q A) (Q' (y A) A))"
proof (rule obeysI)
  fix st assume st: "ready w st"
  let ?t = "demand (\<lambda>A. P A \<and> P' (y A) A) (\<lambda>A. y' (y A) A) (\<lambda>A. sup (Q A) (Q' (y A) A)) (standing_of st)"
  from obeysD [OF assms(1) st]
  show "outcome w h st (try_bind (m st) (\<lambda>(x, st1). f st x st1)) ?t"
  proof (cases rule: outcome_cases)
    case (1 x st1)
    have "outcome w h st (f st x st1) ?t"
      by (rule outcome_behind [OF 1(3) assms(2) [OF st 1(2,3)]])
        (use 1(4) in \<open>auto simp: demand_def standing_of_def sup_assoc [symmetric] split: if_splits prod.splits\<close>)
    with 1(1) show ?thesis by simp
  next
    case (2 st')
    then show ?thesis
      by (auto simp: outcome_def demand_def standing_of_def split: if_splits prod.splits)
  next
    case (3 st')
    then show ?thesis
      by (auto simp: outcome_def demand_def standing_of_def split: if_splits prod.splits)
  qed
qed

lemma check_anyOf: "asks w (check_anyOf su V fr) (anyOf_ok v fr) (anyOf_seen v fr)"
  unfolding check_anyOf_def
proof (rule asks_with_someI)
  fix s assume s: "applicatorKeyword fr ''anyOf'' = Some s"
  let ?f = "\<lambda>st (anyMatch, causes) st1.
      if \<not> anyMatch then
        push_back su (combinator_error su fr ''anyOf'' ''value does not match any schema in anyOf''
          (if op_collectNestedCauses (su_options su) then causes else [])) st1
      else Inr ((), st1\<lparr>vs_diagnosticsUsed := vs_diagnosticsUsed st\<rparr>)"
  have f: "outcome w (\<lambda>u. ()) st1 (?f st x st1) (demand (\<lambda>A. fst x) (\<lambda>A. ()) (\<lambda>A. bot) (standing_of st1))"
    if "ready w st" "ready w st1" "grows st st1" for st st1 and x :: "bool \<times> SchemaError list"
    using reset_outcome [OF that] push_back_outcome [OF that(2) su]
    by (cases x) (auto simp: outcome_def [of w _ st1 "Inr _"] demand_def standing_of_def split: prod.split)
  have "asks w (\<lambda>st. try_bind (any_branches su V fr (node_elements s) False [] st) (\<lambda>(x, st1). ?f st x st1))
      (\<lambda>A. list_ex (\<lambda>sub. accepted (applies v fr A sub)) (node_elements s))
      (\<lambda>A. all_seen (map (\<lambda>sub. seen_of (applies v fr A sub)) (node_elements s)))"
    by (rule asksI [OF obeys_bind_at [where P' = "\<lambda>any A. any" and y' = "\<lambda>_ _. ()" and Q' = "\<lambda>_ _. bot",
          OF any_branches f]]) simp_all
  then show "asks w (when_step (isArray (pn_value s)) (\<lambda>st.
      try_bind (any_branches su V fr (node_elements s) False [] st) (\<lambda>((anyMatch, causes), st1).
        if \<not> anyMatch then
          push_back su (combinator_error su fr ''anyOf'' ''value does not match any schema in anyOf''
            (if op_collectNestedCauses (su_options su) then causes else [])) st1
        else Inr ((), st1\<lparr>vs_diagnosticsUsed := vs_diagnosticsUsed st\<rparr>)))) (anyOf_ok v fr) (anyOf_seen v fr)"
    by (intro asks_whenI) (auto simp: anyOf_ok_def anyOf_seen_def branches_def s case_prod_beta' elim: asksI)
qed (simp_all add: anyOf_ok_def anyOf_seen_def branches_def)

lemma check_oneOf: "asks w (check_oneOf su V fr) (oneOf_ok v fr) (oneOf_seen v fr)"
  unfolding check_oneOf_def
proof (rule asks_with_someI)
  fix s assume s: "applicatorKeyword fr ''oneOf'' = Some s"
  let ?f = "\<lambda>st (matches, matching, causes) st1.
      let reset = st1\<lparr>vs_diagnosticsUsed := vs_diagnosticsUsed st\<rparr>
      in if matches \<noteq> 1 then
           (if op_collectNestedCauses (su_options su) \<and> matches = 0
            then push_back su (combinator_error su fr ''oneOf'' (oneOf_message matches) causes) st1
            else push_back su (combinator_error su fr ''oneOf'' (oneOf_message matches) []) reset)
         else Inr ((), merge_into matching reset)"
  let ?g = "\<lambda>(n, a, causes). (n, if n = (1 :: nat) then reach_of a else bot)"
  let ?P = "\<lambda>k :: nat \<times> seen. fst k = 1"
  have f: "outcome w (\<lambda>u. ()) st1 (?f st x st1)
      (demand (\<lambda>A. ?P (?g x)) (\<lambda>A. ()) (\<lambda>A. snd (?g x)) (standing_of st1))"
    if "ready w st" "ready w st1" "grows st st1" for st st1 and x :: "nat \<times> annotations \<times> SchemaError list"
  proof -
    obtain n a c where x: "x = (n, a, c)" by (cases x)
    let ?reset = "st1\<lparr>vs_diagnosticsUsed := vs_diagnosticsUsed st\<rparr>"
    note r = reset_outcome [OF that]
    show ?thesis
    proof (cases "n = 1")
      case True
      have "ready w (merge_into a ?reset)" using r(1) unfolding merge_into_def ready_evaluated .
      moreover have "grows st1 (merge_into a ?reset)" using r(2) by (simp add: merge_into_def grows_evaluated)
      moreover have "standing_of (merge_into a ?reset) = (vs_activeRefs st1, sup (reached st1) (reach_of a))"
        by (simp add: merge_into_def standing_of_def)
      moreover have "vs_failures (merge_into a ?reset) = vs_failures st1" by (simp add: merge_into_def)
      ultimately show ?thesis by (simp add: x True outcome_def demand_def standing_of_def)
    next
      case False
      have "outcome w (\<lambda>u. ()) st1 (push_back su e ?reset) None" for e
        by (rule outcome_behind [OF r(2) push_back_outcome [OF r(1) su]]) (use r(3) in simp_all)
      then show ?thesis
        using push_back_outcome [OF that(2) su] False by (simp add: x demand_def standing_of_def Let_def)
    qed
  qed
  have k: "n = 1 \<Longrightarrow> Q = (if n = 1 then Q else bot)" for n :: nat and Q :: seen by simp
  have "asks w (\<lambda>st. try_bind (one_branches su V fr (node_elements s) 0 no_annotations [] st) (\<lambda>(x, st1). ?f st x st1))
      (\<lambda>A. length (matching v fr A (node_elements s)) = 1)
      (\<lambda>A. all_seen (map (\<lambda>sub. seen_of (applies v fr A sub)) (node_elements s)))"
    by (rule asksI [OF obeys_bind_at [where P' = "\<lambda>k A. ?P k" and y' = "\<lambda>_ _. ()" and Q' = "\<lambda>k A. snd k",
          OF one_branches f]]) (simp_all add: Let_def)
  then show "asks w (when_step (isArray (pn_value s)) (\<lambda>st.
      try_bind (one_branches su V fr (node_elements s) 0 no_annotations [] st) (\<lambda>((matches, matching, causes), st1).
        let reset = st1\<lparr>vs_diagnosticsUsed := vs_diagnosticsUsed st\<rparr>
        in if matches \<noteq> 1 then
             (if op_collectNestedCauses (su_options su) \<and> matches = 0
              then push_back su (combinator_error su fr ''oneOf'' (oneOf_message matches) causes) st1
              else push_back su (combinator_error su fr ''oneOf'' (oneOf_message matches) []) reset)
           else Inr ((), merge_into matching reset)))) (oneOf_ok v fr) (oneOf_seen v fr)"
    by (intro asks_whenI) (auto simp: oneOf_ok_def oneOf_seen_def branches_def s case_prod_beta' elim: asksI)
qed (simp_all add: oneOf_ok_def oneOf_seen_def branches_def)

lemma check_not: "asks w (check_not su V fr) (not_ok v fr) (\<lambda>A. bot)"
  unfolding check_not_def
proof (rule asks_with_someI)
  fix n assume n: "applicatorKeyword fr ''not'' = Some n"
  let ?f = "\<lambda>(valid, other, c). then_step
      (when_step valid
        (fail_at su fr CombinatorMismatch ''not'' (''value must not match the '' @ quoted ''not'' @ '' schema'')))
      stop_if_aborted"
  have yes: "asks w (?f (True, other, c)) (\<lambda>A. \<not> accepted (Some (reach_of other))) (\<lambda>A. bot)"
    for other and c :: "SchemaError list"
    by (auto intro!: asks_then_stopI asks_whenI asks_fail_atI su)
  have no: "asks w (?f (False, other, c)) (\<lambda>A. \<not> accepted None) (\<lambda>A. bot)"
    for other :: annotations and c :: "SchemaError list"
    by (auto intro!: asks_then_stopI asks_whenI)
  have "asks w (\<lambda>st. try_bind (speculate V Discard [] (fr_node fr) n (fr_path fr) st) (\<lambda>(x, st1). ?f x st1))
      (\<lambda>A. \<not> accepted (applies v fr A n)) (\<lambda>A. bot)"
    by (rule bind_answer [where P = "\<lambda>t A. \<not> accepted t" and y = "\<lambda>_ _. ()" and Q = "\<lambda>_ _. bot",
          OF speculate yes no]) simp
  then show "asks w (when_step (isBool (pn_value n) \<or> isObject (pn_value n)) (\<lambda>st.
      try_bind (speculate V Discard [] (fr_node fr) n (fr_path fr) st) (\<lambda>((valid, _, _), st1).
        then_step
          (when_step valid
            (fail_at su fr CombinatorMismatch ''not'' (''value must not match the '' @ quoted ''not'' @ '' schema'')))
          stop_if_aborted st1))) (not_ok v fr) (\<lambda>A. bot)"
    by (intro asks_whenI) (auto simp: not_ok_def n case_prod_beta' elim: asksI)
qed (simp add: not_ok_def)

subsection \<open>What no other keyword evaluated\<close>

text \<open>A loop over things that may be evaluated already, each of which it marks.\<close>

lemma computes_unless_seen:
  assumes "\<And>x. x \<in> set xs \<Longrightarrow> asks w (f x) (P x) (\<lambda>A. mark x)"
    and here: "\<And>x E. here E x = (key x \<in> old E)"
    and old: "\<And>x E. old (sup E (mark x)) = insert (key x) (old E)"
    and mark: "\<And>x E. key x \<in> old E \<Longrightarrow> sup E (mark x) = E"
    and same: "\<And>x y. x \<in> set xs \<Longrightarrow> y \<in> set xs \<Longrightarrow> key x = key y \<Longrightarrow> P x = P y"
  shows "computes w (\<lambda>_. ()) (for_each xs (\<lambda>x st. if here (reached st) x then Inr ((), st) else f x st))
    (\<lambda>(A, E). if list_all (\<lambda>x. key x \<notin> old E \<longrightarrow> P x A) xs then Some ((), (A, sup E (all_seen (map mark xs)))) else None)"
  using assms(1) same
proof (induction xs)
  case Nil
  show ?case by (rule computesI) (simp add: done_step_def outcome_def standing_of_def)
next
  case (Cons x xs)
  let ?step = "\<lambda>x st. if here (reached st) x then Inr ((), st) else f x st"
  let ?one = "\<lambda>(A, E). if key x \<notin> old E \<longrightarrow> P x A then Some ((), (A, sup E (mark x))) else None"
  let ?more = "\<lambda>(A, E). if list_all (\<lambda>x. key x \<notin> old E \<longrightarrow> P x A) xs
      then Some ((), (A, sup E (all_seen (map mark xs)))) else None"
  have one: "computes w (\<lambda>_. ()) (?step x) ?one"
  proof (rule computesI)
    fix st assume st: "ready w st"
    show "outcome w (\<lambda>_. ()) st (?step x st) (?one (standing_of st))"
    proof (cases "key x \<in> old (reached st)")
      case True
      with st show ?thesis by (simp add: here outcome_def standing_of_def mark)
    next
      case False
      with obeysD [OF Cons.prems(1) [of x] st] show ?thesis
        by (simp add: here standing_of_def demand_def)
    qed
  qed
  have more: "computes w (\<lambda>_. ()) (for_each xs ?step) ?more"
    by (rule Cons.IH) (rule Cons.prems; simp)+
  let ?all = "\<lambda>(A, E). if list_all (\<lambda>x. key x \<notin> old E \<longrightarrow> P x A) (x # xs)
      then Some ((), (A, sup E (all_seen (map mark (x # xs))))) else None"
  have "Option.bind (?one (A, E)) (\<lambda>(y, a1). ?more a1) = ?all (A, E)" for A E
  proof (cases "key x \<notin> old E \<longrightarrow> P x A")
    case True
    have "(key y \<notin> insert (key x) (old E) \<longrightarrow> P y A) = (key y \<notin> old E \<longrightarrow> P y A)" if "y \<in> set xs" for y
      using True Cons.prems(2) [of x y] that by (cases "key y = key x") auto
    then have "list_all (\<lambda>y. key y \<notin> insert (key x) (old E) \<longrightarrow> P y A) xs = list_all (\<lambda>y. key y \<notin> old E \<longrightarrow> P y A) xs"
      unfolding list_all_iff by blast
    with True show ?thesis by (simp add: old sup_assoc del: insert_iff)
  qed simp
  then have all: "Option.bind (?one a) (\<lambda>(y, a1). ?more a1) = ?all a" for a
    by (cases a) simp
  have "computes w (\<lambda>_. ()) (for_each (x # xs) ?step) (\<lambda>a. Option.bind (?one a) (\<lambda>(y, a1). ?more a1))"
    unfolding for_each.simps then_step_def [abs_def]
    by (rule computes_bind [where t = "\<lambda>_. ?more" and f = "\<lambda>_. for_each xs ?step", OF one more])
  then show ?case
    by (rule computes_cong) (rule all)
qed

abbreviation tests :: "vstep \<Rightarrow> (standing \<Rightarrow> bool) \<Rightarrow> seen \<Rightarrow> bool" where
  "tests m ok seen \<equiv>
     computes w (\<lambda>_. ()) m (\<lambda>(A, E). if ok (A, E) then Some ((), (A, sup E seen)) else None)"

lemma tests_done: "tests done_step (\<lambda>s. True) bot"
  by (rule computesI) (simp add: done_step_def outcome_def standing_of_def)

lemma rest_steps:
  assumes "asks w marks (\<lambda>A. True) (\<lambda>A. mark)"
  shows "asks w
    (steps_of
      [charge su (fr_path fr) 1,
       if isBool (pn_value u) \<and> \<not> boolOf (pn_value u) then report_error su (fr_schema fr) code path keyword message
       else with_some member (\<lambda>m. descend V m u path),
       marks,
       stop_if_aborted]) (\<lambda>A. rest_ok v A u member) (\<lambda>A. mark)"
proof -
  have m: "asks w (if isBool (pn_value u) \<and> \<not> boolOf (pn_value u)
        then report_error su (fr_schema fr) code path keyword message
        else with_some member (\<lambda>m. descend V m u path)) (\<lambda>A. rest_ok v A u member) (\<lambda>A. bot)"
    by (auto simp: rest_ok_def intro!: asks_reportI su asks_with_someI descend [THEN asksI])
  have k: "asks w (then_step marks (then_step stop_if_aborted done_step)) (\<lambda>A. True) (\<lambda>A. mark)"
    by (rule asks_thenI [OF assms asks_then_doneI [OF asks_stop_if_aborted]]) simp_all
  show ?thesis
    unfolding steps_of_simps by (intro asks_charge_thenI su asks_thenI [OF m k]) simp_all
qed

lemma check_unevaluatedProperties:
  "tests (check_unevaluatedProperties su V fr) (unevaluatedProperties_ok v fr) (unevaluatedProperties_seen fr)"
proof (cases "isObject (fr_value fr) \<and> unevaluatedKeyword fr ''unevaluatedProperties'' \<noteq> None")
  case True
  then obtain u where u: "unevaluatedKeyword fr ''unevaluatedProperties'' = Some u" and o: "isObject (fr_value fr)"
    by auto
  let ?f = "\<lambda>key. steps_of
      [charge su (fr_path fr) 1,
       if isBool (pn_value u) \<and> \<not> boolOf (pn_value u) then
         report_error su (fr_schema fr) ObjectConstraint (pointerAppend (fr_path fr) key) ''unevaluatedProperties''
           ''unevaluated property is not allowed''
       else with_some (node_find (fr_node fr) key) (\<lambda>member. descend V member u (pointerAppend (fr_path fr) key)),
       mark_property key,
       stop_if_aborted]"
  have e: "check_unevaluatedProperties su V fr =
      for_each (pjson_keys (fr_value fr)) (\<lambda>key st. if key \<in> fst (reached st) then Inr ((), st) else ?f key st)"
    unfolding check_unevaluatedProperties_def when_step_def with_some_def Let_def
    by (simp add: u o reach_of_def)
  have "computes w (\<lambda>_. ()) (check_unevaluatedProperties su V fr)
      (\<lambda>(A, E). if list_all (\<lambda>key. key \<notin> fst E \<longrightarrow> rest_ok v A u (node_find (fr_node fr) key)) (pjson_keys (fr_value fr))
        then Some ((), (A, sup E (all_seen (map (\<lambda>key. ({key}, {})) (pjson_keys (fr_value fr)))))) else None)"
    unfolding e
    by (rule computes_unless_seen [where key = "\<lambda>x. x" and old = fst, OF rest_steps [OF asks_mark_property]])
      (auto simp: sup_prod_def)
  then show ?thesis
    by (rule computes_cong)
      (simp add: unevaluatedProperties_ok_def unevaluatedProperties_seen_def u o split_beta
        all_seen_properties [where f = "\<lambda>x. x", simplified])
next
  case False
  then have "check_unevaluatedProperties su V fr = done_step"
    by (auto simp: check_unevaluatedProperties_def when_step_def with_some_def)
  with tests_done False show ?thesis
    by (auto simp: unevaluatedProperties_ok_def unevaluatedProperties_seen_def if_given_def seen_given_def
        elim!: computes_cong split: option.splits)
qed

lemma check_unevaluatedItems:
  "tests (check_unevaluatedItems su V fr) (unevaluatedItems_ok v fr) (unevaluatedItems_seen fr)"
proof (cases "isArray (fr_value fr) \<and> unevaluatedKeyword fr ''unevaluatedItems'' \<noteq> None")
  case True
  then obtain u where u: "unevaluatedKeyword fr ''unevaluatedItems'' = Some u" and a: "isArray (fr_value fr)"
    by auto
  let ?f = "\<lambda>x. steps_of
      [charge su (fr_path fr) 1,
       if isBool (pn_value u) \<and> \<not> boolOf (pn_value u) then
         report_error su (fr_schema fr) ArrayConstraint (pointerAppend (fr_path fr) (decimal (fst x))) ''unevaluatedItems''
           ''unevaluated item is not allowed''
       else descend V (snd x) u (pointerAppend (fr_path fr) (decimal (fst x))),
       mark_item (fst x),
       stop_if_aborted]"
  let ?xs = "enumerate 0 (node_elements (fr_node fr))"
  have e: "check_unevaluatedItems su V fr =
      for_each ?xs (\<lambda>x st. if fst x \<in> snd (reached st) then Inr ((), st) else ?f x st)"
    unfolding check_unevaluatedItems_def when_step_def Let_def
    by (simp add: u a reach_of_def with_some_def case_prod_beta')
  have "computes w (\<lambda>_. ()) (check_unevaluatedItems su V fr)
      (\<lambda>(A, E). if list_all (\<lambda>x. fst x \<notin> snd E \<longrightarrow> (case x of (i, item) \<Rightarrow> rest_ok v A u (Some item))) ?xs
        then Some ((), (A, sup E (all_seen (map (\<lambda>x. ({}, {fst x})) ?xs)))) else None)"
    unfolding e
  proof (rule computes_unless_seen [where key = fst and old = snd and P = "\<lambda>x A. case x of (i, item) \<Rightarrow> rest_ok v A u (Some item)"])
    show "asks w (?f x) (\<lambda>A. case x of (i, item) \<Rightarrow> rest_ok v A u (Some item)) (\<lambda>A. ({}, {fst x}))" for x
      using rest_steps [OF asks_mark_item [of w "fst x"], of fr u ArrayConstraint
          "pointerAppend (fr_path fr) (decimal (fst x))" "''unevaluatedItems''" "''unevaluated item is not allowed''" "Some (snd x)"]
      by (cases x) (simp only: prod.case fst_conv snd_conv with_some_def option.case)
    show "(\<lambda>A. case x of (i, item) \<Rightarrow> rest_ok v A u (Some item)) = (\<lambda>A. case y of (i, item) \<Rightarrow> rest_ok v A u (Some item))"
      if "x \<in> set ?xs" "y \<in> set ?xs" "fst x = fst y" for x y
    proof -
      have "snd x = snd y"
        using that(1,2) [unfolded in_set_enumerate_eq] that(3) by simp
      from prod_eqI [OF that(3) this] show ?thesis by simp
    qed
  qed (auto simp: sup_prod_def)
  then show ?thesis
    by (rule computes_cong)
      (simp add: unevaluatedItems_ok_def unevaluatedItems_seen_def u a case_prod_beta' all_seen_items)
next
  case False
  then have "check_unevaluatedItems su V fr = done_step"
    by (auto simp: check_unevaluatedItems_def when_step_def with_some_def)
  with tests_done False show ?thesis
    by (auto simp: unevaluatedItems_ok_def unevaluatedItems_seen_def if_given_def seen_given_def
        elim!: computes_cong split: option.splits)
qed

end

end
