(* ===== verification/Schema_Correct.thy ===== *)
theory Schema_Correct
  imports Schema_Blocks
begin

section \<open>The validator means its schema\<close>

subsection \<open>References\<close>

text \<open>
  A reference is resolved in the compiled index, as it was when the schema was compiled. The pair of
  node and schema it leads to is active from then on; a pair that is active already is refused.
\<close>

definition active_pair :: "pnode \<Rightarrow> SchemaTarget \<Rightarrow> node_id \<times> node_id" where
  "active_pair node target = (pn_id node, pn_id (tg_schema target))"

definition take_pair :: "pnode \<Rightarrow> SchemaTarget \<Rightarrow> active \<Rightarrow> active option" where
  "take_pair node target A =
     (if active_pair node target \<in> set A then None else Some (A @ [active_pair node target]))"

definition referenced :: "meaning \<Rightarrow> frame \<Rightarrow> SchemaTarget \<Rightarrow> standing \<Rightarrow> standing option" where
  "referenced v fr target = (\<lambda>(A, E).
     case take_pair (fr_node fr) target A of
       None \<Rightarrow> None
     | Some A' \<Rightarrow>
         map_option (\<lambda>E'. (A', sup E E'))
           (v A' (fr_node fr) (tg_schema target) (Some (tg_resourceRoot target)) (tg_baseUri target)))"

definition reference_text :: "frame \<Rightarrow> string \<Rightarrow> string option" where
  "reference_text fr keyword =
     (case node_find (fr_schema fr) keyword of
        None \<Rightarrow> None
      | Some ref \<Rightarrow> if isString (pn_value ref) then Some (strOf (pn_value ref)) else None)"

definition ref_meaning :: "vsetup \<Rightarrow> meaning \<Rightarrow> frame \<Rightarrow> standing \<Rightarrow> standing option" where
  "ref_meaning su v fr s =
     (case (if dp_refSiblings (cu_policy (fr_at fr)) then reference_text fr ''$ref'' else None) of
        None \<Rightarrow> Some s
      | Some reference \<Rightarrow>
          Option.bind (resolveCompiledTarget reference (cu_baseUri (fr_at fr)) (su_compiled su))
            (\<lambda>target. referenced v fr target s))"

definition dynamicRef_meaning ::
    "vsetup \<Rightarrow> SchemaTarget list \<Rightarrow> meaning \<Rightarrow> frame \<Rightarrow> standing \<Rightarrow> standing option" where
  "dynamicRef_meaning su scope v fr s =
     (case reference_text fr ''$dynamicRef'' of
        None \<Rightarrow> Some s
      | Some reference \<Rightarrow>
          Option.bind (resolveCompiledTarget reference (cu_baseUri (fr_at fr)) (su_compiled su))
            (\<lambda>target.
              let fragment = snd (splitReference (resolveUri (cu_baseUri (fr_at fr)) reference))
              in referenced v fr (dynamic_target (su_compiled su) fragment target scope) s))"

text \<open>The schema a chain of replacing references ends at; no schema stands for \<open>true\<close>.\<close>

fun follow :: "nat \<Rightarrow> vsetup \<Rightarrow> pnode \<Rightarrow> position \<Rightarrow> active \<Rightarrow> (position option \<times> active) option" where
  "follow 0 su node cur A = None"
| "follow (Suc n) su node cur A =
     (let schema = cu_schema cur
      in if isBool (pn_value schema) then (if boolOf (pn_value schema) then Some (None, A) else None)
         else if \<not> isObject (pn_value schema) then Some (None, A)
         else
           case node_find schema ''$ref'' of
             None \<Rightarrow> Some (Some cur, A)
           | Some ref \<Rightarrow>
               if \<not> isString (pn_value ref) \<or> dp_refSiblings (cu_policy cur) then Some (Some cur, A)
               else
                 Option.bind (resolveCompiledTarget (strOf (pn_value ref)) (cu_baseUri cur) (su_compiled su))
                   (\<lambda>target. Option.bind (take_pair node target A)
                     (follow n su node
                       \<lparr>cu_schema = tg_schema target, cu_resourceRoot = tg_resourceRoot target,
                        cu_baseUri = tg_baseUri target, cu_policy = tg_policy target\<rparr>)))"

subsection \<open>Schemas\<close>

text \<open>All keywords of a schema: the references, the rest, and what is left unevaluated.\<close>

definition schema_meaning ::
    "vsetup \<Rightarrow> SchemaTarget list \<Rightarrow> meaning \<Rightarrow> frame \<Rightarrow> standing \<Rightarrow> standing option" where
  "schema_meaning su scope v fr s =
     Option.bind (ref_meaning su v fr s) (\<lambda>s1.
     Option.bind (dynamicRef_meaning su scope v fr s1) (\<lambda>(A, E).
       let E1 = sup E (keywords_seen su v fr A);
           E2 = sup E1 (unevaluatedProperties_seen fr)
       in if keywords_ok su v fr A \<and> unevaluatedProperties_ok v fr (A, E1) \<and> unevaluatedItems_ok v fr (A, E2)
          then Some (A, sup E2 (unevaluatedItems_seen fr)) else None))"

text \<open>
  The meaning of a schema at a node, with so many levels of nested schemas. A level more than the
  depth limit is enough for every run.
\<close>

fun meaning_of :: "nat \<Rightarrow> vsetup \<Rightarrow> SchemaTarget list \<Rightarrow> meaning" where
  "meaning_of 0 su scope A node schema root base = None"
| "meaning_of (Suc n) su scope A node schema root base =
     (case follow n su node (initial_position su schema root base) A of
        None \<Rightarrow> None
      | Some (None, A1) \<Rightarrow> Some bot
      | Some (Some cur, A1) \<Rightarrow>
          let here = settle su cur;
              inner = pushResource here scope
          in map_option snd
               (schema_meaning su inner (meaning_of n su inner) \<lparr>fr_node = node, fr_path = [], fr_at = here\<rparr> (A1, bot)))"

subsection \<open>Steps that follow references\<close>

text \<open>A step whose effect may depend on all that is evaluated and active.\<close>

abbreviation follows :: "site \<Rightarrow> vstep \<Rightarrow> (standing \<Rightarrow> standing option) \<Rightarrow> bool" where
  "follows w m s \<equiv> computes w (\<lambda>_. ()) m (\<lambda>a. map_option (Pair ()) (s a))"

lemma follows_then:
  assumes "follows w a s" "follows w b t"
  shows "follows w (then_step a b) (\<lambda>x. Option.bind (s x) t)"
proof -
  have "computes w (\<lambda>_. ()) (then_step a b)
      (\<lambda>x. Option.bind (map_option (Pair ()) (s x)) (\<lambda>(y, a1). map_option (Pair ()) (t a1)))"
    unfolding then_step_def [abs_def]
    by (rule computes_bind [where t = "\<lambda>_ x. map_option (Pair ()) (t x)" and f = "\<lambda>_. b", OF assms])
  then show ?thesis
  proof (rule computes_cong)
    show "Option.bind (map_option (Pair ()) (s x)) (\<lambda>(y, a1). map_option (Pair ()) (t a1)) =
        map_option (Pair ()) (Option.bind (s x) t)" for x
      by (cases "s x") simp_all
  qed
qed

lemma follows_cong: "follows w m s \<Longrightarrow> (\<And>a. s a = t a) \<Longrightarrow> follows w m t"
  by (simp add: computes_def)

lemma follows_done: "follows w done_step Some"
  by (rule computesI) (simp add: done_step_def outcome_def standing_of_def)

lemma asks_follows: "asks w m P Q \<Longrightarrow> follows w m (\<lambda>(A, E). if P A then Some (A, sup E (Q A)) else None)"
  unfolding obeys_def by (erule computes_cong) (simp add: demand_def split_beta)

lemma follows_asks_steps:
  assumes "list_all2 (\<lambda>s (P, Q). asks w s P Q) ss PQs" "follows w (steps_of ts) t"
  shows "follows w (steps_of (ss @ ts))
    (\<lambda>(A, E). if list_all (\<lambda>(P, Q). P A) PQs then t (A, sup E (all_seen (map (\<lambda>(P, Q). Q A) PQs))) else None)"
  using assms(1)
proof (induction ss PQs rule: list_all2_induct)
  case Nil
  show ?case using assms(2) by simp
next
  case (Cons s ss PQ PQs)
  obtain P Q where PQ: "PQ = (P, Q)" by (cases PQ)
  have "asks w s P Q" using Cons.hyps PQ by simp
  from follows_then [OF asks_follows [OF this] Cons.IH] show ?case
    unfolding append_Cons steps_of_simps
    by (rule follows_cong) (auto simp: PQ sup_assoc)
qed

context validator_site
begin

lemma refuse_return:
  assumes "ready w st"
  shows "outcome w g st (try_bind (push_back su e st) (\<lambda>(_, st1). Inl (Returned_false, st1))) None"
  using push_back_outcome [OF assms su, of e]
  by (rule outcome_cases) (auto simp: outcome_def ready_def split: if_splits)

lemma take_reference: "asserts w (take_reference su path message) True"
proof (rule obeysI)
  fix st assume st: "ready w st"
  then show "outcome w (\<lambda>_. ()) st (take_reference su path message st)
      (demand (\<lambda>A. True) (\<lambda>A. ()) (\<lambda>A. bot) (standing_of st))"
  proof (cases "vs_refResolutions st \<ge> validationRefLimit (su_options su)")
    case True
    then show ?thesis using outcome_budget [OF st su] by (simp add: take_reference_def fail_budget_def)
  next
    case False
    then show ?thesis
      using st su by (auto simp: take_reference_def outcome_def ready_def books_def grows_def adds_def demand_def
          standing_of_def)
  qed
qed

lemma resolveSchemaReference:
  "obeys w Some (resolveSchemaReference su reference base path schema keyword)
    (\<lambda>A. resolveCompiledTarget reference base (su_compiled su) \<noteq> None)
    (\<lambda>A. resolveCompiledTarget reference base (su_compiled su)) (\<lambda>A. bot)"
proof (rule obeysI)
  fix st assume st: "ready w st"
  obtain document0 fragment where s: "splitReference (resolveUri base reference) = (document0, fragment)"
    by fastforce
  let ?document = "if document0 = [] then stripFragment base else document0"
  have "percentDecodeFragment [] = Some []" by simp
  then have r: "resolveCompiledTarget reference base (su_compiled su) =
      (case percentDecodeFragment fragment of
         None \<Rightarrow> None
       | Some decoded \<Rightarrow>
           (case resolve_target (su_compiled su) ?document fragment decoded of Inl e \<Rightarrow> None | Inr target \<Rightarrow> Some target))"
    unfolding resolveCompiledTarget_def s prod.case Let_def
    by (auto simp: resolve_target_def split: option.splits)
  show "outcome w Some st (resolveSchemaReference su reference base path schema keyword st)
      (demand (\<lambda>A. resolveCompiledTarget reference base (su_compiled su) \<noteq> None)
        (\<lambda>A. resolveCompiledTarget reference base (su_compiled su)) (\<lambda>A. bot) (standing_of st))"
    unfolding resolveSchemaReference_def Let_def s prod.case report_error_def
    using st refuse_return [OF st]
    by (auto simp: r demand_def standing_of_def outcome_def [of w _ st "Inr _"] split: option.split sum.split
        resolve_failure.split)
qed

lemma activate:
  "follows w (activate su node target schema path keyword message)
    (\<lambda>(A, E). map_option (\<lambda>A'. (A', E)) (take_pair node target A))"
proof (rule computesI)
  fix st assume st: "ready w st"
  let ?r = "activate su node target schema path keyword message st"
  let ?t = "map_option (Pair ())
      (case standing_of st of (A, E) \<Rightarrow> map_option (\<lambda>A'. (A', E)) (take_pair node target A))"
  show "outcome w (\<lambda>_. ()) st ?r ?t"
  proof (cases "active_pair node target \<in> set (vs_activeRefs st)")
    case True
    then have "?r = try_bind (push_back su (validationError su schema ReferenceCycle path keyword message) st)
        (\<lambda>(_, st1). Inl (Returned_false, st1))" "?t = None"
      by (simp_all add: activate_def active_pair_def Let_def then_step_def report_error_def return_false_def
          take_pair_def standing_of_def)
    then show ?thesis using refuse_return [OF st] by simp
  next
    case False
    then show ?thesis
      using st by (simp add: activate_def active_pair_def Let_def take_pair_def standing_of_def outcome_def ready_def
          books_def grows_def adds_def)
  qed
qed

end

context validator_keywords
begin

lemma tests_follows: "tests m ok seen \<Longrightarrow> follows w m (\<lambda>(A, E). if ok (A, E) then Some (A, sup E seen) else None)"
  by (erule computes_cong) (simp add: split_beta)

lemma apply_reference:
  "follows w (apply_reference su V fr target keyword message) (referenced v fr target)"
proof -
  have "follows w (then_step stop_if_aborted done_step) Some"
    by (rule follows_cong [OF asks_follows [OF asks_then_doneI [OF asks_stop_if_aborted]]]) auto
  from follows_then [OF activate follows_then [OF asks_follows [OF in_place] this]]
  have f: "follows w (apply_reference su V fr target keyword message)
      (\<lambda>x. Option.bind (case x of (A, E) \<Rightarrow> map_option (\<lambda>A'. (A', E)) (take_pair (fr_node fr) target A))
        (\<lambda>x. Option.bind (case x of (A, E) \<Rightarrow>
          if accepted (v A (fr_node fr) (tg_schema target) (Some (tg_resourceRoot target)) (tg_baseUri target))
          then Some (A, sup E (seen_of (v A (fr_node fr) (tg_schema target) (Some (tg_resourceRoot target))
            (tg_baseUri target)))) else None) Some))"
    unfolding apply_reference_def steps_of_simps .
  show ?thesis
  proof (rule follows_cong [OF f])
    fix x :: standing
    obtain A E where x: "x = (A, E)" by (cases x)
    show "Option.bind (case x of (A, E) \<Rightarrow> map_option (\<lambda>A'. (A', E)) (take_pair (fr_node fr) target A))
        (\<lambda>x. Option.bind (case x of (A, E) \<Rightarrow>
          if accepted (v A (fr_node fr) (tg_schema target) (Some (tg_resourceRoot target)) (tg_baseUri target))
          then Some (A, sup E (seen_of (v A (fr_node fr) (tg_schema target) (Some (tg_resourceRoot target))
            (tg_baseUri target)))) else None) Some) = referenced v fr target x"
    proof (cases "take_pair (fr_node fr) target A")
      case (Some A')
      show ?thesis
        by (cases "v A' (fr_node fr) (tg_schema target) (Some (tg_resourceRoot target)) (tg_baseUri target)")
          (simp_all add: x Some referenced_def)
    qed (simp add: x referenced_def)
  qed
qed

text \<open>A resolved reference, and what is done with it.\<close>

lemma follows_resolved:
  assumes "\<And>target. follows w (f target) (t target)"
  shows "follows w
    (then_step (take_reference su path message)
      (\<lambda>st. try_bind (resolveSchemaReference su reference base path schema keyword st) (\<lambda>(target, st1). f target st1)))
    (\<lambda>s. Option.bind (resolveCompiledTarget reference base (su_compiled su)) (\<lambda>target. t target s))"
proof -
  let ?target = "resolveCompiledTarget reference base (su_compiled su)"
  have "follows w (\<lambda>st. try_bind (resolveSchemaReference su reference base path schema keyword st)
      (\<lambda>(target, st1). f target st1)) (\<lambda>s. Option.bind ?target (\<lambda>target. t target s))"
  proof (rule computes_cong [OF computes_bind [where f = f and t = "\<lambda>r s. map_option (Pair ()) (t (the r) s)",
          OF resolveSchemaReference [unfolded obeys_def]]])
    show "follows w (f target) (t (the (Some target)))" for target
      using assms by simp
    show "Option.bind (demand (\<lambda>A. ?target \<noteq> None) (\<lambda>A. ?target) (\<lambda>A. bot) s)
        (\<lambda>(r, s). map_option (Pair ()) (t (the r) s)) =
        map_option (Pair ()) (Option.bind ?target (\<lambda>target. t target s))" for s
      by (cases ?target; cases s) (simp_all add: demand_def)
  qed
  from follows_then [OF asks_follows [OF take_reference] this] show ?thesis
    by (rule follows_cong) auto
qed

lemma check_ref: "follows w (check_ref su V fr) (ref_meaning su v fr)"
proof (cases "if dp_refSiblings (cu_policy (fr_at fr)) then reference_text fr ''$ref'' else None")
  case None
  then have "check_ref su V fr = done_step"
    by (auto simp: check_ref_def when_step_def with_some_def reference_text_def split: if_splits option.splits)
  moreover from None have "ref_meaning su v fr = Some"
    by (simp only: ref_meaning_def [abs_def] option.case)
  ultimately show ?thesis using follows_done by simp
next
  case (Some reference)
  then have e: "check_ref su V fr = then_step (take_reference su (fr_path fr) msg_ref_budget)
      (\<lambda>st. try_bind (resolveSchemaReference su reference (cu_baseUri (fr_at fr)) (fr_path fr) (fr_schema fr) ''$ref'' st)
        (\<lambda>(target, st1). apply_reference su V fr target ''$ref'' (''schema reference cycle detected: '' @ reference) st1))"
    by (auto simp: check_ref_def when_step_def with_some_def reference_text_def Let_def split: if_splits option.splits)
  show ?thesis
    unfolding e
    by (rule follows_cong [OF follows_resolved [OF apply_reference]]) (use Some in \<open>auto simp: ref_meaning_def\<close>)
qed

lemma check_dynamicRef: "follows w (check_dynamicRef su V fr) (dynamicRef_meaning su (at_scope w) v fr)"
proof (cases "reference_text fr ''$dynamicRef''")
  case None
  then have "check_dynamicRef su V fr = done_step"
    by (auto simp: check_dynamicRef_def when_step_def with_some_def reference_text_def split: if_splits option.splits)
  moreover from None have "dynamicRef_meaning su (at_scope w) v fr = Some"
    by (simp add: dynamicRef_meaning_def [abs_def])
  ultimately show ?thesis using follows_done by simp
next
  case (Some reference)
  let ?fragment = "snd (splitReference (resolveUri (cu_baseUri (fr_at fr)) reference))"
  let ?message = "''schema dynamic-reference cycle detected: '' @ reference"
  let ?f = "\<lambda>target st1. apply_reference su V fr
      (dynamic_target (su_compiled su) ?fragment target (vs_dynamicScope st1)) ''$dynamicRef'' ?message st1"
  have e: "check_dynamicRef su V fr =
      then_step (take_reference su (fr_path fr) ''schema $dynamicRef resolution budget exceeded'')
      (\<lambda>st. try_bind (resolveSchemaReference su reference (cu_baseUri (fr_at fr)) (fr_path fr) (fr_schema fr)
          ''$dynamicRef'' st) (\<lambda>(target, st1). ?f target st1))"
    using Some
    by (auto simp: check_dynamicRef_def when_step_def with_some_def reference_text_def Let_def split: if_splits option.splits)
  have "follows w (?f target)
      (referenced v fr (dynamic_target (su_compiled su) ?fragment target (at_scope w)))" for target
  proof (rule computesI)
    fix st assume st: "ready w st"
    then have "vs_dynamicScope st = at_scope w" by (simp add: ready_def)
    with computesD [OF apply_reference st]
    show "outcome w (\<lambda>_. ()) st (?f target st) (map_option (Pair ())
        (referenced v fr (dynamic_target (su_compiled su) ?fragment target (at_scope w)) (standing_of st)))"
      by simp
  qed
  from follows_resolved [OF this] show ?thesis
    unfolding e by (rule follows_cong) (simp add: dynamicRef_meaning_def Some Let_def)
qed

subsection \<open>All keywords\<close>

lemma check_keywords: "follows w (check_keywords su V fr) (schema_meaning su (at_scope w) v fr)"
proof -
  have "follows w (steps_of [check_unevaluatedProperties su V fr, check_unevaluatedItems su V fr])
      (\<lambda>s. Option.bind
        ((\<lambda>(A, E). if unevaluatedProperties_ok v fr (A, E) then Some (A, sup E (unevaluatedProperties_seen fr)) else None) s)
        (\<lambda>s. Option.bind
          ((\<lambda>(A, E). if unevaluatedItems_ok v fr (A, E) then Some (A, sup E (unevaluatedItems_seen fr)) else None) s) Some))"
    unfolding steps_of_simps
    by (intro follows_then follows_done tests_follows check_unevaluatedProperties check_unevaluatedItems)
  then have rest: "follows w (steps_of [check_unevaluatedProperties su V fr, check_unevaluatedItems su V fr])
      (\<lambda>(A, E). let E2 = sup E (unevaluatedProperties_seen fr)
        in if unevaluatedProperties_ok v fr (A, E) \<and> unevaluatedItems_ok v fr (A, E2)
           then Some (A, sup E2 (unevaluatedItems_seen fr)) else None)"
    by (rule follows_cong) (auto simp: Let_def)
  have "list_all2 (\<lambda>s (P, Q). asks w s P Q)
      [check_strict su fr, check_type su fr, check_const su fr, check_enum su fr, check_number su fr,
       check_string su fr, check_array su V fr, check_object su V fr, check_conditional su V fr,
       check_allOf su V fr, check_anyOf su V fr, check_oneOf su V fr, check_not su V fr]
      [(\<lambda>A. strict_ok su fr, \<lambda>A. bot), (\<lambda>A. type_ok fr, \<lambda>A. bot), (\<lambda>A. const_ok fr, \<lambda>A. bot),
       (\<lambda>A. enum_ok fr, \<lambda>A. bot), (\<lambda>A. number_ok su fr, \<lambda>A. bot), (\<lambda>A. string_ok su fr, \<lambda>A. bot),
       (array_ok v fr, array_seen v fr), (object_ok su v fr, object_seen su v fr),
       (conditional_ok v fr, conditional_seen v fr), (allOf_ok v fr, allOf_seen v fr),
       (anyOf_ok v fr, anyOf_seen v fr), (oneOf_ok v fr, oneOf_seen v fr), (not_ok v fr, \<lambda>A. bot)]"
    by (simp add: check_strict check_type check_const check_enum check_number check_string check_array check_object
        check_conditional check_allOf check_anyOf check_oneOf check_not)
  from follows_then [OF check_ref follows_then [OF check_dynamicRef follows_asks_steps [OF this rest]]]
  show ?thesis
    unfolding check_keywords_def append_Cons append_Nil steps_of_simps
    by (rule follows_cong)
      (auto simp: schema_meaning_def keywords_ok_def keywords_seen_def Let_def intro!: Option.bind_cong)
qed

end

end
