(* ===== verification/Schema_Run.thy ===== *)
theory Schema_Run
  imports Schema_Correct
begin

section \<open>Runs of the validator\<close>

subsection \<open>Chains of references\<close>

definition target_position :: "SchemaTarget \<Rightarrow> position" where
  "target_position target =
     \<lparr>cu_schema = tg_schema target, cu_resourceRoot = tg_resourceRoot target,
      cu_baseUri = tg_baseUri target, cu_policy = tg_policy target\<rparr>"

text \<open>A reference up to the test of the depth.\<close>

definition take_target :: "vsetup \<Rightarrow> pnode \<Rightarrow> string \<Rightarrow> position \<Rightarrow> string \<Rightarrow> vstate \<Rightarrow> SchemaTarget vresult" where
  "take_target su node path cur refText st =
     try_bind (take_reference su path msg_ref_budget st) (\<lambda>(_, st1).
     try_bind (resolveSchemaReference su refText (cu_baseUri cur) path (cu_schema cur) ''$ref'' st1) (\<lambda>(target, st2).
     try_bind (activate su node target (cu_schema cur) path ''$ref''
                 (''schema reference cycle detected: '' @ refText) st2) (\<lambda>(_, st3).
     try_bind (charge su path 1 st3) (\<lambda>(_, st4). Inr (target, st4)))))"

lemma try_bind_case: "try_bind m f = (case m of Inl e \<Rightarrow> Inl e | Inr a \<Rightarrow> f a)"
  by (cases m) simp_all

lemma follow_ref_eq:
  "follow_ref su node path cur refText st =
     try_bind (take_target su node path cur refText st) (\<lambda>(target, st4).
       if vs_depth st4 \<ge> validationDepthLimit (su_options su) then
         Inl (Returned_false, failValidationBudget su path msg_depth_budget st4)
       else Inr (target_position target, st4\<lparr>vs_depth := Suc (vs_depth st4)\<rparr>))"
  by (simp add: follow_ref_def take_target_def target_position_def try_bind_case split: sum.split prod.split)

lemma take_reference_same:
  "take_reference su path message st = Inr (u, st1) \<Longrightarrow>
    vs_aborted st1 = vs_aborted st \<and> vs_failures st1 = vs_failures st"
  by (auto simp: take_reference_def fail_budget_def split: if_splits)

lemma activate_same:
  "activate su node target schema path keyword message st = Inr (u, st1) \<Longrightarrow>
    vs_aborted st1 = vs_aborted st \<and> vs_failures st1 = vs_failures st"
  by (auto simp: activate_def then_step_def return_false_def Let_def split: if_splits)

lemma charge_same: "charge su path n st = Inr (u, st1) \<Longrightarrow> vs_aborted st1 = vs_aborted st \<and> vs_failures st1 = vs_failures st"
  by (auto dest: charge_Inr)

lemma take_target_same:
  "take_target su node path cur refText st = Inr (target, st1) \<Longrightarrow>
    vs_aborted st1 = vs_aborted st \<and> vs_failures st1 = vs_failures st"
  by (auto simp: take_target_def dest!: take_reference_same resolve_same activate_same charge_same)

lemma follow_ref_same:
  "follow_ref su node path cur refText st = Inr (cur', st1) \<Longrightarrow>
    vs_aborted st1 = vs_aborted st \<and> vs_failures st1 = vs_failures st"
  by (auto simp: follow_ref_eq split: if_splits dest!: take_target_same)

lemma follow_refs_same:
  "follow_refs su node path cur st = Inr (at, st1) \<Longrightarrow>
    vs_aborted st1 = vs_aborted st \<and> vs_failures st1 = vs_failures st"
proof (induction su node path cur st rule: follow_refs.induct)
  case (1 su node path cur st)
  let ?schema = "cu_schema cur"
  show ?case
  proof (cases "\<not> isBool (pn_value ?schema) \<and> isObject (pn_value ?schema) \<and> node_find ?schema ''$ref'' \<noteq> None
      \<and> isString (pn_value (the (node_find ?schema ''$ref''))) \<and> \<not> dp_refSiblings (cu_policy cur)")
    case True
    then obtain ref where c: "\<not> isBool (pn_value ?schema)" "\<not> \<not> isObject (pn_value ?schema)"
        "node_find ?schema ''$ref'' = Some ref" "\<not> (\<not> isString (pn_value ref) \<or> dp_refSiblings (cu_policy cur))"
      by auto
    with "1.prems" obtain cur' st2 where f: "follow_ref su node path cur (strOf (pn_value ref)) st = Inr (cur', st2)"
        "follow_refs su node path cur' st2 = Inr (at, st1)"
      by (subst (asm) follow_refs.simps) (auto simp: Let_def split: sum.splits)
    from "1.IH" [OF refl c f(1) refl f(2)] follow_ref_same [OF f(1)] show ?thesis by simp
  next
    case False
    with "1.prems" show ?thesis
      by (subst (asm) follow_refs.simps) (auto simp: Let_def split: if_splits option.splits)
  qed
qed

lemma computes_return: "computes w g (\<lambda>st. Inr (x, st)) (\<lambda>s. Some (g x, s))"
  by (rule computesI) (simp add: outcome_def)

lemma computes_behind:
  assumes "asserts w m True" "computes w h n t"
  shows "computes w h (\<lambda>st. try_bind (m st) (\<lambda>(_, st1). n st1)) t"
  by (rule computes_cong [OF computes_bind [where f = "\<lambda>_. n" and t = "\<lambda>_. t",
        OF assms(1) [unfolded obeys_def] assms(2)]]) (auto simp: demand_def)

context validator_site
begin

lemma take_target:
  "computes w (\<lambda>x. x) (take_target su node path cur refText)
    (\<lambda>(A, E). Option.bind (resolveCompiledTarget refText (cu_baseUri cur) (su_compiled su))
      (\<lambda>target. map_option (\<lambda>A'. (target, (A', E))) (take_pair node target A)))"
proof -
  let ?target = "resolveCompiledTarget refText (cu_baseUri cur) (su_compiled su)"
  let ?act = "\<lambda>target. activate su node target (cu_schema cur) path ''$ref''
                 (''schema reference cycle detected: '' @ refText)"
  let ?rest = "\<lambda>target st. try_bind (?act target st) (\<lambda>(_, st3).
                 try_bind (charge su path 1 st3) (\<lambda>(_, st4). Inr (target, st4)))"
  let ?t = "\<lambda>r s. case s of (A, E) \<Rightarrow> map_option (\<lambda>A'. (the r, (A', E))) (take_pair node (the r) A)"
  have rest: "computes w (\<lambda>x. x) (?rest target) (?t (Some target))" for target
  proof (rule computes_cong [OF computes_bind [OF activate, where t = "\<lambda>_ s. Some (target, s)"]])
    show "Option.bind (map_option (Pair ()) (case s of (A, E) \<Rightarrow> map_option (\<lambda>A'. (A', E)) (take_pair node target A)))
        (\<lambda>(y, s). Some (target, s)) = ?t (Some target) s" for s
      by (cases "take_pair node target (fst s)") (simp_all add: split_beta)
  qed (intro computes_behind asks_charge su computes_return)
  have "computes w (\<lambda>x. x) (\<lambda>st. try_bind (resolveSchemaReference su refText (cu_baseUri cur) path (cu_schema cur)
      ''$ref'' st) (\<lambda>(target, st2). ?rest target st2))
    (\<lambda>(A, E). Option.bind ?target (\<lambda>target. map_option (\<lambda>A'. (target, (A', E))) (take_pair node target A)))"
    by (rule computes_cong [OF computes_bind [where f = ?rest and t = ?t,
          OF resolveSchemaReference [unfolded obeys_def] rest]])
      (auto simp: demand_def split: option.split)
  then show ?thesis
    unfolding take_target_def [abs_def] by (intro computes_behind take_reference)
qed

end

text \<open>The depth a chain of references ends at, and what it leads to.\<close>

definition deeper :: "site \<Rightarrow> nat \<Rightarrow> site" where
  "deeper w d = w\<lparr>at_depth := at_depth w + d\<rparr>"

lemma deeper_simps [simp]:
  "at_setup (deeper w d) = at_setup w" "at_scope (deeper w d) = at_scope w" "at_levels (deeper w d) = at_levels w"
  "at_depth (deeper w d) = at_depth w + d" "deeper (deeper w d) e = deeper w (d + e)" "deeper w 0 = w"
  by (simp_all add: deeper_def ac_simps)

definition chain :: "nat \<Rightarrow> vsetup \<Rightarrow> pnode \<Rightarrow> position \<Rightarrow> standing \<Rightarrow> (position option \<times> standing) option" where
  "chain k su node cur = (\<lambda>(A, E). map_option (\<lambda>(at, A'). (at, (A', E))) (follow k su node cur A))"

lemma outcome_site:
  assumes "outcome w g st (Inl e) t" "at_setup w' = at_setup w" "at_scope w' = at_scope w" "t = None \<longleftrightarrow> t' = None"
  shows "outcome w' h st (Inl e) t'"
  using assms by (auto simp: outcome_def split: prod.splits vexit.splits if_splits)

lemma ready_one_deeper:
  assumes "ready w st" "vs_depth st < at_limit w"
  shows "ready (deeper w 1) (st\<lparr>vs_depth := Suc (vs_depth st)\<rparr>)"
  using assms by (simp add: ready_def books_def)

lemma grows_depth: "grows st (st'\<lparr>vs_depth := d\<rparr>) \<longleftrightarrow> grows st st'"
  by (simp add: grows_def adds_def)

context validator_site
begin

lemma follow_ref_steps:
  assumes st: "ready w st"
  shows "outcome (deeper w 1) (\<lambda>x. x) st (follow_ref su node path cur refText st)
    (case standing_of st of (A, E) \<Rightarrow> Option.bind (resolveCompiledTarget refText (cu_baseUri cur) (su_compiled su))
      (\<lambda>target. map_option (\<lambda>A'. (target_position target, (A', E))) (take_pair node target A)))"
  (is "outcome _ _ _ _ ?t")
proof -
  let ?whole = "case standing_of st of (A, E) \<Rightarrow>
      Option.bind (resolveCompiledTarget refText (cu_baseUri cur) (su_compiled su))
        (\<lambda>target. map_option (\<lambda>A'. (target, (A', E))) (take_pair node target A))"
  have t: "?t = map_option (\<lambda>(target, s). (target_position target, s)) ?whole"
    by (auto simp: option.map_comp comp_def split: prod.split Option.bind_split)
  from computesD [OF take_target st, of node path cur refText] show ?thesis
  proof (cases rule: outcome_cases)
    case (1 target st4)
    show ?thesis
    proof (cases "vs_depth st4 \<ge> validationDepthLimit (su_options su)")
      case True
      have "outcome w (\<lambda>x. x) st (Inl (Returned_false, failValidationBudget su path msg_depth_budget st4)) ?t"
        by (rule outcome_behind [OF 1(3) outcome_budget [OF 1(2) su]]) (use 1(4) t in auto)
      moreover have "follow_ref su node path cur refText st =
          Inl (Returned_false, failValidationBudget su path msg_depth_budget st4)"
        by (simp add: follow_ref_eq 1(1) True)
      ultimately show ?thesis by (simp add: outcome_site)
    next
      case False
      let ?st = "st4\<lparr>vs_depth := Suc (vs_depth st4)\<rparr>"
      have "ready (deeper w 1) ?st" using ready_one_deeper [OF 1(2)] False su by simp
      moreover have "standing_of ?st = standing_of st4" by (simp add: standing_of_def)
      moreover have "if vs_failures st4 = vs_failures st
          then vs_aborted st4 \<or> ?t = Some (target_position target, standing_of st4) else ?t = None"
        unfolding t using 1(4) by (auto simp del: map_option_eq_Some split: if_splits)
      moreover have "follow_ref su node path cur refText st = Inr (target_position target, ?st)"
        by (simp add: follow_ref_eq 1(1) False)
      ultimately show ?thesis
        using 1(3) by (simp add: outcome_def grows_depth)
    qed
  next
    case (2 st4)
    then have "follow_ref su node path cur refText st = Inl (Returned_false, st4)" by (simp add: follow_ref_eq)
    then show ?thesis using 2 t by (auto simp: outcome_def split: if_splits)
  next
    case (3 st4)
    then have "follow_ref su node path cur refText st = Inl (Budget_exceeded, st4)" by (simp add: follow_ref_eq)
    then show ?thesis using 3 t by (simp add: outcome_def)
  qed
qed

end

text \<open>Every reference is a level deeper, so a level more than the limit is never reached.\<close>

lemma follow_refs_end:
  assumes "follow_refs su node path cur st = Inr (at, st)" "follow (Suc k) su node cur (vs_activeRefs st) = Some (at, vs_activeRefs st)"
    "ready w st"
  shows "\<exists>d. outcome (deeper w d) (\<lambda>x. x) st (follow_refs su node path cur st) (chain (Suc k) su node cur (standing_of st))"
  by (rule exI [of _ 0]) (use assms in \<open>simp add: outcome_def chain_def standing_of_def\<close>)

lemma follow_refs_chain:
  assumes "ready w st" "at_limit w < at_depth w + k" "su = at_setup w"
  shows "\<exists>d. outcome (deeper w d) (\<lambda>x. x) st (follow_refs su node path cur st) (chain k su node cur (standing_of st))"
  using assms
proof (induction k arbitrary: w cur st)
  case 0
  then show ?case by (simp add: ready_def)
next
  case (Suc k)
  let ?schema = "cu_schema cur"
  note at_end = follow_refs_end [OF _ _ Suc.prems(1)]
  consider (false) "isBool (pn_value ?schema)" "\<not> boolOf (pn_value ?schema)"
    | (true) "isBool (pn_value ?schema)" "boolOf (pn_value ?schema)"
    | (other) "\<not> isBool (pn_value ?schema)" "\<not> isObject (pn_value ?schema)"
    | (stay) "\<not> isBool (pn_value ?schema)" "isObject (pn_value ?schema)"
        "node_find ?schema ''$ref'' = None \<or>
          (\<exists>ref. node_find ?schema ''$ref'' = Some ref \<and> (\<not> isString (pn_value ref) \<or> dp_refSiblings (cu_policy cur)))"
    | (ref) ref where "\<not> isBool (pn_value ?schema)" "isObject (pn_value ?schema)"
        "node_find ?schema ''$ref'' = Some ref" "isString (pn_value ref)" "\<not> dp_refSiblings (cu_policy cur)"
    by (cases "node_find ?schema ''$ref''") auto
  then show ?case
  proof cases
    case false
    have "chain (Suc k) su node cur (standing_of st) = None" by (simp add: chain_def standing_of_def false)
    moreover have "outcome w (\<lambda>x. x) st (follow_refs su node path cur st) None"
      using validator_site.refuse_return [OF validator_site.intro [OF Suc.prems(3)] Suc.prems(1)]
      by (subst follow_refs.simps) (simp add: false report_error_def)
    ultimately show ?thesis by (intro exI [of _ 0]) simp
  next
    case true
    show ?thesis by (rule at_end [where at = None]) (simp_all add: true follow_refs.simps [of su])
  next
    case other
    show ?thesis by (rule at_end [where at = None]) (simp_all add: other follow_refs.simps [of su])
  next
    case stay
    show ?thesis by (rule at_end [where at = "Some cur"]) (use stay in \<open>auto simp add: follow_refs.simps [of su]\<close>)
  next
    case (ref ref)
    let ?refText = "strOf (pn_value ref)"
    let ?one = "case standing_of st of (A, E) \<Rightarrow>
        Option.bind (resolveCompiledTarget ?refText (cu_baseUri cur) (su_compiled su))
          (\<lambda>target. map_option (\<lambda>A'. (target_position target, (A', E))) (take_pair node target A))"
    have c: "chain (Suc k) su node cur (standing_of st) = Option.bind ?one (\<lambda>(cur', s). chain k su node cur' s)"
      using ref by (auto simp: chain_def standing_of_def target_position_def split: Option.bind_split)
    have f: "follow_refs su node path cur st =
        try_bind (follow_ref su node path cur ?refText st) (\<lambda>(cur', st1). follow_refs su node path cur' st1)"
      using ref by (subst follow_refs.simps) (simp add: try_bind_case)
    from validator_site.follow_ref_steps [OF validator_site.intro [OF Suc.prems(3)] Suc.prems(1),
        of node path cur ?refText]
    show ?thesis
    proof (cases rule: outcome_cases)
      case (1 cur' st1)
      obtain d where "outcome (deeper (deeper w 1) d) (\<lambda>x. x) st1 (follow_refs su node path cur' st1)
          (chain k su node cur' (standing_of st1))"
        using Suc.IH [OF 1(2), of cur'] Suc.prems by auto
      then have "outcome (deeper w (1 + d)) (\<lambda>x. x) st (follow_refs su node path cur' st1)
          (chain (Suc k) su node cur (standing_of st))"
        unfolding c deeper_simps by (rule outcome_behind [OF 1(3)]) (use 1(4) in auto)
      then show ?thesis by (auto simp: f 1(1))
    next
      case (2 st1)
      show ?thesis unfolding c f 2(1) using 2 by (intro exI [of _ 1]) (auto simp: outcome_def split: if_splits)
    next
      case (3 st1)
      show ?thesis unfolding c f 3(1) using 3 by (intro exI [of _ 1]) (auto simp: outcome_def split: if_splits)
    qed
  qed
qed

subsection \<open>A level of the recursion\<close>

text \<open>What the body of the function promises before its guards undo what they do.\<close>

definition leveled :: "site \<Rightarrow> vstate \<Rightarrow> bool vresult \<Rightarrow> seen option \<Rightarrow> bool" where
  "leveled w st r t \<longleftrightarrow>
     (case r of
        Inr (answer, st') \<Rightarrow>
          books (at_setup w) st' \<and> grows st st' \<and> prefix (at_scope w) (vs_dynamicScope st')
          \<and> (answer \<longrightarrow> \<not> vs_aborted st')
          \<and> (if vs_failures st' = vs_failures st then vs_aborted st' \<or> answer \<and> t = Some (reached st')
             else \<not> answer \<and> t = None)
      | Inl (Returned_false, st') \<Rightarrow>
          books (at_setup w) st' \<and> grows st st' \<and> prefix (at_scope w) (vs_dynamicScope st')
          \<and> (if vs_failures st' = vs_failures st then vs_aborted st' else t = None)
      | Inl (Budget_exceeded, st') \<Rightarrow>
          books (at_setup w) st' \<and> \<not> vs_aborted st \<and> vs_aborted st' \<and> vs_mode st = Public
          \<and> vs_publicErrorStart st' = vs_publicErrorStart st
          \<and> prefix (vs_publicErrors st) (vs_publicErrors st') \<and> t = None
      | Inl (Out_of_fuel, st') \<Rightarrow> False)"

lemma leveled_budget:
  "ready w st \<Longrightarrow> su = at_setup w \<Longrightarrow> leveled w st (Inl (Returned_false, failValidationBudget su path message st)) t"
  using failValidationBudget_books [of su st path message] by (auto simp: leveled_def ready_def)

lemma take_prefix: "prefix xs ys \<Longrightarrow> take (length xs) ys = xs"
  by (auto simp: prefix_def)

lemma returned_called:
  assumes "leveled w (st\<lparr>vs_evaluated := no_annotations\<rparr>) r t" "ready w st"
  shows "called w st (returned st r) t"
proof -
  have undone: "ready w (leave st st')" "grows st (leave st st')" "vs_activeRefs (leave st st') = vs_activeRefs st"
      "vs_evaluated (leave st st') = vs_evaluated st" "vs_aborted (leave st st') = vs_aborted st'"
      "vs_failures (leave st st') = vs_failures st'"
    if "books (at_setup w) st'" "grows (st\<lparr>vs_evaluated := no_annotations\<rparr>) st'" "prefix (at_scope w) (vs_dynamicScope st')"
    for st'
  proof -
    have "prefix (vs_activeRefs st) (vs_activeRefs st')" using that(2) by (simp add: grows_def)
    moreover have "prefix (vs_dynamicScope st) (vs_dynamicScope st')" using that(3) assms(2) by (simp add: ready_def)
    ultimately show "ready w (leave st st')" "grows st (leave st st')" "vs_activeRefs (leave st st') = vs_activeRefs st"
      "vs_evaluated (leave st st') = vs_evaluated st" "vs_aborted (leave st st') = vs_aborted st'"
      "vs_failures (leave st st') = vs_failures st'"
      using assms(2) that by (auto simp: leave_def take_prefix ready_def books_def grows_def adds_def)
  qed
  show ?thesis
  proof (cases r)
    case (Inl x)
    obtain e st' where "x = (e, st')" by (cases x)
    with Inl assms(1) undone [of st'] show ?thesis
      by (cases e) (auto simp: leveled_def returned_def called_def split: if_splits)
  next
    case (Inr x)
    obtain answer st' where "x = (answer, st')" by (cases x)
    with Inr assms(1) undone [of st'] show ?thesis
      by (auto simp: leveled_def returned_def called_def split: if_splits)
  qed
qed

lemma leveled_behind:
  assumes "grows st st1" "vs_failures st1 = vs_failures st" "leveled w st1 r t"
  shows "leveled w st r t"
proof -
  note g = grows_trans [OF assms(1)]
  have p: "prefix (vs_publicErrors st) (vs_publicErrors st')" if "prefix (vs_publicErrors st1) (vs_publicErrors st')" for st'
    using grows_prefix [OF assms(1)] that by (rule prefix_order.trans)
  show ?thesis
  proof (cases r)
    case (Inl x)
    obtain e st' where "x = (e, st')" by (cases x)
    with Inl assms g [of st'] p [of st'] show ?thesis
      by (cases e) (auto simp: leveled_def grows_def)
  next
    case (Inr x)
    obtain answer st' where "x = (answer, st')" by (cases x)
    with Inr assms(2,3) g [of st'] show ?thesis by (simp add: leveled_def)
  qed
qed

lemma leveled_deeper [simp]: "leveled (deeper w d) = leveled w"
  by (intro ext) (simp only: leveled_def deeper_simps)

lemma prefix_pushResource: "prefix scope (pushResource cur scope)"
  by (simp add: pushResource_def Let_def)

text \<open>The site the keywords of a schema are checked at.\<close>

definition inner_site :: "site \<Rightarrow> position \<Rightarrow> nat \<Rightarrow> site" where
  "inner_site w here n =
     \<lparr>at_setup = at_setup w, at_scope = pushResource here (at_scope w), at_depth = at_depth w, at_levels = n\<rparr>"

lemma inner_site_simps [simp]:
  "at_setup (inner_site w here n) = at_setup w" "at_scope (inner_site w here n) = pushResource here (at_scope w)"
  "at_depth (inner_site w here n) = at_depth w" "at_levels (inner_site w here n) = n"
  by (simp_all add: inner_site_def)

lemma check_schema_leveled:
  assumes "validator_keywords (inner_site w (settle su cur) n) su V v" "ready w st" "at_limit w < at_depth w + n"
  shows "leveled w st (check_schema su V node path cur st)
    (map_option snd (schema_meaning su (pushResource (settle su cur) (at_scope w)) v
      \<lparr>fr_node = node, fr_path = path, fr_at = settle su cur\<rparr> (standing_of st)))"
proof -
  let ?here = "settle su cur"
  let ?w = "inner_site w ?here n"
  let ?fr = "\<lparr>fr_node = node, fr_path = path, fr_at = ?here\<rparr>"
  define st1 where "st1 = st\<lparr>vs_dynamicScope := pushResource ?here (vs_dynamicScope st)\<rparr>"
  have st1: "ready ?w st1" using assms(2,3) by (simp add: st1_def ready_def books_def)
  have g: "grows st st1" by (simp add: st1_def grows_def adds_def)
  have f: "vs_failures st1 = vs_failures st" by (simp add: st1_def)
  have c: "check_schema su V node path cur st =
      try_bind (check_keywords su V ?fr st1) (\<lambda>(_, st2). Inr (\<not> vs_aborted st2 \<and> vs_failures st2 = vs_failures st, st2))"
    by (simp add: check_schema_def st1_def Let_def)
  define t where "t = schema_meaning su (pushResource ?here (at_scope w)) v ?fr (standing_of st)"
  have "outcome ?w (\<lambda>_. ()) st1 (check_keywords su V ?fr st1) (map_option (Pair ()) t)"
    using computesD [OF validator_keywords.check_keywords [OF assms(1)] st1, of ?fr]
    by (simp add: t_def st1_def standing_of_def)
  then have "leveled w st1 (check_schema su V node path cur st) (map_option snd t)"
  proof (cases rule: outcome_cases)
    case (1 x st2)
    have "prefix (at_scope w) (vs_dynamicScope st2)"
      using 1(2) prefix_pushResource by (simp add: ready_def)
    with 1 show ?thesis by (auto simp: c leveled_def ready_def f standing_of_def)
  next
    case (2 st2)
    have "prefix (at_scope w) (vs_dynamicScope st2)"
      using prefix_order.trans [OF prefix_pushResource 2(4) [simplified]] .
    with 2 show ?thesis by (auto simp: c leveled_def)
  next
    case (3 st2)
    then show ?thesis by (simp add: c leveled_def)
  qed
  from leveled_behind [OF g f this] show ?thesis by (simp only: t_def)
qed

text \<open>The path of the instance is for messages only.\<close>

lemmas meaning_of_frame =
  frame.select_convs keyword_of_def min_contains_def schema_meaning_def ref_meaning_def
  dynamicRef_meaning_def referenced_def reference_text_def strict_ok_def type_ok_def const_ok_def
  enum_ok_def bound_ok_def multiple_ok_def number_ok_def size_ok_def sizes_ok_def pattern_ok_def
  format_ok_def string_ok_def unique_ok_def placed_items_def items_ok_def items_seen_def contained_def
  contains_ok_def contains_seen_def array_ok_def array_seen_def names_ok_def required_ok_def
  placed_members_def properties_ok_def properties_seen_def pattern_pairs_def pattern_pair_ok_def
  patterns_ok_def pattern_matched_def propertyNames_ok_def triggered_def dependentRequired_ok_def
  dependency_ok_def dependencies_ok_def dependencies_seen_def dependentSchemas_ok_def
  dependentSchemas_seen_def additional_names_def additional_ok_def additional_seen_def object_ok_def
  object_seen_def branch_of_def conditional_ok_def conditional_seen_def subschemas_def branches_def
  allOf_ok_def allOf_seen_def anyOf_ok_def anyOf_seen_def matching_def oneOf_ok_def oneOf_seen_def
  not_ok_def keywords_ok_def keywords_seen_def unevaluatedProperties_ok_def unevaluatedProperties_seen_def
  unevaluatedItems_ok_def unevaluatedItems_seen_def

lemma schema_meaning_path:
  "schema_meaning su scope v \<lparr>fr_node = node, fr_path = path, fr_at = cur\<rparr> =
   schema_meaning su scope v \<lparr>fr_node = node, fr_path = [], fr_at = cur\<rparr>"
  unfolding meaning_of_frame ..

text \<open>A level above calls that mean their schemas.\<close>

lemma validate_leveled:
  assumes V: "\<And>d here. validator_keywords (inner_site (deeper w (Suc d)) here n) su V (meaning_of n su (pushResource here (at_scope w)))"
    and st: "ready w st" and w: "at_levels w = Suc n" "su = at_setup w" and start: "reached st = bot"
  shows "leveled w st (validate_level su V node schema path root base st)
    (meaning_of (Suc n) su (at_scope w) (vs_activeRefs st) node schema root base)"
  (is "leveled w st ?r ?t")
proof (cases "vs_aborted st")
  case True
  then show ?thesis using st by (simp add: validate_level_def leveled_def ready_def)
next
  case running: False
  from chargeValidationWork_cases [OF st w(2), of path 1] show ?thesis
  proof cases
    case 1
    then have "?r = Inl (Returned_false, failValidationBudget su path msg_work_budget st)"
      by (simp add: validate_level_def running charge_def)
    then show ?thesis using leveled_budget [OF st w(2)] by (simp del: meaning_of.simps)
  next
    case (2 st1)
    have a1: "\<not> vs_aborted st1" using 2(1) running charge_same [of su path 1 st "()" st1] by (simp add: charge_def)
    let ?cur = "initial_position su schema root base"
    let ?st = "st1\<lparr>vs_depth := Suc (vs_depth st1)\<rparr>"
    show ?thesis
    proof (cases "vs_depth st1 \<ge> validationDepthLimit (su_options su)")
      case True
      then have "?r = Inl (Returned_false, failValidationBudget su path msg_depth_budget st1)"
        using 2(1) by (simp add: validate_level_def running charge_def)
      then show ?thesis using leveled_behind [OF 2(3,4) leveled_budget [OF 2(2) w(2)]] by (simp del: meaning_of.simps)
    next
      case False
      let ?w = "deeper w 1"
      define k where "k = (\<lambda>(at, st2). case at of
          None \<Rightarrow> Inr (True, st2) | Some cur \<Rightarrow> check_schema su V node path cur st2)"
      have r: "?r = try_bind (follow_refs su node path ?cur ?st) k"
        using 2(1) False by (simp add: validate_level_def running charge_def k_def)
      have st': "ready ?w ?st" using ready_one_deeper [OF 2(2)] False w(2) by simp
      have s: "standing_of ?st = (vs_activeRefs st, bot)" using 2(5) start by (simp add: standing_of_def)
      have g: "grows st ?st" "vs_failures ?st = vs_failures st" using 2(3,4) by (simp_all add: grows_depth)
      have "at_limit ?w < at_depth ?w + n" "su = at_setup ?w" using st w by (simp_all add: ready_def)
      from follow_refs_chain [OF st' this, of node path ?cur] obtain d where
        d: "outcome (deeper w (Suc d)) (\<lambda>x. x) ?st (follow_refs su node path ?cur ?st) (chain n su node ?cur (vs_activeRefs st, bot))"
        by (auto simp: s)
      have chained: "chain n su node ?cur (vs_activeRefs st, bot) = None \<Longrightarrow> ?t = None" by (simp add: chain_def)
      from d have "leveled w ?st ?r ?t"
      proof (cases rule: outcome_cases)
        case (1 at st2)
        have a2: "\<not> vs_aborted st2" and f2: "vs_failures st2 = vs_failures ?st"
          using follow_refs_same [OF 1(1)] a1 by simp_all
        with 1(4) obtain A where A: "follow n su node ?cur (vs_activeRefs st) = Some (at, A)" "standing_of st2 = (A, bot)"
          by (auto simp: chain_def)
        have l: "leveled w st2 (k (at, st2)) ?t"
        proof (cases at)
          case None
          then show ?thesis using 1(2) a2 A by (auto simp: k_def leveled_def ready_def standing_of_def)
        next
          case (Some cur)
          have "at_limit (deeper w (Suc d)) < at_depth (deeper w (Suc d)) + n" using st w(1) by (simp add: ready_def)
          from check_schema_leveled [OF V 1(2) this, of node path cur]
          show ?thesis
            using schema_meaning_path [of su "pushResource (settle su cur) (at_scope w)"
                "meaning_of n su (pushResource (settle su cur) (at_scope w))"
                node path "settle su cur"]
            by (simp add: Some k_def A Let_def)
        qed
        from leveled_behind [OF 1(3) f2 this] show ?thesis by (simp add: r 1(1) del: meaning_of.simps)
      next
        case (2 st2)
        then show ?thesis using chained by (auto simp: r leveled_def split: if_splits)
      next
        case (3 st2)
        then show ?thesis using chained by (auto simp: r leveled_def split: if_splits)
      qed
      from leveled_behind [OF g this] show ?thesis .
    qed
  qed
qed

subsection \<open>The recursion\<close>

text \<open>At every depth a call means its schema, as long as there is a level for each depth that is left.\<close>

lemma validateCtx_called:
  assumes "ready w st" "at_levels w = n" "su = at_setup w"
  shows "called w st (validateCtx n su node schema path root base st)
    (meaning_of n su (at_scope w) (vs_activeRefs st) node schema root base)"
  using assms
proof (induction n arbitrary: w node schema path root base st)
  case 0
  then have False by (auto simp: ready_def)
  then show ?case ..
next
  case (Suc n)
  let ?st = "st\<lparr>vs_evaluated := no_annotations\<rparr>"
  have V: "validator_keywords (inner_site (deeper w (Suc d)) here n) su (validateCtx n su)
      (meaning_of n su (pushResource here (at_scope w)))" for d here
  proof (intro validator_keywords.intro validator_site.intro validator_call.intro)
    show "su = at_setup (inner_site (deeper w (Suc d)) here n)" using Suc.prems(3) by simp
    show "called (inner_site (deeper w (Suc d)) here n) st (validateCtx n su node schema path root base st)
        (meaning_of n su (pushResource here (at_scope w)) (vs_activeRefs st) node schema root base)"
      if "ready (inner_site (deeper w (Suc d)) here n) st" for st node schema path root base
      using Suc.IH [OF that] Suc.prems(3) by simp
  qed
  have "ready w ?st" "reached ?st = bot" "vs_activeRefs ?st = vs_activeRefs st"
    using Suc.prems(1) by (simp_all add: ready_def books_def)
  with validate_leveled [OF V this(1) Suc.prems(2,3) this(2), of node schema path root base]
  have "leveled w ?st (validate_level su (validateCtx n su) node schema path root base ?st)
      (meaning_of (Suc n) su (at_scope w) (vs_activeRefs st) node schema root base)"
    by (simp del: meaning_of.simps)
  from returned_called [OF this Suc.prems(1)] show ?case by (simp only: validateCtx.simps)
qed

text \<open>The contracts of the blocks, on the validator of the code.\<close>

abbreviation run_site :: "vsetup \<Rightarrow> SchemaTarget list \<Rightarrow> nat \<Rightarrow> nat \<Rightarrow> site" where
  "run_site su scope depth levels \<equiv> \<lparr>at_setup = su, at_scope = scope, at_depth = depth, at_levels = levels\<rparr>"

interpretation run_at: validator_site "run_site su scope depth levels" su for su scope depth levels
  by unfold_locales simp

interpretation run_calls: validator_call "run_site su scope depth levels" "validateCtx levels su" "meaning_of levels su scope"
  for su scope depth levels
  by unfold_locales (use validateCtx_called in fastforce)

interpretation run_keywords: validator_keywords "run_site su scope depth levels" su "validateCtx levels su"
    "meaning_of levels su scope"
  for su scope depth levels
  by unfold_locales

subsection \<open>A run\<close>

abbreviation first_site :: "vsetup \<Rightarrow> nat \<Rightarrow> site" where
  "first_site su k \<equiv> run_site su [] 0 (Suc (validationDepthLimit (su_options su)) + k)"

lemma ready_new_run: "ready (first_site su k) (new_run errors)"
  using diagnosticLimit_pos [of "su_options su"]
  by (simp add: ready_def new_run_def books_def cache_ok_def)

lemma run_called:
  "called (first_site su k) (new_run errors)
    (validateCtx (Suc (validationDepthLimit (su_options su)) + k) su node schema path root base (new_run errors))
    (meaning_of (Suc (validationDepthLimit (su_options su)) + k) su [] [] node schema root base)"
proof -
  have "vs_activeRefs (new_run errors) = []" by (simp add: new_run_def)
  with run_calls.call [OF ready_new_run] show ?thesis by metis
qed

end
