(* ===== verification/Schema_Properties.thy ===== *)
theory Schema_Properties
  imports Schema_Run
begin

section \<open>Properties of schema validation\<close>

text \<open>
  What a caller of \<open>validate\<close> relies on, read off the contract of \<open>Schema_Run\<close> for a whole run: it
  ends, its answer is the meaning of the schema unless a budget is used up, and the errors it reports
  go with the answer and stay inside the limit.
\<close>

subsection \<open>Exits of a run\<close>

lemma run_books:
  assumes "books su st" "vs_publicErrorStart st = length errors"
  shows "length (vs_publicErrors st) \<le> length errors + diagnosticLimit (su_options su)"
    "vs_aborted st \<Longrightarrow> length errors < length (vs_publicErrors st)"
  using assms by (auto simp: books_def split: if_splits)

lemma runValidation_cases:
  obtains (valid) E where "runValidation su node schema errors = (True, errors)"
      "meaning_of (Suc (validationDepthLimit (su_options su))) su [] [] node schema None [] = Some E"
  | (invalid) e es where "runValidation su node schema errors = (False, errors @ e # es)"
      "meaning_of (Suc (validationDepthLimit (su_options su))) su [] [] node schema None [] = None"
      "length (e # es) \<le> diagnosticLimit (su_options su)"
  | (budget) e where "runValidation su node schema errors = (False, errors @ [e])" "budget_error e"
      "1 \<le> diagnosticLimit (su_options su)"
proof -
  let ?n = "Suc (validationDepthLimit (su_options su))"
  let ?t = "meaning_of ?n su [] [] node schema None []"
  have start: "vs_publicErrorStart (new_run errors) = length errors" "vs_publicErrors (new_run errors) = errors"
      "vs_mode (new_run errors) = Public" "\<not> vs_aborted (new_run errors)"
    by (simp_all add: new_run_def)
  from run_called [of su 0 errors node schema "[]" None "[]"]
  have "called (first_site su 0) (new_run errors) (validateCtx ?n su node schema [] None [] (new_run errors)) ?t"
    by (simp only: add_0_right)
  then show ?thesis
  proof (cases rule: called_cases)
    case (1 answer other st)
    have r: "runValidation su node schema errors = (answer, vs_publicErrors st)"
      by (simp only: runValidation_def 1(1) sum.case prod.case)
    have b: "books su st" using 1(2) by (simp add: ready_def)
    obtain new where new: "adds (new_run errors) st new" and s: "vs_publicErrorStart st = length errors"
      using 1(3) start by (auto simp: grows_def)
    then have errs: "vs_publicErrors st = errors @ new" by (simp add: adds_def start)
    note bound = run_books [OF b s, unfolded errs length_append]
    show ?thesis
    proof (cases "vs_failures st = vs_failures (new_run errors)")
      case False
      with new start have "new \<noteq> []" by (simp add: adds_def)
      then obtain e es where "new = e # es" by (cases new) auto
      with False 1(7) r errs bound(1) show ?thesis by (intro invalid [of e es]) simp_all
    next
      case True
      show ?thesis
      proof (cases "vs_aborted st")
        case aborted: True
        have "new \<noteq> []" using bound(2) [OF aborted] by simp
        then obtain e where e: "new = [e]" "budget_error e" using new True by (auto simp: adds_def)
        with aborted 1(6) r errs bound(1) show ?thesis by (intro budget [of e]) simp_all
      next
        case False
        with new True have "new = []" by (auto simp: adds_def)
        with False True 1(7) r errs show ?thesis by (intro valid [of "reach_of other"]) simp_all
      qed
    qed
  next
    case (2 st)
    have r: "runValidation su node schema errors = (False, vs_publicErrors st)"
      by (simp only: runValidation_def 2(1) sum.case prod.case)
    have b: "books su st" using 2(2) by simp
    have s: "vs_publicErrorStart st = length errors" using 2(6) start by simp
    obtain new where errs: "vs_publicErrors st = errors @ new" using 2(7) start by (auto simp: prefix_def)
    note bound = run_books [OF b s, unfolded errs length_append]
    have "new \<noteq> []" using bound(2) [OF 2(4)] by simp
    then obtain e es where "new = e # es" by (cases new) auto
    with 2(8) r errs bound(1) show ?thesis by (intro invalid [of e es]) simp_all
  qed
qed

subsection \<open>Properties\<close>

text \<open>C36: Validation ends, whatever the schema and its references are, cyclic ones included. The
  recursion that \<^const>\<open>validateCtx\<close> follows never needs more levels than the depth limit allows and
  one: with those, or with more, it returns or leaves by an exit of the code.\<close>

theorem validateCtx_returns:
  "validateCtx (Suc (validationDepthLimit (su_options su)) + k) su node schema path root base (new_run errors)
     \<noteq> Inl (Out_of_fuel, st)"
  using run_called [of su k errors node schema path root base] by (auto simp: called_def)

text \<open>C37: Validation decides the meaning of the schema. The answer \<open>true\<close> is given, and nothing is
  reported, only when the schema accepts the value; the answer \<open>false\<close> comes with a reported error,
  and then the schema rejects the value, or the only error reported is that of an exhausted budget.\<close>

theorem runValidation_decides:
  "case runValidation su node schema errors of (answer, reported) \<Rightarrow>
     (let meaning = meaning_of (Suc (validationDepthLimit (su_options su))) su [] [] node schema None []
      in if answer then meaning \<noteq> None \<and> reported = errors
         else \<exists>e es. reported = errors @ e # es \<and> (meaning = None \<or> budget_error e \<and> es = []))"
  by (rule runValidation_cases [of su node schema errors]) (simp_all add: Let_def del: meaning_of.simps not_None_eq)

text \<open>C38: The caller's vector is only ever appended to, and by no more errors than the limit on
  diagnostics allows: one when validation stops at the first error. The answer is \<open>true\<close> exactly when
  none is appended.\<close>

theorem runValidation_bounded:
  "case runValidation su node schema errors of (answer, reported) \<Rightarrow>
     \<exists>new. reported = errors @ new \<and> length new \<le> diagnosticLimit (su_options su) \<and> (answer = (new = []))"
  by (rule runValidation_cases [of su node schema errors]) simp_all

end
