(* ===== verification/Spec2Isabelle.thy ===== *)
theory Spec2Isabelle
  imports Dom_Properties Patch_Properties Parser_Properties Serializer_Properties Key_Hash Sax_Properties
    Schema_Decimal Schema_Properties
begin

text \<open>
  A verification development for pjson, a C++ JSON library (\<open>src/pjsonlib\<close>).

  The library holds a JSON value as a mutable tree (\<open>pjson.h\<close>, \<open>pjson_internal.h\<close>,
  \<open>pjson.cpp\<close>), addresses nodes by JSON Pointer (\<open>pjson_pointer.cpp\<close>), patches trees
  (\<open>pjson_patch.cpp\<close>), parses text into trees or events (\<open>pjson_parser.cpp\<close>), writes trees as
  text (\<open>pjson_serialize.cpp\<close>) and validates trees against schemas (\<open>pjson_schema*.cpp\<close>).

  Theories and what they model:

  \<^item> \<open>Prelude\<close>: machine types, exceptions as values, result bind, byte classes, association-list
    and word facts.
  \<^item> \<open>Binary64\<close>: the C++ \<open>double\<close> as its 64-bit encoding with an exact integer value.
  \<^item> \<open>Json_Value\<close>, \<open>Json_Compare\<close>, \<open>Json_Edit\<close>: the tree, its queries and extraction, comparison
    and equality, and the mutating operations without aliasing.
  \<^item> \<open>Json_Path\<close>: locations in a tree, reading and writing through them.
  \<^item> \<open>Deep_Copy\<close>, \<open>Json_Alias\<close>: the iterative copy and teardown, and the operations whose two
    operands may lie in one tree, over a store of roots.
  \<^item> \<open>Decimal\<close>, \<open>Json_Pointer\<close>: decimal texts, pointer decoding and traversal.
  \<^item> \<open>Dom_Properties\<close>: the properties of these components.
  \<^item> \<open>Key_Hash\<close>: the hash of object names against SipHash-2-4, and the mixing of its key.
  \<^item> \<open>Patch_Budget\<close>, \<open>Json_Patch\<close>, \<open>Merge_Patch\<close>: the structured errors and resource budgets of
    \<open>pjson_patch.cpp\<close>, RFC 6902 patches and RFC 7396 merge patches, against their recursive
    semantics. A step is a function of the budget; what it computes and what it may spend is
    proved together.
  \<^item> \<open>Patch_Properties\<close>: the properties of the patches, and the locale of measures that the
    budgets pay for, interpreted for node counts and for byte counts.
  \<^item> \<open>Utf8\<close>, \<open>Number_Token\<close>, \<open>Number_Value\<close>, \<open>Parse_Error\<close>: UTF-8, the number scanner over any
    cursor, number conversion and its exactness, options, error codes and coordinates.
  \<^item> \<open>Json_Grammar\<close>, \<open>Parsed_Value\<close>: RFC 8259 as derivations of a text from a tree, what a tree
    stands for, and what every such value satisfies.
  \<^item> \<open>Dom_Parser\<close>, \<open>Dom_Parse_Correct\<close>, \<open>Dom_Parse_Failure\<close>: the recursive-descent parser, its
    soundness and completeness for the grammar, and where a failing parse points.
  \<^item> \<open>Parser_Properties\<close>: the properties of the parser.
  \<^item> \<open>Sax_Cursor\<close>: the buffer and stream cursors of the event parser behind one locale of cursor
    laws, interpreted for both.
  \<^item> \<open>Sax_Parser\<close>: the event parser over a cursor, a handler as a function of its own state, and
    every way a parse is left. The termination measure is the number of bytes still ahead.
  \<^item> \<open>Sax_Invariant\<close>: a locale of predicates that no step disturbs, and what every parse keeps of
    the coordinates and the error record.
  \<^item> \<open>Sax_Events\<close>, \<open>Sax_Correct\<close>, \<open>Sax_Sound\<close>, \<open>Sax_Properties\<close>: the events of a tree of the grammar,
    both directions of the correspondence with the grammar, and the properties.
  \<^item> \<open>Serialize_Sink\<close>, \<open>Serializer\<close>: options and errors, the string, counting and stream sinks, and
    the iterative serializer over any sink. The shortest decimal of a double (vendored Ryu) is a
    parameter.
  \<^item> \<open>Serialize_Render\<close>, \<open>Serialize_Result\<close>: the recursive reference output, the locale of sink laws
    under which the traversal produces it, its interpretation for the three sinks, and the text
    under a byte budget.
  \<^item> \<open>Serialize_Number\<close>, \<open>Serialize_Roundtrip\<close>, \<open>Serializer_Properties\<close>: the value of a formatted
    double, the output as a text of the grammar, and the properties of the serializer.
  \<^item> \<open>Schema_Value\<close>, \<open>Schema_Decimal\<close>: the helpers of \<open>pjson_schema_value.cpp\<close>, and its exact decimals
    against rational divisibility.
  \<^item> \<open>Schema_Uri\<close>, \<open>Schema_Format\<close>: URI resolution (\<open>pjson_schema_uri.cpp\<close>), the filters in front of
    the vendored regular-expression engine (\<open>pjson_schema_regex.cpp\<close>) and the formats
    (\<open>pjson_schema_format.cpp\<close>). The engine is a parameter.
  \<^item> \<open>Schema_Dialect\<close>: options, limits, vocabularies, policies and the index of a compiled schema
    (\<open>pjson_schema_dialect.cpp\<close>, \<open>pjson_schema.h\<close>). A node is its identity and its value.
  \<^item> \<open>Schema_State\<close>, \<open>Schema_Validate\<close>: \<open>ValidationCtx\<close>, \<open>ErrorSink\<close> and \<open>validateCtx\<close> of
    \<open>pjson_schema.cpp\<close>, one definition for each keyword or group of keywords. A step is a function of
    the state of the run with three exits: a value, an early \<open>return false\<close>, and the exception of an
    exhausted error budget. The recursion counts its levels.
  \<^item> \<open>Schema_Calculus\<close>: what a step does to the books of a run and what it decides, in one judgement,
    with a rule for every construct and the contract of a call as a locale.
  \<^item> \<open>Schema_Meaning\<close>, \<open>Schema_Blocks\<close>: what each keyword asks for and evaluates, written without
    budgets, errors or state, and the proof that its block does just that.
  \<^item> \<open>Schema_Correct\<close>, \<open>Schema_Run\<close>, \<open>Schema_Properties\<close>: references, the recursion, whole runs, the
    interpretation of the locales on \<open>validateCtx\<close>, and the properties.

  Fuel. Only \<open>validateCtx\<close> counts levels; every call raises the depth of the run, which the options
  limit to 32 at most, so one level more than the limit is enough (\<open>validateCtx_returns\<close>). Every other
  loop has a termination proof.

  Not modelled: allocation failure and the allocators of the DOM; the compilation of schemas (the
  indexing of documents, identifiers, anchors and the checks of keywords in the constructor), whose
  result, the index, is an argument of the validator and arbitrary in every property; the built-in
  meta-schemas, which are generated data; the vendored libraries Ryu and SRELL, which are parameters.
\<close>

end
